(* ===== verification/KPrelude.thy ===== *)
theory KPrelude
  imports Main "HOL-Library.Word"
begin

text \<open>
  Shared vocabulary of the development: the widths of the i386 kernel's integers, pointers as
  natural numbers with \<open>NULL = 0\<close>, the \<open>errno\<close> values of include/asm-i386/errno.h that the
  modelled code returns, linked lists threaded through an object store, the contract of a state
  machine with an invariant (locale \<open>state_machine\<close>), and the generic list and word lemmas the
  component theories use.  The simp collection of the development is \<open>kdefs\<close> (small definitions that
  proofs always unfold).
\<close>

unbundle bit_operations_syntax

type_synonym u8 = "8 word"
type_synonym u16 = "16 word"
type_synonym u32 = "32 word"
type_synonym u64 = "64 word"
type_synonym addr = nat

named_theorems kdefs

abbreviation (input) NULL :: addr where "NULL \<equiv> 0"

subsection \<open>Error codes (include/asm-i386/errno.h)\<close>

definition EPERM :: int where [kdefs]: "EPERM = 1"
definition EINTR :: int where [kdefs]: "EINTR = 4"
definition EAGAIN :: int where [kdefs]: "EAGAIN = 11"
definition ENOMEM :: int where [kdefs]: "ENOMEM = 12"
definition EACCES :: int where [kdefs]: "EACCES = 13"
definition EFAULT :: int where [kdefs]: "EFAULT = 14"
definition EBUSY :: int where [kdefs]: "EBUSY = 16"
definition EINVAL :: int where [kdefs]: "EINVAL = 22"
definition EFBIG :: int where [kdefs]: "EFBIG = 27"
definition ERANGE :: int where [kdefs]: "ERANGE = 34"
definition EDEADLK :: int where [kdefs]: "EDEADLK = 35"
definition ENOLCK :: int where [kdefs]: "ENOLCK = 37"
definition EIDRM :: int where [kdefs]: "EIDRM = 43"

subsection \<open>Linked lists in an object store\<close>

text \<open>\<open>chain nxt p xs\<close>: following \<open>nxt\<close> from \<open>p\<close> visits exactly the objects \<open>xs\<close> and then NULL.\<close>

primrec chain :: "(addr \<Rightarrow> addr) \<Rightarrow> addr \<Rightarrow> addr list \<Rightarrow> bool" where
  "chain nxt p [] \<longleftrightarrow> p = NULL"
| "chain nxt p (x # xs) \<longleftrightarrow> p = x \<and> x \<noteq> NULL \<and> chain nxt (nxt x) xs"

lemma chain_cong:
  "(\<And>x. x \<in> set xs \<Longrightarrow> f x = g x) \<Longrightarrow> chain f p xs = chain g p xs"
  by (induction xs arbitrary: p) auto

lemma chain_NULL [simp]: "chain nxt 0 xs \<longleftrightarrow> xs = []"
  by (cases xs) auto

lemma chain_unique: "chain nxt p xs \<Longrightarrow> chain nxt p ys \<Longrightarrow> xs = ys"
proof (induction xs arbitrary: p ys)
  case Nil
  then show ?case by (cases ys) auto
next
  case (Cons x xs)
  then show ?case by (cases ys) auto
qed

lemma chain_append_suffix: "chain nxt p (ys @ x # zs) \<Longrightarrow> chain nxt x (x # zs)"
  by (induction ys arbitrary: p) auto

lemma chain_distinct: "chain nxt p xs \<Longrightarrow> distinct xs"
proof (induction xs arbitrary: p)
  case Nil
  then show ?case by simp
next
  case (Cons x xs)
  have "x \<notin> set xs"
  proof
    assume "x \<in> set xs"
    then obtain ys zs where xs: "xs = ys @ x # zs" by (meson split_list)
    from Cons.prems have c1: "chain nxt x (x # ys @ x # zs)" by (simp add: xs)
    then have "chain nxt x (x # zs)"
      using chain_append_suffix [of nxt x "x # ys" x zs] by simp
    then have "x # ys @ x # zs = x # zs" using c1 by (rule chain_unique [rotated])
    then show False by simp
  qed
  with Cons show ?case by auto
qed

lemma chain_nonnull: "chain nxt p xs \<Longrightarrow> x \<in> set xs \<Longrightarrow> x \<noteq> 0"
  by (induction xs arbitrary: p) auto

text \<open>Redirecting the last link of the visited prefix splices a new object in.\<close>

lemma chain_splice_in:
  assumes "chain nxt p (ys @ zs)" "ys \<noteq> []" "n \<notin> set (ys @ zs)" "n \<noteq> 0"
    and "m n = (case zs of [] \<Rightarrow> 0 | z # _ \<Rightarrow> z)" and "m (last ys) = n"
    and "\<And>x. x \<in> set (ys @ zs) - {last ys} \<Longrightarrow> m x = nxt x"
  shows "chain m p (ys @ n # zs)"
  using assms
proof (induction ys arbitrary: p)
  case Nil
  then show ?case by simp
next
  case (Cons y ys)
  note d = chain_distinct [OF Cons.prems(1)]
  show ?case
  proof (cases "ys = []")
    case True
    have eq: "chain m q zs = chain nxt q zs" for q
      using Cons.prems(7) d True by (intro chain_cong) auto
    have "chain nxt (nxt y) zs" and "p = y" "y \<noteq> 0" using Cons.prems(1) True by auto
    moreover have "chain nxt (m n) zs"
      using \<open>chain nxt (nxt y) zs\<close> Cons.prems(5) by (cases zs) auto
    ultimately show ?thesis using True Cons.prems(4,6) by (simp add: eq)
  next
    case False
    have "m y = nxt y" using False d Cons.prems(7) [of y]
      by (cases ys rule: rev_cases) auto
    moreover have "chain m (nxt y) (ys @ n # zs)"
      using Cons.prems False by (intro Cons.IH) auto
    ultimately show ?thesis using Cons.prems(1) by simp
  qed
qed

lemma chain_splice_out:
  assumes "chain nxt p (ys @ x # zs)" "ys \<noteq> []"
    and "m (last ys) = nxt x"
    and "\<And>a. a \<in> set (ys @ zs) - {last ys} \<Longrightarrow> m a = nxt a"
  shows "chain m p (ys @ zs)"
  using assms
proof (induction ys arbitrary: p)
  case Nil
  then show ?case by simp
next
  case (Cons y ys)
  note d = chain_distinct [OF Cons.prems(1)]
  show ?case
  proof (cases "ys = []")
    case True
    have "chain m q zs = chain nxt q zs" for q
      using Cons.prems(4) d True by (intro chain_cong) auto
    then show ?thesis using True Cons.prems by simp
  next
    case False
    have "m y = nxt y" using False d Cons.prems(4) [of y]
      by (cases ys rule: rev_cases) auto
    moreover have "chain m (nxt y) (ys @ zs)"
      using Cons.prems False by (intro Cons.IH) auto
    ultimately show ?thesis using Cons.prems(1) by simp
  qed
qed

subsection \<open>Lists\<close>

lemma sorted_wrt_insert:
  "sorted_wrt R (ys @ zs) \<Longrightarrow> (\<And>y. y \<in> set ys \<Longrightarrow> R y n) \<Longrightarrow> (\<And>z. z \<in> set zs \<Longrightarrow> R n z)
   \<Longrightarrow> sorted_wrt R (ys @ n # zs)"
  by (auto simp: sorted_wrt_append)

lemma sorted_wrt_delete: "sorted_wrt R (ys @ x # zs) \<Longrightarrow> sorted_wrt R (ys @ zs)"
  by (auto simp: sorted_wrt_append)

subsection \<open>State machines\<close>

text \<open>
  A component that is driven by operations in any order: the states it starts in, its steps, and an
  invariant that the start establishes and every step keeps.
\<close>

locale state_machine =
  fixes start :: "'s \<Rightarrow> bool" and step :: "'s \<Rightarrow> 's \<Rightarrow> bool" and inv :: "'s \<Rightarrow> bool"
  assumes start_inv: "start s \<Longrightarrow> inv s"
    and step_inv: "step s s' \<Longrightarrow> inv s \<Longrightarrow> inv s'"
begin

lemma run_inv: "step\<^sup>*\<^sup>* s s' \<Longrightarrow> inv s \<Longrightarrow> inv s'"
  by (induction rule: rtranclp_induct) (auto intro: step_inv)

lemma reached_inv: "start s \<Longrightarrow> step\<^sup>*\<^sup>* s s' \<Longrightarrow> inv s'"
  using run_inv start_inv by blast

end

subsection \<open>Words: masks and rounding up to a power of two\<close>

lemma and_not_mask_eq: "y AND NOT (mask k) = y - take_bit k (y :: 'a::len word)"
proof -
  have "take_bit k y AND (y AND NOT (mask k)) = 0"
    by (simp add: bit_eq_iff bit_simps) 
  then have "take_bit k y + (y AND NOT (mask k)) = take_bit k y OR (y AND NOT (mask k))"
    by (rule disjunctive_add_eq_or)
  also have "\<dots> = y" by (auto simp: bit_eq_iff bit_simps)
  finally show ?thesis by (simp add: algebra_simps)
qed

lemma unat_take_bit': "unat (take_bit k (y :: 'a::len word)) = unat y mod 2 ^ k"
  unfolding unsigned_take_bit_eq by (simp add: take_bit_eq_mod)

lemma unat_and_not_mask: "unat ((y :: 'a::len word) AND NOT (mask k)) = unat y - unat y mod 2 ^ k"
proof -
  have "take_bit k y \<le> y" by (simp add: word_le_nat_alt unat_take_bit')
  then show ?thesis by (simp add: and_not_mask_eq unat_sub unat_take_bit')
qed

lemma xor_exp_nat: "(p :: nat) XOR 2 ^ k = (if even (p div 2 ^ k) then p + 2 ^ k else p - 2 ^ k)"
proof -
  have f: "p XOR 2 ^ k = flip_bit k p" by (simp add: flip_bit_eq_xor push_bit_eq_mult)
  show ?thesis
  proof (cases "bit p k")
    case True
    have "p = set_bit k (unset_bit k p)" using True by (intro bit_eqI) (auto simp: bit_simps)
    also have "\<dots> = unset_bit k p + 2 ^ k" by (simp add: set_bit_eq bit_simps)
    finally show ?thesis using True f by (simp add: flip_bit_eq_if bit_iff_odd)
  next
    case False
    then show ?thesis using f by (simp add: flip_bit_eq_if set_bit_eq bit_iff_odd)
  qed
qed

lemma and_mask_zero: "((y :: 'a::len word) AND NOT (mask k)) AND mask k = 0"
  by (simp add: bit_eq_iff bit_simps)

lemma align_up_cases:
  fixes x :: u32 assumes "k < 32"
  shows "x \<le> (x + 2 ^ k - 1) AND NOT (2 ^ k - 1) \<or> (x + 2 ^ k - 1) AND NOT (2 ^ k - 1) = 0"
proof -
  have m: "(2 :: u32) ^ k - 1 = mask k" by (simp add: mask_eq_exp_minus_1)
  let ?y = "x + mask k"
  have p: "(2::nat) ^ k \<le> 2 ^ 31" using assms by (intro power_increasing) auto
  have um: "unat (mask k :: u32) = 2 ^ k - 1"
  proof -
    have "(mask k :: u32) = of_nat (2 ^ k - 1)"
      unfolding mask_eq_exp_minus_1 by (subst of_nat_diff) simp_all
    moreover have "(2 ^ k - 1 :: nat) < 2 ^ LENGTH(32)" using p by simp
    ultimately show ?thesis by (metis of_nat_inverse)
  qed
  have ux: "unat x < 2 ^ 32" using unsigned_less [of x] by simp
  have uy: "unat ?y = (unat x + (2 ^ k - 1)) mod 2 ^ 32"
    by (simp add: unat_word_ariths um)
  show ?thesis
  proof (cases "unat x + (2 ^ k - 1) < 2 ^ 32")
    case True
    then have "unat ?y = unat x + (2 ^ k - 1)" using uy by simp
    moreover have "unat ?y mod 2 ^ k \<le> 2 ^ k - 1"
      by (metis Suc_pred' less_Suc_eq_le mod_less_divisor zero_less_numeral zero_less_power)
    ultimately have "unat x \<le> unat (?y AND NOT (mask k))"
      unfolding unat_and_not_mask by linarith
    then show ?thesis unfolding m by (simp add: word_le_nat_alt m [symmetric] algebra_simps)
  next
    case False
    then have "unat ?y = unat x + (2 ^ k - 1) - 2 ^ 32" using uy ux p by (simp add: mod_if)
    moreover have "(0::nat) < 2 ^ k" by simp
    ultimately have "unat ?y < 2 ^ k" using ux p by linarith
    then have "unat (?y AND NOT (mask k)) = 0" unfolding unat_and_not_mask by simp
    then have "?y AND NOT (mask k) = 0" by (simp add: unat_eq_zero)
    then show ?thesis unfolding m by (simp add: m [symmetric] algebra_simps)
  qed
qed

end
