(* ===== verification/Resource.thy ===== *)
theory Resource
  imports KPrelude
begin

text \<open>
  The resource tree of kernel/resource.c.  Resources are C structs linked by \<open>parent\<close>,
  \<open>sibling\<close> and \<open>child\<close> pointers and handed out by pointer, so the model keeps an explicit store
  \<open>rheap\<close> from addresses to records, and a \<open>struct resource **\<close> is a \<open>link\<close>: the \<open>child\<close> or the
  \<open>sibling\<close> field of an object.  Loops over a sibling list may not end in a store whose links form
  a cycle, so they are \<open>partial_function (option)\<close>; the specification lemmas prove that they return
  on every well-formed level.  \<open>level\<close> is the invariant of one node and its children: the children
  form a NULL-terminated list, are sorted by address, pairwise disjoint, and lie inside the node.
\<close>

subsection \<open>struct resource (include/linux/ioport.h)\<close>

record resource =
  res_name :: string
  res_start :: u32
  res_end :: u32
  res_flags :: u32
  res_parent :: addr
  res_sibling :: addr
  res_child :: addr

type_synonym rheap = "addr \<Rightarrow> resource"

definition IORESOURCE_BUSY :: u32 where "IORESOURCE_BUSY = 0x80000000"

datatype link = Child addr | Sibling addr

fun deref :: "rheap \<Rightarrow> link \<Rightarrow> addr" where
  "deref h (Child a) = res_child (h a)"
| "deref h (Sibling a) = res_sibling (h a)"

fun assign_link :: "rheap \<Rightarrow> link \<Rightarrow> addr \<Rightarrow> rheap" where
  "assign_link h (Child a) v = h(a := (h a)\<lparr>res_child := v\<rparr>)"
| "assign_link h (Sibling a) v = h(a := (h a)\<lparr>res_sibling := v\<rparr>)"

subsection \<open>Requesting and releasing\<close>

text \<open>The \<open>for (;;)\<close> loop of \<open>__request_resource\<close>; the first component is the conflict (NULL: none).\<close>

partial_function (option) request_loop ::
    "rheap \<Rightarrow> addr \<Rightarrow> addr \<Rightarrow> link \<Rightarrow> (addr \<times> rheap) option" where
  "request_loop h root new p =
     (let tmp = deref h p in
      if tmp = NULL \<or> res_end (h new) < res_start (h tmp) then
        (let h1 = h(new := (h new)\<lparr>res_sibling := tmp\<rparr>);
             h2 = assign_link h1 p new;
             h3 = h2(new := (h2 new)\<lparr>res_parent := root\<rparr>)
         in Some (NULL, h3))
      else if res_end (h tmp) < res_start (h new) then request_loop h root new (Sibling tmp)
      else Some (tmp, h))"

definition do_request_resource :: "rheap \<Rightarrow> addr \<Rightarrow> addr \<Rightarrow> (addr \<times> rheap) option" where
  "do_request_resource h root new =
     (if res_end (h new) < res_start (h new) then Some (root, h)
      else if res_start (h new) < res_start (h root) then Some (root, h)
      else if res_end (h root) < res_end (h new) then Some (root, h)
      else request_loop h root new (Child root))"

partial_function (option) release_loop ::
    "rheap \<Rightarrow> addr \<Rightarrow> link \<Rightarrow> (int \<times> rheap) option" where
  "release_loop h old p =
     (let tmp = deref h p in
      if tmp = NULL then Some (- EINVAL, h)
      else if tmp = old then
        (let h1 = assign_link h p (res_sibling (h tmp))
         in Some (0, h1(old := (h1 old)\<lparr>res_parent := NULL\<rparr>)))
      else release_loop h old (Sibling tmp))"

definition do_release_resource :: "rheap \<Rightarrow> addr \<Rightarrow> (int \<times> rheap) option" where
  "do_release_resource h old = release_loop h old (Child (res_parent (h old)))"

definition request_resource :: "rheap \<Rightarrow> addr \<Rightarrow> addr \<Rightarrow> (int \<times> rheap) option" where
  "request_resource h root new =
     map_option (\<lambda>(conflict, h'). (if conflict \<noteq> NULL then - EBUSY else 0, h'))
       (do_request_resource h root new)"

definition release_resource :: "rheap \<Rightarrow> addr \<Rightarrow> (int \<times> rheap) option" where
  "release_resource h old = do_release_resource h old"

text \<open>\<open>check_resource\<close> links the stack object \<open>tmp\<close> (its address is an argument) and takes it out again.\<close>

definition check_resource :: "rheap \<Rightarrow> addr \<Rightarrow> addr \<Rightarrow> u32 \<Rightarrow> u32 \<Rightarrow> (int \<times> rheap) option" where
  "check_resource h tmp root start len =
     (let h0 = h(tmp := (h tmp)\<lparr>res_start := start, res_end := start + len - 1\<rparr>) in
      Option.bind (do_request_resource h0 root tmp) (\<lambda>(conflict, h1).
        if conflict = NULL then
          map_option (\<lambda>(_, h2). (0, h2)) (do_release_resource h1 tmp)
        else Some (- EBUSY, h1)))"

subsection \<open>Finding and allocating a free slot\<close>

text \<open>
  \<open>alignf\<close> is the caller's callback (NULL: \<open>None\<close>); it may change the resource it is given.
\<close>

type_synonym alignf = "(resource \<Rightarrow> u32 \<Rightarrow> u32 \<Rightarrow> resource) option"

definition find_candidate ::
    "rheap \<Rightarrow> addr \<Rightarrow> resource \<Rightarrow> addr \<Rightarrow> u32 \<Rightarrow> u32 \<Rightarrow> u32 \<Rightarrow> u32 \<Rightarrow> alignf \<Rightarrow> resource" where
  "find_candidate h root new this sz mn mx align alignf =
     (let new1 = new\<lparr>res_end := (if this \<noteq> NULL then res_start (h this) else res_end (h root))\<rparr>;
          new2 = (if res_start new1 < mn then new1\<lparr>res_start := mn\<rparr> else new1);
          new3 = (if mx < res_end new2 then new2\<lparr>res_end := mx\<rparr> else new2);
          new4 = new3\<lparr>res_start := (res_start new3 + align - 1) AND NOT (align - 1)\<rparr>
      in (case alignf of None \<Rightarrow> new4 | Some f \<Rightarrow> f new4 sz align))"

partial_function (option) find_loop ::
    "rheap \<Rightarrow> addr \<Rightarrow> resource \<Rightarrow> addr \<Rightarrow> u32 \<Rightarrow> u32 \<Rightarrow> u32 \<Rightarrow> u32 \<Rightarrow> alignf \<Rightarrow> (int \<times> resource) option" where
  "find_loop h root new this sz mn mx align alignf =
     (let c = find_candidate h root new this sz mn mx align alignf in
      if res_start c < res_end c \<and> sz \<le> res_end c - res_start c + 1 then
        Some (0, c\<lparr>res_end := res_start c + sz - 1\<rparr>)
      else if this = NULL then Some (- EBUSY, c)
      else find_loop h root (c\<lparr>res_start := res_end (h this) + 1\<rparr>) (res_sibling (h this))
             sz mn mx align alignf)"

definition find_resource ::
    "rheap \<Rightarrow> addr \<Rightarrow> addr \<Rightarrow> u32 \<Rightarrow> u32 \<Rightarrow> u32 \<Rightarrow> u32 \<Rightarrow> alignf \<Rightarrow> (int \<times> rheap) option" where
  "find_resource h root new sz mn mx align alignf =
     map_option (\<lambda>(err, r). (err, h(new := r)))
       (find_loop h root ((h new)\<lparr>res_start := res_start (h root)\<rparr>) (res_child (h root))
          sz mn mx align alignf)"

definition allocate_resource ::
    "rheap \<Rightarrow> addr \<Rightarrow> addr \<Rightarrow> u32 \<Rightarrow> u32 \<Rightarrow> u32 \<Rightarrow> u32 \<Rightarrow> alignf \<Rightarrow> (int \<times> rheap) option" where
  "allocate_resource h root new sz mn mx align alignf =
     Option.bind (find_resource h root new sz mn mx align alignf) (\<lambda>(err, h1).
       if 0 \<le> err then
         map_option (\<lambda>(conflict, h2). (if conflict \<noteq> NULL then - EBUSY else err, h2))
           (do_request_resource h1 root new)
       else Some (err, h1))"

subsection \<open>Regions: nested, busy leaves\<close>

text \<open>
  \<open>res\<close> is what \<open>kmalloc\<close> returned (NULL: out of memory).  The result is the region's address or
  NULL.  A freed object simply stays in the store: the code keeps no pointer to it.
\<close>

partial_function (option) request_region_loop ::
    "rheap \<Rightarrow> addr \<Rightarrow> addr \<Rightarrow> (addr \<times> rheap) option" where
  "request_region_loop h parent res =
     Option.bind (do_request_resource h parent res) (\<lambda>(conflict, h1).
       if conflict = NULL then Some (res, h1)
       else if conflict \<noteq> parent then
         (if res_flags (h1 conflict) AND IORESOURCE_BUSY = 0
          then request_region_loop h1 conflict res
          else Some (NULL, h1))
       else Some (NULL, h1))"

definition request_region ::
    "rheap \<Rightarrow> addr \<Rightarrow> addr \<Rightarrow> u32 \<Rightarrow> u32 \<Rightarrow> string \<Rightarrow> (addr \<times> rheap) option" where
  "request_region h res parent start n nm =
     (if res \<noteq> NULL then
        request_region_loop
          (h(res := \<lparr>res_name = nm, res_start = start, res_end = start + n - 1,
                     res_flags = IORESOURCE_BUSY, res_parent = NULL, res_sibling = NULL,
                     res_child = NULL\<rparr>)) parent res
      else Some (NULL, h))"

definition check_region :: "rheap \<Rightarrow> addr \<Rightarrow> addr \<Rightarrow> u32 \<Rightarrow> u32 \<Rightarrow> (int \<times> rheap) option" where
  "check_region h res parent start n =
     Option.bind (request_region h res parent start n ''check-region'') (\<lambda>(r, h1).
       if r = NULL then Some (- EBUSY, h1)
       else map_option (\<lambda>(_, h2). (0, h2)) (release_resource h1 r))"

text \<open>The boolean says whether a region was freed; \<open>False\<close> is the path to the \<open>printk\<close>.\<close>

partial_function (option) release_region_loop ::
    "rheap \<Rightarrow> u32 \<Rightarrow> u32 \<Rightarrow> link \<Rightarrow> (bool \<times> rheap) option" where
  "release_region_loop h start end' p =
     (let res = deref h p in
      if res = NULL then Some (False, h)
      else if res_start (h res) \<le> start \<and> end' \<le> res_end (h res) then
        (if res_flags (h res) AND IORESOURCE_BUSY = 0 then
           release_region_loop h start end' (Child res)
         else if res_start (h res) \<noteq> start \<or> res_end (h res) \<noteq> end' then Some (False, h)
         else Some (True, assign_link h p (res_sibling (h res))))
      else release_region_loop h start end' (Sibling res))"

definition release_region :: "rheap \<Rightarrow> addr \<Rightarrow> u32 \<Rightarrow> u32 \<Rightarrow> (bool \<times> rheap) option" where
  "release_region h parent start n = release_region_loop h start (start + n - 1) (Child parent)"


subsection \<open>The invariant of one level\<close>

definition level :: "rheap \<Rightarrow> addr \<Rightarrow> addr list \<Rightarrow> bool" where
  "level h root xs \<longleftrightarrow>
     root \<noteq> NULL \<and> root \<notin> set xs \<and>
     chain (\<lambda>a. res_sibling (h a)) (res_child (h root)) xs \<and>
     (\<forall>x \<in> set xs. res_parent (h x) = root \<and> res_start (h x) \<le> res_end (h x) \<and>
        res_start (h root) \<le> res_start (h x) \<and> res_end (h x) \<le> res_end (h root)) \<and>
     sorted_wrt (\<lambda>x y. res_end (h x) < res_start (h y)) xs"

definition overlaps :: "rheap \<Rightarrow> addr \<Rightarrow> addr \<Rightarrow> bool" where
  "overlaps h a b \<longleftrightarrow> res_start (h a) \<le> res_end (h b) \<and> res_start (h b) \<le> res_end (h a)"

text \<open>The part of a resource that says what it covers; linking must not change it.\<close>

definition extent :: "resource \<Rightarrow> string \<times> u32 \<times> u32 \<times> u32" where
  "extent r = (res_name r, res_start r, res_end r, res_flags r)"

definition fits :: "rheap \<Rightarrow> addr \<Rightarrow> addr \<Rightarrow> bool" where
  "fits h root new \<longleftrightarrow> res_start (h new) \<le> res_end (h new) \<and>
     res_start (h root) \<le> res_start (h new) \<and> res_end (h new) \<le> res_end (h root)"

lemma level_chain: "level h root xs \<Longrightarrow> chain (\<lambda>a. res_sibling (h a)) (res_child (h root)) xs"
  by (simp add: level_def)

lemma level_distinct: "level h root xs \<Longrightarrow> distinct xs"
  using level_chain chain_distinct by blast

lemma level_nonnull: "level h root xs \<Longrightarrow> x \<in> set xs \<Longrightarrow> x \<noteq> 0"
  using level_chain chain_nonnull by blast

lemma level_root: "level h root xs \<Longrightarrow> root \<noteq> 0 \<and> root \<notin> set xs"
  by (simp add: level_def)

subsection \<open>What the loops compute\<close>

definition link_in :: "rheap \<Rightarrow> addr \<Rightarrow> addr \<Rightarrow> link \<Rightarrow> addr \<Rightarrow> rheap" where
  "link_in h root new p tmp =
     (let h1 = h(new := (h new)\<lparr>res_sibling := tmp\<rparr>);
          h2 = assign_link h1 p new
      in h2(new := (h2 new)\<lparr>res_parent := root\<rparr>))"

definition link_out :: "rheap \<Rightarrow> addr \<Rightarrow> link \<Rightarrow> rheap" where
  "link_out h old p =
     (let h1 = assign_link h p (res_sibling (h old)) in h1(old := (h1 old)\<lparr>res_parent := NULL\<rparr>))"

definition last_link :: "link \<Rightarrow> addr list \<Rightarrow> link" where
  "last_link p xs = (if xs = [] then p else Sibling (last xs))"

lemma last_link_Cons: "last_link p (x # xs) = last_link (Sibling x) xs"
  by (simp add: last_link_def)

definition head_or_null :: "addr list \<Rightarrow> addr" where
  "head_or_null xs = (case xs of [] \<Rightarrow> NULL | x # _ \<Rightarrow> x)"

lemma head_or_null_simps [simp]: "head_or_null [] = 0" "head_or_null (x # xs) = x"
  by (simp_all add: head_or_null_def)

lemma chain_head: "chain nxt p xs \<Longrightarrow> p = head_or_null xs"
  by (cases xs) simp_all

lemma request_loop_eq:
  assumes "chain (\<lambda>a. res_sibling (h a)) (deref h p) zs"
    and "\<And>x. x \<in> set zs \<Longrightarrow> res_start (h x) \<le> res_end (h x)"
    and "res_start (h new) \<le> res_end (h new)"
  shows "request_loop h root new p =
    (let below = (\<lambda>x. res_end (h x) < res_start (h new));
         t = head_or_null (dropWhile below zs)
     in if t = 0 \<or> res_end (h new) < res_start (h t)
        then Some (0, link_in h root new (last_link p (takeWhile below zs)) t) else Some (t, h))"
  using assms(1,2)
proof (induction zs arbitrary: p)
  case Nil
  then show ?case by (simp add: request_loop.simps [of h root new p] link_in_def last_link_def Let_def)
next
  case (Cons z zs)
  have z: "deref h p = z" "z \<noteq> 0" using Cons.prems(1) by auto
  show ?case
  proof (cases "res_end (h z) < res_start (h new)")
    case True
    have "\<not> res_end (h new) < res_start (h z)"
      using True Cons.prems(2) [of z] assms(3) by fastforce
    then have "request_loop h root new p = request_loop h root new (Sibling z)"
      using True z by (simp add: request_loop.simps [of h root new p])
    also have "\<dots> = (let below = (\<lambda>x. res_end (h x) < res_start (h new));
         t = head_or_null (dropWhile below zs)
     in if t = 0 \<or> res_end (h new) < res_start (h t)
        then Some (0, link_in h root new (last_link (Sibling z) (takeWhile below zs)) t)
        else Some (t, h))"
      using Cons.prems by (intro Cons.IH) auto
    finally show ?thesis using True by (simp add: last_link_Cons Let_def)
  next
    case False
    then show ?thesis using z
      by (simp add: request_loop.simps [of h root new p] link_in_def last_link_def Let_def)
  qed
qed

lemma release_loop_eq:
  assumes "chain (\<lambda>a. res_sibling (h a)) (deref h p) zs"
  shows "release_loop h old p =
    (if old \<in> set zs then
       Some (0, link_out h old (last_link p (takeWhile (\<lambda>x. x \<noteq> old) zs)))
     else Some (- EINVAL, h))"
  using assms
proof (induction zs arbitrary: p)
  case Nil
  then show ?case by (simp add: release_loop.simps [of h old p])
next
  case (Cons z zs)
  have z: "deref h p = z" "z \<noteq> 0" using Cons.prems(1) by auto
  show ?case
  proof (cases "z = old")
    case True
    then show ?thesis using z
      by (simp add: release_loop.simps [of h old p] last_link_def link_out_def Let_def)
  next
    case False
    then have "release_loop h old p = release_loop h old (Sibling z)"
      using z by (simp add: release_loop.simps [of h old p])
    moreover have "release_loop h old (Sibling z) =
      (if old \<in> set zs then
       Some (0, link_out h old (last_link (Sibling z) (takeWhile (\<lambda>x. x \<noteq> old) zs)))
     else Some (- EINVAL, h))"
      using Cons.prems by (intro Cons.IH) auto
    ultimately show ?thesis using False by (simp add: last_link_Cons)
  qed
qed


text \<open>Linking an object in, or out, of a well-formed level keeps the level and touches only links.\<close>

lemma link_in_fields:
  assumes "new \<noteq> root" "new \<notin> set ys"
  shows "extent (link_in h root new (last_link (Child root) ys) t a) = extent (h a)"
    and "a \<noteq> new \<Longrightarrow> a \<notin> set ys \<Longrightarrow> a \<noteq> root \<Longrightarrow>
           link_in h root new (last_link (Child root) ys) t a = h a"
    and "a \<noteq> new \<Longrightarrow> res_parent (link_in h root new (last_link (Child root) ys) t a) = res_parent (h a)"
    and "a \<noteq> root \<Longrightarrow> res_child (link_in h root new (last_link (Child root) ys) t a) = res_child (h a)"
    and "res_parent (link_in h root new (last_link (Child root) ys) t new) = root"
    and "res_sibling (link_in h root new (last_link (Child root) ys) t new) = t"
    and "ys \<noteq> [] \<Longrightarrow> res_sibling (link_in h root new (last_link (Child root) ys) t (last ys)) = new"
    and "a \<noteq> new \<Longrightarrow> ys = [] \<or> a \<noteq> last ys \<Longrightarrow>
           res_sibling (link_in h root new (last_link (Child root) ys) t a) = res_sibling (h a)"
    and "ys = [] \<Longrightarrow> res_child (link_in h root new (last_link (Child root) ys) t root) = new"
    and "ys \<noteq> [] \<Longrightarrow> res_child (link_in h root new (last_link (Child root) ys) t root) = res_child (h root)"
  using assms last_in_set [of ys]
  by (auto simp: link_in_def last_link_def Let_def extent_def)

lemma extent_eqD:
  "extent r = extent s \<Longrightarrow> res_start r = res_start s \<and> res_end r = res_end s \<and> res_flags r = res_flags s"
  by (simp add: extent_def)

lemma level_link_in:
  assumes lev: "level h root (ys @ zs)" and new: "new \<notin> set (ys @ zs)" "new \<noteq> root" "new \<noteq> 0"
    and fit: "fits h root new"
    and below: "\<And>y. y \<in> set ys \<Longrightarrow> res_end (h y) < res_start (h new)"
    and above: "\<And>z. z \<in> set zs \<Longrightarrow> res_end (h new) < res_start (h z)"
  shows "level (link_in h root new (last_link (Child root) ys) (head_or_null zs)) root (ys @ new # zs)"
    (is "level ?h root _")
proof -
  note f = link_in_fields [where new = new and root = root and ys = ys and h = h and t = "head_or_null zs"]
  have ext: "res_start (?h a) = res_start (h a)" "res_end (?h a) = res_end (h a)" for a
    using extent_eqD [OF f(1)] new by auto
  have c: "chain (\<lambda>a. res_sibling (h a)) (res_child (h root)) (ys @ zs)"
    using lev by (simp add: level_def)
  have ch: "chain (\<lambda>a. res_sibling (?h a)) (res_child (?h root)) (ys @ new # zs)"
  proof (cases "ys = []")
    case True
    have "chain (\<lambda>a. res_sibling (?h a)) q zs = chain (\<lambda>a. res_sibling (h a)) q zs" for q
      using new True by (intro chain_cong f(8)) auto
    then show ?thesis using True f(6,9) new c chain_head [OF c] by simp
  next
    case False
    have "chain (\<lambda>a. res_sibling (?h a)) (res_child (h root)) (ys @ new # zs)"
    proof (rule chain_splice_in [OF c False new(1,3)])
      show "res_sibling (?h new) = (case zs of [] \<Rightarrow> 0 | z # _ \<Rightarrow> z)"
        using f(6) new by (simp add: head_or_null_def)
      show "res_sibling (?h (last ys)) = new" using f(7) new False by simp
      show "res_sibling (?h x) = res_sibling (h x)" if "x \<in> set (ys @ zs) - {last ys}" for x
        using that new by (intro f(8)) auto
    qed
    then show ?thesis using f(10) False new by simp
  qed
  have srt: "sorted_wrt (\<lambda>x y. res_end (h x) < res_start (h y)) (ys @ new # zs)"
    using lev below above by (intro sorted_wrt_insert) (auto simp: level_def)
  have par: "x \<in> set (ys @ zs) \<Longrightarrow> res_parent (?h x) = root" for x
    using lev f(3) [of x] new by (auto simp: level_def)
  show ?thesis
    using lev new ch fit srt par f(5) unfolding level_def ext fits_def by auto
qed


lemma level_split_below:
  assumes lev: "level h root xs" and fit: "fits h root new"
    and "ys = takeWhile (\<lambda>x. res_end (h x) < res_start (h new)) xs"
    and "zs = dropWhile (\<lambda>x. res_end (h x) < res_start (h new)) xs"
  shows "xs = ys @ zs" "\<And>y. y \<in> set ys \<Longrightarrow> res_end (h y) < res_start (h new)"
    and "\<And>z. z \<in> set zs \<Longrightarrow> res_start (h new) \<le> res_end (h z)"
    and "\<And>z. z \<in> set zs \<Longrightarrow> res_start (h (hd zs)) \<le> res_start (h z)"
    and "\<And>z. z \<in> set zs \<Longrightarrow> overlaps h z new \<longleftrightarrow> \<not> res_end (h new) < res_start (h z)"
proof -
  show xs: "xs = ys @ zs" using assms by simp
  show "\<And>y. y \<in> set ys \<Longrightarrow> res_end (h y) < res_start (h new)"
    using assms(3) by (auto dest: set_takeWhileD)
  have srt: "sorted_wrt (\<lambda>x y. res_end (h x) < res_start (h y)) zs"
    and ne: "\<And>z. z \<in> set zs \<Longrightarrow> res_start (h z) \<le> res_end (h z)"
    using lev xs by (auto simp: level_def sorted_wrt_append)
  have hd: "z \<in> set zs \<Longrightarrow> z = hd zs \<or> res_end (h (hd zs)) < res_start (h z)" for z
    using srt by (cases zs) auto
  have hd0: "zs \<noteq> [] \<Longrightarrow> res_start (h new) \<le> res_end (h (hd zs))"
    using hd_dropWhile [of _ xs] assms(4) by force
  show low: "res_start (h (hd zs)) \<le> res_start (h z)" if "z \<in> set zs" for z
  proof -
    have "hd zs \<in> set zs" using that by (cases zs) auto
    then show ?thesis using hd [OF that] ne [of "hd zs"] by force
  qed
  show above: "res_start (h new) \<le> res_end (h z)" if "z \<in> set zs" for z
    using hd [OF that] hd0 ne [OF that] that by (cases zs) force+
  show "overlaps h z new \<longleftrightarrow> \<not> res_end (h new) < res_start (h z)" if "z \<in> set zs" for z
    using above [OF that] by (auto simp: overlaps_def)
qed

lemma do_request_resource_cases:
  assumes lev: "level h root xs" and new: "new \<notin> set xs" "new \<noteq> root" "new \<noteq> 0"
  obtains (outside) "\<not> fits h root new" "do_request_resource h root new = Some (root, h)"
  | (conflict) c where "fits h root new" "c \<in> set xs" "overlaps h c new"
      "do_request_resource h root new = Some (c, h)"
  | (linked) ys zs h' where "fits h root new" "\<forall>x\<in>set xs. \<not> overlaps h x new" "xs = ys @ zs"
      "h' = link_in h root new (last_link (Child root) ys) (head_or_null zs)"
      "do_request_resource h root new = Some (0, h')" "level h' root (ys @ new # zs)"
proof (cases "fits h root new")
  case False
  then have "do_request_resource h root new = Some (root, h)"
    by (auto simp: do_request_resource_def fits_def not_le)
  with False show ?thesis by (rule outside)
next
  case fit: True
  define ys where "ys = takeWhile (\<lambda>x. res_end (h x) < res_start (h new)) xs"
  define zs where "zs = dropWhile (\<lambda>x. res_end (h x) < res_start (h new)) xs"
  note sp = level_split_below [OF lev fit ys_def zs_def]
  have ch: "chain (\<lambda>a. res_sibling (h a)) (deref h (Child root)) xs"
    and ne: "\<And>x. x \<in> set xs \<Longrightarrow> res_start (h x) \<le> res_end (h x)"
    using lev by (auto simp: level_def)
  have "do_request_resource h root new = request_loop h root new (Child root)"
    using fit by (auto simp: do_request_resource_def fits_def not_less [symmetric])
  also have "\<dots> = (let t = head_or_null zs in
       if t = 0 \<or> res_end (h new) < res_start (h t)
       then Some (0, link_in h root new (last_link (Child root) ys) t) else Some (t, h))"
    using request_loop_eq [OF ch ne] fit unfolding fits_def ys_def zs_def Let_def by simp
  finally have run: "do_request_resource h root new = \<dots>" .
  show ?thesis
  proof (cases "zs = [] \<or> res_end (h new) < res_start (h (hd zs))")
    case True
    have above: "\<And>z. z \<in> set zs \<Longrightarrow> res_end (h new) < res_start (h z)"
      using True sp(4) by (cases zs) (force dest: less_le_trans)+
    have below: "\<not> overlaps h y new" if "y \<in> set ys" for y
      using sp(2) [OF that] by (auto simp: overlaps_def)
    have "\<forall>x\<in>set xs. \<not> overlaps h x new"
      using below above sp(5) sp(1) by auto
    moreover have "do_request_resource h root new =
        Some (0, link_in h root new (last_link (Child root) ys) (head_or_null zs))"
      using True run by (cases zs) (auto simp: Let_def)
    moreover have "level (link_in h root new (last_link (Child root) ys) (head_or_null zs)) root (ys @ new # zs)"
      using lev new fit sp(1,2) above by (intro level_link_in) auto
    ultimately show ?thesis using fit sp(1) linked by blast
  next
    case False
    then have z: "hd zs \<in> set zs" "hd zs \<in> set xs" using sp(1) by auto
    then have "hd zs \<noteq> 0" using ch chain_nonnull by blast
    then have "do_request_resource h root new = Some (hd zs, h)"
      using False run by (cases zs) (auto simp: Let_def)
    moreover have "overlaps h (hd zs) new" using sp(5) [OF z(1)] False by simp
    ultimately show ?thesis using fit z(2) conflict by blast
  qed
qed


lemma link_out_fields:
  assumes "old \<notin> set ys" "old \<noteq> root"
  shows "extent (link_out h old (last_link (Child root) ys) a) = extent (h a)"
    and "a \<noteq> old \<Longrightarrow> res_parent (link_out h old (last_link (Child root) ys) a) = res_parent (h a)"
    and "res_parent (link_out h old (last_link (Child root) ys) old) = 0"
    and "ys \<noteq> [] \<Longrightarrow> res_sibling (link_out h old (last_link (Child root) ys) (last ys)) = res_sibling (h old)"
    and "ys = [] \<or> a \<noteq> last ys \<Longrightarrow>
           res_sibling (link_out h old (last_link (Child root) ys) a) = res_sibling (h a)"
    and "ys = [] \<Longrightarrow> res_child (link_out h old (last_link (Child root) ys) root) = res_sibling (h old)"
    and "ys \<noteq> [] \<Longrightarrow> res_child (link_out h old (last_link (Child root) ys) root) = res_child (h root)"
    and "a \<noteq> root \<Longrightarrow> res_child (link_out h old (last_link (Child root) ys) a) = res_child (h a)"
    and "a \<noteq> old \<Longrightarrow> a \<notin> set ys \<Longrightarrow> a \<noteq> root \<Longrightarrow> link_out h old (last_link (Child root) ys) a = h a"
  using assms last_in_set [of ys]
  by (auto simp: link_out_def last_link_def Let_def extent_def)

lemma chain_link_out:
  assumes c: "chain (\<lambda>a. res_sibling (h a)) (res_child (h root)) (ys @ old # zs)" and "old \<noteq> root"
  shows "chain (\<lambda>a. res_sibling (link_out h old (last_link (Child root) ys) a))
           (res_child (link_out h old (last_link (Child root) ys) root)) (ys @ zs)"
    (is "chain (\<lambda>a. res_sibling (?h a)) _ _")
proof -
  have d: "distinct (ys @ old # zs)" using c by (rule chain_distinct)
  note f = link_out_fields [where old = old and root = root and ys = ys and h = h]
  show ?thesis
  proof (cases "ys = []")
    case True
    have "chain (\<lambda>a. res_sibling (?h a)) q zs = chain (\<lambda>a. res_sibling (h a)) q zs" for q
      using True assms d by (intro chain_cong f(5)) auto
    then show ?thesis using True f(6) assms d by simp
  next
    case False
    have "chain (\<lambda>a. res_sibling (?h a)) (res_child (h root)) (ys @ zs)"
      using c False
    proof (rule chain_splice_out)
      show "res_sibling (?h (last ys)) = res_sibling (h old)" using f(4) False assms d by simp
      show "res_sibling (?h a) = res_sibling (h a)" if "a \<in> set (ys @ zs) - {last ys}" for a
        using that assms d by (intro f(5)) auto
    qed
    then show ?thesis using f(7) False assms d by simp
  qed
qed

lemma level_link_out:
  assumes lev: "level h root (ys @ old # zs)"
  shows "level (link_out h old (last_link (Child root) ys)) root (ys @ zs)" (is "level ?h root _")
proof -
  have nr: "old \<noteq> root" and c: "chain (\<lambda>a. res_sibling (h a)) (res_child (h root)) (ys @ old # zs)"
    using lev by (auto simp: level_def)
  have d: "distinct (ys @ old # zs)" using c by (rule chain_distinct)
  note f = link_out_fields [where old = old and root = root and ys = ys and h = h]
  have ext: "res_start (?h a) = res_start (h a)" "res_end (?h a) = res_end (h a)" for a
    using extent_eqD [OF f(1)] d nr by auto
  have "res_parent (?h x) = res_parent (h x)" if "x \<in> set (ys @ zs)" for x
    using that d nr by (intro f(2)) auto
  moreover have "sorted_wrt (\<lambda>x y. res_end (h x) < res_start (h y)) (ys @ zs)"
    using lev by (auto simp: level_def intro: sorted_wrt_delete)
  ultimately show ?thesis
    using lev chain_link_out [OF c nr] unfolding level_def ext by auto
qed

lemma release_resource_eq:
  assumes lev: "level h root xs" and old: "old \<in> set xs"
  obtains ys zs where "xs = ys @ old # zs"
    "release_resource h old = Some (0, link_out h old (last_link (Child root) ys))"
    "level (link_out h old (last_link (Child root) ys)) root (ys @ zs)"
proof -
  define ys where "ys = takeWhile (\<lambda>x. x \<noteq> old) xs"
  define zs where "zs = tl (dropWhile (\<lambda>x. x \<noteq> old) xs)"
  have "dropWhile (\<lambda>x. x \<noteq> old) xs \<noteq> []" using old by (auto simp: dropWhile_eq_Nil_conv)
  then have "dropWhile (\<lambda>x. x \<noteq> old) xs = old # zs"
    using hd_dropWhile [of "\<lambda>x. x \<noteq> old" xs] unfolding zs_def
    by (cases "dropWhile (\<lambda>x. x \<noteq> old) xs") auto
  then have xs: "xs = ys @ old # zs"
    using takeWhile_dropWhile_id [of "\<lambda>x. x \<noteq> old" xs] unfolding ys_def by simp
  have "release_resource h old = Some (0, link_out h old (last_link (Child root) ys))"
    using release_loop_eq [of h "Child root" xs old] lev old
    by (auto simp: release_resource_def do_release_resource_def level_def ys_def)
  then show thesis using xs level_link_out lev that by blast
qed

lemma release_resource_level:
  assumes "level h root xs" "old \<in> set xs"
  obtains h' where "release_resource h old = Some (0, h')" "level h' root (remove1 old xs)"
    "res_parent (h' old) = 0" "\<And>a. extent (h' a) = extent (h a)"
  using assms
proof (rule release_resource_eq)
  fix ys zs
  assume xs: "xs = ys @ old # zs"
    and run: "release_resource h old = Some (0, link_out h old (last_link (Child root) ys))"
    and lev: "level (link_out h old (last_link (Child root) ys)) root (ys @ zs)"
  have "distinct xs" using assms(1) by (rule level_distinct)
  then have o: "old \<notin> set ys" "old \<noteq> root" "remove1 old xs = ys @ zs"
    using xs assms by (auto simp: level_def remove1_append)
  note f = link_out_fields [where old = old and root = root and ys = ys and h = h, OF o(1,2)]
  show thesis using that [OF run _ f(3) f(1)] lev o(3) by simp
qed

text \<open>A level depends only on the objects in it.\<close>

lemma level_cong:
  assumes "h root = g root" "\<And>x. x \<in> set xs \<Longrightarrow> h x = g x"
  shows "level h root xs = level g root xs"
proof -
  have "chain (\<lambda>a. res_sibling (h a)) p xs = chain (\<lambda>a. res_sibling (g a)) p xs" for p
    using assms(2) by (intro chain_cong) simp
  moreover have "sorted_wrt (\<lambda>x y. res_end (h x) < res_start (h y)) xs =
      sorted_wrt (\<lambda>x y. res_end (g x) < res_start (g y)) xs"
    using assms(2) by (auto elim!: sorted_wrt_mono_rel [rotated])
  ultimately show ?thesis using assms unfolding level_def by auto
qed

subsection \<open>Correctness of requesting and releasing\<close>

text \<open>
  C21.  On a well-formed level, \<open>request_resource\<close> always returns; it succeeds exactly when the new
  range is a proper range inside the parent and disjoint from every child, and then the children
  with the new one in its place form a well-formed level and no object's name, range or flags
  changed; otherwise it returns \<open>-EBUSY\<close> and changes nothing.
\<close>

theorem request_resource_correct:
  assumes "level h root xs" "new \<notin> set xs" "new \<noteq> root" "new \<noteq> 0"
  shows "\<exists>err h'. request_resource h root new = Some (err, h') \<and>
     (err = 0 \<longleftrightarrow> fits h root new \<and> (\<forall>x\<in>set xs. \<not> overlaps h x new)) \<and>
     (err = 0 \<longrightarrow> (\<exists>ys zs. xs = ys @ zs \<and> level h' root (ys @ new # zs)) \<and>
        (\<forall>a. extent (h' a) = extent (h a))) \<and>
     (err \<noteq> 0 \<longrightarrow> err = - EBUSY \<and> h' = h)"
  using assms
proof (cases rule: do_request_resource_cases)
  case outside
  then show ?thesis using assms by (auto simp: request_resource_def kdefs level_def)
next
  case (conflict c)
  have "c \<noteq> 0" using assms(1) conflict(2) by (rule level_nonnull)
  then show ?thesis using conflict by (auto simp: request_resource_def kdefs)
next
  case (linked ys zs h')
  have "extent (h' a) = extent (h a)" for a
    using linked(3,4) assms by (simp add: link_in_fields(1))
  then show ?thesis using linked by (auto simp: request_resource_def kdefs)
qed

text \<open>
  C25.  Releasing a child of a well-formed level returns 0, takes exactly that child out of the
  list, resets its parent pointer, and changes no name, range or flags.
\<close>

theorem release_resource_correct:
  assumes "level h root xs" "old \<in> set xs"
  shows "\<exists>h'. release_resource h old = Some (0, h') \<and> level h' root (remove1 old xs) \<and>
     res_parent (h' old) = 0 \<and> (\<forall>a. extent (h' a) = extent (h a))"
  using assms by (rule release_resource_level) blast

text \<open>
  \<open>check_resource\<close> answers whether a request for the range would succeed and leaves the level
  of the root as it found it, for any stack address \<open>tmp\<close> outside the level.
\<close>

theorem check_resource_correct:
  assumes "level h root xs" "tmp \<notin> set xs" "tmp \<noteq> root" "tmp \<noteq> 0"
  shows "\<exists>err h'. check_resource h tmp root start len = Some (err, h') \<and> level h' root xs \<and>
     err = (if start \<le> start + len - 1 \<and> res_start (h root) \<le> start \<and>
               start + len - 1 \<le> res_end (h root) \<and>
               (\<forall>x\<in>set xs. res_end (h x) < start \<or> start + len - 1 < res_start (h x))
            then 0 else - EBUSY)"
proof -
  define h0 where "h0 = h(tmp := (h tmp)\<lparr>res_start := start, res_end := start + len - 1\<rparr>)"
  have same: "h0 x = h x" if "x \<noteq> tmp" for x using that by (simp add: h0_def)
  have tmp: "res_start (h0 tmp) = start" "res_end (h0 tmp) = start + len - 1"
    by (simp_all add: h0_def)
  have lev: "level h0 root xs"
    using assms(1) level_cong [of h0 root h xs, OF same same] assms(2,3) by metis
  have ov: "(\<forall>x\<in>set xs. \<not> overlaps h0 x tmp) \<longleftrightarrow>
      (\<forall>x\<in>set xs. res_end (h x) < start \<or> start + len - 1 < res_start (h x))"
    using same assms(2) unfolding overlaps_def tmp by (metis not_le)
  have fit: "fits h0 root tmp \<longleftrightarrow> start \<le> start + len - 1 \<and> res_start (h root) \<le> start \<and>
      start + len - 1 \<le> res_end (h root)"
    using same [of root] assms(3) unfolding fits_def tmp by auto
  show ?thesis using lev assms(2-4)
  proof (cases rule: do_request_resource_cases)
    case outside
    then show ?thesis using lev fit assms
      by (auto simp: check_resource_def h0_def [symmetric] level_def)
  next
    case (conflict c)
    have "c \<noteq> 0" using lev conflict(2) by (rule level_nonnull)
    then show ?thesis using conflict lev ov
      by (auto simp: check_resource_def h0_def [symmetric])
  next
    case (linked ys zs h')
    have dist: "distinct (ys @ tmp # zs)"
      using linked(6) by (rule level_distinct)
    obtain h2 where "release_resource h' tmp = Some (0, h2)"
        "level h2 root (remove1 tmp (ys @ tmp # zs))"
      using linked(6) by (rule release_resource_level) auto
    moreover have "remove1 tmp (ys @ tmp # zs) = xs"
      using dist linked(3) by (simp add: remove1_append)
    ultimately obtain h2 where "release_resource h' tmp = Some (0, h2)" "level h2 root xs" by auto
    then show ?thesis using linked(1,2,5) ov fit
      by (auto simp: check_resource_def h0_def [symmetric] release_resource_def)
  qed
qed


subsection \<open>The resource tree and nested regions\<close>

datatype rtree = RNode (rid: addr) (rkids: "rtree list")

primrec nodes :: "rtree \<Rightarrow> addr list" where
  "nodes (RNode a ts) = a # concat (map nodes ts)"

primrec tree :: "rheap \<Rightarrow> rtree \<Rightarrow> bool" where
  "tree h (RNode a ts) \<longleftrightarrow> level h a (map rid ts) \<and> list_all (tree h) ts"

definition busy :: "rheap \<Rightarrow> addr \<Rightarrow> bool" where
  "busy h a \<longleftrightarrow> res_flags (h a) AND IORESOURCE_BUSY \<noteq> 0"

lemma rid_in_nodes [simp]: "rid t \<in> set (nodes t)"
  by (cases t) simp

lemma tree_nodes_within:
  "tree h t \<Longrightarrow> b \<in> set (nodes t) \<Longrightarrow>
     res_start (h (rid t)) \<le> res_start (h b) \<and> res_end (h b) \<le> res_end (h (rid t))"
proof (induction t)
  case (RNode a ts)
  show ?case
  proof (cases "b = a")
    case False
    then obtain t where t: "t \<in> set ts" "b \<in> set (nodes t)" using RNode.prems by auto
    have "res_start (h a) \<le> res_start (h (rid t)) \<and> res_end (h (rid t)) \<le> res_end (h a)"
      using RNode.prems t by (auto simp: level_def)
    moreover have "res_start (h (rid t)) \<le> res_start (h b) \<and> res_end (h b) \<le> res_end (h (rid t))"
      using RNode t by (auto simp: list_all_iff)
    ultimately show ?thesis by auto
  qed auto
qed

text \<open>A level survives changes to objects that leave its links and extents alone.\<close>

lemma level_frame:
  assumes "level h root xs" "res_child (g root) = res_child (h root)"
    and "extent (g root) = extent (h root)"
    and "\<And>x. x \<in> set xs \<Longrightarrow> extent (g x) = extent (h x) \<and> res_parent (g x) = res_parent (h x) \<and>
           res_sibling (g x) = res_sibling (h x)"
  shows "level g root xs"
proof -
  have "chain (\<lambda>a. res_sibling (g a)) p xs = chain (\<lambda>a. res_sibling (h a)) p xs" for p
    using assms(4) by (intro chain_cong) simp
  moreover have "sorted_wrt (\<lambda>x y. res_end (g x) < res_start (g y)) xs"
    using assms(1) unfolding level_def
    by (elim conjE sorted_wrt_mono_rel [rotated]) (use assms(4) in \<open>auto simp: extent_def\<close>)
  ultimately show ?thesis
    using assms unfolding level_def by (auto simp: extent_def)
qed

lemma tree_frame:
  "tree h t \<Longrightarrow> (\<And>a. a \<in> set (nodes t) \<Longrightarrow> g a = h a) \<Longrightarrow> tree g t"
proof (induction t)
  case (RNode a ts)
  have kids: "g (rid t) = h (rid t)" if "t \<in> set ts" for t
    using that by (intro RNode.prems(2)) (auto intro!: bexI [of _ t])
  have "g a = h a" by (rule RNode.prems(2)) simp
  then have "level g a (map rid ts) = level h a (map rid ts)"
    using kids by (intro level_cong) auto
  then have "level g a (map rid ts)" using RNode.prems(1) by simp
  moreover have "tree g t" if "t \<in> set ts" for t
    using RNode.prems that by (intro RNode.IH) (auto simp: list_all_iff)
  ultimately show ?case by (simp add: list_all_iff)
qed

definition same_frame :: "rheap \<Rightarrow> rheap \<Rightarrow> addr \<Rightarrow> bool" where
  "same_frame h g a \<longleftrightarrow> extent (g a) = extent (h a) \<and> res_parent (g a) = res_parent (h a) \<and>
     res_sibling (g a) = res_sibling (h a)"

text \<open>What a successful descent establishes: the new node is in the tree and nothing else moved.\<close>

definition placed :: "rheap \<Rightarrow> rheap \<Rightarrow> rtree \<Rightarrow> addr \<Rightarrow> bool" where
  "placed h h' t res \<longleftrightarrow>
     (\<exists>t'. rid t' = rid t \<and> tree h' t' \<and> distinct (nodes t') \<and>
        set (nodes t') = insert res (set (nodes t))) \<and>
     fits h (rid t) res \<and>
     (\<forall>b \<in> set (nodes t) - {rid t}. busy h b \<longrightarrow> \<not> overlaps h b res) \<and>
     same_frame h h' (rid t) \<and> (\<forall>a. extent (h' a) = extent (h a)) \<and>
     (\<forall>a. a \<notin> insert res (set (nodes t)) \<longrightarrow> h' a = h a)"

lemma subtree_disjoint:
  assumes "distinct (nodes (RNode a ts))" "ts = ps @ t # qs"
  shows "distinct (nodes t)" "a \<notin> set (nodes t)"
    "\<And>u. u \<in> set (ps @ qs) \<Longrightarrow> set (nodes u) \<inter> set (nodes t) = {}"
  using assms by auto

lemma subtree_unique:
  assumes "distinct (nodes (RNode a ts))" "t \<in> set ts" "u \<in> set ts" "rid u \<in> set (nodes t)"
  shows "u = t"
proof -
  obtain ps qs where ts: "ts = ps @ t # qs" using assms(2) by (meson split_list)
  have "u \<notin> set (ps @ qs)"
    using subtree_disjoint(3) [OF assms(1) ts, of u] assms(4) rid_in_nodes [of u] by blast
  then show ?thesis using assms(3) ts by simp
qed

lemma tree_frame_root:
  assumes "tree h t" "distinct (nodes t)" "\<And>a. a \<in> set (nodes t) \<Longrightarrow> a \<noteq> rid t \<Longrightarrow> g a = h a"
    and "extent (g (rid t)) = extent (h (rid t))" "res_child (g (rid t)) = res_child (h (rid t))"
  shows "tree g t"
proof -
  obtain a ts where t: "t = RNode a ts" by (cases t)
  have sub: "g x = h x" if "u \<in> set ts" "x \<in> set (nodes u)" for u x
    using assms(2) that t by (intro assms(3)) auto
  have kids: "g (rid u) = h (rid u)" if "u \<in> set ts" for u
    using that by (rule sub) simp
  have "level g a (map rid ts)"
    by (rule level_frame [of h]) (use assms(1,4,5) t kids in auto)
  moreover have "tree g u" if "u \<in> set ts" for u
    using assms(1) t that by (intro tree_frame [of h, OF _ sub]) (auto simp: list_all_iff)
  ultimately show ?thesis by (simp add: t list_all_iff)
qed

lemma placed_linked:
  assumes wf: "tree h (RNode a ts)" "distinct (nodes (RNode a ts))"
    and res: "res \<notin> set (nodes (RNode a ts))" "res \<noteq> 0" "res_child (h res) = 0"
    and fit: "fits h a res" and ov: "\<forall>x\<in>set (map rid ts). \<not> overlaps h x res"
    and sp: "map rid ts = ys @ zs"
    and h': "h' = link_in h a res (last_link (Child a) ys) (head_or_null zs)"
    and lev: "level h' a (ys @ res # zs)"
  shows "placed h h' (RNode a ts) res"
proof -
  obtain us vs where ts: "ts = us @ vs" "map rid us = ys" "map rid vs = zs"
    using sp by (metis append_eq_map_conv)
  have ra: "res \<noteq> a" and rs: "res \<notin> rid ` set ts"
    using res(1) rid_in_nodes by (simp, fastforce)
  have ry: "res \<notin> set ys" using rs ts by auto
  note f = link_in_fields [where new = res and root = a and ys = ys and h = h and t = "head_or_null zs",
      OF ra ry, folded h']
  have sub: "tree h' t" if t: "t \<in> set ts" for t
  proof (rule tree_frame_root [of h])
    show "tree h t" "distinct (nodes t)" using wf t by (auto simp: list_all_iff distinct_concat_iff)
    show "extent (h' (rid t)) = extent (h (rid t))" by (rule f(1))
    show "res_child (h' (rid t)) = res_child (h (rid t))"
      using wf(2) t rid_in_nodes [of t] by (intro f(4)) auto
    show "h' x = h x" if x: "x \<in> set (nodes t)" "x \<noteq> rid t" for x
    proof (rule f(2))
      show "x \<noteq> res" "x \<noteq> a" using res(1) wf(2) t x by auto
      show "x \<notin> set ys" using subtree_unique [OF wf(2) t] x ts by fastforce
    qed
  qed
  have leaf: "tree h' (RNode res [])" using lev f(4) [of res] ra res(2,3) by (simp add: level_def)
  have "tree h' (RNode a (us @ RNode res [] # vs))"
    using lev ts sub leaf by (auto simp: list_all_iff)
  moreover have "distinct (nodes (RNode a (us @ RNode res [] # vs)))"
    using wf(2) res(1) ts by auto
  moreover have "\<not> overlaps h b res" if b: "b \<in> set (nodes (RNode a ts)) - {a}" for b
  proof -
    obtain t where t: "t \<in> set ts" "b \<in> set (nodes t)" using b by auto
    have "tree h t" using wf t by (auto simp: list_all_iff)
    from tree_nodes_within [OF this t(2)] have "overlaps h b res \<Longrightarrow> overlaps h (rid t) res"
      by (auto simp: overlaps_def)
    then show ?thesis using ov t(1) by auto
  qed
  moreover have "same_frame h h' a"
  proof -
    have "a \<notin> set ys" using wf(1) ts by (auto simp: level_def)
    then have "ys = [] \<or> a \<noteq> last ys" using last_in_set by metis
    then show ?thesis using f(1,3,8) ra by (auto simp: same_frame_def)
  qed
  moreover have "h' b = h b" if "b \<notin> insert res (set (nodes (RNode a ts)))" for b
    using that ts rid_in_nodes by (intro f(2)) fastforce+
  ultimately show ?thesis
    using fit f(1) ts unfolding placed_def
    by (intro conjI exI [of _ "RNode a (us @ RNode res [] # vs)"]) auto
qed


lemma disjoint_kids:
  assumes "level h a (xs @ x # ys)" "y \<in> set (xs @ ys)"
  shows "res_end (h y) < res_start (h x) \<or> res_end (h x) < res_start (h y)"
  using assms by (auto simp: level_def sorted_wrt_append)

lemma placed_lift:
  assumes wf: "tree h (RNode a ts)" "distinct (nodes (RNode a ts))" "res \<notin> set (nodes (RNode a ts))"
    and u: "u \<in> set ts" "\<not> busy h (rid u)" and fit: "fits h a res" and pl: "placed h h' u res"
  shows "placed h h' (RNode a ts) res"
proof -
  obtain ps qs where ts: "ts = ps @ u # qs" using u(1) by (meson split_list)
  note dj = subtree_disjoint [OF wf(2) ts]
  obtain u' where u': "rid u' = rid u" "tree h' u'" "distinct (nodes u')"
      "set (nodes u') = insert res (set (nodes u))" and fu: "fits h (rid u) res"
    and bu: "\<forall>b \<in> set (nodes u) - {rid u}. busy h b \<longrightarrow> \<not> overlaps h b res"
    and ru: "same_frame h h' (rid u)" and ext: "\<forall>a. extent (h' a) = extent (h a)"
    and same: "\<And>b. b \<notin> insert res (set (nodes u)) \<Longrightarrow> h' b = h b"
    using pl unfolding placed_def by blast
  have out: "h' b = h b" if "v \<in> set (ps @ qs)" "b \<in> set (nodes v)" for v b
    using that dj(3) [of v] wf(3) ts by (intro same) auto
  have ha: "h' a = h a" using dj(2) wf(3) by (intro same) auto
  have kid: "same_frame h h' (rid v)" if "v \<in> set ts" for v
    using that ru out [of v "rid v"] by (auto simp: ts same_frame_def)
  have lev: "level h a (map rid ps @ rid u # map rid qs)" using wf(1) ts by simp
  have "level h' a (map rid ps @ rid u # map rid qs)"
    using lev by (rule level_frame) (use ha kid in \<open>auto simp: ts same_frame_def\<close>)
  moreover have "tree h' v" if "v \<in> set (ps @ qs)" for v
    using wf(1) that by (intro tree_frame [of h, OF _ out [OF that]]) (auto simp: ts list_all_iff)
  ultimately have "tree h' (RNode a (ps @ u' # qs))"
    using u'(1,2) by (auto simp: list_all_iff)
  moreover have "distinct (nodes (RNode a (ps @ u' # qs)))"
    using wf(2,3) u'(3,4) by (auto simp: ts)
  moreover have "\<not> overlaps h b res" if b: "b \<in> set (nodes (RNode a ts)) - {a}" "busy h b" for b
  proof -
    obtain v where v: "v \<in> set ts" "b \<in> set (nodes v)" using b by auto
    show ?thesis
    proof (cases "v = u")
      case True
      then show ?thesis using bu u(2) b(2) v(2) by (cases "b = rid u") auto
    next
      case False
      then have "rid v \<in> set (map rid ps @ map rid qs)" using v(1) ts by auto
      then have "res_end (h (rid v)) < res_start (h (rid u)) \<or> res_end (h (rid u)) < res_start (h (rid v))"
        using disjoint_kids [OF lev] by blast
      moreover have "res_start (h (rid v)) \<le> res_start (h b) \<and> res_end (h b) \<le> res_end (h (rid v))"
        using wf(1) v by (intro tree_nodes_within) (auto simp: list_all_iff)
      ultimately show ?thesis using fu unfolding fits_def overlaps_def by auto
    qed
  qed
  ultimately show ?thesis
    using fit ext ha same u'(1,4) unfolding placed_def
    by (intro conjI exI [of _ "RNode a (ps @ u' # qs)"]) (auto simp: ts same_frame_def)
qed

lemma request_region_loop_spec:
  assumes "tree h t" "distinct (nodes t)" "res \<notin> set (nodes t)" "res \<noteq> 0" "res_child (h res) = 0"
  shows "(\<exists>h'. request_region_loop h (rid t) res = Some (res, h') \<and> placed h h' t res) \<or>
         request_region_loop h (rid t) res = Some (0, h)"
  using assms(1-3)
proof (induction t)
  case (RNode a ts)
  have lev: "level h a (map rid ts)" using RNode.prems(1) by simp
  have res: "res \<notin> set (map rid ts)" "res \<noteq> a" using RNode.prems(3) rid_in_nodes by fastforce+
  have step: "request_region_loop h a res = Option.bind (do_request_resource h a res) (\<lambda>(conflict, h1).
       if conflict = NULL then Some (res, h1)
       else if conflict \<noteq> a then
         (if res_flags (h1 conflict) AND IORESOURCE_BUSY = 0
          then request_region_loop h1 conflict res else Some (NULL, h1))
       else Some (NULL, h1))"
    by (rule request_region_loop.simps)
  show ?case using lev res assms(4)
  proof (cases rule: do_request_resource_cases)
    case outside
    then show ?thesis using step level_root [OF lev] by simp
  next
    case (conflict c)
    then obtain u where u: "u \<in> set ts" "c = rid u" by auto
    have c: "c \<noteq> 0" "c \<noteq> a" using level_nonnull [OF lev conflict(2)] level_root [OF lev] conflict(2) by auto
    show ?thesis
    proof (cases "busy h c")
      case True
      then show ?thesis using step conflict c by (simp add: busy_def)
    next
      case False
      then have "request_region_loop h a res = request_region_loop h (rid u) res"
        using step conflict c u by (simp add: busy_def)
      moreover have "(\<exists>h'. request_region_loop h (rid u) res = Some (res, h') \<and> placed h h' u res) \<or>
         request_region_loop h (rid u) res = Some (0, h)"
        using RNode.prems u(1) by (intro RNode.IH) (auto simp: list_all_iff distinct_concat_iff)
      ultimately show ?thesis
        using placed_lift [OF RNode.prems u(1) _ conflict(1)] False u(2) by auto
    qed
  next
    case (linked ys zs h')
    then show ?thesis using step placed_linked [OF RNode.prems assms(4,5)] by auto
  qed
qed

text \<open>
  C30.  \<open>__request_region\<close> always returns on a well-formed tree.  On success it returns the new
  region, which is now a node of a well-formed tree with exactly one node more, lies inside the
  requested parent and overlaps no busy region below it; on failure (busy, outside the parent, or
  no memory) it returns NULL and no object of the tree changed.
\<close>

theorem request_region_correct:
  assumes "tree h t" "distinct (nodes t)" "res \<notin> set (nodes t)"
  shows "\<exists>r h'. request_region h res (rid t) start n nm = Some (r, h') \<and> (r = res \<or> r = 0) \<and>
     (r \<noteq> 0 \<longrightarrow> (\<exists>t'. rid t' = rid t \<and> tree h' t' \<and> distinct (nodes t') \<and>
                   set (nodes t') = insert res (set (nodes t))) \<and>
        res_start (h' res) = start \<and> res_end (h' res) = start + n - 1 \<and> busy h' res \<and>
        fits h' (rid t) res \<and>
        (\<forall>b \<in> set (nodes t) - {rid t}. busy h b \<longrightarrow> \<not> overlaps h' b res)) \<and>
     (r = 0 \<longrightarrow> (\<forall>a \<in> set (nodes t). h' a = h a))"
proof (cases "res = 0")
  case True
  then show ?thesis by (simp add: request_region_def)
next
  case False
  define r0 where "r0 = \<lparr>res_name = nm, res_start = start, res_end = start + n - 1,
     res_flags = IORESOURCE_BUSY, res_parent = NULL, res_sibling = NULL, res_child = NULL\<rparr>"
  define h0 where "h0 = h(res := r0)"
  have same: "\<And>a. a \<in> set (nodes t) \<Longrightarrow> h0 a = h a" using assms(3) by (auto simp: h0_def)
  have tree: "tree h0 t" using assms(1) same by (rule tree_frame)
  have run: "request_region h res (rid t) start n nm = request_region_loop h0 (rid t) res"
    using False by (simp add: request_region_def h0_def r0_def)
  have r0: "res_start (h0 res) = start" "res_end (h0 res) = start + n - 1" "busy h0 res"
    "res_child (h0 res) = 0"
    by (simp_all add: h0_def r0_def busy_def IORESOURCE_BUSY_def)
  consider h' where "request_region_loop h0 (rid t) res = Some (res, h')" "placed h0 h' t res"
    | "request_region_loop h0 (rid t) res = Some (0, h0)"
    using request_region_loop_spec [OF tree assms(2,3) False r0(4)] by blast
  then show ?thesis
  proof cases
    case 1
    have ext: "res_start (h' a) = res_start (h0 a)" "res_end (h' a) = res_end (h0 a)"
      "res_flags (h' a) = res_flags (h0 a)" for a
      using 1(2) by (auto simp: placed_def extent_def)
    have "busy h0 b = busy h b" if "b \<in> set (nodes t)" for b using same that by (simp add: busy_def)
    then show ?thesis
      using 1 run r0 False by (auto simp: placed_def fits_def overlaps_def busy_def ext)
  next
    case 2
    then show ?thesis using run same by simp
  qed
qed


subsection \<open>Allocation\<close>

definition good_slot :: "resource \<Rightarrow> u32 \<Rightarrow> u32 \<Rightarrow> u32 \<Rightarrow> bool" where
  "good_slot r mn mx align \<longleftrightarrow> res_start r AND (align - 1) = 0 \<and> res_end r \<le> mx \<and>
     (mn \<le> res_start r \<or> res_start r = 0)"

lemma find_candidate_good:
  assumes "k < 32"
  shows "good_slot (find_candidate h root new this sz mn mx (2 ^ k) None) mn mx (2 ^ k)"
proof -
  define x where "x = (if res_start new < mn then mn else res_start new)"
  have "mn \<le> x" by (auto simp: x_def)
  then have up: "mn \<le> (x + 2 ^ k - 1) AND NOT (2 ^ k - 1) \<or> (x + 2 ^ k - 1) AND NOT (2 ^ k - 1) = 0"
    using align_up_cases [OF assms, of x] by auto
  have st: "res_start (find_candidate h root new this sz mn mx (2 ^ k) None) =
      (x + 2 ^ k - 1) AND NOT (2 ^ k - 1)"
    by (simp add: find_candidate_def Let_def x_def)
  have en: "res_end (find_candidate h root new this sz mn mx (2 ^ k) None) \<le> mx"
    by (auto simp: find_candidate_def Let_def)
  show ?thesis
    using up en and_mask_zero [of "x + 2 ^ k - 1" k]
    unfolding good_slot_def st mask_eq_exp_minus_1 by blast
qed

lemma slot_end_le:
  fixes s e sz :: u32
  assumes "s < e" "sz \<le> e - s + 1" "sz \<noteq> 0"
  shows "s + sz - 1 \<le> e"
  using assms by uint_arith

lemma found_slot:
  assumes "k < 32" "sz \<noteq> 0" and "c = find_candidate h root new this sz mn mx (2 ^ k) None"
    and "res_start c < res_end c" "sz \<le> res_end c - res_start c + 1"
  shows "good_slot (c\<lparr>res_end := res_start c + sz - 1\<rparr>) mn mx (2 ^ k)"
  using find_candidate_good [OF assms(1), of h root new this sz mn mx]
    slot_end_le [OF assms(4,5,2)] unfolding assms(3) [symmetric] by (auto simp: good_slot_def)

lemma find_loop_result:
  assumes "chain (\<lambda>a. res_sibling (h a)) this xs" "k < 32" "sz \<noteq> 0"
  shows "\<exists>err r. find_loop h root new this sz mn mx (2 ^ k) None = Some (err, r) \<and>
     (err = - EBUSY \<or> err = 0 \<and> good_slot r mn mx (2 ^ k) \<and> res_end r = res_start r + sz - 1)"
  using assms(1)
proof (induction xs arbitrary: this new)
  case Nil
  then show ?case using found_slot [OF assms(2,3) refl] by (subst find_loop.simps) (auto simp: Let_def)
next
  case (Cons x xs)
  have x: "this = x" "x \<noteq> 0" "chain (\<lambda>a. res_sibling (h a)) (res_sibling (h x)) xs"
    using Cons.prems by auto
  define c where "c = find_candidate h root new x sz mn mx (2 ^ k) None"
  note IH = Cons.IH [OF x(3), of "c\<lparr>res_start := res_end (h x) + 1\<rparr>"]
  show ?case unfolding x(1) using found_slot [OF assms(2,3) c_def] IH x(2)
    by (subst find_loop.simps) (auto simp: Let_def c_def [symmetric])
qed



text \<open>
  The search takes \<open>this->start\<close>, not \<open>this->start - 1\<close>, as the end of the hole before
  \<open>this\<close>.  When the hole before the first child is exactly one unit too short, the search stops at
  it and the following request fails: \<open>allocate_resource\<close> returns \<open>-EBUSY\<close> however much space is
  free behind that child.
\<close>

theorem allocate_resource_off_by_one:
  assumes "level h root (x # xs)" "new \<notin> set (x # xs)" "new \<noteq> root" "new \<noteq> 0"
    and "mn \<le> res_start (h root)" "res_start (h x) \<le> mx" "res_start (h root) < res_start (h x)"
    and "sz = res_start (h x) - res_start (h root) + 1"
  shows "\<exists>h'. allocate_resource h root new sz mn mx 1 None = Some (- EBUSY, h') \<and> level h' root (x # xs)"
proof -
  have x: "res_child (h root) = x" "x \<noteq> 0" using level_chain [OF assms(1)] by auto
  define r where "r = (h new)\<lparr>res_start := res_start (h root), res_end := res_start (h x)\<rparr>"
  have "find_candidate h root ((h new)\<lparr>res_start := res_start (h root)\<rparr>) x sz mn mx 1 None = r"
    using assms x by (auto simp: find_candidate_def Let_def r_def)
  moreover have "r\<lparr>res_end := res_start r + sz - 1\<rparr> = r" using assms(8) by (simp add: r_def)
  ultimately have "find_loop h root ((h new)\<lparr>res_start := res_start (h root)\<rparr>) (res_child (h root)) sz mn mx 1 None
      = Some (0, r)"
    using x assms(7,8) by (subst find_loop.simps) (simp add: Let_def r_def)
  then have find: "find_resource h root new sz mn mx 1 None = Some (0, h(new := r))"
    by (simp add: find_resource_def)
  have "(h(new := r)) y = h y" if "y \<noteq> new" for y using that by simp
  then have lev: "level (h(new := r)) root (x # xs)"
    using assms(1) level_cong [of "h(new := r)" root h "x # xs"] assms(2,3) by metis
  have ov: "overlaps (h(new := r)) x new"
    using assms(1,2) assms(7) by (auto simp: overlaps_def r_def level_def)
  show ?thesis using lev assms(2-4)
  proof (cases rule: do_request_resource_cases)
    case outside
    then show ?thesis using find lev level_root [OF lev] by (auto simp: allocate_resource_def)
  next
    case (conflict c)
    then show ?thesis using find lev level_nonnull [OF lev conflict(2)]
      by (auto simp: allocate_resource_def)
  next
    case linked
    then have "\<not> overlaps (h(new := r)) x new" by (metis list.set_intros(1))
    with ov show ?thesis by simp
  qed
qed

subsection \<open>A concrete level for the witnesses\<close>

definition demo_heap :: rheap where
  "demo_heap = (\<lambda>_. \<lparr>res_name = ''free'', res_start = 16, res_end = 31, res_flags = 0,
                     res_parent = 0, res_sibling = 0, res_child = 0\<rparr>)
     (1 := \<lparr>res_name = ''PCI IO'', res_start = 0, res_end = 0xffff, res_flags = 0x100,
            res_parent = 0, res_sibling = 0, res_child = 2\<rparr>,
      2 := \<lparr>res_name = ''dma1'', res_start = 8, res_end = 15, res_flags = IORESOURCE_BUSY,
            res_parent = 1, res_sibling = 0, res_child = 0\<rparr>)"

lemma demo_level: "level demo_heap 1 [2]"
  by (simp add: level_def demo_heap_def)

lemma demo_tree: "tree demo_heap (RNode 1 [RNode 2 []])"
  by (simp add: level_def demo_heap_def)

theorem request_resource_correct_witness:
  "\<exists>h'. request_resource demo_heap 1 3 = Some (0, h') \<and>
     (\<exists>ys zs. [2] = ys @ zs \<and> level h' 1 (ys @ 3 # zs))"
proof -
  have "fits demo_heap 1 3" "\<forall>x\<in>set [2]. \<not> overlaps demo_heap x 3"
    by (simp_all add: fits_def overlaps_def demo_heap_def)
  then show ?thesis using request_resource_correct [OF demo_level, of 3] by auto
qed

theorem release_resource_correct_witness:
  "\<exists>h'. release_resource demo_heap 2 = Some (0, h') \<and> level h' 1 []"
  using release_resource_correct [OF demo_level, of 2] by auto

theorem check_resource_correct_witness:
  "\<exists>h'. check_resource demo_heap 3 1 8 4 = Some (- EBUSY, h') \<and> level h' 1 [2]"
  using check_resource_correct [OF demo_level, of 3 8 4] by (auto simp: demo_heap_def)

lemma demo_region: "fst (the (request_region demo_heap 3 1 16 8 ''eth0'')) = 3"
  by (simp add: request_region_def request_region_loop.simps do_request_resource_def
      request_loop.simps demo_heap_def Let_def)

theorem request_region_correct_witness:
  "\<exists>h' t'. request_region demo_heap 3 1 16 8 ''eth0'' = Some (3, h') \<and> tree h' t' \<and>
     set (nodes t') = {1, 2, 3} \<and> \<not> overlaps h' 2 3"
  using request_region_correct [OF demo_tree, of 3 16 8 "''eth0''"] demo_region
  by (auto simp: demo_heap_def busy_def IORESOURCE_BUSY_def)

lemma demo_allocate: "fst (the (allocate_resource demo_heap 1 3 16 0x100 0xffff (2 ^ 4) None)) = 0"
  by (simp add: allocate_resource_def find_resource_def find_loop.simps find_candidate_def
      do_request_resource_def request_loop.simps demo_heap_def Let_def)


theorem allocate_resource_off_by_one_witness:
  "\<exists>h'. allocate_resource demo_heap 1 3 9 0 0xffff 1 None = Some (- EBUSY, h') \<and> level h' 1 [2]"
  using allocate_resource_off_by_one [OF demo_level, of 3 0 "0xffff" 9] by (simp add: demo_heap_def)

end
