(* ===== verification/SocketFilter.thy ===== *)
theory SocketFilter
  imports KPrelude
begin

text \<open>
  The socket filter (BPF) machine of net/core/filter.c: \<open>sk_run_filter\<close>, the checker
  \<open>sk_chk_filter\<close> and \<open>sk_attach_filter\<close>, with \<open>skb_copy_bits\<close> of net/core/skbuff.c, on which the
  packet loads rely.  Every access to the program, the scratch memory or a packet buffer that
  would leave its object is the result \<open>Wild\<close>, so that safety is a theorem and not a convention.
  A program may jump backwards through a large unsigned offset and never return: the
  interpreter loop is a \<open>partial_function (option)\<close>, and returning is proved.  Shift counts are
  taken modulo 32, as the i386 shift instructions do.  \<open>mem0\<close> is the uninitialised content of
  the scratch memory on the stack.
\<close>

subsection \<open>Instructions (include/linux/filter.h)\<close>

record sock_filter =
  f_code :: u16
  f_jt :: u8
  f_jf :: u8
  f_k :: u32

definition BPF_LD :: u16 where [kdefs]: "BPF_LD = 0x00"
definition BPF_LDX :: u16 where [kdefs]: "BPF_LDX = 0x01"
definition BPF_ST :: u16 where [kdefs]: "BPF_ST = 0x02"
definition BPF_STX :: u16 where [kdefs]: "BPF_STX = 0x03"
definition BPF_ALU :: u16 where [kdefs]: "BPF_ALU = 0x04"
definition BPF_JMP :: u16 where [kdefs]: "BPF_JMP = 0x05"
definition BPF_RET :: u16 where [kdefs]: "BPF_RET = 0x06"
definition BPF_MISC :: u16 where [kdefs]: "BPF_MISC = 0x07"
definition BPF_W :: u16 where [kdefs]: "BPF_W = 0x00"
definition BPF_H :: u16 where [kdefs]: "BPF_H = 0x08"
definition BPF_B :: u16 where [kdefs]: "BPF_B = 0x10"
definition BPF_IMM :: u16 where [kdefs]: "BPF_IMM = 0x00"
definition BPF_ABS :: u16 where [kdefs]: "BPF_ABS = 0x20"
definition BPF_IND :: u16 where [kdefs]: "BPF_IND = 0x40"
definition BPF_MEM :: u16 where [kdefs]: "BPF_MEM = 0x60"
definition BPF_LEN :: u16 where [kdefs]: "BPF_LEN = 0x80"
definition BPF_MSH :: u16 where [kdefs]: "BPF_MSH = 0xa0"
definition BPF_ADD :: u16 where [kdefs]: "BPF_ADD = 0x00"
definition BPF_SUB :: u16 where [kdefs]: "BPF_SUB = 0x10"
definition BPF_MUL :: u16 where [kdefs]: "BPF_MUL = 0x20"
definition BPF_DIV :: u16 where [kdefs]: "BPF_DIV = 0x30"
definition BPF_OR :: u16 where [kdefs]: "BPF_OR = 0x40"
definition BPF_AND :: u16 where [kdefs]: "BPF_AND = 0x50"
definition BPF_LSH :: u16 where [kdefs]: "BPF_LSH = 0x60"
definition BPF_RSH :: u16 where [kdefs]: "BPF_RSH = 0x70"
definition BPF_NEG :: u16 where [kdefs]: "BPF_NEG = 0x80"
definition BPF_JA :: u16 where [kdefs]: "BPF_JA = 0x00"
definition BPF_JEQ :: u16 where [kdefs]: "BPF_JEQ = 0x10"
definition BPF_JGT :: u16 where [kdefs]: "BPF_JGT = 0x20"
definition BPF_JGE :: u16 where [kdefs]: "BPF_JGE = 0x30"
definition BPF_JSET :: u16 where [kdefs]: "BPF_JSET = 0x40"
definition BPF_K :: u16 where [kdefs]: "BPF_K = 0x00"
definition BPF_X :: u16 where [kdefs]: "BPF_X = 0x08"
definition BPF_A :: u16 where [kdefs]: "BPF_A = 0x10"
definition BPF_TAX :: u16 where [kdefs]: "BPF_TAX = 0x00"
definition BPF_TXA :: u16 where [kdefs]: "BPF_TXA = 0x80"
definition BPF_CLASS :: "u16 \<Rightarrow> u16" where [kdefs]: "BPF_CLASS c = c AND 0x07"
definition BPF_OP :: "u16 \<Rightarrow> u16" where [kdefs]: "BPF_OP c = c AND 0xf0"
definition BPF_MAXINSNS :: nat where [kdefs]: "BPF_MAXINSNS = 4096"
definition BPF_MEMWORDS :: nat where [kdefs]: "BPF_MEMWORDS = 16"
definition SKF_AD_OFF :: int where [kdefs]: "SKF_AD_OFF = - 0x1000"
definition SKF_AD_PROTOCOL :: int where [kdefs]: "SKF_AD_PROTOCOL = 0"
definition SKF_AD_PKTTYPE :: int where [kdefs]: "SKF_AD_PKTTYPE = 4"
definition SKF_AD_IFINDEX :: int where [kdefs]: "SKF_AD_IFINDEX = 8"
definition SKF_NET_OFF :: int where [kdefs]: "SKF_NET_OFF = - 0x100000"
definition SKF_LL_OFF :: int where [kdefs]: "SKF_LL_OFF = - 0x200000"

subsection \<open>Socket buffers (the fields the filter reads)\<close>

text \<open>
  \<open>skb_mem\<close> holds the bytes from \<open>skb->head\<close> to \<open>skb->end\<close>; \<open>data\<close>, \<open>tail\<close>, \<open>nh.raw\<close> and \<open>mac.raw\<close>
  are offsets from \<open>head\<close>.  A page fragment is the bytes at its page offset, \<open>skb_ifindex\<close> is
  \<open>None\<close> when \<open>skb->dev\<close> is NULL.
\<close>

datatype sk_buff = SkBuff
  (skb_mem: "u8 list") (skb_data: int) (skb_tail: int) (skb_nh: int) (skb_mac: int)
  (skb_len: u32) (skb_data_len: u32) (skb_protocol: u16) (skb_pkt_type: u8)
  (skb_ifindex: "int option") (skb_frags: "u8 list list") (skb_frag_list: "sk_buff list")

definition slice :: "'a list \<Rightarrow> int \<Rightarrow> int \<Rightarrow> 'a list option" where
  "slice xs off n =
     (if 0 \<le> off \<and> 0 \<le> n \<and> off + n \<le> int (length xs) then Some (take (nat n) (drop (nat off) xs)) else None)"

datatype copy_state =
    Copying int int int "u8 list" \<comment> \<open>start, offset, len, bytes copied so far\<close>
  | Copied "u8 list"              \<comment> \<open>return 0\<close>
  | CopyFault                     \<comment> \<open>return -EFAULT\<close>
  | CopyWild                      \<comment> \<open>a read outside the source object\<close>

definition copy_head :: "u8 list \<Rightarrow> int \<Rightarrow> int \<Rightarrow> int \<Rightarrow> int \<Rightarrow> copy_state" where
  "copy_head mm data start offset len =
     (if start - offset > 0 then
        (let copy = (if start - offset > len then len else start - offset) in
         case slice mm (data + offset) copy of
           None \<Rightarrow> CopyWild
         | Some bs \<Rightarrow> if len - copy = 0 then Copied bs
                      else Copying start (offset + copy) (len - copy) bs)
      else Copying start offset len [])"

fun copy_frags :: "u8 list list \<Rightarrow> copy_state \<Rightarrow> copy_state" where
  "copy_frags (f # fs) (Copying start offset len acc) =
     (let end' = start + int (length f); copy = end' - offset in
      if copy > 0 then
        (let copy' = (if copy > len then len else copy) in
         case slice f (offset - start) copy' of
           None \<Rightarrow> CopyWild
         | Some bs \<Rightarrow>
             if len - copy' = 0 then Copied (acc @ bs)
             else copy_frags fs (Copying end' (offset + copy') (len - copy') (acc @ bs)))
      else copy_frags fs (Copying end' offset len acc))"
| "copy_frags _ s = s"

fun skb_copy_bits :: "sk_buff \<Rightarrow> int \<Rightarrow> int \<Rightarrow> copy_state"
  and copy_frag_list :: "sk_buff list \<Rightarrow> copy_state \<Rightarrow> copy_state" where
  "skb_copy_bits (SkBuff mm data tail nh mac slen sdlen prot pt ifi frags fl) offset len =
     (let start = sint (slen - sdlen) in
      if offset > sint slen - len then CopyFault
      else
        (case copy_frag_list fl (copy_frags frags (copy_head mm data start offset len)) of
           Copying _ _ len' acc \<Rightarrow> if len' = 0 then Copied acc else CopyFault
         | s \<Rightarrow> s))"
| "copy_frag_list (l # ls) (Copying start offset len acc) =
     (let end' = start + sint (skb_len l); copy = end' - offset in
      if copy > 0 then
        (let copy' = (if copy > len then len else copy) in
         case skb_copy_bits l (offset - start) copy' of
           Copied bs \<Rightarrow>
             if len - copy' = 0 then Copied (acc @ bs)
             else copy_frag_list ls (Copying end' (offset + copy') (len - copy') (acc @ bs))
         | CopyWild \<Rightarrow> CopyWild
         | _ \<Rightarrow> CopyFault)
      else copy_frag_list ls (Copying end' offset len acc))"
| "copy_frag_list _ s = s"

subsection \<open>The machine\<close>

record bpf_state =
  bA :: u32
  bX :: u32
  bmem :: "u32 list"
  bpc :: int

datatype bpf_result = Continue bpf_state | Ancillary int bpf_state | Ret u32 | Wild

definition int32 :: "int \<Rightarrow> int" where
  "int32 x = sint (word_of_int x :: u32)"

definition shl32 :: "u32 \<Rightarrow> u32 \<Rightarrow> u32" where
  "shl32 a n = push_bit (unat (n AND 31)) a"

definition shr32 :: "u32 \<Rightarrow> u32 \<Rightarrow> u32" where
  "shr32 a n = drop_bit (unat (n AND 31)) a"

definition be_bytes :: "u8 list \<Rightarrow> u32" where
  "be_bytes bs = foldl (\<lambda>acc b. push_bit 8 acc OR ucast b) 0 bs"

definition htons :: "u16 \<Rightarrow> u16" where
  "htons x = push_bit 8 x OR drop_bit 8 x"

definition headlen :: "sk_buff \<Rightarrow> u32" where
  "headlen skb = skb_len skb - skb_data_len skb"

text \<open>The pointer as an offset from \<open>skb->head\<close>; \<open>None\<close> is NULL.\<close>

definition load_pointer :: "sk_buff \<Rightarrow> int \<Rightarrow> int option" where
  "load_pointer skb k =
     (if k \<ge> SKF_NET_OFF then
        (let ptr = skb_nh skb + k - SKF_NET_OFF in
         if 0 \<le> ptr \<and> ptr < skb_tail skb then Some ptr else None)
      else if k \<ge> SKF_LL_OFF then
        (let ptr = skb_mac skb + k - SKF_LL_OFF in
         if 0 \<le> ptr \<and> ptr < skb_tail skb then Some ptr else None)
      else None)"

text \<open>
  The three load blocks \<open>load_w\<close>, \<open>load_h\<close> and \<open>load_b\<close> differ in the width \<open>n\<close> (4, 2, 1); the
  byte-wide bound \<open>(unsigned int)k < len\<close> is \<open>(unsigned int)(k + 1) \<le> len\<close> for \<open>k \<ge> 0\<close>.
\<close>

definition bpf_load :: "nat \<Rightarrow> sk_buff \<Rightarrow> int \<Rightarrow> bpf_state \<Rightarrow> bpf_result" where
  "bpf_load n skb k s =
     (let fetch = (\<lambda>off. case slice (skb_mem skb) off (int n) of
                           None \<Rightarrow> Wild | Some bs \<Rightarrow> Continue (s\<lparr>bA := be_bytes bs\<rparr>)) in
      if k \<ge> 0 \<and> (word_of_int (k + int n) :: u32) \<le> headlen skb then fetch (skb_data skb + k)
      else if k < 0 then
        (if k \<ge> SKF_AD_OFF then Ancillary k s
         else (case load_pointer skb k of Some ptr \<Rightarrow> fetch ptr | None \<Rightarrow> Ret 0))
      else (case skb_copy_bits skb k (int n) of
              Copied bs \<Rightarrow> Continue (s\<lparr>bA := be_bytes bs\<rparr>)
            | CopyWild \<Rightarrow> Wild
            | _ \<Rightarrow> Ret 0))"

definition ancillary :: "sk_buff \<Rightarrow> int \<Rightarrow> bpf_state \<Rightarrow> bpf_result" where
  "ancillary skb k s =
     (if k - SKF_AD_OFF = SKF_AD_PROTOCOL then Continue (s\<lparr>bA := ucast (htons (skb_protocol skb))\<rparr>)
      else if k - SKF_AD_OFF = SKF_AD_PKTTYPE then Continue (s\<lparr>bA := ucast (skb_pkt_type skb)\<rparr>)
      else if k - SKF_AD_OFF = SKF_AD_IFINDEX then
        (case skb_ifindex skb of None \<Rightarrow> Wild | Some i \<Rightarrow> Continue (s\<lparr>bA := word_of_int i\<rparr>))
      else Ret 0)"

definition run_alu :: "sock_filter \<Rightarrow> bpf_state \<Rightarrow> bpf_result option" where
  "run_alu f s =
     (let c = f_code f; A = bA s; X = bX s; set = (\<lambda>v. Some (Continue (s\<lparr>bA := v\<rparr>))) in
      if c = BPF_ALU OR BPF_ADD OR BPF_X then set (A + X)
      else if c = BPF_ALU OR BPF_ADD OR BPF_K then set (A + f_k f)
      else if c = BPF_ALU OR BPF_SUB OR BPF_X then set (A - X)
      else if c = BPF_ALU OR BPF_SUB OR BPF_K then set (A - f_k f)
      else if c = BPF_ALU OR BPF_MUL OR BPF_X then set (A * X)
      else if c = BPF_ALU OR BPF_MUL OR BPF_K then set (A * f_k f)
      else if c = BPF_ALU OR BPF_DIV OR BPF_X then (if X = 0 then Some (Ret 0) else set (A div X))
      else if c = BPF_ALU OR BPF_DIV OR BPF_K then (if f_k f = 0 then Some (Ret 0) else set (A div f_k f))
      else if c = BPF_ALU OR BPF_AND OR BPF_X then set (A AND X)
      else if c = BPF_ALU OR BPF_AND OR BPF_K then set (A AND f_k f)
      else if c = BPF_ALU OR BPF_OR OR BPF_X then set (A OR X)
      else if c = BPF_ALU OR BPF_OR OR BPF_K then set (A OR f_k f)
      else if c = BPF_ALU OR BPF_LSH OR BPF_X then set (shl32 A X)
      else if c = BPF_ALU OR BPF_LSH OR BPF_K then set (shl32 A (f_k f))
      else if c = BPF_ALU OR BPF_RSH OR BPF_X then set (shr32 A X)
      else if c = BPF_ALU OR BPF_RSH OR BPF_K then set (shr32 A (f_k f))
      else if c = BPF_ALU OR BPF_NEG then set (- A)
      else None)"

definition run_jmp :: "sock_filter \<Rightarrow> bpf_state \<Rightarrow> bpf_result option" where
  "run_jmp f s =
     (let c = f_code f; A = bA s; X = bX s;
          jump = (\<lambda>b. Some (Continue (s\<lparr>bpc := bpc s + int (unat (if b then f_jt f else f_jf f))\<rparr>))) in
      if c = BPF_JMP OR BPF_JA then
        Some (Continue (s\<lparr>bpc := sint ((word_of_int (bpc s) :: u32) + f_k f)\<rparr>))
      else if c = BPF_JMP OR BPF_JGT OR BPF_K then jump (f_k f < A)
      else if c = BPF_JMP OR BPF_JGE OR BPF_K then jump (f_k f \<le> A)
      else if c = BPF_JMP OR BPF_JEQ OR BPF_K then jump (A = f_k f)
      else if c = BPF_JMP OR BPF_JSET OR BPF_K then jump (A AND f_k f \<noteq> 0)
      else if c = BPF_JMP OR BPF_JGT OR BPF_X then jump (X < A)
      else if c = BPF_JMP OR BPF_JGE OR BPF_X then jump (X \<le> A)
      else if c = BPF_JMP OR BPF_JEQ OR BPF_X then jump (A = X)
      else if c = BPF_JMP OR BPF_JSET OR BPF_X then jump (A AND X \<noteq> 0)
      else None)"

definition mem_read :: "bpf_state \<Rightarrow> u32 \<Rightarrow> (u32 \<Rightarrow> bpf_state) \<Rightarrow> bpf_result" where
  "mem_read s i upd = (if unat i < length (bmem s) then Continue (upd (bmem s ! unat i)) else Wild)"

definition mem_write :: "bpf_state \<Rightarrow> u32 \<Rightarrow> u32 \<Rightarrow> bpf_result" where
  "mem_write s i v =
     (if unat i < length (bmem s) then Continue (s\<lparr>bmem := (bmem s)[unat i := v]\<rparr>) else Wild)"

definition run_load :: "sk_buff \<Rightarrow> sock_filter \<Rightarrow> bpf_state \<Rightarrow> bpf_result option" where
  "run_load skb f s =
     (let c = f_code f; ind = sint (bX s + f_k f) in
      if c = BPF_LD OR BPF_W OR BPF_ABS then Some (bpf_load 4 skb (sint (f_k f)) s)
      else if c = BPF_LD OR BPF_H OR BPF_ABS then Some (bpf_load 2 skb (sint (f_k f)) s)
      else if c = BPF_LD OR BPF_B OR BPF_ABS then Some (bpf_load 1 skb (sint (f_k f)) s)
      else if c = BPF_LD OR BPF_W OR BPF_LEN then Some (Continue (s\<lparr>bA := headlen skb\<rparr>))
      else if c = BPF_LDX OR BPF_W OR BPF_LEN then Some (Continue (s\<lparr>bX := headlen skb\<rparr>))
      else if c = BPF_LD OR BPF_W OR BPF_IND then Some (bpf_load 4 skb ind s)
      else if c = BPF_LD OR BPF_H OR BPF_IND then Some (bpf_load 2 skb ind s)
      else if c = BPF_LD OR BPF_B OR BPF_IND then Some (bpf_load 1 skb ind s)
      else if c = BPF_LDX OR BPF_B OR BPF_MSH then
        (if headlen skb \<le> f_k f then Some (Ret 0)
         else (case slice (skb_mem skb) (skb_data skb + int (unat (f_k f))) 1 of
                 None \<Rightarrow> Some Wild
               | Some bs \<Rightarrow> Some (Continue (s\<lparr>bX := push_bit 2 (be_bytes bs AND 0xf)\<rparr>))))
      else None)"

definition run_misc :: "sock_filter \<Rightarrow> bpf_state \<Rightarrow> bpf_result" where
  "run_misc f s =
     (let c = f_code f in
      if c = BPF_LD OR BPF_IMM then Continue (s\<lparr>bA := f_k f\<rparr>)
      else if c = BPF_LDX OR BPF_IMM then Continue (s\<lparr>bX := f_k f\<rparr>)
      else if c = BPF_LD OR BPF_MEM then mem_read s (f_k f) (\<lambda>v. s\<lparr>bA := v\<rparr>)
      else if c = BPF_LDX OR BPF_MEM then mem_read s (f_k f) (\<lambda>v. s\<lparr>bX := v\<rparr>)
      else if c = BPF_MISC OR BPF_TAX then Continue (s\<lparr>bX := bA s\<rparr>)
      else if c = BPF_MISC OR BPF_TXA then Continue (s\<lparr>bA := bX s\<rparr>)
      else if c = BPF_RET OR BPF_K then Ret (f_k f)
      else if c = BPF_RET OR BPF_A then Ret (bA s)
      else if c = BPF_ST then mem_write s (f_k f) (bA s)
      else if c = BPF_STX then mem_write s (f_k f) (bX s)
      else Ret 0)"

definition bpf_switch :: "sk_buff \<Rightarrow> sock_filter \<Rightarrow> bpf_state \<Rightarrow> bpf_result" where
  "bpf_switch skb f s =
     (case run_alu f s of Some r \<Rightarrow> r | None \<Rightarrow>
      (case run_jmp f s of Some r \<Rightarrow> r | None \<Rightarrow>
       (case run_load skb f s of Some r \<Rightarrow> r | None \<Rightarrow> run_misc f s)))"

definition bpf_step :: "sk_buff \<Rightarrow> sock_filter \<Rightarrow> bpf_state \<Rightarrow> bpf_result" where
  "bpf_step skb f s =
     (case bpf_switch skb f s of Ancillary k s' \<Rightarrow> ancillary skb k s' | r \<Rightarrow> r)"

partial_function (option) bpf_loop ::
    "sk_buff \<Rightarrow> sock_filter list \<Rightarrow> bpf_state \<Rightarrow> bpf_result option" where
  "bpf_loop skb prog s =
     (if bpc s < int (length prog) then
        (if bpc s < 0 then Some Wild
         else (case bpf_step skb (prog ! nat (bpc s)) s of
                 Continue s' \<Rightarrow> bpf_loop skb prog (s'\<lparr>bpc := int32 (bpc s' + 1)\<rparr>)
               | r \<Rightarrow> Some r))
      else Some (Ret 0))"

definition sk_run_filter :: "sk_buff \<Rightarrow> sock_filter list \<Rightarrow> u32 list \<Rightarrow> bpf_result option" where
  "sk_run_filter skb prog mem0 = bpf_loop skb prog \<lparr>bA = 0, bX = 0, bmem = mem0, bpc = 0\<rparr>"

subsection \<open>The checker\<close>

definition chk_insn :: "int \<Rightarrow> int \<Rightarrow> sock_filter \<Rightarrow> bool" where
  "chk_insn flen pc f =
     (let jump_ok =
        (if BPF_CLASS (f_code f) = BPF_JMP then
           (if BPF_OP (f_code f) = BPF_JA then f_k f < word_of_int (flen - pc - 1)
            else \<not> (pc + int (unat (f_jt f)) + 1 \<ge> flen \<or> pc + int (unat (f_jf f)) + 1 \<ge> flen))
         else True);
       mem_ok =
        (if of_nat BPF_MEMWORDS \<le> f_k f
         then f_code f \<notin> {BPF_ST, BPF_STX, BPF_LD OR BPF_MEM, BPF_LDX OR BPF_MEM}
         else True)
      in jump_ok \<and> mem_ok)"

fun chk_loop :: "int \<Rightarrow> int \<Rightarrow> sock_filter list \<Rightarrow> bool" where
  "chk_loop flen pc [] = True"
| "chk_loop flen pc (f # fs) = (if chk_insn flen pc f then chk_loop flen (pc + 1) fs else False)"

text \<open>
  For \<open>flen = 0\<close> the code reads \<open>filter[-1]\<close>; \<open>before\<close> is what lies in memory there.
\<close>

definition sk_chk_filter :: "sock_filter \<Rightarrow> sock_filter list \<Rightarrow> int" where
  "sk_chk_filter before prog =
     (if length prog \<ge> 0xffffffff div 8 then - EINVAL
      else if \<not> chk_loop (int (length prog)) 0 prog then - EINVAL
      else if BPF_CLASS (f_code (if prog = [] then before else last prog)) = BPF_RET then 0
      else - EINVAL)"

subsection \<open>Attaching a filter to a socket\<close>

record sk_filter =
  refcnt :: int
  insns :: "sock_filter list"

record sock =
  sk_filter_of :: "sk_filter option"
  omem_alloc :: int

definition sk_filter_len :: "sk_filter \<Rightarrow> int" where
  "sk_filter_len fp = int (length (insns fp)) * 8 + 8"

text \<open>\<open>kmalloc_ok\<close>: whether the page allocator has the memory; the boolean result: a non-NULL block.\<close>

definition sock_kmalloc :: "int \<Rightarrow> bool \<Rightarrow> sock \<Rightarrow> int \<Rightarrow> bool \<times> sock" where
  "sock_kmalloc sysctl_optmem_max kmalloc_ok sk sz =
     (if sz \<le> sysctl_optmem_max \<and> omem_alloc sk + sz < sysctl_optmem_max then
        (let sk1 = sk\<lparr>omem_alloc := omem_alloc sk + sz\<rparr> in
         if kmalloc_ok then (True, sk1) else (False, sk1\<lparr>omem_alloc := omem_alloc sk1 - sz\<rparr>))
      else (False, sk))"

definition sock_kfree_s :: "sock \<Rightarrow> int \<Rightarrow> sock" where
  "sock_kfree_s sk sz = sk\<lparr>omem_alloc := omem_alloc sk - sz\<rparr>"

text \<open>The boolean says that the last reference went away and the filter was freed.\<close>

definition sk_filter_release :: "sock \<Rightarrow> sk_filter \<Rightarrow> sock \<times> sk_filter \<times> bool" where
  "sk_filter_release sk fp =
     (sk\<lparr>omem_alloc := omem_alloc sk - sk_filter_len fp\<rparr>, fp\<lparr>refcnt := refcnt fp - 1\<rparr>, refcnt fp - 1 = 0)"

text \<open>
  \<open>fprog\<close> is the user's program: \<open>user = None\<close> a NULL pointer, \<open>Some (Inl ())\<close> a pointer
  \<open>copy_from_user\<close> faults on, \<open>Some (Inr fs)\<close> the instructions it copies (\<open>length fs = fprog->len\<close>).
\<close>

definition sk_attach_filter ::
    "int \<Rightarrow> bool \<Rightarrow> nat \<Rightarrow> (unit + sock_filter list) option \<Rightarrow> sock \<Rightarrow> int \<times> sock" where
  "sk_attach_filter sysctl_optmem_max kmalloc_ok len user sk =
     (let fsize = 8 * int len in
      case user of
        None \<Rightarrow> (- EINVAL, sk)
      | Some u \<Rightarrow>
          if len > BPF_MAXINSNS then (- EINVAL, sk)
          else
            (case sock_kmalloc sysctl_optmem_max kmalloc_ok sk (fsize + 8) of
               (False, sk1) \<Rightarrow> (- ENOMEM, sk1)
             | (True, sk1) \<Rightarrow>
                 (case u of
                    Inl _ \<Rightarrow> (- EFAULT, sock_kfree_s sk1 (fsize + 8))
                  | Inr fs \<Rightarrow>
                      (let fp = \<lparr>refcnt = 1, insns = fs\<rparr>;
                           header = \<lparr>f_code = 1, f_jt = 0, f_jf = 0, f_k = of_nat (length fs)\<rparr>;
                           err = sk_chk_filter header fs;
                           old_fp = (if err = 0 then sk_filter_of sk1 else Some fp);
                           sk2 = (if err = 0 then sk1\<lparr>sk_filter_of := Some fp\<rparr> else sk1)
                       in (err, case old_fp of None \<Rightarrow> sk2
                                | Some old \<Rightarrow> fst (sk_filter_release sk2 old))))))"


subsection \<open>Packet reads stay inside the packet\<close>

primrec skb_wf :: "sk_buff \<Rightarrow> bool" where
  "skb_wf (SkBuff mm data tail nh mac slen sdlen prot pt ifi frags fl) \<longleftrightarrow>
     0 \<le> data \<and> data + uint (slen - sdlen) \<le> tail \<and> tail \<le> int (length mm) \<and> sdlen \<le> slen \<and>
     uint slen < 2 ^ 31 \<and> list_all skb_wf fl"

text \<open>
  What the filter needs of the packet: well-formed buffers, a device, and, because
  \<open>load_pointer\<close> checks only the first byte of a multi-byte load, three bytes behind \<open>tail\<close>.
\<close>

definition filter_skb :: "sk_buff \<Rightarrow> bool" where
  "filter_skb skb \<longleftrightarrow> skb_wf skb \<and> skb_tail skb + 3 \<le> int (length (skb_mem skb)) \<and> skb_ifindex skb \<noteq> None"

fun copy_ok :: "copy_state \<Rightarrow> bool" where
  "copy_ok (Copying start offset len acc) \<longleftrightarrow> start \<le> offset \<and> 0 \<le> len"
| "copy_ok CopyWild \<longleftrightarrow> False"
| "copy_ok _ \<longleftrightarrow> True"

lemma slice_Some: "0 \<le> off \<Longrightarrow> 0 \<le> n \<Longrightarrow> off + n \<le> int (length xs) \<Longrightarrow>
    slice xs off n = Some (take (nat n) (drop (nat off) xs))"
  by (simp add: slice_def)

lemma slice_length: "slice xs off n = Some bs \<Longrightarrow> int (length bs) = n"
  by (auto simp: slice_def split: if_splits)

lemma copy_head_ok:
  assumes "0 \<le> data" "data + start \<le> int (length mm)" "0 \<le> offset" "0 \<le> len"
  shows "copy_ok (copy_head mm data start offset len)"
proof (cases "start - offset > 0")
  case True
  let ?copy = "if start - offset > len then len else start - offset"
  have "slice mm (data + offset) ?copy = Some (take (nat ?copy) (drop (nat (data + offset)) mm))"
    using assms True by (intro slice_Some) auto
  then show ?thesis using True assms by (auto simp: copy_head_def Let_def)
qed (use assms in \<open>simp add: copy_head_def\<close>)

lemma copy_frags_ok: "copy_ok s \<Longrightarrow> copy_ok (copy_frags fs s)"
proof (induction fs s rule: copy_frags.induct)
  case (1 f fs start offset len acc)
  let ?stop = "start + int (length f)"
  show ?case
  proof (cases "?stop - offset > 0")
    case True
    let ?copy = "if ?stop - offset > len then len else ?stop - offset"
    have "slice f (offset - start) ?copy = Some (take (nat ?copy) (drop (nat (offset - start)) f))"
      using 1(3) True by (intro slice_Some) auto
    then show ?thesis using 1 True by (auto simp: Let_def)
  next
    case False
    then show ?thesis using 1 by (simp add: Let_def)
  qed
qed auto

lemma sint_small: "uint (w :: u32) < 2 ^ 31 \<Longrightarrow> sint w = uint w"
proof -
  assume "uint w < 2 ^ 31"
  moreover have "- (2 ^ 31) \<le> uint w" by (rule order_trans [of _ 0]) auto
  ultimately show ?thesis using signed_take_bit_int_eq_self [of 31 "uint w"] by (simp add: sint_uint)
qed

lemma uint_of_small_int: "0 \<le> x \<Longrightarrow> x < 2 ^ 32 \<Longrightarrow> uint (word_of_int x :: u32) = x"
  by (simp add: unsigned_of_int take_bit_int_eq_self)

lemma skb_copy_bits_not_wild:
  "skb_wf skb \<Longrightarrow> 0 \<le> off \<Longrightarrow> 0 \<le> n \<Longrightarrow> skb_copy_bits skb off n \<noteq> CopyWild"
  "list_all skb_wf ls \<Longrightarrow> copy_ok s \<Longrightarrow> copy_ok (copy_frag_list ls s)"
proof (induction skb off n and ls s rule: skb_copy_bits_copy_frag_list.induct)
  case (1 mm data tail nh mac slen sdlen prot pt ifi frags fl offset len)
  have le: "uint (slen - sdlen) \<le> uint slen" using 1(2) by (simp add: uint_sub_if_size word_le_def)
  then have st: "sint (slen - sdlen) = uint (slen - sdlen)" using 1(2) by (intro sint_small) simp
  have "copy_ok (copy_head mm data (sint (slen - sdlen)) offset len)"
    using 1(2-4) st by (intro copy_head_ok) auto
  then have ok: "copy_ok (copy_frags frags (copy_head mm data (sint (slen - sdlen)) offset len))"
    by (rule copy_frags_ok)
  show ?case
  proof (cases "offset > sint slen - len")
    case False
    then show ?thesis using 1(1) [OF refl False] 1(2) ok
      by (auto simp: Let_def split: copy_state.splits)
  qed (simp add: Let_def)
next
  case (2 l ls start offset len acc)
  let ?stop = "start + sint (skb_len l)"
  let ?copy = "if ?stop - offset > len then len else ?stop - offset"
  show ?case
  proof (cases "?stop - offset > 0")
    case True
    define c where "c = ?copy"
    have c: "0 \<le> c" "c \<le> len" "len - c \<noteq> 0 \<Longrightarrow> offset + c = ?stop"
      using True 2(5) by (auto simp: c_def)
    have step: "copy_frag_list (l # ls) (Copying start offset len acc) =
        (case skb_copy_bits l (offset - start) c of
           Copied bs \<Rightarrow>
             if len - c = 0 then Copied (acc @ bs)
             else copy_frag_list ls (Copying ?stop (offset + c) (len - c) (acc @ bs))
         | CopyWild \<Rightarrow> CopyWild
         | _ \<Rightarrow> CopyFault)"
      unfolding c_def using True by (simp add: Let_def)
    have nw: "skb_copy_bits l (offset - start) c \<noteq> CopyWild"
      using 2(1) [OF refl refl True c_def] 2(4,5) c by auto
    have IH: "copy_ok (copy_frag_list ls (Copying ?stop (offset + c) (len - c) (acc @ bs)))"
      if "skb_copy_bits l (offset - start) c = Copied bs" "len - c \<noteq> 0" for bs
      using 2(2) [OF refl refl True c_def that] 2(4) c(2) c(3) [OF that(2)] by auto
    show ?thesis unfolding step using nw IH by (auto split: copy_state.splits)
  next
    case False
    then show ?thesis using 2(3) [OF refl refl False] 2(4,5) by (simp add: Let_def)
  qed
qed auto


subsection \<open>One instruction\<close>

text \<open>An instruction that is no jump keeps the program counter and the size of the scratch memory.\<close>

definition plain :: "bpf_state \<Rightarrow> bpf_result \<Rightarrow> bool" where
  "plain s r \<longleftrightarrow> (case r of
       Continue s' \<Rightarrow> length (bmem s') = length (bmem s) \<and> bpc s' = bpc s
     | Ancillary _ s' \<Rightarrow> s' = s | Ret _ \<Rightarrow> True | Wild \<Rightarrow> False)"

lemma plain_simps [simp]:
  "plain s (Continue s') \<longleftrightarrow> length (bmem s') = length (bmem s) \<and> bpc s' = bpc s"
  "plain s (Ancillary i s') \<longleftrightarrow> s' = s" "plain s (Ret v)" "\<not> plain s Wild"
  by (simp_all add: plain_def)

lemma skb_wf_bounds:
  assumes "skb_wf skb"
  shows "0 \<le> skb_data skb" "skb_data skb + uint (headlen skb) \<le> skb_tail skb"
    "skb_tail skb \<le> int (length (skb_mem skb))"
  using assms by (cases skb; simp add: headlen_def)+

lemma load_pointer_bounds:
  "load_pointer skb i = Some ptr \<Longrightarrow> 0 \<le> ptr \<and> ptr < skb_tail skb"
  by (auto simp: load_pointer_def Let_def split: if_splits)

lemma bpf_load_plain:
  assumes "filter_skb skb" "n \<le> 4" "i < 2 ^ 31"
  shows "plain s (bpf_load n skb i s)"
proof -
  have wf: "skb_wf skb" and room: "skb_tail skb + 3 \<le> int (length (skb_mem skb))"
    using assms(1) by (auto simp: filter_skb_def)
  note b = skb_wf_bounds [OF wf]
  define fetch where "fetch = (\<lambda>off. case slice (skb_mem skb) off (int n) of
     None \<Rightarrow> Wild | Some bs \<Rightarrow> Continue (s\<lparr>bA := be_bytes bs\<rparr>))"
  have fetch: "plain s (fetch off)" if "0 \<le> off" "off + int n \<le> int (length (skb_mem skb))" for off
    using that by (simp add: fetch_def slice_Some)
  have direct: "plain s (fetch (skb_data skb + i))"
    if "i \<ge> 0" "(word_of_int (i + int n) :: u32) \<le> headlen skb"
  proof -
    have "uint (word_of_int (i + int n) :: u32) = i + int n"
      using that(1) assms(2,3) by (intro uint_of_small_int) simp_all
    then have "i + int n \<le> uint (headlen skb)" using that(2) by (simp add: word_le_def)
    then show ?thesis using b that(1) by (intro fetch) auto
  qed
  have indirect: "plain s (fetch ptr)" if "load_pointer skb i = Some ptr" for ptr
    using load_pointer_bounds [OF that] room assms(2) by (intro fetch) auto
  have copied: "skb_copy_bits skb i (int n) \<noteq> CopyWild" if "0 \<le> i"
    using wf that by (intro skb_copy_bits_not_wild(1)) auto
  show ?thesis
    using direct indirect copied unfolding bpf_load_def fetch_def [symmetric] Let_def
    by (auto split: option.split copy_state.split)
qed

lemma sint_lt: "sint (w :: u32) < 2 ^ 31"
  using sint_lt [of w] by simp

lemma run_alu_plain: "run_alu f s = Some r \<Longrightarrow> plain s r"
  by (auto simp: run_alu_def Let_def split: if_splits)

lemma run_load_plain:
  assumes "filter_skb skb" "run_load skb f s = Some r"
  shows "plain s r"
proof -
  have msh: "\<exists>bs. slice (skb_mem skb) (skb_data skb + int (unat (f_k f))) 1 = Some bs"
    if "\<not> headlen skb \<le> f_k f"
  proof -
    have "int (unat (f_k f)) + 1 \<le> uint (headlen skb)"
      using that by (simp add: word_le_def not_le)
    moreover have "skb_wf skb" using assms(1) by (simp add: filter_skb_def)
    note skb_wf_bounds [OF this]
    ultimately show ?thesis by (simp add: slice_def)
  qed
  show ?thesis
    using assms bpf_load_plain [OF assms(1)] sint_lt msh
    by (auto simp: run_load_def Let_def split: if_splits option.splits)
qed

lemma run_misc_plain:
  assumes "length (bmem s) = BPF_MEMWORDS" "chk_insn flen pc f"
  shows "plain s (run_misc f s)"
proof -
  have "unat (f_k f) < 16" if "\<not> of_nat BPF_MEMWORDS \<le> f_k f"
    using that by (simp add: kdefs word_le_nat_alt)
  then show ?thesis
    using assms by (auto simp: run_misc_def mem_read_def mem_write_def chk_insn_def Let_def kdefs split: if_splits)
qed

lemma run_jmp_forward:
  assumes "run_jmp f s = Some r" "chk_insn flen pc f" "bpc s = pc" "0 \<le> pc" "pc < flen" "flen < 2 ^ 31"
  shows "\<exists>s'. r = Continue s' \<and> bmem s' = bmem s \<and> pc \<le> bpc s' \<and> bpc s' + 1 < flen"
proof (cases "f_code f = BPF_JMP OR BPF_JA")
  case True
  define d where "d = f_k f"
  have "d < word_of_int (flen - pc - 1)"
    using True assms(2) by (auto simp: chk_insn_def Let_def kdefs d_def split: if_splits)
  moreover have "uint (word_of_int (flen - pc - 1) :: u32) = flen - pc - 1"
    using assms(4-6) by (intro uint_of_small_int) simp_all
  ultimately have d: "uint d < flen - pc - 1" by (simp add: word_less_def)
  have p: "uint (word_of_int pc :: u32) = pc"
    using assms(4-6) by (intro uint_of_small_int) simp_all
  have "uint ((word_of_int pc :: u32) + d) = pc + uint d"
    using d assms(4-6) p by (simp add: uint_word_ariths)
  then have "sint ((word_of_int pc :: u32) + d) = pc + uint d"
    using sint_small [of "word_of_int pc + d"] d assms(4-6) by simp
  then show ?thesis using True assms(1,3) d by (auto simp: run_jmp_def Let_def d_def)
next
  case False
  then show ?thesis
    using assms by (auto simp: run_jmp_def chk_insn_def Let_def kdefs split: if_splits)
qed


lemma ancillary_plain: "skb_ifindex skb \<noteq> None \<Longrightarrow> plain s (ancillary skb i s) \<and> (\<forall>j s'. ancillary skb i s \<noteq> Ancillary j s')"
  by (auto simp: ancillary_def split: option.splits)

lemma bpf_switch_step:
  assumes "filter_skb skb" "chk_insn flen pc f" "length (bmem s) = BPF_MEMWORDS"
    and "bpc s = pc" "0 \<le> pc" "pc < flen" "flen < 2 ^ 31"
  shows "plain s (bpf_switch skb f s) \<or>
     (\<exists>s'. bpf_switch skb f s = Continue s' \<and> bmem s' = bmem s \<and> pc \<le> bpc s' \<and> bpc s' + 1 < flen)"
  using run_alu_plain [of f s] run_load_plain [OF assms(1), of f s] run_misc_plain [OF assms(3,2)]
    run_jmp_forward [OF _ assms(2,4-7)]
  unfolding bpf_switch_def by (auto split: option.split)

text \<open>A checked instruction returns, or continues at a later instruction of the program.\<close>

lemma bpf_step_ok:
  assumes "filter_skb skb" "chk_insn flen pc f" "length (bmem s) = BPF_MEMWORDS"
    and "bpc s = pc" "0 \<le> pc" "pc < flen" "flen < 2 ^ 31"
  shows "(\<exists>v. bpf_step skb f s = Ret v) \<or>
     (\<exists>s'. bpf_step skb f s = Continue s' \<and> length (bmem s') = BPF_MEMWORDS \<and>
           (bpc s' = pc \<or> pc \<le> bpc s' \<and> bpc s' + 1 < flen))"
proof -
  have dev: "skb_ifindex skb \<noteq> None" using assms(1) by (simp add: filter_skb_def)
  show ?thesis
  proof (cases "bpf_switch skb f s")
    case (Ancillary i s')
    then have "s' = s" using bpf_switch_step [OF assms] by auto
    then show ?thesis
      using ancillary_plain [OF dev, of s i] Ancillary assms(3,4)
      by (cases "ancillary skb i s") (auto simp: bpf_step_def)
  qed (use bpf_switch_step [OF assms] assms(3,4) in \<open>auto simp: bpf_step_def\<close>)
qed

lemma bpf_ret_class:
  assumes "BPF_CLASS (f_code f) = BPF_RET"
  shows "\<exists>v. bpf_step skb f s = Ret v"
proof -
  have ne: "c AND 7 = 6 \<Longrightarrow> d AND 7 \<noteq> 6 \<Longrightarrow> c \<noteq> d" for c d :: u16 by auto
  have c: "f_code f AND 7 = 6" using assms by (simp add: kdefs)
  have "run_alu f s = None" "run_jmp f s = None" "run_load skb f s = None"
    by (simp_all add: run_alu_def run_jmp_def run_load_def Let_def kdefs ne [OF c])
  moreover have "\<exists>v. run_misc f s = Ret v"
    by (simp add: run_misc_def Let_def kdefs ne [OF c])
  ultimately show ?thesis by (auto simp: bpf_step_def bpf_switch_def)
qed

lemma chk_loop_nth:
  "chk_loop flen pc fs \<Longrightarrow> i < length fs \<Longrightarrow> chk_insn flen (pc + int i) (fs ! i)"
proof (induction fs arbitrary: pc i)
  case Nil
  then show ?case by simp
next
  case (Cons f fs)
  then show ?case
    using Cons.IH [of "pc + 1" "i - 1"] by (cases i) (auto simp: algebra_simps split: if_splits)
qed

lemma chk_filter_facts:
  assumes "sk_chk_filter before prog = 0" "prog \<noteq> []"
  shows "int (length prog) < 2 ^ 31" "\<And>i. i < length prog \<Longrightarrow> chk_insn (int (length prog)) (int i) (prog ! i)"
    "BPF_CLASS (f_code (last prog)) = BPF_RET"
  using assms chk_loop_nth [of "int (length prog)" 0 prog]
  by (auto simp: sk_chk_filter_def kdefs split: if_splits)

lemma int32_id: "0 \<le> x \<Longrightarrow> x < 2 ^ 31 \<Longrightarrow> int32 x = x"
  unfolding int32_def using sint_small [of "word_of_int x"] uint_of_small_int [of x] by simp

lemma bpf_loop_returns:
  assumes "filter_skb skb" "sk_chk_filter before prog = 0" "prog \<noteq> []"
    and "length (bmem s) = BPF_MEMWORDS" "0 \<le> bpc s" "bpc s < int (length prog)"
  shows "\<exists>v. bpf_loop skb prog s = Some (Ret v)"
  using assms(4-6)
proof (induction "nat (int (length prog) - bpc s)" arbitrary: s rule: less_induct)
  case less
  note facts = chk_filter_facts [OF assms(2,3)]
  define f where "f = prog ! nat (bpc s)"
  have step: "bpf_loop skb prog s = (case bpf_step skb f s of
       Continue s' \<Rightarrow> bpf_loop skb prog (s'\<lparr>bpc := int32 (bpc s' + 1)\<rparr>) | r \<Rightarrow> Some r)"
    using less.prems by (subst bpf_loop.simps) (simp add: f_def)
  have chk: "chk_insn (int (length prog)) (bpc s) f"
    using facts(2) [of "nat (bpc s)"] less.prems by (simp add: f_def)
  show ?case
  proof (cases "bpc s = int (length prog) - 1")
    case True
    moreover have "nat (int (length prog) - 1) = length prog - 1" by linarith
    ultimately have "f = last prog" using assms(3) by (simp add: f_def last_conv_nth)
    then show ?thesis using bpf_ret_class [of f skb s] facts(3) step by auto
  next
    case False
    consider v where "bpf_step skb f s = Ret v"
      | s' where "bpf_step skb f s = Continue s'" "length (bmem s') = BPF_MEMWORDS"
          "bpc s \<le> bpc s'" "bpc s' + 1 < int (length prog)"
      using bpf_step_ok [OF assms(1) chk less.prems(1) refl less.prems(2,3) facts(1)] False less.prems(3)
      by force
    then show ?thesis
    proof cases
      case 1
      then show ?thesis using step by simp
    next
      case 2
      have i: "int32 (bpc s' + 1) = bpc s' + 1"
        using 2 less.prems facts(1) by (intro int32_id) auto
      then have "\<exists>v. bpf_loop skb prog (s'\<lparr>bpc := int32 (bpc s' + 1)\<rparr>) = Some (Ret v)"
        using 2 less.prems by (intro less.hyps) auto
      then show ?thesis using step 2(1) by simp
    qed
  qed
qed


subsection \<open>Attaching\<close>

lemma empty_filter_rejected: "sk_chk_filter \<lparr>f_code = 1, f_jt = 0, f_jf = 0, f_k = n\<rparr> [] = - EINVAL"
  by (simp add: sk_chk_filter_def kdefs)

text \<open>
  C39.  \<open>sk_attach_filter\<close> installs a filter exactly when it returns 0; an installed filter is
  non-empty and has passed the checker (so running it is safe), and the option memory charged to
  the socket is exactly the size of the installed filter in place of the old one.  On every
  error the socket is as it was.
\<close>

theorem sk_attach_filter_correct:
  assumes "\<And>fs. user = Some (Inr fs) \<Longrightarrow> length fs = len"
  shows "case sk_attach_filter optmem ok len user sk of (err, sk') \<Rightarrow>
     (err = 0 \<longrightarrow> (\<exists>fp fs before. user = Some (Inr fs) \<and> sk_filter_of sk' = Some fp \<and> insns fp = fs \<and>
         refcnt fp = 1 \<and> fs \<noteq> [] \<and> sk_chk_filter before fs = 0 \<and>
         omem_alloc sk' = omem_alloc sk + sk_filter_len fp -
           (case sk_filter_of sk of None \<Rightarrow> 0 | Some old \<Rightarrow> sk_filter_len old))) \<and>
     (err \<noteq> 0 \<longrightarrow> sk' = sk \<and> err \<in> {- EINVAL, - ENOMEM, - EFAULT})"
proof -
  have chk: "sk_chk_filter b p = 0 \<or> sk_chk_filter b p = - EINVAL" for b p
    by (simp add: sk_chk_filter_def)
  have nz: "- EINVAL \<noteq> 0" "- ENOMEM \<noteq> 0" "- EFAULT \<noteq> 0" by (simp_all add: kdefs)
  have sz: "sk_filter_len \<lparr>refcnt = r, insns = fs\<rparr> = 8 * int (length fs) + 8" for r
    by (simp add: sk_filter_len_def)
  show ?thesis
  proof (cases "\<exists>fs. user = Some (Inr fs) \<and> len \<le> BPF_MAXINSNS \<and> fst (sock_kmalloc optmem ok sk (8 * int len + 8))")
    case False
    then show ?thesis
      by (auto simp: sk_attach_filter_def sock_kmalloc_def sock_kfree_s_def kdefs Let_def
          split: option.split sum.split if_splits)
  next
    case True
    then obtain fs where u: "user = Some (Inr fs)" and sm: "len \<le> BPF_MAXINSNS"
      and km: "sock_kmalloc optmem ok sk (8 * int len + 8) = (True, sk\<lparr>omem_alloc := omem_alloc sk + (8 * int len + 8)\<rparr>)"
      by (auto simp: sock_kmalloc_def Let_def split: if_splits)
    define hd where "hd = \<lparr>f_code = 1, f_jt = 0, f_jf = 0, f_k = of_nat (length fs)\<rparr>"
    have "sk_chk_filter hd fs = 0 \<Longrightarrow> fs \<noteq> []"
      using empty_filter_rejected [of "of_nat (length fs)"] nz by (auto simp: hd_def)
    then show ?thesis
      using chk [of hd fs] nz assms [OF u] u sm km
      by (auto simp: sk_attach_filter_def Let_def hd_def [symmetric] sk_filter_release_def
          sk_filter_len_def empty_filter_rejected split: option.split)
  qed
qed


subsection \<open>Concrete programs and packets\<close>

definition insn :: "u16 \<Rightarrow> u8 \<Rightarrow> u8 \<Rightarrow> u32 \<Rightarrow> sock_filter" where
  "insn c t f v = \<lparr>f_code = c, f_jt = t, f_jf = f, f_k = v\<rparr>"

text \<open>Accept IP packets (Ethernet type 0x0800 at offset 12), drop the rest.\<close>

definition ip_filter :: "sock_filter list" where
  "ip_filter = [insn (BPF_LD OR BPF_H OR BPF_ABS) 0 0 12, insn (BPF_JMP OR BPF_JEQ OR BPF_K) 0 1 0x800,
     insn (BPF_RET OR BPF_K) 0 0 0xffff, insn (BPF_RET OR BPF_K) 0 0 0]"

definition demo_skb :: sk_buff where
  "demo_skb = SkBuff ([0, 0, 0, 0, 0, 0, 0, 0, 0, 0, 0, 0, 8, 0, 69] @ [0, 0, 0]) 0 15 14 0 15 0
     0x0008 0 (Some 2) [] []"

lemma ip_filter_checked: "sk_chk_filter before ip_filter = 0"
  by (simp add: sk_chk_filter_def ip_filter_def insn_def chk_insn_def kdefs Let_def)

lemma demo_skb_ok: "filter_skb demo_skb"
  by (simp add: filter_skb_def demo_skb_def)


lemma ip_filter_attached:
  "fst (sk_attach_filter 10240 True 4 (Some (Inr ip_filter)) \<lparr>sk_filter_of = None, omem_alloc = 0\<rparr>) = 0"
proof -
  have "length ip_filter = 4" by (simp add: ip_filter_def)
  then show ?thesis
    by (simp add: ip_filter_checked sk_attach_filter_def sock_kmalloc_def BPF_MAXINSNS_def Let_def)
qed

theorem sk_attach_filter_correct_witness:
  "\<exists>fp sk'. sk_attach_filter 10240 True 4 (Some (Inr ip_filter)) \<lparr>sk_filter_of = None, omem_alloc = 0\<rparr> = (0, sk') \<and>
     sk_filter_of sk' = Some fp \<and> insns fp = ip_filter \<and> omem_alloc sk' = sk_filter_len fp"
  using ip_filter_attached
    sk_attach_filter_correct [where user = "Some (Inr ip_filter)" and len = 4 and optmem = 10240 and ok = True
      and sk = "\<lparr>sk_filter_of = None, omem_alloc = 0\<rparr>"]
  by (auto simp: ip_filter_def split: prod.splits)

definition tail_filter :: "sock_filter list" where
  "tail_filter = [insn (BPF_LD OR BPF_W OR BPF_ABS) 0 0 (word_of_int (SKF_LL_OFF + 3)),
     insn (BPF_RET OR BPF_A) 0 0 0]"

definition tail_skb :: sk_buff where
  "tail_skb = SkBuff [1, 2, 3, 4] 0 4 0 0 4 0 0x0008 0 (Some 2) [] []"

text \<open>
  The room behind the tail is needed: with a tail that ends the buffer, the checker accepts a
  program whose 4-byte load at a negative offset passes \<open>load_pointer\<close>'s test of the first byte
  and reads beyond the buffer.
\<close>

theorem load_pointer_overread:
  "sk_chk_filter before tail_filter = 0 \<and> skb_wf tail_skb \<and>
   sk_run_filter tail_skb tail_filter mem0 = Some Wild"
proof (intro conjI)
  show "sk_chk_filter before tail_filter = 0"
    by (simp add: sk_chk_filter_def tail_filter_def insn_def chk_insn_def kdefs Let_def)
  show "skb_wf tail_skb" by (simp add: tail_skb_def)
  have "bpf_load 4 tail_skb (- 2097149) s = Wild" for s
    by (simp add: bpf_load_def tail_skb_def load_pointer_def slice_def kdefs Let_def)
  then show "sk_run_filter tail_skb tail_filter mem0 = Some Wild"
    by (simp add: sk_run_filter_def bpf_loop.simps tail_filter_def insn_def bpf_step_def
        bpf_switch_def run_alu_def run_jmp_def run_load_def kdefs Let_def)
qed

end
