(* ===== verification/Rwsem.thy ===== *)
theory Rwsem
  imports KPrelude
begin

text \<open>
  The generic read/write semaphore of lib/rwsem-spinlock.c.  Each operation runs under
  \<open>sem->wait_lock\<close> and is one atomic step; a task that is not granted the lock sleeps until a later
  operation clears its \<open>waiter.task\<close>, so an operation returns the tasks it woke.  The state machine
  \<open>rw_step\<close> runs any number of lock requests against one semaphore: a request is one
  \<open>down\<close>/\<open>up\<close> pair, so a task that nests read locks counts as several requests.
\<close>

subsection \<open>The semaphore and its operations\<close>

datatype want = RWSEM_WAITING_FOR_READ | RWSEM_WAITING_FOR_WRITE

record rwsem_waiter =
  w_task :: nat
  w_flags :: want

record rw_semaphore =
  activity :: int
  wait_list :: "rwsem_waiter list"

definition init_rwsem :: rw_semaphore where
  "init_rwsem = \<lparr>activity = 0, wait_list = []\<rparr>"

text \<open>The \<open>do ... while\<close> loop of \<open>__rwsem_do_wake\<close>: the woken tasks and the rest of the queue.\<close>

fun wake_readers :: "rwsem_waiter list \<Rightarrow> nat list \<times> rwsem_waiter list" where
  "wake_readers [] = ([], [])"
| "wake_readers [w] = ([w_task w], [])"
| "wake_readers (w # w' # ws) =
     (if w_flags w' = RWSEM_WAITING_FOR_READ then
        (let (ts, rest) = wake_readers (w' # ws) in (w_task w # ts, rest))
      else ([w_task w], w' # ws))"

text \<open>Both wake functions are called with a non-empty queue only.\<close>

definition rwsem_do_wake :: "rw_semaphore \<Rightarrow> rw_semaphore \<times> nat list" where
  "rwsem_do_wake sem =
     (case wait_list sem of
        [] \<Rightarrow> (sem, [])
      | waiter # ws \<Rightarrow>
          if w_flags waiter = RWSEM_WAITING_FOR_WRITE then
            (\<lparr>activity = -1, wait_list = ws\<rparr>, [w_task waiter])
          else
            (let (woken, rest) = wake_readers (waiter # ws) in
             (\<lparr>activity = activity sem + int (length woken), wait_list = rest\<rparr>, woken)))"

definition rwsem_wake_one_writer :: "rw_semaphore \<Rightarrow> rw_semaphore \<times> nat list" where
  "rwsem_wake_one_writer sem =
     (case wait_list sem of
        [] \<Rightarrow> (sem\<lparr>activity := -1\<rparr>, [])
      | waiter # ws \<Rightarrow> (\<lparr>activity = -1, wait_list = ws\<rparr>, [w_task waiter]))"

text \<open>The boolean says whether the lock was granted; otherwise the task is queued and sleeps.\<close>

definition down_read :: "rw_semaphore \<Rightarrow> nat \<Rightarrow> rw_semaphore \<times> bool" where
  "down_read sem tsk =
     (if activity sem \<ge> 0 \<and> wait_list sem = [] then (sem\<lparr>activity := activity sem + 1\<rparr>, True)
      else (sem\<lparr>wait_list := wait_list sem @ [\<lparr>w_task = tsk, w_flags = RWSEM_WAITING_FOR_READ\<rparr>]\<rparr>, False))"

definition down_read_trylock :: "rw_semaphore \<Rightarrow> rw_semaphore \<times> int" where
  "down_read_trylock sem =
     (if activity sem \<ge> 0 \<and> wait_list sem = [] then (sem\<lparr>activity := activity sem + 1\<rparr>, 1)
      else (sem, 0))"

definition down_write :: "rw_semaphore \<Rightarrow> nat \<Rightarrow> rw_semaphore \<times> bool" where
  "down_write sem tsk =
     (if activity sem = 0 \<and> wait_list sem = [] then (sem\<lparr>activity := -1\<rparr>, True)
      else (sem\<lparr>wait_list := wait_list sem @ [\<lparr>w_task = tsk, w_flags = RWSEM_WAITING_FOR_WRITE\<rparr>]\<rparr>, False))"

definition down_write_trylock :: "rw_semaphore \<Rightarrow> rw_semaphore \<times> int" where
  "down_write_trylock sem =
     (if activity sem = 0 \<and> wait_list sem = [] then (sem\<lparr>activity := -1\<rparr>, 1) else (sem, 0))"

definition up_read :: "rw_semaphore \<Rightarrow> rw_semaphore \<times> nat list" where
  "up_read sem =
     (let sem1 = sem\<lparr>activity := activity sem - 1\<rparr> in
      if activity sem1 = 0 \<and> wait_list sem1 \<noteq> [] then rwsem_wake_one_writer sem1 else (sem1, []))"

definition up_write :: "rw_semaphore \<Rightarrow> rw_semaphore \<times> nat list" where
  "up_write sem =
     (let sem1 = sem\<lparr>activity := 0\<rparr> in
      if wait_list sem1 \<noteq> [] then rwsem_do_wake sem1 else (sem1, []))"

subsection \<open>Requests against one semaphore\<close>

datatype phase = Idle | WaitR | WaitW | Reading | Writing | Finished

record rw_sys =
  sem :: rw_semaphore
  phase_of :: "nat \<Rightarrow> phase"

fun grant :: "phase \<Rightarrow> phase" where
  "grant WaitR = Reading" | "grant WaitW = Writing" | "grant p = p"

text \<open>A woken request finds its \<open>waiter.task\<close> cleared and owns the lock it asked for.\<close>

definition wake_all :: "(nat \<Rightarrow> phase) \<Rightarrow> nat list \<Rightarrow> nat \<Rightarrow> phase" where
  "wake_all ph ts t = (if t \<in> set ts then grant (ph t) else ph t)"

inductive rw_step :: "rw_sys \<Rightarrow> rw_sys \<Rightarrow> bool" where
  lock_read: "phase_of s t = Idle \<Longrightarrow> down_read (sem s) t = (sem', ok) \<Longrightarrow>
     rw_step s \<lparr>sem = sem', phase_of = (phase_of s)(t := if ok then Reading else WaitR)\<rparr>"
| lock_write: "phase_of s t = Idle \<Longrightarrow> down_write (sem s) t = (sem', ok) \<Longrightarrow>
     rw_step s \<lparr>sem = sem', phase_of = (phase_of s)(t := if ok then Writing else WaitW)\<rparr>"
| try_read: "phase_of s t = Idle \<Longrightarrow> down_read_trylock (sem s) = (sem', r) \<Longrightarrow>
     rw_step s \<lparr>sem = sem', phase_of = (phase_of s)(t := if r = 1 then Reading else Finished)\<rparr>"
| try_write: "phase_of s t = Idle \<Longrightarrow> down_write_trylock (sem s) = (sem', r) \<Longrightarrow>
     rw_step s \<lparr>sem = sem', phase_of = (phase_of s)(t := if r = 1 then Writing else Finished)\<rparr>"
| unlock_read: "phase_of s t = Reading \<Longrightarrow> up_read (sem s) = (sem', woken) \<Longrightarrow>
     rw_step s \<lparr>sem = sem', phase_of = wake_all ((phase_of s)(t := Finished)) woken\<rparr>"
| unlock_write: "phase_of s t = Writing \<Longrightarrow> up_write (sem s) = (sem', woken) \<Longrightarrow>
     rw_step s \<lparr>sem = sem', phase_of = wake_all ((phase_of s)(t := Finished)) woken\<rparr>"

definition rw_start :: rw_sys where
  "rw_start = \<lparr>sem = init_rwsem, phase_of = (\<lambda>_. Idle)\<rparr>"

abbreviation rw_reachable :: "rw_sys \<Rightarrow> bool" where
  "rw_reachable \<equiv> rw_step\<^sup>*\<^sup>* rw_start"

subsection \<open>The invariant\<close>

fun waiting :: "want \<Rightarrow> phase" where
  "waiting RWSEM_WAITING_FOR_READ = WaitR" | "waiting RWSEM_WAITING_FOR_WRITE = WaitW"

definition readers :: "rw_sys \<Rightarrow> nat set" where "readers s = {t. phase_of s t = Reading}"
definition writers :: "rw_sys \<Rightarrow> nat set" where "writers s = {t. phase_of s t = Writing}"

definition queue_inv :: "rw_sys \<Rightarrow> bool" where
  "queue_inv s \<longleftrightarrow> distinct (map w_task (wait_list (sem s))) \<and>
     (\<forall>w \<in> set (wait_list (sem s)). phase_of s (w_task w) = waiting (w_flags w)) \<and>
     (\<forall>t. phase_of s t \<in> {WaitR, WaitW} \<longrightarrow> t \<in> w_task ` set (wait_list (sem s)))"

definition owner_inv :: "rw_sys \<Rightarrow> bool" where
  "owner_inv s \<longleftrightarrow> finite (readers s) \<and>
     (if activity (sem s) = -1 then readers s = {} \<and> (\<exists>t. writers s = {t})
      else activity (sem s) = int (card (readers s)) \<and> writers s = {})"

definition wake_inv :: "rw_sys \<Rightarrow> bool" where
  "wake_inv s \<longleftrightarrow>
     (wait_list (sem s) \<noteq> [] \<longrightarrow> activity (sem s) \<noteq> 0 \<and>
        (activity (sem s) > 0 \<longrightarrow> w_flags (hd (wait_list (sem s))) = RWSEM_WAITING_FOR_WRITE))"

definition rw_inv :: "rw_sys \<Rightarrow> bool" where
  "rw_inv s \<longleftrightarrow> queue_inv s \<and> owner_inv s \<and> wake_inv s"


lemmas inv_defs = rw_inv_def queue_inv_def owner_inv_def wake_inv_def readers_def writers_def

lemma waiting_phases: "waiting f \<noteq> Idle" "waiting f \<noteq> Reading" "waiting f \<noteq> Writing" "waiting f \<noteq> Finished"
  by (cases f; simp)+

lemmas waiting_simps [simp] = waiting_phases waiting_phases [symmetric]

lemma wake_readers_eq:
  "wake_readers (w # ws) =
     (map w_task (w # takeWhile (\<lambda>x. w_flags x = RWSEM_WAITING_FOR_READ) ws),
      dropWhile (\<lambda>x. w_flags x = RWSEM_WAITING_FOR_READ) ws)"
  by (induction ws arbitrary: w) auto

text \<open>A request that is neither queued nor an owner: it can change phase without touching the queue.\<close>

lemma queue_inv_step:
  assumes "queue_inv s" "phase_of s t \<in> {Idle, Reading, Writing, Finished}"
    "wait_list sem' = wait_list (sem s)" "p \<in> {Reading, Writing, Finished}"
  shows "queue_inv \<lparr>sem = sem', phase_of = (phase_of s)(t := p)\<rparr>"
proof -
  have "w_task w \<noteq> t" if "w \<in> set (wait_list (sem s))" for w
    using assms(1,2) that waiting_phases [of "w_flags w"] unfolding queue_inv_def by fastforce
  then show ?thesis using assms(1,3,4) unfolding queue_inv_def by auto
qed

lemma queue_inv_enqueue:
  assumes "queue_inv s" "phase_of s t = Idle"
    "wait_list sem' = wait_list (sem s) @ [\<lparr>w_task = t, w_flags = f\<rparr>]"
  shows "queue_inv \<lparr>sem = sem', phase_of = (phase_of s)(t := waiting f)\<rparr>"
proof -
  have new: "w_task w \<noteq> t" if "w \<in> set (wait_list (sem s))" for w
    using assms(1,2) that unfolding queue_inv_def by (metis waiting_phases(1))
  then have "t \<notin> w_task ` set (wait_list (sem s))" by blast
  then show ?thesis using assms new unfolding queue_inv_def by (simp add: assms(3))
qed

lemma owner_inv_enqueue:
  assumes "owner_inv s" "phase_of s t = Idle" "activity sem' = activity (sem s)"
    "p \<in> {WaitR, WaitW, Finished}"
  shows "owner_inv \<lparr>sem = sem', phase_of = (phase_of s)(t := p)\<rparr>"
proof -
  have "readers \<lparr>sem = sem', phase_of = (phase_of s)(t := p)\<rparr> = readers s"
    "writers \<lparr>sem = sem', phase_of = (phase_of s)(t := p)\<rparr> = writers s"
    using assms by (auto simp: readers_def writers_def)
  then show ?thesis using assms unfolding owner_inv_def by simp
qed

lemma owner_inv_reader:
  assumes "owner_inv s" "phase_of s t = Idle" "activity (sem s) \<ge> 0" "activity sem' = activity (sem s) + 1"
  shows "owner_inv \<lparr>sem = sem', phase_of = (phase_of s)(t := Reading)\<rparr>"
proof -
  have "readers \<lparr>sem = sem', phase_of = (phase_of s)(t := Reading)\<rparr> = insert t (readers s)"
    "writers \<lparr>sem = sem', phase_of = (phase_of s)(t := Reading)\<rparr> = writers s"
    using assms(2) by (auto simp: readers_def writers_def)
  moreover have "t \<notin> readers s" using assms(2) by (simp add: readers_def)
  ultimately show ?thesis using assms unfolding owner_inv_def by auto
qed

lemma owner_inv_writer:
  assumes "owner_inv s" "phase_of s t = Idle" "activity (sem s) = 0" "activity sem' = -1"
  shows "owner_inv \<lparr>sem = sem', phase_of = (phase_of s)(t := Writing)\<rparr>"
proof -
  have "readers s = {}" "writers s = {}" using assms(1,3) by (auto simp: owner_inv_def)
  then have "readers \<lparr>sem = sem', phase_of = (phase_of s)(t := Writing)\<rparr> = {}"
    "writers \<lparr>sem = sem', phase_of = (phase_of s)(t := Writing)\<rparr> = {t}"
    by (auto simp: readers_def writers_def split: if_splits)
  then show ?thesis using assms unfolding owner_inv_def by auto
qed

lemma down_read_inv:
  assumes "rw_inv s" "phase_of s t = Idle" "down_read (sem s) t = (sem', ok)"
  shows "rw_inv \<lparr>sem = sem', phase_of = (phase_of s)(t := if ok then Reading else WaitR)\<rparr>"
proof (cases "activity (sem s) \<ge> 0 \<and> wait_list (sem s) = []")
  case True
  then have s': "sem' = (sem s)\<lparr>activity := activity (sem s) + 1\<rparr>" "ok"
    using assms(3) by (auto simp: down_read_def)
  then show ?thesis
    using assms(1,2) True queue_inv_step [of s t sem' Reading] owner_inv_reader [of s t sem']
    by (auto simp: rw_inv_def wake_inv_def)
next
  case False
  then have s': "sem' = (sem s)\<lparr>wait_list := wait_list (sem s) @ [\<lparr>w_task = t, w_flags = RWSEM_WAITING_FOR_READ\<rparr>]\<rparr>"
    "\<not> ok" using assms(3) by (auto simp: down_read_def)
  have "wait_list (sem s) = [] \<Longrightarrow> activity (sem s) < 0" using False by auto
  then have "wake_inv \<lparr>sem = sem', phase_of = (phase_of s)(t := WaitR)\<rparr>"
    using assms(1) s' by (cases "wait_list (sem s)") (auto simp: rw_inv_def wake_inv_def)
  then show ?thesis
    using assms(1,2) s' queue_inv_enqueue [of s t sem' RWSEM_WAITING_FOR_READ]
      owner_inv_enqueue [of s t sem' WaitR] by (auto simp: rw_inv_def)
qed

lemma down_write_inv:
  assumes "rw_inv s" "phase_of s t = Idle" "down_write (sem s) t = (sem', ok)"
  shows "rw_inv \<lparr>sem = sem', phase_of = (phase_of s)(t := if ok then Writing else WaitW)\<rparr>"
proof (cases "activity (sem s) = 0 \<and> wait_list (sem s) = []")
  case True
  then have s': "sem' = (sem s)\<lparr>activity := -1\<rparr>" "ok"
    using assms(3) by (auto simp: down_write_def)
  then show ?thesis
    using assms(1,2) True queue_inv_step [of s t sem' Writing] owner_inv_writer [of s t sem']
    by (auto simp: rw_inv_def wake_inv_def)
next
  case False
  then have s': "sem' = (sem s)\<lparr>wait_list := wait_list (sem s) @ [\<lparr>w_task = t, w_flags = RWSEM_WAITING_FOR_WRITE\<rparr>]\<rparr>"
    "\<not> ok" using assms(3) by (auto simp: down_write_def)
  have "wait_list (sem s) = [] \<Longrightarrow> activity (sem s) \<noteq> 0" using False by auto
  then have "wake_inv \<lparr>sem = sem', phase_of = (phase_of s)(t := WaitW)\<rparr>"
    using assms(1) s' by (cases "wait_list (sem s)") (auto simp: rw_inv_def wake_inv_def)
  then show ?thesis
    using assms(1,2) s' queue_inv_enqueue [of s t sem' RWSEM_WAITING_FOR_WRITE]
      owner_inv_enqueue [of s t sem' WaitW] by (auto simp: rw_inv_def)
qed


lemma down_read_trylock_inv:
  assumes "rw_inv s" "phase_of s t = Idle" "down_read_trylock (sem s) = (sem', r)"
  shows "rw_inv \<lparr>sem = sem', phase_of = (phase_of s)(t := if r = 1 then Reading else Finished)\<rparr>"
proof (cases "activity (sem s) \<ge> 0 \<and> wait_list (sem s) = []")
  case True
  then have "down_read (sem s) t = (sem', True)" "r = 1"
    using assms(3) by (auto simp: down_read_trylock_def down_read_def)
  then show ?thesis using down_read_inv [OF assms(1,2)] by fastforce
next
  case False
  then have "sem' = sem s" "r = 0" using assms(3) by (auto simp: down_read_trylock_def)
  then show ?thesis
    using assms(1,2) queue_inv_step [of s t sem' Finished] owner_inv_enqueue [of s t sem' Finished]
    by (auto simp: rw_inv_def wake_inv_def)
qed

lemma down_write_trylock_inv:
  assumes "rw_inv s" "phase_of s t = Idle" "down_write_trylock (sem s) = (sem', r)"
  shows "rw_inv \<lparr>sem = sem', phase_of = (phase_of s)(t := if r = 1 then Writing else Finished)\<rparr>"
proof (cases "activity (sem s) = 0 \<and> wait_list (sem s) = []")
  case True
  then have "down_write (sem s) t = (sem', True)" "r = 1"
    using assms(3) by (auto simp: down_write_trylock_def down_write_def)
  then show ?thesis using down_write_inv [OF assms(1,2)] by fastforce
next
  case False
  then have "sem' = sem s" "r = 0" using assms(3) by (auto simp: down_write_trylock_def)
  then show ?thesis
    using assms(1,2) queue_inv_step [of s t sem' Finished] owner_inv_enqueue [of s t sem' Finished]
    by (auto simp: rw_inv_def wake_inv_def)
qed

lemma grant_iff:
  "grant (waiting f) = Reading \<longleftrightarrow> f = RWSEM_WAITING_FOR_READ"
  "grant (waiting f) = Writing \<longleftrightarrow> f = RWSEM_WAITING_FOR_WRITE"
  "grant (waiting f) \<noteq> WaitR" "grant (waiting f) \<noteq> WaitW"
  by (cases f; simp)+

text \<open>Releasing a lock finishes the owner and grants a prefix of the queue.\<close>

lemma wake_prefix:
  assumes q: "queue_inv s" "wait_list (sem s) = us @ rest" "phase_of s t \<in> {Reading, Writing}"
    and s': "s' = \<lparr>sem = sem', phase_of = wake_all ((phase_of s)(t := Finished)) (map w_task us)\<rparr>"
    and rest: "wait_list sem' = rest"
  shows "queue_inv s'"
    and "readers s' = (readers s - {t}) \<union> w_task ` {u \<in> set us. w_flags u = RWSEM_WAITING_FOR_READ}"
    and "writers s' = (writers s - {t}) \<union> w_task ` {u \<in> set us. w_flags u = RWSEM_WAITING_FOR_WRITE}"
proof -
  have ph: "phase_of s (w_task w) = waiting (w_flags w)" if "w \<in> set (us @ rest)" for w
    using q(1,2) that by (simp add: queue_inv_def)
  have nt: "w_task w \<noteq> t" if "w \<in> set (us @ rest)" for w
    using ph [OF that] q(3) waiting_phases [of "w_flags w"] by auto
  have d: "distinct (map w_task (us @ rest))" using q(1,2) by (simp add: queue_inv_def)
  have woken: "phase_of s' (w_task u) = grant (waiting (w_flags u))" if "u \<in> set us" for u
    using that ph [of u] nt [of u] by (auto simp: s' wake_all_def)
  have other: "phase_of s' x = ((phase_of s)(t := Finished)) x" if "x \<notin> w_task ` set us" for x
    using that by (simp add: s' wake_all_def)
  have keep: "w_task w \<notin> w_task ` set us" if "w \<in> set rest" for w using d that by auto
  show "queue_inv s'" unfolding queue_inv_def
  proof (intro conjI ballI allI impI)
    show "distinct (map w_task (wait_list (sem s')))" using d by (simp add: s' rest)
    show "phase_of s' (w_task w) = waiting (w_flags w)" if "w \<in> set (wait_list (sem s'))" for w
    proof -
      have "w \<in> set rest" using that by (simp add: s' rest)
      then show ?thesis using other [OF keep] ph [of w] nt [of w] by simp
    qed
    show "x \<in> w_task ` set (wait_list (sem s'))" if x: "phase_of s' x \<in> {WaitR, WaitW}" for x
    proof -
      have out: "x \<notin> w_task ` set us" using woken x grant_iff(3,4) by auto
      then have "phase_of s x \<in> {WaitR, WaitW}" using other x by (auto split: if_splits)
      then have "x \<in> w_task ` set (us @ rest)" using q(1,2) by (auto simp: queue_inv_def)
      then show ?thesis using out by (auto simp: s' rest)
    qed
  qed
  have cases: "phase_of s' x = p \<longleftrightarrow>
      (\<exists>u \<in> set us. x = w_task u \<and> grant (waiting (w_flags u)) = p) \<or> x \<noteq> t \<and> phase_of s x = p"
    if "p = Reading \<or> p = Writing" for x p
  proof (cases "x \<in> w_task ` set us")
    case True
    then obtain u where u: "u \<in> set us" "x = w_task u" by auto
    have "phase_of s x \<noteq> p" using ph [of u] u that by auto
    moreover have uniq: "v = u" if "v \<in> set us" "x = w_task v" for v
      using d u that by (auto simp: distinct_map inj_on_def)
    have "(\<exists>v \<in> set us. x = w_task v \<and> grant (waiting (w_flags v)) = p) \<longleftrightarrow> grant (waiting (w_flags u)) = p"
      using u uniq by metis
    ultimately show ?thesis using woken [OF u(1)] u(2) by simp
  next
    case False
    then show ?thesis using other [OF False] that by auto
  qed
  show "readers s' = (readers s - {t}) \<union> w_task ` {u \<in> set us. w_flags u = RWSEM_WAITING_FOR_READ}"
    using cases [of Reading] unfolding readers_def grant_iff by auto
  show "writers s' = (writers s - {t}) \<union> w_task ` {u \<in> set us. w_flags u = RWSEM_WAITING_FOR_WRITE}"
    using cases [of Writing] unfolding writers_def grant_iff by auto
qed

lemma up_read_inv:
  assumes inv: "rw_inv s" and t: "phase_of s t = Reading" and up: "up_read (sem s) = (sem', woken)"
  shows "rw_inv \<lparr>sem = sem', phase_of = wake_all ((phase_of s)(t := Finished)) woken\<rparr>"
    (is "rw_inv ?s'")
proof -
  have q: "queue_inv s" using inv by (simp add: rw_inv_def)
  have tr: "t \<in> readers s" using t by (simp add: readers_def)
  then have own: "finite (readers s)" "activity (sem s) = int (card (readers s))" "writers s = {}"
    using inv by (auto simp: rw_inv_def owner_inv_def split: if_splits)
  have pos: "0 < card (readers s)" using tr own(1) card_gt_0_iff by blast
  have c: "card (readers s - {t}) = card (readers s) - 1" using own(1) tr by simp
  show ?thesis
  proof (cases "activity (sem s) = 1 \<and> wait_list (sem s) \<noteq> []")
    case True
    then obtain w ws where ws: "wait_list (sem s) = w # ws" by (cases "wait_list (sem s)") auto
    have w: "w_flags w = RWSEM_WAITING_FOR_WRITE"
      using inv True ws by (auto simp: rw_inv_def wake_inv_def)
    have s': "sem' = \<lparr>activity = -1, wait_list = ws\<rparr>" "woken = map w_task [w]"
      using up True ws by (auto simp: up_read_def rwsem_wake_one_writer_def)
    note p = wake_prefix [OF q, of "[w]" ws t ?s' sem']
    have "readers s - {t} = {}" using c True own by auto
    then show ?thesis using p ws t s' w own
      by (auto simp: rw_inv_def owner_inv_def wake_inv_def)
  next
    case False
    then have s': "sem' = (sem s)\<lparr>activity := activity (sem s) - 1\<rparr>" "woken = map w_task []"
      using up by (auto simp: up_read_def Let_def split: if_splits)
    note p = wake_prefix [OF q, of "[]" "wait_list (sem s)" t ?s' sem']
    have "int (card (readers s - {t})) = activity (sem s) - 1" using c pos own(2) by auto
    then show ?thesis using p t s' own inv False pos
      by (auto simp: rw_inv_def owner_inv_def wake_inv_def)
  qed
qed

lemma up_write_inv:
  assumes inv: "rw_inv s" and t: "phase_of s t = Writing" and up: "up_write (sem s) = (sem', woken)"
  shows "rw_inv \<lparr>sem = sem', phase_of = wake_all ((phase_of s)(t := Finished)) woken\<rparr>"
    (is "rw_inv ?s'")
proof -
  have q: "queue_inv s" using inv by (simp add: rw_inv_def)
  have "t \<in> writers s" using t by (simp add: writers_def)
  then have own: "readers s = {}" "writers s = {t}"
    using inv by (auto simp: rw_inv_def owner_inv_def split: if_splits)
  show ?thesis
  proof (cases "wait_list (sem s)")
    case Nil
    then have s': "sem' = \<lparr>activity = 0, wait_list = []\<rparr>" "woken = map w_task []"
      using up by (auto simp: up_write_def)
    show ?thesis using wake_prefix [OF q, of "[]" "[]" t ?s' sem'] Nil t s' own
      by (auto simp: rw_inv_def owner_inv_def wake_inv_def)
  next
    case (Cons w ws)
    show ?thesis
    proof (cases "w_flags w")
      case RWSEM_WAITING_FOR_WRITE
      then have s': "sem' = \<lparr>activity = -1, wait_list = ws\<rparr>" "woken = map w_task [w]"
        using up Cons by (auto simp: up_write_def rwsem_do_wake_def)
      show ?thesis using wake_prefix [OF q, of "[w]" ws t ?s' sem'] Cons t s' own RWSEM_WAITING_FOR_WRITE
        by (auto simp: rw_inv_def owner_inv_def wake_inv_def)
    next
      case RWSEM_WAITING_FOR_READ
      let ?isr = "\<lambda>x. w_flags x = RWSEM_WAITING_FOR_READ"
      define us rest where "us = w # takeWhile ?isr ws" and "rest = dropWhile ?isr ws"
      have sp: "wait_list (sem s) = us @ rest" using Cons by (simp add: us_def rest_def)
      have s': "sem' = \<lparr>activity = int (length us), wait_list = rest\<rparr>" "woken = map w_task us"
        using up Cons RWSEM_WAITING_FOR_READ
        by (auto simp: up_write_def rwsem_do_wake_def wake_readers_eq us_def rest_def)
      have allr: "\<forall>u \<in> set us. ?isr u" using RWSEM_WAITING_FOR_READ
        by (auto simp: us_def dest: set_takeWhileD)
      then have r: "{u \<in> set us. ?isr u} = set us" "{u \<in> set us. w_flags u = RWSEM_WAITING_FOR_WRITE} = {}"
        by auto
      have "card (w_task ` set us) = length us"
        using q sp distinct_card [of "map w_task us"] by (simp add: queue_inv_def)
      moreover have "rest \<noteq> [] \<Longrightarrow> w_flags (hd rest) = RWSEM_WAITING_FOR_WRITE"
        using hd_dropWhile [of ?isr ws] unfolding rest_def by (cases "w_flags (hd (dropWhile ?isr ws))") auto
      ultimately show ?thesis using wake_prefix [OF q sp, of t ?s' sem'] t s' own unfolding r
        by (auto simp: rw_inv_def owner_inv_def wake_inv_def us_def)
    qed
  qed
qed

lemma rw_step_inv: "rw_step s s' \<Longrightarrow> rw_inv s \<Longrightarrow> rw_inv s'"
  by (induction rule: rw_step.induct)
    (blast intro: down_read_inv down_write_inv down_read_trylock_inv down_write_trylock_inv
      up_read_inv up_write_inv)+

interpretation rwm: state_machine "\<lambda>s. s = rw_start" rw_step rw_inv
proof unfold_locales
  show "rw_inv s" if "s = rw_start" for s using that by (simp add: inv_defs rw_start_def init_rwsem_def)
qed (rule rw_step_inv)

lemmas rw_reachable_inv = rwm.reached_inv [OF refl]

subsection \<open>What the invariant gives\<close>

text \<open>
  C4.  Mutual exclusion: in every reachable state a request that holds the write lock is the only
  owner of the semaphore.
\<close>

theorem rwsem_mutual_exclusion:
  assumes "rw_reachable s" "phase_of s t = Writing" "phase_of s u \<in> {Reading, Writing}"
  shows "u = t"
proof -
  have "owner_inv s" using rw_reachable_inv [OF assms(1)] by (simp add: rw_inv_def)
  moreover have "t \<in> writers s" using assms(2) by (simp add: writers_def)
  ultimately have "readers s = {}" "\<exists>x. writers s = {x}" by (auto simp: owner_inv_def split: if_splits)
  moreover have "u \<in> readers s \<union> writers s" using assms(3) by (auto simp: readers_def writers_def)
  ultimately show ?thesis using \<open>t \<in> writers s\<close> by auto
qed

text \<open>
  No lost wakeup, and the wake-up of \<open>__up_read\<close> is justified: in every reachable state with
  queued requests the semaphore is owned, and when the last reader leaves,
  \<open>__rwsem_wake_one_writer\<close> (which does not look at the waiter's flags) wakes a writer.
\<close>

theorem rwsem_wakeups:
  assumes "rw_reachable s" "wait_list (sem s) \<noteq> []"
  shows "(\<exists>t. phase_of s t \<in> {Reading, Writing}) \<and>
    (\<forall>sem' u woken. up_read (sem s) = (sem', u # woken) \<and> activity (sem s) > 0 \<longrightarrow>
       phase_of s u = WaitW \<and> woken = [])"
proof -
  have inv: "queue_inv s" "owner_inv s" "wake_inv s"
    using rw_reachable_inv [OF assms(1)] by (simp_all add: rw_inv_def)
  have "readers s \<noteq> {} \<or> writers s \<noteq> {}"
    using inv(2,3) assms(2) by (auto simp: owner_inv_def wake_inv_def split: if_splits)
  then have own: "\<exists>t. phase_of s t \<in> {Reading, Writing}" by (auto simp: readers_def writers_def)
  obtain w ws where ws: "wait_list (sem s) = w # ws" using assms(2) by (cases "wait_list (sem s)") auto
  have "phase_of s (w_task w) = WaitW" if "activity (sem s) > 0"
    using inv(1,3) ws that by (auto simp: queue_inv_def wake_inv_def)
  then show ?thesis using own ws
    by (auto simp: up_read_def rwsem_wake_one_writer_def Let_def split: if_splits)
qed

text \<open>
  The \<open>activity\<close> counter means what include/linux/rwsem-spinlock.h says: 0 without owners, the
  number of readers when positive, -1 for one writer.
\<close>

theorem rwsem_activity:
  assumes "rw_reachable s"
  shows "activity (sem s) = (if writers s = {} then int (card (readers s)) else -1) \<and>
     finite (readers s) \<and> card (writers s) \<le> 1"
proof -
  have "owner_inv s" using rw_reachable_inv [OF assms] by (simp add: rw_inv_def)
  then show ?thesis by (auto simp: owner_inv_def split: if_splits)
qed

subsection \<open>Every waiter is served when the owners release\<close>

inductive unlock_step :: "rw_sys \<Rightarrow> rw_sys \<Rightarrow> bool" where
  unlock_r: "phase_of s t = Reading \<Longrightarrow> up_read (sem s) = (sem', woken) \<Longrightarrow>
     unlock_step s \<lparr>sem = sem', phase_of = wake_all ((phase_of s)(t := Finished)) woken\<rparr>"
| unlock_w: "phase_of s t = Writing \<Longrightarrow> up_write (sem s) = (sem', woken) \<Longrightarrow>
     unlock_step s \<lparr>sem = sem', phase_of = wake_all ((phase_of s)(t := Finished)) woken\<rparr>"

lemma unlock_is_step: "unlock_step s s' \<Longrightarrow> rw_step s s'"
  by (induction rule: unlock_step.induct) (auto intro: rw_step.intros)

definition load :: "rw_sys \<Rightarrow> nat" where
  "load s = nat \<bar>activity (sem s)\<bar> + length (wait_list (sem s))"

lemma wake_readers_length:
  "length (fst (wake_readers ws)) + length (snd (wake_readers ws)) = length ws"
  by (induction ws rule: wake_readers.induct) (auto split: prod.splits)

lemma unlock_load:
  assumes "rw_inv s" "unlock_step s s'"
  shows "load s = Suc (load s')"
  using assms(2)
proof cases
  case (unlock_r t sem' woken)
  then have "t \<in> readers s" by (simp add: readers_def)
  then have "activity (sem s) > 0"
    using assms(1) card_gt_0_iff [of "readers s"] by (auto simp: rw_inv_def owner_inv_def split: if_splits)
  then show ?thesis using unlock_r
    by (auto simp: load_def up_read_def rwsem_wake_one_writer_def Let_def split: if_splits list.splits)
next
  case (unlock_w t sem' woken)
  then have "t \<in> writers s" by (simp add: writers_def)
  then have "activity (sem s) = -1"
    using assms(1) by (auto simp: rw_inv_def owner_inv_def split: if_splits)
  then show ?thesis using unlock_w wake_readers_length [of "wait_list (sem s)"]
    by (auto simp: load_def up_write_def rwsem_do_wake_def Let_def split: if_splits list.splits prod.splits)
qed

lemma unlock_progress:
  assumes "rw_inv s" "load s \<noteq> 0"
  shows "\<exists>s'. unlock_step s s'"
proof -
  have "activity (sem s) \<noteq> 0"
    using assms by (auto simp: load_def rw_inv_def wake_inv_def)
  then have "readers s \<noteq> {} \<or> writers s \<noteq> {}"
    using assms(1) by (auto simp: rw_inv_def owner_inv_def split: if_splits)
  then show ?thesis
  proof
    assume "readers s \<noteq> {}"
    then obtain t where "phase_of s t = Reading" by (auto simp: readers_def)
    then show ?thesis using unlock_step.unlock_r [of s t] by (metis surj_pair)
  next
    assume "writers s \<noteq> {}"
    then obtain t where "phase_of s t = Writing" by (auto simp: writers_def)
    then show ?thesis using unlock_step.unlock_w [of s t] by (metis surj_pair)
  qed
qed


subsection \<open>Witnesses\<close>

definition demo_rw :: rw_sys where
  "demo_rw = \<lparr>sem = \<lparr>activity = -1, wait_list = [\<lparr>w_task = 1, w_flags = RWSEM_WAITING_FOR_READ\<rparr>]\<rparr>,
     phase_of = (\<lambda>_. Idle)(0 := Writing, 1 := WaitR)\<rparr>"

lemma demo_rw_reachable: "rw_reachable demo_rw"
proof -
  define s1 where "s1 = \<lparr>sem = \<lparr>activity = -1, wait_list = []\<rparr>, phase_of = (\<lambda>_. Idle)(0 := Writing)\<rparr>"
  have "rw_step rw_start s1"
    using rw_step.lock_write [of rw_start 0] by (auto simp: rw_start_def s1_def down_write_def init_rwsem_def)
  then have "rw_reachable s1" by (rule r_into_rtranclp)
  moreover have "rw_step s1 demo_rw"
    using rw_step.lock_read [of s1 1] by (auto simp: s1_def demo_rw_def down_read_def)
  ultimately show ?thesis by (rule rtranclp.rtrancl_into_rtrancl)
qed

theorem rwsem_mutual_exclusion_witness: "{t. phase_of demo_rw t \<in> {Reading, Writing}} = {0}"
proof -
  have w: "phase_of demo_rw 0 = Writing" by (simp add: demo_rw_def)
  then show ?thesis using rwsem_mutual_exclusion [OF demo_rw_reachable w] by blast
qed

theorem rwsem_wakeups_witness: "\<exists>t. phase_of demo_rw t \<in> {Reading, Writing}"
  using rwsem_wakeups [OF demo_rw_reachable] by (simp add: demo_rw_def)

theorem rwsem_activity_witness: "finite (readers demo_rw) \<and> card (writers demo_rw) \<le> 1"
  using rwsem_activity [OF demo_rw_reachable] by blast


end
