(* ===== verification/Sem.thy ===== *)
theory Sem
  imports KPrelude
begin

text \<open>
  System V semaphore sets (ipc/sem.c), one set at a time.  A state holds the set, the undo
  structures (a store indexed by identifiers), the undo lists of the tasks, the queue entries that
  were taken off the queue with their final status (\<open>released\<close>) and the tasks woken so far.

  The doubly linked \<open>sem_pending\<close> queue is the list of its entries: an entry whose \<open>prev\<close> is NULL is
  one that is not in the list.  The functions run under \<open>sem_lock\<close>; a system call that sleeps is one
  step until it queues itself and another one when it runs again.  Values are C integers that stay
  far from overflow, except \<open>semadj\<close>, an array of \<open>short\<close>, whose stores wrap.  What \<open>ipcperms\<close>,
  \<open>sem_checkid\<close>, the allocator and the user copies answer are arguments.
\<close>

subsection \<open>Data\<close>

definition SEMVMX :: int where [kdefs]: "SEMVMX = 32767"
definition SEMAEM :: int where [kdefs]: "SEMAEM = 32767"
definition E2BIG :: int where [kdefs]: "E2BIG = 7"

definition IPC_NOWAIT :: u16 where "IPC_NOWAIT = 0x800"
definition SEM_UNDO :: u16 where "SEM_UNDO = 0x1000"

record sembuf =
  sem_num :: nat
  sem_op :: int
  sem_flg :: u16

record sem =
  semval :: int
  sempid :: int

record sem_undo =
  un_semid :: int
  semadj :: "int list"

record sem_queue =
  q_sleeper :: nat
  q_undo :: "nat option"
  q_pid :: int
  q_status :: int
  q_sops :: "sembuf list"
  q_alter :: bool

record sem_array =
  sem_otime :: int
  sem_ctime :: int
  sem_base :: "sem list"
  sem_pending :: "sem_queue list"
  sma_undo :: "nat list"
  sem_nsems :: nat

record sem_state =
  sma :: sem_array
  undos :: "nat \<Rightarrow> sem_undo"
  semundo :: "nat \<Rightarrow> nat list"
  released :: "sem_queue list"
  woken :: "nat list"

definition nowait :: "sembuf \<Rightarrow> bool" where "nowait sop \<longleftrightarrow> sem_flg sop AND IPC_NOWAIT \<noteq> 0"
definition with_undo :: "sembuf \<Rightarrow> bool" where "with_undo sop \<longleftrightarrow> sem_flg sop AND SEM_UNDO \<noteq> 0"

text \<open>Storing an int in a \<open>short\<close>.\<close>

definition to_short :: "int \<Rightarrow> int" where
  "to_short x = (x + 32768) mod 65536 - 32768"

abbreviation set_base :: "sem list \<Rightarrow> sem_state \<Rightarrow> sem_state" where
  "set_base b st \<equiv> st\<lparr>sma := (sma st)\<lparr>sem_base := b\<rparr>\<rparr>"

abbreviation set_pending :: "sem_queue list \<Rightarrow> sem_state \<Rightarrow> sem_state" where
  "set_pending qs st \<equiv> st\<lparr>sma := (sma st)\<lparr>sem_pending := qs\<rparr>\<rparr>"

subsection \<open>The queue\<close>

definition append_to_queue :: "sem_queue \<Rightarrow> sem_state \<Rightarrow> sem_state" where
  "append_to_queue q st = set_pending (sem_pending (sma st) @ [q]) st"

definition prepend_to_queue :: "sem_queue \<Rightarrow> sem_state \<Rightarrow> sem_state" where
  "prepend_to_queue q st = set_pending (q # sem_pending (sma st)) st"

text \<open>A task has at most one entry in the queue; \<open>remove_from_queue\<close> removes that of the task.\<close>

definition remove_from_queue :: "nat \<Rightarrow> sem_state \<Rightarrow> sem_state" where
  "remove_from_queue task st = set_pending (filter (\<lambda>q. q_sleeper q \<noteq> task) (sem_pending (sma st))) st"

subsection \<open>Trying a sequence of operations\<close>

datatype semop_outcome = Completed | Would_block sembuf | Out_of_range

text \<open>The first loop; the operations already done are collected, the last one first.\<close>

fun semop_loop :: "int list \<Rightarrow> sem list \<Rightarrow> sembuf list \<Rightarrow> sembuf list \<Rightarrow> semop_outcome \<times> sem list \<times> sembuf list"
  where
  "semop_loop adj base dn [] = (Completed, base, dn)"
| "semop_loop adj base dn (sop # rest) =
     (let curr = base ! sem_num sop; result = semval curr in
      if sem_op sop = 0 \<and> result \<noteq> 0 then (Would_block sop, base, dn)
      else if result + sem_op sop < 0 then (Would_block sop, base, dn)
      else if result + sem_op sop > SEMVMX then (Out_of_range, base, dn)
      else if with_undo sop \<and>
          (adj ! sem_num sop - sem_op sop < - SEMAEM - 1 \<or> adj ! sem_num sop - sem_op sop > SEMAEM)
        then (Out_of_range, base, dn)
      else semop_loop adj (base[sem_num sop := curr\<lparr>semval := result + sem_op sop\<rparr>]) (sop # dn) rest)"

primrec undo_sops :: "sem list \<Rightarrow> sembuf list \<Rightarrow> sem list" where
  "undo_sops base [] = base"
| "undo_sops base (sop # dn) =
     (let curr = base ! sem_num sop
      in undo_sops (base[sem_num sop := curr\<lparr>semval := semval curr - sem_op sop\<rparr>]) dn)"

primrec commit_sops :: "int \<Rightarrow> sembuf list \<Rightarrow> sem list \<times> int list \<Rightarrow> sem list \<times> int list" where
  "commit_sops pid [] r = r"
| "commit_sops pid (sop # dn) r =
     (case r of (base, adj) \<Rightarrow>
        commit_sops pid dn
          (base[sem_num sop := (base ! sem_num sop)\<lparr>sempid := pid\<rparr>],
           if with_undo sop then adj[sem_num sop := to_short (adj ! sem_num sop - sem_op sop)] else adj))"

definition adj_of :: "sem_state \<Rightarrow> nat option \<Rightarrow> int list" where
  "adj_of st un = (case un of None \<Rightarrow> [] | Some u \<Rightarrow> semadj (undos st u))"

definition set_adj :: "nat option \<Rightarrow> int list \<Rightarrow> sem_state \<Rightarrow> sem_state" where
  "set_adj un a st =
     (case un of None \<Rightarrow> st
      | Some u \<Rightarrow> st\<lparr>undos := (undos st)(u := (undos st u)\<lparr>semadj := a\<rparr>)\<rparr>)"

definition try_atomic_semop ::
    "int \<Rightarrow> sembuf list \<Rightarrow> nat option \<Rightarrow> int \<Rightarrow> bool \<Rightarrow> sem_state \<Rightarrow> int \<times> sem_state" where
  "try_atomic_semop now sops un pid do_undo st =
     (let (out, base, dn) = semop_loop (adj_of st un) (sem_base (sma st)) [] sops in
      case out of
        Completed \<Rightarrow>
          if do_undo then (0, set_base (undo_sops base dn) st)
          else
            (let (base', adj') = commit_sops pid dn (base, adj_of st un) in
             (0, set_adj un adj' (st\<lparr>sma := (sma st)\<lparr>sem_base := base', sem_otime := now\<rparr>\<rparr>)))
      | Out_of_range \<Rightarrow> (- ERANGE, set_base (undo_sops base dn) st)
      | Would_block sop \<Rightarrow>
          (if nowait sop then - EAGAIN else 1, set_base (undo_sops base dn) st))"

subsection \<open>Waking sleepers\<close>

text \<open>The entries passed and kept are collected, the last one first.\<close>

fun update_loop :: "int \<Rightarrow> sem_state \<Rightarrow> sem_queue list \<Rightarrow> sem_queue list \<Rightarrow> sem_state" where
  "update_loop now st kept [] = set_pending (rev kept) st"
| "update_loop now st kept (q # qs) =
     (if q_status q = 1 then update_loop now st (q # kept) qs
      else
        (let (err, st1) = try_atomic_semop now (q_sops q) (q_undo q) (q_pid q) (q_alter q) st in
         if err \<le> 0 then
           (let st2 = st1\<lparr>woken := woken st1 @ [q_sleeper q]\<rparr> in
            if err = 0 \<and> q_alter q then set_pending (rev kept @ q\<lparr>q_status := 1\<rparr> # qs) st2
            else update_loop now (st2\<lparr>released := released st2 @ [q\<lparr>q_status := err\<rparr>]\<rparr>) kept qs)
         else update_loop now st1 (q # kept) qs))"

definition update_queue :: "int \<Rightarrow> sem_state \<Rightarrow> sem_state" where
  "update_queue now st = update_loop now st [] (sem_pending (sma st))"

subsection \<open>Counts\<close>

definition count_semncnt :: "sem_state \<Rightarrow> nat \<Rightarrow> int" where
  "count_semncnt st semnum =
     int (length (filter (\<lambda>sop. sem_num sop = semnum \<and> sem_op sop < 0 \<and> \<not> nowait sop)
       (concat (map q_sops (sem_pending (sma st))))))"

definition count_semzcnt :: "sem_state \<Rightarrow> nat \<Rightarrow> int" where
  "count_semzcnt st semnum =
     int (length (filter (\<lambda>sop. sem_num sop = semnum \<and> sem_op sop = 0 \<and> \<not> nowait sop)
       (concat (map q_sops (sem_pending (sma st))))))"

subsection \<open>Removal and control\<close>

definition freeary :: "sem_state \<Rightarrow> sem_state" where
  "freeary st =
     st\<lparr>undos := (\<lambda>u. if u \<in> set (sma_undo (sma st)) then (undos st u)\<lparr>un_semid := - 1\<rparr> else undos st u),
        released := released st @ map (\<lambda>q. q\<lparr>q_status := - EIDRM\<rparr>) (sem_pending (sma st)),
        woken := woken st @ map q_sleeper (sem_pending (sma st)),
        sma := (sma st)\<lparr>sem_pending := []\<rparr>\<rparr>"

datatype semctl_cmd =
  GETALL | SETALL "u16 list" | IPC_STAT | GETVAL | GETPID | GETNCNT | GETZCNT | SETVAL int

datatype semctl_answer = Err int | Values "int list" | Stat int int nat

definition clear_adj :: "(int list \<Rightarrow> int list) \<Rightarrow> sem_state \<Rightarrow> sem_state" where
  "clear_adj f st =
     st\<lparr>undos := (\<lambda>u. if u \<in> set (sma_undo (sma st)) then (undos st u)\<lparr>semadj := f (semadj (undos st u))\<rparr>
                        else undos st u)\<rparr>"

text \<open>\<open>semctl_main\<close> with the set locked; \<open>SETALL\<close> carries the values copied in.\<close>

definition semctl_main ::
    "int \<Rightarrow> int \<Rightarrow> bool \<Rightarrow> (bool \<Rightarrow> bool) \<Rightarrow> int \<Rightarrow> semctl_cmd \<Rightarrow> sem_state \<Rightarrow> semctl_answer \<times> sem_state" where
  "semctl_main now tgid badid denied semnum cmd st =
     (let nsems = sem_nsems (sma st);
          setting = (case cmd of SETVAL _ \<Rightarrow> True | SETALL _ \<Rightarrow> True | _ \<Rightarrow> False) in
      if badid then (Err (- EIDRM), st)
      else if denied setting then (Err (- EACCES), st)
      else
        case cmd of
          GETALL \<Rightarrow> (Values (map semval (take nsems (sem_base (sma st)))), st)
        | SETALL io \<Rightarrow>
            if \<exists>v \<in> set (take nsems io). uint v > SEMVMX then (Err (- ERANGE), st)
            else
              (let base = map2 (\<lambda>c v. c\<lparr>semval := uint v\<rparr>) (take nsems (sem_base (sma st))) io;
                   st1 = clear_adj (\<lambda>a. replicate nsems 0) (set_base base st)
               in (Err 0, update_queue now (st1\<lparr>sma := (sma st1)\<lparr>sem_ctime := now\<rparr>\<rparr>)))
        | IPC_STAT \<Rightarrow> (Stat (sem_otime (sma st)) (sem_ctime (sma st)) nsems, st)
        | _ \<Rightarrow>
            if semnum < 0 \<or> semnum \<ge> int nsems then (Err (- EINVAL), st)
            else
              (let i = nat semnum; curr = sem_base (sma st) ! i in
               case cmd of
                 GETVAL \<Rightarrow> (Err (semval curr), st)
               | GETPID \<Rightarrow> (Err (sempid curr), st)
               | GETNCNT \<Rightarrow> (Err (count_semncnt st i), st)
               | GETZCNT \<Rightarrow> (Err (count_semzcnt st i), st)
               | SETVAL val \<Rightarrow>
                   if val > SEMVMX \<or> val < 0 then (Err (- ERANGE), st)
                   else
                     (let st1 = clear_adj (\<lambda>a. a[i := 0]) st;
                          st2 = set_base ((sem_base (sma st1))[i := curr\<lparr>semval := val, sempid := tgid\<rparr>]) st1
                      in (Err 0, update_queue now (st2\<lparr>sma := (sma st2)\<lparr>sem_ctime := now\<rparr>\<rparr>)))
               | _ \<Rightarrow> (Err (- EINVAL), st)))"

subsection \<open>semop\<close>

text \<open>The checks on the operations: whether any is with undo, decreases or alters.\<close>

datatype semop_check = Bad int | Good bool bool bool

primrec scan_sops :: "nat \<Rightarrow> bool \<times> bool \<times> bool \<Rightarrow> sembuf list \<Rightarrow> semop_check" where
  "scan_sops nsems f [] = (case f of (un, decrease, alter) \<Rightarrow> Good un decrease (alter \<or> decrease))"
| "scan_sops nsems f (sop # sops) =
     (if sem_num sop \<ge> nsems then Bad (- EFBIG)
      else
        (case f of (un, decrease, alter) \<Rightarrow>
           scan_sops nsems (un \<or> with_undo sop, decrease \<or> sem_op sop < 0, alter \<or> sem_op sop > 0) sops))"

definition semop_check ::
    "nat \<Rightarrow> int \<Rightarrow> bool \<Rightarrow> (bool \<Rightarrow> bool) \<Rightarrow> nat \<Rightarrow> sembuf list \<Rightarrow> semop_check" where
  "semop_check sc_semopm semid badid denied nsems sops =
     (if length sops < 1 \<or> semid < 0 then Bad (- EINVAL)
      else if length sops > sc_semopm then Bad (- E2BIG)
      else if badid then Bad (- EIDRM)
      else
        case scan_sops nsems (False, False, False) sops of
          Bad e \<Rightarrow> Bad e
        | Good un decrease alter \<Rightarrow>
            if denied alter then Bad (- EACCES) else Good un decrease alter)"

text \<open>The search of the task's undo list, freeing what belongs to removed sets (\<open>freeundos\<close>).\<close>

primrec find_undo :: "(nat \<Rightarrow> sem_undo) \<Rightarrow> int \<Rightarrow> nat list \<Rightarrow> nat option \<times> nat list" where
  "find_undo un semid [] = (None, [])"
| "find_undo un semid (u # us) =
     (if un_semid (un u) = semid then (Some u, u # us)
      else if un_semid (un u) = - 1 then find_undo un semid us
      else (case find_undo un semid us of (r, l) \<Rightarrow> (r, u # l)))"

definition alloc_undo :: "int \<Rightarrow> nat \<Rightarrow> nat \<Rightarrow> sem_state \<Rightarrow> sem_state" where
  "alloc_undo semid task u st =
     st\<lparr>undos := (undos st)(u := \<lparr>un_semid = semid, semadj = replicate (sem_nsems (sma st)) 0\<rparr>),
        semundo := (semundo st)(task := u # semundo st task),
        sma := (sma st)\<lparr>sma_undo := u # sma_undo (sma st)\<rparr>\<rparr>"

datatype semop_result = Return int | Asleep

text \<open>From \<open>try_atomic_semop\<close> to the end of the call or to its going to sleep.\<close>

definition semop_perform ::
    "int \<Rightarrow> nat \<Rightarrow> int \<Rightarrow> nat option \<Rightarrow> bool \<Rightarrow> bool \<Rightarrow> sembuf list \<Rightarrow> sem_state \<Rightarrow> semop_result \<times> sem_state" where
  "semop_perform now task tgid un decrease alter sops st =
     (let (err, st1) = try_atomic_semop now sops un tgid False st in
      if err \<le> 0 then (Return err, if alter then update_queue now st1 else st1)
      else
        (let q = \<lparr>q_sleeper = task, q_undo = un, q_pid = tgid, q_status = - EINTR, q_sops = sops,
                  q_alter = decrease\<rparr>
         in (Asleep, if alter then append_to_queue q st1 else prepend_to_queue q st1)))"

text \<open>
  The call up to there, on a set nobody else changes between \<open>alloc_undo\<close>'s unlock and relock;
  \<open>fresh\<close> is the undo structure \<open>kmalloc\<close> returns, or None.
\<close>

definition sys_semtimedop ::
    "nat \<Rightarrow> int \<Rightarrow> bool \<Rightarrow> (bool \<Rightarrow> bool) \<Rightarrow> int \<Rightarrow> nat \<Rightarrow> int \<Rightarrow> nat option \<Rightarrow> sembuf list \<Rightarrow> sem_state
      \<Rightarrow> semop_result \<times> sem_state" where
  "sys_semtimedop sc_semopm semid badid denied now task tgid fresh sops st =
     (case semop_check sc_semopm semid badid denied (sem_nsems (sma st)) sops of
        Bad e \<Rightarrow> (Return e, st)
      | Good undo decrease alter \<Rightarrow>
          if undo then
            (case find_undo (undos st) semid (semundo st task) of
               (Some u, l) \<Rightarrow>
                 semop_perform now task tgid (Some u) decrease alter sops (st\<lparr>semundo := (semundo st)(task := l)\<rparr>)
             | (None, l) \<Rightarrow>
                 (let st1 = st\<lparr>semundo := (semundo st)(task := l)\<rparr> in
                  case fresh of
                    None \<Rightarrow> (Return (- ENOMEM), st1)
                  | Some u \<Rightarrow>
                      semop_perform now task tgid (Some u) decrease alter sops (alloc_undo semid task u st1)))
          else semop_perform now task tgid None decrease alter sops st)"

text \<open>The task runs again: its entry is in the queue, or was released with its final status.\<close>

definition semop_resume ::
    "int \<Rightarrow> nat \<Rightarrow> bool \<Rightarrow> bool \<Rightarrow> sem_queue \<Rightarrow> sem_state \<Rightarrow> semop_result \<times> sem_state" where
  "semop_resume now task timed_out alter q st =
     (let queued = (q \<in> set (sem_pending (sma st))) in
      if q_status q = 1 then
        (let (err, st1) = try_atomic_semop now (q_sops q) (q_undo q) (q_pid q) False st in
         if err \<le> 0 then
           (let st2 = remove_from_queue task st1
            in (Return err, if alter then update_queue now st2 else st2))
         else
           (Asleep, set_pending (map (\<lambda>p. if q_sleeper p = task then p\<lparr>q_status := - EINTR\<rparr> else p)
              (sem_pending (sma st1))) st1))
      else
        (let err = (if q_status q = - EINTR \<and> timed_out then - EAGAIN else q_status q) in
         if queued then
           (let st2 = remove_from_queue task st
            in (Return err, if alter then update_queue now st2 else st2))
         else (Return err, st)))"

subsection \<open>Exit\<close>

definition exit_adjust :: "int \<Rightarrow> int list \<Rightarrow> sem list \<Rightarrow> sem list" where
  "exit_adjust tgid adj base =
     map2 (\<lambda>c a. \<lparr>semval = (if semval c + a < 0 then 0 else semval c + a), sempid = tgid\<rparr>) base adj"

definition exit_undo :: "int \<Rightarrow> int \<Rightarrow> int \<Rightarrow> nat \<Rightarrow> sem_state \<Rightarrow> sem_state" where
  "exit_undo now tgid semid u st =
     (if un_semid (undos st u) \<noteq> semid \<or> u \<notin> set (sma_undo (sma st)) then st
      else
        (let st1 = st\<lparr>sma := (sma st)\<lparr>sma_undo := remove1 u (sma_undo (sma st)),
               sem_base := exit_adjust tgid (semadj (undos st u)) (sem_base (sma st)), sem_otime := now\<rparr>\<rparr>
         in update_queue now st1))"

definition sem_exit :: "int \<Rightarrow> int \<Rightarrow> int \<Rightarrow> nat \<Rightarrow> sem_state \<Rightarrow> sem_state" where
  "sem_exit now tgid semid task st =
     (let st1 = remove_from_queue task st;
          st2 = fold (exit_undo now tgid semid) (semundo st1 task) st1
      in st2\<lparr>semundo := (semundo st2)(task := [])\<rparr>)"

subsection \<open>All or nothing\<close>

definition in_range :: "nat \<Rightarrow> sembuf list \<Rightarrow> bool" where
  "in_range n sops \<longleftrightarrow> (\<forall>sop \<in> set sops. sem_num sop < n)"

lemma in_range_simps [simp]:
  "in_range n []" "in_range n (s # sops) \<longleftrightarrow> sem_num s < n \<and> in_range n sops"
  by (auto simp: in_range_def)

text \<open>What the operations of a list add to semaphore \<open>i\<close>.\<close>

definition total :: "sembuf list \<Rightarrow> nat \<Rightarrow> int" where
  "total sops i = sum_list (map sem_op (filter (\<lambda>s. sem_num s = i) sops))"

text \<open>One turn of the loop.\<close>

definition blocks :: "sem list \<Rightarrow> sembuf \<Rightarrow> bool" where
  "blocks base sop \<longleftrightarrow>
     (let v = semval (base ! sem_num sop) in sem_op sop = 0 \<and> v \<noteq> 0 \<or> v + sem_op sop < 0)"

definition exceeds :: "int list \<Rightarrow> sem list \<Rightarrow> sembuf \<Rightarrow> bool" where
  "exceeds adj base sop \<longleftrightarrow> semval (base ! sem_num sop) + sem_op sop > SEMVMX \<or>
     with_undo sop \<and>
       (adj ! sem_num sop - sem_op sop < - SEMAEM - 1 \<or> adj ! sem_num sop - sem_op sop > SEMAEM)"

definition apply_sop :: "sem list \<Rightarrow> sembuf \<Rightarrow> sem list" where
  "apply_sop base sop =
     base[sem_num sop := (base ! sem_num sop)\<lparr>semval := semval (base ! sem_num sop) + sem_op sop\<rparr>]"

lemma semop_loop_Cons:
  "semop_loop adj base dn (sop # rest) =
     (if blocks base sop then (Would_block sop, base, dn)
      else if exceeds adj base sop then (Out_of_range, base, dn)
      else semop_loop adj (apply_sop base sop) (sop # dn) rest)"
  by (auto simp: blocks_def exceeds_def apply_sop_def Let_def)

declare semop_loop.simps(2) [simp del]

lemma apply_sop_length [simp]: "length (apply_sop base sop) = length base"
  by (simp add: apply_sop_def)

lemma apply_sop_nth:
  "sem_num sop < length base \<Longrightarrow>
   apply_sop base sop ! i =
     (if i = sem_num sop then (base ! i)\<lparr>semval := semval (base ! i) + sem_op sop\<rparr> else base ! i)"
  by (auto simp: apply_sop_def)

lemma semop_loop_undo:
  "in_range (length base) sops \<Longrightarrow> semop_loop adj base dn sops = (out, base', dn') \<Longrightarrow>
   undo_sops base' dn' = undo_sops base dn"
proof (induction sops arbitrary: base dn)
  case (Cons sop sops)
  have "undo_sops (apply_sop base sop) (sop # dn) = undo_sops base dn"
    using Cons.prems(1) by (simp add: apply_sop_def)
  then show ?case
    using Cons.prems Cons.IH [of "apply_sop base sop" "sop # dn"]
    by (auto simp: semop_loop_Cons split: if_splits)
qed simp

definition vals_ok :: "sem list \<Rightarrow> bool" where
  "vals_ok base \<longleftrightarrow> (\<forall>c \<in> set base. 0 \<le> semval c \<and> semval c \<le> SEMVMX)"

lemma apply_sop_ok:
  "vals_ok base \<Longrightarrow> \<not> blocks base sop \<Longrightarrow> \<not> exceeds adj base sop \<Longrightarrow> vals_ok (apply_sop base sop)"
  unfolding vals_ok_def apply_sop_def
  by (auto simp: blocks_def exceeds_def Let_def dest!: set_update_subset_insert [THEN subsetD])

lemma semop_loop_completed:
  "in_range (length base) sops \<Longrightarrow> semop_loop adj base dn sops = (Completed, base', dn') \<Longrightarrow>
   dn' = rev sops @ dn \<and> length base' = length base \<and> (vals_ok base \<longrightarrow> vals_ok base') \<and>
   (\<forall>i < length base. base' ! i = (base ! i)\<lparr>semval := semval (base ! i) + total sops i\<rparr>)"
proof (induction sops arbitrary: base dn)
  case (Cons sop sops)
  have l: "semop_loop adj (apply_sop base sop) (sop # dn) sops = (Completed, base', dn')"
    and c: "\<not> blocks base sop" "\<not> exceeds adj base sop"
    using Cons.prems(2) by (auto simp: semop_loop_Cons split: if_splits)
  have n: "sem_num sop < length base" "in_range (length (apply_sop base sop)) sops"
    using Cons.prems(1) by simp_all
  have "\<forall>i < length base. base' ! i = (base ! i)\<lparr>semval := semval (base ! i) + total (sop # sops) i\<rparr>"
    using Cons.IH [OF n(2) l] by (auto simp: apply_sop_nth [OF n(1)] total_def)
  then show ?case using Cons.IH [OF n(2) l] apply_sop_ok [OF _ c] by simp
qed (simp add: total_def)

lemma semop_loop_blocked:
  "in_range (length base) sops \<Longrightarrow> vals_ok base \<Longrightarrow>
   semop_loop adj base dn sops = (Would_block sop, base', dn') \<Longrightarrow> sop \<in> set sops \<and> sem_op sop \<le> 0"
proof (induction sops arbitrary: base dn)
  case (Cons s sops)
  show ?case
  proof (cases "blocks base s")
    case True
    have "sem_num s < length base" using Cons.prems(1) by simp
    then have "0 \<le> semval (base ! sem_num s)" using Cons.prems(2) by (simp add: vals_ok_def)
    moreover have "sop = s" using True Cons.prems(3) by (simp add: semop_loop_Cons)
    ultimately show ?thesis using True by (auto simp: blocks_def Let_def)
  next
    case False
    then have "\<not> exceeds adj base s" "semop_loop adj (apply_sop base s) (s # dn) sops = (Would_block sop, base', dn')"
      using Cons.prems(3) by (auto simp: semop_loop_Cons split: if_splits)
    then show ?thesis
      using Cons.IH [of "apply_sop base s" "s # dn"] Cons.prems(1) apply_sop_ok [OF Cons.prems(2) False] by auto
  qed
qed simp

lemma commit_sops_base:
  "in_range (length base) dn \<Longrightarrow> commit_sops pid dn (base, adj) = (base', adj') \<Longrightarrow>
   length base' = length base \<and>
   (\<forall>i < length base. base' ! i =
      (if i \<in> sem_num ` set dn then (base ! i)\<lparr>sempid := pid\<rparr> else base ! i))"
proof (induction dn arbitrary: base adj)
  case (Cons sop dn)
  let ?b = "base[sem_num sop := (base ! sem_num sop)\<lparr>sempid := pid\<rparr>]"
  obtain a where c: "commit_sops pid dn (?b, a) = (base', adj')" using Cons.prems(2) by simp
  have n: "in_range (length ?b) dn" "sem_num sop < length base" using Cons.prems(1) by simp_all
  from Cons.IH [OF n(1) c] n(2) show ?case by (auto simp: nth_list_update)
qed simp

text \<open>The two sides of \<open>try_atomic_semop\<close>: it did nothing, or it did everything.\<close>

lemma try_nothing:
  assumes "in_range (length (sem_base (sma st))) sops"
    and "try_atomic_semop now sops un pid do_undo st = (err, st')" "err \<noteq> 0 \<or> do_undo"
  shows "st' = st"
proof -
  obtain out base dn where l: "semop_loop (adj_of st un) (sem_base (sma st)) [] sops = (out, base, dn)"
    using prod_cases3 by blast
  have "undo_sops base dn = sem_base (sma st)" using semop_loop_undo [OF assms(1) l] by simp
  then show ?thesis
    using assms(2,3) l
    by (auto simp: try_atomic_semop_def split: semop_outcome.splits if_splits prod.splits)
qed

lemma try_codes:
  assumes "try_atomic_semop now sops un pid do_undo st = (err, st')"
  shows "err \<in> {0, 1, - EAGAIN, - ERANGE}"
  using assms by (auto simp: try_atomic_semop_def split: semop_outcome.splits if_splits prod.splits)

lemma try_everything:
  assumes r: "in_range (length (sem_base (sma st))) sops"
    and t: "try_atomic_semop now sops un pid False st = (0, st')"
  shows "sem_pending (sma st') = sem_pending (sma st)" "sma_undo (sma st') = sma_undo (sma st)"
    "sem_nsems (sma st') = sem_nsems (sma st)" "semundo st' = semundo st"
    "released st' = released st" "woken st' = woken st"
    "length (sem_base (sma st')) = length (sem_base (sma st))"
    "vals_ok (sem_base (sma st)) \<Longrightarrow> vals_ok (sem_base (sma st'))"
    "i < length (sem_base (sma st)) \<Longrightarrow>
      sem_base (sma st') ! i = \<lparr>semval = semval (sem_base (sma st) ! i) + total sops i,
        sempid = (if i \<in> sem_num ` set sops then pid else sempid (sem_base (sma st) ! i))\<rparr>"
proof -
  let ?b = "sem_base (sma st)"
  obtain out base dn where l: "semop_loop (adj_of st un) ?b [] sops = (out, base, dn)"
    using prod_cases3 by blast
  obtain base' adj' where c: "commit_sops pid dn (base, adj_of st un) = (base', adj')" by fastforce
  have o: "out = Completed" and st': "st' = set_adj un adj' (st\<lparr>sma := (sma st)\<lparr>sem_base := base', sem_otime := now\<rparr>\<rparr>)"
    using t l c by (auto simp: try_atomic_semop_def kdefs split: semop_outcome.splits if_splits)
  note lc = semop_loop_completed [OF r l [unfolded o]]
  have "in_range (length base) dn" using lc r by (simp add: in_range_def)
  note cc = commit_sops_base [OF this c]
  have b: "sem_base (sma st') = base'" by (simp add: st' set_adj_def split: option.splits)
  show "sem_pending (sma st') = sem_pending (sma st)" "sma_undo (sma st') = sma_undo (sma st)"
    "sem_nsems (sma st') = sem_nsems (sma st)" "semundo st' = semundo st"
    "released st' = released st" "woken st' = woken st"
    by (simp_all add: st' set_adj_def split: option.splits)
  show "length (sem_base (sma st')) = length ?b" using lc cc b by simp
  have v: "semval (base' ! i) = semval (base ! i)" if "i < length ?b" for i using lc cc that by auto
  show "vals_ok (sem_base (sma st'))" if "vals_ok ?b"
    using lc cc that v unfolding b vals_ok_def by (metis in_set_conv_nth)
  show "i < length ?b \<Longrightarrow> sem_base (sma st') ! i = \<lparr>semval = semval (?b ! i) + total sops i,
        sempid = (if i \<in> sem_num ` set sops then pid else sempid (?b ! i))\<rparr>"
    using lc cc unfolding b by (auto intro: sem.equality)
qed

text \<open>
  C6.  A sequence of operations is tried all or nothing.  \<open>try_atomic_semop\<close> answers 0, 1 (would
  sleep), \<open>-EAGAIN\<close> or \<open>-ERANGE\<close>; with a nonzero answer, and whenever it is only asked
  (\<open>do_undo\<close>), the state is exactly what it was; with 0 every semaphore has changed by the sum of
  the operations on it, still within 0 and \<open>SEMVMX\<close>, and the touched ones carry the caller's pid.
\<close>

theorem try_atomic_semop_correct:
  assumes "in_range (length (sem_base (sma st))) sops" "vals_ok (sem_base (sma st))"
    and "try_atomic_semop now sops un pid do_undo st = (err, st')"
  shows "err \<in> {0, 1, - EAGAIN, - ERANGE} \<and>
    (if err \<noteq> 0 \<or> do_undo then st' = st
     else vals_ok (sem_base (sma st')) \<and> length (sem_base (sma st')) = length (sem_base (sma st)) \<and>
       (\<forall>i < length (sem_base (sma st)). sem_base (sma st') ! i =
          \<lparr>semval = semval (sem_base (sma st) ! i) + total sops i,
           sempid = (if i \<in> sem_num ` set sops then pid else sempid (sem_base (sma st) ! i))\<rparr>))"
proof -
  have "err \<in> {0, 1, - EAGAIN, - ERANGE}" by (rule try_codes [OF assms(3)])
  moreover have "st' = st" if "err \<noteq> 0 \<or> do_undo" by (rule try_nothing [OF assms(1,3) that])
  moreover have "vals_ok (sem_base (sma st')) \<and> length (sem_base (sma st')) = length (sem_base (sma st)) \<and>
       (\<forall>i < length (sem_base (sma st)). sem_base (sma st') ! i =
          \<lparr>semval = semval (sem_base (sma st) ! i) + total sops i,
           sempid = (if i \<in> sem_num ` set sops then pid else sempid (sem_base (sma st) ! i))\<rparr>)"
    if "\<not> (err \<noteq> 0 \<or> do_undo)"
    using that try_everything(7,8,9) [OF assms(1), of now un pid st'] assms(2,3) by simp
  ultimately show ?thesis by simp
qed

subsection \<open>The values stay in range\<close>

definition sem_inv :: "sem_state \<Rightarrow> bool" where
  "sem_inv st \<longleftrightarrow> length (sem_base (sma st)) = sem_nsems (sma st) \<and> vals_ok (sem_base (sma st)) \<and>
     (\<forall>q \<in> set (sem_pending (sma st)). in_range (sem_nsems (sma st)) (q_sops q))"

lemma try_inv:
  assumes "in_range (length (sem_base (sma st))) sops" "vals_ok (sem_base (sma st))"
    and "try_atomic_semop now sops un pid do_undo st = (err, st')"
  shows "vals_ok (sem_base (sma st'))" "length (sem_base (sma st')) = length (sem_base (sma st))"
    "sem_pending (sma st') = sem_pending (sma st)" "sem_nsems (sma st') = sem_nsems (sma st)"
proof -
  have "vals_ok (sem_base (sma st')) \<and> length (sem_base (sma st')) = length (sem_base (sma st)) \<and>
    sem_pending (sma st') = sem_pending (sma st) \<and> sem_nsems (sma st') = sem_nsems (sma st)"
  proof (cases "err \<noteq> 0 \<or> do_undo")
    case True
    then show ?thesis using try_nothing [OF assms(1,3)] assms(2) by simp
  next
    case False
    then show ?thesis using try_everything(1,3,7,8) [OF assms(1)] assms(2,3) by simp
  qed
  then show "vals_ok (sem_base (sma st'))" "length (sem_base (sma st')) = length (sem_base (sma st))"
    "sem_pending (sma st') = sem_pending (sma st)" "sem_nsems (sma st') = sem_nsems (sma st)" by auto
qed

definition queue_ok :: "nat \<Rightarrow> sem_queue list \<Rightarrow> bool" where
  "queue_ok n qs \<longleftrightarrow> (\<forall>q \<in> set qs. in_range n (q_sops q))"

lemma update_loop_inv:
  "length (sem_base (sma st)) = sem_nsems (sma st) \<Longrightarrow> vals_ok (sem_base (sma st)) \<Longrightarrow>
   queue_ok (sem_nsems (sma st)) kept \<Longrightarrow> queue_ok (sem_nsems (sma st)) qs \<Longrightarrow>
   sem_inv (update_loop now st kept qs)"
proof (induction qs arbitrary: st kept)
  case Nil
  then show ?case by (simp add: sem_inv_def queue_ok_def)
next
  case (Cons q qs)
  obtain err st1 where t: "try_atomic_semop now (q_sops q) (q_undo q) (q_pid q) (q_alter q) st = (err, st1)"
    by fastforce
  have "in_range (length (sem_base (sma st))) (q_sops q)" using Cons.prems by (simp add: queue_ok_def)
  note ti = try_inv [OF this Cons.prems(2) t]
  have q: "queue_ok (sem_nsems (sma st)) (q # kept)" "queue_ok (sem_nsems (sma st)) qs"
    using Cons.prems by (simp_all add: queue_ok_def)
  have "sem_inv (set_pending (rev kept @ q\<lparr>q_status := 1\<rparr> # qs) (st1\<lparr>woken := woken st1 @ [q_sleeper q]\<rparr>))"
    using ti Cons.prems by (auto simp: sem_inv_def queue_ok_def)
  then show ?case
    using t ti Cons.prems q Cons.IH by (simp add: Let_def)
qed

lemma update_queue_inv: "sem_inv st \<Longrightarrow> sem_inv (update_queue now st)"
  unfolding update_queue_def by (rule update_loop_inv) (simp_all add: sem_inv_def queue_ok_def)

lemma scan_sops_range: "scan_sops n f sops = Good u d a \<Longrightarrow> in_range n sops"
  by (induction sops arbitrary: f) (auto split: if_splits prod.splits)

lemma semop_perform_inv:
  assumes "sem_inv st" "in_range (sem_nsems (sma st)) sops"
  shows "sem_inv (snd (semop_perform now task tgid un decrease alter sops st))"
proof -
  obtain err st1 where t: "try_atomic_semop now sops un tgid False st = (err, st1)" by fastforce
  have "in_range (length (sem_base (sma st))) sops" "vals_ok (sem_base (sma st))"
    using assms by (simp_all add: sem_inv_def)
  note ti = try_inv [OF this t]
  have "sem_inv st1" using ti assms(1) by (simp add: sem_inv_def)
  then show ?thesis
    using t ti assms update_queue_inv
    by (auto simp: semop_perform_def append_to_queue_def prepend_to_queue_def sem_inv_def)
qed

lemma sys_semtimedop_inv:
  assumes "sem_inv st"
  shows "sem_inv (snd (sys_semtimedop m semid badid denied now task tgid fresh sops st))"
proof (cases "semop_check m semid badid denied (sem_nsems (sma st)) sops")
  case (Bad e)
  then show ?thesis using assms by (simp add: sys_semtimedop_def)
next
  case (Good u d a)
  then have r: "in_range (sem_nsems (sma st)) sops"
    using scan_sops_range by (auto simp: semop_check_def split: if_splits semop_check.splits)
  obtain r0 l where f: "find_undo (undos st) semid (semundo st task) = (r0, l)" by fastforce
  have i1: "sem_inv (st\<lparr>semundo := (semundo st)(task := l)\<rparr>)" using assms by (simp add: sem_inv_def)
  have i2: "sem_inv (alloc_undo semid task w (st\<lparr>semundo := (semundo st)(task := l)\<rparr>))" for w
    using assms by (simp add: sem_inv_def alloc_undo_def)
  show ?thesis
    using Good f r i1 i2 assms semop_perform_inv [OF i1] semop_perform_inv [OF i2] semop_perform_inv [OF assms]
    by (auto simp: sys_semtimedop_def alloc_undo_def Let_def split: option.splits)
qed

lemma remove_inv: "sem_inv st \<Longrightarrow> sem_inv (remove_from_queue task st)"
  by (simp add: sem_inv_def remove_from_queue_def)

lemma semop_resume_inv:
  assumes "sem_inv st" "q \<in> set (sem_pending (sma st)) \<or> q \<in> set (released st) \<and> q_status q \<le> 0"
  shows "sem_inv (snd (semop_resume now task timed_out alter q st))"
proof (cases "q_status q = 1")
  case False
  then show ?thesis
    using assms update_queue_inv [OF remove_inv] remove_inv by (simp add: semop_resume_def Let_def)
next
  case True
  then have "in_range (sem_nsems (sma st)) (q_sops q)" using assms by (auto simp: sem_inv_def)
  obtain err st1 where t: "try_atomic_semop now (q_sops q) (q_undo q) (q_pid q) False st = (err, st1)" by fastforce
  have "in_range (length (sem_base (sma st))) (q_sops q)" "vals_ok (sem_base (sma st))"
    using assms \<open>in_range _ _\<close> by (simp_all add: sem_inv_def)
  note ti = try_inv [OF this t]
  have i1: "sem_inv st1" using ti assms(1) by (simp add: sem_inv_def)
  then have "sem_inv (set_pending (map (\<lambda>p. if q_sleeper p = task then p\<lparr>q_status := - EINTR\<rparr> else p)
      (sem_pending (sma st1))) st1)"
    by (auto simp: sem_inv_def)
  then show ?thesis
    using t i1 assms update_queue_inv [OF remove_inv] remove_inv
    by (simp add: semop_resume_def Let_def)
qed

lemma semctl_main_inv:
  assumes "sem_inv st" and "\<And>io. cmd = SETALL io \<Longrightarrow> length io = sem_nsems (sma st)"
  shows "sem_inv (snd (semctl_main now tgid badid denied semnum cmd st))"
proof (cases cmd)
  case (SETALL io)
  let ?b = "map2 (\<lambda>c v. c\<lparr>semval := uint v\<rparr>) (take (sem_nsems (sma st)) (sem_base (sma st))) io"
  have "vals_ok ?b" if "\<forall>v \<in> set io. uint v \<le> SEMVMX"
    using that by (auto simp: vals_ok_def dest: set_zip_rightD)
  then have "sem_inv (clear_adj f (set_base ?b st)\<lparr>sma := (sma (clear_adj f (set_base ?b st)))\<lparr>sem_ctime := now\<rparr>\<rparr>)"
    if "\<forall>v \<in> set io. uint v \<le> SEMVMX" for f
    using that assms SETALL by (simp add: sem_inv_def clear_adj_def)
  then show ?thesis
    using SETALL assms update_queue_inv by (auto simp: semctl_main_def Let_def not_less)
next
  case (SETVAL val)
  let ?i = "nat semnum"
  let ?st1 = "clear_adj (\<lambda>a. a[?i := 0]) st"
  let ?c = "(sem_base (sma st) ! ?i)\<lparr>semval := val, sempid := tgid\<rparr>"
  have "vals_ok ((sem_base (sma st))[?i := ?c])" if "0 \<le> val" "val \<le> SEMVMX"
    using that assms(1) by (auto simp: vals_ok_def sem_inv_def dest!: set_update_subset_insert [THEN subsetD])
  then have "sem_inv ((set_base ((sem_base (sma ?st1))[?i := ?c]) ?st1)
      \<lparr>sma := (sma (set_base ((sem_base (sma ?st1))[?i := ?c]) ?st1))\<lparr>sem_ctime := now\<rparr>\<rparr>)"
    if "0 \<le> val" "val \<le> SEMVMX"
    using that assms(1) by (simp add: sem_inv_def clear_adj_def)
  then show ?thesis
    using SETVAL assms(1) update_queue_inv by (auto simp: semctl_main_def Let_def not_less)
qed (use assms in \<open>simp_all add: semctl_main_def Let_def\<close>)

lemma freeary_inv: "sem_inv st \<Longrightarrow> sem_inv (freeary st)"
  by (simp add: sem_inv_def freeary_def)

text \<open>The system calls on a set, short of a process exit.\<close>

inductive sem_step :: "sem_state \<Rightarrow> sem_state \<Rightarrow> bool" where
  semop: "sem_step st (snd (sys_semtimedop m semid badid denied now task tgid fresh sops st))"
| resume: "q \<in> set (sem_pending (sma st)) \<or> q \<in> set (released st) \<and> q_status q \<le> 0 \<Longrightarrow>
    sem_step st (snd (semop_resume now task timed_out alter q st))"
| control: "(\<And>io. cmd = SETALL io \<Longrightarrow> length io = sem_nsems (sma st)) \<Longrightarrow>
    sem_step st (snd (semctl_main now tgid badid denied semnum cmd st))"
| removal: "sem_step st (freeary st)"

definition new_set :: "nat \<Rightarrow> sem_state" where
  "new_set n = \<lparr>sma = \<lparr>sem_otime = 0, sem_ctime = 0, sem_base = replicate n \<lparr>semval = 0, sempid = 0\<rparr>,
       sem_pending = [], sma_undo = [], sem_nsems = n\<rparr>,
     undos = (\<lambda>_. \<lparr>un_semid = - 1, semadj = []\<rparr>), semundo = (\<lambda>_. []), released = [], woken = []\<rparr>"

lemma sem_step_inv: "sem_step st st' \<Longrightarrow> sem_inv st \<Longrightarrow> sem_inv st'"
  by (induction rule: sem_step.induct)
    (blast intro: sys_semtimedop_inv semop_resume_inv semctl_main_inv freeary_inv)+

interpretation semm: state_machine "\<lambda>st. st = new_set n" sem_step sem_inv for n
proof unfold_locales
  show "sem_inv st" if "st = new_set n" for st
    using that by (simp add: new_set_def sem_inv_def vals_ok_def kdefs)
qed (rule sem_step_inv)

text \<open>
  C32.  From a new set of \<open>n\<close> semaphores, whatever system calls are made on it by whatever tasks, each
  semaphore's value stays between 0 and \<open>SEMVMX\<close>, and the array has as many
  semaphores as the set records.
\<close>

theorem sem_values_in_range:
  assumes "sem_step\<^sup>*\<^sup>* (new_set n) st"
  shows "length (sem_base (sma st)) = sem_nsems (sma st) \<and>
    (\<forall>c \<in> set (sem_base (sma st)). 0 \<le> semval c \<and> semval c \<le> SEMVMX)"
  using semm.reached_inv [OF refl assms] by (simp add: sem_inv_def vals_ok_def)

subsection \<open>No lost wakeups, and one that is\<close>

lemma adj_of_cong: "undos st' = undos st \<Longrightarrow> adj_of st' un = adj_of st un"
  by (cases un) (simp_all add: adj_of_def)

text \<open>The answer of \<open>try_atomic_semop\<close> depends on the values and the adjustments only.\<close>

definition err_code :: "semop_outcome \<Rightarrow> int" where
  "err_code out = (case out of Completed \<Rightarrow> 0 | Out_of_range \<Rightarrow> - ERANGE
     | Would_block sop \<Rightarrow> if nowait sop then - EAGAIN else 1)"

lemma try_err: "fst (try_atomic_semop now sops un pid du st) =
    err_code (fst (semop_loop (adj_of st un) (sem_base (sma st)) [] sops))"
  by (simp add: try_atomic_semop_def err_code_def split: prod.split semop_outcome.split)

definition vals :: "sem list \<Rightarrow> int list" where
  "vals base = map semval base"

lemma vals_nth: "vals b = vals b' \<Longrightarrow> i < length b \<Longrightarrow> semval (b' ! i) = semval (b ! i) \<and> i < length b'"
  unfolding vals_def by (metis length_map nth_map)

lemma semop_loop_vals:
  "vals base = vals base' \<Longrightarrow> in_range (length base) sops \<Longrightarrow>
   fst (semop_loop adj base dn sops) = fst (semop_loop adj base' dn' sops)"
proof (induction sops arbitrary: base base' dn dn')
  case (Cons sop sops)
  let ?n = "sem_num sop"
  have n: "?n < length base" "in_range (length base) sops" using Cons.prems(2) by simp_all
  then have v: "semval (base' ! ?n) = semval (base ! ?n)" using vals_nth [OF Cons.prems(1)] by simp
  then have b: "blocks base' sop = blocks base sop" "exceeds adj base' sop = exceeds adj base sop"
    by (simp_all add: blocks_def exceeds_def)
  have "vals (apply_sop base sop) = vals (apply_sop base' sop)"
    using Cons.prems(1) v by (simp add: vals_def apply_sop_def map_update)
  then show ?case using Cons.IH n(2) by (simp add: semop_loop_Cons b)
qed simp

definition shorts :: "sem_state \<Rightarrow> bool" where
  "shorts st \<longleftrightarrow> (\<forall>u. \<forall>a \<in> set (semadj (undos st u)). to_short a = a)"

lemma commit_zero:
  "\<forall>s \<in> set dn. sem_op s = 0 \<Longrightarrow> \<forall>a \<in> set adj. to_short a = a \<Longrightarrow>
   snd (commit_sops pid dn (base, adj)) = adj"
proof (induction dn arbitrary: base)
  case (Cons s dn)
  have "adj[sem_num s := to_short (adj ! sem_num s)] = adj"
    using Cons.prems(2) by (cases "sem_num s < length adj") (simp_all add: list_update_beyond)
  then show ?case using Cons by simp
qed simp

lemma total_zero: "\<forall>s \<in> set sops. sem_op s = 0 \<Longrightarrow> total sops i = 0"
  unfolding total_def by (induction sops) auto

text \<open>A committed sequence of waits for zero changes neither.\<close>

lemma try_zero:
  assumes r: "in_range (length (sem_base (sma st))) sops" and z: "\<forall>s \<in> set sops. sem_op s = 0"
    and s: "shorts st" and t: "try_atomic_semop now sops un pid False st = (0, st')"
  shows "vals (sem_base (sma st')) = vals (sem_base (sma st))" "undos st' = undos st"
proof -
  show "vals (sem_base (sma st')) = vals (sem_base (sma st))"
    using try_everything(7,9) [OF r t] total_zero [OF z] by (auto simp: vals_def list_eq_iff_nth_eq)
  obtain out base dn where l: "semop_loop (adj_of st un) (sem_base (sma st)) [] sops = (out, base, dn)"
    using prod_cases3 by blast
  have o: "out = Completed" using t l by (auto simp: try_atomic_semop_def kdefs split: semop_outcome.splits if_splits)
  have "\<forall>a \<in> set (adj_of st un). to_short a = a" using s by (auto simp: shorts_def adj_of_def split: option.splits)
  then have "snd (commit_sops pid dn (base, adj_of st un)) = adj_of st un"
    using semop_loop_completed [OF r l [unfolded o]] z by (intro commit_zero) auto
  then show "undos st' = undos st"
    using t l o by (auto simp: try_atomic_semop_def set_adj_def adj_of_def split: prod.splits option.splits)
qed

definition still_blocked :: "int \<Rightarrow> sem_state \<Rightarrow> sem_queue \<Rightarrow> bool" where
  "still_blocked now st q \<longleftrightarrow>
     fst (try_atomic_semop now (q_sops q) (q_undo q) (q_pid q) (q_alter q) st) = 1"

lemma still_blocked_cong:
  assumes "vals (sem_base (sma st')) = vals (sem_base (sma st))" "undos st' = undos st"
    and "in_range (length (sem_base (sma st))) (q_sops q)"
  shows "still_blocked now st' q = still_blocked now st q"
  using semop_loop_vals [OF assms(1) [symmetric] assms(3), of "adj_of st (q_undo q)" "[]" "[]"] assms(2)
  by (simp add: still_blocked_def try_err adj_of_cong [OF assms(2)])

lemma update_loop_wakes:
  "length (sem_base (sma st)) = sem_nsems (sma st) \<Longrightarrow> shorts st \<Longrightarrow>
   queue_ok (sem_nsems (sma st)) kept \<Longrightarrow> queue_ok (sem_nsems (sma st)) qs \<Longrightarrow>
   \<forall>q \<in> set qs. q_alter q \<or> (\<forall>s \<in> set (q_sops q). sem_op s = 0) \<Longrightarrow>
   \<forall>q \<in> set kept. q_status q = 1 \<or> still_blocked now st q \<Longrightarrow>
   st' = update_loop now st kept qs \<Longrightarrow>
   (\<exists>q \<in> set (sem_pending (sma st')). q_status q = 1) \<or>
   (\<forall>q \<in> set (sem_pending (sma st')). still_blocked now st' q)"
proof (induction qs arbitrary: st kept)
  case Nil
  have "still_blocked now (set_pending (rev kept) st) q = still_blocked now st q" for q
    by (simp add: still_blocked_def try_err adj_of_cong [of "set_pending (rev kept) st" st])
  then show ?case using Nil by auto
next
  case (Cons q qs)
  obtain err st1 where t: "try_atomic_semop now (q_sops q) (q_undo q) (q_pid q) (q_alter q) st = (err, st1)"
    by fastforce
  have r: "in_range (length (sem_base (sma st))) (q_sops q)"
    and qok: "queue_ok (sem_nsems (sma st)) (q # kept)" "queue_ok (sem_nsems (sma st)) qs"
    using Cons.prems by (simp_all add: queue_ok_def)
  have same: "vals (sem_base (sma st1)) = vals (sem_base (sma st)) \<and> undos st1 = undos st \<and>
      sem_nsems (sma st1) = sem_nsems (sma st)" if "\<not> (err = 0 \<and> q_alter q)"
  proof (cases "err \<noteq> 0 \<or> q_alter q")
    case True
    then show ?thesis using try_nothing [OF r t] by simp
  next
    case False
    then have "\<forall>s \<in> set (q_sops q). sem_op s = 0" "try_atomic_semop now (q_sops q) (q_undo q) (q_pid q) False st = (0, st1)"
      using Cons.prems(5) t by auto
    then show ?thesis using try_zero [OF r _ Cons.prems(2)] try_everything(3) [OF r] by blast
  qed
  have go: "(\<exists>q \<in> set (sem_pending (sma st')). q_status q = 1) \<or>
      (\<forall>q \<in> set (sem_pending (sma st')). still_blocked now st' q)"
    if "vals (sem_base (sma s)) = vals (sem_base (sma st))" "undos s = undos st"
      "sem_nsems (sma s) = sem_nsems (sma st)" "queue_ok (sem_nsems (sma st)) k"
      "\<forall>q \<in> set k. q_status q = 1 \<or> still_blocked now st q" "st' = update_loop now s k qs" for s k
  proof (rule Cons.IH [of s k])
    have "length (vals (sem_base (sma s))) = length (vals (sem_base (sma st)))" using that(1) by simp
    then show "length (sem_base (sma s)) = sem_nsems (sma s)" using Cons.prems(1) that(3) by (simp add: vals_def)
    show "\<forall>q \<in> set k. q_status q = 1 \<or> still_blocked now s q"
      using that(4,5) still_blocked_cong [OF that(1,2)] Cons.prems(1) by (simp add: queue_ok_def)
  qed (use that qok Cons.prems in \<open>simp_all add: shorts_def\<close>)
  consider (passed) "q_status q = 1" | (marked) "q_status q \<noteq> 1" "err = 0" "q_alter q"
    | (gone) "q_status q \<noteq> 1" "err \<le> 0" "\<not> (err = 0 \<and> q_alter q)" | (blocked) "q_status q \<noteq> 1" "err > 0" by linarith
  then show ?case
  proof cases
    case passed
    then show ?thesis using go [of st "q # kept"] Cons.prems qok by simp
  next
    case marked
    then show ?thesis using Cons.prems(7) t by simp
  next
    case gone
    then have u: "st' = update_loop now (st1\<lparr>woken := woken st1 @ [q_sleeper q],
        released := released st1 @ [q\<lparr>q_status := err\<rparr>]\<rparr>) kept qs"
      using Cons.prems(7) t by auto
    show ?thesis by (rule go [OF _ _ _ _ _ u]) (use same gone Cons.prems in auto)
  next
    case blocked
    then have "err = 1" using try_codes [OF t] by (auto simp: kdefs)
    then have "still_blocked now st q" using t by (simp add: still_blocked_def)
    then show ?thesis using go [of st1 "q # kept"] same blocked Cons.prems qok t by simp
  qed
qed


definition sop :: "nat \<Rightarrow> int \<Rightarrow> u16 \<Rightarrow> sembuf" where
  "sop n v f = \<lparr>sem_num = n, sem_op = v, sem_flg = f\<rparr>"

abbreviation semop_call :: "nat \<Rightarrow> sembuf list \<Rightarrow> sem_state \<Rightarrow> semop_result \<times> sem_state" where
  "semop_call task sops st \<equiv>
     sys_semtimedop 32 0 False (\<lambda>_. False) 0 task (100 + int task) (Some task) sops st"

lemmas sem_eval = semctl_main_def new_set_def clear_adj_def update_queue_def sys_semtimedop_def
  semop_check_def semop_perform_def try_atomic_semop_def adj_of_def set_adj_def sop_def with_undo_def nowait_def
  SEM_UNDO_def IPC_NOWAIT_def append_to_queue_def prepend_to_queue_def semop_loop.simps to_short_def
  alloc_undo_def kdefs

definition lost_state :: sem_state where
  "lost_state =
     (let st1 = snd (semctl_main 0 0 False (\<lambda>_. False) 0 (SETALL [0, 1]) (new_set 2));
          st2 = snd (semop_call 1 [sop 0 (- 1) 0] st1);
          st3 = snd (semop_call 2 [sop 1 0 0, sop 0 1 0] st2)
      in snd (semop_call 3 [sop 1 (- 1) 0] st3))"

lemma lost_state_eq:
  "lost_state =
     \<lparr>sma = \<lparr>sem_otime = 0, sem_ctime = 0,
        sem_base = [\<lparr>semval = 1, sempid = 102\<rparr>, \<lparr>semval = 0, sempid = 102\<rparr>],
        sem_pending = [\<lparr>q_sleeper = 1, q_undo = None, q_pid = 101, q_status = - EINTR,
          q_sops = [sop 0 (- 1) 0], q_alter = True\<rparr>],
        sma_undo = [], sem_nsems = 2\<rparr>,
      undos = (\<lambda>_. \<lparr>un_semid = - 1, semadj = []\<rparr>), semundo = (\<lambda>_. []),
      released = [\<lparr>q_sleeper = 2, q_undo = None, q_pid = 102, q_status = 0,
        q_sops = [sop 1 0 0, sop 0 1 0], q_alter = False\<rparr>],
      woken = [2]\<rparr>"
  by (simp add: sem_eval lost_state_def numeral_2_eq_2 Let_def)

text \<open>
  Without that condition a wakeup is lost.  With values (0, 1), task 1 sleeps to decrement the
  first semaphore, task 2 sleeps to wait for zero on the second and increment the first, and task 3
  decrements the second.  \<open>update_queue\<close> passes task 1 first, then completes the operations of task 2
  itself and releases it, and task 2 returns without running \<open>update_queue\<close>: task 1 sleeps on although
  the first semaphore is 1 and its operation would succeed.
\<close>

theorem semop_lost_wakeup:
  "map semval (sem_base (sma lost_state)) = [1, 0] \<and> woken lost_state = [2] \<and>
   map q_sleeper (sem_pending (sma lost_state)) = [1] \<and>
   (\<exists>q. sem_pending (sma lost_state) = [q] \<and> q_status q = - EINTR \<and> q_sops q = [sop 0 (- 1) 0]) \<and>
   (\<exists>q. released lost_state = [q] \<and> q_sleeper q = 2 \<and>
      semop_resume 0 2 False True q lost_state = (Return 0, lost_state)) \<and>
   fst (try_atomic_semop 0 [sop 0 (- 1) 0] None 101 True lost_state) = 0"
  unfolding lost_state_eq by (simp add: sem_eval semop_resume_def)

text \<open>
  The counts are, as their comment warrants, positive for a semaphore of each sleeper: if an
  entry of the queue still has to sleep, \<open>semncnt\<close> or \<open>semzcnt\<close> of one of the semaphores it
  operates on is positive.
\<close>

theorem semcnt_positive:
  assumes "sem_inv st" "q \<in> set (sem_pending (sma st))"
    and "fst (try_atomic_semop now (q_sops q) (q_undo q) (q_pid q) (q_alter q) st) = 1"
  shows "\<exists>n \<in> sem_num ` set (q_sops q). n < sem_nsems (sma st) \<and> count_semncnt st n + count_semzcnt st n > 0"
proof -
  let ?b = "sem_base (sma st)"
  have r: "in_range (length ?b) (q_sops q)" "vals_ok ?b" using assms(1,2) by (auto simp: sem_inv_def)
  obtain out base dn where l: "semop_loop (adj_of st (q_undo q)) ?b [] (q_sops q) = (out, base, dn)"
    using prod_cases3 by blast
  then obtain s where s: "out = Would_block s" "\<not> nowait s"
    using assms(3) by (auto simp: try_err err_code_def kdefs split: semop_outcome.splits if_splits)
  then have m: "s \<in> set (q_sops q)" "sem_op s \<le> 0" using semop_loop_blocked [OF r] l by auto
  then have "s \<in> set (concat (map q_sops (sem_pending (sma st))))" using assms(2) by auto
  then have "filter (\<lambda>t. sem_num t = sem_num s \<and> sem_op t < 0 \<and> \<not> nowait t) (concat (map q_sops (sem_pending (sma st)))) \<noteq> [] \<or>
      filter (\<lambda>t. sem_num t = sem_num s \<and> sem_op t = 0 \<and> \<not> nowait t) (concat (map q_sops (sem_pending (sma st)))) \<noteq> []"
    using m(2) s(2) unfolding filter_empty_conv by (metis order_le_less)
  then have "count_semncnt st (sem_num s) + count_semzcnt st (sem_num s) > 0"
    unfolding count_semncnt_def count_semzcnt_def by (auto simp: add_pos_nonneg add_nonneg_pos)
  moreover have "sem_num s < sem_nsems (sma st)"
    using r(1) m(1) assms(1) by (auto simp: in_range_def sem_inv_def)
  ultimately show ?thesis using m(1) by blast
qed

subsection \<open>What an exit can do\<close>

definition exit_state :: sem_state where
  "exit_state =
     (let st1 = snd (semctl_main 0 0 False (\<lambda>_. False) 0 (SETVAL 10) (new_set 1));
          st2 = snd (semop_call 1 [sop 0 (- 10) SEM_UNDO] st1)
      in snd (semop_call 2 [sop 0 32767 0] st2))"

definition wrap_state :: sem_state where
  "wrap_state =
     (let st1 = snd (semop_call 1 [sop 0 20000 SEM_UNDO] (new_set 1))
      in snd (semop_call 2 [sop 0 (- 20000) 0] st1))"

lemma exit_state_eq:
  "exit_state =
     \<lparr>sma = \<lparr>sem_otime = 0, sem_ctime = 0, sem_base = [\<lparr>semval = 32767, sempid = 102\<rparr>],
        sem_pending = [], sma_undo = [1], sem_nsems = 1\<rparr>,
      undos = (\<lambda>_. \<lparr>un_semid = - 1, semadj = []\<rparr>)(1 := \<lparr>un_semid = 0, semadj = [10]\<rparr>),
      semundo = (\<lambda>_. [])(1 := [1]), released = [], woken = []\<rparr>"
  by (simp add: sem_eval exit_state_def Let_def)

lemma wrap_state_eq:
  "wrap_state =
     \<lparr>sma = \<lparr>sem_otime = 0, sem_ctime = 0, sem_base = [\<lparr>semval = 0, sempid = 102\<rparr>],
        sem_pending = [], sma_undo = [1], sem_nsems = 1\<rparr>,
      undos = (\<lambda>_. \<lparr>un_semid = - 1, semadj = []\<rparr>)(1 := \<lparr>un_semid = 0, semadj = [- 20000]\<rparr>),
      semundo = (\<lambda>_. [])(1 := [1]), released = [], woken = []\<rparr>"
  by (simp add: sem_eval wrap_state_def Let_def)

text \<open>
  A process exit escapes the range.  Task 1 takes 10 with undo, task 2 raises the value to
  \<open>SEMVMX\<close>, and task 1's exit leaves it at 32777: \<open>sem_exit\<close> clips the adjusted value at 0 but not
  at \<open>SEMVMX\<close>, so a decrement of 32767 leaves a positive value where none was given.
\<close>

theorem sem_exit_exceeds_semvmx:
  "map semval (sem_base (sma exit_state)) = [SEMVMX] \<and>
   map semval (sem_base (sma (sem_exit 0 101 0 1 exit_state))) = [SEMVMX + 10]"
  unfolding exit_state_eq by (simp add: sem_eval sem_exit_def exit_undo_def exit_adjust_def remove_from_queue_def)

text \<open>
  The undo adjustment can wrap.  The range check of each operation uses the adjustment before
  the call, and the \<open>short\<close> is reduced once per operation: with an adjustment of -20000, a call that
  adds 10000 twice with undo succeeds, and the adjustment becomes 25536 instead of -40000, so that
  the exit of the task adds 25536 where it should subtract.
\<close>

theorem semadj_wraps:
  "semadj (undos wrap_state 1) = [- 20000] \<and>
   (case semop_call 1 [sop 0 10000 SEM_UNDO, sop 0 10000 SEM_UNDO] wrap_state of (r, st) \<Rightarrow>
      r = Return 0 \<and> map semval (sem_base (sma st)) = [20000] \<and> semadj (undos st 1) = [25536] \<and>
      map semval (sem_base (sma (sem_exit 0 101 0 1 st))) = [45536])"
  unfolding wrap_state_eq
  by (simp add: sem_eval sem_exit_def exit_undo_def exit_adjust_def remove_from_queue_def)

subsection \<open>The properties at work\<close>

lemma lost_state_inv: "sem_inv lost_state" "shorts lost_state"
  by (simp_all add: lost_state_eq sem_inv_def vals_ok_def shorts_def sop_def kdefs)

theorem try_atomic_semop_correct_witness:
  "fst (try_atomic_semop 0 [sop 0 (- 1) 0, sop 1 (- 1) 0] None 7 False lost_state) = 1 \<and>
   snd (try_atomic_semop 0 [sop 0 (- 1) 0, sop 1 (- 1) 0] None 7 False lost_state) = lost_state"
proof -
  let ?r = "try_atomic_semop 0 [sop 0 (- 1) 0, sop 1 (- 1) 0] None 7 False lost_state"
  have "in_range (length (sem_base (sma lost_state))) [sop 0 (- 1) 0, sop 1 (- 1) 0]"
    by (simp add: lost_state_eq sop_def)
  moreover have "vals_ok (sem_base (sma lost_state))" using lost_state_inv by (simp add: sem_inv_def)
  ultimately have "if fst ?r \<noteq> 0 \<or> False then snd ?r = lost_state else True"
    using try_atomic_semop_correct [OF _ _ surjective_pairing, of lost_state "[sop 0 (- 1) 0, sop 1 (- 1) 0]" 0 None 7 False]
    by (meson)
  moreover have "fst ?r = 1"
    by (simp add: try_err err_code_def semop_loop_Cons blocks_def exceeds_def apply_sop_def lost_state_eq
        sop_def with_undo_def nowait_def kdefs)
  ultimately show ?thesis by simp
qed

lemma lost_state_reachable: "sem_step\<^sup>*\<^sup>* (new_set 2) lost_state"
proof -
  let ?st1 = "snd (semctl_main 0 0 False (\<lambda>_. False) 0 (SETALL [0, 1]) (new_set 2))"
  have "sem_step (new_set 2) ?st1" by (rule sem_step.control) (simp add: new_set_def)
  then show ?thesis
    unfolding lost_state_def Let_def
    by (meson converse_rtranclp_into_rtranclp rtranclp.rtrancl_refl sem_step.semop)
qed

theorem sem_values_in_range_witness:
  "length (sem_base (sma lost_state)) = 2 \<and> semval (sem_base (sma lost_state) ! 0) \<le> SEMVMX"
  using sem_values_in_range [OF lost_state_reachable] by (simp add: lost_state_eq)


theorem semcnt_positive_witness:
  "count_semncnt (snd (semop_call 1 [sop 0 (- 1) 0] (new_set 1))) 0 +
   count_semzcnt (snd (semop_call 1 [sop 0 (- 1) 0] (new_set 1))) 0 > 0"
proof -
  let ?st = "snd (semop_call 1 [sop 0 (- 1) 0] (new_set 1))"
  let ?q = "\<lparr>q_sleeper = 1, q_undo = None, q_pid = 101, q_status = - EINTR, q_sops = [sop 0 (- 1) 0],
      q_alter = True\<rparr>"
  have "sem_inv ?st" by (rule sys_semtimedop_inv) (simp add: new_set_def sem_inv_def vals_ok_def kdefs)
  moreover have "?q \<in> set (sem_pending (sma ?st))" by (simp add: sem_eval)
  moreover have "fst (try_atomic_semop 0 (q_sops ?q) (q_undo ?q) (q_pid ?q) (q_alter ?q) ?st) = 1"
    by (simp add: sem_eval)
  ultimately have "\<exists>n \<in> sem_num ` set (q_sops ?q). n < sem_nsems (sma ?st) \<and> count_semncnt ?st n + count_semzcnt ?st n > 0"
    by (rule semcnt_positive)
  then show ?thesis by (simp add: sop_def)
qed

end
