(* ===== verification/Bootmem.thy ===== *)
theory Bootmem
  imports KPrelude
begin

text \<open>
  The boot-time page allocator (mm/bootmem.c).  The bitmap is the set of its one bits, as a function
  of the page index.  Sizes and addresses are natural numbers below 2^32: the differences that the
  code leaves to unsigned arithmetic (a range below \<open>node_boot_start\<close>) are taken modulo 2^32; the
  sums of an address and a size are taken to stay below 2^32.  \<open>BUG()\<close> is a result.  For an
  \<open>align\<close> that is 0 or a power of two, which the allocator checks, \<open>x & (align - 1)\<close> is
  \<open>x mod align\<close> and \<open>x & ~(align - 1)\<close> is \<open>align_down x align\<close>.  The allocator's \<open>memset\<close> of what
  it returns is not modelled, and \<open>phys_to_virt\<close> is the identity.
\<close>

subsection \<open>Data\<close>

definition PAGE_SHIFT :: nat where [kdefs]: "PAGE_SHIFT = 12"
definition PAGE_SIZE :: nat where [kdefs]: "PAGE_SIZE = 4096"

record bootmem_data =
  node_boot_start :: nat
  node_low_pfn :: nat
  node_bootmem_map :: "nat \<Rightarrow> bool"
  last_offset :: nat
  last_pos :: nat

datatype 'a bm_result = Bug | Ok 'a

definition usub :: "nat \<Rightarrow> nat \<Rightarrow> nat" where
  "usub a b = (a + 2 ^ 32 - b) mod 2 ^ 32"

definition align_down :: "nat \<Rightarrow> nat \<Rightarrow> nat" where
  "align_down x align = (if align = 0 then 0 else x div align * align)"

definition set_bits :: "nat \<Rightarrow> nat \<Rightarrow> bool \<Rightarrow> (nat \<Rightarrow> bool) \<Rightarrow> nat \<Rightarrow> bool" where
  "set_bits i j v m = (\<lambda>p. if i \<le> p \<and> p < j then v else m p)"

subsection \<open>Set-up, reserving and freeing\<close>

definition bootmem_bootmap_pages :: "nat \<Rightarrow> nat" where
  "bootmem_bootmap_pages pages = align_down ((pages + 7) div 8 + (PAGE_SIZE - 1)) PAGE_SIZE div 2 ^ PAGE_SHIFT"

text \<open>The node's list is not modelled; the map is set in whole longs.\<close>

definition init_bootmem_core :: "nat \<Rightarrow> nat \<Rightarrow> bootmem_data \<Rightarrow> nat \<times> bootmem_data" where
  "init_bootmem_core start end_pfn bdata =
     (let mapsize = align_down ((end_pfn - start + 7) div 8 + 3) 4
      in (mapsize, bdata\<lparr>node_boot_start := start * PAGE_SIZE, node_low_pfn := end_pfn,
            node_bootmem_map := set_bits 0 (8 * mapsize) True (node_bootmem_map bdata)\<rparr>))"

definition reserve_bootmem_core :: "bootmem_data \<Rightarrow> nat \<Rightarrow> nat \<Rightarrow> bootmem_data bm_result" where
  "reserve_bootmem_core bdata addr sz =
     (let sidx = usub addr (node_boot_start bdata) div PAGE_SIZE;
          eidx = usub (addr + sz + PAGE_SIZE - 1) (node_boot_start bdata) div PAGE_SIZE;
          e = (addr + sz + PAGE_SIZE - 1) div PAGE_SIZE in
      if sz = 0 then Bug
      else if sidx \<ge> eidx then Bug
      else if addr div PAGE_SIZE \<ge> node_low_pfn bdata then Bug
      else if e > node_low_pfn bdata then Bug
      else Ok (bdata\<lparr>node_bootmem_map := set_bits sidx eidx True (node_bootmem_map bdata)\<rparr>))"

definition free_bootmem_core :: "bootmem_data \<Rightarrow> nat \<Rightarrow> nat \<Rightarrow> bootmem_data bm_result" where
  "free_bootmem_core bdata addr sz =
     (let eidx = usub (addr + sz) (node_boot_start bdata) div PAGE_SIZE;
          e = (addr + sz) div PAGE_SIZE;
          start = (addr + PAGE_SIZE - 1) div PAGE_SIZE;
          sidx = usub start (node_boot_start bdata div PAGE_SIZE) in
      if sz = 0 then Bug
      else if e > node_low_pfn bdata then Bug
      else if \<exists>i \<in> {sidx ..< eidx}. \<not> node_bootmem_map bdata i then Bug
      else Ok (bdata\<lparr>node_bootmem_map := set_bits sidx eidx False (node_bootmem_map bdata)\<rparr>))"

subsection \<open>Allocation\<close>

definition free_run :: "(nat \<Rightarrow> bool) \<Rightarrow> nat \<Rightarrow> nat \<Rightarrow> nat \<Rightarrow> bool" where
  "free_run m eidx areasize i \<longleftrightarrow> \<not> m i \<and> list_all (\<lambda>j. j < eidx \<and> \<not> m j) [i + 1 ..< i + areasize]"

text \<open>One pass of the scan; the step \<open>incr\<close> is at least 1.\<close>

function scan :: "(nat \<Rightarrow> bool) \<Rightarrow> nat \<Rightarrow> nat \<Rightarrow> nat \<Rightarrow> nat \<Rightarrow> nat option" where
  "scan m eidx areasize incr i =
     (if i < eidx then
        if free_run m eidx areasize i then Some i else scan m eidx areasize incr (i + max 1 incr)
      else None)"
  by pat_completeness auto
termination
  by (relation "measure (\<lambda>(m, eidx, areasize, incr, i). eidx - i)") auto

declare scan.simps [simp del]

partial_function (option) restart_scan ::
    "(nat \<Rightarrow> bool) \<Rightarrow> nat \<Rightarrow> nat \<Rightarrow> nat \<Rightarrow> nat \<Rightarrow> nat \<Rightarrow> nat option option" where
  "restart_scan m eidx areasize incr offset preferred =
     (case scan m eidx areasize incr preferred of
        Some i \<Rightarrow> Some (Some i)
      | None \<Rightarrow> if preferred \<noteq> 0 then restart_scan m eidx areasize incr offset offset else Some None)"

definition page_offset_for :: "bootmem_data \<Rightarrow> nat \<Rightarrow> nat" where
  "page_offset_for bdata align =
     (if align \<noteq> 0 \<and> node_boot_start bdata mod align \<noteq> 0
      then (align - node_boot_start bdata mod align) div PAGE_SIZE else 0)"

definition preferred_page :: "bootmem_data \<Rightarrow> nat \<Rightarrow> nat \<Rightarrow> nat" where
  "preferred_page bdata align goal =
     (let preferred = (if goal \<noteq> 0 \<and> goal \<ge> node_boot_start bdata \<and> goal div PAGE_SIZE < node_low_pfn bdata
                       then goal - node_boot_start bdata else 0)
      in align_down (preferred + align - 1) align div PAGE_SIZE + page_offset_for bdata align)"

text \<open>The code at \<open>found\<close>: the address, and the data with the pages from \<open>start\<close> reserved.\<close>

definition take_found :: "bootmem_data \<Rightarrow> nat \<Rightarrow> nat \<Rightarrow> nat \<Rightarrow> (nat \<times> bootmem_data) bm_result" where
  "take_found bdata sz align start =
     (let areasize = (sz + PAGE_SIZE - 1) div PAGE_SIZE;
          merge = (align \<le> PAGE_SIZE \<and> last_offset bdata \<noteq> 0 \<and> last_pos bdata + 1 = start);
          offset = align_down (last_offset bdata + align - 1) align;
          remaining = PAGE_SIZE - offset;
          at_last = last_pos bdata * PAGE_SIZE + offset + node_boot_start bdata;
          reserve = (\<lambda>n b. if \<exists>i \<in> {start ..< start + n}. node_bootmem_map b i then Bug
             else Ok (b\<lparr>node_bootmem_map := set_bits start (start + n) True (node_bootmem_map b)\<rparr>));
          answer = (\<lambda>a r. case r of Bug \<Rightarrow> Bug | Ok b \<Rightarrow> Ok (a, b)) in
      if merge then
        if offset > PAGE_SIZE then Bug
        else if sz < remaining then
          answer at_last (reserve 0 (bdata\<lparr>last_offset := (offset + sz) mod PAGE_SIZE\<rparr>))
        else
          (let n = (sz - remaining + PAGE_SIZE - 1) div PAGE_SIZE
           in answer at_last (reserve n (bdata\<lparr>last_pos := start + n - 1, last_offset := (sz - remaining) mod PAGE_SIZE\<rparr>)))
      else
        answer (start * PAGE_SIZE + node_boot_start bdata)
          (reserve areasize (bdata\<lparr>last_pos := start + areasize - 1, last_offset := sz mod PAGE_SIZE\<rparr>)))"

definition alloc_bootmem_core ::
    "bootmem_data \<Rightarrow> nat \<Rightarrow> nat \<Rightarrow> nat \<Rightarrow> (nat \<times> bootmem_data) option bm_result option" where
  "alloc_bootmem_core bdata sz align goal =
     (let eidx = node_low_pfn bdata - node_boot_start bdata div PAGE_SIZE;
          areasize = (sz + PAGE_SIZE - 1) div PAGE_SIZE;
          incr = (if align div PAGE_SIZE \<noteq> 0 then align div PAGE_SIZE else 1) in
      if sz = 0 \<or> align AND (align - 1) \<noteq> 0 then Some Bug
      else
        (case restart_scan (node_bootmem_map bdata) eidx areasize incr (page_offset_for bdata align)
                (preferred_page bdata align goal) of
           None \<Rightarrow> None
         | Some None \<Rightarrow> Some (Ok None)
         | Some (Some start) \<Rightarrow>
             if start \<ge> eidx then Some Bug
             else Some (case take_found bdata sz align start of Bug \<Rightarrow> Bug | Ok r \<Rightarrow> Ok (Some r))))"

subsection \<open>Handing over to the page allocator\<close>

text \<open>The pages given to the page allocator: the free ones of the node, then those of the map.\<close>

definition free_all_bootmem_core :: "bootmem_data \<Rightarrow> nat \<times> nat list" where
  "free_all_bootmem_core bdata =
     (let idx = node_low_pfn bdata - node_boot_start bdata div PAGE_SIZE;
          freed = filter (\<lambda>i. \<not> node_bootmem_map bdata i) [0 ..< idx];
          mappages = (idx div 8 + PAGE_SIZE - 1) div PAGE_SIZE
      in (length freed + mappages, freed))"

subsection \<open>The scan\<close>

lemma scan_Some:
  "scan m eidx areasize incr i = Some s \<Longrightarrow>
   s < eidx \<and> free_run m eidx areasize s \<and> (\<exists>c. s = i + c * max 1 incr)"
proof (induction m eidx areasize incr i rule: scan.induct)
  case (1 m eidx areasize incr i)
  show ?case
  proof (cases "i < eidx \<and> \<not> free_run m eidx areasize i")
    case True
    then have "scan m eidx areasize incr (i + max 1 incr) = Some s"
      using 1(2) by (subst (asm) scan.simps) simp
    then obtain c where "s < eidx" "free_run m eidx areasize s" "s = i + max 1 incr + c * max 1 incr"
      using 1(1) True by blast
    then show ?thesis by (intro conjI exI [of _ "Suc c"]) auto
  next
    case False
    then show ?thesis using 1(2) by (subst (asm) scan.simps) (auto split: if_splits intro: exI [of _ 0])
  qed
qed

lemma scan_None:
  "scan m eidx areasize incr i = None \<longleftrightarrow> (\<forall>c. i + c * max 1 incr < eidx \<longrightarrow> \<not> free_run m eidx areasize (i + c * max 1 incr))"
proof (induction m eidx areasize incr i rule: scan.induct)
  case (1 m eidx areasize incr i)
  have split: "(\<forall>c. P (i + c * max 1 incr)) \<longleftrightarrow> P i \<and> (\<forall>c. P (i + max 1 incr + c * max 1 incr))" for P
  proof
    assume "\<forall>c. P (i + c * max 1 incr)"
    from spec [OF this, of 0] spec [OF this, of "Suc c" for c]
    show "P i \<and> (\<forall>c. P (i + max 1 incr + c * max 1 incr))" by (simp add: add.assoc)
  next
    assume a: "P i \<and> (\<forall>c. P (i + max 1 incr + c * max 1 incr))"
    show "\<forall>c. P (i + c * max 1 incr)"
    proof
      fix c show "P (i + c * max 1 incr)" using a by (cases c) (simp_all add: add.assoc)
    qed
  qed
  show ?case
  proof (cases "i < eidx \<and> \<not> free_run m eidx areasize i")
    case True
    then show ?thesis
      using 1 split [of "\<lambda>j. j < eidx \<longrightarrow> \<not> free_run m eidx areasize j"] by (subst scan.simps) simp
  next
    case False
    then have "scan m eidx areasize incr i = (if i < eidx then Some i else None)" by (subst scan.simps) simp
    moreover have "\<not> i < eidx \<Longrightarrow> \<not> i + c * max 1 incr < eidx" for c by simp
    ultimately show ?thesis using False by (auto intro: exI [of _ 0])
  qed
qed

text \<open>If the scans come to an end, it is with the first one or with the second.\<close>

lemma restart_scan_cases:
  assumes "restart_scan m eidx areasize incr offset preferred = Some r"
  shows "scan m eidx areasize incr preferred = r \<and> (r = None \<longrightarrow> preferred = 0) \<or>
    scan m eidx areasize incr offset = r \<and> (r = None \<longrightarrow> offset = 0)"
  by (rule restart_scan.raw_induct [OF _ assms, where P = "\<lambda>m eidx areasize incr offset preferred r.
      scan m eidx areasize incr preferred = r \<and> (r = None \<longrightarrow> preferred = 0) \<or>
      scan m eidx areasize incr offset = r \<and> (r = None \<longrightarrow> offset = 0)"])
    (fastforce split: option.splits if_splits)

text \<open>With no room and an offset, the second scan is repeated for ever.\<close>

lemma restart_scan_diverges:
  assumes "offset \<noteq> 0" "scan m eidx areasize incr offset = None"
    "scan m eidx areasize incr preferred = None" "preferred \<noteq> 0"
  shows "restart_scan m eidx areasize incr offset preferred = None"
proof (cases "restart_scan m eidx areasize incr offset preferred")
  case (Some r)
  from restart_scan_cases [OF this] show ?thesis using assms by auto
qed

lemma restart_scan_returns: "\<exists>r. restart_scan m eidx areasize incr 0 preferred = Some r"
proof -
  have "\<exists>r. restart_scan m eidx areasize incr 0 0 = Some r"
    by (subst restart_scan.simps) (auto split: option.split)
  then show ?thesis by (subst restart_scan.simps) (auto split: option.split)
qed

subsection \<open>What is handed out\<close>

definition page_of :: "bootmem_data \<Rightarrow> nat \<Rightarrow> nat" where
  "page_of bdata b = (b - node_boot_start bdata) div PAGE_SIZE"

definition node_pages :: "bootmem_data \<Rightarrow> nat" where
  "node_pages bdata = node_low_pfn bdata - node_boot_start bdata div PAGE_SIZE"

definition bm_wf :: "bootmem_data \<Rightarrow> bool" where
  "bm_wf bdata \<longleftrightarrow> node_boot_start bdata mod PAGE_SIZE = 0 \<and> last_offset bdata < PAGE_SIZE \<and>
     (last_offset bdata \<noteq> 0 \<longrightarrow> node_bootmem_map bdata (last_pos bdata))"

text \<open>
  \<open>handed_out bdata addr sz bdata'\<close>: every byte from \<open>addr\<close> on is in a page of the node that was free,
  or behind the last allocation in its last page; its page is now reserved; no page became free, and
  the pages reserved are those of the node; and if the block ends inside a page, the allocator
  remembers its end.
\<close>

definition handed_out :: "bootmem_data \<Rightarrow> nat \<Rightarrow> nat \<Rightarrow> bootmem_data \<Rightarrow> bool" where
  "handed_out bdata addr sz bdata' \<longleftrightarrow>
     node_boot_start bdata \<le> addr \<and>
     (\<forall>b. addr \<le> b \<and> b < addr + sz \<longrightarrow>
        page_of bdata b < node_pages bdata \<and> node_bootmem_map bdata' (page_of bdata b) \<and>
        (\<not> node_bootmem_map bdata (page_of bdata b) \<or>
         page_of bdata b = last_pos bdata \<and> last_offset bdata \<noteq> 0 \<and>
           last_offset bdata \<le> (b - node_boot_start bdata) mod PAGE_SIZE)) \<and>
     (\<forall>p. node_bootmem_map bdata p \<longrightarrow> node_bootmem_map bdata' p) \<and>
     (\<forall>p. node_bootmem_map bdata' p \<and> \<not> node_bootmem_map bdata p \<longrightarrow> p < node_pages bdata) \<and>
     (last_offset bdata' \<noteq> 0 \<longrightarrow> node_boot_start bdata + last_pos bdata' * PAGE_SIZE + last_offset bdata' = addr + sz) \<and>
     node_boot_start bdata' = node_boot_start bdata \<and> node_low_pfn bdata' = node_low_pfn bdata"

lemma free_run_iff:
  "free_run m eidx n s \<longleftrightarrow> \<not> m s \<and> (\<forall>j. s < j \<and> j < s + n \<longrightarrow> j < eidx \<and> \<not> m j)"
  by (auto simp: free_run_def list_all_iff)

lemma areasize_bounds:
  "sz \<le> (sz + PAGE_SIZE - 1) div PAGE_SIZE * PAGE_SIZE" "0 < sz \<Longrightarrow> 0 < (sz + PAGE_SIZE - 1) div PAGE_SIZE"
  by (simp_all add: kdefs)

lemma align_up_bounds:
  assumes "0 < align" "lo \<le> M" "align dvd M"
  shows "lo \<le> align_down (lo + align - 1) align" "align_down (lo + align - 1) align \<le> M"
    "align dvd align_down (lo + align - 1) align"
proof -
  obtain q where q: "M = q * align" using assms(3) by (auto simp: dvd_def mult.commute)
  let ?d = "(lo + align - 1) div align"
  have "?d * align + (lo + align - 1) mod align = lo + align - 1" by simp
  moreover have "(lo + align - 1) mod align < align" using assms(1) by simp
  ultimately have "lo \<le> ?d * align" using assms(1) by linarith
  then show "lo \<le> align_down (lo + align - 1) align" using assms(1) unfolding align_down_def by simp
  have "lo + align - 1 < (q + 1) * align" using assms(1,2) q by (simp add: algebra_simps)
  then have "?d < q + 1" using assms(1) by (simp add: div_less_iff_less_mult)
  then show "align_down (lo + align - 1) align \<le> M" using q assms(1) by (simp add: align_down_def)
  show "align dvd align_down (lo + align - 1) align" by (simp add: align_down_def)
qed

text \<open>A range of bytes and the pages it lies in.\<close>

lemma page_in_run:
  assumes "s * PAGE_SIZE \<le> x" "x < s * PAGE_SIZE + sz" "sz \<le> n * PAGE_SIZE"
  shows "s \<le> x div PAGE_SIZE" "x div PAGE_SIZE < s + n"
proof -
  show "s \<le> x div PAGE_SIZE" using div_le_mono [OF assms(1), of PAGE_SIZE] by (simp add: kdefs)
  have "x < (s + n) * PAGE_SIZE" using assms(2,3) by (simp add: algebra_simps)
  then show "x div PAGE_SIZE < s + n" by (simp add: kdefs div_less_iff_less_mult)
qed

lemma end_of_run:
  assumes "x mod PAGE_SIZE \<noteq> 0"
  shows "(s + (x + PAGE_SIZE - 1) div PAGE_SIZE - 1) * PAGE_SIZE + x mod PAGE_SIZE = s * PAGE_SIZE + x"
proof -
  have "(x + PAGE_SIZE - 1) div PAGE_SIZE = x div PAGE_SIZE + 1"
  proof -
    define q r where "q = x div 4096" and "r = x mod 4096"
    have "x = 4096 * q + r" "r < 4096" "0 < r" using assms by (simp_all add: q_def r_def kdefs)
    then show ?thesis unfolding PAGE_SIZE_def q_def [symmetric] by (intro div_nat_eqI) simp_all
  qed
  moreover have "(s + (x div PAGE_SIZE + 1) - 1) * PAGE_SIZE = s * PAGE_SIZE + x div PAGE_SIZE * PAGE_SIZE"
    by (simp add: add_mult_distrib)
  ultimately show ?thesis using div_mult_mod_eq [of x PAGE_SIZE] by (metis add.assoc)
qed

lemma take_fresh:
  assumes wf: "bm_wf bdata" and sz: "0 < sz"
    and s: "s < node_pages bdata" "free_run (node_bootmem_map bdata) (node_pages bdata) ((sz + PAGE_SIZE - 1) div PAGE_SIZE) s"
    and nm: "\<not> (align \<le> PAGE_SIZE \<and> last_offset bdata \<noteq> 0 \<and> last_pos bdata + 1 = s)"
  shows "\<exists>bdata'. take_found bdata sz align s = Ok (s * PAGE_SIZE + node_boot_start bdata, bdata') \<and>
    bm_wf bdata' \<and> handed_out bdata (s * PAGE_SIZE + node_boot_start bdata) sz bdata'"
proof -
  let ?n = "(sz + PAGE_SIZE - 1) div PAGE_SIZE" and ?m = "node_bootmem_map bdata"
  let ?b = "bdata\<lparr>last_pos := s + ?n - 1, last_offset := sz mod PAGE_SIZE,
      node_bootmem_map := set_bits s (s + ?n) True ?m\<rparr>"
  have n: "0 < ?n" "sz \<le> ?n * PAGE_SIZE" using areasize_bounds sz by simp_all
  have free: "\<not> ?m p" "p < node_pages bdata" if "s \<le> p" "p < s + ?n" for p
    using s that unfolding free_run_iff by (metis le_neq_implies_less)+
  have t: "take_found bdata sz align s = Ok (s * PAGE_SIZE + node_boot_start bdata, ?b)"
    using nm free(1) unfolding take_found_def Let_def by auto
  have "s * PAGE_SIZE \<le> b - node_boot_start bdata" "b - node_boot_start bdata < s * PAGE_SIZE + sz"
    if "s * PAGE_SIZE + node_boot_start bdata \<le> b" "b < s * PAGE_SIZE + node_boot_start bdata + sz" for b
    using that by linarith+
  note pr = page_in_run [OF this n(2)]
  have "handed_out bdata (s * PAGE_SIZE + node_boot_start bdata) sz ?b"
    unfolding handed_out_def page_of_def using pr free end_of_run [of sz s] by (auto simp: set_bits_def)
  moreover have "bm_wf ?b" using wf n by (auto simp: bm_wf_def set_bits_def kdefs)
  ultimately show ?thesis using t by blast
qed

lemma take_merged:
  assumes wf: "bm_wf bdata" and sz: "0 < sz" and al: "0 < align" "align dvd PAGE_SIZE"
    and s: "s < node_pages bdata" "free_run (node_bootmem_map bdata) (node_pages bdata) ((sz + PAGE_SIZE - 1) div PAGE_SIZE) s"
    and m: "align \<le> PAGE_SIZE \<and> last_offset bdata \<noteq> 0 \<and> last_pos bdata + 1 = s"
  defines "at \<equiv> last_pos bdata * PAGE_SIZE + align_down (last_offset bdata + align - 1) align + node_boot_start bdata"
  shows "\<exists>bdata'. take_found bdata sz align s = Ok (at, bdata') \<and> bm_wf bdata' \<and> handed_out bdata at sz bdata'"
proof -
  let ?m = "node_bootmem_map bdata" and ?o = "align_down (last_offset bdata + align - 1) align"
  let ?P = PAGE_SIZE and ?lp = "last_pos bdata" and ?boot = "node_boot_start bdata"
  have o: "last_offset bdata \<le> ?o" "?o \<le> ?P"
    using align_up_bounds [OF al(1) _ al(2), of "last_offset bdata"] wf by (simp_all add: bm_wf_def)
  have lp: "?m ?lp" "?lp < node_pages bdata" using wf m s by (auto simp: bm_wf_def)
  define rem where "rem = ?P - ?o"
  define n where "n = (if sz < rem then 0 else (sz - rem + ?P - 1) div ?P)"
  let ?b = "(if sz < rem then bdata\<lparr>last_offset := (?o + sz) mod ?P\<rparr>
      else bdata\<lparr>last_pos := s + n - 1, last_offset := (sz - rem) mod ?P\<rparr>)
    \<lparr>node_bootmem_map := set_bits s (s + n) True ?m\<rparr>"
  have nle: "n \<le> (sz + ?P - 1) div ?P" unfolding n_def by (auto intro: div_le_mono)
  have ncov: "sz \<le> rem + n * ?P"
  proof (cases "sz < rem")
    case False
    then have "sz - rem \<le> n * ?P" using areasize_bounds(1) [of "sz - rem"] by (simp only: n_def if_False)
    then show ?thesis by linarith
  qed simp
  have free: "\<not> ?m p" "p < node_pages bdata" if "s \<le> p" "p < s + n" for p
    using s that nle unfolding free_run_iff by (metis le_neq_implies_less order_less_le_trans add_left_mono)+
  have t: "take_found bdata sz align s = Ok (at, ?b)"
    using m o free(1) unfolding take_found_def Let_def n_def at_def rem_def by (auto simp: not_less)
  have page: "x div ?P = ?lp \<and> last_offset bdata \<le> x mod ?P \<or> s \<le> x div ?P \<and> x div ?P < s + n"
    if "?lp * ?P + ?o \<le> x" "x < ?lp * ?P + ?o + sz" for x
  proof (cases "x < s * ?P")
    case True
    have "x div ?P = ?lp" by (rule div_nat_eqI) (use that True m in \<open>auto simp: algebra_simps kdefs\<close>)
    moreover have "?lp * ?P + x mod ?P = x" using \<open>x div ?P = ?lp\<close> by (metis div_mult_mod_eq)
    ultimately show ?thesis using that(1) o(1) by linarith
  next
    case False
    have "s * ?P = ?lp * ?P + ?P" using m by (metis add_mult_distrib mult_1)
    then have "x < s * ?P + n * ?P" using that(2) ncov o(2) unfolding rem_def by linarith
    then show ?thesis using page_in_run [of s x "n * ?P" n] False by simp
  qed
  have stop: "?boot + last_pos ?b * ?P + last_offset ?b = at + sz" if "last_offset ?b \<noteq> 0"
  proof (cases "sz < rem")
    case True
    then have "(?o + sz) mod ?P = ?o + sz" unfolding rem_def by simp
    then show ?thesis using True by (simp add: at_def)
  next
    case False
    have "s * ?P = ?lp * ?P + ?P" using m by (metis add_mult_distrib mult_1)
    moreover have "(s + n - 1) * ?P + (sz - rem) mod ?P = s * ?P + (sz - rem)"
      using end_of_run [of "sz - rem" s] that False by (simp add: n_def)
    ultimately show ?thesis using False o(2) unfolding at_def rem_def by simp
  qed
  have "handed_out bdata at sz ?b"
    unfolding handed_out_def
  proof (intro conjI allI impI)
    show "?boot + last_pos ?b * ?P + last_offset ?b = at + sz" if "last_offset ?b \<noteq> 0" by (rule stop [OF that])
    show "?boot \<le> at" by (simp add: at_def)
    fix b assume b: "at \<le> b \<and> b < at + sz"
    then have "?lp * ?P + ?o \<le> b - ?boot" "b - ?boot < ?lp * ?P + ?o + sz" unfolding at_def by linarith+
    from page [OF this] show "page_of bdata b < node_pages bdata" "node_bootmem_map ?b (page_of bdata b)"
      "\<not> ?m (page_of bdata b) \<or> page_of bdata b = ?lp \<and> last_offset bdata \<noteq> 0 \<and>
         last_offset bdata \<le> (b - ?boot) mod ?P"
      using lp free m unfolding page_of_def by (auto simp: set_bits_def)
  qed (use free in \<open>auto simp: set_bits_def split: if_splits\<close>)
  moreover have "bm_wf ?b"
    using wf lp m unfolding bm_wf_def n_def by (auto simp: set_bits_def kdefs)
  ultimately show ?thesis using t by blast
qed

lemma power_of_two_check: "(2 ^ k :: nat) AND (2 ^ k - 1) = 0"
proof -
  have "(2 ^ k :: nat) AND mask k = take_bit k (2 ^ k)" by (rule take_bit_eq_mask [symmetric])
  then show ?thesis by (simp add: mask_eq_exp_minus_1)
qed

lemma power_dvd_page: "(2 ^ k :: nat) \<le> PAGE_SIZE \<Longrightarrow> 2 ^ k dvd PAGE_SIZE"
  using power_le_imp_le_exp [of 2 k 12] by (auto simp: kdefs intro: le_imp_power_dvd [of k 12 2, simplified])

lemma page_dvd_power: "PAGE_SIZE < 2 ^ k \<Longrightarrow> PAGE_SIZE dvd 2 ^ k"
  using power_less_imp_less_exp [of "2 :: nat" 12 k] le_imp_power_dvd [of 12 k "2 :: nat"] by (simp add: kdefs)

text \<open>Where the scan looks, a start page is aligned as asked.\<close>

lemma start_aligned:
  assumes wf: "bm_wf bdata" and big: "PAGE_SIZE < 2 ^ k"
    and s: "s = p * (2 ^ k div PAGE_SIZE) + page_offset_for bdata (2 ^ k)"
  shows "2 ^ k dvd s * PAGE_SIZE + node_boot_start bdata"
proof -
  let ?A = "2 ^ k :: nat" and ?B = "node_boot_start bdata"
  have dA: "PAGE_SIZE dvd ?A" by (rule page_dvd_power [OF big])
  have dB: "PAGE_SIZE dvd ?B" using wf by (simp add: bm_wf_def dvd_eq_mod_eq_0)
  then have dm: "PAGE_SIZE dvd ?A - ?B mod ?A" using dA by (intro dvd_diff_nat) (simp_all add: dvd_mod_iff)
  have le: "?B mod ?A \<le> ?A" by (simp add: less_imp_le)
  have "page_offset_for bdata ?A * PAGE_SIZE = (if ?B mod ?A \<noteq> 0 then ?A - ?B mod ?A else 0)"
    using dm by (simp add: page_offset_for_def)
  then have "s * PAGE_SIZE + ?B = p * ?A + ((if ?B mod ?A \<noteq> 0 then ?A - ?B mod ?A else 0) + ?B)"
    using dA by (simp add: s algebra_simps)
  moreover have "?A dvd (if ?B mod ?A \<noteq> 0 then ?A - ?B mod ?A else 0) + ?B"
  proof -
    have "?A - ?B mod ?A + ?B = ?A * (1 + ?B div ?A)"
      using le mult_div_mod_eq [of ?A ?B] unfolding distrib_left mult_1_right by linarith
    then show ?thesis by (auto simp: dvd_eq_mod_eq_0)
  qed
  ultimately show ?thesis by (metis dvd_add dvd_triv_right)
qed

lemma preferred_form:
  assumes "PAGE_SIZE < 2 ^ k"
  shows "\<exists>p. preferred_page bdata (2 ^ k) goal = p * (2 ^ k div PAGE_SIZE) + page_offset_for bdata (2 ^ k)"
proof -
  let ?x = "(if goal \<noteq> 0 \<and> goal \<ge> node_boot_start bdata \<and> goal div PAGE_SIZE < node_low_pfn bdata
       then goal - node_boot_start bdata else 0) + 2 ^ k - 1"
  have "align_down ?x (2 ^ k) div PAGE_SIZE = (?x div 2 ^ k) * (2 ^ k div PAGE_SIZE)"
    using page_dvd_power [OF assms] by (simp add: align_down_def div_mult_swap)
  then show ?thesis unfolding preferred_page_def Let_def by auto
qed

lemma alloc_ok:
  assumes wf: "bm_wf bdata" and sz: "0 < sz"
    and r: "alloc_bootmem_core bdata sz (2 ^ k) goal = Some r"
  shows "(\<exists>addr bdata'. r = Ok (Some (addr, bdata')) \<and> addr mod 2 ^ k = 0 \<and>
      handed_out bdata addr sz bdata' \<and> bm_wf bdata') \<or>
    r = Ok None \<and> (\<forall>p. let i = page_offset_for bdata (2 ^ k) + p * max 1 (2 ^ k div PAGE_SIZE) in
      i < node_pages bdata \<longrightarrow>
        \<not> free_run (node_bootmem_map bdata) (node_pages bdata) ((sz + PAGE_SIZE - 1) div PAGE_SIZE) i)"
proof -
  let ?A = "2 ^ k :: nat" and ?m = "node_bootmem_map bdata" and ?e = "node_pages bdata"
  let ?n = "(sz + PAGE_SIZE - 1) div PAGE_SIZE" and ?off = "page_offset_for bdata (2 ^ k)"
  let ?incr = "if ?A div PAGE_SIZE \<noteq> 0 then ?A div PAGE_SIZE else 1"
  have inc: "max 1 ?incr = max 1 (?A div PAGE_SIZE)" by (simp add: max_def)
  obtain t where t: "restart_scan ?m ?e ?n ?incr ?off (preferred_page bdata ?A goal) = Some t"
    and rt: "r = (case t of None \<Rightarrow> Ok None | Some s \<Rightarrow> if s \<ge> ?e then Bug
       else case take_found bdata sz ?A s of Bug \<Rightarrow> Bug | Ok x \<Rightarrow> Ok (Some x))"
    using r sz unfolding alloc_bootmem_core_def Let_def power_of_two_check node_pages_def
    by (auto split: option.splits if_splits)
  note cases = restart_scan_cases [OF t]
  show ?thesis
  proof (cases t)
    case None
    have "preferred_page bdata ?A goal = 0 \<Longrightarrow> ?off = 0" by (simp add: preferred_page_def Let_def)
    then have "scan ?m ?e ?n ?incr ?off = None" using cases None by auto
    then show ?thesis using None rt unfolding scan_None inc Let_def by (auto simp: add.commute)
  next
    case (Some s)
    then have sc: "scan ?m ?e ?n ?incr (preferred_page bdata ?A goal) = Some s \<or> scan ?m ?e ?n ?incr ?off = Some s"
      using cases by auto
    then have s: "s < ?e" "free_run ?m ?e ?n s" using scan_Some by blast+
    have big: "?A dvd s * PAGE_SIZE + node_boot_start bdata"
    proof (cases "PAGE_SIZE < ?A")
      case True
      then have i: "max 1 ?incr = ?A div PAGE_SIZE" by (simp add: kdefs div_greater_zero_iff max_def)
      obtain p where "preferred_page bdata ?A goal = p * (?A div PAGE_SIZE) + ?off" using preferred_form [OF True] by blast
      moreover obtain c where "s = preferred_page bdata ?A goal + c * (?A div PAGE_SIZE) \<or> s = ?off + c * (?A div PAGE_SIZE)"
        using sc scan_Some [of ?m ?e ?n ?incr _ s] unfolding i by blast
      ultimately have "s = (p + c) * (?A div PAGE_SIZE) + ?off \<or> s = c * (?A div PAGE_SIZE) + ?off"
        by (simp only: algebra_simps)
      then show ?thesis using start_aligned [OF wf True] by blast
    next
      case False
      then have "?A dvd PAGE_SIZE" using power_dvd_page by simp
      moreover have "PAGE_SIZE dvd s * PAGE_SIZE + node_boot_start bdata" using wf by (simp add: bm_wf_def dvd_eq_mod_eq_0)
      ultimately show ?thesis by (rule dvd_trans)
    qed
    have "\<exists>addr bdata'. take_found bdata sz ?A s = Ok (addr, bdata') \<and> ?A dvd addr \<and>
        bm_wf bdata' \<and> handed_out bdata addr sz bdata'"
    proof (cases "?A \<le> PAGE_SIZE \<and> last_offset bdata \<noteq> 0 \<and> last_pos bdata + 1 = s")
      case True
      then have d: "?A dvd PAGE_SIZE" "PAGE_SIZE dvd node_boot_start bdata"
        using power_dvd_page wf by (simp_all add: bm_wf_def dvd_eq_mod_eq_0)
      have "?A dvd last_pos bdata * PAGE_SIZE + align_down (last_offset bdata + ?A - 1) ?A + node_boot_start bdata"
        using dvd_trans [OF d] d(1) by (simp add: align_down_def)
      then show ?thesis using take_merged [OF wf sz _ d(1) s True] by auto
    next
      case False
      then show ?thesis using take_fresh [OF wf sz s] big by blast
    qed
    then show ?thesis using rt Some s(1) by (auto simp: dvd_eq_mod_eq_0)
  qed
qed


text \<open>
  The call returns if the start of the node is aligned as asked, whatever the map and the goal.
\<close>

theorem alloc_bootmem_returns:
  assumes "node_boot_start bdata mod 2 ^ k = 0"
  shows "\<exists>r. alloc_bootmem_core bdata sz (2 ^ k) goal = Some r"
proof -
  have o: "page_offset_for bdata (2 ^ k) = 0" using assms by (simp add: page_offset_for_def)
  obtain t where t: "restart_scan (node_bootmem_map bdata) (node_low_pfn bdata - node_boot_start bdata div PAGE_SIZE)
      ((sz + PAGE_SIZE - 1) div PAGE_SIZE) (if 2 ^ k div PAGE_SIZE \<noteq> 0 then 2 ^ k div PAGE_SIZE else 1) 0
      (preferred_page bdata (2 ^ k) goal) = Some t"
    using restart_scan_returns by blast
  show ?thesis unfolding alloc_bootmem_core_def Let_def o t by (cases t) auto
qed

text \<open>
  It does not return if the node starts off the alignment by a page or more and no aligned place
  has room: the second scan starts at the offset, which is not 0, so that its failure starts it again.
\<close>

theorem alloc_bootmem_loops:
  assumes "0 < sz" "page_offset_for bdata (2 ^ k) \<noteq> 0" "\<forall>i. node_bootmem_map bdata i"
  shows "alloc_bootmem_core bdata sz (2 ^ k) goal = None"
proof -
  have "scan (node_bootmem_map bdata) e n incr i = None" for e n incr i
    using assms(3) by (simp add: scan_None free_run_iff)
  moreover have "preferred_page bdata (2 ^ k) goal \<noteq> 0" using assms(2) by (simp add: preferred_page_def Let_def)
  ultimately show ?thesis
    using assms unfolding alloc_bootmem_core_def Let_def power_of_two_check
    by (simp add: restart_scan_diverges)
qed

subsection \<open>Reserving and freeing\<close>

lemma usub_exact: "b \<le> a \<Longrightarrow> a < 2 ^ 32 \<Longrightarrow> usub a b = a - b"
proof -
  assume "b \<le> a" "a < 2 ^ 32"
  then have "a + 2 ^ 32 - b = (a - b) + 2 ^ 32" "a - b < 2 ^ 32" by linarith+
  then show ?thesis unfolding usub_def by (simp only: mod_add_self2 mod_less)
qed

lemma touched_pages:
  assumes "0 < sz"
  shows "a div PAGE_SIZE \<le> p \<and> p < (a + sz + PAGE_SIZE - 1) div PAGE_SIZE \<longleftrightarrow>
    (\<exists>x. a \<le> x \<and> x < a + sz \<and> x div PAGE_SIZE = p)" (is "?l \<longleftrightarrow> ?r")
proof
  assume l: ?l
  then have "p * PAGE_SIZE < a + sz" by (simp add: kdefs) linarith
  moreover have "a < (p + 1) * PAGE_SIZE" using l by (simp add: kdefs) linarith
  ultimately have "a \<le> max a (p * PAGE_SIZE) \<and> max a (p * PAGE_SIZE) < a + sz \<and> max a (p * PAGE_SIZE) div PAGE_SIZE = p"
    using assms by (auto simp: max_def kdefs)
  then show ?r by blast
next
  assume ?r
  then show ?l by (auto simp: kdefs)
qed

lemma covered_pages:
  "(a + PAGE_SIZE - 1) div PAGE_SIZE \<le> p \<and> p < (a + sz) div PAGE_SIZE \<longleftrightarrow>
   a \<le> p * PAGE_SIZE \<and> (p + 1) * PAGE_SIZE \<le> a + sz"
  by (auto simp: kdefs)

text \<open>A range in the node, below 2^32, and the page indices that the two functions compute for it.\<close>

lemma range_indices:
  assumes "node_boot_start bdata mod PAGE_SIZE = 0" "node_boot_start bdata \<le> addr" "0 < sz"
    and "addr + sz + PAGE_SIZE - 1 < 2 ^ 32"
  shows "usub addr (node_boot_start bdata) div PAGE_SIZE \<le> p \<and>
      p < usub (addr + sz + PAGE_SIZE - 1) (node_boot_start bdata) div PAGE_SIZE \<longleftrightarrow>
      (\<exists>b. addr \<le> b \<and> b < addr + sz \<and> page_of bdata b = p)" (is "?r1 \<longleftrightarrow> ?r2")
    and "usub ((addr + PAGE_SIZE - 1) div PAGE_SIZE) (node_boot_start bdata div PAGE_SIZE) \<le> p \<and>
      p < usub (addr + sz) (node_boot_start bdata) div PAGE_SIZE \<longleftrightarrow>
      addr \<le> node_boot_start bdata + p * PAGE_SIZE \<and> node_boot_start bdata + (p + 1) * PAGE_SIZE \<le> addr + sz" (is "?f1 \<longleftrightarrow> ?f2")
proof -
  let ?B = "node_boot_start bdata"
  define a where "a = addr - ?B"
  have ad: "addr = ?B + a" using assms(2) by (simp add: a_def)
  obtain q where q: "?B = q * PAGE_SIZE" using assms(1) by (metis mod_eq_0_iff_dvd dvdE mult.commute)
  have u: "usub addr ?B = a" "usub (addr + sz + PAGE_SIZE - 1) ?B = a + sz + PAGE_SIZE - 1"
      "usub (addr + sz) ?B = a + sz"
    using assms(2,4) by (simp_all add: usub_exact a_def kdefs)
  have st: "(addr + PAGE_SIZE - 1) div PAGE_SIZE = q + (a + PAGE_SIZE - 1) div PAGE_SIZE" "?B div PAGE_SIZE = q"
    unfolding ad q by (simp_all add: kdefs)
  have "q + (a + PAGE_SIZE - 1) div PAGE_SIZE < 2 ^ 32"
    using assms(4) unfolding st(1) [symmetric] by (simp add: kdefs)
  then have us: "usub ((addr + PAGE_SIZE - 1) div PAGE_SIZE) (?B div PAGE_SIZE) = (a + PAGE_SIZE - 1) div PAGE_SIZE"
    unfolding st by (simp add: usub_exact)
  have "?r2 \<longleftrightarrow> (\<exists>x. a \<le> x \<and> x < a + sz \<and> x div PAGE_SIZE = p)"
  proof
    assume ?r2
    then obtain b where "addr \<le> b" "b < addr + sz" "(b - ?B) div PAGE_SIZE = p" by (auto simp: page_of_def)
    then show "\<exists>x. a \<le> x \<and> x < a + sz \<and> x div PAGE_SIZE = p" using ad by (intro exI [of _ "b - ?B"]) auto
  next
    assume "\<exists>x. a \<le> x \<and> x < a + sz \<and> x div PAGE_SIZE = p"
    then obtain x where "a \<le> x" "x < a + sz" "x div PAGE_SIZE = p" by blast
    then show ?r2 using ad by (intro exI [of _ "?B + x"]) (auto simp: page_of_def)
  qed
  then show "?r1 \<longleftrightarrow> ?r2" unfolding u touched_pages [OF assms(3), symmetric] by blast
  have "?f1 \<longleftrightarrow> a \<le> p * PAGE_SIZE \<and> (p + 1) * PAGE_SIZE \<le> a + sz" unfolding u us covered_pages ..
  moreover have "?f2 \<longleftrightarrow> a \<le> p * PAGE_SIZE \<and> (p + 1) * PAGE_SIZE \<le> a + sz" unfolding ad by simp
  ultimately show "?f1 \<longleftrightarrow> ?f2" by (simp only:)
qed

lemma reserve_ok:
  assumes "node_boot_start bdata mod PAGE_SIZE = 0" "node_boot_start bdata \<le> addr" "0 < sz"
    and "addr + sz + PAGE_SIZE - 1 < 2 ^ 32" "(addr + sz + PAGE_SIZE - 1) div PAGE_SIZE \<le> node_low_pfn bdata"
  shows "reserve_bootmem_core bdata addr sz = Ok (bdata\<lparr>node_bootmem_map := \<lambda>p. node_bootmem_map bdata p \<or>
    (\<exists>b. addr \<le> b \<and> b < addr + sz \<and> page_of bdata b = p)\<rparr>)"
proof -
  let ?m = "node_bootmem_map bdata"
  note r = range_indices(1) [OF assms(1-4)]
  have "addr \<le> addr \<and> addr < addr + sz \<and> page_of bdata addr = page_of bdata addr" using assms(3) by simp
  then have nb: "\<not> usub addr (node_boot_start bdata) div PAGE_SIZE \<ge> usub (addr + sz + PAGE_SIZE - 1) (node_boot_start bdata) div PAGE_SIZE"
    using r [of "page_of bdata addr"] by (metis leD le_trans)
  have "addr div PAGE_SIZE < node_low_pfn bdata" using assms(3,5) by (simp add: kdefs)
  moreover have "set_bits (usub addr (node_boot_start bdata) div PAGE_SIZE)
      (usub (addr + sz + PAGE_SIZE - 1) (node_boot_start bdata) div PAGE_SIZE) True ?m =
    (\<lambda>p. ?m p \<or> (\<exists>b. addr \<le> b \<and> b < addr + sz \<and> page_of bdata b = p))"
    unfolding set_bits_def r by auto
  ultimately show ?thesis using assms(3,5) nb unfolding reserve_bootmem_core_def Let_def by simp
qed

lemma free_ok:
  assumes "node_boot_start bdata mod PAGE_SIZE = 0" "node_boot_start bdata \<le> addr" "0 < sz"
    and "addr + sz + PAGE_SIZE - 1 < 2 ^ 32" "(addr + sz + PAGE_SIZE - 1) div PAGE_SIZE \<le> node_low_pfn bdata"
  shows "free_bootmem_core bdata addr sz =
    (if \<forall>p. addr \<le> node_boot_start bdata + p * PAGE_SIZE \<and> node_boot_start bdata + (p + 1) * PAGE_SIZE \<le> addr + sz \<longrightarrow>
       node_bootmem_map bdata p
     then Ok (bdata\<lparr>node_bootmem_map := \<lambda>p. node_bootmem_map bdata p \<and> \<not> (addr \<le> node_boot_start bdata + p * PAGE_SIZE \<and>
       node_boot_start bdata + (p + 1) * PAGE_SIZE \<le> addr + sz)\<rparr>) else Bug)"
proof -
  note f = range_indices(2) [OF assms(1-4)]
  have "(addr + sz) div PAGE_SIZE \<le> node_low_pfn bdata" using assms(3,5) by (simp add: kdefs)
  moreover have "set_bits (usub ((addr + PAGE_SIZE - 1) div PAGE_SIZE) (node_boot_start bdata div PAGE_SIZE))
      (usub (addr + sz) (node_boot_start bdata) div PAGE_SIZE) False (node_bootmem_map bdata) =
    (\<lambda>p. node_bootmem_map bdata p \<and> \<not> (addr \<le> node_boot_start bdata + p * PAGE_SIZE \<and>
       node_boot_start bdata + (p + 1) * PAGE_SIZE \<le> addr + sz))"
    unfolding set_bits_def f by auto
  moreover have "(\<exists>i \<in> {usub ((addr + PAGE_SIZE - 1) div PAGE_SIZE) (node_boot_start bdata div PAGE_SIZE) ..<
        usub (addr + sz) (node_boot_start bdata) div PAGE_SIZE}. \<not> node_bootmem_map bdata i) \<longleftrightarrow>
      \<not> (\<forall>p. addr \<le> node_boot_start bdata + p * PAGE_SIZE \<and> node_boot_start bdata + (p + 1) * PAGE_SIZE \<le> addr + sz \<longrightarrow>
       node_bootmem_map bdata p)"
    unfolding f [symmetric] by auto
  ultimately show ?thesis using assms(3) unfolding free_bootmem_core_def Let_def by (simp only: if_False if_True not_not) simp
qed

text \<open>
  On a range in the node (no wrap-around), \<open>reserve_bootmem_core\<close> reserves exactly the pages the
  range touches in addition to those reserved, and \<open>free_bootmem_core\<close> frees exactly the pages that
  lie in the range as a whole, provided they were reserved.
\<close>

theorem reserve_free_bootmem_correct:
  assumes "node_boot_start bdata mod PAGE_SIZE = 0" "node_boot_start bdata \<le> addr" "0 < sz"
    and "addr + sz + PAGE_SIZE - 1 < 2 ^ 32" "(addr + sz + PAGE_SIZE - 1) div PAGE_SIZE \<le> node_low_pfn bdata"
    and "\<forall>p. addr \<le> node_boot_start bdata + p * PAGE_SIZE \<and>
        node_boot_start bdata + (p + 1) * PAGE_SIZE \<le> addr + sz \<longrightarrow> node_bootmem_map bdata p"
  shows "\<exists>b1 b2. reserve_bootmem_core bdata addr sz = Ok b1 \<and>
      (\<forall>p. node_bootmem_map b1 p \<longleftrightarrow>
         node_bootmem_map bdata p \<or> (\<exists>b. addr \<le> b \<and> b < addr + sz \<and> page_of bdata b = p)) \<and>
    free_bootmem_core bdata addr sz = Ok b2 \<and>
      (\<forall>p. node_bootmem_map b2 p \<longleftrightarrow>
         node_bootmem_map bdata p \<and> \<not> (addr \<le> node_boot_start bdata + p * PAGE_SIZE \<and>
           node_boot_start bdata + (p + 1) * PAGE_SIZE \<le> addr + sz))"
  using reserve_ok [OF assms(1-5)] free_ok [OF assms(1-5)] assms(6) by simp

lemma ceil_page: "x \<le> 4096 \<Longrightarrow> (4096 * q + x + 4095) div 4096 = q + (if x = 0 then 0 else 1 :: nat)"
  by (cases "x = 0") (auto intro!: div_nat_eqI)

lemma map_pages:
  "(n div 8 + PAGE_SIZE - 1) div PAGE_SIZE + (if n mod 32768 \<in> {1..7} then 1 else 0) = bootmem_bootmap_pages n"
proof -
  define q r where "q = n div 32768" and "r = n mod 32768"
  have n: "n = 8 * (4096 * q) + r" and r: "r < 32768" by (simp_all add: q_def r_def)
  have d: "n div 8 = 4096 * q + r div 8" "(n + 7) div 8 = 4096 * q + (r + 7) div 8"
    unfolding n by (simp_all add: add.assoc)
  have "r div 8 \<le> 4096" "(r + 7) div 8 \<le> 4096" using r by simp_all
  note c = this [THEN ceil_page, of q]
  have "bootmem_bootmap_pages n = q + (if (r + 7) div 8 = 0 then 0 else 1)"
    using c(2) by (simp add: bootmem_bootmap_pages_def align_down_def kdefs d)
  moreover have "(n div 8 + PAGE_SIZE - 1) div PAGE_SIZE = q + (if r div 8 = 0 then 0 else 1)"
    using c(1) by (simp add: kdefs d)
  moreover have "(r + 7) div 8 = 0 \<longleftrightarrow> r = 0" "r div 8 = 0 \<longleftrightarrow> r < 8" by (simp_all add: div_eq_0_iff)
  ultimately show ?thesis unfolding r_def [symmetric] by auto
qed

text \<open>
  Handing over: the pages of the node that are free are given up, each once, and then the pages of
  the map; of the pages \<open>bootmem_bootmap_pages\<close> reports for the map, exactly one is kept for ever
  when the number of pages is 1 to 7 above a multiple of 32768 (the map's bytes are rounded down).
\<close>

theorem free_all_bootmem_count:
  shows "fst (free_all_bootmem_core bdata) + (if node_pages bdata mod 32768 \<in> {1..7} then 1 else 0) =
      card {p. p < node_pages bdata \<and> \<not> node_bootmem_map bdata p} + bootmem_bootmap_pages (node_pages bdata) \<and>
    distinct (snd (free_all_bootmem_core bdata)) \<and>
    set (snd (free_all_bootmem_core bdata)) = {p. p < node_pages bdata \<and> \<not> node_bootmem_map bdata p}"
proof -
  let ?n = "node_pages bdata"
  have f: "set (filter (\<lambda>i. \<not> node_bootmem_map bdata i) [0 ..< ?n]) = {p. p < ?n \<and> \<not> node_bootmem_map bdata p}"
    by auto
  then have "length (filter (\<lambda>i. \<not> node_bootmem_map bdata i) [0 ..< ?n]) = card {p. p < ?n \<and> \<not> node_bootmem_map bdata p}"
    by (metis distinct_card distinct_filter distinct_upt)
  moreover note map_pages [of ?n]
  ultimately show ?thesis
    using f by (simp add: free_all_bootmem_core_def node_pages_def Let_def)
qed

subsection \<open>A whole boot\<close>

text \<open>
  The life of a node: the map starts all reserved, the usable ranges of memory are registered by
  freeing them before anything is allocated, and then blocks are allocated, reserved (in pages that
  are not in use) and given back.  \<open>in_use\<close> holds the ranges that are in use.
\<close>

record boot_sys =
  bd :: bootmem_data
  in_use :: "(nat \<times> nat) set"

definition bytes_of :: "nat \<times> nat \<Rightarrow> nat set" where
  "bytes_of r = {fst r ..< fst r + snd r}"

definition in_node :: "bootmem_data \<Rightarrow> nat \<Rightarrow> nat \<Rightarrow> bool" where
  "in_node bdata addr sz \<longleftrightarrow> 0 < sz \<and> node_boot_start bdata \<le> addr \<and> addr + sz \<le> node_low_pfn bdata * PAGE_SIZE"

definition boot_start :: "boot_sys \<Rightarrow> bool" where
  "boot_start s \<longleftrightarrow> (\<exists>start end_pfn bdata. end_pfn < 2 ^ 20 \<and> last_offset bdata = 0 \<and>
     s = \<lparr>bd = snd (init_bootmem_core start end_pfn bdata), in_use = {}\<rparr>)"

inductive boot_step :: "boot_sys \<Rightarrow> boot_sys \<Rightarrow> bool" where
  register: "free_bootmem_core (bd s) addr sz = Ok b \<Longrightarrow> in_node (bd s) addr sz \<Longrightarrow> in_use s = {} \<Longrightarrow>
    last_offset (bd s) = 0 \<Longrightarrow> boot_step s (s\<lparr>bd := b\<rparr>)"
| alloc: "alloc_bootmem_core (bd s) sz (2 ^ k) goal = Some (Ok (Some (addr, b))) \<Longrightarrow> 0 < sz \<Longrightarrow>
    boot_step s \<lparr>bd = b, in_use = insert (addr, sz) (in_use s)\<rparr>"
| reserve: "reserve_bootmem_core (bd s) addr sz = Ok b \<Longrightarrow> in_node (bd s) addr sz \<Longrightarrow>
    \<forall>x \<in> bytes_of (addr, sz). \<not> node_bootmem_map (bd s) (page_of (bd s) x) \<Longrightarrow>
    boot_step s \<lparr>bd = b, in_use = insert (addr, sz) (in_use s)\<rparr>"
| release: "free_bootmem_core (bd s) addr sz = Ok b \<Longrightarrow> (addr, sz) \<in> in_use s \<Longrightarrow>
    boot_step s \<lparr>bd = b, in_use = in_use s - {(addr, sz)}\<rparr>"

text \<open>The bytes behind the last allocation in its last page.\<close>

definition in_tail :: "bootmem_data \<Rightarrow> nat \<Rightarrow> bool" where
  "in_tail bdata b \<longleftrightarrow> page_of bdata b = last_pos bdata \<and> last_offset bdata \<noteq> 0 \<and>
     last_offset bdata \<le> (b - node_boot_start bdata) mod PAGE_SIZE"

definition block_ok :: "bootmem_data \<Rightarrow> nat \<times> nat \<Rightarrow> bool" where
  "block_ok bdata r \<longleftrightarrow> in_node bdata (fst r) (snd r) \<and>
     (\<forall>b \<in> bytes_of r. node_bootmem_map bdata (page_of bdata b) \<and> \<not> in_tail bdata b)"

definition boot_inv :: "boot_sys \<Rightarrow> bool" where
  "boot_inv s \<longleftrightarrow> bm_wf (bd s) \<and> node_low_pfn (bd s) < 2 ^ 20 \<and> (\<forall>r \<in> in_use s. block_ok (bd s) r) \<and>
     pairwise (\<lambda>r q. bytes_of r \<inter> bytes_of q = {}) (in_use s)"

lemma in_node_pages:
  assumes "in_node bdata addr sz" "b \<in> bytes_of (addr, sz)" "bm_wf bdata"
  shows "page_of bdata b < node_pages bdata"
proof -
  obtain q where q: "node_boot_start bdata = q * PAGE_SIZE"
    using assms(3) by (metis bm_wf_def mod_eq_0_iff_dvd dvdE mult.commute)
  have "b < node_low_pfn bdata * PAGE_SIZE" "q * PAGE_SIZE \<le> b" using assms(1,2) q by (auto simp: in_node_def bytes_of_def)
  then have "b - q * PAGE_SIZE < (node_low_pfn bdata - q) * PAGE_SIZE" unfolding diff_mult_distrib by (rule diff_less_mono)
  then show ?thesis unfolding page_of_def node_pages_def q by (simp add: kdefs div_less_iff_less_mult)
qed

lemma in_node_facts:
  assumes "in_node bdata addr sz" "bm_wf bdata" "node_low_pfn bdata < 2 ^ 20"
  shows "node_boot_start bdata mod PAGE_SIZE = 0" "node_boot_start bdata \<le> addr" "0 < sz" "addr + sz + PAGE_SIZE - 1 < 2 ^ 32"
    "(addr + sz + PAGE_SIZE - 1) div PAGE_SIZE \<le> node_low_pfn bdata"
  using assms by (auto simp: in_node_def bm_wf_def kdefs)

text \<open>A byte in a page, and a page that lies in a range as a whole.\<close>

lemma page_byte:
  assumes "node_boot_start bdata \<le> b"
  shows "b = node_boot_start bdata + page_of bdata b * PAGE_SIZE + (b - node_boot_start bdata) mod PAGE_SIZE"
  using assms div_mult_mod_eq [of "b - node_boot_start bdata" PAGE_SIZE] by (simp add: page_of_def)

lemma page_of_at: "d < PAGE_SIZE \<Longrightarrow> page_of bdata (node_boot_start bdata + p * PAGE_SIZE + d) = p \<and>
    (node_boot_start bdata + p * PAGE_SIZE + d - node_boot_start bdata) mod PAGE_SIZE = d"
  by (simp add: page_of_def kdefs)

lemma handed_out_ok:
  assumes h: "handed_out bdata addr sz b" and sz: "0 < sz" and wf: "bm_wf bdata" "bm_wf b"
  shows "block_ok b (addr, sz)"
    and "block_ok bdata r \<Longrightarrow> bytes_of r \<inter> bytes_of (addr, sz) = {} \<and> block_ok b r"
proof -
  let ?B = "node_boot_start bdata"
  have B: "?B \<le> addr" "node_boot_start b = ?B" "node_low_pfn b = node_low_pfn bdata" using h by (auto simp: handed_out_def)
  have pg: "page_of b x = page_of bdata x" for x by (simp add: page_of_def B)
  have new: "page_of bdata x < node_pages bdata" "node_bootmem_map b (page_of bdata x)"
      "\<not> node_bootmem_map bdata (page_of bdata x) \<or> in_tail bdata x" if "x \<in> bytes_of (addr, sz)" for x
    using h that by (auto simp: handed_out_def bytes_of_def in_tail_def)
  have mono: "node_bootmem_map b p" if "node_bootmem_map bdata p" for p using h that by (auto simp: handed_out_def)
  have stop: "?B + last_pos b * PAGE_SIZE + last_offset b = addr + sz" if "last_offset b \<noteq> 0" using h that by (auto simp: handed_out_def)
  have tail: "addr + sz \<le> x \<and> page_of bdata x = page_of bdata (addr + sz - 1) \<and>
      (addr + sz - 1 - ?B) mod PAGE_SIZE \<le> (x - ?B) mod PAGE_SIZE" if "in_tail b x" "?B \<le> x" for x
  proof -
    have t: "page_of bdata x = last_pos b" "last_offset b \<noteq> 0" "last_offset b \<le> (x - ?B) mod PAGE_SIZE"
      using that(1) B pg by (auto simp: in_tail_def)
    have "x = ?B + last_pos b * PAGE_SIZE + (x - ?B) mod PAGE_SIZE" using page_byte [OF that(2)] t(1) by simp
    then have "addr + sz \<le> x" using t(3) stop [OF t(2)] by linarith
    moreover have "addr + sz - 1 = ?B + last_pos b * PAGE_SIZE + (last_offset b - 1)" using stop [OF t(2)] t(2) by linarith
    moreover have "last_offset b - 1 < PAGE_SIZE" using wf(2) by (auto simp: bm_wf_def)
    ultimately show ?thesis using page_of_at [of "last_offset b - 1" bdata "last_pos b"] t by auto
  qed
  have last: "addr + sz - 1 \<in> bytes_of (addr, sz)" using sz by (simp add: bytes_of_def)
  have "addr + sz \<le> node_low_pfn bdata * PAGE_SIZE"
  proof -
    have "addr + sz - 1 = ?B + page_of bdata (addr + sz - 1) * PAGE_SIZE + (addr + sz - 1 - ?B) mod PAGE_SIZE"
      using page_byte [of bdata "addr + sz - 1"] B(1) sz by linarith
    moreover have "(addr + sz - 1 - ?B) mod PAGE_SIZE < PAGE_SIZE" by (simp add: kdefs)
    moreover have "?B + (page_of bdata (addr + sz - 1) + 1) * PAGE_SIZE \<le> node_low_pfn bdata * PAGE_SIZE"
    proof -
      have "?B = ?B div PAGE_SIZE * PAGE_SIZE" using wf(1) by (auto simp: bm_wf_def)
      moreover have "?B div PAGE_SIZE + (page_of bdata (addr + sz - 1) + 1) \<le> node_low_pfn bdata"
        using new(1) [OF last] by (simp add: node_pages_def)
      ultimately show ?thesis by (metis add_mult_distrib mult_le_mono1)
    qed
    ultimately show ?thesis by (simp add: add_mult_distrib)
  qed
  then have "in_node b addr sz" using B sz by (simp add: in_node_def)
  moreover have "\<not> in_tail b x" if "x \<in> bytes_of (addr, sz)" for x
    using tail [of x] that B(1) by (auto simp: bytes_of_def)
  ultimately show "block_ok b (addr, sz)" using new(2) by (simp add: block_ok_def pg)
  assume r: "block_ok bdata r"
  have "bytes_of r \<inter> bytes_of (addr, sz) = {}" using new(3) r by (auto simp: block_ok_def)
  moreover have "\<not> in_tail b x" if x: "x \<in> bytes_of r" for x
  proof
    assume t: "in_tail b x"
    have "?B \<le> x" using r x by (auto simp: block_ok_def in_node_def bytes_of_def)
    note e = tail [OF t this]
    have "in_tail bdata x \<or> \<not> node_bootmem_map bdata (page_of bdata x)"
      using new(3) [OF last] e by (auto simp: in_tail_def)
    then show False using r x by (auto simp: block_ok_def)
  qed
  ultimately show "bytes_of r \<inter> bytes_of (addr, sz) = {} \<and> block_ok b r"
    using r mono by (auto simp: block_ok_def in_node_def pg B)
qed

lemma block_ok_map:
  assumes "\<And>x. x \<in> bytes_of r \<Longrightarrow> m (page_of bdata x) = node_bootmem_map bdata (page_of bdata x)"
  shows "block_ok (bdata\<lparr>node_bootmem_map := m\<rparr>) r = block_ok bdata r"
  using assms by (auto simp: block_ok_def in_node_def in_tail_def page_of_def)

text \<open>Giving back a block clears only pages that hold nothing else.\<close>

lemma release_ok:
  assumes inv: "boot_inv s" and r: "(addr, sz) \<in> in_use s"
  shows "\<exists>b. free_bootmem_core (bd s) addr sz = Ok b \<and> boot_inv \<lparr>bd = b, in_use = in_use s - {(addr, sz)}\<rparr>"
proof -
  let ?bd = "bd s"
  let ?B = "node_boot_start ?bd"
  define cov where "cov p \<longleftrightarrow> addr \<le> ?B + p * PAGE_SIZE \<and> ?B + (p + 1) * PAGE_SIZE \<le> addr + sz" for p
  have wf: "bm_wf ?bd" "node_low_pfn ?bd < 2 ^ 20" and ok: "block_ok ?bd (addr, sz)" using inv r by (auto simp: boot_inv_def)
  have inn: "in_node ?bd addr sz" using ok by (simp add: block_ok_def)
  have byte: "?B + p * PAGE_SIZE + d \<in> bytes_of (addr, sz)" if "cov p" "d < PAGE_SIZE" for p d
    using that by (auto simp: cov_def bytes_of_def)
  have res: "node_bootmem_map ?bd p" if "cov p" for p
    using ok byte [OF that, of 0] page_of_at [of 0 ?bd p] by (auto simp: block_ok_def kdefs)
  define b where "b = ?bd\<lparr>node_bootmem_map := \<lambda>p. node_bootmem_map ?bd p \<and> \<not> cov p\<rparr>"
  have e: "free_bootmem_core ?bd addr sz = Ok b" using free_ok [OF in_node_facts [OF inn wf], folded cov_def] res by (simp add: b_def)
  have "\<not> cov (last_pos ?bd)" if "last_offset ?bd \<noteq> 0"
  proof
    assume c: "cov (last_pos ?bd)"
    have "last_offset ?bd < PAGE_SIZE" using wf(1) by (simp add: bm_wf_def)
    note x = byte [OF c this] page_of_at [OF this, of ?bd "last_pos ?bd"]
    then have "in_tail ?bd (?B + last_pos ?bd * PAGE_SIZE + last_offset ?bd)" using that by (auto simp: in_tail_def)
    then show False using ok x(1) by (auto simp: block_ok_def)
  qed
  then have "bm_wf b" using wf(1) by (auto simp: bm_wf_def b_def)
  moreover have "block_ok b q" if q: "q \<in> in_use s" "q \<noteq> (addr, sz)" for q
  proof -
    have qo: "block_ok ?bd q" "bytes_of q \<inter> bytes_of (addr, sz) = {}" using inv q r by (auto simp: boot_inv_def pairwise_def)
    have "\<not> cov (page_of ?bd x)" if "x \<in> bytes_of q" for x
    proof
      assume "cov (page_of ?bd x)"
      moreover have "?B \<le> x" using qo(1) that by (auto simp: block_ok_def in_node_def bytes_of_def)
      moreover have "(x - ?B) mod PAGE_SIZE < PAGE_SIZE" by (simp add: kdefs)
      ultimately have "x \<in> bytes_of (addr, sz)" using byte page_byte by metis
      then show False using qo(2) that by blast
    qed
    then show ?thesis using qo(1) unfolding b_def by (subst block_ok_map) auto
  qed
  moreover have "node_low_pfn b < 2 ^ 20" using wf(2) by (simp add: b_def)
  ultimately show ?thesis using e inv by (auto simp: boot_inv_def intro: pairwise_subset)
qed

lemma boot_step_inv:
  assumes "boot_step s t" "boot_inv s" shows "boot_inv t"
  using assms
proof (cases rule: boot_step.cases)
  case (register addr sz b)
  then have "\<exists>m. b = (bd s)\<lparr>node_bootmem_map := m\<rparr>" by (auto simp: free_bootmem_core_def Let_def split: if_splits)
  then show ?thesis using register assms(2) by (auto simp: boot_inv_def bm_wf_def)
next
  case (alloc sz k goal addr b)
  have inv: "bm_wf (bd s)" "node_low_pfn (bd s) < 2 ^ 20" "\<forall>r \<in> in_use s. block_ok (bd s) r"
      "pairwise (\<lambda>r q. bytes_of r \<inter> bytes_of q = {}) (in_use s)"
    using assms(2) by (auto simp: boot_inv_def)
  have h: "handed_out (bd s) addr sz b" "bm_wf b" using alloc_ok [OF inv(1) alloc(3,2)] by auto
  note n = handed_out_ok [OF h(1) alloc(3) inv(1) h(2)]
  have "node_low_pfn b = node_low_pfn (bd s)" using h(1) by (simp add: handed_out_def)
  moreover have "pairwise (\<lambda>r q. bytes_of r \<inter> bytes_of q = {}) (insert (addr, sz) (in_use s))"
    using inv(3,4) n(2) by (fastforce simp: pairwise_insert)
  ultimately show ?thesis using inv h(2) n alloc(1) by (auto simp: boot_inv_def)
next
  case (reserve addr sz b)
  have inv: "bm_wf (bd s)" "node_low_pfn (bd s) < 2 ^ 20" "\<forall>r \<in> in_use s. block_ok (bd s) r"
      "pairwise (\<lambda>r q. bytes_of r \<inter> bytes_of q = {}) (in_use s)"
    using assms(2) by (auto simp: boot_inv_def)
  have b: "b = (bd s)\<lparr>node_bootmem_map := \<lambda>p. node_bootmem_map (bd s) p \<or> (\<exists>x. addr \<le> x \<and> x < addr + sz \<and> page_of (bd s) x = p)\<rparr>"
    using reserve_ok [OF in_node_facts [OF reserve(3) inv(1,2)]] reserve(2) by simp
  have "\<not> in_tail (bd s) x" if "x \<in> bytes_of (addr, sz)" for x
    using reserve(4) that inv(1) by (auto simp: in_tail_def bm_wf_def)
  then have "block_ok b (addr, sz)" using reserve(3) by (auto simp: b block_ok_def in_node_def in_tail_def page_of_def bytes_of_def)
  moreover have "block_ok b r" if "r \<in> in_use s" for r
    using inv(3) that unfolding b by (subst block_ok_map) (auto simp: block_ok_def)
  moreover have "bytes_of r \<inter> bytes_of (addr, sz) = {}" if "r \<in> in_use s" for r
    using inv(3) that reserve(4) by (auto simp: block_ok_def)
  then have "pairwise (\<lambda>r q. bytes_of r \<inter> bytes_of q = {}) (insert (addr, sz) (in_use s))"
    using inv(4) by (fastforce simp: pairwise_insert)
  moreover have "bm_wf b" "node_low_pfn b < 2 ^ 20" using inv(1,2) by (auto simp: b bm_wf_def)
  ultimately show ?thesis using reserve(1) by (auto simp: boot_inv_def)
next
  case (release addr sz b)
  then show ?thesis using release_ok [OF assms(2) release(3)] by auto
qed

lemma boot_start_inv: "boot_start s \<Longrightarrow> boot_inv s"
  by (auto simp: boot_start_def boot_inv_def init_bootmem_core_def Let_def bm_wf_def kdefs)

interpretation btm: state_machine boot_start boot_step boot_inv
  by unfold_locales (auto intro: boot_start_inv boot_step_inv)


subsection \<open>An alignment of zero\<close>

definition fresh_node :: bootmem_data where
  "fresh_node = \<lparr>node_boot_start = 0, node_low_pfn = 4, node_bootmem_map = (\<lambda>_. False), last_offset = 0, last_pos = 0\<rparr>"

definition used_node :: bootmem_data where
  "used_node = \<lparr>node_boot_start = 0, node_low_pfn = 4, node_bootmem_map = set_bits 0 1 True (\<lambda>_. False),
     last_offset = 100, last_pos = 0\<rparr>"

lemma fresh_alloc: "alloc_bootmem_core fresh_node 100 32 0 = Some (Ok (Some (0, used_node)))"
proof -
  have "scan (\<lambda>_. False) 4 1 1 0 = Some 0" by (simp add: scan.simps free_run_def)
  then show ?thesis
    by (simp add: alloc_bootmem_core_def fresh_node_def used_node_def page_offset_for_def preferred_page_def
        align_down_def take_found_def restart_scan.simps [of _ _ _ _ _ 0] set_bits_def kdefs Let_def)
qed

text \<open>
  The allocator accepts an alignment of 0 (it tests for it), but rounds the position behind the
  last allocation up to 0 then: after 100 bytes were allocated at address 0, a request of 50 bytes
  with alignment 0 is given address 0 too.
\<close>

theorem alloc_align_zero_overlaps:
  "alloc_bootmem_core fresh_node 100 32 0 = Some (Ok (Some (0, used_node))) \<and>
   (\<exists>b. alloc_bootmem_core used_node 50 0 0 = Some (Ok (Some (0, b))))"
proof
  have "scan (set_bits 0 1 True (\<lambda>_. False)) 4 1 1 0 = Some 1"
    by (simp add: scan.simps [of _ _ _ _ 0] scan.simps [of _ _ _ _ 1] scan.simps [of _ _ _ _ "Suc 0"] free_run_def set_bits_def)
  then show "\<exists>b. alloc_bootmem_core used_node 50 0 0 = Some (Ok (Some (0, b)))"
    by (simp add: alloc_bootmem_core_def used_node_def page_offset_for_def preferred_page_def
        align_down_def take_found_def restart_scan.simps [of _ _ _ _ _ 0] set_bits_def kdefs Let_def)
qed (rule fresh_alloc)

subsection \<open>The properties at work\<close>


theorem alloc_bootmem_returns_witness: "\<exists>r. alloc_bootmem_core fresh_node 5000 (2 ^ 13) 12345 = Some r"
  by (rule alloc_bootmem_returns) (simp add: fresh_node_def)

definition full_node :: bootmem_data where
  "full_node = \<lparr>node_boot_start = 4096, node_low_pfn = 16, node_bootmem_map = (\<lambda>_. True), last_offset = 0, last_pos = 0\<rparr>"

theorem alloc_bootmem_loops_witness: "alloc_bootmem_core full_node 100 (2 ^ 13) 0 = None"
  by (rule alloc_bootmem_loops) (simp_all add: full_node_def page_offset_for_def kdefs)

theorem reserve_free_bootmem_correct_witness:
  "\<exists>b2. free_bootmem_core full_node 5000 10000 = Ok b2 \<and> \<not> node_bootmem_map b2 1 \<and> node_bootmem_map b2 0"
proof -
  obtain b2 where "free_bootmem_core full_node 5000 10000 = Ok b2"
      "\<forall>p. node_bootmem_map b2 p \<longleftrightarrow> node_bootmem_map full_node p \<and> \<not> (5000 \<le> node_boot_start full_node + p * PAGE_SIZE \<and>
           node_boot_start full_node + (p + 1) * PAGE_SIZE \<le> 5000 + 10000)"
    using reserve_free_bootmem_correct [of full_node 5000 10000] by (auto simp: full_node_def kdefs)
  then show ?thesis by (auto simp: full_node_def kdefs)
qed

definition boot_demo :: "boot_sys" where
  "boot_demo = \<lparr>bd = snd (init_bootmem_core 0 4 fresh_node), in_use = {}\<rparr>"

definition ram_demo :: "bootmem_data" where
  "ram_demo = fresh_node\<lparr>node_bootmem_map := set_bits 4 32 True (\<lambda>_. False)\<rparr>"

definition used_demo :: "bootmem_data" where
  "used_demo = used_node\<lparr>node_bootmem_map := set_bits 0 1 True (set_bits 4 32 True (\<lambda>_. False))\<rparr>"

lemma boot_demo_run: "boot_step\<^sup>*\<^sup>* boot_demo \<lparr>bd = used_demo, in_use = {(0, 100)}\<rparr>"
proof -
  have m: "set_bits 0 4 False (set_bits 0 32 True f) = set_bits 4 32 True (\<lambda>_. False)" if "f = (\<lambda>_. False)" for f
    using that by (auto simp: set_bits_def fun_eq_iff)
  have "free_bootmem_core (bd boot_demo) 0 16384 = Ok ram_demo"
    by (simp add: free_bootmem_core_def boot_demo_def ram_demo_def fresh_node_def init_bootmem_core_def align_down_def usub_def m kdefs Let_def)
      (simp add: set_bits_def)
  then have "boot_step boot_demo (boot_demo\<lparr>bd := ram_demo\<rparr>)"
    by (rule boot_step.register) (simp_all add: boot_demo_def fresh_node_def init_bootmem_core_def in_node_def kdefs Let_def)
  moreover have "scan (set_bits 4 32 True (\<lambda>_. False)) 4 1 1 0 = Some 0" by (simp add: scan.simps free_run_def set_bits_def)
  then have "alloc_bootmem_core ram_demo 100 (2 ^ 5) 0 = Some (Ok (Some (0, used_demo)))"
    by (simp add: alloc_bootmem_core_def ram_demo_def fresh_node_def used_demo_def used_node_def page_offset_for_def preferred_page_def
        align_down_def take_found_def restart_scan.simps [of _ _ _ _ _ 0] set_bits_def kdefs Let_def)
  then have "boot_step (boot_demo\<lparr>bd := ram_demo\<rparr>) \<lparr>bd = used_demo, in_use = {(0, 100)}\<rparr>"
    using boot_step.alloc [of "boot_demo\<lparr>bd := ram_demo\<rparr>" 100 5 0 0 used_demo] by (simp add: boot_demo_def)
  ultimately show ?thesis by (meson converse_rtranclp_into_rtranclp rtranclp.rtrancl_refl)
qed

lemma boot_demo_start: "boot_start boot_demo"
proof -
  have "(4 :: nat) < 2 ^ 20" "last_offset fresh_node = 0" by (simp_all add: fresh_node_def)
  then show ?thesis unfolding boot_start_def boot_demo_def by blast
qed


end
