(* ===== verification/Buddy.thy ===== *)
theory Buddy
  imports KPrelude
begin

text \<open>
  The buddy allocator of one zone (mm/page_alloc.c): setting up the zone, \<open>__free_pages_ok\<close> with its
  deferred and task-local lists, \<open>expand\<close>, \<open>rmqueue\<close> and \<open>__free_pages\<close>.  A page is its index in
  \<open>zone_mem_map\<close>; a doubly linked \<open>free_list\<close> is the list of its pages, head first; \<open>unsigned long\<close>
  values keep their 32 bits.  None stands for a \<open>BUG()\<close>, an access outside a bitmap or the area
  array, or a \<open>list_del\<close> of a page that is not in the list it should be in, so that their absence is a
  theorem.  The functions run under \<open>zone->lock\<close>.  The fallback over zones, the watermarks and page
  reclaim (\<open>__alloc_pages\<close>, \<open>balance_classzone\<close>) are not modelled.
\<close>

subsection \<open>Data (include/linux/mmzone.h, include/linux/mm.h)\<close>

definition MAX_ORDER :: nat where [kdefs]: "MAX_ORDER = 10"

record page =
  page_zone :: nat
  page_count :: int
  page_order :: nat
  PageReserved :: bool
  PageLRU :: bool
  PageActive :: bool
  PageLocked :: bool
  PageReferenced :: bool
  PageDirty :: bool
  page_buffers :: bool
  page_mapping :: bool

record free_area =
  free_list :: "nat list"
  area_map :: "bool list"

record zone =
  zone_id :: nat
  zone_size :: nat
  zone_start_mapnr :: nat
  free_pages :: u32
  free_area :: "free_area list"

text \<open>\<open>current\<close> is the running task; \<open>no_irq_head\<close> is the chain \<open>free_pages_ok_no_irq_head\<close>, which
  links pages by \<open>next_hash\<close>.  The field \<open>page_order\<close> is \<open>page->index\<close>.\<close>

record mm_state =
  zn :: zone
  pages :: "nat \<Rightarrow> page"
  max_mapnr :: nat
  no_irq_head :: "nat list"
  PF_FREE_PAGES :: bool
  nr_local_pages :: nat
  local_pages :: "nat list"

subsection \<open>Setting up a zone\<close>

definition LONG_ALIGN :: "nat \<Rightarrow> nat" where
  "LONG_ALIGN x = (x + 3) div 4 * 4"

text \<open>The bytes of the bitmap of order \<open>i\<close>.\<close>

definition bitmap_size :: "nat \<Rightarrow> nat \<Rightarrow> nat" where
  "bitmap_size sz i = LONG_ALIGN ((sz - 1) div 2 ^ (i + 4) + 1) * 2"

definition init_area :: "nat \<Rightarrow> nat \<Rightarrow> free_area" where
  "init_area sz i = \<lparr>free_list = [],
     area_map = (if i = MAX_ORDER - 1 then [] else replicate (8 * bitmap_size sz i) False)\<rparr>"

definition free_area_init :: "nat \<Rightarrow> nat \<Rightarrow> nat \<Rightarrow> zone" where
  "free_area_init zid offset sz = \<lparr>zone_id = zid, zone_size = sz, zone_start_mapnr = offset,
     free_pages = 0, free_area = map (init_area sz) [0..<MAX_ORDER]\<rparr>"

text \<open>The loop over the pages of the zone.\<close>

definition init_pages :: "nat \<Rightarrow> nat \<Rightarrow> (nat \<Rightarrow> page) \<Rightarrow> nat \<Rightarrow> page" where
  "init_pages zid sz mem i =
     (if i < sz then (mem i)\<lparr>page_zone := zid, page_count := 0, PageReserved := True\<rparr> else mem i)"

subsection \<open>Lists and bitmaps\<close>

definition BAD_RANGE :: "zone \<Rightarrow> (nat \<Rightarrow> page) \<Rightarrow> nat \<Rightarrow> bool" where
  "BAD_RANGE z mem p \<longleftrightarrow>
     zone_start_mapnr z + p \<ge> zone_start_mapnr z + zone_size z \<or>
     zone_start_mapnr z + p < zone_start_mapnr z \<or> zone_id z \<noteq> page_zone (mem p)"

definition update_area :: "zone \<Rightarrow> nat \<Rightarrow> (free_area \<Rightarrow> free_area) \<Rightarrow> zone" where
  "update_area z k f = z\<lparr>free_area := (free_area z)[k := f (free_area z ! k)]\<rparr>"

definition list_add :: "zone \<Rightarrow> nat \<Rightarrow> nat \<Rightarrow> zone" where
  "list_add z k p = update_area z k (\<lambda>a. a\<lparr>free_list := p # free_list a\<rparr>)"

definition list_del :: "zone \<Rightarrow> nat \<Rightarrow> nat \<Rightarrow> zone option" where
  "list_del z k p =
     (if p \<in> set (free_list (free_area z ! k))
      then Some (update_area z k (\<lambda>a. a\<lparr>free_list := remove1 p (free_list a)\<rparr>)) else None)"

text \<open>\<open>__test_and_change_bit\<close> on the bitmap of area \<open>k\<close>.\<close>

definition test_and_change_bit :: "nat \<Rightarrow> zone \<Rightarrow> nat \<Rightarrow> (bool \<times> zone) option" where
  "test_and_change_bit i z k =
     (let m = area_map (free_area z ! k) in
      if i < length m then Some (m ! i, update_area z k (\<lambda>a. a\<lparr>area_map := m[i := \<not> m ! i]\<rparr>)) else None)"

definition MARK_USED :: "u32 \<Rightarrow> nat \<Rightarrow> zone \<Rightarrow> zone option" where
  "MARK_USED index order z = map_option snd (test_and_change_bit (unat (drop_bit (1 + order) index)) z order)"

subsection \<open>Freeing\<close>

text \<open>The loop of \<open>__free_pages_ok\<close> and the \<open>list_add\<close> behind it.\<close>

function free_loop :: "(nat \<Rightarrow> page) \<Rightarrow> zone \<Rightarrow> nat \<Rightarrow> u32 \<Rightarrow> u32 \<Rightarrow> u32 \<Rightarrow> zone option" where
  "free_loop mem z area msk index page_idx =
     (if msk + push_bit (MAX_ORDER - 1) 1 \<noteq> 0 then
        if area \<ge> MAX_ORDER then None
        else
          (case test_and_change_bit (unat index) z area of
             None \<Rightarrow> None
           | Some (old, z1) \<Rightarrow>
               if \<not> old then Some (list_add z1 area (unat page_idx))
               else
                 let buddy1 = unat (page_idx XOR - msk); buddy2 = unat page_idx in
                 if BAD_RANGE z1 mem buddy1 then None
                 else if BAD_RANGE z1 mem buddy2 then None
                 else
                   (case list_del z1 area buddy1 of
                      None \<Rightarrow> None
                    | Some z2 \<Rightarrow>
                        let msk' = push_bit 1 msk in
                        free_loop mem z2 (area + 1) msk' (drop_bit 1 index) (page_idx AND msk')))
      else Some (list_add z area (unat page_idx)))"
  by pat_completeness auto
termination
  by (relation "measure (\<lambda>(mem, z, area, msk, index, page_idx). MAX_ORDER - area)") auto

declare free_loop.simps [simp del]

definition free_to_zone :: "nat \<Rightarrow> nat \<Rightarrow> mm_state \<Rightarrow> mm_state option" where
  "free_to_zone p order st =
     (let msk = push_bit order (- 1) :: u32; page_idx = of_nat p :: u32 in
      if page_idx AND NOT msk \<noteq> 0 then None
      else
        let index = drop_bit (1 + order) page_idx; z = (zn st)\<lparr>free_pages := free_pages (zn st) - msk\<rparr> in
        map_option (\<lambda>z'. st\<lparr>zn := z'\<rparr>) (free_loop (pages st) z order msk index page_idx))"

definition upd_page :: "nat \<Rightarrow> (page \<Rightarrow> page) \<Rightarrow> mm_state \<Rightarrow> mm_state" where
  "upd_page p f st = st\<lparr>pages := (pages st)(p := f (pages st p))\<rparr>"

text \<open>\<open>lru_cache_del\<close> (mm/swap.c), without the lists and counters of page reclaim.\<close>

definition lru_cache_del :: "page \<Rightarrow> page" where
  "lru_cache_del pg =
     (if PageLRU pg then (if PageActive pg then pg\<lparr>PageLRU := False, PageActive := False\<rparr> else pg\<lparr>PageLRU := False\<rparr>)
      else pg)"

definition VALID_PAGE :: "mm_state \<Rightarrow> nat \<Rightarrow> bool" where
  "VALID_PAGE st p \<longleftrightarrow> zone_start_mapnr (zn st) + p < max_mapnr st"

definition free_pages_ok :: "bool \<Rightarrow> nat \<Rightarrow> nat \<Rightarrow> mm_state \<Rightarrow> mm_state option" where
  "free_pages_ok in_interrupt p order st =
     (if PageLRU (pages st p) \<and> in_interrupt then
        Some (upd_page p (\<lambda>pg. pg\<lparr>page_order := order\<rparr>) (st\<lparr>no_irq_head := p # no_irq_head st\<rparr>))
      else
        let st1 = upd_page p lru_cache_del st; pg = pages st1 p in
        if page_buffers pg then None
        else if page_mapping pg then None
        else if \<not> VALID_PAGE st1 p then None
        else if PageLocked pg then None
        else if PageActive pg then None
        else
          let st2 = upd_page p (\<lambda>pg. pg\<lparr>PageReferenced := False, PageDirty := False\<rparr>) st1 in
          if PF_FREE_PAGES st2 \<and> nr_local_pages st2 = 0 \<and> \<not> in_interrupt then
            Some (upd_page p (\<lambda>pg. pg\<lparr>page_order := order\<rparr>)
              (st2\<lparr>local_pages := p # local_pages st2, nr_local_pages := nr_local_pages st2 + 1\<rparr>))
          else free_to_zone p order st2)"

text \<open>The task queue runs \<open>do_free_pages_ok_no_irq\<close> outside interrupts.\<close>

fun free_chain :: "nat list \<Rightarrow> mm_state \<Rightarrow> mm_state option" where
  "free_chain [] st = Some st"
| "free_chain (p # ps) st =
     (case free_pages_ok False p (page_order (pages st p)) st of
        None \<Rightarrow> None
      | Some st1 \<Rightarrow> free_chain ps st1)"

definition do_free_pages_ok_no_irq :: "mm_state \<Rightarrow> mm_state option" where
  "do_free_pages_ok_no_irq st = free_chain (no_irq_head st) (st\<lparr>no_irq_head := []\<rparr>)"

text \<open>\<open>put_page_testzero\<close> decrements the count and tells whether it became 0.\<close>

definition free_pages_fn :: "bool \<Rightarrow> nat \<Rightarrow> nat \<Rightarrow> mm_state \<Rightarrow> mm_state option" where
  "free_pages_fn in_interrupt p order st =
     (if PageReserved (pages st p) then Some st
      else
        let st1 = upd_page p (\<lambda>pg. pg\<lparr>page_count := page_count pg - 1\<rparr>) st in
        if page_count (pages st1 p) = 0 then free_pages_ok in_interrupt p order st1 else Some st1)"

subsection \<open>Allocating\<close>

function expand :: "(nat \<Rightarrow> page) \<Rightarrow> zone \<Rightarrow> nat \<Rightarrow> u32 \<Rightarrow> u32 \<Rightarrow> nat \<Rightarrow> nat \<Rightarrow> (zone \<times> nat) option" where
  "expand mem z p index sz low high =
     (if high > low then
        if BAD_RANGE z mem p then None
        else
          let high' = high - 1; sz' = drop_bit 1 sz in
          (case MARK_USED index high' (list_add z high' p) of
             None \<Rightarrow> None
           | Some z1 \<Rightarrow> expand mem z1 (p + unat sz') (index + sz') sz' low high')
      else if BAD_RANGE z mem p then None
      else Some (z, p))"
  by pat_completeness auto
termination
  by (relation "measure (\<lambda>(mem, z, p, index, sz, low, high). high)") auto

declare expand.simps [simp del]

text \<open>The result is the new zone and the page, or None inside for the NULL page.\<close>

function rmqueue_loop :: "(nat \<Rightarrow> page) \<Rightarrow> zone \<Rightarrow> nat \<Rightarrow> nat \<Rightarrow> (zone \<times> nat option) option" where
  "rmqueue_loop mem z order curr_order =
     (if curr_order \<ge> MAX_ORDER then None
      else
        case free_list (free_area z ! curr_order) of
          p # _ \<Rightarrow>
            if BAD_RANGE z mem p then None
            else
              (case list_del z curr_order p of
                 None \<Rightarrow> None
               | Some z1 \<Rightarrow>
                   let index = of_nat p in
                   (case (if curr_order \<noteq> MAX_ORDER - 1 then MARK_USED index curr_order z1 else Some z1) of
                      None \<Rightarrow> None
                    | Some z2 \<Rightarrow>
                        let z3 = z2\<lparr>free_pages := free_pages z2 - push_bit order 1\<rparr> in
                        (case expand mem z3 p index (push_bit curr_order 1) order curr_order of
                           None \<Rightarrow> None
                         | Some (z4, q) \<Rightarrow>
                             if BAD_RANGE z4 mem q then None
                             else if PageLRU (mem q) then None
                             else if PageActive (mem q) then None
                             else Some (z4, Some q))))
        | [] \<Rightarrow>
            if curr_order + 1 < MAX_ORDER then rmqueue_loop mem z order (curr_order + 1) else Some (z, None))"
  by pat_completeness auto
termination
  by (relation "measure (\<lambda>(mem, z, order, curr). MAX_ORDER - curr)") auto

declare rmqueue_loop.simps [simp del]

definition rmqueue :: "nat \<Rightarrow> mm_state \<Rightarrow> (mm_state \<times> nat option) option" where
  "rmqueue order st =
     map_option
       (\<lambda>(z, r). case r of
          None \<Rightarrow> (st\<lparr>zn := z\<rparr>, None)
        | Some p \<Rightarrow> (upd_page p (\<lambda>pg. pg\<lparr>page_count := 1\<rparr>) (st\<lparr>zn := z\<rparr>), Some p))
       (rmqueue_loop (pages st) (zn st) order order)"

subsection \<open>Blocks and buddies\<close>

definition blk :: "nat \<Rightarrow> nat \<Rightarrow> nat set" where
  "blk p k = {p..<p + 2 ^ k}"

definition buddy :: "nat \<Rightarrow> nat \<Rightarrow> nat" where
  "buddy p k = (if even (p div 2 ^ k) then p + 2 ^ k else p - 2 ^ k)"

lemma aligned_cases:
  assumes "2 ^ k dvd (p :: nat)"
  obtains (low) q where "p = 2 ^ k * (2 * q)" "buddy p k = 2 ^ k * (2 * q + 1)"
  | (high) q where "p = 2 ^ k * (2 * q + 1)" "buddy p k = 2 ^ k * (2 * q)"
proof -
  obtain c where c: "p = 2 ^ k * c" using assms by blast
  show thesis
  proof (cases "even c")
    case True
    then obtain q where "c = 2 * q" by blast
    then show thesis using c by (intro low [of q]) (auto simp: buddy_def)
  next
    case False
    then obtain q where "c = 2 * q + 1" by (elim oddE)
    then show thesis using c by (intro high [of q]) (auto simp: buddy_def)
  qed
qed

lemma pair_index: "(2 ^ k * (2 * q)) div 2 ^ Suc k = (q :: nat)" "(2 ^ k * (2 * q + 1)) div 2 ^ Suc k = (q :: nat)"
proof -
  have "(2 ^ k * c) div 2 ^ Suc k = c div (2 :: nat)" for c by simp
  from this [of "2 * q"] this [of "2 * q + 1"]
  show "(2 ^ k * (2 * q)) div 2 ^ Suc k = q" "(2 ^ k * (2 * q + 1)) div 2 ^ Suc k = q" by simp_all
qed

lemma buddy_low: "buddy (2 ^ k * (2 * q)) k = 2 ^ k * (2 * q + 1)"
  by (simp add: buddy_def)

lemma buddy_high: "buddy (2 ^ k * (2 * q + 1)) k = 2 ^ k * (2 * q)"
  by (simp add: buddy_def)

lemma buddy_props:
  assumes "2 ^ k dvd p"
  shows buddy_dvd: "2 ^ k dvd buddy p k" and buddy_buddy: "buddy (buddy p k) k = p" and buddy_neq: "buddy p k \<noteq> p"
    and buddy_pair: "buddy p k div 2 ^ Suc k = p div 2 ^ Suc k" and buddy_disjoint: "blk p k \<inter> blk (buddy p k) k = {}"
proof -
  show "2 ^ k dvd buddy p k" using assms by (cases rule: aligned_cases) simp_all
  show "buddy (buddy p k) k = p" using assms by (cases rule: aligned_cases) (simp_all only: buddy_low buddy_high)
  show "buddy p k \<noteq> p" by (simp add: buddy_def) (metis diff_less div_0 even_zero neq0_conv nat_neq_iff zero_less_numeral zero_less_power)
  show "buddy p k div 2 ^ Suc k = p div 2 ^ Suc k"
    using assms by (cases rule: aligned_cases) (simp_all only: pair_index)
  have "p + 2 ^ k \<le> buddy p k \<or> buddy p k + 2 ^ k \<le> p"
    using assms by (cases rule: aligned_cases) simp_all
  then show "blk p k \<inter> blk (buddy p k) k = {}" by (auto simp: blk_def)
qed

lemma same_pair:
  assumes "2 ^ k dvd p" "2 ^ k dvd q" "q div 2 ^ Suc k = p div 2 ^ Suc k"
  shows "q = p \<or> q = buddy p k"
proof -
  obtain c where c: "p = 2 ^ k * (2 * c) \<or> p = 2 ^ k * (2 * c + 1)" using assms(1) by (cases rule: aligned_cases) blast+
  obtain d where d: "q = 2 ^ k * (2 * d) \<or> q = 2 ^ k * (2 * d + 1)" using assms(2) by (cases rule: aligned_cases) blast+
  have "d = c" using c d assms(3) pair_index by metis
  then show ?thesis using c d buddy_low buddy_high by metis
qed

definition merged :: "nat \<Rightarrow> nat \<Rightarrow> nat" where
  "merged p k = p - p mod 2 ^ Suc k"

lemma merged_props:
  assumes "2 ^ k dvd p"
  shows "2 ^ Suc k dvd merged p k" "blk (merged p k) (Suc k) = blk p k \<union> blk (buddy p k) k"
proof -
  have m: "merged p k = 2 ^ Suc k * (p div 2 ^ Suc k)"
    unfolding merged_def by (metis minus_mod_eq_mult_div)
  then show "2 ^ Suc k dvd merged p k" by (metis dvd_triv_left)
  have j: "{t..<t + 2 * P} = {t..<t + P} \<union> {t + P..<t + P + P}" for t P :: nat by auto
  show "blk (merged p k) (Suc k) = blk p k \<union> blk (buddy p k) k"
    using assms
  proof (cases rule: aligned_cases)
    case (low q)
    have "p div 2 ^ Suc k = q" unfolding low(1) by (rule pair_index)
    then have "merged p k = p" "buddy p k = p + 2 ^ k" using m low by (simp_all add: algebra_simps)
    then show ?thesis using j [of p "2 ^ k"] by (simp add: blk_def)
  next
    case (high q)
    have "p div 2 ^ Suc k = q" unfolding high(1) by (rule pair_index)
    then have "merged p k = buddy p k" "p = buddy p k + 2 ^ k" using m high by (simp_all add: algebra_simps)
    then show ?thesis using j [of "buddy p k" "2 ^ k"] by (simp add: blk_def Un_commute)
  qed
qed

text \<open>Aligned blocks are nested or disjoint.\<close>

lemma blocks_nested:
  assumes "2 ^ k dvd p" "2 ^ l dvd q" "k \<le> l" "x \<in> blk p k" "x \<in> blk q l"
  shows "blk p k \<subseteq> blk q l"
proof -
  have d: "2 ^ k dvd q" using assms(2,3) by (meson dvd_trans le_imp_power_dvd)
  obtain a b c where a: "p = 2 ^ k * a" "q = 2 ^ k * b" and c: "(2 :: nat) ^ l = 2 ^ k * c"
    using assms(1) d le_imp_power_dvd [OF assms(3), of "2 :: nat"] by (auto elim!: dvdE)
  have "x div 2 ^ k = a"
    using assms(4) unfolding blk_def a by (intro div_nat_eqI) (auto simp: algebra_simps)
  moreover have "b \<le> x div 2 ^ k" using assms(5) unfolding blk_def a by (simp add: less_eq_div_iff_mult_less_eq mult.commute)
  moreover have "x div 2 ^ k < b + c"
    using assms(5) unfolding blk_def a c by (simp add: div_less_iff_less_mult algebra_simps)
  ultimately have "b \<le> a" "a + 1 \<le> b + c" by simp_all
  then have "2 ^ k * b \<le> 2 ^ k * a" "2 ^ k * (a + 1) \<le> 2 ^ k * (b + c)" by (simp_all only: mult_le_mono2)
  then show ?thesis unfolding blk_def a c by (auto simp: algebra_simps)
qed

subsection \<open>The invariant of a zone\<close>

abbreviation lst :: "zone \<Rightarrow> nat \<Rightarrow> nat list" where
  "lst z k \<equiv> free_list (free_area z ! k)"

abbreviation bits :: "zone \<Rightarrow> nat \<Rightarrow> bool list" where
  "bits z k \<equiv> area_map (free_area z ! k)"

text \<open>Blocks are aligned and inside the zone, and no two of them overlap.\<close>

definition lists_ok :: "zone \<Rightarrow> bool" where
  "lists_ok z \<longleftrightarrow>
     (\<forall>k < MAX_ORDER. distinct (lst z k) \<and> (\<forall>p \<in> set (lst z k). 2 ^ k dvd p \<and> p + 2 ^ k \<le> zone_size z)) \<and>
     (\<forall>k < MAX_ORDER. \<forall>l < MAX_ORDER. \<forall>p \<in> set (lst z k). \<forall>q \<in> set (lst z l).
        (p, k) \<noteq> (q, l) \<longrightarrow> blk p k \<inter> blk q l = {})"

text \<open>The bit of a pair of buddies says that exactly one of them is in the list of its order; below the
  highest order both never are.\<close>

definition bit_ok :: "zone \<Rightarrow> nat \<Rightarrow> nat \<Rightarrow> bool" where
  "bit_ok z k p \<longleftrightarrow> p div 2 ^ Suc k < length (bits z k) \<and>
     (bits z k ! (p div 2 ^ Suc k) \<longleftrightarrow> (p \<in> set (lst z k)) \<noteq> (buddy p k \<in> set (lst z k))) \<and>
     \<not> (p \<in> set (lst z k) \<and> buddy p k \<in> set (lst z k))"

definition zone_ok :: "zone \<Rightarrow> bool" where
  "zone_ok z \<longleftrightarrow> length (free_area z) = MAX_ORDER \<and> zone_size z < 2 ^ 32 \<and> lists_ok z \<and>
     (\<forall>k < MAX_ORDER - 1. \<forall>p. 2 ^ k dvd p \<and> p < zone_size z \<longrightarrow> bit_ok z k p)"

definition avail :: "zone \<Rightarrow> nat set" where
  "avail z = (\<Union>k < MAX_ORDER. \<Union>p \<in> set (lst z k). blk p k)"

lemma avail_iff: "x \<in> avail z \<longleftrightarrow> (\<exists>k < MAX_ORDER. \<exists>p \<in> set (lst z k). x \<in> blk p k)"
  by (auto simp: avail_def)

lemma blk_avail: "k < MAX_ORDER \<Longrightarrow> p \<in> set (lst z k) \<Longrightarrow> blk p k \<subseteq> avail z"
  unfolding avail_def by blast

text \<open>The free blocks with their orders.\<close>

definition blocks :: "zone \<Rightarrow> (nat \<times> nat) set" where
  "blocks z = {(p, k). k < MAX_ORDER \<and> p \<in> set (lst z k)}"

lemma avail_blocks: "avail z = (\<Union>(p, k) \<in> blocks z. blk p k)"
  unfolding avail_def blocks_def by fast

lemma avail_size: "lists_ok z \<Longrightarrow> avail z \<subseteq> {..<zone_size z}"
  unfolding lists_ok_def avail_def blk_def by fastforce

lemma blk_nonempty: "p \<in> blk p k"
  by (simp add: blk_def)

text \<open>A zone that differs from \<open>z\<close> in the list of order \<open>k\<close> and in the bit of the pair of \<open>p\<close>.\<close>

definition toggled :: "zone \<Rightarrow> nat \<Rightarrow> nat \<Rightarrow> nat list \<Rightarrow> zone \<Rightarrow> bool" where
  "toggled z k p xs z' \<longleftrightarrow> zone_size z' = zone_size z \<and> length (free_area z') = length (free_area z) \<and>
     (\<forall>l < MAX_ORDER. lst z' l = (if l = k then xs else lst z l)) \<and>
     (\<forall>l < MAX_ORDER - 1. bits z' l =
        (if l = k then (bits z k)[p div 2 ^ Suc k := \<not> bits z k ! (p div 2 ^ Suc k)] else bits z l))"

lemma toggled_bit_ok:
  assumes "zone_ok z" "toggled z k p xs z'" "k < MAX_ORDER" "2 ^ k dvd p" "p < zone_size z"
    and "\<And>q. q \<noteq> p \<Longrightarrow> q \<in> set xs \<longleftrightarrow> q \<in> set (lst z k)" "(p \<in> set xs) \<noteq> (p \<in> set (lst z k))"
    and "k < MAX_ORDER - 1 \<Longrightarrow> buddy p k \<notin> set (lst z k)"
    and "l < MAX_ORDER - 1" "2 ^ l dvd q" "q < zone_size z"
  shows "bit_ok z' l q"
proof (cases "l = k")
  case False
  then show ?thesis
    using assms(1,2,9,10,11) by (simp add: bit_ok_def toggled_def zone_ok_def)
next
  case True
  have q: "bit_ok z k q" and p: "bit_ok z k p" using assms(1,4,5,9,10,11) True by (simp_all add: zone_ok_def)
  have l: "lst z' k = xs" "bits z' k = (bits z k)[p div 2 ^ Suc k := \<not> bits z k ! (p div 2 ^ Suc k)]"
    using assms(2,3,9) True by (simp_all add: toggled_def)
  have b: "buddy p k \<notin> set xs" "buddy p k \<notin> set (lst z k)"
    using assms(6,8,9) True buddy_neq [OF assms(4)] by auto
  show ?thesis
  proof (cases "q div 2 ^ Suc k = p div 2 ^ Suc k")
    case same: True
    then have "q = p \<or> q = buddy p k" using same_pair assms(4,10) True by blast
    then show ?thesis
      using p b assms(7) True buddy_buddy [OF assms(4)] same unfolding bit_ok_def l
      by (auto simp: bit_ok_def l simp del: power_Suc)
  next
    case False
    then have "q \<noteq> p" "buddy q k \<noteq> p" using buddy_pair [of k q] assms(10) True by auto
    then show ?thesis
      using q False assms(6) True by (auto simp: bit_ok_def l simp del: power_Suc)
  qed
qed

lemma put_ok:
  assumes "zone_ok z" "toggled z k p (p # lst z k) z'" "k < MAX_ORDER" "2 ^ k dvd p" "p + 2 ^ k \<le> zone_size z"
    and "blk p k \<inter> avail z = {}" "k < MAX_ORDER - 1 \<Longrightarrow> buddy p k \<notin> set (lst z k)"
  shows "zone_ok z' \<and> avail z' = avail z \<union> blk p k"
proof -
  have new: "blk p k \<inter> blk q l = {}" "(q, l) \<noteq> (p, k)" if "l < MAX_ORDER" "q \<in> set (lst z l)" for q l
    using assms(6) that blk_nonempty [of p k] unfolding avail_def by auto
  have L: "lst z' l = (if l = k then p # lst z k else lst z l)" if "l < MAX_ORDER" for l
    using assms(2) that by (simp add: toggled_def)
  have fresh: "p \<notin> set (lst z k)" using new(2) assms(3) by blast
  have "0 < (2 :: nat) ^ k" by simp
  then have ps: "p < zone_size z" using assms(5) by linarith
  have "bit_ok z' l q" if "l < MAX_ORDER - 1" "2 ^ l dvd q" "q < zone_size z" for l q
    by (rule toggled_bit_ok [OF assms(1-4) ps _ _ assms(7) that]) (use fresh in auto)
  moreover have "lists_ok z'"
  proof -
    have "distinct (lst z' l) \<and> (\<forall>q \<in> set (lst z' l). 2 ^ l dvd q \<and> q + 2 ^ l \<le> zone_size z)" if "l < MAX_ORDER" for l
      using assms(1,4,5) that fresh unfolding L [OF that] by (auto simp: zone_ok_def lists_ok_def)
    moreover have "blk q1 l1 \<inter> blk q2 l2 = {}"
      if "l1 < MAX_ORDER" "l2 < MAX_ORDER" "q1 \<in> set (lst z' l1)" "q2 \<in> set (lst z' l2)" "(q1, l1) \<noteq> (q2, l2)" for l1 l2 q1 q2
    proof -
      have o: "(q1, l1) = (p, k) \<or> q1 \<in> set (lst z l1)" "(q2, l2) = (p, k) \<or> q2 \<in> set (lst z l2)"
        using that L by (auto split: if_splits)
      have "blk q1 l1 \<inter> blk q2 l2 = {}" if "q1 \<in> set (lst z l1)" "q2 \<in> set (lst z l2)"
        using assms(1) that \<open>l1 < MAX_ORDER\<close> \<open>l2 < MAX_ORDER\<close> \<open>(q1, l1) \<noteq> (q2, l2)\<close> by (simp add: zone_ok_def lists_ok_def)
      then show ?thesis using o new(1) that(1,2,5) by blast
    qed
    ultimately show ?thesis using assms(2) unfolding lists_ok_def by (simp add: toggled_def)
  qed
  moreover have "avail z' = avail z \<union> blk p k"
  proof -
    have "blocks z' = insert (p, k) (blocks z)"
      using L assms(3) unfolding blocks_def by (auto split: if_splits)
    then show ?thesis unfolding avail_blocks by auto
  qed
  ultimately show ?thesis using assms(1,2) by (simp add: zone_ok_def toggled_def)
qed

lemma take_ok:
  assumes "zone_ok z" "toggled z k p (remove1 p (lst z k)) z'" "k < MAX_ORDER" "p \<in> set (lst z k)"
  shows "zone_ok z' \<and> avail z' = avail z - blk p k"
proof -
  have p: "2 ^ k dvd p" "p + 2 ^ k \<le> zone_size z" "distinct (lst z k)"
    using assms(1,3,4) by (auto simp: zone_ok_def lists_ok_def)
  have "0 < (2 :: nat) ^ k" by simp
  then have ps: "p < zone_size z" using p(2) by linarith
  have L: "lst z' l = (if l = k then remove1 p (lst z k) else lst z l)" if "l < MAX_ORDER" for l
    using assms(2) that by (simp add: toggled_def)
  have mem: "q \<in> set (lst z' l) \<longleftrightarrow> q \<in> set (lst z l) \<and> (q, l) \<noteq> (p, k)" if "l < MAX_ORDER" for q l
    using L [OF that] p(3) by auto
  have b: "buddy p k \<notin> set (lst z k)" if "k < MAX_ORDER - 1"
    using assms(1,4) that p(1) ps by (auto simp: zone_ok_def bit_ok_def)
  have "bit_ok z' l q" if "l < MAX_ORDER - 1" "2 ^ l dvd q" "q < zone_size z" for l q
    by (rule toggled_bit_ok [OF assms(1-3) p(1) ps _ _ b that]) (use assms(4) p(3) in auto)
  moreover have "lists_ok z'"
  proof -
    have "distinct (lst z' l) \<and> (\<forall>q \<in> set (lst z' l). 2 ^ l dvd q \<and> q + 2 ^ l \<le> zone_size z)" if "l < MAX_ORDER" for l
      using assms(1) that mem [OF that] unfolding L [OF that] by (auto simp: zone_ok_def lists_ok_def)
    moreover have "blk q1 l1 \<inter> blk q2 l2 = {}"
      if "l1 < MAX_ORDER" "l2 < MAX_ORDER" "q1 \<in> set (lst z' l1)" "q2 \<in> set (lst z' l2)" "(q1, l1) \<noteq> (q2, l2)" for l1 l2 q1 q2
      using assms(1) that mem by (simp add: zone_ok_def lists_ok_def)
    ultimately show ?thesis using assms(2) unfolding lists_ok_def by (simp add: toggled_def)
  qed
  moreover have "avail z' = avail z - blk p k"
  proof -
    have "blk q l \<inter> blk p k = {}" if "l < MAX_ORDER" "q \<in> set (lst z' l)" for q l
      using assms(1,3,4) that mem by (auto simp: zone_ok_def lists_ok_def)
    then have "blk q l \<inter> blk p k = {}" if "(q, l) \<in> blocks z'" for q l using that by (simp add: blocks_def)
    moreover have "blocks z = insert (p, k) (blocks z')"
      using mem assms(3,4) unfolding blocks_def by auto
    ultimately show ?thesis unfolding avail_blocks by auto
  qed
  ultimately show ?thesis using assms(1,2) by (simp add: zone_ok_def toggled_def)
qed

text \<open>At the highest order there is no bitmap to change.\<close>

lemma toggled_top:
  assumes "zone_size z' = zone_size z" "length (free_area z') = length (free_area z)"
    and "\<And>l. l < MAX_ORDER \<Longrightarrow> lst z' l = (if l = MAX_ORDER - 1 then xs else lst z l)"
    and "\<And>l. l < MAX_ORDER \<Longrightarrow> bits z' l = bits z l"
  shows "toggled z (MAX_ORDER - 1) p xs z'"
  unfolding toggled_def using assms by auto

subsection \<open>The list and bitmap operations\<close>

lemma update_area_simps [simp]:
  "zone_size (update_area z k f) = zone_size z" "length (free_area (update_area z k f)) = length (free_area z)"
  "zone_id (update_area z k f) = zone_id z" "zone_start_mapnr (update_area z k f) = zone_start_mapnr z"
  "free_pages (update_area z k f) = free_pages z"
  "k < length (free_area z) \<Longrightarrow>
     free_area (update_area z k f) ! l = (if l = k then f (free_area z ! k) else free_area z ! l)"
  by (simp_all add: update_area_def nth_list_update)

lemma BAD_RANGE_update [simp]: "BAD_RANGE (update_area z k f) = BAD_RANGE z"
  by (simp add: BAD_RANGE_def fun_eq_iff)

lemma list_add_simps [simp]:
  "zone_size (list_add z k p) = zone_size z" "length (free_area (list_add z k p)) = length (free_area z)"
  "free_pages (list_add z k p) = free_pages z" "BAD_RANGE (list_add z k p) = BAD_RANGE z"
  "k < length (free_area z) \<Longrightarrow> lst (list_add z k p) l = (if l = k then p # lst z k else lst z l)"
  "k < length (free_area z) \<Longrightarrow> bits (list_add z k p) l = bits z l"
  by (simp_all add: list_add_def)

text \<open>Adding a block to a list or taking it off, with its bit changed.\<close>

definition flip_pair :: "zone \<Rightarrow> nat \<Rightarrow> nat \<Rightarrow> zone" where
  "flip_pair z k p =
     update_area z k (\<lambda>a. a\<lparr>area_map := (bits z k)[p div 2 ^ Suc k := \<not> bits z k ! (p div 2 ^ Suc k)]\<rparr>)"

lemma flip_pair_simps [simp]:
  "zone_size (flip_pair z k p) = zone_size z" "length (free_area (flip_pair z k p)) = length (free_area z)"
  "free_pages (flip_pair z k p) = free_pages z" "BAD_RANGE (flip_pair z k p) = BAD_RANGE z"
  "k < length (free_area z) \<Longrightarrow> lst (flip_pair z k p) l = lst z l"
  "k < length (free_area z) \<Longrightarrow> bits (flip_pair z k p) l =
     (if l = k then (bits z k)[p div 2 ^ Suc k := \<not> bits z k ! (p div 2 ^ Suc k)] else bits z l)"
  by (simp_all add: flip_pair_def)

lemma test_and_change_flip:
  "p div 2 ^ Suc k < length (bits z k) \<Longrightarrow>
   test_and_change_bit (p div 2 ^ Suc k) z k = Some (bits z k ! (p div 2 ^ Suc k), flip_pair z k p)"
  by (simp add: test_and_change_bit_def flip_pair_def Let_def del: power_Suc)

lemma toggled_add: "zone_ok z \<Longrightarrow> k < MAX_ORDER \<Longrightarrow> toggled z k p (p # lst z k) (list_add (flip_pair z k p) k p)"
  by (simp add: toggled_def zone_ok_def del: power_Suc)

lemma toggled_add': "zone_ok z \<Longrightarrow> k < MAX_ORDER \<Longrightarrow> toggled z k p (p # lst z k) (flip_pair (list_add z k p) k p)"
  by (simp add: toggled_def zone_ok_def del: power_Suc)

lemma list_del_eq:
  "p \<in> set (lst z k) \<Longrightarrow> list_del z k p = Some (update_area z k (\<lambda>a. a\<lparr>free_list := remove1 p (free_list a)\<rparr>))"
  by (simp add: list_del_def)

lemma toggled_del:
  "zone_ok z \<Longrightarrow> k < MAX_ORDER \<Longrightarrow> toggled z k p (remove1 p (lst z k))
     (update_area (flip_pair z k p) k (\<lambda>a. a\<lparr>free_list := remove1 q (free_list a)\<rparr>))"
  if "q = p"
  using that by (simp add: toggled_def zone_ok_def del: power_Suc)

subsection \<open>Masks and indices\<close>

lemma mask_word: "push_bit k (- 1) = NOT (mask k :: u32)"
  by (simp add: push_bit_minus_one minus_exp_eq_not_mask)

lemma minus_mask_word: "- push_bit k (- 1) = (2 ^ k :: u32)"
  unfolding mask_word by (simp only: not_eq_complement mask_eq_exp_minus_1) simp

lemma top_mask: "k < MAX_ORDER \<Longrightarrow> push_bit k (- 1) + push_bit (MAX_ORDER - 1) (1 :: u32) = 0 \<longleftrightarrow> k = MAX_ORDER - 1"
proof -
  assume "k < MAX_ORDER"
  then have "k \<in> {0, 1, 2, 3, 4, 5, 6, 7, 8, 9}" by (auto simp: MAX_ORDER_def)
  then show ?thesis by (auto simp: MAX_ORDER_def push_bit_minus_one push_bit_eq_mult)
qed

lemma xor_buddy: "p XOR 2 ^ k = buddy p k"
  by (simp add: xor_exp_nat buddy_def)

lemma unat_pow2:
  assumes "k < 32" shows "unat ((2 :: u32) ^ k) = 2 ^ k"
proof -
  have "(2 :: nat) ^ k < 2 ^ 32" using assms by (intro power_strict_increasing) auto
  then show ?thesis using of_nat_inverse [of "2 ^ k" "2 ^ k :: u32"] by simp
qed

lemma unat_buddy: "k < 32 \<Longrightarrow> unat (w XOR 2 ^ k :: u32) = buddy (unat w) k"
  by (simp add: unsigned_xor_eq xor_buddy unat_pow2)

lemma unat_pair_index: "unat (drop_bit (Suc k) (w :: u32)) = unat w div 2 ^ Suc k"
  unfolding unat_drop_bit_eq by (simp only: drop_bit_eq_div)

lemma unat_merged: "unat (w AND push_bit (Suc k) (- 1) :: u32) = merged (unat w) k"
  unfolding mask_word merged_def by (rule unat_and_not_mask)

subsection \<open>Freeing\<close>

definition same_zone :: "zone \<Rightarrow> zone \<Rightarrow> bool" where
  "same_zone z z' \<longleftrightarrow> zone_size z' = zone_size z \<and> zone_id z' = zone_id z \<and>
     zone_start_mapnr z' = zone_start_mapnr z \<and> free_pages z' = free_pages z"

lemma same_zone_trans: "same_zone z z1 \<Longrightarrow> same_zone z1 z2 \<Longrightarrow> same_zone z z2"
  by (simp add: same_zone_def)

lemma same_zone_update [simp]: "same_zone z (update_area z k f)" "same_zone z (list_add z k p)" "same_zone z (flip_pair z k p)"
  by (simp_all add: same_zone_def list_add_def flip_pair_def)

definition zone_pages_ok :: "(nat \<Rightarrow> page) \<Rightarrow> zone \<Rightarrow> bool" where
  "zone_pages_ok mem z \<longleftrightarrow> (\<forall>q < zone_size z. page_zone (mem q) = zone_id z)"

lemma not_BAD_RANGE: "zone_pages_ok mem z \<Longrightarrow> q < zone_size z \<Longrightarrow> \<not> BAD_RANGE z mem q"
  by (simp add: zone_pages_ok_def BAD_RANGE_def)

lemma zone_pages_ok_same: "same_zone z z' \<Longrightarrow> zone_pages_ok mem z \<Longrightarrow> zone_pages_ok mem z'"
  by (simp add: same_zone_def zone_pages_ok_def)

lemma free_loop_merge:
  assumes "msk + push_bit (MAX_ORDER - 1) 1 \<noteq> 0" "area < MAX_ORDER"
    and "test_and_change_bit (unat index) z area = Some (True, z1)" "unat (w XOR - msk) = b"
    and "\<not> BAD_RANGE z1 mem b" "\<not> BAD_RANGE z1 mem (unat w)" "list_del z1 area b = Some z2"
  shows "free_loop mem z area msk index w =
    free_loop mem z2 (Suc area) (push_bit 1 msk) (drop_bit 1 index) (w AND push_bit 1 msk)"
  using assms by (subst free_loop.simps) (simp add: Let_def)

lemma free_loop_ok:
  assumes "zone_ok z" "k < MAX_ORDER" "2 ^ k dvd unat w" "unat w + 2 ^ k \<le> zone_size z"
    and "blk (unat w) k \<inter> avail z = {}" "zone_pages_ok mem z"
  shows "\<exists>z'. free_loop mem z k (push_bit k (- 1)) (drop_bit (Suc k) w) w = Some z' \<and> zone_ok z' \<and>
    avail z' = avail z \<union> blk (unat w) k \<and> same_zone z z'"
  using assms
proof (induction "MAX_ORDER - k" arbitrary: k z w)
  case 0
  then show ?case by simp
next
  case (Suc n)
  note prems = Suc.prems
  let ?p = "unat w"
  have len: "length (free_area z) = MAX_ORDER" using prems(1) by (simp add: zone_ok_def)
  have pos: "0 < (2 :: nat) ^ k" by simp
  then have ps: "?p < zone_size z" using prems(4) by linarith
  show ?case
  proof (cases "k = MAX_ORDER - 1")
    case True
    have "toggled z k ?p (?p # lst z k) (list_add z k ?p)"
      unfolding True by (rule toggled_top) (simp_all add: len MAX_ORDER_def)
    then have "zone_ok (list_add z k ?p) \<and> avail (list_add z k ?p) = avail z \<union> blk ?p k"
      by (rule put_ok [OF prems(1) _ prems(2-5)]) (use True in simp)
    then show ?thesis
      using True top_mask [OF prems(2)] by (subst free_loop.simps) simp
  next
    case False
    then have k: "k < MAX_ORDER - 1" using prems(2) by simp
    then have nz: "push_bit k (- 1) + push_bit (MAX_ORDER - 1) (1 :: u32) \<noteq> 0" using top_mask [OF prems(2)] by simp
    have bit: "bit_ok z k ?p" using prems(1,3) k ps by (simp add: zone_ok_def)
    have t: "test_and_change_bit (unat (drop_bit (Suc k) w)) z k = Some (bits z k ! (?p div 2 ^ Suc k), flip_pair z k ?p)"
      unfolding unat_pair_index using bit by (intro test_and_change_flip) (simp add: bit_ok_def)
    have fresh: "?p \<notin> set (lst z k)" using prems(2,5) blk_nonempty [of ?p k] blk_avail by blast
    show ?thesis
    proof (cases "bits z k ! (?p div 2 ^ Suc k)")
      case off: False
      then have "buddy ?p k \<notin> set (lst z k)" using bit fresh by (simp add: bit_ok_def)
      then have "zone_ok (list_add (flip_pair z k ?p) k ?p) \<and>
          avail (list_add (flip_pair z k ?p) k ?p) = avail z \<union> blk ?p k"
        using put_ok [OF prems(1) toggled_add [OF prems(1,2)] prems(2-5)] by blast
      moreover have "same_zone z (list_add (flip_pair z k ?p) k ?p)" by (rule same_zone_trans) (rule same_zone_update)+
      ultimately show ?thesis using nz t off prems(2) by (subst free_loop.simps) simp
    next
      case on: True
      let ?b = "buddy ?p k"
      let ?z = "update_area (flip_pair z k ?p) k (\<lambda>a. a\<lparr>free_list := remove1 ?b (free_list a)\<rparr>)"
      have b: "?b \<in> set (lst z k)" using bit fresh on by (simp add: bit_ok_def)
      have bs: "2 ^ k dvd ?b" "?b + 2 ^ k \<le> zone_size z"
        using prems(1,2) b by (auto simp: zone_ok_def lists_ok_def)
      have "flip_pair z k ?p = flip_pair z k ?b"
        by (simp add: flip_pair_def buddy_pair [OF prems(3)] del: power_Suc)
      then have tz: "toggled z k ?b (remove1 ?b (lst z k)) ?z" using toggled_del [OF refl prems(1,2), of ?b] by simp
      have z: "zone_ok ?z" "avail ?z = avail z - blk ?b k" using take_ok [OF prems(1) tz prems(2) b] by simp_all
      have sz: "same_zone z ?z" by (rule same_zone_trans) (rule same_zone_update)+
      let ?w = "w AND push_bit (Suc k) (- 1)"
      have uw: "unat ?w = merged ?p k" by (rule unat_merged)
      have m: "blk (merged ?p k) (Suc k) = blk ?p k \<union> blk ?b k" "2 ^ Suc k dvd merged ?p k"
        using merged_props [OF prems(3)] by simp_all
      have fit: "merged ?p k + 2 ^ Suc k \<le> zone_size ?z"
      proof -
        have "merged ?p k + 2 ^ Suc k - 1 \<in> blk (merged ?p k) (Suc k)"
          unfolding blk_def atLeastLessThan_iff using pos by (simp only: power_Suc) linarith
        then have "merged ?p k + 2 ^ Suc k - 1 < zone_size z"
          using bs(2) prems(4) unfolding m(1) by (auto simp: blk_def simp del: power_Suc)
        then show ?thesis by simp
      qed
      have n: "n = MAX_ORDER - Suc k" "Suc k < MAX_ORDER" using Suc.hyps(2) k by simp_all
      have dis: "blk (merged ?p k) (Suc k) \<inter> avail ?z = {}" unfolding m z(2) using prems(5) by blast
      have dr: "drop_bit (Suc (Suc k)) ?w = drop_bit 1 (drop_bit (Suc k) w)"
        by (rule bit_eqI) (auto simp: bit_simps dest: bit_imp_le_length)
      have pg: "zone_pages_ok mem ?z" by (rule zone_pages_ok_same [OF sz prems(6)])
      obtain z' where z': "free_loop mem ?z (Suc k) (push_bit (Suc k) (- 1)) (drop_bit 1 (drop_bit (Suc k) w)) ?w = Some z'"
          "zone_ok z'" "avail z' = avail ?z \<union> blk (merged ?p k) (Suc k)" "same_zone ?z z'"
        using Suc.hyps(1) [OF n(1) z(1) n(2), of ?w, unfolded uw, OF m(2) fit dis pg] unfolding dr by blast
      have "free_loop mem z k (push_bit k (- 1)) (drop_bit (Suc k) w) w = Some z'"
      proof -
        have "unat (w XOR - push_bit k (- 1)) = ?b"
          unfolding minus_mask_word using prems(2) by (intro unat_buddy) (simp add: MAX_ORDER_def)
        moreover have "?b < zone_size z" using bs(2) pos by linarith
        then have "\<not> BAD_RANGE z mem ?b" "\<not> BAD_RANGE z mem ?p" using not_BAD_RANGE [OF prems(6)] ps by blast+
        moreover have "list_del (flip_pair z k ?p) k ?b = Some ?z" using b prems(2) len by (intro list_del_eq) simp
        moreover have "push_bit 1 (push_bit k (- 1)) = (push_bit (Suc k) (- 1) :: u32)" by (simp only: push_bit_push_bit plus_1_eq_Suc)
        ultimately show ?thesis using free_loop_merge [OF nz prems(2) t [unfolded eqTrueI [OF on]]] z'(1) by (simp only: flip_pair_simps simp_thms)
      qed
      moreover have "blk ?b k \<subseteq> avail z" by (rule blk_avail [OF prems(2) b])
      then have "avail z' = avail z \<union> blk ?p k" unfolding z'(3) m z(2) by blast
      ultimately show ?thesis using z'(2) same_zone_trans [OF sz z'(4)] by blast
    qed
  qed
qed

subsection \<open>Allocating\<close>

lemma carve: "C \<subseteq> B \<Longrightarrow> A \<inter> B = {} \<Longrightarrow> V \<union> A \<union> (B - C) = V \<union> (A \<union> B - C)"
  by blast

lemma expand_ok:
  assumes "zone_ok z" "low \<le> high" "high < MAX_ORDER" "2 ^ high dvd unat w" "unat w + 2 ^ high \<le> zone_size z"
    and "blk (unat w) high \<inter> avail z = {}" "zone_pages_ok mem z"
  shows "\<exists>z' q. expand mem z (unat w) w (push_bit high 1) low high = Some (z', q) \<and> zone_ok z' \<and>
    2 ^ low dvd q \<and> blk q low \<subseteq> blk (unat w) high \<and> avail z' = avail z \<union> (blk (unat w) high - blk q low) \<and> same_zone z z'"
  using assms
proof (induction high arbitrary: z w)
  case 0
  have "unat w < zone_size z" using "0.prems"(5) by simp
  then show ?case using "0.prems" not_BAD_RANGE [of mem z "unat w"] by (subst expand.simps) (simp add: same_zone_def)
next
  case (Suc h)
  note prems = Suc.prems
  let ?p = "unat w"
  have pos: "0 < (2 :: nat) ^ h" by simp
  then have "?p < zone_size z" using prems(5) unfolding power_Suc by linarith
  then have range: "\<not> BAD_RANGE z mem ?p" by (rule not_BAD_RANGE [OF prems(7)])
  show ?case
  proof (cases "low = Suc h")
    case True
    then show ?thesis using range prems(1,4) by (subst expand.simps) (auto simp: same_zone_def)
  next
    case False
    then have lh: "low \<le> h" using prems(2) by simp
    have h: "h < MAX_ORDER - 1" "h < MAX_ORDER" "h < 32" "Suc h < 32" using prems(3) by (simp_all add: MAX_ORDER_def)
    have len: "length (free_area z) = MAX_ORDER" using prems(1) by (simp add: zone_ok_def)
    have d: "2 ^ h dvd ?p" using prems(4) by (simp add: dvd_mult_right)
    have b: "buddy ?p h = ?p + 2 ^ h"
      using prems(4) by (auto simp: buddy_def elim!: dvdE)
    have split: "blk ?p (Suc h) = blk ?p h \<union> blk (?p + 2 ^ h) h" "blk ?p h \<inter> blk (?p + 2 ^ h) h = {}"
      by (auto simp: blk_def)
    have nb: "buddy ?p h \<notin> set (lst z h)"
      using blk_avail [OF h(2), of "?p + 2 ^ h" z] blk_nonempty [of "?p + 2 ^ h" h] prems(6) unfolding b split by blast
    let ?z = "flip_pair (list_add z h ?p) h ?p"
    have fit: "?p + 2 ^ h \<le> zone_size z" "blk ?p h \<inter> avail z = {}" using prems(5,6) split by auto
    have z: "zone_ok ?z" "avail ?z = avail z \<union> blk ?p h"
      using put_ok [OF prems(1) toggled_add' [OF prems(1) h(2)] h(2) d fit nb] by simp_all
    have sz: "same_zone z ?z" by (rule same_zone_trans) (rule same_zone_update)+
    have "?p div 2 ^ Suc h < length (bits (list_add z h ?p) h)"
      using prems(1) h d \<open>?p < zone_size z\<close> len by (simp add: zone_ok_def bit_ok_def del: power_Suc)
    then have mark: "MARK_USED w h (list_add z h ?p) = Some ?z"
      by (simp add: MARK_USED_def unat_pair_index test_and_change_flip del: power_Suc)
    let ?w = "w + push_bit h 1"
    have sh: "unat (push_bit h 1 :: u32) = 2 ^ h" using unat_pow2 [OF h(3)] by (simp add: push_bit_eq_mult)
    have "?p + 2 ^ h < 2 ^ 32" using prems(1,5) pos by (simp add: zone_ok_def)
    then have uw: "unat ?w = ?p + 2 ^ h" by (simp add: unat_word_ariths push_bit_eq_mult unat_pow2 [OF h(3)])
    have "drop_bit 1 (push_bit (Suc h) 1) = (push_bit h 1 :: u32)"
      by (rule bit_eqI) (use h(4) in \<open>auto simp: bit_simps\<close>)
    moreover have "2 ^ h dvd ?p + 2 ^ h" "?p + 2 ^ h + 2 ^ h \<le> zone_size ?z" using d prems(5) by simp_all
    moreover have "blk (?p + 2 ^ h) h \<inter> avail ?z = {}" using split(2) prems(6) unfolding z split(1) by blast
    moreover have "zone_pages_ok mem ?z" by (rule zone_pages_ok_same [OF sz prems(7)])
    ultimately obtain z' q where zq: "expand mem ?z (?p + 2 ^ h) ?w (push_bit h 1) low h = Some (z', q)" "zone_ok z'"
        "2 ^ low dvd q" "blk q low \<subseteq> blk (?p + 2 ^ h) h" "avail z' = avail ?z \<union> (blk (?p + 2 ^ h) h - blk q low)" "same_zone ?z z'"
      using Suc.IH [OF z(1) lh h(2), of ?w] unfolding uw by blast
    have "expand mem z ?p w (push_bit (Suc h) 1) low (Suc h) = Some (z', q)"
      using range lh mark zq(1) \<open>drop_bit 1 (push_bit (Suc h) 1) = (push_bit h 1 :: u32)\<close>
      by (subst expand.simps) (simp add: Let_def unat_pow2 [OF h(3)])
    moreover have "avail z' = avail z \<union> (blk ?p (Suc h) - blk q low)"
      unfolding zq(5) z(2) split(1) by (rule carve [OF zq(4) split(2)])
    moreover have "blk q low \<subseteq> blk ?p (Suc h)" unfolding split(1) using zq(4) by (rule le_supI2)
    ultimately show ?thesis using zq(2,3) same_zone_trans [OF sz zq(6)] by fast
  qed
qed

lemma free_pages_update [simp]:
  "zone_ok (z\<lparr>free_pages := x\<rparr>) = zone_ok z" "avail (z\<lparr>free_pages := x\<rparr>) = avail z"
  "zone_pages_ok mem (z\<lparr>free_pages := x\<rparr>) = zone_pages_ok mem z" "BAD_RANGE (z\<lparr>free_pages := x\<rparr>) = BAD_RANGE z"
  by (simp_all add: zone_ok_def lists_ok_def bit_ok_def avail_def zone_pages_ok_def BAD_RANGE_def fun_eq_iff)

text \<open>The first block of a list is taken off with its bit changed.\<close>

definition unlink :: "zone \<Rightarrow> nat \<Rightarrow> nat \<Rightarrow> zone" where
  "unlink z k p = update_area z k (\<lambda>a. a\<lparr>free_list := remove1 p (free_list a)\<rparr>)"

definition taken :: "zone \<Rightarrow> nat \<Rightarrow> nat \<Rightarrow> zone" where
  "taken z k p = (if k \<noteq> MAX_ORDER - 1 then flip_pair (unlink z k p) k p else unlink z k p)"

lemma unlink_simps [simp]:
  "zone_size (unlink z k p) = zone_size z" "length (free_area (unlink z k p)) = length (free_area z)"
  "BAD_RANGE (unlink z k p) = BAD_RANGE z"
  "k < length (free_area z) \<Longrightarrow> lst (unlink z k p) l = (if l = k then remove1 p (lst z k) else lst z l)"
  "k < length (free_area z) \<Longrightarrow> bits (unlink z k p) l = bits z l"
  by (simp_all add: unlink_def)

lemma same_zone_taken: "same_zone z (taken z k p)"
  by (simp add: taken_def same_zone_def unlink_def flip_pair_def)

lemma taken_ok:
  assumes "zone_ok z" "k < MAX_ORDER" "p \<in> set (lst z k)"
  shows "zone_ok (taken z k p) \<and> avail (taken z k p) = avail z - blk p k"
proof -
  have len: "length (free_area z) = MAX_ORDER" using assms(1) by (simp add: zone_ok_def)
  have "toggled z k p (remove1 p (lst z k)) (taken z k p)"
  proof (cases "k = MAX_ORDER - 1")
    case True
    show ?thesis unfolding True by (rule toggled_top) (simp_all add: taken_def len MAX_ORDER_def)
  next
    case False
    then show ?thesis using assms(2) len by (simp add: toggled_def taken_def del: power_Suc)
  qed
  then show ?thesis by (rule take_ok [OF assms(1) _ assms(2,3)])
qed

lemma mark_taken:
  assumes "zone_ok z" "k < MAX_ORDER" "p \<in> set (lst z k)"
  shows "(if k \<noteq> MAX_ORDER - 1 then MARK_USED (of_nat p) k (unlink z k p) else Some (unlink z k p)) = Some (taken z k p)"
proof (cases "k = MAX_ORDER - 1")
  case False
  have p: "2 ^ k dvd p" "p + 2 ^ k \<le> zone_size z" "zone_size z < 2 ^ 32" "length (free_area z) = MAX_ORDER"
    using assms by (auto simp: zone_ok_def lists_ok_def)
  have "0 < (2 :: nat) ^ k" by simp
  then have ps: "p < zone_size z" using p(2) by linarith
  have u: "unat (of_nat p :: u32) = p" using ps p(3) by (intro of_nat_inverse [OF refl]) simp
  have "p div 2 ^ Suc k < length (bits z k)"
    using assms(1,2) False p(1) ps by (simp add: zone_ok_def bit_ok_def del: power_Suc)
  then show ?thesis
    using False assms(2) p(4) by (simp add: MARK_USED_def unat_pair_index u test_and_change_flip taken_def del: power_Suc)
qed (simp add: taken_def)

definition clean :: "(nat \<Rightarrow> page) \<Rightarrow> nat set \<Rightarrow> bool" where
  "clean mem A \<longleftrightarrow> (\<forall>q \<in> A. \<not> PageLRU (mem q) \<and> \<not> PageActive (mem q))"

lemma rmqueue_first:
  assumes "zone_ok z" "order \<le> c" "c < MAX_ORDER" "zone_pages_ok mem z" "clean mem (avail z)" "lst z c = p # ps"
  shows "\<exists>z' q. rmqueue_loop mem z order c = Some (z', Some q) \<and> zone_ok z' \<and> 2 ^ order dvd q \<and>
    blk q order \<subseteq> avail z \<and> avail z' = avail z - blk q order \<and>
    same_zone (z\<lparr>free_pages := free_pages z - push_bit order 1\<rparr>) z'"
proof -
  have p: "p \<in> set (lst z c)" using assms(6) by simp
  have pk: "2 ^ c dvd p" "p + 2 ^ c \<le> zone_size z" "zone_size z < 2 ^ 32"
    using assms(1,3) p by (auto simp: zone_ok_def lists_ok_def)
  have "0 < (2 :: nat) ^ c" by simp
  then have ps: "p < zone_size z" using pk(2) by linarith
  have u: "unat (of_nat p :: u32) = p" using ps pk(3) by (intro of_nat_inverse [OF refl]) simp
  let ?z = "(taken z c p)\<lparr>free_pages := free_pages (taken z c p) - push_bit order 1\<rparr>"
  have t: "zone_ok ?z" "avail ?z = avail z - blk p c" using taken_ok [OF assms(1,3) p] by simp_all
  have s: "same_zone z (taken z c p)" by (rule same_zone_taken)
  then have pg: "zone_pages_ok mem ?z" using zone_pages_ok_same [OF s assms(4)] by simp
  have "p + 2 ^ c \<le> zone_size ?z" using s pk(2) by (simp add: same_zone_def)
  moreover have "blk p c \<inter> avail ?z = {}" unfolding t(2) by blast
  ultimately obtain z' q where e: "expand mem ?z p (of_nat p) (push_bit c 1) order c = Some (z', q)" "zone_ok z'"
      "2 ^ order dvd q" "blk q order \<subseteq> blk p c" "avail z' = avail ?z \<union> (blk p c - blk q order)" "same_zone ?z z'"
    using expand_ok [OF t(1) assms(2,3), of "of_nat p" mem, unfolded u, OF pk(1) _ _ pg] by blast
  have sub: "blk p c \<subseteq> avail z" by (rule blk_avail [OF assms(3) p])
  then have q: "q \<in> avail z" using e(4) blk_nonempty by blast
  then have "q < zone_size z" using avail_size [of z] assms(1) by (auto simp: zone_ok_def)
  moreover have sz: "same_zone (z\<lparr>free_pages := free_pages z - push_bit order 1\<rparr>) z'"
    using s e(6) by (simp add: same_zone_def)
  ultimately have nq: "\<not> BAD_RANGE z' mem q" using zone_pages_ok_same [OF e(6) pg]
    by (intro not_BAD_RANGE) (auto simp: same_zone_def)
  have np: "\<not> BAD_RANGE z mem p" by (rule not_BAD_RANGE [OF assms(4) ps])
  have "rmqueue_loop mem z order c = Some (z', Some q)"
    using assms(3,5,6) np mark_taken [OF assms(1,3) p] e(1) nq q list_del_eq [OF p]
    by (subst rmqueue_loop.simps) (simp add: unlink_def [symmetric] clean_def)
  moreover have "avail z' = avail z - blk q order" unfolding e(5) t(2) using e(4) sub by blast
  ultimately show ?thesis using e(2-4) sub sz by blast
qed

lemma rmqueue_loop_ok:
  assumes "zone_ok z" "order \<le> c" "c < MAX_ORDER" "zone_pages_ok mem z" "clean mem (avail z)"
  shows "(rmqueue_loop mem z order c = Some (z, None) \<and> (\<forall>k. c \<le> k \<and> k < MAX_ORDER \<longrightarrow> lst z k = [])) \<or>
    (\<exists>z' q. rmqueue_loop mem z order c = Some (z', Some q) \<and> zone_ok z' \<and> 2 ^ order dvd q \<and>
      blk q order \<subseteq> avail z \<and> avail z' = avail z - blk q order \<and>
      same_zone (z\<lparr>free_pages := free_pages z - push_bit order 1\<rparr>) z')"
  using assms
proof (induction "MAX_ORDER - c" arbitrary: c)
  case (Suc n)
  show ?case
  proof (cases "lst z c")
    case Nil
    show ?thesis
    proof (cases "c + 1 < MAX_ORDER")
      case True
      have "rmqueue_loop mem z order c = rmqueue_loop mem z order (c + 1)"
        using Nil True by (subst rmqueue_loop.simps) simp
      moreover have "(\<forall>k. c \<le> k \<and> k < MAX_ORDER \<longrightarrow> lst z k = []) \<longleftrightarrow> (\<forall>k. c + 1 \<le> k \<and> k < MAX_ORDER \<longrightarrow> lst z k = [])"
        using Nil by (metis Suc_eq_plus1 Suc_leD not_less_eq_eq order_antisym)
      ultimately show ?thesis using Suc.hyps(1) [of "c + 1"] Suc.hyps(2) Suc.prems True by simp
    next
      case False
      then have "rmqueue_loop mem z order c = Some (z, None)"
        using Nil Suc.prems(3) by (subst rmqueue_loop.simps) simp
      moreover have "k = c" if "c \<le> k" "k < MAX_ORDER" for k using that False by simp
      ultimately show ?thesis using Nil by blast
    qed
  next
    case (Cons p ps)
    then show ?thesis using rmqueue_first [OF Suc.prems] by blast
  qed
qed simp

text \<open>A free aligned range lies inside one free block: buddies are always merged.\<close>

lemma free_range_in_block:
  assumes "zone_ok z" "k < MAX_ORDER" "2 ^ k dvd p" "blk p k \<subseteq> avail z"
  shows "\<exists>l q. k \<le> l \<and> l < MAX_ORDER \<and> q \<in> set (lst z l) \<and> blk p k \<subseteq> blk q l"
  using assms
proof (induction k arbitrary: p)
  case 0
  then have "p \<in> avail z" using blk_nonempty by blast
  then show ?case by (auto simp: avail_iff blk_def)
next
  case (Suc k)
  have b: "buddy p k = p + 2 ^ k" using Suc.prems(3) by (auto simp: buddy_def elim!: dvdE)
  have split: "blk p (Suc k) = blk p k \<union> blk (p + 2 ^ k) k" by (auto simp: blk_def)
  have d: "2 ^ k dvd p" "2 ^ k dvd p + 2 ^ k" using Suc.prems(3) by (auto dest: dvd_mult_right)
  have al: "2 ^ l dvd q" if "l < MAX_ORDER" "q \<in> set (lst z l)" for l q
    using Suc.prems(1) that by (simp add: zone_ok_def lists_ok_def)
  obtain l q where l: "k \<le> l" "l < MAX_ORDER" "q \<in> set (lst z l)" "blk p k \<subseteq> blk q l"
    using Suc.IH [OF Suc.prems(1) _ d(1)] Suc.prems(2,4) split by auto
  obtain l' q' where l': "k \<le> l'" "l' < MAX_ORDER" "q' \<in> set (lst z l')" "blk (p + 2 ^ k) k \<subseteq> blk q' l'"
    using Suc.IH [OF Suc.prems(1) _ d(2)] Suc.prems(2,4) split by auto
  have in_p: "p \<in> blk p (Suc k)" "p + 2 ^ k \<in> blk p (Suc k)" by (simp_all add: blk_def)
  have "\<not> (l = k \<and> l' = k)"
  proof
    assume eq: "l = k \<and> l' = k"
    have same: "q = p" if "blk p k \<subseteq> blk q k" for p q
    proof -
      have "p \<in> blk q k" using that blk_nonempty by blast
      moreover have "p + 2 ^ k \<le> q + 2 ^ k" using that unfolding blk_def by (subst (asm) ivl_subset) simp
      ultimately show ?thesis by (simp add: blk_def)
    qed
    have "p \<in> set (lst z k)" "buddy p k \<in> set (lst z k)" using l l' eq same b by auto
    moreover have "p < zone_size z" using Suc.prems(1,4) in_p(1) avail_size [of z] by (auto simp: zone_ok_def)
    ultimately show False using Suc.prems(1,2) d(1) by (auto simp: zone_ok_def bit_ok_def)
  qed
  then consider "Suc k \<le> l" | "Suc k \<le> l'" using l(1) l'(1) by linarith
  then show ?case
  proof cases
    case 1
    then show ?thesis using blocks_nested [OF Suc.prems(3) al [OF l(2,3)] 1 in_p(1)] l blk_nonempty by blast
  next
    case 2
    then show ?thesis using blocks_nested [OF Suc.prems(3) al [OF l'(2,3)] 2 in_p(2)] l' blk_nonempty by blast
  qed
qed

subsection \<open>The operations on the state\<close>

lemma upd_page_simps [simp]:
  "zn (upd_page p f st) = zn st" "max_mapnr (upd_page p f st) = max_mapnr st"
  "no_irq_head (upd_page p f st) = no_irq_head st" "PF_FREE_PAGES (upd_page p f st) = PF_FREE_PAGES st"
  "nr_local_pages (upd_page p f st) = nr_local_pages st" "local_pages (upd_page p f st) = local_pages st"
  "pages (upd_page p f st) = (pages st)(p := f (pages st p))" "VALID_PAGE (upd_page p f st) = VALID_PAGE st"
  by (simp_all add: upd_page_def VALID_PAGE_def fun_eq_iff)

definition zone_inv :: "mm_state \<Rightarrow> bool" where
  "zone_inv st \<longleftrightarrow> zone_ok (zn st) \<and> zone_pages_ok (pages st) (zn st) \<and> clean (pages st) (avail (zn st)) \<and>
     free_pages (zn st) = of_nat (card (avail (zn st))) \<and> zone_start_mapnr (zn st) + zone_size (zn st) \<le> max_mapnr st"

lemma finite_avail [simp]: "finite (avail z)"
  by (auto simp: avail_def blk_def)

lemma card_blk [simp]: "card (blk p k) = 2 ^ k" "finite (blk p k)"
  by (simp_all add: blk_def)

definition fits :: "mm_state \<Rightarrow> nat \<Rightarrow> nat \<Rightarrow> bool" where
  "fits st p k \<longleftrightarrow> k < MAX_ORDER \<and> 2 ^ k dvd p \<and> p + 2 ^ k \<le> zone_size (zn st)"

lemma fits_lt: "fits st p k \<Longrightarrow> p < zone_size (zn st)"
proof -
  assume "fits st p k"
  moreover have "0 < (2 :: nat) ^ k" by simp
  ultimately show ?thesis unfolding fits_def by linarith
qed

lemma free_to_zone_ok:
  assumes "zone_inv st" "fits st p k" "blk p k \<inter> avail (zn st) = {}" "clean (pages st) (blk p k)"
  shows "\<exists>z'. free_to_zone p k st = Some (st\<lparr>zn := z'\<rparr>) \<and> zone_inv (st\<lparr>zn := z'\<rparr>) \<and>
    avail z' = avail (zn st) \<union> blk p k \<and> zone_size z' = zone_size (zn st)"
proof -
  note f = assms(2) [unfolded fits_def] and i = assms(1) [unfolded zone_inv_def]
  let ?w = "of_nat p :: u32" and ?z = "(zn st)\<lparr>free_pages := free_pages (zn st) - push_bit k (- 1)\<rparr>"
  have "p < 2 ^ LENGTH(32)" using fits_lt [OF assms(2)] i by (simp add: zone_ok_def)
  then have u: "unat ?w = p" by (intro of_nat_inverse [OF refl])
  have "?w AND NOT (push_bit k (- 1)) = take_bit k ?w" by (simp add: mask_word take_bit_eq_mask)
  moreover have "unat (take_bit k ?w) = 0" unfolding unat_take_bit' u using f by (simp add: dvd_imp_mod_0)
  ultimately have al: "?w AND NOT (push_bit k (- 1)) = 0" by (simp add: unat_eq_0)
  obtain z' where z': "free_loop (pages st) ?z k (push_bit k (- 1)) (drop_bit (Suc k) ?w) ?w = Some z'" "zone_ok z'"
      "avail z' = avail (zn st) \<union> blk p k" "same_zone ?z z'"
    using free_loop_ok [of ?z k ?w "pages st", unfolded u] f i assms(3) by auto
  have "free_to_zone p k st = Some (st\<lparr>zn := z'\<rparr>)" using al z'(1) by (simp only: free_to_zone_def Let_def) simp
  moreover have "card (avail z') = card (avail (zn st)) + 2 ^ k"
    unfolding z'(3) using assms(3) by (subst card_Un_disjoint) auto
  then have "free_pages (zn st) - push_bit k (- 1) = of_nat (card (avail z'))"
    using i minus_mask_word [of k] by (simp add: diff_conv_add_uminus del: push_bit_minus_one_eq_not_mask)
  then have "zone_inv (st\<lparr>zn := z'\<rparr>)"
    using i z' assms(4) by (auto simp: zone_inv_def same_zone_def zone_pages_ok_def clean_def)
  ultimately show ?thesis using z'(3,4) by (auto simp: same_zone_def)
qed

lemma rmqueue_ok:
  assumes "zone_inv st" "order < MAX_ORDER"
  shows "(rmqueue order st = Some (st, None) \<and> (\<forall>p. 2 ^ order dvd p \<longrightarrow> \<not> blk p order \<subseteq> avail (zn st))) \<or>
    (\<exists>z' p. let st' = upd_page p (\<lambda>pg. pg\<lparr>page_count := 1\<rparr>) (st\<lparr>zn := z'\<rparr>) in
      rmqueue order st = Some (st', Some p) \<and> zone_inv st' \<and> 2 ^ order dvd p \<and> blk p order \<subseteq> avail (zn st) \<and>
      avail z' = avail (zn st) - blk p order \<and> zone_size z' = zone_size (zn st))"
proof -
  note i = assms(1) [unfolded zone_inv_def]
  consider "rmqueue_loop (pages st) (zn st) order order = Some (zn st, None)" "\<forall>k. order \<le> k \<and> k < MAX_ORDER \<longrightarrow> lst (zn st) k = []"
    | z' p where "rmqueue_loop (pages st) (zn st) order order = Some (z', Some p)" "zone_ok z'" "2 ^ order dvd p"
      "blk p order \<subseteq> avail (zn st)" "avail z' = avail (zn st) - blk p order"
      "same_zone ((zn st)\<lparr>free_pages := free_pages (zn st) - push_bit order 1\<rparr>) z'"
    using rmqueue_loop_ok [OF _ order.refl assms(2), of "zn st" "pages st"] i by blast
  then show ?thesis
  proof cases
    case 1
    then have "\<not> blk p order \<subseteq> avail (zn st)" if "2 ^ order dvd p" for p
      using free_range_in_block [OF _ assms(2) that, of "zn st"] i by fastforce
    then show ?thesis using 1(1) by (simp add: rmqueue_def)
  next
    case 2
    let ?st = "upd_page p (\<lambda>pg. pg\<lparr>page_count := 1\<rparr>) (st\<lparr>zn := z'\<rparr>)"
    have "card (avail z') = card (avail (zn st)) - 2 ^ order" "2 ^ order \<le> card (avail (zn st))"
      using card_Diff_subset [OF _ 2(4)] card_mono [OF _ 2(4)] unfolding 2(5) by simp_all
    then have "free_pages (zn st) - push_bit order 1 = of_nat (card (avail z'))"
      using i by (simp add: of_nat_diff push_bit_eq_mult)
    then have "zone_inv ?st"
      using i 2(2,5,6) by (auto simp: zone_inv_def same_zone_def zone_pages_ok_def clean_def)
    moreover have "rmqueue order st = Some (?st, Some p)" using 2(1) by (simp add: rmqueue_def)
    ultimately show ?thesis using 2(3-6) by (intro disjI2 exI [of _ z'] exI [of _ p]) (simp add: same_zone_def)
  qed
qed

text \<open>
  C3.  The page allocator hands out free memory and finds it whenever there is some: on a zone in
  order, a request for \<open>2 ^ order\<close> pages returns an aligned block of pages that were all free, which
  are exactly the pages that stop being free, with reference count 1; it returns NULL only when no
  aligned range of that size is free, however the memory was split and merged before.
\<close>

theorem rmqueue_correct:
  assumes "zone_inv st" "order < MAX_ORDER"
  shows "(rmqueue order st = Some (st, None) \<and> (\<forall>p. 2 ^ order dvd p \<longrightarrow> \<not> blk p order \<subseteq> avail (zn st))) \<or>
    (\<exists>st' p. rmqueue order st = Some (st', Some p) \<and> zone_inv st' \<and> 2 ^ order dvd p \<and> blk p order \<subseteq> avail (zn st) \<and>
      avail (zn st') = avail (zn st) - blk p order \<and> page_count (pages st' p) = 1)"
  using rmqueue_ok [OF assms] unfolding Let_def by fastforce

subsection \<open>Allocations in any order\<close>

text \<open>
  The caller's side of \<open>__free_pages_ok\<close>: what it checks of the first page, and what nobody checks,
  that the other pages of the block are on no reclaim list.
\<close>

definition freeable :: "mm_state \<Rightarrow> nat \<Rightarrow> nat \<Rightarrow> bool" where
  "freeable st p k \<longleftrightarrow> \<not> page_buffers (pages st p) \<and> \<not> page_mapping (pages st p) \<and> \<not> PageLocked (pages st p) \<and>
     (PageActive (pages st p) \<longrightarrow> PageLRU (pages st p)) \<and> clean (pages st) (blk p k - {p})"

text \<open>The blocks of the pages in a list whose order is kept in \<open>page->index\<close>.\<close>

definition tagged :: "mm_state \<Rightarrow> nat list \<Rightarrow> (nat \<times> nat) set" where
  "tagged st ps = (\<lambda>p. (p, page_order (pages st p))) ` set ps"

definition held_ok :: "mm_state \<Rightarrow> (nat \<times> nat) set \<Rightarrow> bool" where
  "held_ok st H \<longleftrightarrow> (\<forall>p k. (p, k) \<in> H \<longrightarrow> fits st p k \<and> blk p k \<inter> avail (zn st) = {}) \<and>
     (\<forall>p k q l. (p, k) \<in> H \<longrightarrow> (q, l) \<in> H \<longrightarrow> (p, k) \<noteq> (q, l) \<longrightarrow> blk p k \<inter> blk q l = {})"

text \<open>Owned blocks \<open>Q\<close>, deferred blocks \<open>ps\<close> and the task-local list are kept apart from each other
  and from the free lists.\<close>

definition sys_inv :: "mm_state \<Rightarrow> (nat \<times> nat) set \<Rightarrow> nat list \<Rightarrow> bool" where
  "sys_inv st Q ps \<longleftrightarrow> zone_inv st \<and> held_ok st (Q \<union> tagged st ps \<union> tagged st (local_pages st)) \<and>
     Q \<inter> tagged st ps = {} \<and> Q \<inter> tagged st (local_pages st) = {} \<and> tagged st ps \<inter> tagged st (local_pages st) = {} \<and>
     distinct ps \<and> distinct (local_pages st) \<and> (\<forall>(p, k) \<in> tagged st ps. freeable st p k)"

lemma held_ok_disjoint:
  "held_ok st H \<Longrightarrow> (p, k) \<in> H \<Longrightarrow> (q, l) \<in> H \<Longrightarrow> x \<in> blk p k \<Longrightarrow> x \<in> blk q l \<Longrightarrow> p = q \<and> k = l"
  unfolding held_ok_def by (metis IntI Pair_inject emptyE)

lemma held_ok_mono: "held_ok st H \<Longrightarrow> H' \<subseteq> H \<Longrightarrow> held_ok st H'"
  unfolding held_ok_def by (meson subsetD)

lemma held_ok_change:
  assumes "held_ok st H" "zone_size (zn st') = zone_size (zn st)" "avail (zn st') \<subseteq> avail (zn st) \<union> B"
    and "\<And>p k. (p, k) \<in> H \<Longrightarrow> blk p k \<inter> B = {}"
  shows "held_ok st' H"
proof -
  have "blk p k \<inter> avail (zn st') = {}" if "(p, k) \<in> H" for p k
    using assms(1) that assms(3) assms(4) [OF that] unfolding held_ok_def by blast
  then show ?thesis using assms(1,2) unfolding held_ok_def fits_def by simp
qed

lemma tagged_cong: "(\<And>p. p \<in> set ps \<Longrightarrow> page_order (pages st' p) = page_order (pages st p)) \<Longrightarrow> tagged st' ps = tagged st ps"
  by (auto simp: tagged_def)

lemma freeable_cong: "(\<And>q. q \<in> blk p k \<Longrightarrow> pages st' q = pages st q) \<Longrightarrow> freeable st' p k = freeable st p k"
  using blk_nonempty [of p k] by (simp add: freeable_def clean_def)

lemma lru_cache_del_simps [simp]:
  "page_buffers (lru_cache_del pg) = page_buffers pg" "page_mapping (lru_cache_del pg) = page_mapping pg"
  "PageLocked (lru_cache_del pg) = PageLocked pg" "\<not> PageLRU (lru_cache_del pg)" "page_zone (lru_cache_del pg) = page_zone pg"
  "(PageActive pg \<longrightarrow> PageLRU pg) \<Longrightarrow> \<not> PageActive (lru_cache_del pg)" "page_order (lru_cache_del pg) = page_order pg"
  by (auto simp: lru_cache_del_def)

text \<open>The three ways a block can be freed: put off to the task queue, kept by the task, or merged into the
  free lists; \<open>f\<close> is the new first page.\<close>

definition freed_as :: "bool \<Rightarrow> nat \<Rightarrow> nat \<Rightarrow> mm_state \<Rightarrow> page \<Rightarrow> mm_state \<Rightarrow> bool" where
  "freed_as irq p k st f st' \<longleftrightarrow>
     PageLRU (pages st p) \<and> irq \<and> zn st' = zn st \<and> no_irq_head st' = p # no_irq_head st \<and> local_pages st' = local_pages st \<and>
       f = (pages st p)\<lparr>page_order := k\<rparr>
     \<or> \<not> (PageLRU (pages st p) \<and> irq) \<and> zn st' = zn st \<and> no_irq_head st' = no_irq_head st \<and>
       local_pages st' = p # local_pages st \<and> page_order f = k \<and> PF_FREE_PAGES st
     \<or> \<not> (PageLRU (pages st p) \<and> irq) \<and> avail (zn st') = avail (zn st) \<union> blk p k \<and> no_irq_head st' = no_irq_head st \<and>
       local_pages st' = local_pages st"

lemma free_pages_ok_cases:
  assumes "zone_inv st" "fits st p k" "blk p k \<inter> avail (zn st) = {}" "freeable st p k"
  shows "\<exists>st' f. free_pages_ok irq p k st = Some st' \<and> zone_inv st' \<and> pages st' = (pages st)(p := f) \<and>
    zone_size (zn st') = zone_size (zn st) \<and> PF_FREE_PAGES st' = PF_FREE_PAGES st \<and>
    freed_as irq p k st f st'"
proof -
  have p: "p \<notin> avail (zn st)" "p < zone_size (zn st)" using assms(3) blk_nonempty [of p k] fits_lt [OF assms(2)] by auto
  have keep: "zone_inv st'" if "zn st' = zn st" "max_mapnr st' = max_mapnr st" "pages st' = (pages st)(p := f)"
    "page_zone f = page_zone (pages st p)" for st' f
    using assms(1) that p(1) by (auto simp: zone_inv_def zone_pages_ok_def clean_def)
  show ?thesis
  proof (cases "PageLRU (pages st p) \<and> irq")
    case True
    then show ?thesis
      by (intro exI [of _ "upd_page p (\<lambda>pg. pg\<lparr>page_order := k\<rparr>) (st\<lparr>no_irq_head := p # no_irq_head st\<rparr>)"] exI)
        (auto simp: free_pages_ok_def freed_as_def intro!: keep)
  next
    case no_defer: False
    define f where "f = (lru_cache_del (pages st p))\<lparr>PageReferenced := False, PageDirty := False\<rparr>"
    let ?st = "upd_page p (\<lambda>pg. pg\<lparr>PageReferenced := False, PageDirty := False\<rparr>) (upd_page p lru_cache_del st)"
    have st: "pages ?st = (pages st)(p := f)" by (simp add: f_def)
    have inv: "zone_inv ?st" by (rule keep [of _ f]) (simp_all add: f_def)
    have valid: "VALID_PAGE st p" using assms(1) p(2) by (simp add: VALID_PAGE_def zone_inv_def)
    have lru: "\<not> PageActive (lru_cache_del (pages st p))" using assms(4) by (simp add: freeable_def)
    have e: "free_pages_ok irq p k st = (if PF_FREE_PAGES st \<and> nr_local_pages st = 0 \<and> \<not> irq
        then Some (upd_page p (\<lambda>pg. pg\<lparr>page_order := k\<rparr>)
            (?st\<lparr>local_pages := p # local_pages st, nr_local_pages := nr_local_pages st + 1\<rparr>))
        else free_to_zone p k ?st)"
      using assms(4) valid lru unfolding free_pages_ok_def if_not_P [OF no_defer] by (simp add: freeable_def Let_def)
    show ?thesis
    proof (cases "PF_FREE_PAGES st \<and> nr_local_pages st = 0 \<and> \<not> irq")
      case True
      then show ?thesis using no_defer unfolding e
        by (intro exI [of _ "upd_page p (\<lambda>pg. pg\<lparr>page_order := k\<rparr>)
            (?st\<lparr>local_pages := p # local_pages st, nr_local_pages := nr_local_pages st + 1\<rparr>)"] exI [of _ "f\<lparr>page_order := k\<rparr>"])
          (auto simp: f_def freed_as_def intro!: keep)
    next
      case False
      have cl: "clean (pages ?st) (blk p k)"
        using assms(4) lru unfolding st by (auto simp: clean_def freeable_def f_def)
      have fit: "fits ?st p k" "blk p k \<inter> avail (zn ?st) = {}" using assms(2,3) by (simp_all add: fits_def)
      obtain z' where z': "free_to_zone p k ?st = Some (?st\<lparr>zn := z'\<rparr>)" "zone_inv (?st\<lparr>zn := z'\<rparr>)"
          "avail z' = avail (zn ?st) \<union> blk p k" "zone_size z' = zone_size (zn ?st)"
        using free_to_zone_ok [OF inv fit cl] by blast
      then show ?thesis using no_defer unfolding e if_not_P [OF False]
        by (intro exI [of _ "?st\<lparr>zn := z'\<rparr>"] exI [of _ f]) (simp add: f_def freed_as_def)
    qed
  qed
qed

lemma sys_inv_release:
  assumes "sys_inv st (insert (p, k) Q) ps" "(p, k) \<notin> Q" "freeable st p k"
  shows "\<exists>st'. free_pages_ok irq p k st = Some st' \<and>
    sys_inv st' Q (if PageLRU (pages st p) \<and> irq then p # ps else ps) \<and>
    no_irq_head st' = (if PageLRU (pages st p) \<and> irq then p # no_irq_head st else no_irq_head st)"
proof -
  let ?T = "tagged st ps" and ?L = "tagged st (local_pages st)"
  let ?H = "insert (p, k) Q \<union> ?T \<union> ?L"
  note i = assms(1) [unfolded sys_inv_def]
  have H: "held_ok st ?H" and inv: "zone_inv st" using i by simp_all
  then have pk: "fits st p k" "blk p k \<inter> avail (zn st) = {}" unfolding held_ok_def by auto
  have notin: "(p, l) \<notin> Q \<union> ?T \<union> ?L" for l
  proof
    assume a: "(p, l) \<in> Q \<union> ?T \<union> ?L"
    then have "k = l" using held_ok_disjoint [OF H, of p k p l p] blk_nonempty by auto
    then show False using a assms(2) i by auto
  qed
  then have out: "p \<notin> set ps" "p \<notin> set (local_pages st)" by (auto simp: tagged_def)
  obtain st' f where s: "free_pages_ok irq p k st = Some st'" "zone_inv st'" "pages st' = (pages st)(p := f)"
      "zone_size (zn st') = zone_size (zn st)" and c: "freed_as irq p k st f st'"
    using free_pages_ok_cases [OF inv pk assms(3)] by blast
  have t: "tagged st' ps = ?T" "tagged st' (local_pages st) = ?L" using out s(3) by (auto intro!: tagged_cong)
  have fr: "freeable st' q l = freeable st q l" if "(q, l) \<in> ?T" for q l
  proof (rule freeable_cong)
    fix x assume "x \<in> blk q l"
    then have "x \<noteq> p" using held_ok_disjoint [OF H, of p k q l p] that notin blk_nonempty by auto
    then show "pages st' x = pages st x" using s(3) by simp
  qed
  have fo: "\<forall>(q, l) \<in> ?T. freeable st' q l" using i fr by auto
  have move: "held_ok st' H'" if "zn st' = zn st" "H' \<subseteq> ?H" for H'
    by (rule held_ok_change [OF held_ok_mono [OF H that(2)], of _ "{}"]) (simp_all add: that(1))
  from c show ?thesis unfolding freed_as_def
  proof (elim disjE conjE)
    assume a: "PageLRU (pages st p)" "irq" "zn st' = zn st" "no_irq_head st' = p # no_irq_head st"
      "local_pages st' = local_pages st" "f = (pages st p)\<lparr>page_order := k\<rparr>"
    have tp: "tagged st' (p # ps) = insert (p, k) ?T" using t(1) s(3) a(6) by (auto simp: tagged_def)
    have "freeable st' p k" using assms(3) s(3) a(6) by (simp add: freeable_def clean_def)
    then have "sys_inv st' Q (p # ps)"
      using s(2) i t fo a(5) out move [OF a(3)] notin assms(2) unfolding sys_inv_def tp by auto
    then show ?thesis using a s(1) by auto
  next
    assume a: "\<not> (PageLRU (pages st p) \<and> irq)" "zn st' = zn st" "no_irq_head st' = no_irq_head st"
      "local_pages st' = p # local_pages st" "page_order f = k" "PF_FREE_PAGES st"
    have tp: "tagged st' (local_pages st') = insert (p, k) ?L" using t(2) s(3) a(4,5) by (auto simp: tagged_def)
    have "sys_inv st' Q ps"
      using s(2) i t fo a(4) out move [OF a(2)] notin assms(2) unfolding sys_inv_def tp t by auto
    then show ?thesis using a s(1) by auto
  next
    assume a: "\<not> (PageLRU (pages st p) \<and> irq)" "avail (zn st') = avail (zn st) \<union> blk p k" "no_irq_head st' = no_irq_head st"
      "local_pages st' = local_pages st"
    have "blk q l \<inter> blk p k = {}" if "(q, l) \<in> Q \<union> ?T \<union> ?L" for q l
      using held_ok_disjoint [OF H, of p k q l] that notin by auto
    then have "held_ok st' (Q \<union> ?T \<union> ?L)"
      using held_ok_change [OF held_ok_mono [OF H, of "Q \<union> ?T \<union> ?L"] s(4), of "blk p k"] a(2) by auto
    then have "sys_inv st' Q ps" using s(2) i t fo a(4) unfolding sys_inv_def by auto
    then show ?thesis using a s(1) by auto
  qed
qed

lemma sys_inv_shift:
  "sys_inv st Q (p # ps) \<Longrightarrow>
   sys_inv st (insert (p, page_order (pages st p)) Q) ps \<and> (p, page_order (pages st p)) \<notin> Q \<and>
   freeable st p (page_order (pages st p))"
  unfolding sys_inv_def by (auto simp: tagged_def)

lemma free_chain_ok:
  assumes "sys_inv st Q ps" "no_irq_head st = []"
  shows "\<exists>st'. free_chain ps st = Some st' \<and> sys_inv st' Q [] \<and> no_irq_head st' = []"
  using assms
proof (induction ps arbitrary: st)
  case (Cons p ps)
  let ?k = "page_order (pages st p)"
  obtain st1 where "free_pages_ok False p ?k st = Some st1" "sys_inv st1 Q ps" "no_irq_head st1 = []"
    using sys_inv_release [of st p ?k Q ps False] sys_inv_shift [OF Cons.prems(1)] Cons.prems(2) by auto
  then show ?case using Cons.IH by simp
qed simp

lemma drain_ok:
  assumes "sys_inv st Q (no_irq_head st)"
  shows "\<exists>st'. do_free_pages_ok_no_irq st = Some st' \<and> sys_inv st' Q (no_irq_head st')"
proof -
  have "sys_inv (st\<lparr>no_irq_head := []\<rparr>) Q (no_irq_head st)"
    using assms by (simp add: sys_inv_def zone_inv_def held_ok_def fits_def tagged_def freeable_def)
  then show ?thesis using free_chain_ok [of "st\<lparr>no_irq_head := []\<rparr>" Q "no_irq_head st"]
    by (auto simp: do_free_pages_ok_no_irq_def)
qed

text \<open>
  The system: the allocator and the blocks that its callers own.  Callers allocate, free what they
  own (in an interrupt or not), and write to the page structures of their blocks; the task queue runs
  the deferred list; \<open>balance_classzone\<close> sets and clears \<open>PF_FREE_PAGES\<close>.
\<close>

record buddy_sys =
  mm :: mm_state
  owned :: "(nat \<times> nat) set"

inductive buddy_step :: "buddy_sys \<Rightarrow> buddy_sys \<Rightarrow> bool" where
  alloc: "order < MAX_ORDER \<Longrightarrow> rmqueue order (mm s) = Some (st', r) \<Longrightarrow>
    buddy_step s \<lparr>mm = st', owned = (case r of None \<Rightarrow> owned s | Some p \<Rightarrow> insert (p, order) (owned s))\<rparr>"
| release: "(p, order) \<in> owned s \<Longrightarrow> freeable (mm s) p order \<Longrightarrow> free_pages_ok irq p order (mm s) = Some st' \<Longrightarrow>
    buddy_step s \<lparr>mm = st', owned = owned s - {(p, order)}\<rparr>"
| drain: "do_free_pages_ok_no_irq (mm s) = Some st' \<Longrightarrow> buddy_step s \<lparr>mm = st', owned = owned s\<rparr>"
| owner_writes: "(p, order) \<in> owned s \<Longrightarrow> q \<in> blk p order \<Longrightarrow> page_zone f = page_zone (pages (mm s) q) \<Longrightarrow>
    buddy_step s \<lparr>mm = (mm s)\<lparr>pages := (pages (mm s))(q := f)\<rparr>, owned = owned s\<rparr>"
| set_flag: "buddy_step s \<lparr>mm = (mm s)\<lparr>PF_FREE_PAGES := b\<rparr>, owned = owned s\<rparr>"

text \<open>After \<open>free_area_init\<close> every page is reserved: the boot code owns it.\<close>

definition boot_state :: "nat \<Rightarrow> nat \<Rightarrow> nat \<Rightarrow> (nat \<Rightarrow> page) \<Rightarrow> nat \<Rightarrow> mm_state" where
  "boot_state zid offset sz mem mapnr = \<lparr>zn = free_area_init zid offset sz, pages = init_pages zid sz mem,
     max_mapnr = mapnr, no_irq_head = [], PF_FREE_PAGES = False, nr_local_pages = 0, local_pages = []\<rparr>"

definition buddy_start :: "buddy_sys \<Rightarrow> bool" where
  "buddy_start s \<longleftrightarrow> (\<exists>zid offset sz mem mapnr. sz < 2 ^ 32 \<and> offset + sz \<le> mapnr \<and>
     s = \<lparr>mm = boot_state zid offset sz mem mapnr, owned = {(p, 0) | p. p < sz}\<rparr>)"

definition buddy_inv :: "buddy_sys \<Rightarrow> bool" where
  "buddy_inv s \<longleftrightarrow> sys_inv (mm s) (owned s) (no_irq_head (mm s))"

subsubsection \<open>The invariant\<close>

lemma bitmap_large_enough:
  assumes "p < sz" shows "p div 2 ^ Suc i < 8 * bitmap_size sz i"
proof -
  have "p div 2 ^ Suc i \<le> (sz - 1) div 2 ^ Suc i" using assms by (intro div_le_mono) simp
  also have "\<dots> < 8 * ((sz - 1) div 2 ^ (i + 4) + 1)"
  proof -
    have "(2 :: nat) ^ (i + 4) = 2 ^ Suc i * 8" by (simp add: power_add)
    then have "(sz - 1) div 2 ^ (i + 4) = (sz - 1) div 2 ^ Suc i div 8" by (simp only: div_mult2_eq)
    moreover have "n < 8 * (n div 8 + 1)" for n :: nat
      using dividend_less_times_div [of 8 n] by simp
    ultimately show ?thesis by simp
  qed
  also have "\<dots> \<le> 8 * bitmap_size sz i"
  proof -
    have "n \<le> (n + 3) div 4 * 4 * 2" for n :: nat
    proof -
      have "(n + 3) mod 4 < 4" by simp
      then show ?thesis using div_mult_mod_eq [of "n + 3" 4] by linarith
    qed
    then show ?thesis unfolding bitmap_size_def LONG_ALIGN_def by (rule mult_le_mono2)
  qed
  finally show ?thesis .
qed

lemma boot_zone:
  assumes "sz < 2 ^ 32"
  shows "zone_ok (free_area_init zid offset sz) \<and> avail (free_area_init zid offset sz) = {}"
proof -
  let ?z = "free_area_init zid offset sz"
  have L: "lst ?z k = []" if "k < MAX_ORDER" for k using that by (simp add: free_area_init_def init_area_def)
  have "bit_ok ?z k p" if "k < MAX_ORDER - 1" "p < sz" for k p
    using that L [of k] bitmap_large_enough [OF that(2), of k]
    by (simp add: bit_ok_def free_area_init_def init_area_def del: power_Suc)
  then show ?thesis using assms L by (auto simp: zone_ok_def lists_ok_def avail_def free_area_init_def)
qed

lemma buddy_start_inv: "buddy_start s \<Longrightarrow> buddy_inv s"
proof -
  assume "buddy_start s"
  then obtain zid offset sz mem mapnr where s: "sz < 2 ^ 32" "offset + sz \<le> mapnr"
      "s = \<lparr>mm = boot_state zid offset sz mem mapnr, owned = {(p, 0) | p. p < sz}\<rparr>"
    unfolding buddy_start_def by blast
  have z: "zone_ok (free_area_init zid offset sz)" "avail (free_area_init zid offset sz) = {}" "zone_size (free_area_init zid offset sz) = sz"
    using boot_zone [OF s(1)] by (simp_all add: free_area_init_def)
  show ?thesis unfolding buddy_inv_def sys_inv_def s(3)
    using z s(2) by (auto simp: zone_inv_def held_ok_def fits_def boot_state_def tagged_def clean_def zone_pages_ok_def
        init_pages_def blk_def MAX_ORDER_def) (auto simp: free_area_init_def)
qed

lemma sys_inv_write:
  assumes "sys_inv st Q ps" "(p, k) \<in> Q" "q \<in> blk p k" "page_zone f = page_zone (pages st q)"
  shows "sys_inv (st\<lparr>pages := (pages st)(q := f)\<rparr>) Q ps"
proof -
  let ?st = "st\<lparr>pages := (pages st)(q := f)\<rparr>"
  note i = assms(1) [unfolded sys_inv_def]
  have H: "held_ok st (Q \<union> tagged st ps \<union> tagged st (local_pages st))" using i by blast
  have q: "q \<notin> avail (zn st)" using H assms(2,3) unfolding held_ok_def by blast
  have away: "q \<notin> blk a b" if "(a, b) \<in> tagged st ps \<union> tagged st (local_pages st)" for a b
    using held_ok_disjoint [OF H, of p k a b q] assms(2,3) that i by auto
  then have ne: "a \<noteq> q" if "a \<in> set ps \<union> set (local_pages st)" for a
    using that blk_nonempty [of a] by (fastforce simp: tagged_def)
  have t: "tagged ?st ps = tagged st ps" "tagged ?st (local_pages st) = tagged st (local_pages st)"
    using ne by (auto intro!: tagged_cong)
  have "freeable ?st a b = freeable st a b" if "(a, b) \<in> tagged st ps" for a b
    using away [of a b] that by (intro freeable_cong) auto
  then have "\<forall>(a, b) \<in> tagged st ps. freeable ?st a b" using i by auto
  moreover have "zone_inv ?st"
    using i q assms(4) by (auto simp: zone_inv_def zone_pages_ok_def clean_def)
  moreover have "held_ok ?st (Q \<union> tagged st ps \<union> tagged st (local_pages st))"
    using H by (simp add: held_ok_def fits_def)
  ultimately show ?thesis using i t by (simp add: sys_inv_def)
qed

lemma sys_inv_alloc:
  assumes "sys_inv st Q ps" "order < MAX_ORDER" "rmqueue order st = Some (st', r)"
  shows "sys_inv st' (case r of None \<Rightarrow> Q | Some p \<Rightarrow> insert (p, order) Q) ps \<and> no_irq_head st' = no_irq_head st"
proof -
  note i = assms(1) [unfolded sys_inv_def]
  let ?H = "Q \<union> tagged st ps \<union> tagged st (local_pages st)"
  have H: "held_ok st ?H" using i by blast
  from rmqueue_ok [of st order] i assms(2) consider "r = None" "st' = st"
    | z' p where "st' = upd_page p (\<lambda>pg. pg\<lparr>page_count := 1\<rparr>) (st\<lparr>zn := z'\<rparr>)" "r = Some p" "zone_inv st'"
      "2 ^ order dvd p" "blk p order \<subseteq> avail (zn st)" "avail z' = avail (zn st) - blk p order" "zone_size z' = zone_size (zn st)"
    using assms(3) unfolding Let_def by auto
  then show ?thesis
  proof cases
    case 1
    then show ?thesis using assms(1) by simp
  next
    case 2
    have po: "page_order (pages st' q) = page_order (pages st q)" for q unfolding 2(1) by simp
    have t: "tagged st' xs = tagged st xs" for xs by (rule tagged_cong) (rule po)
    have l: "local_pages st' = local_pages st" "zn st' = z'" "no_irq_head st' = no_irq_head st" unfolding 2(1) by simp_all
    have dis: "blk a b \<inter> blk p order = {}" if "(a, b) \<in> ?H" for a b
      using H that 2(5) unfolding held_ok_def by blast
    have "0 < (2 :: nat) ^ order" by simp
    then have "p + 2 ^ order - 1 \<in> blk p order" unfolding blk_def atLeastLessThan_iff by linarith
    then have "p + 2 ^ order - 1 < zone_size (zn st)" using 2(5) i avail_size [of "zn st"] by (auto simp: zone_inv_def zone_ok_def)
    then have fit: "fits st' p order" using assms(2) 2(4,7) l by (simp add: fits_def)
    have new: "(p, order) \<notin> ?H" using dis [of p order] blk_nonempty [of p order] by blast
    have "held_ok st' ?H" by (rule held_ok_change [OF H, of _ "{}"]) (auto simp: l 2)
    then have "held_ok st' (insert (p, order) ?H)"
      using fit dis 2(6) l unfolding held_ok_def by (auto simp: Int_commute)
    moreover have "freeable st' a b" if "(a, b) \<in> tagged st ps" for a b
      using i that dis [of a b] unfolding 2(1) by (auto simp: freeable_def clean_def)
    ultimately show ?thesis using i t l 2(2,3) new unfolding sys_inv_def by auto
  qed
qed

lemma buddy_step_inv: "buddy_step s s' \<Longrightarrow> buddy_inv s \<Longrightarrow> buddy_inv s'"
proof (induction rule: buddy_step.induct)
  case (alloc order s st' r)
  then show ?case using sys_inv_alloc by (auto simp: buddy_inv_def)
next
  case (release p order s irq st')
  then have "sys_inv (mm s) (insert (p, order) (owned s - {(p, order)})) (no_irq_head (mm s))"
    by (simp add: buddy_inv_def insert_absorb)
  then show ?case using sys_inv_release [of "mm s" p order "owned s - {(p, order)}" "no_irq_head (mm s)" irq] release
    by (auto simp: buddy_inv_def split: if_splits)
next
  case (drain s st')
  then show ?case using drain_ok by (fastforce simp: buddy_inv_def)
next
  case (owner_writes p order s q f)
  then show ?case using sys_inv_write [of "mm s" "owned s" "no_irq_head (mm s)"] by (simp add: buddy_inv_def)
next
  case (set_flag s b)
  then show ?case
    by (simp add: buddy_inv_def sys_inv_def zone_inv_def held_ok_def fits_def tagged_def freeable_def)
qed

interpretation bsm: state_machine buddy_start buddy_step buddy_inv
  by unfold_locales (rule buddy_start_inv, assumption, rule buddy_step_inv)

text \<open>
  C2.  No page is given out twice: from boot on, whatever is allocated, freed in or out of interrupts and
  written to in whatever order, two blocks with different owners never overlap, an owned block has no free page, every
  owned block lies in the zone, and the counter \<open>free_pages\<close> is the number of free pages.
\<close>

theorem buddy_safe:
  assumes "buddy_start s" "buddy_step\<^sup>*\<^sup>* s s'" "(p, k) \<in> owned s'"
  shows "p + 2 ^ k \<le> zone_size (zn (mm s')) \<and> blk p k \<inter> avail (zn (mm s')) = {} \<and>
    (\<forall>q l. (q, l) \<in> owned s' \<and> (q, l) \<noteq> (p, k) \<longrightarrow> blk q l \<inter> blk p k = {}) \<and>
    unat (free_pages (zn (mm s'))) = card (avail (zn (mm s')))"
proof -
  have i: "sys_inv (mm s') (owned s') (no_irq_head (mm s'))"
    using bsm.reached_inv [OF assms(1,2)] by (simp add: buddy_inv_def)
  then have H: "held_ok (mm s') (owned s')" unfolding sys_inv_def by (blast intro: held_ok_mono)
  have z: "zone_ok (zn (mm s'))" "free_pages (zn (mm s')) = of_nat (card (avail (zn (mm s'))))"
    using i by (simp_all add: sys_inv_def zone_inv_def)
  have "card (avail (zn (mm s'))) \<le> card {..<zone_size (zn (mm s'))}"
    using z(1) by (intro card_mono avail_size) (auto simp: zone_ok_def)
  then have "card (avail (zn (mm s'))) < 2 ^ LENGTH(32)" using z(1) by (simp add: zone_ok_def)
  then have "unat (free_pages (zn (mm s'))) = card (avail (zn (mm s')))" using z(2) by (metis of_nat_inverse)
  then show ?thesis using H assms(3) unfolding held_ok_def fits_def by blast
qed

text \<open>
  C28.  No \<open>BUG()\<close>, no access outside a bitmap and no corrupted list: in every state that can be
  reached, an allocation of a valid order returns, so does freeing an owned block that the caller has
  left in a freeable state, and so does running the deferred list.
\<close>

theorem buddy_no_bug:
  assumes "buddy_start s" "buddy_step\<^sup>*\<^sup>* s s'" "order < MAX_ORDER"
  shows "rmqueue order (mm s') \<noteq> None \<and> do_free_pages_ok_no_irq (mm s') \<noteq> None \<and>
    (\<forall>p k irq. (p, k) \<in> owned s' \<and> freeable (mm s') p k \<longrightarrow> free_pages_ok irq p k (mm s') \<noteq> None)"
proof (intro conjI allI impI)
  have i: "sys_inv (mm s') (owned s') (no_irq_head (mm s'))"
    using bsm.reached_inv [OF assms(1,2)] by (simp add: buddy_inv_def)
  show "rmqueue order (mm s') \<noteq> None"
    using rmqueue_ok [OF _ assms(3), of "mm s'"] i unfolding sys_inv_def Let_def by fastforce
  show "do_free_pages_ok_no_irq (mm s') \<noteq> None" using drain_ok [OF i] by auto
  fix p k irq assume a: "(p, k) \<in> owned s' \<and> freeable (mm s') p k"
  then have "sys_inv (mm s') (insert (p, k) (owned s' - {(p, k)})) (no_irq_head (mm s'))"
    using i by (simp add: insert_absorb)
  then show "free_pages_ok irq p k (mm s') \<noteq> None" using sys_inv_release a by blast
qed

subsection \<open>The allocator as an interface\<close>

text \<open>Giving single pages one after the other, as the hand-over at boot does.\<close>

fun give_pages :: "(nat \<Rightarrow> nat \<Rightarrow> 's \<Rightarrow> 's option) \<Rightarrow> nat list \<Rightarrow> 's \<Rightarrow> 's option" where
  "give_pages give [] s = Some s"
| "give_pages give (p # ps) s = (case give p 0 s of None \<Rightarrow> None | Some s1 \<Rightarrow> give_pages give ps s1)"

text \<open>
  What the code that fills the allocator relies on: the pages that are free, and a release that gives a block
  back.  \<open>givable\<close> is the condition a release puts on a block besides its pages not being free.
\<close>

locale page_sink =
  fixes ok :: "'s \<Rightarrow> bool" and frees :: "'s \<Rightarrow> nat set" and givable :: "'s \<Rightarrow> nat \<Rightarrow> nat \<Rightarrow> bool"
    and give :: "nat \<Rightarrow> nat \<Rightarrow> 's \<Rightarrow> 's option"
  assumes give_law: "ok s \<Longrightarrow> givable s p k \<Longrightarrow> blk p k \<inter> frees s = {} \<Longrightarrow>
      \<exists>s'. give p k s = Some s' \<and> ok s' \<and> frees s' = frees s \<union> blk p k \<and>
        (\<forall>q l. givable s q l \<and> blk q l \<inter> blk p k = {} \<longrightarrow> givable s' q l)"
begin

lemma give_pages_correct:
  assumes "ok s" "distinct ps" "set ps \<inter> frees s = {}" "\<And>p. p \<in> set ps \<Longrightarrow> givable s p 0"
  shows "\<exists>s'. give_pages give ps s = Some s' \<and> ok s' \<and> frees s' = frees s \<union> set ps"
  using assms
proof (induction ps arbitrary: s)
  case (Cons p ps)
  have b: "blk q 0 = {q}" for q by (auto simp: blk_def)
  obtain s1 where s1: "give p 0 s = Some s1" "ok s1" "frees s1 = frees s \<union> {p}"
      "\<forall>q l. givable s q l \<and> blk q l \<inter> {p} = {} \<longrightarrow> givable s1 q l"
    using give_law [OF Cons.prems(1), of p 0] Cons.prems(3,4) unfolding b by auto
  have "\<exists>s'. give_pages give ps s1 = Some s' \<and> ok s' \<and> frees s' = frees s1 \<union> set ps"
  proof (rule Cons.IH)
    show "set ps \<inter> frees s1 = {}" using Cons.prems(2,3) s1(3) by auto
    show "givable s1 q 0" if "q \<in> set ps" for q
    proof -
      have "blk q 0 \<inter> {p} = {}" unfolding b using that Cons.prems(2) by auto
      then show ?thesis using s1(4) Cons.prems(4) [of q] that by simp
    qed
  qed (use Cons.prems(2) s1(2) in auto)
  then show ?case using s1(1,3) by auto
qed simp

end

text \<open>What a user of page blocks relies on besides: a request that takes a block away or finds none.\<close>

locale page_allocator = page_sink +
  fixes take_block :: "nat \<Rightarrow> 's \<Rightarrow> ('s \<times> nat option) option"
  assumes take_law: "ok s \<Longrightarrow> k < MAX_ORDER \<Longrightarrow>
      (take_block k s = Some (s, None) \<and> (\<forall>p. 2 ^ k dvd p \<longrightarrow> \<not> blk p k \<subseteq> frees s)) \<or>
      (\<exists>s' p. take_block k s = Some (s', Some p) \<and> ok s' \<and> 2 ^ k dvd p \<and> blk p k \<subseteq> frees s \<and>
        frees s' = frees s - blk p k \<and> givable s' p k)"
begin

text \<open>Giving back what was taken restores the free pages, and the same request succeeds again.\<close>

lemma take_give:
  assumes "ok s" "k < MAX_ORDER" "take_block k s = Some (s1, Some p)"
  shows "\<exists>s2. give p k s1 = Some s2 \<and> ok s2 \<and> frees s2 = frees s \<and> (\<exists>s3 q. take_block k s2 = Some (s3, Some q))"
proof -
  have t: "ok s1" "2 ^ k dvd p" "blk p k \<subseteq> frees s" "frees s1 = frees s - blk p k" "givable s1 p k"
    using take_law [OF assms(1,2)] assms(3) by auto
  have "blk p k \<inter> frees s1 = {}" unfolding t(4) by blast
  then obtain s2 where s2: "give p k s1 = Some s2" "ok s2" "frees s2 = frees s1 \<union> blk p k"
    using give_law [OF t(1,5)] by blast
  moreover have f: "frees s2 = frees s" unfolding s2(3) t(4) using t(3) by blast
  moreover have "\<exists>s3 q. take_block k s2 = Some (s3, Some q)" using take_law [OF s2(2) assms(2)] t(2,3) f by auto
  ultimately show ?thesis by blast
qed

text \<open>Two requests in a row get disjoint blocks.\<close>

lemma take_take:
  assumes "ok s" "k < MAX_ORDER" "l < MAX_ORDER" "take_block k s = Some (s1, Some p)" "take_block l s1 = Some (s2, Some q)"
  shows "blk p k \<inter> blk q l = {} \<and> frees s2 = frees s - (blk p k \<union> blk q l)"
proof -
  have t: "ok s1" "frees s1 = frees s - blk p k" using take_law [OF assms(1,2)] assms(4) by auto
  then have "blk q l \<subseteq> frees s1" "frees s2 = frees s1 - blk q l" using take_law [OF t(1) assms(3)] assms(5) by auto
  then show ?thesis using t(2) by blast
qed

end

definition zone_givable :: "mm_state \<Rightarrow> nat \<Rightarrow> nat \<Rightarrow> bool" where
  "zone_givable st p k \<longleftrightarrow> fits st p k \<and> clean (pages st) (blk p k)"

lemma blk_last: "p + 2 ^ k - 1 \<in> blk p k"
proof -
  have "0 < (2 :: nat) ^ k" by simp
  then show ?thesis unfolding blk_def atLeastLessThan_iff by linarith
qed

lemma zone_take_law:
  assumes "zone_inv st" "k < MAX_ORDER"
  shows "(rmqueue k st = Some (st, None) \<and> (\<forall>p. 2 ^ k dvd p \<longrightarrow> \<not> blk p k \<subseteq> avail (zn st))) \<or>
    (\<exists>st' p. rmqueue k st = Some (st', Some p) \<and> zone_inv st' \<and> 2 ^ k dvd p \<and> blk p k \<subseteq> avail (zn st) \<and>
      avail (zn st') = avail (zn st) - blk p k \<and> zone_givable st' p k)"
proof (cases "rmqueue k st = Some (st, None) \<and> (\<forall>p. 2 ^ k dvd p \<longrightarrow> \<not> blk p k \<subseteq> avail (zn st))")
  case False
  then obtain z' p where s: "rmqueue k st = Some (upd_page p (\<lambda>pg. pg\<lparr>page_count := 1\<rparr>) (st\<lparr>zn := z'\<rparr>), Some p)"
      "zone_inv (upd_page p (\<lambda>pg. pg\<lparr>page_count := 1\<rparr>) (st\<lparr>zn := z'\<rparr>))" "2 ^ k dvd p" "blk p k \<subseteq> avail (zn st)"
      "avail z' = avail (zn st) - blk p k" "zone_size z' = zone_size (zn st)"
    using rmqueue_ok [OF assms] unfolding Let_def by blast
  have "p + 2 ^ k - 1 < zone_size (zn st)"
    using s(4) blk_last [of p k] assms(1) avail_size [of "zn st"] by (auto simp: zone_inv_def zone_ok_def)
  then have "zone_givable (upd_page p (\<lambda>pg. pg\<lparr>page_count := 1\<rparr>) (st\<lparr>zn := z'\<rparr>)) p k"
    using s(3,4,6) assms by (auto simp: zone_givable_def fits_def clean_def zone_inv_def)
  then show ?thesis using s by (intro disjI2) fastforce
qed blast

lemma zone_give_law:
  assumes "zone_inv st" "zone_givable st p k" "blk p k \<inter> avail (zn st) = {}"
  shows "\<exists>st'. free_to_zone p k st = Some st' \<and> zone_inv st' \<and> avail (zn st') = avail (zn st) \<union> blk p k \<and>
    (\<forall>q l. zone_givable st q l \<and> blk q l \<inter> blk p k = {} \<longrightarrow> zone_givable st' q l)"
proof -
  obtain z' where "free_to_zone p k st = Some (st\<lparr>zn := z'\<rparr>)" "zone_inv (st\<lparr>zn := z'\<rparr>)"
      "avail z' = avail (zn st) \<union> blk p k" "zone_size z' = zone_size (zn st)"
    using free_to_zone_ok [OF assms(1) _ assms(3)] assms(2) unfolding zone_givable_def by blast
  then show ?thesis by (auto simp: zone_givable_def fits_def)
qed

interpretation zal: page_allocator zone_inv "\<lambda>st. avail (zn st)" zone_givable free_to_zone rmqueue
  by unfold_locales (rule zone_give_law, assumption, assumption, assumption, rule zone_take_law)

text \<open>The hand-over of a page by \<open>free_all_bootmem_core\<close>: \<open>ClearPageReserved\<close>, \<open>set_page_count(page, 1)\<close> and
  \<open>__free_page\<close>.\<close>

definition boot_free_page :: "nat \<Rightarrow> nat \<Rightarrow> mm_state \<Rightarrow> mm_state option" where
  "boot_free_page p order st =
     free_pages_fn False p order (upd_page p (\<lambda>pg. pg\<lparr>PageReserved := False, page_count := 1\<rparr>) st)"

definition boot_givable :: "mm_state \<Rightarrow> nat \<Rightarrow> nat \<Rightarrow> bool" where
  "boot_givable st p k \<longleftrightarrow> fits st p k \<and> freeable st p k \<and> \<not> PF_FREE_PAGES st"

lemma zone_inv_upd:
  assumes "zone_inv st" "p \<notin> avail (zn st)" "page_zone (f (pages st p)) = page_zone (pages st p)"
  shows "zone_inv (upd_page p f st)"
  using assms by (auto simp: zone_inv_def zone_pages_ok_def clean_def)

lemma boot_give_law:
  assumes "zone_inv st" "boot_givable st p k" "blk p k \<inter> avail (zn st) = {}"
  shows "\<exists>st'. boot_free_page p k st = Some st' \<and> zone_inv st' \<and> avail (zn st') = avail (zn st) \<union> blk p k \<and>
    (\<forall>q l. boot_givable st q l \<and> blk q l \<inter> blk p k = {} \<longrightarrow> boot_givable st' q l)"
proof -
  let ?st = "upd_page p (\<lambda>pg. pg\<lparr>page_count := page_count pg - 1\<rparr>)
    (upd_page p (\<lambda>pg. pg\<lparr>PageReserved := False, page_count := 1\<rparr>) st)"
  have p: "p \<notin> avail (zn st)" using assms(3) blk_nonempty [of p k] by blast
  then have inv: "zone_inv ?st" using assms(1) by (intro zone_inv_upd) simp_all
  have fr: "fits ?st p k" "freeable ?st p k" "blk p k \<inter> avail (zn ?st) = {}"
    using assms(2,3) by (auto simp: boot_givable_def fits_def freeable_def clean_def)
  have e: "boot_free_page p k st = free_pages_ok False p k ?st"
    by (simp add: boot_free_page_def free_pages_fn_def Let_def)
  have "\<not> PF_FREE_PAGES ?st" using assms(2) by (simp add: boot_givable_def)
  then obtain st' f where s: "free_pages_ok False p k ?st = Some st'" "zone_inv st'" "pages st' = (pages ?st)(p := f)"
      "zone_size (zn st') = zone_size (zn ?st)" "PF_FREE_PAGES st' = PF_FREE_PAGES ?st" "avail (zn st') = avail (zn ?st) \<union> blk p k"
    using free_pages_ok_cases [OF inv fr(1,3,2), of False] unfolding freed_as_def by blast
  have same: "pages st' x = pages st x" if "x \<noteq> p" for x using s(3) that by simp
  have "boot_givable st' q l" if "boot_givable st q l" "blk q l \<inter> blk p k = {}" for q l
  proof -
    have "freeable st' q l = freeable st q l"
      using that(2) blk_nonempty [of p k] by (intro freeable_cong same) auto
    then show ?thesis using that(1) s(4,5) by (simp add: boot_givable_def fits_def)
  qed
  then show ?thesis using e s(1,2,6) by auto
qed

interpretation bootsink: page_sink zone_inv "\<lambda>st. avail (zn st)" boot_givable boot_free_page
  by unfold_locales (rule boot_give_law)

lemma handover_ok:
  assumes "sz < 2 ^ 32" "offset + sz \<le> mapnr" "distinct ps" "\<forall>p \<in> set ps. p < sz"
    and "\<forall>p < sz. \<not> page_buffers (mem p) \<and> \<not> page_mapping (mem p) \<and> \<not> PageLocked (mem p) \<and> \<not> PageActive (mem p)"
  shows "\<exists>st. give_pages boot_free_page ps (boot_state zid offset sz mem mapnr) = Some st \<and> zone_inv st \<and>
    avail (zn st) = set ps \<and> unat (free_pages (zn st)) = length ps"
proof -
  let ?st = "boot_state zid offset sz mem mapnr"
  have "buddy_start \<lparr>mm = ?st, owned = {(p, 0) | p. p < sz}\<rparr>" using assms(1,2) unfolding buddy_start_def by blast
  then have inv: "zone_inv ?st" using buddy_start_inv by (fastforce simp: buddy_inv_def sys_inv_def)
  have av: "avail (zn ?st) = {}" using boot_zone [OF assms(1)] by (simp add: boot_state_def)
  have "boot_givable ?st p 0" if "p \<in> set ps" for p
    using that assms(4,5) by (auto simp: boot_givable_def fits_def freeable_def boot_state_def free_area_init_def
        init_pages_def MAX_ORDER_def clean_def blk_def)
  then obtain st where st: "give_pages boot_free_page ps ?st = Some st" "zone_inv st" "avail (zn st) = set ps"
    using bootsink.give_pages_correct [OF inv assms(3)] av by auto
  have "length ps \<le> card {..<sz}" using assms(3,4) by (metis card_mono distinct_card finite_lessThan lessThan_iff subsetI)
  then have "length ps < 2 ^ LENGTH(32)" using assms(1) by simp
  moreover have "free_pages (zn st) = of_nat (length ps)"
    using st(2,3) distinct_card [OF assms(3)] by (simp add: zone_inv_def)
  ultimately show ?thesis using st by (metis of_nat_inverse)
qed

text \<open>
  Splitting and merging lose nothing: freeing a block that was just allocated restores exactly the
  free pages there were, and the same request can be served again.
\<close>

theorem alloc_free_roundtrip:
  assumes "zone_inv st" "k < MAX_ORDER" "rmqueue k st = Some (st1, Some p)"
  shows "\<exists>st2. free_to_zone p k st1 = Some st2 \<and> zone_inv st2 \<and> avail (zn st2) = avail (zn st) \<and>
    (\<exists>st3 q. rmqueue k st2 = Some (st3, Some q))"
  using zal.take_give [OF assms] by blast

text \<open>
  Filling the allocator at boot: handing over any list of different reserved pages of the zone makes
  exactly these pages free.
\<close>

theorem boot_handover:
  assumes "sz < 2 ^ 32" "offset + sz \<le> mapnr" "distinct ps" "\<forall>p \<in> set ps. p < sz"
    and "\<forall>p < sz. \<not> page_buffers (mem p) \<and> \<not> page_mapping (mem p) \<and> \<not> PageLocked (mem p) \<and> \<not> PageActive (mem p)"
  shows "\<exists>st. give_pages boot_free_page ps (boot_state zid offset sz mem mapnr) = Some st \<and> zone_inv st \<and>
    avail (zn st) = set ps \<and> unat (free_pages (zn st)) = length ps"
  using handover_ok [OF assms] .

subsection \<open>The properties at work\<close>

definition blank_page :: page where
  "blank_page = \<lparr>page_zone = 0, page_count = 0, page_order = 0, PageReserved = False, PageLRU = False, PageActive = False,
     PageLocked = False, PageReferenced = False, PageDirty = False, page_buffers = False, page_mapping = False\<rparr>"

definition demo_boot :: mm_state where
  "demo_boot = boot_state 0 0 4 (\<lambda>_. blank_page) 4"

definition demo_mm :: mm_state where
  "demo_mm = the (give_pages boot_free_page [0, 1, 2, 3] demo_boot)"

theorem boot_handover_witness:
  "\<exists>st. give_pages boot_free_page [0, 1, 2, 3] demo_boot = Some st \<and> unat (free_pages (zn st)) = 4"
  using boot_handover [of 4 0 4 "[0, 1, 2, 3]" "\<lambda>_. blank_page" 0] by (auto simp: demo_boot_def blank_page_def simp del: give_pages.simps)

lemma demo_mm: "zone_inv demo_mm" "avail (zn demo_mm) = {0, 1, 2, 3}"
proof -
  have "\<exists>st. give_pages boot_free_page [0, 1, 2, 3] demo_boot = Some st \<and> zone_inv st \<and> avail (zn st) = set [0, 1, 2, 3]"
    using handover_ok [of 4 0 4 "[0, 1, 2, 3]" "\<lambda>_. blank_page" 0] unfolding demo_boot_def [symmetric]
    by (simp add: blank_page_def del: give_pages.simps) blast
  then obtain st where st: "give_pages boot_free_page [0, 1, 2, 3] demo_boot = Some st" "zone_inv st" "avail (zn st) = set [0, 1, 2, 3]"
    by blast
  then have "demo_mm = st" unfolding demo_mm_def by (simp only: option.sel)
  then show "zone_inv demo_mm" "avail (zn demo_mm) = {0, 1, 2, 3}" using st(2,3) by simp_all
qed

lemma demo_block: "blk p 2 \<subseteq> {0, 1, 2, 3} \<longleftrightarrow> p = 0"
proof
  assume "blk p 2 \<subseteq> {0, 1, 2, 3}"
  moreover have "p + 3 \<in> blk p 2" by (simp add: blk_def)
  ultimately show "p = 0" by auto
qed (auto simp: blk_def)

theorem rmqueue_correct_witness:
  "\<exists>st'. rmqueue 2 demo_mm = Some (st', Some 0) \<and> avail (zn st') = {} \<and> page_count (pages st' 0) = 1"
proof -
  have "blk 0 2 = {0, 1, 2, 3}" by (auto simp: blk_def)
  then show ?thesis
    using rmqueue_correct [OF demo_mm(1), of 2] unfolding demo_mm(2) demo_block by (auto simp: MAX_ORDER_def)
qed

theorem alloc_free_roundtrip_witness:
  "\<exists>st1 st2. rmqueue 2 demo_mm = Some (st1, Some 0) \<and> free_to_zone 0 2 st1 = Some st2 \<and> avail (zn st2) = {0, 1, 2, 3}"
proof -
  have "\<exists>st1. rmqueue 2 demo_mm = Some (st1, Some 0)"
    using rmqueue_ok [OF demo_mm(1), of 2] unfolding demo_mm(2) demo_block Let_def by (auto simp: MAX_ORDER_def)
  then obtain st1 where a: "rmqueue 2 demo_mm = Some (st1, Some 0)" by blast
  show ?thesis using alloc_free_roundtrip [OF demo_mm(1) _ a] a demo_mm(2) by (auto simp: MAX_ORDER_def)
qed

definition demo_start :: buddy_sys where
  "demo_start = \<lparr>mm = demo_boot, owned = {(p, 0) | p. p < 4}\<rparr>"

definition demo_next :: buddy_sys where
  "demo_next = \<lparr>mm = the (free_pages_ok False 3 0 demo_boot), owned = owned demo_start - {(3, 0)}\<rparr>"

lemma demo_start: "buddy_start demo_start"
proof -
  have "(4 :: nat) < 2 ^ 32" "(0 :: nat) + 4 \<le> 4" by simp_all
  then show ?thesis unfolding demo_start_def demo_boot_def buddy_start_def by blast
qed

lemma demo_freeable: "freeable (mm demo_start) 3 0" "(3, 0) \<in> owned demo_start"
  by (auto simp: demo_start_def demo_boot_def boot_state_def init_pages_def blank_page_def freeable_def clean_def blk_def)

theorem buddy_no_bug_witness:
  "rmqueue 9 (mm demo_start) \<noteq> None \<and> free_pages_ok True 3 0 (mm demo_start) \<noteq> None"
  using buddy_no_bug [OF demo_start rtranclp.rtrancl_refl, of 9] demo_freeable by (simp add: MAX_ORDER_def)

lemma demo_next: "buddy_step demo_start demo_next"
proof -
  have "sys_inv (mm demo_start) (insert (3, 0) (owned demo_start - {(3, 0)})) (no_irq_head (mm demo_start))"
    using buddy_start_inv [OF demo_start] demo_freeable(2) by (simp add: buddy_inv_def insert_absorb)
  then obtain st' where "free_pages_ok False 3 0 (mm demo_start) = Some st'"
    using sys_inv_release [OF _ _ demo_freeable(1), of _ _ False] by blast
  then show ?thesis
    using buddy_step.release [OF demo_freeable(2,1), of False st'] by (simp add: demo_next_def demo_start_def)
qed

theorem buddy_safe_witness:
  "blk 2 0 \<inter> avail (zn (mm demo_next)) = {} \<and> unat (free_pages (zn (mm demo_next))) = card (avail (zn (mm demo_next)))"
  using buddy_safe [OF demo_start r_into_rtranclp [where r = buddy_step, OF demo_next], of 2 0]
  by (simp add: demo_next_def demo_start_def)

end
