(* ===== verification/Digest.thy ===== *)
theory Digest
  imports KPrelude
begin

text \<open>
  What the message digests of crypto/ have in common.  A digest is driven by the crypto API as
  \<open>init\<close>, any number of \<open>update\<close> calls with pieces of the message, and \<open>final\<close>; the context
  buffers an incomplete 64-byte block between calls.  \<open>compress_all\<close> and \<open>md_digest\<close> are the
  reference: pad the whole message, cut it into 64-byte blocks, and fold the block function over
  them.  The locale \<open>incremental_hash\<close> is the contract a context implementation has to meet; inside it
  the digest is shown to be the reference digest of the concatenated pieces.
\<close>

subsection \<open>The reference digest\<close>

function compress_all :: "('h \<Rightarrow> u8 list \<Rightarrow> 'h) \<Rightarrow> 'h \<Rightarrow> u8 list \<Rightarrow> 'h \<times> u8 list" where
  "compress_all T h bs =
     (if 64 \<le> length bs then compress_all T (T h (take 64 bs)) (drop 64 bs) else (h, bs))"
  by pat_completeness auto
termination
  by (relation "measure (\<lambda>(T, h, bs). length bs)") auto

declare compress_all.simps [simp del]

definition pad_zeros :: "nat \<Rightarrow> nat" where
  "pad_zeros n = (if n mod 64 < 56 then 55 - n mod 64 else 119 - n mod 64)"

definition md_pad :: "(nat \<Rightarrow> u8 list) \<Rightarrow> nat \<Rightarrow> u8 list" where
  "md_pad lenenc n = 0x80 # replicate (pad_zeros n) 0 @ lenenc n"

definition md_digest ::
    "('h \<Rightarrow> u8 list \<Rightarrow> 'h) \<Rightarrow> 'h \<Rightarrow> ('h \<Rightarrow> u8 list) \<Rightarrow> (nat \<Rightarrow> u8 list) \<Rightarrow> u8 list \<Rightarrow> u8 list" where
  "md_digest T iv out lenenc msg =
     out (fst (compress_all T iv (msg @ md_pad lenenc (length msg))))"

lemma compress_all_short [simp]: "length bs < 64 \<Longrightarrow> compress_all T h bs = (h, bs)"
  by (simp add: compress_all.simps)

lemma compress_all_block:
  "length b = 64 \<Longrightarrow> compress_all T h (b @ bs) = compress_all T (T h b) bs"
  by (subst compress_all.simps) simp

lemma compress_all_rest: "length (snd (compress_all T h bs)) = length bs mod 64"
proof (induction T h bs rule: compress_all.induct)
  case (1 T h bs)
  then show ?case
    by (cases "64 \<le> length bs") (simp_all add: compress_all.simps [of T h bs] le_mod_geq)
qed

lemma compress_all_append:
  "compress_all T h (bs @ ds) =
     (let (h', r) = compress_all T h bs in compress_all T h' (r @ ds))"
proof (induction T h bs rule: compress_all.induct)
  case (1 T h bs)
  show ?case
  proof (cases "64 \<le> length bs")
    case True
    have "compress_all T h (bs @ ds) = compress_all T (T h (take 64 bs)) (drop 64 bs @ ds)"
      using True by (subst compress_all.simps) simp
    also have "\<dots> = (let (h', r) = compress_all T h bs in compress_all T h' (r @ ds))"
      unfolding 1 [OF True] using True by (simp add: compress_all.simps [of T h bs])
    finally show ?thesis .
  qed simp
qed

subsection \<open>The contract of a digest context\<close>

text \<open>
  \<open>started c\<close>: \<open>init\<close> may have left the context \<open>c\<close>; \<open>repr c n\<close>: the context \<open>c\<close> has absorbed \<open>n\<close> bytes (its counter and buffer agree with that);
  \<open>piece d\<close>: the length of \<open>d\<close> is one an \<open>update\<close> call counts correctly.
\<close>

locale incremental_hash =
  fixes T :: "'h \<Rightarrow> u8 list \<Rightarrow> 'h"
    and iv :: 'h
    and started :: "'c \<Rightarrow> bool"
    and update :: "'c \<Rightarrow> u8 list \<Rightarrow> 'c"
    and final :: "'c \<Rightarrow> u8 list"
    and hash :: "'c \<Rightarrow> 'h"
    and pending :: "'c \<Rightarrow> u8 list"
    and repr :: "'c \<Rightarrow> nat \<Rightarrow> bool"
    and piece :: "u8 list \<Rightarrow> bool"
    and out :: "'h \<Rightarrow> u8 list"
    and lenenc :: "nat \<Rightarrow> u8 list"
  assumes started_state: "started c \<Longrightarrow> hash c = iv" "started c \<Longrightarrow> pending c = []"
      "started c \<Longrightarrow> repr c 0"
    and update_state: "repr c n \<Longrightarrow> piece d \<Longrightarrow>
      (hash (update c d), pending (update c d)) = compress_all T (hash c) (pending c @ d)"
    and update_repr: "repr c n \<Longrightarrow> piece d \<Longrightarrow> repr (update c d) (n + length d)"
    and final_state: "repr c n \<Longrightarrow>
      final c = out (fst (compress_all T (hash c) (pending c @ md_pad lenenc n)))"
begin

lemma foldl_update:
  assumes "started c" "\<forall>d \<in> set ds. piece d"
  shows "repr (foldl update c ds) (length (concat ds)) \<and>
    (hash (foldl update c ds), pending (foldl update c ds)) = compress_all T iv (concat ds)"
  using assms
proof (induction ds rule: rev_induct)
  case Nil
  then show ?case using started_state by simp
next
  case (snoc d ds)
  let ?c = "foldl update c ds"
  have IH: "repr ?c (length (concat ds))" "(hash ?c, pending ?c) = compress_all T iv (concat ds)"
    using snoc by auto
  have "compress_all T iv (concat ds @ d) = compress_all T (hash ?c) (pending ?c @ d)"
    unfolding compress_all_append [of T iv "concat ds" d] IH(2) [symmetric] by simp
  then show ?case using update_state [OF IH(1)] update_repr [OF IH(1)] snoc.prems by simp
qed

lemma digest_of_pieces:
  assumes "started c" "\<forall>d \<in> set ds. piece d"
  shows "final (foldl update c ds) = md_digest T iv out lenenc (concat ds)"
proof -
  let ?c = "foldl update c ds" and ?m = "concat ds"
  have c: "repr ?c (length ?m)" "(hash ?c, pending ?c) = compress_all T iv ?m"
    using foldl_update [OF assms] by auto
  have "compress_all T iv (?m @ md_pad lenenc (length ?m)) =
      compress_all T (hash ?c) (pending ?c @ md_pad lenenc (length ?m))"
    unfolding compress_all_append [of T iv ?m] c(2) [symmetric] by simp
  then show ?thesis using final_state [OF c(1)] by (simp add: md_digest_def)
qed

lemma digest_chunking:
  assumes "started c" "\<forall>d \<in> set ds. piece d" "started c'" "\<forall>e \<in> set es. piece e" "concat ds = concat es"
  shows "final (foldl update c ds) = final (foldl update c' es)"
  using digest_of_pieces [OF assms(1,2)] digest_of_pieces [OF assms(3,4)] assms(5) by simp

end

subsection \<open>Byte order and buffers\<close>

definition le32 :: "u32 \<Rightarrow> u8 list" where
  "le32 w = [ucast w, ucast (drop_bit 8 w), ucast (drop_bit 16 w), ucast (drop_bit 24 w)]"

definition be32 :: "u32 \<Rightarrow> u8 list" where
  "be32 w = rev (le32 w)"

definition le32_word :: "u8 list \<Rightarrow> u32" where
  "le32_word bs = (ucast (bs ! 0) :: u32) OR push_bit 8 (ucast (bs ! 1)) OR
     push_bit 16 (ucast (bs ! 2)) OR push_bit 24 (ucast (bs ! 3))"

definition be32_word :: "u8 list \<Rightarrow> u32" where
  "be32_word bs = le32_word (rev (take 4 bs))"

definition rol32 :: "u32 \<Rightarrow> nat \<Rightarrow> u32" where
  "rol32 w s = push_bit s w OR drop_bit (32 - s) w"

text \<open>\<open>memcpy(buf + off, src, length src)\<close> on a buffer that is large enough.\<close>

definition put :: "'a list \<Rightarrow> nat \<Rightarrow> 'a list \<Rightarrow> 'a list" where
  "put buf off src = take off buf @ src @ drop (off + length src) buf"

lemma put_length [simp]: "off + length src \<le> length buf \<Longrightarrow> length (put buf off src) = length buf"
  by (simp add: put_def)

lemma take_put: "off \<le> length buf \<Longrightarrow> take (off + length src) (put buf off src) = take off buf @ src"
  by (simp add: put_def)

lemma le32_length [simp]: "length (le32 w) = 4" "length (be32 w) = 4"
  by (simp_all add: le32_def be32_def)

lemma put_full [simp]: "length src = length buf \<Longrightarrow> put buf 0 src = src"
  by (simp add: put_def)

lemma mod_fill:
  assumes "64 - n mod 64 \<le> (len :: nat)"
  shows "(n + len) mod 64 = (len - (64 - n mod 64)) mod 64"
proof -
  have "(n + len) mod 64 = (n mod 64 + len) mod 64"
    by (rule mod_add_left_eq [symmetric])
  also have "n mod 64 + len = (len - (64 - n mod 64)) + 64"
    using assms mod_less_divisor [of 64 n] by auto
  finally show ?thesis by simp
qed

lemma compress_all_one: "length b = 64 \<Longrightarrow> compress_all T h b = (T h b, [])"
  using compress_all_block [of b T h "[]"] by simp

end
