(* ===== verification/MdDigest.thy ===== *)
theory MdDigest
  imports Digest
begin

text \<open>
  MD4 and MD5 (crypto/md4.c, crypto/md5.c).  The two files share the context and, word for word,
  the update and final functions, which are modelled once over the block function.  Contexts are
  kept as bytes: on the little-endian i386 the \<open>le32_to_cpu_array\<close> conversions are the identity
  and \<open>in[i]\<close> is the little-endian word at byte \<open>4 * i\<close>.  The unrolled steps are folds over their
  (word index, constant, rotation) tables in source order; a step computes the new value of its
  first register argument, and the register names of the next call are rotated by one.
\<close>

subsection \<open>Contexts\<close>

record md_ctx =
  md_hash :: "u32 list"
  md_block :: "u8 list"
  md_byte_count :: u64

definition in_word :: "u8 list \<Rightarrow> nat \<Rightarrow> u32" where
  "in_word block i = le32_word (take 4 (drop (4 * i) block))"

type_synonym regs4 = "u32 \<times> u32 \<times> u32 \<times> u32"

definition load4 :: "u32 list \<Rightarrow> regs4" where
  "load4 hash = (hash ! 0, hash ! 1, hash ! 2, hash ! 3)"

definition add4 :: "u32 list \<Rightarrow> regs4 \<Rightarrow> u32 list" where
  "add4 hash r = (case r of (a, b, c, d) \<Rightarrow> [hash ! 0 + a, hash ! 1 + b, hash ! 2 + c, hash ! 3 + d])"

subsection \<open>The MD5 block function\<close>

definition F1 :: "u32 \<Rightarrow> u32 \<Rightarrow> u32 \<Rightarrow> u32" where "F1 x y z = z XOR (x AND (y XOR z))"
definition F2 :: "u32 \<Rightarrow> u32 \<Rightarrow> u32 \<Rightarrow> u32" where "F2 x y z = F1 z x y"
definition F3 :: "u32 \<Rightarrow> u32 \<Rightarrow> u32 \<Rightarrow> u32" where "F3 x y z = x XOR y XOR z"
definition F4 :: "u32 \<Rightarrow> u32 \<Rightarrow> u32 \<Rightarrow> u32" where "F4 x y z = y XOR (x OR NOT z)"

text \<open>\<open>MD5STEP\<close> on (w, x, y, z), with the registers rotated for the next call.\<close>

definition md5_step :: "(u32 \<Rightarrow> u32 \<Rightarrow> u32 \<Rightarrow> u32) \<Rightarrow> u8 list \<Rightarrow> nat \<times> u32 \<times> nat \<Rightarrow> regs4 \<Rightarrow> regs4" where
  "md5_step f block t r =
     (case (t, r) of ((i, kk, s), (w, x, y, z)) \<Rightarrow>
        (z, rol32 (w + (f x y z + (in_word block i + kk))) s + x, x, y))"

definition md5_round1 :: "(nat \<times> u32 \<times> nat) list" where
  "md5_round1 =
    [
     (0, 0xd76aa478, 7), (1, 0xe8c7b756, 12), (2, 0x242070db, 17), (3, 0xc1bdceee, 22),
     (4, 0xf57c0faf, 7), (5, 0x4787c62a, 12), (6, 0xa8304613, 17), (7, 0xfd469501, 22),
     (8, 0x698098d8, 7), (9, 0x8b44f7af, 12), (10, 0xffff5bb1, 17), (11, 0x895cd7be, 22),
     (12, 0x6b901122, 7), (13, 0xfd987193, 12), (14, 0xa679438e, 17), (15, 0x49b40821, 22)]"

definition md5_round2 :: "(nat \<times> u32 \<times> nat) list" where
  "md5_round2 =
    [
     (1, 0xf61e2562, 5), (6, 0xc040b340, 9), (11, 0x265e5a51, 14), (0, 0xe9b6c7aa, 20),
     (5, 0xd62f105d, 5), (10, 0x02441453, 9), (15, 0xd8a1e681, 14), (4, 0xe7d3fbc8, 20),
     (9, 0x21e1cde6, 5), (14, 0xc33707d6, 9), (3, 0xf4d50d87, 14), (8, 0x455a14ed, 20),
     (13, 0xa9e3e905, 5), (2, 0xfcefa3f8, 9), (7, 0x676f02d9, 14), (12, 0x8d2a4c8a, 20)]"

definition md5_round3 :: "(nat \<times> u32 \<times> nat) list" where
  "md5_round3 =
    [
     (5, 0xfffa3942, 4), (8, 0x8771f681, 11), (11, 0x6d9d6122, 16), (14, 0xfde5380c, 23),
     (1, 0xa4beea44, 4), (4, 0x4bdecfa9, 11), (7, 0xf6bb4b60, 16), (10, 0xbebfbc70, 23),
     (13, 0x289b7ec6, 4), (0, 0xeaa127fa, 11), (3, 0xd4ef3085, 16), (6, 0x04881d05, 23),
     (9, 0xd9d4d039, 4), (12, 0xe6db99e5, 11), (15, 0x1fa27cf8, 16), (2, 0xc4ac5665, 23)]"

definition md5_round4 :: "(nat \<times> u32 \<times> nat) list" where
  "md5_round4 =
    [
     (0, 0xf4292244, 6), (7, 0x432aff97, 10), (14, 0xab9423a7, 15), (5, 0xfc93a039, 21),
     (12, 0x655b59c3, 6), (3, 0x8f0ccc92, 10), (10, 0xffeff47d, 15), (1, 0x85845dd1, 21),
     (8, 0x6fa87e4f, 6), (15, 0xfe2ce6e0, 10), (6, 0xa3014314, 15), (13, 0x4e0811a1, 21),
     (4, 0xf7537e82, 6), (11, 0xbd3af235, 10), (2, 0x2ad7d2bb, 15), (9, 0xeb86d391, 21)]"

definition md5_transform :: "u32 list \<Rightarrow> u8 list \<Rightarrow> u32 list" where
  "md5_transform hash block =
     (let r1 = fold (md5_step F1 block) md5_round1 (load4 hash);
          r2 = fold (md5_step F2 block) md5_round2 r1;
          r3 = fold (md5_step F3 block) md5_round3 r2;
          r4 = fold (md5_step F4 block) md5_round4 r3
      in add4 hash r4)"

subsection \<open>The MD4 block function\<close>

definition md4_F :: "u32 \<Rightarrow> u32 \<Rightarrow> u32 \<Rightarrow> u32" where "md4_F x y z = (x AND y) OR (NOT x AND z)"
definition md4_G :: "u32 \<Rightarrow> u32 \<Rightarrow> u32 \<Rightarrow> u32" where
  "md4_G x y z = (x AND y) OR (x AND z) OR (y AND z)"
definition md4_H :: "u32 \<Rightarrow> u32 \<Rightarrow> u32 \<Rightarrow> u32" where "md4_H x y z = x XOR y XOR z"

definition lshift :: "u32 \<Rightarrow> nat \<Rightarrow> u32" where
  "lshift x s =
     (let x' = x AND 0xFFFFFFFF in (push_bit s x' AND 0xFFFFFFFF) OR drop_bit (32 - s) x')"

definition md4_step ::
    "(u32 \<Rightarrow> u32 \<Rightarrow> u32 \<Rightarrow> u32) \<Rightarrow> u32 \<Rightarrow> u8 list \<Rightarrow> nat \<times> nat \<Rightarrow> regs4 \<Rightarrow> regs4" where
  "md4_step f kk block t r =
     (case (t, r) of ((i, s), (a, b, c, d)) \<Rightarrow>
        (d, lshift (a + f b c d + in_word block i + kk) s, b, c))"

definition md4_round1 :: "(nat \<times> nat) list" where
  "md4_round1 =
    [
     (0, 3), (1, 7), (2, 11), (3, 19), (4, 3), (5, 7), (6, 11), (7, 19),
     (8, 3), (9, 7), (10, 11), (11, 19), (12, 3), (13, 7), (14, 11), (15, 19)]"

definition md4_round2 :: "(nat \<times> nat) list" where
  "md4_round2 =
    [
     (0, 3), (4, 5), (8, 9), (12, 13), (1, 3), (5, 5), (9, 9), (13, 13),
     (2, 3), (6, 5), (10, 9), (14, 13), (3, 3), (7, 5), (11, 9), (15, 13)]"

definition md4_round3 :: "(nat \<times> nat) list" where
  "md4_round3 =
    [
     (0, 3), (8, 9), (4, 11), (12, 15), (2, 3), (10, 9), (6, 11), (14, 15),
     (1, 3), (9, 9), (5, 11), (13, 15), (3, 3), (11, 9), (7, 11), (15, 15)]"

definition md4_transform :: "u32 list \<Rightarrow> u8 list \<Rightarrow> u32 list" where
  "md4_transform hash block =
     (let r1 = fold (md4_step md4_F 0 block) md4_round1 (load4 hash);
          r2 = fold (md4_step md4_G 0x5A827999 block) md4_round2 r1;
          r3 = fold (md4_step md4_H 0x6ED9EBA1 block) md4_round3 r2
      in add4 hash r3)"

subsection \<open>Init, update, final\<close>

definition md_init :: "u8 list \<Rightarrow> md_ctx" where
  "md_init garbage = \<lparr>md_hash = [0x67452301, 0xefcdab89, 0x98badcfe, 0x10325476],
     md_block = garbage, md_byte_count = 0\<rparr>"

function md_loop :: "(u32 list \<Rightarrow> u8 list \<Rightarrow> u32 list) \<Rightarrow> md_ctx \<Rightarrow> u8 list \<Rightarrow> md_ctx" where
  "md_loop T ctx data =
     (if 64 \<le> length data then
        (let b = put (md_block ctx) 0 (take 64 data) in
         md_loop T (ctx\<lparr>md_block := b, md_hash := T (md_hash ctx) b\<rparr>) (drop 64 data))
      else ctx\<lparr>md_block := put (md_block ctx) 0 data\<rparr>)"
  by pat_completeness auto
termination
  by (relation "measure (\<lambda>(T, ctx, data). length data)") auto

declare md_loop.simps [simp del]

definition md_offset :: "md_ctx \<Rightarrow> nat" where
  "md_offset ctx = unat (md_byte_count ctx AND 0x3f)"

definition md_update :: "(u32 list \<Rightarrow> u8 list \<Rightarrow> u32 list) \<Rightarrow> md_ctx \<Rightarrow> u8 list \<Rightarrow> md_ctx" where
  "md_update T ctx data =
     (let len = length data; off = md_offset ctx; avail = 64 - off;
          ctx1 = ctx\<lparr>md_byte_count := md_byte_count ctx + of_nat len\<rparr> in
      if avail > len then ctx1\<lparr>md_block := put (md_block ctx1) off data\<rparr>
      else
        (let b = put (md_block ctx1) off (take avail data) in
         md_loop T (ctx1\<lparr>md_block := b, md_hash := T (md_hash ctx1) b\<rparr>) (drop avail data)))"

definition md_length_bytes :: "u64 \<Rightarrow> u8 list" where
  "md_length_bytes count = le32 (ucast (push_bit 3 count)) @ le32 (ucast (drop_bit 29 count))"

text \<open>\<open>final\<close> returns the wiped context and the digest.\<close>

definition md_wiped :: md_ctx where
  "md_wiped = \<lparr>md_hash = replicate 4 0, md_block = replicate 64 0, md_byte_count = 0\<rparr>"

definition md_final :: "(u32 list \<Rightarrow> u8 list \<Rightarrow> u32 list) \<Rightarrow> md_ctx \<Rightarrow> md_ctx \<times> u8 list" where
  "md_final T ctx =
     (let offset = md_offset ctx; padding = 56 - (int offset + 1);
          b1 = put (md_block ctx) offset [0x80];
          (hash, b2, p, n) =
            (if padding < 0 then
               (let b = put b1 (offset + 1) (replicate (nat (padding + 8)) 0)
                in (T (md_hash ctx) b, b, 0, 56))
             else (md_hash ctx, b1, offset + 1, nat padding));
          b3 = put b2 p (replicate n 0);
          b4 = put b3 56 (md_length_bytes (md_byte_count ctx))
      in (md_wiped, concat (map le32 (T hash b4))))"

definition md4_update :: "md_ctx \<Rightarrow> u8 list \<Rightarrow> md_ctx" where "md4_update = md_update md4_transform"
definition md4_final :: "md_ctx \<Rightarrow> md_ctx \<times> u8 list" where "md4_final = md_final md4_transform"
definition md5_update :: "md_ctx \<Rightarrow> u8 list \<Rightarrow> md_ctx" where "md5_update = md_update md5_transform"
definition md5_final :: "md_ctx \<Rightarrow> md_ctx \<times> u8 list" where "md5_final = md_final md5_transform"


subsection \<open>The contexts meet the contract of Digest\<close>

definition md_pending :: "md_ctx \<Rightarrow> u8 list" where
  "md_pending ctx = take (md_offset ctx) (md_block ctx)"

definition md_repr :: "md_ctx \<Rightarrow> nat \<Rightarrow> bool" where
  "md_repr ctx n \<longleftrightarrow> length (md_block ctx) = 64 \<and> md_byte_count ctx = of_nat n"

definition md_lenenc :: "nat \<Rightarrow> u8 list" where
  "md_lenenc n = md_length_bytes (of_nat n)"

lemma md_offset_repr:
  assumes "md_byte_count ctx = of_nat n"
  shows "md_offset ctx = n mod 64"
proof -
  have "md_byte_count ctx AND 0x3f = take_bit 6 (of_nat n)"
    using take_bit_eq_mask [of 6 "of_nat n :: u64"] assms by (simp add: mask_eq_exp_minus_1)
  then show ?thesis
    unfolding md_offset_def
    by (simp only: unsigned_take_bit_eq unsigned_of_nat of_nat_id take_bit_take_bit)
      (simp add: take_bit_eq_mod)
qed

lemma md_loop_correct:
  assumes "length (md_block ctx) = 64"
  shows "compress_all T (md_hash ctx) data =
           (md_hash (md_loop T ctx data), take (length data mod 64) (md_block (md_loop T ctx data)))
       \<and> length (md_block (md_loop T ctx data)) = 64
       \<and> md_byte_count (md_loop T ctx data) = md_byte_count ctx"
  using assms
proof (induction T ctx data rule: md_loop.induct)
  case (1 T ctx data)
  show ?case
  proof (cases "64 \<le> length data")
    case True
    then show ?thesis
      using 1 by (simp add: md_loop.simps [of T ctx data] compress_all.simps [of T _ data] le_mod_geq Let_def)
  next
    case False
    then show ?thesis using 1(2) by (simp add: md_loop.simps [of T ctx data] put_def)
  qed
qed

lemma md_update_repr:
  assumes "md_repr ctx n"
  shows "md_repr (md_update T ctx d) (n + length d)"
  using assms
  by (auto simp: md_repr_def md_update_def Let_def md_offset_repr md_loop_correct put_def)

lemma md_update_state:
  assumes r: "md_repr ctx n"
  shows "(md_hash (md_update T ctx d), md_pending (md_update T ctx d)) =
    compress_all T (md_hash ctx) (md_pending ctx @ d)"
proof -
  have off: "md_offset ctx = n mod 64" and len: "length (md_block ctx) = 64"
    using r by (simp_all add: md_repr_def md_offset_repr)
  have off': "md_offset (md_update T ctx d) = (n + length d) mod 64"
    using md_update_repr [OF r] by (simp add: md_repr_def md_offset_repr)
  let ?o = "n mod 64"
  have o: "?o < 64" by simp
  show ?thesis
  proof (cases "64 - ?o > length d")
    case True
    have "(n + length d) mod 64 = ?o + length d"
      using True by (metis add.commute less_diff_conv mod_add_left_eq mod_less)
    then show ?thesis
      using True len off' by (simp add: md_pending_def md_update_def off Let_def take_put)
  next
    case False
    let ?b = "put (md_block ctx) ?o (take (64 - ?o) d)"
    let ?c = "ctx\<lparr>md_byte_count := md_byte_count ctx + of_nat (length d), md_block := ?b,
      md_hash := T (md_hash ctx) ?b\<rparr>"
    have b: "?b = take ?o (md_block ctx) @ take (64 - ?o) d" "length ?b = 64"
      using False o len by (auto simp: put_def)
    have u: "md_update T ctx d = md_loop T ?c (drop (64 - ?o) d)"
      using False by (simp add: md_update_def off Let_def)
    have "compress_all T (md_hash ctx) (md_pending ctx @ d) =
        compress_all T (md_hash ctx) (?b @ drop (64 - ?o) d)"
      by (simp add: b md_pending_def off)
    also have "\<dots> = compress_all T (md_hash ?c) (drop (64 - ?o) d)"
      using b(2) by (simp add: compress_all_block)
    also have "\<dots> = (md_hash (md_update T ctx d), md_pending (md_update T ctx d))"
      using md_loop_correct [of ?c T "drop (64 - ?o) d"] b(2) mod_fill [of n "length d"] False
      by (simp add: u [symmetric] md_pending_def off')
    finally show ?thesis ..
  qed
qed

lemma md_length_bytes_length [simp]: "length (md_length_bytes c) = 8"
  by (simp add: md_length_bytes_def)

lemma md_final_state:
  assumes r: "md_repr ctx n"
  shows "snd (md_final T ctx) =
    concat (map le32 (fst (compress_all T (md_hash ctx) (md_pending ctx @ md_pad md_lenenc n))))"
proof -
  have off: "md_offset ctx = n mod 64" and len: "length (md_block ctx) = 64"
    and cnt: "md_byte_count ctx = of_nat n"
    using r by (simp_all add: md_repr_def md_offset_repr)
  let ?o = "n mod 64" and ?L = "md_length_bytes (of_nat n)"
  let ?p = "take ?o (md_block ctx)"
  have o: "?o < 64" by simp
  have pl: "length ?p = ?o" using len by simp
  have b1: "put (md_block ctx) ?o [0x80] = ?p @ 0x80 # drop (?o + 1) (md_block ctx)"
    by (simp add: put_def)
  show ?thesis
  proof (cases "?o < 56")
    case True
    have 1: "put (?p @ 0x80 # drop (?o + 1) (md_block ctx)) (?o + 1) (replicate (55 - ?o) 0) =
        ?p @ 0x80 # replicate (55 - ?o) 0 @ drop 56 (md_block ctx)"
      using True pl by (cases "56 - ?o") (auto simp: put_def intro!: arg_cong2 [where f = drop])
    have 2: "put (?p @ 0x80 # replicate (55 - ?o) 0 @ drop 56 (md_block ctx)) 56 ?L =
        ?p @ 0x80 # replicate (55 - ?o) 0 @ ?L"
    proof -
      have "56 - ?o = Suc (55 - ?o)" using True by linarith
      then show ?thesis using True len by (simp add: put_def)
    qed
    have l: "length (?p @ 0x80 # replicate (55 - ?o) 0 @ ?L) = 64"
      using True len by simp
    have "nat (56 - (int ?o + 1)) = 55 - ?o" by linarith
    then show ?thesis
      using True compress_all_one [OF l, of T "md_hash ctx"]
      by (simp add: md_final_def off Let_def b1 1 [simplified] 2 [simplified] cnt
          md_pad_def pad_zeros_def md_lenenc_def md_pending_def del: of_nat_mod)
  next
    case False
    have 1: "put (?p @ 0x80 # drop (?o + 1) (md_block ctx)) (?o + 1) (replicate (63 - ?o) 0) =
        ?p @ 0x80 # replicate (63 - ?o) 0"
      using o len by (simp add: put_def)
    have 2: "put (put (?p @ 0x80 # replicate (63 - ?o) 0) 0 (replicate 56 0)) 56 ?L =
        replicate 56 0 @ ?L"
      using o len by (simp add: put_def)
    have l: "length (?p @ 0x80 # replicate (63 - ?o) 0) = 64" "length (replicate 56 0 @ ?L) = 64"
      using o len by simp_all
    have z: "replicate (119 - ?o) (0 :: u8) = replicate (63 - ?o) 0 @ replicate 56 0"
      using o by (simp add: replicate_add [symmetric])
    have "compress_all T (md_hash ctx) ((?p @ 0x80 # replicate (63 - ?o) 0) @ replicate 56 0 @ ?L) =
        (T (T (md_hash ctx) (?p @ 0x80 # replicate (63 - ?o) 0)) (replicate 56 0 @ ?L), [])"
      unfolding compress_all_block [OF l(1)] compress_all_one [OF l(2)] ..
    moreover have "nat (56 - (int ?o + 1) + 8) = 63 - ?o" using False o by linarith
    moreover have "56 - (int ?o + 1) < 0" using False by linarith
    ultimately show ?thesis
      using False
      by (simp add: md_final_def off Let_def b1 1 [simplified] 2 [simplified] cnt z
          md_pad_def pad_zeros_def md_lenenc_def md_pending_def del: of_nat_mod)
  qed
qed

lemma md_final_wipes: "fst (md_final T ctx) = md_wiped"
  by (simp add: md_final_def Let_def split: prod.splits)

text \<open>The chaining value the digests start from, and the encoding of the result.\<close>

definition md_iv :: "u32 list" where
  "md_iv = [0x67452301, 0xefcdab89, 0x98badcfe, 0x10325476]"

definition md_out :: "u32 list \<Rightarrow> u8 list" where
  "md_out h = concat (map le32 h)"

text \<open>\<open>init\<close> leaves what was in the buffer.\<close>

definition md_started :: "md_ctx \<Rightarrow> bool" where
  "md_started ctx \<longleftrightarrow> ctx = md_init (md_block ctx) \<and> length (md_block ctx) = 64"

lemma md_started_state:
  assumes "md_started ctx"
  shows "md_hash ctx = md_iv" "md_pending ctx = []" "md_repr ctx 0"
proof -
  obtain b where "ctx = md_init b" "length b = 64" using assms unfolding md_started_def by blast
  then show "md_hash ctx = md_iv" "md_pending ctx = []" "md_repr ctx 0"
    by (simp_all add: md_init_def md_iv_def md_pending_def md_offset_def md_repr_def)
qed

lemma md_init_started [simp]: "length garbage = 64 \<Longrightarrow> md_started (md_init garbage)"
  by (simp add: md_started_def md_init_def)

lemma md_incremental_hash:
  "incremental_hash T md_iv md_started (md_update T) (\<lambda>c. snd (md_final T c)) md_hash md_pending
     md_repr (\<lambda>_. True) md_out md_lenenc"
  by unfold_locales
    (simp_all add: md_started_state md_update_state md_update_repr md_final_state md_out_def)

interpretation md4: incremental_hash md4_transform md_iv md_started md4_update
    "\<lambda>c. snd (md4_final c)" md_hash md_pending md_repr "\<lambda>_. True" md_out md_lenenc
  unfolding md4_update_def md4_final_def by (rule md_incremental_hash)

interpretation md5: incremental_hash md5_transform md_iv md_started md5_update
    "\<lambda>c. snd (md5_final c)" md_hash md_pending md_repr "\<lambda>_. True" md_out md_lenenc
  unfolding md5_update_def md5_final_def by (rule md_incremental_hash)

subsection \<open>The digests are the reference digests\<close>

lemma md4_digest:
  assumes "length garbage = 64"
  shows "md4_final (foldl md4_update (md_init garbage) ds) =
    (md_wiped, md_digest md4_transform md_iv md_out md_lenenc (concat ds))"
  using md4.digest_of_pieces [of "md_init garbage" ds] md_final_wipes assms
  by (simp add: md4_final_def prod_eq_iff)

lemma md5_digest:
  assumes "length garbage = 64"
  shows "md5_final (foldl md5_update (md_init garbage) ds) =
    (md_wiped, md_digest md5_transform md_iv md_out md_lenenc (concat ds))"
  using md5.digest_of_pieces [of "md_init garbage" ds] md_final_wipes assms
  by (simp add: md5_final_def prod_eq_iff)

text \<open>
  C17.  MD4 and MD5: \<open>init\<close> (whatever the context's buffer held), any sequence of \<open>update\<close> calls and
  \<open>final\<close> give the digest of the concatenated data, that is, padded with 0x80, zeroes and the
  64-bit bit count and run through the block function block by block; the context is wiped.  The
  witness evaluates the digests of the string \<open>abc\<close> given in RFC 1320 and RFC 1321.
\<close>

theorem md_digests_correct:
  assumes "length garbage = 64"
  shows "md4_final (foldl md4_update (md_init garbage) ds) =
      (md_wiped, md_digest md4_transform md_iv md_out md_lenenc (concat ds)) \<and>
    md5_final (foldl md5_update (md_init garbage) ds) =
      (md_wiped, md_digest md5_transform md_iv md_out md_lenenc (concat ds))"
  using md4_digest [OF assms] md5_digest [OF assms] by blast

theorem md_digests_correct_witness:
  "md4_final (foldl md4_update (md_init (replicate 64 0xAA)) [[0x61], [], [0x62, 0x63]]) =
    (md_wiped, [0xa4, 0x48, 0x01, 0x7a, 0xaf, 0x21, 0xd8, 0x52,
                0x5f, 0xc1, 0x0a, 0xe8, 0x7a, 0xa6, 0x72, 0x9d]) \<and>
   md5_final (foldl md5_update (md_init (replicate 64 0xAA)) [[0x61], [], [0x62, 0x63]]) =
    (md_wiped, [0x90, 0x01, 0x50, 0x98, 0x3c, 0xd2, 0x4f, 0xb0,
                0xd6, 0x96, 0x3f, 0x7d, 0x28, 0xe1, 0x7f, 0x72])"
proof -
  have 4: "md_digest md4_transform md_iv md_out md_lenenc (concat [[0x61], [], [0x62, 0x63]]) =
      [0xa4, 0x48, 0x01, 0x7a, 0xaf, 0x21, 0xd8, 0x52, 0x5f, 0xc1, 0x0a, 0xe8, 0x7a, 0xa6, 0x72, 0x9d]"
    by code_simp
  have 5: "md_digest md5_transform md_iv md_out md_lenenc (concat [[0x61], [], [0x62, 0x63]]) =
      [0x90, 0x01, 0x50, 0x98, 0x3c, 0xd2, 0x4f, 0xb0, 0xd6, 0x96, 0x3f, 0x7d, 0x28, 0xe1, 0x7f, 0x72]"
    by code_simp
  show ?thesis
    using md_digests_correct [of "replicate 64 0xAA" "[[0x61], [], [0x62, 0x63]]", OF length_replicate] unfolding 4 5 .
qed

end
