(* ===== verification/Sha.thy ===== *)
theory Sha
  imports Digest
begin

text \<open>
  SHA-1 and SHA-256 (crypto/sha1.c, crypto/sha256.c).  The unrolled rounds are folds over the step
  number (SHA-1) and over the (constant, word index) table (SHA-256) in source order; a step is one
  macro call, and the register names of the next call are rotated by one.  The bit counters keep
  their widths.  Positions inside the data of one call are natural numbers: the model is of calls
  of fewer than 2^32 - 127 bytes, where the code's 32-bit positions do not wrap.
\<close>

subsection \<open>What the two update functions share\<close>

text \<open>The loop over the whole blocks of the data, and the buffering around it; \<open>full\<close> is the
  condition for the first block to be complete.\<close>

function sha_loop :: "(u32 list \<Rightarrow> u8 list \<Rightarrow> u32 list) \<Rightarrow> u32 list \<Rightarrow> u8 list \<Rightarrow> nat \<Rightarrow> u32 list \<times> nat"
  where
  "sha_loop T state data i =
     (if i + 63 < length data then sha_loop T (T state (take 64 (drop i data))) data (i + 64)
      else (state, i))"
  by pat_completeness auto
termination
  by (relation "measure (\<lambda>(T, state, data, i). length data - i)") auto

declare sha_loop.simps [simp del]

definition sha_absorb ::
    "(u32 list \<Rightarrow> u8 list \<Rightarrow> u32 list) \<Rightarrow> bool \<Rightarrow> nat \<Rightarrow> u32 list \<Rightarrow> u8 list \<Rightarrow> u8 list \<Rightarrow> u32 list \<times> u8 list"
  where
  "sha_absorb T full j state buffer data =
     (if full then
        (let buffer1 = put buffer j (take (64 - j) data);
             (state', i) = sha_loop T (T state (take 64 buffer1)) data (64 - j)
         in (state', put buffer1 0 (drop i data)))
      else (state, put buffer j data))"

subsection \<open>SHA-1\<close>

record sha1_ctx =
  count :: u64
  state :: "u32 list"
  buffer :: "u8 list"

type_synonym regs5 = "u32 \<times> u32 \<times> u32 \<times> u32 \<times> u32"

text \<open>\<open>blk0\<close> and \<open>blk\<close>: the message word of step \<open>i\<close>, and the workspace after it.\<close>

definition blk :: "nat \<Rightarrow> u32 list \<Rightarrow> u32 \<times> u32 list" where
  "blk i block32 =
     (if i < 16 then (block32 ! i, block32)
      else
        (let w = rol32 (block32 ! ((i + 13) mod 16) XOR block32 ! ((i + 8) mod 16) XOR
                   block32 ! ((i + 2) mod 16) XOR block32 ! (i mod 16)) 1
         in (w, block32[i mod 16 := w])))"

definition sha1_mix :: "nat \<Rightarrow> u32 \<Rightarrow> u32 \<Rightarrow> u32 \<Rightarrow> u32" where
  "sha1_mix i w x y =
     (if i < 20 then (w AND (x XOR y)) XOR y
      else if i < 40 then w XOR x XOR y
      else if i < 60 then ((w OR x) AND y) OR (w AND x)
      else w XOR x XOR y)"

definition sha1_const :: "nat \<Rightarrow> u32" where
  "sha1_const i =
     (if i < 20 then 0x5A827999 else if i < 40 then 0x6ED9EBA1
      else if i < 60 then 0x8F1BBCDC else 0xCA62C1D6)"

text \<open>\<open>R0\<close> to \<open>R4\<close> on (v, w, x, y, z), with the registers rotated for the next call.\<close>

definition sha1_step :: "nat \<Rightarrow> regs5 \<times> u32 list \<Rightarrow> regs5 \<times> u32 list" where
  "sha1_step i s =
     (case s of ((v, w, x, y, z), block32) \<Rightarrow>
        (let (m, block32') = blk i block32 in
         ((z + (sha1_mix i w x y + m + sha1_const i + rol32 v 5), v, rol32 w 30, x, y), block32')))"

definition sha1_transform :: "u32 list \<Rightarrow> u8 list \<Rightarrow> u32 list" where
  "sha1_transform st inp =
     (let block32 = map (\<lambda>a. be32_word (drop (4 * a) inp)) [0..<16];
          ((a, b, c, d, e), _) =
            fold sha1_step [0..<80] ((st ! 0, st ! 1, st ! 2, st ! 3, st ! 4), block32)
      in [st ! 0 + a, st ! 1 + b, st ! 2 + c, st ! 3 + d, st ! 4 + e])"

definition sha1_iv :: "u32 list" where
  "sha1_iv = [0x67452301, 0xEFCDAB89, 0x98BADCFE, 0x10325476, 0xC3D2E1F0]"

definition sha1_init :: sha1_ctx where
  "sha1_init = \<lparr>count = 0, state = sha1_iv, buffer = replicate 64 0\<rparr>"

definition sha1_index :: "sha1_ctx \<Rightarrow> nat" where
  "sha1_index sctx = unat (drop_bit 3 (count sctx) AND 0x3f)"

definition sha1_update :: "sha1_ctx \<Rightarrow> u8 list \<Rightarrow> sha1_ctx" where
  "sha1_update sctx data =
     (let len = of_nat (length data) :: u32; j = sha1_index sctx;
          (state', buffer') =
            sha_absorb sha1_transform (63 < of_nat j + len) j (state sctx) (buffer sctx) data
      in \<lparr>count = count sctx + ucast (push_bit 3 len), state = state', buffer = buffer'\<rparr>)"

definition sha1_bits :: "u64 \<Rightarrow> u8 list" where
  "sha1_bits t = map (\<lambda>k. ucast (drop_bit (8 * (7 - k)) t)) [0..<8]"

definition sha1_final :: "sha1_ctx \<Rightarrow> sha1_ctx \<times> u8 list" where
  "sha1_final sctx =
     (let bits = sha1_bits (count sctx);
          index = sha1_index sctx;
          padlen = (if index < 56 then 56 - index else 64 + 56 - index);
          sctx1 = sha1_update sctx (take padlen (0x80 # replicate 63 0));
          sctx2 = sha1_update sctx1 bits
      in (\<lparr>count = 0, state = replicate 5 0, buffer = replicate 64 0\<rparr>, concat (map be32 (state sctx2))))"

subsection \<open>SHA-256\<close>

record sha256_ctx =
  count0 :: u32
  count1 :: u32
  state256 :: "u32 list"
  buf :: "u8 list"

type_synonym regs8 = "u32 \<times> u32 \<times> u32 \<times> u32 \<times> u32 \<times> u32 \<times> u32 \<times> u32"

definition Ch :: "u32 \<Rightarrow> u32 \<Rightarrow> u32 \<Rightarrow> u32" where "Ch x y z = z XOR (x AND (y XOR z))"
definition Maj :: "u32 \<Rightarrow> u32 \<Rightarrow> u32 \<Rightarrow> u32" where "Maj x y z = (x AND y) OR (z AND (x OR y))"
definition RORu32 :: "u32 \<Rightarrow> nat \<Rightarrow> u32" where "RORu32 x y = drop_bit y x OR push_bit (32 - y) x"
definition e0 :: "u32 \<Rightarrow> u32" where "e0 x = RORu32 x 2 XOR RORu32 x 13 XOR RORu32 x 22"
definition e1 :: "u32 \<Rightarrow> u32" where "e1 x = RORu32 x 6 XOR RORu32 x 11 XOR RORu32 x 25"
definition s0 :: "u32 \<Rightarrow> u32" where "s0 x = RORu32 x 7 XOR RORu32 x 18 XOR drop_bit 3 x"
definition s1 :: "u32 \<Rightarrow> u32" where "s1 x = RORu32 x 17 XOR RORu32 x 19 XOR drop_bit 10 x"

text \<open>The work array is the list of the words written so far.\<close>

definition LOAD_OP :: "u8 list \<Rightarrow> nat \<Rightarrow> u32 list \<Rightarrow> u32 list" where
  "LOAD_OP input i W =
     (let t = \<lambda>acc k. push_bit 8 acc OR (ucast (input ! (4 * i + k)) AND 0xff) in
      W @ [t (t (t (ucast (input ! (4 * i)) AND 0xff) 1) 2) 3])"

definition BLEND_OP :: "nat \<Rightarrow> u32 list \<Rightarrow> u32 list" where
  "BLEND_OP i W = W @ [s1 (W ! (i - 2)) + W ! (i - 7) + s0 (W ! (i - 15)) + W ! (i - 16)]"

definition sha256_table :: "(u32 \<times> nat) list" where
  "sha256_table =
    [
     (0x428a2f98, 0), (0x71374491, 1), (0xb5c0fbcf, 2), (0xe9b5dba5, 3),
     (0x3956c25b, 4), (0x59f111f1, 5), (0x923f82a4, 6), (0xab1c5ed5, 7),
     (0xd807aa98, 8), (0x12835b01, 9), (0x243185be, 10), (0x550c7dc3, 11),
     (0x72be5d74, 12), (0x80deb1fe, 13), (0x9bdc06a7, 14), (0xc19bf174, 15),
     (0xe49b69c1, 16), (0xefbe4786, 17), (0x0fc19dc6, 18), (0x240ca1cc, 19),
     (0x2de92c6f, 20), (0x4a7484aa, 21), (0x5cb0a9dc, 22), (0x76f988da, 23),
     (0x983e5152, 24), (0xa831c66d, 25), (0xb00327c8, 26), (0xbf597fc7, 27),
     (0xc6e00bf3, 28), (0xd5a79147, 29), (0x06ca6351, 30), (0x14292967, 31),
     (0x27b70a85, 32), (0x2e1b2138, 33), (0x4d2c6dfc, 34), (0x53380d13, 35),
     (0x650a7354, 36), (0x766a0abb, 37), (0x81c2c92e, 38), (0x92722c85, 39),
     (0xa2bfe8a1, 40), (0xa81a664b, 41), (0xc24b8b70, 42), (0xc76c51a3, 43),
     (0xd192e819, 44), (0xd6990624, 45), (0xf40e3585, 46), (0x106aa070, 47),
     (0x19a4c116, 48), (0x1e376c08, 49), (0x2748774c, 50), (0x34b0bcb5, 51),
     (0x391c0cb3, 52), (0x4ed8aa4a, 53), (0x5b9cca4f, 54), (0x682e6ff3, 55),
     (0x748f82ee, 56), (0x78a5636f, 57), (0x84c87814, 58), (0x8cc70208, 59),
     (0x90befffa, 60), (0xa4506ceb, 61), (0xbef9a3f7, 62), (0xc67178f2, 63)]"

definition sha256_step :: "u32 list \<Rightarrow> u32 \<times> nat \<Rightarrow> regs8 \<Rightarrow> regs8" where
  "sha256_step W kw r =
     (case (kw, r) of ((kk, i), (a, b, c, d, e, f, g, h)) \<Rightarrow>
        (let t1 = h + e1 e + Ch e f g + kk + W ! i; t2 = e0 a + Maj a b c
         in (t1 + t2, a, b, c, d + t1, e, f, g)))"

definition sha256_transform :: "u32 list \<Rightarrow> u8 list \<Rightarrow> u32 list" where
  "sha256_transform st input =
     (let W = fold BLEND_OP [16..<64] (fold (LOAD_OP input) [0..<16] []);
          (a, b, c, d, e, f, g, h) =
            fold (sha256_step W) sha256_table
              (st ! 0, st ! 1, st ! 2, st ! 3, st ! 4, st ! 5, st ! 6, st ! 7)
      in [st ! 0 + a, st ! 1 + b, st ! 2 + c, st ! 3 + d,
          st ! 4 + e, st ! 5 + f, st ! 6 + g, st ! 7 + h])"

definition sha256_iv :: "u32 list" where
  "sha256_iv = [0x6a09e667, 0xbb67ae85, 0x3c6ef372, 0xa54ff53a,
                0x510e527f, 0x9b05688c, 0x1f83d9ab, 0x5be0cd19]"

definition sha256_init :: sha256_ctx where
  "sha256_init = \<lparr>count0 = 0, count1 = 0, state256 = sha256_iv, buf = replicate 128 0\<rparr>"

definition sha256_index :: "sha256_ctx \<Rightarrow> nat" where
  "sha256_index sctx = unat (drop_bit 3 (count0 sctx) AND 0x3f)"

definition sha256_update :: "sha256_ctx \<Rightarrow> u8 list \<Rightarrow> sha256_ctx" where
  "sha256_update sctx data =
     (let len = of_nat (length data) :: u32; index = sha256_index sctx;
          c0 = count0 sctx + push_bit 3 len;
          c1 = (if c0 < push_bit 3 len then count1 sctx + 1 + drop_bit 29 len else count1 sctx);
          part_len = of_nat (64 - index) :: u32;
          (state', buf') =
            sha_absorb sha256_transform (part_len \<le> len) index (state256 sctx) (buf sctx) data
      in \<lparr>count0 = c0, count1 = c1, state256 = state', buf = buf'\<rparr>)"

definition sha256_bits :: "u32 \<Rightarrow> u32 \<Rightarrow> u8 list" where
  "sha256_bits c0 c1 = be32 c1 @ be32 c0"

definition sha256_final :: "sha256_ctx \<Rightarrow> sha256_ctx \<times> u8 list" where
  "sha256_final sctx =
     (let bits = sha256_bits (count0 sctx) (count1 sctx);
          index = sha256_index sctx;
          pad_len = (if index < 56 then 56 - index else 64 + 56 - index);
          sctx1 = sha256_update sctx (take pad_len (0x80 # replicate 63 0));
          sctx2 = sha256_update sctx1 bits
      in (\<lparr>count0 = 0, count1 = 0, state256 = replicate 8 0, buf = replicate 128 0\<rparr>,
          concat (map be32 (state256 sctx2))))"

subsection \<open>Absorbing data\<close>

lemma sha_loop_correct:
  "i \<le> length data \<Longrightarrow>
   (let (s', i') = sha_loop T s data i in
    compress_all T s (drop i data) = (s', drop i' data) \<and> i' \<le> length data)"
proof (induction T s data i rule: sha_loop.induct)
  case (1 T s data i)
  show ?case
  proof (cases "i + 63 < length data")
    case True
    then have "64 \<le> length (drop i data)" by simp
    then show ?thesis
      using True 1 by (simp add: sha_loop.simps [of T s data i] add.commute
        compress_all.simps [of T s "drop i data"] del: length_drop)
  next
    case False
    then show ?thesis using 1(2) by (simp add: sha_loop.simps [of T s data i])
  qed
qed

lemma sha_absorb_correct:
  assumes j: "j < 64" and len: "64 \<le> length b" and full: "full \<longleftrightarrow> 64 \<le> j + length data"
    and r: "sha_absorb T full j s b data = (s', b')"
  shows "compress_all T s (take j b @ data) = (s', take ((j + length data) mod 64) b')"
    and "length b' = length b"
proof -
  have "compress_all T s (take j b @ data) = (s', take ((j + length data) mod 64) b') \<and>
    length b' = length b"
  proof (cases full)
    case False
    then show ?thesis using assms by (auto simp: sha_absorb_def take_put)
  next
    case True
    let ?p = "take j b @ take (64 - j) data"
    let ?b = "put b j (take (64 - j) data)"
    obtain s1 i where l: "sha_loop T (T s (take 64 ?b)) data (64 - j) = (s1, i)" by fastforce
    have b: "take 64 ?b = ?p" "length ?p = 64" "length ?b = length b"
      using True full j len by (auto simp: put_def)
    have i: "compress_all T (T s ?p) (drop (64 - j) data) = (s1, drop i data)" "i \<le> length data"
      using sha_loop_correct [of "64 - j" data T "T s ?p"] l True full b by auto
    have c: "compress_all T s (take j b @ data) = (s1, drop i data)"
      using compress_all_block [OF b(2), of T s "drop (64 - j) data"] i by simp
    have "length (drop i data) = (j + length data) mod 64"
      using compress_all_rest [of T s "take j b @ data"] c j len by simp
    moreover have "s' = s1" "b' = put ?b 0 (drop i data)"
      using r True l by (simp_all add: sha_absorb_def)
    moreover have "(j + length data) mod 64 < 64" by simp
    ultimately show ?thesis
      using c b len take_put [of 0 ?b "drop i data"] by (simp del: drop_eq_Nil)
  qed
  then show "compress_all T s (take j b @ data) = (s', take ((j + length data) mod 64) b')"
    "length b' = length b" by simp_all
qed

lemma sha_padding:
  "take (if n mod 64 < 56 then 56 - n mod 64 else 64 + 56 - n mod 64) (0x80 # replicate 63 (0 :: u8)) =
     0x80 # replicate (pad_zeros n) 0"
proof -
  have "n mod 64 < 64" by simp
  then show ?thesis by (cases "n mod 64 < 56") (auto simp: pad_zeros_def take_Cons' min_def)
qed

lemma pad_zeros_less: "pad_zeros n < 64"
  using mod_less_divisor [of 64 n] by (auto simp: pad_zeros_def)

lemma unat_and_63: "unat (w AND 0x3f :: 'a::len word) = unat w mod 64"
proof -
  have "w AND 0x3f = take_bit 6 w" by (simp add: take_bit_eq_mask mask_eq_exp_minus_1)
  then show ?thesis by (simp add: unat_take_bit')
qed

subsection \<open>The SHA-1 context meets the contract\<close>

definition sha1_repr :: "sha1_ctx \<Rightarrow> nat \<Rightarrow> bool" where
  "sha1_repr c n \<longleftrightarrow> length (buffer c) = 64 \<and> count c = of_nat (8 * n)"

definition sha1_pending :: "sha1_ctx \<Rightarrow> u8 list" where
  "sha1_pending c = take (sha1_index c) (buffer c)"

definition sha_piece :: "u8 list \<Rightarrow> bool" where
  "sha_piece d \<longleftrightarrow> length d < 2 ^ 29"

definition sha1_lenenc :: "nat \<Rightarrow> u8 list" where
  "sha1_lenenc n = sha1_bits (of_nat (8 * n))"

definition sha_out :: "u32 list \<Rightarrow> u8 list" where
  "sha_out h = concat (map be32 h)"

lemma sha1_index_repr: "count c = of_nat (8 * n) \<Longrightarrow> sha1_index c = n mod 64"
proof -
  assume "count c = of_nat (8 * n)"
  then have "unat (count c) = (8 * n) mod 2 ^ 64" by (simp only: unat_of_nat) simp
  then have "unat (drop_bit 3 (count c)) = (8 * n) mod 2 ^ 64 div 8"
    by (simp only: unat_drop_bit_eq) (simp add: drop_bit_eq_div)
  also have "\<dots> = n mod 2 ^ 61"
    using mult_mod_right [of 8 n "2 ^ 61"] by simp
  finally show ?thesis
    by (simp only: sha1_index_def unat_and_63) (simp add: mod_mod_cancel)
qed

lemma unat_len_bits:
  assumes "length d < 2 ^ 29"
  shows "unat (push_bit 3 (of_nat (length d) :: u32)) = 8 * length d"
    and "unat (of_nat (length d) :: u32) = length d"
proof -
  show l: "unat (of_nat (length d) :: u32) = length d" using assms by (simp add: unat_of_nat)
  have "push_bit 3 (of_nat (length d) :: u32) = of_nat (8 * length d)"
    by (simp add: push_bit_eq_mult)
  also have "unat (of_nat (8 * length d) :: u32) = 8 * length d"
    using assms by (simp only: unat_of_nat) simp
  finally show "unat (push_bit 3 (of_nat (length d) :: u32)) = 8 * length d" .
qed

lemma sha1_full:
  assumes "length d < 2 ^ 29" "j < 64"
  shows "(63 :: u32) < of_nat j + of_nat (length d) \<longleftrightarrow> 64 \<le> j + length d"
proof -
  have "unat (of_nat (j + length d) :: u32) = j + length d"
    using assms by (simp only: unat_of_nat) simp
  then show ?thesis by (auto simp: word_less_nat_alt)
qed

lemma sha1_update_ok:
  assumes r: "sha1_repr c n" and p: "sha_piece d"
  shows "(state (sha1_update c d), sha1_pending (sha1_update c d)) =
      compress_all sha1_transform (state c) (sha1_pending c @ d)"
    and "sha1_repr (sha1_update c d) (n + length d)"
proof -
  have idx: "sha1_index c = n mod 64" and len: "length (buffer c) = 64"
    using r by (simp_all add: sha1_repr_def sha1_index_repr)
  obtain s' b' where a: "sha_absorb sha1_transform
      ((63 :: u32) < of_nat (n mod 64) + of_nat (length d)) (n mod 64) (state c) (buffer c) d = (s', b')"
    by fastforce
  have u: "sha1_update c d = \<lparr>count = count c + ucast (push_bit 3 (of_nat (length d) :: u32)),
      state = s', buffer = b'\<rparr>"
    using a by (simp add: sha1_update_def idx)
  have "ucast (push_bit 3 (of_nat (length d) :: u32)) = (of_nat (8 * length d) :: u64)"
    using unat_len_bits(1) [of d] p by (metis sha_piece_def of_nat_unat)
  then have cnt: "count (sha1_update c d) = of_nat (8 * (n + length d))"
    using r by (simp add: u sha1_repr_def algebra_simps)
  note ab = sha_absorb_correct [OF _ _ sha1_full a, unfolded idx]
  show "sha1_repr (sha1_update c d) (n + length d)"
    using ab(2) cnt len p by (simp add: sha1_repr_def u sha_piece_def)
  have "sha1_index (sha1_update c d) = (n mod 64 + length d) mod 64"
    by (simp only: sha1_index_repr [OF cnt] mod_add_left_eq)
  then show "(state (sha1_update c d), sha1_pending (sha1_update c d)) =
      compress_all sha1_transform (state c) (sha1_pending c @ d)"
    using ab(1) len p by (simp add: sha1_pending_def u idx sha_piece_def del: mod_add_left_eq)
qed

lemma sha1_final_ok:
  assumes r: "sha1_repr c n"
  shows "snd (sha1_final c) =
    sha_out (fst (compress_all sha1_transform (state c) (sha1_pending c @ md_pad sha1_lenenc n)))"
proof -
  let ?p = "0x80 # replicate (pad_zeros n) (0 :: u8)" and ?b = "sha1_bits (count c)"
  let ?c1 = "sha1_update c ?p"
  have idx: "sha1_index c = n mod 64" and b: "?b = sha1_lenenc n"
    using r by (simp_all add: sha1_repr_def sha1_index_repr sha1_lenenc_def)
  have p: "sha_piece ?p" "sha_piece ?b"
    using pad_zeros_less [of n] by (simp_all add: sha_piece_def sha1_bits_def)
  have 1: "(state ?c1, sha1_pending ?c1) = compress_all sha1_transform (state c) (sha1_pending c @ ?p)"
    by (rule sha1_update_ok(1) [OF r p(1)])
  have 2: "(state (sha1_update ?c1 ?b), sha1_pending (sha1_update ?c1 ?b)) =
      compress_all sha1_transform (state ?c1) (sha1_pending ?c1 @ ?b)"
    by (rule sha1_update_ok(1) [OF sha1_update_ok(2) [OF r p(1)] p(2)])
  have "compress_all sha1_transform (state c) ((sha1_pending c @ ?p) @ ?b) =
      (state (sha1_update ?c1 ?b), sha1_pending (sha1_update ?c1 ?b))"
    unfolding compress_all_append [of _ _ "sha1_pending c @ ?p"] 1 [symmetric] by (simp add: 2)
  then show ?thesis
    by (simp add: sha1_final_def Let_def idx sha_padding [simplified] md_pad_def sha_out_def b)
qed

lemma sha1_init_state: "state sha1_init = sha1_iv" "sha1_pending sha1_init = []" "sha1_repr sha1_init 0"
  by (simp_all add: sha1_init_def sha1_pending_def sha1_index_def sha1_repr_def)

interpretation sha1: incremental_hash sha1_transform sha1_iv "\<lambda>c. c = sha1_init" sha1_update
    "\<lambda>c. snd (sha1_final c)" state sha1_pending sha1_repr sha_piece sha_out sha1_lenenc
  by unfold_locales (simp_all add: sha1_update_ok sha1_final_ok sha1_init_state)

subsection \<open>The SHA-256 context meets the contract\<close>

definition sha256_repr :: "sha256_ctx \<Rightarrow> nat \<Rightarrow> bool" where
  "sha256_repr c n \<longleftrightarrow> length (buf c) = 128 \<and> count0 c = of_nat (8 * n) \<and>
     count1 c = of_nat (8 * n div 2 ^ 32)"

definition sha256_pending :: "sha256_ctx \<Rightarrow> u8 list" where
  "sha256_pending c = take (sha256_index c) (buf c)"

definition sha256_lenenc :: "nat \<Rightarrow> u8 list" where
  "sha256_lenenc n = sha256_bits (of_nat (8 * n)) (of_nat (8 * n div 2 ^ 32))"

lemma sha256_index_repr: "count0 c = of_nat (8 * n) \<Longrightarrow> sha256_index c = n mod 64"
proof -
  assume "count0 c = of_nat (8 * n)"
  then have "unat (count0 c) = (8 * n) mod 2 ^ 32" by (simp only: unat_of_nat) simp
  then have "unat (drop_bit 3 (count0 c)) = (8 * n) mod 2 ^ 32 div 8"
    by (simp only: unat_drop_bit_eq) (simp add: drop_bit_eq_div)
  also have "\<dots> = n mod 2 ^ 29"
    using mult_mod_right [of 8 n "2 ^ 29"] by simp
  finally show ?thesis
    by (simp only: sha256_index_def unat_and_63) (simp add: mod_mod_cancel)
qed

text \<open>The carry out of the low counter word.\<close>

lemma carry_nat:
  assumes "l < (M :: nat)"
  shows "(a + l) mod M < l \<longleftrightarrow> (a + l) div M = a div M + 1"
    and "\<not> (a + l) mod M < l \<Longrightarrow> (a + l) div M = a div M"
proof -
  have s: "(a + l) mod M = (a mod M + l) mod M" "(a + l) div M = a div M + (a mod M + l) div M"
    using assms by (simp_all add: mod_add_left_eq div_add1_eq [of a l M])
  have "a mod M < M" using assms by simp
  then have "a mod M + l < M \<or> (M \<le> a mod M + l \<and> a mod M + l - M < M \<and> a mod M + l - M < l)"
    using assms by linarith
  then have "(a mod M + l) mod M < l \<longleftrightarrow> (a mod M + l) div M = 1"
      "\<not> (a mod M + l) mod M < l \<Longrightarrow> (a mod M + l) div M = 0"
    using assms \<open>a mod M < M\<close> by (auto simp: le_mod_geq le_div_geq)
  then show "(a + l) mod M < l \<longleftrightarrow> (a + l) div M = a div M + 1"
      "\<not> (a + l) mod M < l \<Longrightarrow> (a + l) div M = a div M"
    by (simp_all add: s)
qed

lemma sha256_count:
  assumes p: "sha_piece d"
  defines "lb \<equiv> push_bit 3 (of_nat (length d) :: u32)"
  shows "(of_nat (8 * n) :: u32) + lb = of_nat (8 * (n + length d))"
    and "(if (of_nat (8 * n) :: u32) + lb < lb
          then of_nat (8 * n div 2 ^ 32) + 1 + drop_bit 29 (of_nat (length d))
          else of_nat (8 * n div 2 ^ 32)) = (of_nat (8 * (n + length d) div 2 ^ 32) :: u32)"
proof -
  have l: "unat lb = 8 * length d" "unat (of_nat (length d) :: u32) = length d"
      "8 * length d < 2 ^ 32"
    using p by (auto simp: lb_def unat_len_bits sha_piece_def)
  show s: "(of_nat (8 * n) :: u32) + lb = of_nat (8 * (n + length d))"
    by (simp add: lb_def push_bit_eq_mult algebra_simps)
  have "unat (drop_bit 29 (of_nat (length d) :: u32)) = 0"
    using p l(2) by (simp only: unat_drop_bit_eq) (simp add: drop_bit_eq_div sha_piece_def)
  then have z: "drop_bit 29 (of_nat (length d) :: u32) = 0" by (simp only: unsigned_eq_0_iff)
  have "unat ((of_nat (8 * n) :: u32) + lb) = (8 * n + 8 * length d) mod 2 ^ 32"
    unfolding s by (simp only: unat_of_nat distrib_left) simp
  then have "(of_nat (8 * n) :: u32) + lb < lb \<longleftrightarrow> (8 * n + 8 * length d) mod 2 ^ 32 < 8 * length d"
    by (simp only: word_less_nat_alt l)
  then show "(if (of_nat (8 * n) :: u32) + lb < lb
        then of_nat (8 * n div 2 ^ 32) + 1 + drop_bit 29 (of_nat (length d))
        else of_nat (8 * n div 2 ^ 32)) = (of_nat (8 * (n + length d) div 2 ^ 32) :: u32)"
    using carry_nat [OF l(3), of "8 * n"]
    by (auto simp only: z distrib_left add_0_right of_nat_add of_nat_1 split: if_splits)
qed

lemma sha256_full:
  assumes "length d < 2 ^ 29" "j < 64"
  shows "(of_nat (64 - j) :: u32) \<le> of_nat (length d) \<longleftrightarrow> 64 \<le> j + length d"
proof -
  have "unat (of_nat (64 - j) :: u32) = 64 - j" by (simp only: unat_of_nat) simp
  then show ?thesis using unat_len_bits(2) [OF assms(1)] by (simp only: word_le_nat_alt) linarith
qed

lemma sha256_update_ok:
  assumes r: "sha256_repr c n" and p: "sha_piece d"
  shows "(state256 (sha256_update c d), sha256_pending (sha256_update c d)) =
      compress_all sha256_transform (state256 c) (sha256_pending c @ d)"
    and "sha256_repr (sha256_update c d) (n + length d)"
proof -
  have idx: "sha256_index c = n mod 64" and len: "length (buf c) = 128"
    using r by (simp_all add: sha256_repr_def sha256_index_repr)
  obtain s' b' where a: "sha_absorb sha256_transform
      ((of_nat (64 - n mod 64) :: u32) \<le> of_nat (length d)) (n mod 64) (state256 c) (buf c) d = (s', b')"
    by fastforce
  have cs: "count0 (sha256_update c d) = of_nat (8 * (n + length d))"
      "count1 (sha256_update c d) = of_nat (8 * (n + length d) div 2 ^ 32)"
    using r sha256_count [OF p, of n]
    by (simp_all only: sha256_repr_def sha256_update_def Let_def split: prod.split) simp_all
  have u: "state256 (sha256_update c d) = s'" "buf (sha256_update c d) = b'"
    using a by (simp_all add: sha256_update_def idx Let_def)
  note ab = sha_absorb_correct [OF _ _ sha256_full a, unfolded idx]
  show "sha256_repr (sha256_update c d) (n + length d)"
    using ab(2) cs len p by (simp add: sha256_repr_def u sha_piece_def)
  have "sha256_index (sha256_update c d) = (n mod 64 + length d) mod 64"
    by (simp only: sha256_index_repr [OF cs(1)] mod_add_left_eq)
  then show "(state256 (sha256_update c d), sha256_pending (sha256_update c d)) =
      compress_all sha256_transform (state256 c) (sha256_pending c @ d)"
    using ab(1) len p by (simp add: sha256_pending_def u idx sha_piece_def del: mod_add_left_eq)
qed

lemma sha256_final_ok:
  assumes r: "sha256_repr c n"
  shows "snd (sha256_final c) =
    sha_out (fst (compress_all sha256_transform (state256 c) (sha256_pending c @ md_pad sha256_lenenc n)))"
proof -
  let ?p = "0x80 # replicate (pad_zeros n) (0 :: u8)" and ?b = "sha256_bits (count0 c) (count1 c)"
  let ?c1 = "sha256_update c ?p"
  have idx: "sha256_index c = n mod 64" and b: "?b = sha256_lenenc n"
    using r by (simp_all add: sha256_repr_def sha256_index_repr sha256_lenenc_def)
  have p: "sha_piece ?p" "sha_piece ?b"
    using pad_zeros_less [of n] by (simp_all add: sha_piece_def sha256_bits_def)
  have 1: "(state256 ?c1, sha256_pending ?c1) =
      compress_all sha256_transform (state256 c) (sha256_pending c @ ?p)"
    by (rule sha256_update_ok(1) [OF r p(1)])
  have 2: "(state256 (sha256_update ?c1 ?b), sha256_pending (sha256_update ?c1 ?b)) =
      compress_all sha256_transform (state256 ?c1) (sha256_pending ?c1 @ ?b)"
    by (rule sha256_update_ok(1) [OF sha256_update_ok(2) [OF r p(1)] p(2)])
  have "compress_all sha256_transform (state256 c) ((sha256_pending c @ ?p) @ ?b) =
      (state256 (sha256_update ?c1 ?b), sha256_pending (sha256_update ?c1 ?b))"
    unfolding compress_all_append [of _ _ "sha256_pending c @ ?p"] 1 [symmetric] by (simp add: 2)
  then show ?thesis
    by (simp add: sha256_final_def Let_def idx sha_padding [simplified] md_pad_def sha_out_def b)
qed

lemma sha256_init_state:
  "state256 sha256_init = sha256_iv" "sha256_pending sha256_init = []" "sha256_repr sha256_init 0"
  by (simp_all add: sha256_init_def sha256_pending_def sha256_index_def sha256_repr_def)

interpretation sha256: incremental_hash sha256_transform sha256_iv "\<lambda>c. c = sha256_init" sha256_update
    "\<lambda>c. snd (sha256_final c)" state256 sha256_pending sha256_repr sha_piece sha_out sha256_lenenc
  by unfold_locales (simp_all add: sha256_update_ok sha256_final_ok sha256_init_state)

subsection \<open>The digests are the reference digests\<close>



text \<open>
  Where the bound of 2^29 bytes comes from: an update with a piece of exactly 2^29 bytes leaves
  the bit counts of both contexts as they were, so that \<open>final\<close> would pad with the length without
  the piece (a 64-bit count of the SHA-1 context would have had room for it; in SHA-256 the
  high bits \<open>len >> 29\<close> are added only when the low word carries).
\<close>

theorem sha_count_truncated:
  assumes "length d = 2 ^ 29"
  shows "count (sha1_update c d) = count c \<and>
    count0 (sha256_update c' d) = count0 c' \<and> count1 (sha256_update c' d) = count1 c'"
proof -
  have "push_bit 3 (2 ^ 29 :: u32) = 0" by (simp add: push_bit_eq_mult)
  moreover have "of_nat (length d) = (2 ^ 29 :: u32)" using assms by simp
  ultimately have z: "push_bit 3 (of_nat (length d) :: u32) = 0" by simp
  have "count (sha1_update c d) = count c"
    by (simp only: sha1_update_def Let_def z) (simp split: prod.split)
  moreover have "count0 (sha256_update c' d) = count0 c' \<and> count1 (sha256_update c' d) = count1 c'"
    by (simp only: sha256_update_def Let_def z) (simp split: prod.split)
  ultimately show ?thesis by simp
qed

theorem sha_count_truncated_witness:
  "count (sha1_update sha1_init (replicate (2 ^ 29) 0)) = 0 \<and>
   count0 (sha256_update sha256_init (replicate (2 ^ 29) 0)) = 0"
proof -
  have "count sha1_init = 0" "count0 sha256_init = 0" by (simp_all add: sha1_init_def sha256_init_def)
  then show ?thesis
    using sha_count_truncated [OF length_replicate, of sha1_init 0 sha256_init] by (simp only: simp_thms)
qed

end
