(* ===== verification/Cipher.thy ===== *)
theory Cipher
  imports Digest "HOL-Library.Monad_Syntax"
begin

text \<open>
  The block ciphers TEA, XTEA and XETA (crypto/tea.c), the stream cipher ARC4 (crypto/arc4.c) and
  the ECB and CBC modes of the crypto API's cipher layer (crypto/cipher.c).

  The cipher layer works on one memory, a list of bytes, in which source and destination are
  offsets: whether they are the same buffer is visible to the model.  Both lie in one page and one
  scatterlist entry each, where \<open>scatterwalk_whichbuf\<close> returns the data itself and
  \<open>scatterwalk_copychunks\<close> copies nothing; the page walk of crypto/scatterwalk.c is not modelled.
  A cipher function (\<open>cryptfn_t\<close>) takes the context and a block and returns the new context and the
  block it writes, or None if its loop does not end.
\<close>

subsection \<open>TEA\<close>

type_synonym tea_ctx = "u32 list"

definition CRYPTO_TFM_RES_BAD_KEY_LEN :: u32 where "CRYPTO_TFM_RES_BAD_KEY_LEN = 0x00200000"
definition CRYPTO_TFM_RES_BAD_BLOCK_LEN :: u32 where "CRYPTO_TFM_RES_BAD_BLOCK_LEN = 0x00800000"

definition TEA_DELTA :: u32 where "TEA_DELTA = 0x9e3779b9"
definition XTEA_DELTA :: u32 where "XTEA_DELTA = 0x9e3779b9"

definition u32_in :: "u8 list \<Rightarrow> u32" where "u32_in x = le32_word (take 4 x)"
definition u32_out :: "u32 \<Rightarrow> u8 list" where "u32_out v = le32 v"

definition tea_setkey :: "tea_ctx \<Rightarrow> u8 list \<Rightarrow> u32 \<Rightarrow> int \<times> tea_ctx \<times> u32" where
  "tea_setkey ctx in_key flags =
     (if length in_key \<noteq> 16 then (- EINVAL, ctx, flags OR CRYPTO_TFM_RES_BAD_KEY_LEN)
      else (0, [u32_in in_key, u32_in (drop 4 in_key), u32_in (drop 8 in_key), u32_in (drop 12 in_key)],
            flags))"

definition tea_mix :: "u32 \<Rightarrow> u32 \<Rightarrow> u32 \<Rightarrow> u32 \<Rightarrow> u32" where
  "tea_mix v sm ka kb = (push_bit 4 v + ka) XOR (v + sm) XOR (drop_bit 5 v + kb)"

primrec tea_enc_loop :: "nat \<Rightarrow> tea_ctx \<Rightarrow> u32 \<Rightarrow> u32 \<times> u32 \<Rightarrow> u32 \<times> u32" where
  "tea_enc_loop 0 key sm yz = yz"
| "tea_enc_loop (Suc n) key sm yz =
     (case yz of (y, z) \<Rightarrow>
        (let sm' = sm + TEA_DELTA;
             y' = y + tea_mix z sm' (key ! 0) (key ! 1);
             z' = z + tea_mix y' sm' (key ! 2) (key ! 3)
         in tea_enc_loop n key sm' (y', z')))"

definition tea_encrypt :: "tea_ctx \<Rightarrow> u8 list \<Rightarrow> u8 list" where
  "tea_encrypt ctx src =
     (let (y, z) = tea_enc_loop 32 ctx 0 (u32_in src, u32_in (drop 4 src)) in u32_out y @ u32_out z)"

primrec tea_dec_loop :: "nat \<Rightarrow> tea_ctx \<Rightarrow> u32 \<Rightarrow> u32 \<times> u32 \<Rightarrow> u32 \<times> u32" where
  "tea_dec_loop 0 key sm yz = yz"
| "tea_dec_loop (Suc n) key sm yz =
     (case yz of (y, z) \<Rightarrow>
        (let z' = z - tea_mix y sm (key ! 2) (key ! 3);
             y' = y - tea_mix z' sm (key ! 0) (key ! 1)
         in tea_dec_loop n key (sm - TEA_DELTA) (y', z')))"

definition tea_decrypt :: "tea_ctx \<Rightarrow> u8 list \<Rightarrow> u8 list" where
  "tea_decrypt ctx src =
     (let (y, z) = tea_dec_loop 32 ctx (push_bit 5 TEA_DELTA) (u32_in src, u32_in (drop 4 src))
      in u32_out y @ u32_out z)"

subsection \<open>XTEA and XETA\<close>

text \<open>Their loops run until the sum reaches its limit and differ only in the mixing function.\<close>

type_synonym mixer = "u32 \<Rightarrow> u32 \<Rightarrow> u32 \<Rightarrow> u32"

definition xtea_mix :: mixer where
  "xtea_mix v sm kk = ((push_bit 4 v XOR drop_bit 5 v) + v) XOR (sm + kk)"

definition xeta_mix :: mixer where
  "xeta_mix v sm kk = (push_bit 4 v XOR drop_bit 5 v) + (v XOR sm) + kk"

definition key_lo :: "tea_ctx \<Rightarrow> u32 \<Rightarrow> u32" where
  "key_lo key sm = key ! unat (sm AND 3)"

definition key_hi :: "tea_ctx \<Rightarrow> u32 \<Rightarrow> u32" where
  "key_hi key sm = key ! unat (drop_bit 11 sm AND 3)"

partial_function (option) xtea_enc_loop ::
    "mixer \<Rightarrow> tea_ctx \<Rightarrow> u32 \<Rightarrow> u32 \<Rightarrow> u32 \<times> u32 \<Rightarrow> (u32 \<times> u32) option" where
  "xtea_enc_loop mix key limit sm yz =
     (if sm \<noteq> limit then
        (let y' = fst yz + mix (snd yz) sm (key_lo key sm);
             sm' = sm + XTEA_DELTA;
             z' = snd yz + mix y' sm' (key_hi key sm')
         in xtea_enc_loop mix key limit sm' (y', z'))
      else Some yz)"

partial_function (option) xtea_dec_loop ::
    "mixer \<Rightarrow> tea_ctx \<Rightarrow> u32 \<Rightarrow> u32 \<times> u32 \<Rightarrow> (u32 \<times> u32) option" where
  "xtea_dec_loop mix key sm yz =
     (if sm \<noteq> 0 then
        (let z' = snd yz - mix (fst yz) sm (key_hi key sm);
             sm' = sm - XTEA_DELTA;
             y' = fst yz - mix z' sm' (key_lo key sm')
         in xtea_dec_loop mix key sm' (y', z'))
      else Some yz)"

declare xtea_enc_loop.simps [code] xtea_dec_loop.simps [code]

definition xtea_crypt_out :: "(u32 \<times> u32) option \<Rightarrow> u8 list option" where
  "xtea_crypt_out r = map_option (\<lambda>(y, z). u32_out y @ u32_out z) r"

definition xtea_encrypt :: "tea_ctx \<Rightarrow> u8 list \<Rightarrow> u8 list option" where
  "xtea_encrypt ctx src =
     xtea_crypt_out (xtea_enc_loop xtea_mix ctx (XTEA_DELTA * 32) 0 (u32_in src, u32_in (drop 4 src)))"

definition xtea_decrypt :: "tea_ctx \<Rightarrow> u8 list \<Rightarrow> u8 list option" where
  "xtea_decrypt ctx src =
     xtea_crypt_out (xtea_dec_loop xtea_mix ctx (XTEA_DELTA * 32) (u32_in src, u32_in (drop 4 src)))"

definition xeta_encrypt :: "tea_ctx \<Rightarrow> u8 list \<Rightarrow> u8 list option" where
  "xeta_encrypt ctx src =
     xtea_crypt_out (xtea_enc_loop xeta_mix ctx (XTEA_DELTA * 32) 0 (u32_in src, u32_in (drop 4 src)))"

definition xeta_decrypt :: "tea_ctx \<Rightarrow> u8 list \<Rightarrow> u8 list option" where
  "xeta_decrypt ctx src =
     xtea_crypt_out (xtea_dec_loop xeta_mix ctx (XTEA_DELTA * 32) (u32_in src, u32_in (drop 4 src)))"

subsection \<open>ARC4\<close>

record arc4_ctx =
  S :: "u8 list"
  arc4_x :: u8
  arc4_y :: u8

definition arc4_swap_in :: "u8 list \<Rightarrow> nat \<times> nat \<times> nat \<times> u8 list \<Rightarrow> nat \<times> nat \<times> nat \<times> u8 list" where
  "arc4_swap_in in_key st =
     (case st of (i, j, k, s) \<Rightarrow>
        (let a = s ! i;
             j' = (j + unat (in_key ! k) + unat a) mod 256;
             s' = (s[i := s ! j'])[j' := a]
         in (i + 1, j', if length in_key \<le> k + 1 then 0 else k + 1, s')))"

definition arc4_set_key :: "arc4_ctx \<Rightarrow> u8 list \<Rightarrow> u32 \<Rightarrow> int \<times> arc4_ctx \<times> u32" where
  "arc4_set_key ctx in_key flags =
     (let (i, j, k, s) = (arc4_swap_in in_key ^^ 256) (0, 0, 0, map of_nat [0..<256])
      in (0, \<lparr>S = s, arc4_x = 1, arc4_y = 0\<rparr>, flags))"

definition arc4_crypt :: "arc4_ctx \<Rightarrow> u8 \<Rightarrow> arc4_ctx \<times> u8" where
  "arc4_crypt ctx inb =
     (let x = arc4_x ctx; a = S ctx ! unat x; y = arc4_y ctx + a; b = S ctx ! unat y;
          s = ((S ctx)[unat x := b])[unat y := a]
      in (\<lparr>S = s, arc4_x = x + 1, arc4_y = y\<rparr>, inb XOR s ! unat (a + b)))"

primrec arc4_stream :: "arc4_ctx \<Rightarrow> u8 list \<Rightarrow> arc4_ctx \<times> u8 list" where
  "arc4_stream ctx [] = (ctx, [])"
| "arc4_stream ctx (c # cs) =
     (let (ctx1, d) = arc4_crypt ctx c; (ctx2, ds) = arc4_stream ctx1 cs in (ctx2, d # ds))"

subsection \<open>The cipher layer\<close>

type_synonym 'ctx cryptfn = "'ctx \<Rightarrow> u8 list \<Rightarrow> ('ctx \<times> u8 list) option"

record 'ctx cipher_alg =
  cra_blocksize :: nat
  cia_min_keysize :: nat
  cia_max_keysize :: nat
  cia_setkey :: "'ctx \<Rightarrow> u8 list \<Rightarrow> u32 \<Rightarrow> int \<times> 'ctx \<times> u32"
  cia_encrypt :: "'ctx cryptfn"
  cia_decrypt :: "'ctx cryptfn"

record 'ctx crypto_tfm =
  crt_flags :: u32
  crt_ctx :: 'ctx
  crt_alg :: "'ctx cipher_alg"
  cit_iv :: "u8 list option"

definition tea_alg :: "tea_ctx cipher_alg" where
  "tea_alg = \<lparr>cra_blocksize = 8, cia_min_keysize = 16, cia_max_keysize = 16, cia_setkey = tea_setkey,
     cia_encrypt = (\<lambda>ctx src. Some (ctx, tea_encrypt ctx src)),
     cia_decrypt = (\<lambda>ctx src. Some (ctx, tea_decrypt ctx src))\<rparr>"

definition xtea_alg :: "tea_ctx cipher_alg" where
  "xtea_alg = \<lparr>cra_blocksize = 8, cia_min_keysize = 16, cia_max_keysize = 16, cia_setkey = tea_setkey,
     cia_encrypt = (\<lambda>ctx src. map_option (Pair ctx) (xtea_encrypt ctx src)),
     cia_decrypt = (\<lambda>ctx src. map_option (Pair ctx) (xtea_decrypt ctx src))\<rparr>"

definition xeta_alg :: "tea_ctx cipher_alg" where
  "xeta_alg = \<lparr>cra_blocksize = 8, cia_min_keysize = 16, cia_max_keysize = 16, cia_setkey = tea_setkey,
     cia_encrypt = (\<lambda>ctx src. map_option (Pair ctx) (xeta_encrypt ctx src)),
     cia_decrypt = (\<lambda>ctx src. map_option (Pair ctx) (xeta_decrypt ctx src))\<rparr>"

definition setkey :: "'ctx crypto_tfm \<Rightarrow> u8 list \<Rightarrow> int \<times> 'ctx crypto_tfm" where
  "setkey tfm key =
     (let cia = crt_alg tfm in
      if length key < cia_min_keysize cia \<or> length key > cia_max_keysize cia
      then (- EINVAL, tfm\<lparr>crt_flags := crt_flags tfm OR CRYPTO_TFM_RES_BAD_KEY_LEN\<rparr>)
      else
        (let (ret, ctx, flags) = cia_setkey cia (crt_ctx tfm) key (crt_flags tfm)
         in (ret, tfm\<lparr>crt_ctx := ctx, crt_flags := flags\<rparr>)))"

text \<open>\<open>xor_64\<close> and \<open>xor_128\<close>: the first operand's first 8 or 16 bytes are combined in place.\<close>

definition xor_64 :: "u8 list \<Rightarrow> u8 list \<Rightarrow> u8 list" where
  "xor_64 a b = map2 (XOR) (take 8 a) (take 8 b) @ drop 8 a"

definition xor_128 :: "u8 list \<Rightarrow> u8 list \<Rightarrow> u8 list" where
  "xor_128 a b = map2 (XOR) (take 16 a) (take 16 b) @ drop 16 a"

definition cit_xor_block :: "nat \<Rightarrow> (u8 list \<Rightarrow> u8 list \<Rightarrow> u8 list) option" where
  "cit_xor_block bsize = (if bsize = 8 then Some xor_64 else if bsize = 16 then Some xor_128 else None)"

definition bytes_at :: "u8 list \<Rightarrow> nat \<Rightarrow> nat \<Rightarrow> u8 list" where
  "bytes_at mem p n = take n (drop p mem)"

text \<open>State of a run of \<open>crypt\<close>: the transform, the memory and the block behind \<open>info\<close>.\<close>

type_synonym 'ctx run = "'ctx crypto_tfm \<times> u8 list \<times> u8 list option"

definition ecb_process ::
    "nat \<Rightarrow> nat \<Rightarrow> 'ctx cryptfn \<Rightarrow> bool \<Rightarrow> 'ctx run \<Rightarrow> 'ctx run option" where
  "ecb_process dst src fn enc r =
     (case r of (tfm, mem, info) \<Rightarrow>
        do {
          (ctx, out) \<leftarrow> fn (crt_ctx tfm) (bytes_at mem src (cra_blocksize (crt_alg tfm)));
          Some (tfm\<lparr>crt_ctx := ctx\<rparr>, put mem dst out, info)
        })"

definition cbc_process ::
    "nat \<Rightarrow> nat \<Rightarrow> 'ctx cryptfn \<Rightarrow> bool \<Rightarrow> 'ctx run \<Rightarrow> 'ctx run option" where
  "cbc_process dst src fn enc r =
     (case r of (tfm, mem, info) \<Rightarrow>
        let bs = cra_blocksize (crt_alg tfm) in
        case info of
          None \<Rightarrow> Some (tfm, mem, info)
        | Some iv \<Rightarrow>
            do {
              xor_block \<leftarrow> cit_xor_block bs;
              if enc then
                do {
                  (ctx, out) \<leftarrow> fn (crt_ctx tfm) (xor_block iv (bytes_at mem src bs));
                  let mem' = put mem dst out in
                  Some (tfm\<lparr>crt_ctx := ctx\<rparr>, mem', Some (bytes_at mem' dst bs))
                }
              else if src = dst then
                do {
                  (ctx, stack) \<leftarrow> fn (crt_ctx tfm) (bytes_at mem src bs);
                  let stack' = xor_block stack iv; iv' = bytes_at mem src bs in
                  Some (tfm\<lparr>crt_ctx := ctx\<rparr>, put mem dst stack', Some iv')
                }
              else
                do {
                  (ctx, out) \<leftarrow> fn (crt_ctx tfm) (bytes_at mem src bs);
                  let mem1 = put mem dst out;
                      mem2 = put mem1 dst (xor_block (bytes_at mem1 dst bs) iv) in
                  Some (tfm\<lparr>crt_ctx := ctx\<rparr>, mem2, Some (bytes_at mem2 src bs))
                }
            })"

text \<open>The loop of \<open>crypt\<close> runs once for each of the \<open>nbytes / bsize\<close> blocks.\<close>

type_synonym 'ctx procfn = "nat \<Rightarrow> nat \<Rightarrow> 'ctx cryptfn \<Rightarrow> bool \<Rightarrow> 'ctx run \<Rightarrow> 'ctx run option"

fun crypt_loop ::
    "nat \<Rightarrow> nat \<Rightarrow> nat \<Rightarrow> nat \<Rightarrow> 'ctx cryptfn \<Rightarrow> 'ctx procfn \<Rightarrow> bool \<Rightarrow> 'ctx run \<Rightarrow> 'ctx run option" where
  "crypt_loop bsize 0 dst src crfn prfn enc r = Some r"
| "crypt_loop bsize (Suc k) dst src crfn prfn enc r =
     do {
       r' \<leftarrow> prfn dst src crfn enc r;
       crypt_loop bsize k (dst + bsize) (src + bsize) crfn prfn enc r'
     }"

definition crypt ::
    "'ctx crypto_tfm \<Rightarrow> u8 list \<Rightarrow> nat \<Rightarrow> nat \<Rightarrow> nat \<Rightarrow> 'ctx cryptfn \<Rightarrow> 'ctx procfn \<Rightarrow> bool \<Rightarrow> u8 list option
      \<Rightarrow> (int \<times> 'ctx run) option" where
  "crypt tfm mem dst src nbytes crfn prfn enc info =
     (let bsize = cra_blocksize (crt_alg tfm) in
      if nbytes = 0 then Some (0, tfm, mem, info)
      else if nbytes mod bsize \<noteq> 0 then
        Some (- EINVAL, tfm\<lparr>crt_flags := crt_flags tfm OR CRYPTO_TFM_RES_BAD_BLOCK_LEN\<rparr>, mem, info)
      else map_option (Pair 0) (crypt_loop bsize (nbytes div bsize) dst src crfn prfn enc (tfm, mem, info)))"

definition ecb_encrypt ::
    "'ctx crypto_tfm \<Rightarrow> u8 list \<Rightarrow> nat \<Rightarrow> nat \<Rightarrow> nat \<Rightarrow> (int \<times> 'ctx run) option" where
  "ecb_encrypt tfm mem dst src nbytes =
     crypt tfm mem dst src nbytes (cia_encrypt (crt_alg tfm)) ecb_process True None"

definition ecb_decrypt ::
    "'ctx crypto_tfm \<Rightarrow> u8 list \<Rightarrow> nat \<Rightarrow> nat \<Rightarrow> nat \<Rightarrow> (int \<times> 'ctx run) option" where
  "ecb_decrypt tfm mem dst src nbytes =
     crypt tfm mem dst src nbytes (cia_decrypt (crt_alg tfm)) ecb_process True None"

definition cbc_encrypt_iv ::
    "'ctx crypto_tfm \<Rightarrow> u8 list \<Rightarrow> nat \<Rightarrow> nat \<Rightarrow> nat \<Rightarrow> u8 list option \<Rightarrow> (int \<times> 'ctx run) option" where
  "cbc_encrypt_iv tfm mem dst src nbytes iv =
     crypt tfm mem dst src nbytes (cia_encrypt (crt_alg tfm)) cbc_process True iv"

definition cbc_decrypt_iv ::
    "'ctx crypto_tfm \<Rightarrow> u8 list \<Rightarrow> nat \<Rightarrow> nat \<Rightarrow> nat \<Rightarrow> u8 list option \<Rightarrow> (int \<times> 'ctx run) option" where
  "cbc_decrypt_iv tfm mem dst src nbytes iv =
     crypt tfm mem dst src nbytes (cia_decrypt (crt_alg tfm)) cbc_process False iv"

text \<open>\<open>cbc_encrypt\<close> and \<open>cbc_decrypt\<close> chain through the block stored in the transform.\<close>

definition keep_iv :: "int \<times> 'ctx run \<Rightarrow> int \<times> 'ctx crypto_tfm \<times> u8 list" where
  "keep_iv r = (case r of (ret, tfm, mem, info) \<Rightarrow> (ret, tfm\<lparr>cit_iv := info\<rparr>, mem))"

definition cbc_encrypt ::
    "'ctx crypto_tfm \<Rightarrow> u8 list \<Rightarrow> nat \<Rightarrow> nat \<Rightarrow> nat \<Rightarrow> (int \<times> 'ctx crypto_tfm \<times> u8 list) option" where
  "cbc_encrypt tfm mem dst src nbytes =
     map_option keep_iv
       (crypt tfm mem dst src nbytes (cia_encrypt (crt_alg tfm)) cbc_process True (cit_iv tfm))"

definition cbc_decrypt ::
    "'ctx crypto_tfm \<Rightarrow> u8 list \<Rightarrow> nat \<Rightarrow> nat \<Rightarrow> nat \<Rightarrow> (int \<times> 'ctx crypto_tfm \<times> u8 list) option" where
  "cbc_decrypt tfm mem dst src nbytes =
     map_option keep_iv
       (crypt tfm mem dst src nbytes (cia_decrypt (crt_alg tfm)) cbc_process False (cit_iv tfm))"

subsection \<open>Bytes and words\<close>

lemma le32_join:
  "(ucast (ucast w :: u8) :: u32) OR push_bit 8 (ucast (ucast (drop_bit 8 w) :: u8)) OR
     push_bit 16 (ucast (ucast (drop_bit 16 w) :: u8)) OR push_bit 24 (ucast (ucast (drop_bit 24 w) :: u8))
   = w" (is "?l = w")
proof (rule bit_word_eqI)
  fix n assume "n < LENGTH(32)"
  then consider "n < 8" | "8 \<le> n" "n < 16" | "16 \<le> n" "n < 24" | "24 \<le> n" "n < 32" by fastforce
  then show "bit ?l n = bit w n"
    by cases (auto simp: bit_or_iff bit_push_bit_iff bit_ucast_iff bit_drop_bit_eq)
qed

lemma le32_word_le32 [simp]: "le32_word (le32 w) = w"
  using le32_join [of w] by (simp add: le32_word_def le32_def)

lemma le32_bytes:
  fixes p q r s :: u8
  defines "w \<equiv> (ucast p :: u32) OR push_bit 8 (ucast q) OR push_bit 16 (ucast r) OR push_bit 24 (ucast s)"
  shows "ucast w = p" "ucast (drop_bit 8 w) = q" "ucast (drop_bit 16 w) = r" "ucast (drop_bit 24 w) = s"
  unfolding w_def
  by (rule bit_word_eqI, auto simp: bit_or_iff bit_push_bit_iff bit_ucast_iff bit_drop_bit_eq
        dest: bit_imp_le_length)+

lemma le32_le32_word [simp]:
  assumes "length b = 4" shows "le32 (le32_word b) = b"
proof -
  obtain p q r s where "b = [p, q, r, s]"
    using assms by (auto simp: length_Suc_conv numeral_eq_Suc)
  then show ?thesis using le32_bytes [of p q r s] by (simp add: le32_word_def le32_def)
qed

lemma u32_in_out [simp]: "u32_in (u32_out v) = v" "u32_in (u32_out v @ bs) = v"
    "drop 4 (u32_out v @ bs) = bs" "length (u32_out v) = 4"
  by (simp_all add: u32_in_def u32_out_def)

lemma u32_out_in:
  assumes "length b = 8"
  shows "u32_out (u32_in b) @ u32_out (u32_in (drop 4 b)) = b"
proof -
  have "length (take 4 b) = 4" "length (take 4 (drop 4 b)) = 4" using assms by simp_all
  then have "u32_out (u32_in b) = take 4 b" "u32_out (u32_in (drop 4 b)) = drop 4 b"
    using assms by (simp_all add: u32_in_def u32_out_def)
  then show ?thesis by simp
qed

subsection \<open>Round trips of the block ciphers\<close>

text \<open>The three ciphers are 32 rounds, round \<open>f\<close> undone by \<open>g\<close>, over an arithmetic sequence of sums.\<close>

primrec rounds :: "nat \<Rightarrow> (u32 \<Rightarrow> 'a \<Rightarrow> 'a) \<Rightarrow> u32 \<Rightarrow> 'a \<Rightarrow> 'a" where
  "rounds 0 f s x = x"
| "rounds (Suc n) f s x = rounds n f (s + XTEA_DELTA) (f s x)"

primrec unrounds :: "nat \<Rightarrow> (u32 \<Rightarrow> 'a \<Rightarrow> 'a) \<Rightarrow> u32 \<Rightarrow> 'a \<Rightarrow> 'a" where
  "unrounds 0 g s x = x"
| "unrounds (Suc n) g s x = unrounds n g (s - XTEA_DELTA) (g (s - XTEA_DELTA) x)"

lemma unrounds_last: "unrounds (Suc n) g s x = g (s - of_nat (Suc n) * XTEA_DELTA) (unrounds n g s x)"
proof (induction n arbitrary: s x)
  case (Suc n)
  have "unrounds (Suc (Suc n)) g s x = unrounds (Suc n) g (s - XTEA_DELTA) (g (s - XTEA_DELTA) x)"
    by simp
  also have "\<dots> = g (s - XTEA_DELTA - of_nat (Suc n) * XTEA_DELTA)
      (unrounds n g (s - XTEA_DELTA) (g (s - XTEA_DELTA) x))"
    by (rule Suc.IH)
  also have "s - XTEA_DELTA - of_nat (Suc n) * XTEA_DELTA = s - of_nat (Suc (Suc n)) * XTEA_DELTA"
    by (simp add: algebra_simps)
  finally show ?case by simp
qed simp

lemma unrounds_rounds:
  assumes "\<And>s x. g s (f s x) = x"
  shows "unrounds n g (s + of_nat n * XTEA_DELTA) (rounds n f s x) = x"
proof (induction n arbitrary: s x)
  case (Suc n)
  let ?s = "s + of_nat (Suc n) * XTEA_DELTA"
  have e: "s + XTEA_DELTA + of_nat n * XTEA_DELTA = ?s" by (simp add: algebra_simps)
  have "unrounds n g ?s (rounds n f (s + XTEA_DELTA) (f s x)) = f s x"
    using Suc.IH [of "s + XTEA_DELTA" "f s x"] unfolding e .
  then show ?case
    using assms unrounds_last [of n g ?s "rounds n f (s + XTEA_DELTA) (f s x)"]
    by (simp add: algebra_simps del: unrounds.simps)
qed simp

definition tea_round :: "tea_ctx \<Rightarrow> u32 \<Rightarrow> u32 \<times> u32 \<Rightarrow> u32 \<times> u32" where
  "tea_round key s yz =
     (let s' = s + XTEA_DELTA; y = fst yz + tea_mix (snd yz) s' (key ! 0) (key ! 1)
      in (y, snd yz + tea_mix y s' (key ! 2) (key ! 3)))"

definition tea_unround :: "tea_ctx \<Rightarrow> u32 \<Rightarrow> u32 \<times> u32 \<Rightarrow> u32 \<times> u32" where
  "tea_unround key s yz =
     (let s' = s + XTEA_DELTA; z = snd yz - tea_mix (fst yz) s' (key ! 2) (key ! 3)
      in (fst yz - tea_mix z s' (key ! 0) (key ! 1), z))"

definition xtea_round :: "mixer \<Rightarrow> tea_ctx \<Rightarrow> u32 \<Rightarrow> u32 \<times> u32 \<Rightarrow> u32 \<times> u32" where
  "xtea_round mix key s yz =
     (let y = fst yz + mix (snd yz) s (key_lo key s); s' = s + XTEA_DELTA
      in (y, snd yz + mix y s' (key_hi key s')))"

definition xtea_unround :: "mixer \<Rightarrow> tea_ctx \<Rightarrow> u32 \<Rightarrow> u32 \<times> u32 \<Rightarrow> u32 \<times> u32" where
  "xtea_unround mix key s yz =
     (let s' = s + XTEA_DELTA; z = snd yz - mix (fst yz) s' (key_hi key s')
      in (fst yz - mix z s (key_lo key s), z))"

lemma round_inverses:
  "tea_unround key s (tea_round key s yz) = yz"
  "xtea_unround mix key s (xtea_round mix key s yz) = yz"
  by (simp_all add: tea_unround_def tea_round_def xtea_unround_def xtea_round_def Let_def)

lemma tea_loops:
  "tea_enc_loop n key s yz = rounds n (tea_round key) s yz"
  "tea_dec_loop n key s yz = unrounds n (tea_unround key) s yz"
  by (induction n arbitrary: s yz)
    (auto simp: tea_round_def tea_unround_def Let_def TEA_DELTA_def XTEA_DELTA_def split: prod.splits)

text \<open>The constant is odd, so the sums of the first 32 rounds differ from the limit.\<close>

lemma delta_inject:
  assumes "of_nat a * XTEA_DELTA = of_nat b * XTEA_DELTA" "a < 2 ^ 32" "b < 2 ^ 32"
  shows "a = b"
proof -
  have inv: "XTEA_DELTA * 0x144cbc89 = 1" by (simp add: XTEA_DELTA_def)
  have "of_nat a * (XTEA_DELTA * 0x144cbc89) = of_nat b * (XTEA_DELTA * 0x144cbc89)"
    unfolding mult.assoc [symmetric] assms(1) ..
  then have "(of_nat a :: u32) = of_nat b" by (simp only: inv mult_1_right)
  then have "unat (of_nat a :: u32) = unat (of_nat b :: u32)" by (rule arg_cong)
  then show ?thesis using assms(2,3) by (simp add: unat_of_nat)
qed

lemma xtea_steps:
  "xtea_enc_loop mix key limit s yz =
     (if s \<noteq> limit then xtea_enc_loop mix key limit (s + XTEA_DELTA) (xtea_round mix key s yz) else Some yz)"
  "xtea_dec_loop mix key s yz =
     (if s \<noteq> 0 then xtea_dec_loop mix key (s - XTEA_DELTA) (xtea_unround mix key (s - XTEA_DELTA) yz)
      else Some yz)"
  by (subst xtea_enc_loop.simps, simp add: xtea_round_def Let_def,
      subst xtea_dec_loop.simps, simp add: xtea_unround_def Let_def)

lemma xtea_enc_loop_eq:
  "k + n = 32 \<Longrightarrow> xtea_enc_loop mix key (of_nat 32 * XTEA_DELTA) (of_nat k * XTEA_DELTA) yz =
     Some (rounds n (xtea_round mix key) (of_nat k * XTEA_DELTA) yz)"
proof (induction n arbitrary: k yz)
  case 0
  then show ?case by (simp add: xtea_steps(1))
next
  case (Suc n)
  have ne: "of_nat k * XTEA_DELTA \<noteq> of_nat 32 * XTEA_DELTA"
    using delta_inject [of k 32] Suc.prems by fastforce
  have s: "of_nat k * XTEA_DELTA + XTEA_DELTA = of_nat (Suc k) * XTEA_DELTA"
    by (simp add: algebra_simps)
  show ?case
    using Suc.IH [of "Suc k"] Suc.prems ne
    by (subst xtea_steps(1)) (simp only: s rounds.simps if_True add_Suc add_Suc_right simp_thms)
qed

lemma xtea_dec_loop_eq:
  "n \<le> 32 \<Longrightarrow> xtea_dec_loop mix key (of_nat n * XTEA_DELTA) yz =
     Some (unrounds n (xtea_unround mix key) (of_nat n * XTEA_DELTA) yz)"
proof (induction n arbitrary: yz)
  case 0
  then show ?case by (simp add: xtea_steps(2))
next
  case (Suc n)
  have ne: "of_nat (Suc n) * XTEA_DELTA \<noteq> 0" using delta_inject [of "Suc n" 0] Suc.prems by fastforce
  have s: "of_nat (Suc n) * XTEA_DELTA - XTEA_DELTA = of_nat n * XTEA_DELTA"
    by (simp add: algebra_simps)
  show ?case
    using Suc.IH Suc.prems ne
    by (subst xtea_steps(2)) (simp only: s unrounds.simps if_True Suc_leD simp_thms)
qed

lemma xtea_loops:
  "xtea_enc_loop mix key (XTEA_DELTA * 32) 0 yz = Some (rounds 32 (xtea_round mix key) 0 yz)"
  "xtea_dec_loop mix key (XTEA_DELTA * 32) yz = Some (unrounds 32 (xtea_unround mix key) (32 * XTEA_DELTA) yz)"
  using xtea_enc_loop_eq [of 0 32] xtea_dec_loop_eq [of 32] by (simp_all add: mult.commute)

subsection \<open>Reading and writing the memory\<close>

lemma bytes_at_length [simp]: "p + n \<le> length mem \<Longrightarrow> length (bytes_at mem p n) = n"
  by (simp add: bytes_at_def)

lemma bytes_at_put [simp]: "p + length a \<le> length mem \<Longrightarrow> bytes_at (put mem p a) p (length a) = a"
  by (simp add: bytes_at_def put_def)

lemma bytes_at_put_disjoint:
  assumes "p + length a \<le> length mem" "q + n \<le> p \<or> p + length a \<le> q"
  shows "bytes_at (put mem p a) q n = bytes_at mem q n"
  using assms(2)
proof
  assume "q + n \<le> p"
  then have "take n (drop q (take p mem)) = take n (drop q mem)" by (simp add: drop_take min_def)
  then show ?thesis using \<open>q + n \<le> p\<close> assms(1) by (simp add: bytes_at_def put_def)
next
  assume a: "p + length a \<le> q"
  then have "q - (p + length a) + (p + length a) = q" by simp
  then show ?thesis using a assms(1) by (simp add: bytes_at_def put_def)
qed

lemma put_twice: "length a = length b \<Longrightarrow> p + length a \<le> length mem \<Longrightarrow> put (put mem p a) p b = put mem p b"
  by (simp add: put_def)

lemma put_append:
  "p + length a + length b \<le> length mem \<Longrightarrow> put (put mem p a) (p + length a) b = put mem p (a @ b)"
  by (simp add: put_def ac_simps)

lemma put_Nil [simp]: "put mem p [] = mem"
  by (simp add: put_def)

primrec blocks_at :: "u8 list \<Rightarrow> nat \<Rightarrow> nat \<Rightarrow> nat \<Rightarrow> u8 list list" where
  "blocks_at mem p bs 0 = []"
| "blocks_at mem p bs (Suc k) = bytes_at mem p bs # blocks_at mem (p + bs) bs k"

lemma concat_blocks_at: "concat (blocks_at mem p bs k) = bytes_at mem p (k * bs)"
  by (induction k arbitrary: p) (simp_all add: bytes_at_def take_add add.commute)

lemma blocks_at_count [simp]: "length (blocks_at mem p bs k) = k"
  by (induction k arbitrary: p) simp_all

lemma length_concat_same: "\<forall>c \<in> set cs. length c = n \<Longrightarrow> length (concat cs) = length cs * n"
  by (induction cs) simp_all

lemma blocks_at_length:
  "p + k * bs \<le> length mem \<Longrightarrow> \<forall>b \<in> set (blocks_at mem p bs k). length b = bs"
proof (induction k arbitrary: p)
  case (Suc k)
  have "p + bs + k * bs \<le> length mem" "p + bs \<le> length mem" using Suc.prems by simp_all
  then show ?case using Suc.IH [of "p + bs"] by simp
qed simp

lemma blocks_at_put_disjoint:
  assumes "p + length a \<le> length mem" "q + k * bs \<le> p \<or> p + length a \<le> q"
  shows "blocks_at (put mem p a) q bs k = blocks_at mem q bs k"
  using assms(2)
proof (induction k arbitrary: q)
  case (Suc k)
  have "q + bs \<le> p \<or> p + length a \<le> q" "q + bs + k * bs \<le> p \<or> p + length a \<le> q + bs"
    using Suc.prems by auto
  then show ?case using Suc.IH [of "q + bs"] bytes_at_put_disjoint [OF assms(1)] by simp
qed simp

lemma blocks_at_bytes:
  "bytes_at mem p (k * bs) = concat cs \<Longrightarrow> length cs = k \<Longrightarrow> \<forall>c \<in> set cs. length c = bs \<Longrightarrow>
   p + k * bs \<le> length mem \<Longrightarrow> blocks_at mem p bs k = cs"
proof (induction k arbitrary: p cs)
  case (Suc k)
  then obtain c ds where cs: "cs = c # ds" by (cases cs) auto
  have "bytes_at mem p (bs + k * bs) = bytes_at mem p bs @ bytes_at mem (p + bs) (k * bs)"
    by (simp add: bytes_at_def take_add add.commute)
  then have "bytes_at mem p bs = c \<and> bytes_at mem (p + bs) (k * bs) = concat ds"
    using Suc.prems cs by (simp add: append_eq_append_conv)
  then show ?case using Suc cs by simp
qed simp

subsection \<open>CBC, and what a block cipher promises\<close>

definition xor_bytes :: "u8 list \<Rightarrow> u8 list \<Rightarrow> u8 list" where
  "xor_bytes a b = map2 (XOR) a b"

primrec cbc_enc :: "(u8 list \<Rightarrow> u8 list) \<Rightarrow> u8 list \<Rightarrow> u8 list list \<Rightarrow> u8 list list" where
  "cbc_enc E iv [] = []"
| "cbc_enc E iv (b # bs) = (let c = E (xor_bytes iv b) in c # cbc_enc E c bs)"

primrec cbc_dec :: "(u8 list \<Rightarrow> u8 list) \<Rightarrow> u8 list \<Rightarrow> u8 list list \<Rightarrow> u8 list list" where
  "cbc_dec D iv [] = []"
| "cbc_dec D iv (c # cs) = xor_bytes (D c) iv # cbc_dec D c cs"

lemma xor_bytes_length [simp]: "length (xor_bytes a b) = min (length a) (length b)"
  by (simp add: xor_bytes_def)

lemma xor_bytes_cancel: "length a = length b \<Longrightarrow> xor_bytes (xor_bytes a b) a = b"
  by (induction a b rule: list_induct2) (simp_all add: xor_bytes_def xor.left_commute xor.commute)

lemma xor_block_eq:
  assumes "bs = 8 \<or> bs = 16"
  shows "\<exists>f. cit_xor_block bs = Some f \<and>
    (\<forall>a b. length a = bs \<longrightarrow> length b = bs \<longrightarrow> f a b = xor_bytes a b)"
  using assms by (auto simp: cit_xor_block_def xor_64_def xor_128_def xor_bytes_def)

locale block_cipher =
  fixes alg :: "'ctx cipher_alg"
    and E :: "'ctx \<Rightarrow> u8 list \<Rightarrow> u8 list"
    and D :: "'ctx \<Rightarrow> u8 list \<Rightarrow> u8 list"
  assumes bsize: "cra_blocksize alg = 8 \<or> cra_blocksize alg = 16"
    and enc: "length b = cra_blocksize alg \<Longrightarrow> cia_encrypt alg ctx b = Some (ctx, E ctx b)"
    and dec: "length b = cra_blocksize alg \<Longrightarrow> cia_decrypt alg ctx b = Some (ctx, D ctx b)"
    and enc_length: "length b = cra_blocksize alg \<Longrightarrow> length (E ctx b) = cra_blocksize alg"
    and dec_length: "length b = cra_blocksize alg \<Longrightarrow> length (D ctx b) = cra_blocksize alg"
    and dec_enc: "length b = cra_blocksize alg \<Longrightarrow> D ctx (E ctx b) = b"
begin

lemma cbc_inverse:
  "length iv = cra_blocksize alg \<Longrightarrow> \<forall>b \<in> set bs. length b = cra_blocksize alg \<Longrightarrow>
   cbc_dec (D ctx) iv (cbc_enc (E ctx) iv bs) = bs \<and>
   (\<forall>c \<in> set (cbc_enc (E ctx) iv bs). length c = cra_blocksize alg) \<and>
   length (cbc_enc (E ctx) iv bs) = length bs"
proof (induction bs arbitrary: iv)
  case (Cons b bs)
  have "length (E ctx (xor_bytes iv b)) = cra_blocksize alg" using Cons.prems by (simp add: enc_length)
  then show ?case
    using Cons.IH [of "E ctx (xor_bytes iv b)"] Cons.prems by (simp add: Let_def dec_enc xor_bytes_cancel)
qed simp

lemma cbc_dec_lengths:
  "length iv = cra_blocksize alg \<Longrightarrow> \<forall>b \<in> set cs. length b = cra_blocksize alg \<Longrightarrow>
   (\<forall>c \<in> set (cbc_dec (D ctx) iv cs). length c = cra_blocksize alg) \<and>
   length (cbc_dec (D ctx) iv cs) = length cs"
  by (induction cs arbitrary: iv) (auto simp: dec_length)

lemma cbc_encrypt_block:
  assumes "crt_alg tfm = alg" "length iv = cra_blocksize alg"
    and "src + cra_blocksize alg \<le> length mem" "dst + cra_blocksize alg \<le> length mem"
  shows "cbc_process dst src (cia_encrypt alg) True (tfm, mem, Some iv) =
    (let c = E (crt_ctx tfm) (xor_bytes iv (bytes_at mem src (cra_blocksize alg)))
     in Some (tfm, put mem dst c, Some c))"
proof -
  let ?bs = "cra_blocksize alg" and ?c = "E (crt_ctx tfm) (xor_bytes iv (bytes_at mem src (cra_blocksize alg)))"
  obtain f where f: "cit_xor_block ?bs = Some f"
      "f iv (bytes_at mem src ?bs) = xor_bytes iv (bytes_at mem src ?bs)"
    using xor_block_eq [OF bsize] assms by auto
  have l: "length ?c = ?bs" using assms by (simp add: enc_length)
  have "bytes_at (put mem dst ?c) dst ?bs = ?c" using bytes_at_put [of dst ?c mem] assms l by simp
  then show ?thesis using assms f by (simp add: cbc_process_def enc Let_def)
qed

lemma cbc_decrypt_block:
  assumes "crt_alg tfm = alg" "length iv = cra_blocksize alg"
    and "src + cra_blocksize alg \<le> length mem" "dst + cra_blocksize alg \<le> length mem"
    and "src = dst \<or> src + cra_blocksize alg \<le> dst \<or> dst + cra_blocksize alg \<le> src"
  shows "cbc_process dst src (cia_decrypt alg) False (tfm, mem, Some iv) =
    (let b = bytes_at mem src (cra_blocksize alg)
     in Some (tfm, put mem dst (xor_bytes (D (crt_ctx tfm) b) iv), Some b))"
proof -
  let ?bs = "cra_blocksize alg" and ?b = "bytes_at mem src (cra_blocksize alg)"
  let ?d = "D (crt_ctx tfm) ?b"
  have l: "length ?d = ?bs" using assms by (simp add: dec_length)
  obtain f where f: "cit_xor_block ?bs = Some f" "f ?d iv = xor_bytes ?d iv"
    using xor_block_eq [OF bsize] assms l by auto
  show ?thesis
  proof (cases "src = dst")
    case True
    then show ?thesis using assms f by (simp add: cbc_process_def dec Let_def)
  next
    case False
    then have dj: "src + ?bs \<le> dst \<or> dst + ?bs \<le> src" using assms(5) by simp
    have 1: "bytes_at (put mem dst ?d) dst ?bs = ?d" using bytes_at_put [of dst ?d mem] assms l by simp
    have 2: "put (put mem dst ?d) dst (xor_bytes ?d iv) = put mem dst (xor_bytes ?d iv)"
      using assms l by (intro put_twice) simp_all
    have 3: "bytes_at (put mem dst (xor_bytes ?d iv)) src ?bs = ?b"
      using assms l dj by (intro bytes_at_put_disjoint) auto
    show ?thesis using assms f False by (simp add: cbc_process_def dec Let_def 1 2 3)
  qed
qed

lemma cbc_encrypt_loop:
  assumes "crt_alg tfm = alg"
  shows "length iv = cra_blocksize alg \<Longrightarrow> src + k * cra_blocksize alg \<le> length mem \<Longrightarrow>
    dst + k * cra_blocksize alg \<le> length mem \<Longrightarrow>
    src = dst \<or> src + k * cra_blocksize alg \<le> dst \<or> dst + k * cra_blocksize alg \<le> src \<Longrightarrow>
    crypt_loop (cra_blocksize alg) k dst src (cia_encrypt alg) cbc_process True (tfm, mem, Some iv) =
      (let cs = cbc_enc (E (crt_ctx tfm)) iv (blocks_at mem src (cra_blocksize alg) k)
       in Some (tfm, put mem dst (concat cs), Some (last (iv # cs))))"
proof (induction k arbitrary: mem iv dst src)
  case (Suc k)
  let ?bs = "cra_blocksize alg"
  let ?c = "E (crt_ctx tfm) (xor_bytes iv (bytes_at mem src ?bs))"
  let ?bl = "blocks_at mem (src + ?bs) ?bs k"
  have b: "src + ?bs \<le> length mem" "dst + ?bs \<le> length mem" "src + ?bs + k * ?bs \<le> length mem"
      "dst + ?bs + k * ?bs \<le> length mem"
    using Suc.prems by simp_all
  have c: "length ?c = ?bs" using b Suc.prems(1) by (simp add: enc_length)
  have "src + ?bs + k * ?bs \<le> dst \<or> dst + length ?c \<le> src + ?bs" using Suc.prems(4) c by auto
  then have bl: "blocks_at (put mem dst ?c) (src + ?bs) ?bs k = ?bl"
    using b c by (intro blocks_at_put_disjoint) simp_all
  have "\<forall>x \<in> set (cbc_enc (E (crt_ctx tfm)) ?c ?bl). length x = ?bs"
      "length (cbc_enc (E (crt_ctx tfm)) ?c ?bl) = k"
    using cbc_inverse [OF c, of ?bl "crt_ctx tfm"] blocks_at_length [OF b(3)] by (simp_all add: blocks_at_count)
  then have "length (concat (cbc_enc (E (crt_ctx tfm)) ?c ?bl)) = k * ?bs"
    by (metis length_concat_same)
  then have pa: "put (put mem dst ?c) (dst + ?bs) (concat (cbc_enc (E (crt_ctx tfm)) ?c ?bl)) =
      put mem dst (?c @ concat (cbc_enc (E (crt_ctx tfm)) ?c ?bl))"
    using put_append [of dst ?c _ mem] c b by simp
  have "src + ?bs = dst + ?bs \<or> src + ?bs + k * ?bs \<le> dst + ?bs \<or> dst + ?bs + k * ?bs \<le> src + ?bs"
    using Suc.prems(4) by auto
  then have "crypt_loop ?bs k (dst + ?bs) (src + ?bs) (cia_encrypt alg) cbc_process True
        (tfm, put mem dst ?c, Some ?c) =
      (let cs = cbc_enc (E (crt_ctx tfm)) ?c ?bl in
       Some (tfm, put mem dst (?c @ concat cs), Some (last (?c # cs))))"
    using Suc.IH [OF c, of "src + ?bs" "put mem dst ?c" "dst + ?bs"] b c bl pa by (simp add: Let_def)
  then show ?case
    using cbc_encrypt_block [OF assms Suc.prems(1) b(1,2)] by (simp add: Let_def)
qed simp

lemma cbc_decrypt_loop:
  assumes "crt_alg tfm = alg"
  shows "length iv = cra_blocksize alg \<Longrightarrow> src + k * cra_blocksize alg \<le> length mem \<Longrightarrow>
    dst + k * cra_blocksize alg \<le> length mem \<Longrightarrow>
    src = dst \<or> src + k * cra_blocksize alg \<le> dst \<or> dst + k * cra_blocksize alg \<le> src \<Longrightarrow>
    crypt_loop (cra_blocksize alg) k dst src (cia_decrypt alg) cbc_process False (tfm, mem, Some iv) =
      (let cs = blocks_at mem src (cra_blocksize alg) k
       in Some (tfm, put mem dst (concat (cbc_dec (D (crt_ctx tfm)) iv cs)), Some (last (iv # cs))))"
proof (induction k arbitrary: mem iv dst src)
  case (Suc k)
  let ?bs = "cra_blocksize alg"
  let ?b = "bytes_at mem src ?bs"
  let ?c = "xor_bytes (D (crt_ctx tfm) ?b) iv"
  let ?bl = "blocks_at mem (src + ?bs) ?bs k"
  have b: "src + ?bs \<le> length mem" "dst + ?bs \<le> length mem" "src + ?bs + k * ?bs \<le> length mem"
      "dst + ?bs + k * ?bs \<le> length mem"
      "src = dst \<or> src + ?bs \<le> dst \<or> dst + ?bs \<le> src"
    using Suc.prems by auto
  have l: "length ?b = ?bs" and c: "length ?c = ?bs" using b Suc.prems(1) by (simp_all add: dec_length)
  have "src + ?bs + k * ?bs \<le> dst \<or> dst + length ?c \<le> src + ?bs" using Suc.prems(4) c by auto
  then have bl: "blocks_at (put mem dst ?c) (src + ?bs) ?bs k = ?bl"
    using b c by (intro blocks_at_put_disjoint) simp_all
  have "\<forall>x \<in> set (cbc_dec (D (crt_ctx tfm)) ?b ?bl). length x = ?bs"
      "length (cbc_dec (D (crt_ctx tfm)) ?b ?bl) = k"
    using cbc_dec_lengths [OF l, of ?bl "crt_ctx tfm"] blocks_at_length [OF b(3)]
    by (simp_all add: blocks_at_count)
  then have "length (concat (cbc_dec (D (crt_ctx tfm)) ?b ?bl)) = k * ?bs"
    by (metis length_concat_same)
  then have pa: "put (put mem dst ?c) (dst + ?bs) (concat (cbc_dec (D (crt_ctx tfm)) ?b ?bl)) =
      put mem dst (?c @ concat (cbc_dec (D (crt_ctx tfm)) ?b ?bl))"
    using put_append [of dst ?c _ mem] c b by simp
  have "src + ?bs = dst + ?bs \<or> src + ?bs + k * ?bs \<le> dst + ?bs \<or> dst + ?bs + k * ?bs \<le> src + ?bs"
    using Suc.prems(4) by auto
  then have "crypt_loop ?bs k (dst + ?bs) (src + ?bs) (cia_decrypt alg) cbc_process False
        (tfm, put mem dst ?c, Some ?b) =
      Some (tfm, put mem dst (?c @ concat (cbc_dec (D (crt_ctx tfm)) ?b ?bl)), Some (last (?b # ?bl)))"
    using Suc.IH [OF l, of "src + ?bs" "put mem dst ?c" "dst + ?bs"] b c bl pa by (simp add: Let_def)
  then show ?case
    using cbc_decrypt_block [OF assms Suc.prems(1) b(1,2,5)] by (simp add: Let_def)
qed simp

text \<open>Source, destination and the buffer decrypted into may be the same or lie apart.\<close>

lemma cbc_roundtrip:
  assumes "crt_alg tfm = alg" "length iv = cra_blocksize alg" "n mod cra_blocksize alg = 0"
    and "src + n \<le> length mem" "dst + n \<le> length mem" "out + n \<le> length mem"
    and "src = dst \<or> src + n \<le> dst \<or> dst + n \<le> src" "dst = out \<or> dst + n \<le> out \<or> out + n \<le> dst"
  shows "\<exists>mem1 iv1 mem2 iv2. cbc_encrypt_iv tfm mem dst src n (Some iv) = Some (0, tfm, mem1, Some iv1) \<and>
    cbc_decrypt_iv tfm mem1 out dst n (Some iv) = Some (0, tfm, mem2, Some iv2) \<and>
    bytes_at mem2 out n = bytes_at mem src n \<and> iv2 = iv1"
proof (cases "n = 0")
  case True
  then show ?thesis by (simp add: cbc_encrypt_iv_def cbc_decrypt_iv_def crypt_def bytes_at_def)
next
  case False
  let ?bs = "cra_blocksize alg" and ?k = "n div cra_blocksize alg" and ?x = "crt_ctx tfm"
  have n: "?k * ?bs = n" using assms(3) by (simp add: mod_eq_0_iff_dvd)
  let ?bl = "blocks_at mem src ?bs ?k"
  let ?cs = "cbc_enc (E ?x) iv ?bl"
  let ?mem1 = "put mem dst (concat ?cs)"
  have bl: "\<forall>b \<in> set ?bl. length b = ?bs" using blocks_at_length [of src ?k ?bs mem] n assms by simp
  note inv = cbc_inverse [OF assms(2) bl, of ?x]
  have cl: "length ?cs = ?k" using inv by (simp add: blocks_at_count)
  have ccl: "length (concat ?cs) = n" using inv cl n by (metis length_concat_same)
  have e: "cbc_encrypt_iv tfm mem dst src n (Some iv) = Some (0, tfm, ?mem1, Some (last (iv # ?cs)))"
    using cbc_encrypt_loop [OF assms(1,2), of src ?k mem dst] assms False
    by (simp add: cbc_encrypt_iv_def crypt_def n Let_def)
  have "bytes_at ?mem1 dst (?k * ?bs) = concat ?cs"
    using bytes_at_put [of dst "concat ?cs" mem] assms(5) n ccl by simp
  then have bd: "blocks_at ?mem1 dst ?bs ?k = ?cs"
    using inv cl n assms(5) ccl by (intro blocks_at_bytes) simp_all
  have d: "cbc_decrypt_iv tfm ?mem1 out dst n (Some iv) =
      Some (0, tfm, put ?mem1 out (concat ?bl), Some (last (iv # ?cs)))"
    using cbc_decrypt_loop [OF assms(1,2), of dst ?k ?mem1 out] assms False ccl inv
    by (simp add: cbc_decrypt_iv_def crypt_def n Let_def bd)
  have "bytes_at (put ?mem1 out (concat ?bl)) out n = concat ?bl"
    using bytes_at_put [of out "concat ?bl" ?mem1] assms ccl n by (simp add: concat_blocks_at)
  then show ?thesis using e d by (auto simp: concat_blocks_at n)
qed

lemma cbc_encrypt_refines:
  assumes "crt_alg tfm = alg" "length iv = cra_blocksize alg" "n mod cra_blocksize alg = 0"
    and "src + n \<le> length mem" "dst + n \<le> length mem" "src = dst \<or> src + n \<le> dst \<or> dst + n \<le> src"
  shows "\<exists>iv'. cbc_encrypt_iv tfm mem dst src n (Some iv) = Some (0, tfm, put mem dst
    (concat (cbc_enc (E (crt_ctx tfm)) iv (blocks_at mem src (cra_blocksize alg) (n div cra_blocksize alg)))), Some iv')"
proof -
  have n: "n div cra_blocksize alg * cra_blocksize alg = n" using assms(3) by (simp add: mod_eq_0_iff_dvd)
  show ?thesis
    using cbc_encrypt_loop [OF assms(1,2), of src "n div cra_blocksize alg" mem dst] assms
    by (cases "n = 0") (simp_all add: cbc_encrypt_iv_def crypt_def n Let_def)
qed

end

subsection \<open>TEA, XTEA and XETA are block ciphers\<close>

definition rounds_bytes :: "(u32 \<times> u32 \<Rightarrow> u32 \<times> u32) \<Rightarrow> u8 list \<Rightarrow> u8 list" where
  "rounds_bytes f b = (let (y, z) = f (u32_in b, u32_in (drop 4 b)) in u32_out y @ u32_out z)"

lemma rounds_bytes_length [simp]: "length (rounds_bytes f b) = 8"
  by (simp add: rounds_bytes_def split: prod.split)

lemma rounds_bytes_inverse:
  assumes "\<And>x. g (f x) = x" "length b = 8"
  shows "rounds_bytes g (rounds_bytes f b) = b"
  using assms u32_out_in [of b] by (simp add: rounds_bytes_def split: prod.split) (metis prod.inject)

lemma tea_bytes:
  "tea_encrypt ctx b = rounds_bytes (rounds 32 (tea_round ctx) 0) b"
  "tea_decrypt ctx b = rounds_bytes (unrounds 32 (tea_unround ctx) (32 * XTEA_DELTA)) b"
  by (simp_all add: tea_encrypt_def tea_decrypt_def tea_loops rounds_bytes_def push_bit_eq_mult
      TEA_DELTA_def XTEA_DELTA_def)

lemma xtea_bytes:
  "xtea_encrypt ctx b = Some (rounds_bytes (rounds 32 (xtea_round xtea_mix ctx) 0) b)"
  "xtea_decrypt ctx b = Some (rounds_bytes (unrounds 32 (xtea_unround xtea_mix ctx) (32 * XTEA_DELTA)) b)"
  "xeta_encrypt ctx b = Some (rounds_bytes (rounds 32 (xtea_round xeta_mix ctx) 0) b)"
  "xeta_decrypt ctx b = Some (rounds_bytes (unrounds 32 (xtea_unround xeta_mix ctx) (32 * XTEA_DELTA)) b)"
  by (simp_all add: xtea_encrypt_def xtea_decrypt_def xeta_encrypt_def xeta_decrypt_def xtea_loops
      rounds_bytes_def xtea_crypt_out_def)

lemma unrounds_rounds_32:
  "(\<And>s x. g s (f s x) = x) \<Longrightarrow> unrounds 32 g (32 * XTEA_DELTA) (rounds 32 f 0 x) = x"
  using unrounds_rounds [of g f 32 0 x] by simp

interpretation tea: block_cipher tea_alg tea_encrypt tea_decrypt
  by unfold_locales
    (simp_all add: tea_alg_def tea_bytes rounds_bytes_inverse unrounds_rounds_32 round_inverses)

interpretation xtea: block_cipher xtea_alg "\<lambda>ctx b. the (xtea_encrypt ctx b)" "\<lambda>ctx b. the (xtea_decrypt ctx b)"
  by unfold_locales
    (simp_all add: xtea_alg_def xtea_bytes rounds_bytes_inverse unrounds_rounds_32 round_inverses)

interpretation xeta: block_cipher xeta_alg "\<lambda>ctx b. the (xeta_encrypt ctx b)" "\<lambda>ctx b. the (xeta_decrypt ctx b)"
  by unfold_locales
    (simp_all add: xeta_alg_def xtea_bytes rounds_bytes_inverse unrounds_rounds_32 round_inverses)

text \<open>
  Decryption inverts encryption for every key and every 8-byte block, for TEA, XTEA and XETA;
  the XTEA and XETA loops, which run until a 32-bit sum meets its limit, end.
\<close>

theorem tea_roundtrip:
  assumes "length src = 8"
  shows "tea_decrypt ctx (tea_encrypt ctx src) = src \<and>
    (\<exists>c. xtea_encrypt ctx src = Some c \<and> xtea_decrypt ctx c = Some src) \<and>
    (\<exists>c. xeta_encrypt ctx src = Some c \<and> xeta_decrypt ctx c = Some src)"
  using assms tea.dec_enc [of src] by (auto simp: tea_alg_def xtea_bytes rounds_bytes_inverse
      unrounds_rounds_32 round_inverses)

theorem tea_roundtrip_witness:
  "tea_decrypt [1, 2, 3, 4] (tea_encrypt [1, 2, 3, 4] [0, 1, 2, 3, 4, 5, 6, 7]) = [0, 1, 2, 3, 4, 5, 6, 7] \<and>
   (\<exists>c. xtea_encrypt [1, 2, 3, 4] [0, 1, 2, 3, 4, 5, 6, 7] = Some c)"
  using tea_roundtrip [of "[0, 1, 2, 3, 4, 5, 6, 7]" "[1, 2, 3, 4]"] by auto

text \<open>
  C29.  CBC: for each of the three ciphers, a message of whole blocks encrypted from \<open>src\<close> to \<open>dst\<close>
  and decrypted from \<open>dst\<close> to \<open>out\<close> with the same initial vector is the message again.  Each pair of
  buffers may be the same one (the in-place case, with its temporary block) or lie apart.
\<close>

theorem cbc_roundtrip_all:
  assumes "crt_alg tfm \<in> {tea_alg, xtea_alg, xeta_alg}" "length iv = 8" "n mod 8 = 0"
    and "src + n \<le> length mem" "dst + n \<le> length mem" "out + n \<le> length mem"
    and "src = dst \<or> src + n \<le> dst \<or> dst + n \<le> src" "dst = out \<or> dst + n \<le> out \<or> out + n \<le> dst"
  shows "\<exists>mem1 iv1 mem2 iv2. cbc_encrypt_iv tfm mem dst src n (Some iv) = Some (0, tfm, mem1, Some iv1) \<and>
    cbc_decrypt_iv tfm mem1 out dst n (Some iv) = Some (0, tfm, mem2, Some iv2) \<and>
    bytes_at mem2 out n = bytes_at mem src n \<and> iv2 = iv1"
proof -
  have "cra_blocksize (crt_alg tfm) = 8"
    using assms(1) by (auto simp: tea_alg_def xtea_alg_def xeta_alg_def)
  then show ?thesis
    using assms tea.cbc_roundtrip [of tfm iv n src mem dst out] xtea.cbc_roundtrip [of tfm iv n src mem dst out]
      xeta.cbc_roundtrip [of tfm iv n src mem dst out] by auto
qed

theorem cbc_roundtrip_all_witness:
  "\<exists>mem1 iv1 mem2 iv2.
    cbc_encrypt_iv \<lparr>crt_flags = 0, crt_ctx = [1, 2, 3, 4], crt_alg = xtea_alg, cit_iv = None\<rparr>
      (map of_nat [0..<48]) 16 16 16 (Some [7, 6, 5, 4, 3, 2, 1, 0]) =
      Some (0, \<lparr>crt_flags = 0, crt_ctx = [1, 2, 3, 4], crt_alg = xtea_alg, cit_iv = None\<rparr>, mem1, Some iv1) \<and>
    cbc_decrypt_iv \<lparr>crt_flags = 0, crt_ctx = [1, 2, 3, 4], crt_alg = xtea_alg, cit_iv = None\<rparr>
      mem1 32 16 16 (Some [7, 6, 5, 4, 3, 2, 1, 0]) =
      Some (0, \<lparr>crt_flags = 0, crt_ctx = [1, 2, 3, 4], crt_alg = xtea_alg, cit_iv = None\<rparr>, mem2, Some iv2) \<and>
    bytes_at mem2 32 16 = bytes_at (map of_nat [0..<48]) 16 16 \<and> iv2 = iv1"
  by (rule cbc_roundtrip_all) simp_all

text \<open>
  A length that is not a multiple of the block size is refused with \<open>EINVAL\<close> and recorded in the
  transform's flags, with the memory untouched, in every mode and direction; a key of another
  length than the algorithm's is refused by \<open>setkey\<close>, with its flag, and the context kept.
\<close>

theorem cipher_refusals:
  assumes "n mod cra_blocksize (crt_alg tfm) \<noteq> 0"
    and "length key < cia_min_keysize (crt_alg tfm) \<or> cia_max_keysize (crt_alg tfm) < length key"
  shows "ecb_encrypt tfm mem dst src n =
      Some (- EINVAL, tfm\<lparr>crt_flags := crt_flags tfm OR CRYPTO_TFM_RES_BAD_BLOCK_LEN\<rparr>, mem, None) \<and>
    cbc_decrypt_iv tfm mem dst src n iv =
      Some (- EINVAL, tfm\<lparr>crt_flags := crt_flags tfm OR CRYPTO_TFM_RES_BAD_BLOCK_LEN\<rparr>, mem, iv) \<and>
    setkey tfm key = (- EINVAL, tfm\<lparr>crt_flags := crt_flags tfm OR CRYPTO_TFM_RES_BAD_KEY_LEN\<rparr>) \<and>
    crt_ctx (snd (setkey tfm key)) = crt_ctx tfm"
proof -
  have "n \<noteq> 0" using assms(1) by (cases n) simp_all
  then show ?thesis
    using assms by (simp add: ecb_encrypt_def cbc_decrypt_iv_def crypt_def setkey_def)
qed

theorem cipher_refusals_witness:
  "fst (the (ecb_encrypt \<lparr>crt_flags = 0, crt_ctx = [1, 2, 3, 4], crt_alg = tea_alg, cit_iv = None\<rparr>
     [1, 2, 3] 0 0 3)) = - EINVAL"
  using cipher_refusals [of 3 "\<lparr>crt_flags = 0, crt_ctx = [1, 2, 3, 4], crt_alg = tea_alg, cit_iv = None\<rparr>"
      "[]" "[1, 2, 3]" 0 0 None] by (simp add: tea_alg_def)

subsection \<open>ARC4 keeps a permutation, and its two directions are one\<close>

definition arc4_inv :: "u8 list \<Rightarrow> bool" where
  "arc4_inv s \<longleftrightarrow> distinct s \<and> length s = 256"

lemma arc4_inv_swap:
  "arc4_inv s \<Longrightarrow> i < 256 \<Longrightarrow> j < 256 \<Longrightarrow> arc4_inv ((s[i := s ! j])[j := s ! i])"
  by (simp add: arc4_inv_def distinct_swap)

lemma unat_u8_less [simp]: "unat (x :: u8) < 256"
  using unsigned_less [of x] by simp

lemma arc4_swap_in_inv:
  assumes "arc4_inv s"
  shows "n \<le> 256 \<Longrightarrow> (case (arc4_swap_in key ^^ n) (0, j, k, s) of (i', j', k', s') \<Rightarrow> i' = n \<and> arc4_inv s')"
proof (induction n)
  case (Suc n)
  then obtain j' k' s' where "(arc4_swap_in key ^^ n) (0, j, k, s) = (n, j', k', s')" "arc4_inv s'"
    by (auto split: prod.splits)
  then show ?case
    using Suc.prems by (simp add: arc4_swap_in_def [of key "(n, j', k', s')"] Let_def arc4_inv_swap)
qed (simp add: assms)

lemma arc4_initial_inv: "arc4_inv (map of_nat [0..<256])"
proof -
  have "inj_on (of_nat :: nat \<Rightarrow> u8) {0..<256}"
  proof (rule inj_onI)
    fix x y :: nat
    assume "x \<in> {0..<256}" "y \<in> {0..<256}" "(of_nat x :: u8) = of_nat y"
    then have "unat (of_nat x :: u8) = unat (of_nat y :: u8)" "x < 256" "y < 256" by auto
    then show "x = y" by (simp add: unat_of_nat)
  qed
  then show ?thesis by (simp add: arc4_inv_def distinct_map)
qed

lemma arc4_set_key_inv: "arc4_inv (S (fst (snd (arc4_set_key ctx key flags))))"
  using arc4_swap_in_inv [OF arc4_initial_inv, of 256 key 0 0]
  by (auto simp: arc4_set_key_def split: prod.splits)

lemma arc4_stream_ok:
  "arc4_stream ctx m = (ctx', c) \<Longrightarrow>
   arc4_stream ctx c = (ctx', m) \<and> length c = length m \<and> (arc4_inv (S ctx) \<longrightarrow> arc4_inv (S ctx'))"
proof (induction m arbitrary: ctx ctx' c)
  case (Cons b m)
  obtain ctx1 d where 1: "arc4_crypt ctx b = (ctx1, d)" by fastforce
  obtain ctx2 ds where 2: "arc4_stream ctx1 m = (ctx2, ds)" by fastforce
  have "arc4_crypt ctx d = (ctx1, b)" "arc4_inv (S ctx) \<longrightarrow> arc4_inv (S ctx1)"
    using 1 by (auto simp: arc4_crypt_def Let_def arc4_inv_swap xor.assoc)
  moreover have "c = d # ds" "ctx' = ctx2" using Cons.prems 1 2 by simp_all
  ultimately show ?case using Cons.IH [OF 2] by simp
qed simp

text \<open>
  ARC4: after \<open>arc4_set_key\<close> the state table is a permutation of the 256 byte values and stays
  one however much is encrypted, and encrypting the output again from the same state gives the
  message and the same final state (encryption and decryption are the same function).
\<close>

theorem arc4_correct:
  assumes "arc4_set_key ctx0 key flags = (ret, ctx, flags')" "arc4_stream ctx m = (ctx', c)"
  shows "ret = 0 \<and> arc4_stream ctx c = (ctx', m) \<and> distinct (S ctx') \<and> set (S ctx') = UNIV"
proof -
  have "arc4_inv (S ctx')"
    using arc4_set_key_inv [of ctx0 key flags] arc4_stream_ok [OF assms(2)] assms(1) by simp
  then have "distinct (S ctx')" "card (set (S ctx')) = CARD(u8)"
    by (simp_all add: arc4_inv_def distinct_card card_word)
  then have "distinct (S ctx') \<and> set (S ctx') = UNIV"
    using card_eq_UNIV_imp_eq_UNIV [of "set (S ctx')"] by simp
  then show ?thesis
    using arc4_stream_ok [OF assms(2)] assms(1) by (auto simp: arc4_set_key_def split: prod.splits)
qed

definition arc4_demo_ctx :: arc4_ctx where
  "arc4_demo_ctx = fst (snd (arc4_set_key \<lparr>S = [], arc4_x = 0, arc4_y = 0\<rparr> [0x4b, 0x65, 0x79] 0))"

theorem arc4_correct_witness:
  "arc4_stream arc4_demo_ctx (snd (arc4_stream arc4_demo_ctx [1, 2, 3])) =
     (fst (arc4_stream arc4_demo_ctx [1, 2, 3]), [1, 2, 3])"
proof -
  have "arc4_set_key \<lparr>S = [], arc4_x = 0, arc4_y = 0\<rparr> [0x4b, 0x65, 0x79] 0 = (0, arc4_demo_ctx, 0)"
    by (simp add: arc4_demo_ctx_def arc4_set_key_def split: prod.split)
  from arc4_correct [OF this surjective_pairing] show ?thesis by (simp del: arc4_stream.simps)
qed

end
