(* ===== verification/Crc32.thy ===== *)
theory Crc32
  imports Digest
begin

text \<open>
  The Ethernet CRC-32 (lib/crc32.c) with the generator of its tables (lib/gen_crc32table.c) and the
  generated tables that the kernel is compiled with (tcc/crc32table.h).  The configuration of the
  repository is the one with a byte at a time on a little-endian machine, which reads aligned 32-bit
  words in its main loop; the variants with a bit, two bits and four bits at a time are modelled too.
  A buffer is the list of its bytes with the address of the first one; loops that count \<open>len\<close> down run
  over the list.  The byte loops and the word loop are shared by the two bit orders, which differ in
  their tables and in a byte swap before and after; the locale \<open>crc_table\<close> states what the table has
  to give for the loops to be right.
\<close>

subsection \<open>One bit at a time\<close>

definition CRCPOLY_LE :: u32 where "CRCPOLY_LE = 0xedb88320"
definition CRCPOLY_BE :: u32 where "CRCPOLY_BE = 0x04c11db7"

definition le_step :: "u32 \<Rightarrow> u32" where
  "le_step crc = drop_bit 1 crc XOR (if crc AND 1 \<noteq> 0 then CRCPOLY_LE else 0)"

definition be_step :: "u32 \<Rightarrow> u32" where
  "be_step crc = push_bit 1 crc XOR (if crc AND 0x80000000 \<noteq> 0 then CRCPOLY_BE else 0)"

definition crc32_le_1 :: "u32 \<Rightarrow> u8 list \<Rightarrow> u32" where
  "crc32_le_1 crc p = foldl (\<lambda>crc x. (le_step ^^ 8) (crc XOR ucast x)) crc p"

definition crc32_be_1 :: "u32 \<Rightarrow> u8 list \<Rightarrow> u32" where
  "crc32_be_1 crc p = foldl (\<lambda>crc x. (be_step ^^ 8) (crc XOR push_bit 24 (ucast x))) crc p"

subsection \<open>The table generator\<close>

text \<open>The inner loops, over \<open>j = 0, 2i, 4i, \<dots>\<close> and \<open>j = 0, \<dots>, i - 1\<close>.\<close>

definition le_fill :: "u32 list \<Rightarrow> nat \<Rightarrow> u32 \<Rightarrow> u32 list" where
  "le_fill tab i crc =
     foldl (\<lambda>t j. t[i + j := crc XOR t ! j]) tab (map ((*) (2 * i)) [0..<length tab div (2 * i)])"

definition be_fill :: "u32 list \<Rightarrow> nat \<Rightarrow> u32 \<Rightarrow> u32 list" where
  "be_fill tab i crc = foldl (\<lambda>t j. t[i + j := crc XOR t ! j]) tab [0..<i]"

text \<open>The outer loops: \<open>i\<close> runs through the powers of two, downwards for the little-endian table.\<close>

fun le_table_loop :: "u32 list \<Rightarrow> u32 \<Rightarrow> nat \<Rightarrow> u32 list" where
  "le_table_loop tab crc 0 = tab"
| "le_table_loop tab crc (Suc n) = (let crc' = le_step crc in le_table_loop (le_fill tab (2 ^ n) crc') crc' n)"

definition crc32init_le :: "nat \<Rightarrow> u32 list" where
  "crc32init_le bits = le_table_loop (replicate (2 ^ bits) 0) 1 bits"

fun be_table_loop :: "u32 list \<Rightarrow> u32 \<Rightarrow> nat \<Rightarrow> nat \<Rightarrow> u32 list" where
  "be_table_loop tab crc i 0 = tab"
| "be_table_loop tab crc i (Suc n) = (let crc' = be_step crc in be_table_loop (be_fill tab i crc') crc' (2 * i) n)"

definition crc32init_be :: "nat \<Rightarrow> u32 list" where
  "crc32init_be bits = be_table_loop (replicate (2 ^ bits) 0) 0x80000000 1 bits"

subsection \<open>The compiled tables\<close>

text \<open>On a little-endian machine \<open>tole\<close> is the identity and \<open>tobe\<close> swaps the bytes.\<close>

definition swab32 :: "u32 \<Rightarrow> u32" where
  "swab32 x = push_bit 24 (x AND 0x000000ff) OR push_bit 8 (x AND 0x0000ff00) OR
     drop_bit 8 (x AND 0x00ff0000) OR drop_bit 24 (x AND 0xff000000)"

definition crc32table_le :: "u32 list" where
  "crc32table_le =
    [0x00000000, 0x77073096, 0xee0e612c, 0x990951ba, 0x076dc419, 0x706af48f, 0xe963a535, 0x9e6495a3,
     0x0edb8832, 0x79dcb8a4, 0xe0d5e91e, 0x97d2d988, 0x09b64c2b, 0x7eb17cbd, 0xe7b82d07, 0x90bf1d91,
     0x1db71064, 0x6ab020f2, 0xf3b97148, 0x84be41de, 0x1adad47d, 0x6ddde4eb, 0xf4d4b551, 0x83d385c7,
     0x136c9856, 0x646ba8c0, 0xfd62f97a, 0x8a65c9ec, 0x14015c4f, 0x63066cd9, 0xfa0f3d63, 0x8d080df5,
     0x3b6e20c8, 0x4c69105e, 0xd56041e4, 0xa2677172, 0x3c03e4d1, 0x4b04d447, 0xd20d85fd, 0xa50ab56b,
     0x35b5a8fa, 0x42b2986c, 0xdbbbc9d6, 0xacbcf940, 0x32d86ce3, 0x45df5c75, 0xdcd60dcf, 0xabd13d59,
     0x26d930ac, 0x51de003a, 0xc8d75180, 0xbfd06116, 0x21b4f4b5, 0x56b3c423, 0xcfba9599, 0xb8bda50f,
     0x2802b89e, 0x5f058808, 0xc60cd9b2, 0xb10be924, 0x2f6f7c87, 0x58684c11, 0xc1611dab, 0xb6662d3d,
     0x76dc4190, 0x01db7106, 0x98d220bc, 0xefd5102a, 0x71b18589, 0x06b6b51f, 0x9fbfe4a5, 0xe8b8d433,
     0x7807c9a2, 0x0f00f934, 0x9609a88e, 0xe10e9818, 0x7f6a0dbb, 0x086d3d2d, 0x91646c97, 0xe6635c01,
     0x6b6b51f4, 0x1c6c6162, 0x856530d8, 0xf262004e, 0x6c0695ed, 0x1b01a57b, 0x8208f4c1, 0xf50fc457,
     0x65b0d9c6, 0x12b7e950, 0x8bbeb8ea, 0xfcb9887c, 0x62dd1ddf, 0x15da2d49, 0x8cd37cf3, 0xfbd44c65,
     0x4db26158, 0x3ab551ce, 0xa3bc0074, 0xd4bb30e2, 0x4adfa541, 0x3dd895d7, 0xa4d1c46d, 0xd3d6f4fb,
     0x4369e96a, 0x346ed9fc, 0xad678846, 0xda60b8d0, 0x44042d73, 0x33031de5, 0xaa0a4c5f, 0xdd0d7cc9,
     0x5005713c, 0x270241aa, 0xbe0b1010, 0xc90c2086, 0x5768b525, 0x206f85b3, 0xb966d409, 0xce61e49f,
     0x5edef90e, 0x29d9c998, 0xb0d09822, 0xc7d7a8b4, 0x59b33d17, 0x2eb40d81, 0xb7bd5c3b, 0xc0ba6cad,
     0xedb88320, 0x9abfb3b6, 0x03b6e20c, 0x74b1d29a, 0xead54739, 0x9dd277af, 0x04db2615, 0x73dc1683,
     0xe3630b12, 0x94643b84, 0x0d6d6a3e, 0x7a6a5aa8, 0xe40ecf0b, 0x9309ff9d, 0x0a00ae27, 0x7d079eb1,
     0xf00f9344, 0x8708a3d2, 0x1e01f268, 0x6906c2fe, 0xf762575d, 0x806567cb, 0x196c3671, 0x6e6b06e7,
     0xfed41b76, 0x89d32be0, 0x10da7a5a, 0x67dd4acc, 0xf9b9df6f, 0x8ebeeff9, 0x17b7be43, 0x60b08ed5,
     0xd6d6a3e8, 0xa1d1937e, 0x38d8c2c4, 0x4fdff252, 0xd1bb67f1, 0xa6bc5767, 0x3fb506dd, 0x48b2364b,
     0xd80d2bda, 0xaf0a1b4c, 0x36034af6, 0x41047a60, 0xdf60efc3, 0xa867df55, 0x316e8eef, 0x4669be79,
     0xcb61b38c, 0xbc66831a, 0x256fd2a0, 0x5268e236, 0xcc0c7795, 0xbb0b4703, 0x220216b9, 0x5505262f,
     0xc5ba3bbe, 0xb2bd0b28, 0x2bb45a92, 0x5cb36a04, 0xc2d7ffa7, 0xb5d0cf31, 0x2cd99e8b, 0x5bdeae1d,
     0x9b64c2b0, 0xec63f226, 0x756aa39c, 0x026d930a, 0x9c0906a9, 0xeb0e363f, 0x72076785, 0x05005713,
     0x95bf4a82, 0xe2b87a14, 0x7bb12bae, 0x0cb61b38, 0x92d28e9b, 0xe5d5be0d, 0x7cdcefb7, 0x0bdbdf21,
     0x86d3d2d4, 0xf1d4e242, 0x68ddb3f8, 0x1fda836e, 0x81be16cd, 0xf6b9265b, 0x6fb077e1, 0x18b74777,
     0x88085ae6, 0xff0f6a70, 0x66063bca, 0x11010b5c, 0x8f659eff, 0xf862ae69, 0x616bffd3, 0x166ccf45,
     0xa00ae278, 0xd70dd2ee, 0x4e048354, 0x3903b3c2, 0xa7672661, 0xd06016f7, 0x4969474d, 0x3e6e77db,
     0xaed16a4a, 0xd9d65adc, 0x40df0b66, 0x37d83bf0, 0xa9bcae53, 0xdebb9ec5, 0x47b2cf7f, 0x30b5ffe9,
     0xbdbdf21c, 0xcabac28a, 0x53b39330, 0x24b4a3a6, 0xbad03605, 0xcdd70693, 0x54de5729, 0x23d967bf,
     0xb3667a2e, 0xc4614ab8, 0x5d681b02, 0x2a6f2b94, 0xb40bbe37, 0xc30c8ea1, 0x5a05df1b, 0x2d02ef8d]"

definition crc32table_be :: "u32 list" where
  "crc32table_be = map swab32
    [0x00000000, 0x04c11db7, 0x09823b6e, 0x0d4326d9, 0x130476dc, 0x17c56b6b, 0x1a864db2, 0x1e475005,
     0x2608edb8, 0x22c9f00f, 0x2f8ad6d6, 0x2b4bcb61, 0x350c9b64, 0x31cd86d3, 0x3c8ea00a, 0x384fbdbd,
     0x4c11db70, 0x48d0c6c7, 0x4593e01e, 0x4152fda9, 0x5f15adac, 0x5bd4b01b, 0x569796c2, 0x52568b75,
     0x6a1936c8, 0x6ed82b7f, 0x639b0da6, 0x675a1011, 0x791d4014, 0x7ddc5da3, 0x709f7b7a, 0x745e66cd,
     0x9823b6e0, 0x9ce2ab57, 0x91a18d8e, 0x95609039, 0x8b27c03c, 0x8fe6dd8b, 0x82a5fb52, 0x8664e6e5,
     0xbe2b5b58, 0xbaea46ef, 0xb7a96036, 0xb3687d81, 0xad2f2d84, 0xa9ee3033, 0xa4ad16ea, 0xa06c0b5d,
     0xd4326d90, 0xd0f37027, 0xddb056fe, 0xd9714b49, 0xc7361b4c, 0xc3f706fb, 0xceb42022, 0xca753d95,
     0xf23a8028, 0xf6fb9d9f, 0xfbb8bb46, 0xff79a6f1, 0xe13ef6f4, 0xe5ffeb43, 0xe8bccd9a, 0xec7dd02d,
     0x34867077, 0x30476dc0, 0x3d044b19, 0x39c556ae, 0x278206ab, 0x23431b1c, 0x2e003dc5, 0x2ac12072,
     0x128e9dcf, 0x164f8078, 0x1b0ca6a1, 0x1fcdbb16, 0x018aeb13, 0x054bf6a4, 0x0808d07d, 0x0cc9cdca,
     0x7897ab07, 0x7c56b6b0, 0x71159069, 0x75d48dde, 0x6b93dddb, 0x6f52c06c, 0x6211e6b5, 0x66d0fb02,
     0x5e9f46bf, 0x5a5e5b08, 0x571d7dd1, 0x53dc6066, 0x4d9b3063, 0x495a2dd4, 0x44190b0d, 0x40d816ba,
     0xaca5c697, 0xa864db20, 0xa527fdf9, 0xa1e6e04e, 0xbfa1b04b, 0xbb60adfc, 0xb6238b25, 0xb2e29692,
     0x8aad2b2f, 0x8e6c3698, 0x832f1041, 0x87ee0df6, 0x99a95df3, 0x9d684044, 0x902b669d, 0x94ea7b2a,
     0xe0b41de7, 0xe4750050, 0xe9362689, 0xedf73b3e, 0xf3b06b3b, 0xf771768c, 0xfa325055, 0xfef34de2,
     0xc6bcf05f, 0xc27dede8, 0xcf3ecb31, 0xcbffd686, 0xd5b88683, 0xd1799b34, 0xdc3abded, 0xd8fba05a,
     0x690ce0ee, 0x6dcdfd59, 0x608edb80, 0x644fc637, 0x7a089632, 0x7ec98b85, 0x738aad5c, 0x774bb0eb,
     0x4f040d56, 0x4bc510e1, 0x46863638, 0x42472b8f, 0x5c007b8a, 0x58c1663d, 0x558240e4, 0x51435d53,
     0x251d3b9e, 0x21dc2629, 0x2c9f00f0, 0x285e1d47, 0x36194d42, 0x32d850f5, 0x3f9b762c, 0x3b5a6b9b,
     0x0315d626, 0x07d4cb91, 0x0a97ed48, 0x0e56f0ff, 0x1011a0fa, 0x14d0bd4d, 0x19939b94, 0x1d528623,
     0xf12f560e, 0xf5ee4bb9, 0xf8ad6d60, 0xfc6c70d7, 0xe22b20d2, 0xe6ea3d65, 0xeba91bbc, 0xef68060b,
     0xd727bbb6, 0xd3e6a601, 0xdea580d8, 0xda649d6f, 0xc423cd6a, 0xc0e2d0dd, 0xcda1f604, 0xc960ebb3,
     0xbd3e8d7e, 0xb9ff90c9, 0xb4bcb610, 0xb07daba7, 0xae3afba2, 0xaafbe615, 0xa7b8c0cc, 0xa379dd7b,
     0x9b3660c6, 0x9ff77d71, 0x92b45ba8, 0x9675461f, 0x8832161a, 0x8cf30bad, 0x81b02d74, 0x857130c3,
     0x5d8a9099, 0x594b8d2e, 0x5408abf7, 0x50c9b640, 0x4e8ee645, 0x4a4ffbf2, 0x470cdd2b, 0x43cdc09c,
     0x7b827d21, 0x7f436096, 0x7200464f, 0x76c15bf8, 0x68860bfd, 0x6c47164a, 0x61043093, 0x65c52d24,
     0x119b4be9, 0x155a565e, 0x18197087, 0x1cd86d30, 0x029f3d35, 0x065e2082, 0x0b1d065b, 0x0fdc1bec,
     0x3793a651, 0x3352bbe6, 0x3e119d3f, 0x3ad08088, 0x2497d08d, 0x2056cd3a, 0x2d15ebe3, 0x29d4f654,
     0xc5a92679, 0xc1683bce, 0xcc2b1d17, 0xc8ea00a0, 0xd6ad50a5, 0xd26c4d12, 0xdf2f6bcb, 0xdbee767c,
     0xe3a1cbc1, 0xe760d676, 0xea23f0af, 0xeee2ed18, 0xf0a5bd1d, 0xf464a0aa, 0xf9278673, 0xfde69bc4,
     0x89b8fd09, 0x8d79e0be, 0x803ac667, 0x84fbdbd0, 0x9abc8bd5, 0x9e7d9662, 0x933eb0bb, 0x97ffad0c,
     0xafb010b1, 0xab710d06, 0xa6322bdf, 0xa2f33668, 0xbcb4666d, 0xb8757bda, 0xb5365d03, 0xb1f740b4]"

subsection \<open>A few bits at a time\<close>

definition crc32_le_4 :: "u32 \<Rightarrow> u8 list \<Rightarrow> u32" where
  "crc32_le_4 crc p =
     foldl (\<lambda>crc x. ((\<lambda>c. drop_bit 4 c XOR crc32init_le 4 ! unat (c AND 15)) ^^ 2) (crc XOR ucast x)) crc p"

definition crc32_le_2 :: "u32 \<Rightarrow> u8 list \<Rightarrow> u32" where
  "crc32_le_2 crc p =
     foldl (\<lambda>crc x. ((\<lambda>c. drop_bit 2 c XOR crc32init_le 2 ! unat (c AND 3)) ^^ 4) (crc XOR ucast x)) crc p"

definition crc32_be_4 :: "u32 \<Rightarrow> u8 list \<Rightarrow> u32" where
  "crc32_be_4 crc p =
     foldl (\<lambda>crc x. ((\<lambda>c. push_bit 4 c XOR crc32init_be 4 ! unat (drop_bit 28 c)) ^^ 2) (crc XOR push_bit 24 (ucast x))) crc p"

definition crc32_be_2 :: "u32 \<Rightarrow> u8 list \<Rightarrow> u32" where
  "crc32_be_2 crc p =
     foldl (\<lambda>crc x. ((\<lambda>c. push_bit 2 c XOR crc32init_be 2 ! unat (drop_bit 30 c)) ^^ 4) (crc XOR push_bit 24 (ucast x))) crc p"

subsection \<open>A byte at a time\<close>

definition DO_CRC :: "u32 list \<Rightarrow> u32 \<Rightarrow> u32 \<Rightarrow> u32" where
  "DO_CRC tab crc x = tab ! unat ((crc XOR x) AND 255) XOR drop_bit 8 crc"

text \<open>The loop up to an aligned address \<open>b\<close>, entered when \<open>b\<close> is not aligned and there is data.\<close>

fun crc_align :: "u32 list \<Rightarrow> u32 \<Rightarrow> nat \<Rightarrow> u8 list \<Rightarrow> u32 \<times> nat \<times> u8 list" where
  "crc_align tab crc b [] = (crc, b, [])"
| "crc_align tab crc b (x # p) =
     (let crc' = DO_CRC tab crc (ucast x) in
      if p \<noteq> [] \<and> (b + 1) mod 4 \<noteq> 0 then crc_align tab crc' (b + 1) p else (crc', b + 1, p))"

text \<open>The loop over \<open>len\<close> aligned words.\<close>

fun crc_words :: "u32 list \<Rightarrow> u32 \<Rightarrow> u8 list \<Rightarrow> nat \<Rightarrow> u32 \<times> u8 list" where
  "crc_words tab crc p 0 = (crc, p)"
| "crc_words tab crc p (Suc len) =
     crc_words tab (((\<lambda>c. DO_CRC tab c 0) ^^ 4) (crc XOR le32_word (take 4 p))) (drop 4 p) len"

definition crc_bytes :: "u32 list \<Rightarrow> u32 \<Rightarrow> u8 list \<Rightarrow> u32" where
  "crc_bytes tab crc p = foldl (\<lambda>crc x. DO_CRC tab crc (ucast x)) crc p"

definition crc_body :: "u32 list \<Rightarrow> u32 \<Rightarrow> nat \<Rightarrow> u8 list \<Rightarrow> u32" where
  "crc_body tab crc b p =
     (let (crc1, b1, p1) = (if b mod 4 \<noteq> 0 \<and> p \<noteq> [] then crc_align tab crc b p else (crc, b, p));
          (crc2, p2) = (if length p1 \<ge> 4 then crc_words tab crc1 p1 (length p1 div 4) else (crc1, p1))
      in crc_bytes tab crc2 p2)"

definition crc32_le :: "u32 \<Rightarrow> nat \<Rightarrow> u8 list \<Rightarrow> u32" where
  "crc32_le crc b p = crc_body crc32table_le crc b p"

definition crc32_be :: "u32 \<Rightarrow> nat \<Rightarrow> u8 list \<Rightarrow> u32" where
  "crc32_be crc b p = swab32 (crc_body crc32table_be (swab32 crc) b p)"

definition bitreverse :: "u32 \<Rightarrow> u32" where
  "bitreverse x0 =
     (let x1 = drop_bit 16 x0 OR push_bit 16 x0;
          x2 = (drop_bit 8 x1 AND 0x00ff00ff) OR (push_bit 8 x1 AND 0xff00ff00);
          x3 = (drop_bit 4 x2 AND 0x0f0f0f0f) OR (push_bit 4 x2 AND 0xf0f0f0f0);
          x4 = (drop_bit 2 x3 AND 0x33333333) OR (push_bit 2 x3 AND 0xcccccccc)
      in (drop_bit 1 x4 AND 0x55555555) OR (push_bit 1 x4 AND 0xaaaaaaaa))"

text \<open>\<open>bytereverse\<close> of the test code, on one byte.\<close>

definition bytereverse :: "u8 \<Rightarrow> u8" where
  "bytereverse x0 =
     (let x1 = drop_bit 4 x0 OR push_bit 4 x0;
          x2 = (drop_bit 2 x1 AND 0x33) OR (push_bit 2 x1 AND 0xcc)
      in (drop_bit 1 x2 AND 0x55) OR (push_bit 1 x2 AND 0xaa))"

text \<open>The four bytes of a CRC as they are appended to a message: \<open>store_be\<close> and \<open>store_le\<close> of the test code.\<close>

definition store_be :: "u32 \<Rightarrow> u8 list" where
  "store_be x = [ucast (drop_bit 24 x), ucast (drop_bit 16 x), ucast (drop_bit 8 x), ucast x]"

definition store_le :: "u32 \<Rightarrow> u8 list" where
  "store_le x = [ucast x, ucast (drop_bit 8 x), ucast (drop_bit 16 x), ucast (drop_bit 24 x)]"


subsection \<open>The test program\<close>

text \<open>What it prints when a check fails.\<close>

datatype crc_fail = Cancellation_fail u32 | Split_fail u32 | Reversal_fail u32 u32 u32 | Endianness_fail u32 u32 | Xor_fail u32 u32 u32

definition put_bytes :: "nat \<Rightarrow> 'a list \<Rightarrow> 'a list \<Rightarrow> 'a list" where
  "put_bytes i new buf = take i buf @ new @ drop (i + length new) buf"

definition test_step :: "u32 \<Rightarrow> nat \<Rightarrow> u8 list \<Rightarrow> nat \<Rightarrow> crc_fail list \<times> u32 \<times> u8 list" where
  "test_step init b buf len =
     (let crc1 = crc32_be init b (take len buf);
          buf1 = put_bytes len (store_be crc1) buf;
          crc2 = crc32_be init b (take (len + 4) buf1);
          m1 = (if crc2 \<noteq> 0 then [Cancellation_fail crc2] else []);
          m2 = concat (map (\<lambda>i. let crc2 = crc32_be (crc32_be init b (take i buf1)) (b + i) (take (len + 4 - i) (drop i buf1))
                            in if crc2 \<noteq> 0 then [Split_fail crc2] else []) [0..<len + 5]);
          buf2 = put_bytes 0 (map bytereverse (take (len + 4) buf1)) buf1;
          init' = bitreverse init;
          crc2 = bitreverse crc1;
          m3 = (if crc1 \<noteq> bitreverse crc2 then [Reversal_fail crc1 crc2 (bitreverse crc2)] else []);
          crc1 = crc32_le init' b (take len buf2);
          m4 = (if crc1 \<noteq> crc2 then [Endianness_fail crc1 crc2] else []);
          crc2 = crc32_le init' b (take (len + 4) buf2);
          m5 = (if crc2 \<noteq> 0 then [Cancellation_fail crc2] else []);
          m6 = concat (map (\<lambda>i. let crc2 = crc32_le (crc32_le init' b (take i buf2)) (b + i) (take (len + 4 - i) (drop i buf2))
                            in if crc2 \<noteq> 0 then [Split_fail crc2] else []) [0..<len + 5])
      in (m1 @ m2 @ m3 @ m4 @ m5 @ m6, crc1, buf2))"

text \<open>
  The loop of \<open>main\<close>: \<open>random\<close> gives the contents of the first two buffers for every length, and the
  three buffers lie at the addresses \<open>b1\<close>, \<open>b2\<close> and \<open>b3\<close>.
\<close>

fun main_loop :: "nat \<Rightarrow> nat \<Rightarrow> nat \<Rightarrow> (nat \<Rightarrow> u8 list \<times> u8 list) \<Rightarrow> nat list \<Rightarrow> u8 list \<times> u8 list \<times> u8 list \<Rightarrow> crc_fail list" where
  "main_loop b1 b2 b3 random [] bufs = []"
| "main_loop b1 b2 b3 random (i # is) (buf1, buf2, buf3) =
     (let buf1 = put_bytes 0 (fst (random i)) buf1;
          buf2 = put_bytes 0 (snd (random i)) buf2;
          buf3 = put_bytes 0 (map2 (XOR) (take i buf1) (take i buf2)) buf3;
          (m1, crc1, buf1) = test_step 0 b1 buf1 i;
          (m2, crc2, buf2) = test_step 0 b2 buf2 i;
          (m3, crc3, buf3) = test_step (0 XOR 0) b3 buf3 i;
          m4 = (if crc3 \<noteq> crc1 XOR crc2 then [Xor_fail crc3 crc1 crc2] else [])
      in m1 @ m2 @ m3 @ m4 @ main_loop b1 b2 b3 random is (buf1, buf2, buf3))"

definition crc_main :: "nat \<Rightarrow> nat \<Rightarrow> nat \<Rightarrow> (nat \<Rightarrow> u8 list \<times> u8 list) \<Rightarrow> u8 list \<times> u8 list \<times> u8 list \<Rightarrow> crc_fail list" where
  "crc_main b1 b2 b3 random bufs = main_loop b1 b2 b3 random [0..<64 + 1] bufs"

subsection \<open>Linearity of the bit steps\<close>

lemma odd_word: "w AND 1 \<noteq> 0 \<longleftrightarrow> bit w 0" for w :: u32
  using and_exp_eq_0_iff_not_bit [of w 0] by simp

lemma top_bit: "w AND 0x80000000 \<noteq> 0 \<longleftrightarrow> bit w 31" for w :: u32
  using and_exp_eq_0_iff_not_bit [of w 31] by simp

lemma le_step_bit: "le_step w = drop_bit 1 w XOR (if bit w 0 then CRCPOLY_LE else 0)"
  unfolding le_step_def odd_word ..

lemma be_step_bit: "be_step w = push_bit 1 w XOR (if bit w 31 then CRCPOLY_BE else 0)"
  unfolding be_step_def top_bit ..

lemma le_step_xor: "le_step (a XOR b) = le_step a XOR le_step b"
  unfolding le_step_bit drop_bit_xor bit_xor_iff by (auto simp: ac_simps)

lemma be_step_xor: "be_step (a XOR b) = be_step a XOR be_step b"
  unfolding be_step_bit push_bit_xor bit_xor_iff by (auto simp: ac_simps)

lemma funpow_xor:
  fixes f :: "u32 \<Rightarrow> u32"
  assumes "\<And>a b. f (a XOR b) = f a XOR f b"
  shows "(f ^^ n) (a XOR b) = (f ^^ n) a XOR (f ^^ n) b"
  by (induction n) (simp_all add: assms)

lemma le_steps_xor: "(le_step ^^ n) (a XOR b) = (le_step ^^ n) a XOR (le_step ^^ n) b"
  by (rule funpow_xor) (rule le_step_xor)

lemma be_steps_xor: "(be_step ^^ n) (a XOR b) = (be_step ^^ n) a XOR (be_step ^^ n) b"
  by (rule funpow_xor) (rule be_step_xor)

text \<open>Zero bits at the end that the steps look at are only shifted out.\<close>

lemma le_steps_shift: "(\<And>i. i < n \<Longrightarrow> \<not> bit w i) \<Longrightarrow> (le_step ^^ n) w = drop_bit n w"
proof (induction n arbitrary: w)
  case (Suc n)
  have "le_step w = drop_bit 1 w" using Suc.prems [of 0] by (simp add: le_step_bit)
  moreover have "(le_step ^^ n) (drop_bit 1 w) = drop_bit n (drop_bit 1 w)"
    using Suc.prems by (intro Suc.IH) (simp add: bit_simps)
  ultimately show ?case by (simp only: funpow_Suc_right o_apply drop_bit_drop_bit add_Suc_right add_0_right One_nat_def)
qed simp

lemma be_steps_shift: "n \<le> 32 \<Longrightarrow> (\<And>i. i < n \<Longrightarrow> \<not> bit w (31 - i)) \<Longrightarrow> (be_step ^^ n) w = push_bit n w"
proof (induction n arbitrary: w)
  case (Suc n)
  have "be_step w = push_bit 1 w" using Suc.prems(2) [of 0] by (simp add: be_step_bit)
  moreover have "(be_step ^^ n) (push_bit 1 w) = push_bit n (push_bit 1 w)"
  proof (rule Suc.IH)
    show "\<not> bit (push_bit 1 w) (31 - i)" if "i < n" for i
      unfolding bit_push_bit_iff using Suc.prems(1) Suc.prems(2) [of "Suc i"] that by auto
  qed (use Suc.prems(1) in simp)
  ultimately show ?case by (simp only: funpow_Suc_right o_apply push_bit_push_bit add_Suc_right add_0_right One_nat_def)
qed simp

subsection \<open>The table generator\<close>

lemma fill_nth:
  fixes tab :: "u32 list"
  assumes "distinct js" "\<And>j j'. j \<in> set js \<Longrightarrow> j' \<in> set js \<Longrightarrow> i + j \<noteq> j'" "\<And>j. j \<in> set js \<Longrightarrow> i + j < length tab" "x < length tab"
  shows "foldl (\<lambda>t j. t[i + j := c XOR t ! j]) tab js ! x = (if \<exists>j \<in> set js. x = i + j then c XOR tab ! (x - i) else tab ! x) \<and>
    length (foldl (\<lambda>t j. t[i + j := c XOR t ! j]) tab js) = length tab"
  using assms
proof (induction js arbitrary: tab)
  case (Cons k js)
  let ?t = "tab[i + k := c XOR tab ! k]"
  have "foldl (\<lambda>t j. t[i + j := c XOR t ! j]) ?t js ! x = (if \<exists>j \<in> set js. x = i + j then c XOR ?t ! (x - i) else ?t ! x) \<and>
    length (foldl (\<lambda>t j. t[i + j := c XOR t ! j]) ?t js) = length ?t"
    using Cons.prems by (intro Cons.IH) auto
  moreover have "?t ! (x - i) = tab ! (x - i)" if "\<exists>j \<in> set js. x = i + j"
    using Cons.prems(2) [of k] that by (auto simp: nth_list_update_neq)
  moreover have "i + k < length tab" "k \<notin> set js" using Cons.prems(1,3) by auto
  ultimately show ?case by (cases "x = i + k") (auto simp: nth_list_update_neq)
qed simp

text \<open>What a table of \<open>2 ^ bits\<close> entries holds: a function that is linear in the bits of the index.\<close>

definition bit_linear :: "(nat \<Rightarrow> u32) \<Rightarrow> bool" where
  "bit_linear F \<longleftrightarrow> F 0 = 0 \<and> (\<forall>n j. \<not> bit j n \<longrightarrow> F (2 ^ n + j) = F (2 ^ n) XOR F j)"

lemma le_table_loop_eq:
  assumes "bit_linear F" "\<And>n. n < bits \<Longrightarrow> F (2 ^ n) = (le_step ^^ (bits - n)) 1"
  shows "n \<le> bits \<Longrightarrow> length tab = 2 ^ bits \<Longrightarrow> (\<And>x. x < 2 ^ bits \<Longrightarrow> 2 ^ n dvd x \<Longrightarrow> tab ! x = F x) \<Longrightarrow> x < 2 ^ bits \<Longrightarrow>
    le_table_loop tab ((le_step ^^ (bits - n)) 1) n ! x = F x \<and> length (le_table_loop tab ((le_step ^^ (bits - n)) 1) n) = 2 ^ bits"
proof (induction n arbitrary: tab)
  case (Suc n)
  define i :: nat where "i = 2 ^ n"
  let ?c = "(le_step ^^ (bits - n)) 1" and ?js = "map ((*) (2 * i)) [0..<length tab div (2 * i)]"
  have c: "le_step ((le_step ^^ (bits - Suc n)) 1) = ?c" 
  proof -
    have "bits - n = Suc (bits - Suc n)" using Suc.prems(1) by simp
    then show ?thesis by simp
  qed
  have i0: "0 < i" by (simp add: i_def)
  have "(2 :: nat) ^ bits = 2 ^ Suc n * 2 ^ (bits - Suc n)" using Suc.prems(1) by (metis le_add_diff_inverse power_add)
  then have "length tab = i * 2 * 2 ^ (bits - Suc n)" using Suc.prems(2) by (simp add: i_def)
  then have len: "length tab = 2 * i * (length tab div (2 * i))" using i0 by simp
  have mem: "j \<in> set ?js \<longleftrightarrow> 2 * i dvd j \<and> j < length tab" for j
  proof
    assume "j \<in> set ?js"
    then obtain m where "j = 2 * i * m" "m < length tab div (2 * i)" by fastforce
    then show "2 * i dvd j \<and> j < length tab" using len i0 by (metis dvd_triv_left mult_less_cancel1 nat_0_less_mult_iff zero_less_numeral)
  next
    assume a: "2 * i dvd j \<and> j < length tab"
    then obtain m where m: "j = 2 * i * m" by blast
    then have "m < length tab div (2 * i)" using a len i0 by (metis mult_less_cancel1)
    then show "j \<in> set ?js" using m by auto
  qed
  have d: "distinct ?js" using i0 by (simp add: distinct_map inj_on_def)
  have odd: "i + j \<noteq> j'" if d: "2 * i dvd j" "2 * i dvd j'" for j j'
  proof
    assume e: "i + j = j'"
    obtain a b where "j = 2 * i * a" "j' = 2 * i * b" using d by (auto elim!: dvdE)
    then have "i * (1 + 2 * a) = i * (2 * b)" using e by (simp add: algebra_simps)
    then have "1 + 2 * a = 2 * b" using i0 by (simp only: mult_cancel1) simp
    then show False by presburger
  qed
  have bound: "i + j < length tab" if d: "2 * i dvd j" "j < length tab" for j
  proof -
    obtain m where m: "j = 2 * i * m" using d(1) by blast
    then have "m < length tab div (2 * i)" using d(2) len i0 by (metis mult_less_cancel1)
    then have "2 * i * (m + 1) \<le> 2 * i * (length tab div (2 * i))" by (intro mult_le_mono2) simp
    then show ?thesis using m len i0 by (simp add: algebra_simps)
  qed
  have f: "le_fill tab i ?c ! y = (if \<exists>j \<in> set ?js. y = i + j then ?c XOR tab ! (y - i) else tab ! y)"
      "length (le_fill tab i ?c) = length tab" if "y < length tab" for y
    using fill_nth [OF d, of i tab y ?c] mem odd bound that unfolding le_fill_def by auto
  have new: "le_fill tab i ?c ! y = F y" if y: "y < 2 ^ bits" "i dvd y" for y
  proof (cases "2 * i dvd y")
    case True
    then have "le_fill tab i ?c ! y = tab ! y" using f(1) [of y] y(1) Suc.prems(2) mem odd by auto
    then show ?thesis using Suc.prems(3) [of y] True y(1) by (simp add: i_def)
  next
    case False
    obtain m where m: "y = i * m" using y(2) by blast
    then have "odd m" using False by (auto elim!: dvdE evenE simp: mult.assoc)
    then obtain q where q: "m = 2 * q + 1" by (elim oddE)
    let ?j = "2 * i * q"
    have j: "y = i + ?j" "?j < 2 ^ bits" using m q y(1) by (simp_all add: algebra_simps)
    then have "le_fill tab i ?c ! y = ?c XOR tab ! ?j" using f(1) [of y] y(1) Suc.prems(2) mem [of ?j] by auto
    moreover have "tab ! ?j = F ?j" using Suc.prems(3) [of ?j] j(2) by (simp add: i_def)
    moreover have "\<not> bit ?j n" by (simp add: i_def bit_iff_odd)
    then have "F (i + ?j) = F i XOR F ?j" using assms(1) unfolding bit_linear_def i_def by blast
    ultimately show ?thesis using j(1) assms(2) [of n] Suc.prems(1) by (simp add: i_def)
  qed
  have "length (le_fill tab i ?c) = 2 ^ bits" using f(2) [of 0] i0 len Suc.prems(2) by (metis zero_less_numeral zero_less_power)
  then show ?case using Suc.IH [of "le_fill tab i ?c"] new Suc.prems(1,4) c by (simp add: i_def [symmetric] Let_def)
qed auto

lemma be_table_loop_eq:
  assumes "bit_linear F" "\<And>n. n < bits \<Longrightarrow> F (2 ^ n) = (be_step ^^ Suc n) 0x80000000"
  shows "n + m = bits \<Longrightarrow> length tab = 2 ^ bits \<Longrightarrow> (\<And>x. x < 2 ^ n \<Longrightarrow> tab ! x = F x) \<Longrightarrow> x < 2 ^ bits \<Longrightarrow>
    be_table_loop tab ((be_step ^^ n) 0x80000000) (2 ^ n) m ! x = F x \<and>
    length (be_table_loop tab ((be_step ^^ n) 0x80000000) (2 ^ n) m) = 2 ^ bits"
proof (induction m arbitrary: n tab)
  case (Suc m)
  let ?c = "(be_step ^^ Suc n) 0x80000000" and ?i = "(2 :: nat) ^ n"
  have "(2 :: nat) ^ Suc n \<le> 2 ^ bits" using Suc.prems(1) by (intro power_increasing) auto
  then have len: "2 * ?i \<le> length tab" using Suc.prems(2) by simp
  have f: "be_fill tab ?i ?c ! y = (if \<exists>j \<in> set [0..<?i]. y = ?i + j then ?c XOR tab ! (y - ?i) else tab ! y) \<and>
      length (be_fill tab ?i ?c) = length tab" if "y < length tab" for y
    unfolding be_fill_def by (rule fill_nth) (use len that in auto)
  have new: "be_fill tab ?i ?c ! y = F y" if y: "y < 2 ^ Suc n" for y
  proof (cases "y < ?i")
    case True
    then show ?thesis using f [of y] y len Suc.prems(3) [of y] by auto
  next
    case False
    then have j: "y = ?i + (y - ?i)" "y - ?i < ?i" using y by auto
    then have "be_fill tab ?i ?c ! y = ?c XOR tab ! (y - ?i)" using f [of y] y len by (auto simp: atLeast0LessThan)
    moreover have "\<not> bit (y - ?i) n" using j(2) by (simp add: bit_iff_odd)
    then have "F (?i + (y - ?i)) = F ?i XOR F (y - ?i)" using assms(1) unfolding bit_linear_def by blast
    ultimately show ?thesis using j assms(2) [of n] Suc.prems(1,3) by simp
  qed
  have "length (be_fill tab ?i ?c) = 2 ^ bits" using f [of 0] len Suc.prems(2) by simp
  then show ?case using Suc.IH [of "Suc n" "be_fill tab ?i ?c"] new Suc.prems(1,4) by (simp add: Let_def)
qed simp

lemma of_nat_disjoint: "\<not> bit j n \<Longrightarrow> (of_nat (2 ^ n + j) :: u32) = 2 ^ n XOR of_nat j"
proof -
  assume j: "\<not> bit j n"
  have "2 ^ n + j = 2 ^ n XOR j"
  proof -
    have "2 ^ n AND j = 0" using j by (simp add: and.commute and_exp_eq_0_iff_not_bit)
    then show ?thesis by (simp add: disjunctive_xor_eq_or disjunctive_add_eq_or)
  qed
  then show ?thesis by (metis of_nat_numeral of_nat_power of_nat_xor_eq)
qed

definition le_entry :: "nat \<Rightarrow> nat \<Rightarrow> u32" where
  "le_entry bits x = (le_step ^^ bits) (of_nat x)"

definition be_entry :: "nat \<Rightarrow> nat \<Rightarrow> u32" where
  "be_entry bits x = (be_step ^^ bits) (push_bit (32 - bits) (of_nat x))"

lemma steps_zero: "(le_step ^^ n) 0 = 0" "(be_step ^^ n) 0 = 0"
  by (induction n) (simp_all add: le_step_def be_step_def)

lemma le_entry_linear: "bit_linear (le_entry bits)"
  by (simp add: bit_linear_def le_entry_def steps_zero of_nat_disjoint le_steps_xor del: of_nat_add)

lemma be_entry_linear: "bit_linear (be_entry bits)"
  by (simp add: bit_linear_def be_entry_def steps_zero of_nat_disjoint be_steps_xor push_bit_xor del: of_nat_add)

lemma bit_pow2: "bit ((2 :: u32) ^ n) i \<longleftrightarrow> i = n \<and> n < 32"
  using bit_exp_iff [of n i, where 'a = u32] by auto

lemma le_entry_pow2:
  assumes "n < bits" "n < 32" shows "le_entry bits (2 ^ n) = (le_step ^^ (bits - n)) 1"
proof -
  have "(le_step ^^ n) (2 ^ n) = drop_bit n (2 ^ n)" by (rule le_steps_shift) (simp add: bit_pow2)
  also have "\<dots> = (1 :: u32)" using assms(2) by (intro bit_eqI) (auto simp: bit_simps bit_pow2 bit_1_iff)
  finally have "(le_step ^^ (bits - n)) ((le_step ^^ n) (2 ^ n)) = (le_step ^^ (bits - n)) 1" by simp
  then show ?thesis using assms(1) unfolding le_entry_def by (simp flip: funpow_add [THEN fun_cong, unfolded o_apply])
qed

lemma be_entry_pow2:
  assumes "n < bits" "bits \<le> 32" shows "be_entry bits (2 ^ n) = (be_step ^^ Suc n) 0x80000000"
proof -
  define w :: u32 where "w = push_bit (32 - bits) (2 ^ n)"
  have w: "bit w i \<longleftrightarrow> i = 32 - bits + n" for i using assms by (auto simp: w_def bit_simps bit_pow2)
  have "(be_step ^^ (bits - Suc n)) w = push_bit (bits - Suc n) w"
    by (rule be_steps_shift) (use assms w in auto)
  also have "\<dots> = 2 ^ 31"
  proof (rule bit_eqI)
    fix i assume "possible_bit TYPE(u32) i"
    then have "bit (push_bit (bits - Suc n) w) i \<longleftrightarrow> i = 31"
      using assms unfolding bit_push_bit_iff w by auto
    then show "bit (push_bit (bits - Suc n) w) i = bit (2 ^ 31 :: u32) i" unfolding bit_pow2 by simp
  qed
  finally have "(be_step ^^ Suc n) ((be_step ^^ (bits - Suc n)) w) = (be_step ^^ Suc n) 0x80000000" by simp
  moreover have "(be_step ^^ (Suc n + (bits - Suc n))) w = (be_step ^^ Suc n) ((be_step ^^ (bits - Suc n)) w)"
    by (simp only: funpow_add o_apply)
  moreover have "Suc n + (bits - Suc n) = bits" using assms(1) by simp
  moreover have "be_entry bits (2 ^ n) = (be_step ^^ bits) w" by (simp add: be_entry_def w_def)
  ultimately show ?thesis by (simp only:)
qed

lemma crc32init_le_eq:
  assumes "bits \<le> 32" "x < 2 ^ bits"
  shows "crc32init_le bits ! x = le_entry bits x \<and> length (crc32init_le bits) = 2 ^ bits"
proof -
  have "le_table_loop (replicate (2 ^ bits) 0) ((le_step ^^ (bits - bits)) 1) bits ! x = le_entry bits x \<and>
    length (le_table_loop (replicate (2 ^ bits) 0) ((le_step ^^ (bits - bits)) 1) bits) = 2 ^ bits"
  proof (rule le_table_loop_eq [OF le_entry_linear])
    show "replicate (2 ^ bits) 0 ! y = le_entry bits y" if "y < 2 ^ bits" "2 ^ bits dvd y" for y
    proof -
      have "y = 0" using that by (meson dvd_imp_le leD not_gr0)
      then show ?thesis using le_entry_linear by (simp add: bit_linear_def)
    qed
  qed (use assms le_entry_pow2 in auto)
  then show ?thesis by (simp add: crc32init_le_def)
qed

lemma crc32init_be_eq:
  assumes "bits \<le> 32" "x < 2 ^ bits"
  shows "crc32init_be bits ! x = be_entry bits x \<and> length (crc32init_be bits) = 2 ^ bits"
proof -
  have "be_table_loop (replicate (2 ^ bits) 0) ((be_step ^^ 0) 0x80000000) (2 ^ 0) bits ! x = be_entry bits x \<and>
    length (be_table_loop (replicate (2 ^ bits) 0) ((be_step ^^ 0) 0x80000000) (2 ^ 0) bits) = 2 ^ bits"
  proof (rule be_table_loop_eq [OF be_entry_linear])
    show "replicate (2 ^ bits) 0 ! y = be_entry bits y" if "y < 2 ^ 0" for y
      using that be_entry_linear by (simp add: bit_linear_def)
  qed (use assms be_entry_pow2 in auto)
  then show ?thesis by (simp add: crc32init_be_def)
qed

subsection \<open>The compiled tables\<close>

definition dbl :: "u32 \<Rightarrow> u32 list \<Rightarrow> u32 list" where
  "dbl c t = t @ map ((XOR) c) t"

definition table_upto :: "(nat \<Rightarrow> u32) \<Rightarrow> nat \<Rightarrow> u32 list \<Rightarrow> bool" where
  "table_upto F k t \<longleftrightarrow> length t = 2 ^ k \<and> (\<forall>x < 2 ^ k. t ! x = F x)"

lemma table_dbl:
  assumes "bit_linear F" "table_upto F k t" "F (2 ^ k) = c"
  shows "table_upto F (Suc k) (dbl c t)"
proof -
  have "dbl c t ! x = F x" if "x < 2 ^ Suc k" for x
  proof (cases "x < 2 ^ k")
    case True
    then show ?thesis using assms(2) by (simp add: dbl_def table_upto_def nth_append)
  next
    case False
    then have "x = 2 ^ k + (x - 2 ^ k)" "x - 2 ^ k < 2 ^ k" using that by auto
    moreover from this have "\<not> bit (x - 2 ^ k) k" by (simp add: bit_iff_odd)
    then have "F (2 ^ k + (x - 2 ^ k)) = F (2 ^ k) XOR F (x - 2 ^ k)" using assms(1) unfolding bit_linear_def by blast
    ultimately show ?thesis using assms(2,3) False by (simp add: dbl_def table_upto_def nth_append)
  qed
  then show ?thesis using assms(2) by (simp add: table_upto_def dbl_def)
qed

lemma table_0: "bit_linear F \<Longrightarrow> table_upto F 0 [0]"
  by (simp add: table_upto_def bit_linear_def)

lemma le_table_dbl: "crc32table_le = dbl 0xedb88320 (dbl 0x76dc4190 (dbl 0x3b6e20c8 (dbl 0x1db71064 (dbl 0x0edb8832 (dbl 0x076dc419 (dbl 0xee0e612c (dbl 0x77073096 [0])))))))"
  by (simp add: dbl_def crc32table_le_def)

lemma be_table_dbl: "crc32table_be = map swab32 (dbl 0x690ce0ee (dbl 0x34867077 (dbl 0x9823b6e0 (dbl 0x4c11db70 (dbl 0x2608edb8 (dbl 0x130476dc (dbl 0x09823b6e (dbl 0x04c11db7 [0]))))))))"
  by (simp add: dbl_def crc32table_be_def)

lemma funpow_8: "(f ^^ 8) x = f (f (f (f (f (f (f (f x)))))))"
  by (simp add: eval_nat_numeral)

lemma le_entries: "le_entry 8 1 = 0x77073096" "le_entry 8 2 = 0xee0e612c" "le_entry 8 4 = 0x076dc419" "le_entry 8 8 = 0x0edb8832" "le_entry 8 16 = 0x1db71064" "le_entry 8 32 = 0x3b6e20c8" "le_entry 8 64 = 0x76dc4190" "le_entry 8 128 = 0xedb88320"
  by (simp_all add: le_entry_def le_step_def CRCPOLY_LE_def funpow_8)

lemma be_entries: "be_entry 8 1 = 0x04c11db7" "be_entry 8 2 = 0x09823b6e" "be_entry 8 4 = 0x130476dc" "be_entry 8 8 = 0x2608edb8" "be_entry 8 16 = 0x4c11db70" "be_entry 8 32 = 0x9823b6e0" "be_entry 8 64 = 0x34867077" "be_entry 8 128 = 0x690ce0ee"
  by (simp_all add: be_entry_def be_step_def CRCPOLY_BE_def funpow_8)

lemma le_table_ok: "x < 256 \<Longrightarrow> crc32table_le ! x = le_entry 8 x"
proof -
  have "table_upto (le_entry 8) (Suc (Suc (Suc (Suc (Suc (Suc (Suc (Suc 0)))))))) crc32table_le"
    unfolding le_table_dbl
    by (intro table_dbl [OF le_entry_linear] table_0 [OF le_entry_linear]) (simp_all add: le_entries [unfolded One_nat_def])
  then show "x < 256 \<Longrightarrow> ?thesis" by (simp add: table_upto_def)
qed

lemma be_table_ok: "x < 256 \<Longrightarrow> crc32table_be ! x = swab32 (be_entry 8 x)"
proof -
  define t where "t = dbl 0x690ce0ee (dbl 0x34867077 (dbl 0x9823b6e0 (dbl 0x4c11db70 (dbl 0x2608edb8 (dbl 0x130476dc (dbl 0x09823b6e (dbl 0x04c11db7 [0])))))))"
  have "table_upto (be_entry 8) (Suc (Suc (Suc (Suc (Suc (Suc (Suc (Suc 0)))))))) t"
    unfolding t_def
    by (intro table_dbl [OF be_entry_linear] table_0 [OF be_entry_linear]) (simp_all add: be_entries [unfolded One_nat_def])
  then show "x < 256 \<Longrightarrow> ?thesis" unfolding be_table_dbl t_def [symmetric] by (simp add: table_upto_def)
qed

subsection \<open>Byte swapping\<close>

lemma swab_masks: "(0x000000ff :: u32) = mask 8" "(0x0000ff00 :: u32) = push_bit 8 (mask 8)"
    "(0x00ff0000 :: u32) = push_bit 16 (mask 8)" "(0xff000000 :: u32) = push_bit 24 (mask 8)"
  by (simp_all add: mask_eq_exp_minus_1 push_bit_eq_mult)

lemma mask_bits:
  "bit (0x000000ff :: u32) n \<longleftrightarrow> n < 8" "bit (0x0000ff00 :: u32) n \<longleftrightarrow> 8 \<le> n \<and> n < 16"
  "bit (0x00ff0000 :: u32) n \<longleftrightarrow> 16 \<le> n \<and> n < 24" "bit (0xff000000 :: u32) n \<longleftrightarrow> 24 \<le> n \<and> n < 32"
  subgoal by (subst swab_masks(1), simp only: bit_mask_iff possible_bit_word) auto
  subgoal by (subst swab_masks(2), simp only: bit_push_bit_iff bit_mask_iff possible_bit_word) auto
  subgoal by (subst swab_masks(3), simp only: bit_push_bit_iff bit_mask_iff possible_bit_word) auto
  subgoal by (subst swab_masks(4), simp only: bit_push_bit_iff bit_mask_iff possible_bit_word) auto
  done

lemma swab32_bit_cases: "n < 32 \<Longrightarrow> bit (swab32 w) n \<longleftrightarrow>
    24 \<le> n \<and> bit w (n - 24) \<or> 16 \<le> n \<and> n < 24 \<and> bit w (n - 8) \<or> 8 \<le> n \<and> n < 16 \<and> bit w (n + 8) \<or> n < 8 \<and> bit w (n + 24)"
  unfolding swab32_def bit_or_iff bit_push_bit_iff bit_drop_bit_eq o_apply bit_and_iff mask_bits possible_bit_word
  by (auto simp: add.commute)

lemma swab32_bit: "bit (swab32 w) n \<longleftrightarrow> n < 32 \<and> bit w (24 - 8 * (n div 8) + n mod 8)"
proof (cases "n < 32")
  case True
  then have "n div 8 < 4" "n mod 8 < 8" "n = 8 * (n div 8) + n mod 8" by (simp_all add: div_less_iff_less_mult)
  then obtain k m where n: "n = 8 * k + m" "m < 8" "k < 4" by blast
  then have k: "k = 0 \<or> k = 1 \<or> k = 2 \<or> k = 3" by auto
  have nd: "n div 8 = k" "n mod 8 = m" using n by auto
  have "bit (swab32 w) n \<longleftrightarrow> bit w (24 - 8 * k + m)"
    unfolding swab32_bit_cases [OF True] using k n by (auto simp: ac_simps)
  then show ?thesis using True unfolding nd by simp
next
  case False
  then show ?thesis using bit_imp_le_length [of "swab32 w" n] by auto
qed

lemma swab32_xor: "swab32 (a XOR b) = swab32 a XOR swab32 b"
  by (rule bit_eqI) (auto simp: swab32_bit bit_xor_iff)

lemma swab32_swab32 [simp]: "swab32 (swab32 w) = w"
proof (rule bit_eqI)
  fix n assume "possible_bit TYPE(u32) n"
  then have "n < 32" by simp
  then consider "n < 8" | "8 \<le> n" "n < 16" | "16 \<le> n" "n < 24" | "24 \<le> n" "n < 32" by linarith
  then show "bit (swab32 (swab32 w)) n = bit w n" by cases (auto simp: swab32_bit_cases)
qed

lemma swab32_shift: "(\<And>i. i < 8 \<Longrightarrow> \<not> bit w i) \<Longrightarrow> swab32 (push_bit 8 (swab32 w)) = drop_bit 8 w"
proof (rule bit_eqI)
  fix n assume z: "\<And>i. i < 8 \<Longrightarrow> \<not> bit w i" and "possible_bit TYPE(u32) n"
  then have n: "n < 32" by simp
  define k where "k = n div 8"
  define m where "m = n mod 8"
  have km: "n = 8 * k + m" "m < 8" "k < 4" using n by (simp_all add: k_def m_def div_less_iff_less_mult)
  then have k: "k = 0 \<or> k = 1 \<or> k = 2 \<or> k = 3" by auto
  have "bit (swab32 (push_bit 8 (swab32 w))) n = bit (push_bit 8 (swab32 w)) (24 - 8 * k + m)"
    using n by (simp add: swab32_bit k_def m_def)
  also have "\<dots> = (k < 3 \<and> bit (swab32 w) (16 - 8 * k + m))" using k km(2) by (auto simp: bit_push_bit_iff)
  also have "\<dots> = (k < 3 \<and> bit w (8 * k + m + 8))" using k km(2) by (auto simp: swab32_bit_cases ac_simps)
  also have "\<dots> = bit (drop_bit 8 w) n"
    using km bit_imp_le_length [of w "8 * k + m + 8"] by (auto simp: bit_drop_bit_eq ac_simps)
  finally show "bit (swab32 (push_bit 8 (swab32 w))) n = bit (drop_bit 8 w) n" .
qed

subsection \<open>What the loops compute\<close>

text \<open>
  A table for eight bits: \<open>G\<close> is the effect of eight bit steps on the state, which is linear and only shifts
  a state whose low byte is zero, and entry \<open>x\<close> is its effect on \<open>x\<close>.
\<close>

locale crc_table =
  fixes tab :: "u32 list" and G :: "u32 \<Rightarrow> u32"
  assumes lin: "G (a XOR b) = G a XOR G b"
    and shift: "(\<And>i. i < 8 \<Longrightarrow> \<not> bit w i) \<Longrightarrow> G w = drop_bit 8 w"
    and entry: "x < 256 \<Longrightarrow> tab ! x = G (of_nat x)"
begin

lemma do_crc0: "DO_CRC tab c 0 = G c"
proof -
  have "c AND 255 = take_bit 8 c" by (simp add: take_bit_eq_mask mask_eq_exp_minus_1)
  moreover have "unat (take_bit 8 c) < 256" by (simp add: unat_take_bit')
  ultimately have "tab ! unat (c AND 255) = G (c AND 255)" by (simp add: entry)
  moreover have "G (c AND NOT (mask 8)) = drop_bit 8 (c AND NOT (mask 8))" by (rule shift) (simp add: bit_simps)
  moreover have "drop_bit 8 (c AND NOT (mask 8)) = drop_bit 8 c" by (rule bit_eqI) (auto simp: bit_simps dest: bit_imp_le_length)
  moreover have "c = (c AND 255) XOR (c AND NOT (mask 8))"
    by (rule bit_eqI) (auto simp: swab_masks(1) bit_and_iff bit_xor_iff bit_not_iff bit_mask_iff)
  then have "G c = G (c AND 255) XOR G (c AND NOT (mask 8))" by (metis lin)
  ultimately show ?thesis by (simp add: DO_CRC_def)
qed

lemma do_crc: "DO_CRC tab c (ucast (x :: u8)) = G (c XOR ucast x)"
proof -
  have "drop_bit 8 (ucast x :: u32) = 0" by (rule bit_eqI) (auto simp: bit_simps dest: bit_imp_le_length)
  then have "drop_bit 8 (c XOR ucast x) = drop_bit 8 c" by (simp add: drop_bit_xor)
  then have "DO_CRC tab c (ucast x) = DO_CRC tab (c XOR ucast x) 0" by (simp add: DO_CRC_def)
  then show ?thesis using do_crc0 by simp
qed

lemma G_shifted: "n \<le> 16 \<Longrightarrow> G (push_bit (8 + n) (ucast (x :: u8))) = push_bit n (ucast x)"
proof -
  assume n: "n \<le> 16"
  have "G (push_bit (8 + n) (ucast x)) = drop_bit 8 (push_bit (8 + n) (ucast x))" by (rule shift) (simp add: bit_simps)
  also have "\<dots> = push_bit n (ucast x)"
    using n by (intro bit_eqI) (auto simp: bit_simps dest: bit_imp_le_length)
  finally show ?thesis .
qed

lemma word_bytes: "le32_word [a, b, c, d] = ucast a XOR push_bit 8 (ucast b) XOR push_bit 16 (ucast c) XOR push_bit 24 (ucast d)"
  unfolding le32_word_def by (rule bit_eqI) (auto simp: bit_simps dest: bit_imp_le_length)

lemma do_word:
  "((\<lambda>c. DO_CRC tab c 0) ^^ 4) (crc XOR le32_word [a, b, c, d]) = crc_bytes tab crc [a, b, c, d]"
proof -
  have "((\<lambda>c. DO_CRC tab c 0) ^^ 4) w = G (G (G (G w)))" for w by (simp add: do_crc0 eval_nat_numeral)
  moreover have "G (push_bit 8 (ucast x)) = ucast x" "G (push_bit 16 (ucast x)) = push_bit 8 (ucast x)"
      "G (push_bit 24 (ucast x)) = push_bit 16 (ucast x)" for x :: u8
    using G_shifted [of 0 x] G_shifted [of 8 x] G_shifted [of 16 x] by simp_all
  ultimately show ?thesis unfolding word_bytes by (simp add: crc_bytes_def do_crc lin ac_simps)
qed

lemma crc_bytes_append: "crc_bytes tab crc (p @ q) = crc_bytes tab (crc_bytes tab crc p) q"
  by (simp add: crc_bytes_def)

lemma words_eq: "4 * n \<le> length p \<Longrightarrow> (case crc_words tab crc p n of (c, q) \<Rightarrow> crc_bytes tab c q) = crc_bytes tab crc p"
proof (induction n arbitrary: crc p)
  case (Suc n)
  obtain a b c d q where p: "p = [a, b, c, d] @ q"
    using Suc.prems by (auto simp: Suc_le_length_iff eval_nat_numeral)
  have "(case crc_words tab crc p (Suc n) of (c, q) \<Rightarrow> crc_bytes tab c q) =
      (case crc_words tab (crc_bytes tab crc [a, b, c, d]) q n of (c, q) \<Rightarrow> crc_bytes tab c q)"
    unfolding p by (simp add: do_word [symmetric])
  also have "\<dots> = crc_bytes tab crc p" using Suc.IH [of q] Suc.prems unfolding p crc_bytes_append by simp
  finally show ?case .
qed simp

lemma align_eq: "(case crc_align tab crc b p of (c, b', q) \<Rightarrow> crc_bytes tab c q) = crc_bytes tab crc p"
  by (induction p arbitrary: crc b) (simp_all add: crc_bytes_def Let_def)

lemma body_eq: "crc_body tab crc b p = foldl (\<lambda>c x. G (c XOR ucast x)) crc p"
proof -
  have "crc_body tab crc b p = crc_bytes tab crc p"
  proof -
    define r where "r = (if b mod 4 \<noteq> 0 \<and> p \<noteq> [] then crc_align tab crc b p else (crc, b, p))"
    have r: "(case r of (c, b', q) \<Rightarrow> crc_bytes tab c q) = crc_bytes tab crc p" by (simp add: r_def align_eq)
    obtain c1 b1 p1 where r1: "r = (c1, b1, p1)" by (cases r)
    have "(case (if length p1 \<ge> 4 then crc_words tab c1 p1 (length p1 div 4) else (c1, p1)) of (c, q) \<Rightarrow> crc_bytes tab c q)
        = crc_bytes tab c1 p1"
      using words_eq [of "length p1 div 4" p1 c1] by simp
    then show ?thesis using r unfolding crc_body_def r_def [symmetric] r1 by simp
  qed
  then show ?thesis by (simp add: crc_bytes_def do_crc)
qed

end

lemma be_eight_low:
  assumes "\<And>i. i < 8 \<Longrightarrow> \<not> bit w i" shows "swab32 ((be_step ^^ 8) (swab32 w)) = drop_bit 8 w"
proof -
  have "(be_step ^^ 8) (swab32 w) = push_bit 8 (swab32 w)"
    by (rule be_steps_shift) (use assms in \<open>auto simp: swab32_bit_cases\<close>)
  then show ?thesis using swab32_shift [OF assms] by simp
qed

lemma swab32_byte: "x < 256 \<Longrightarrow> swab32 (of_nat x) = push_bit 24 (of_nat x)"
proof (rule bit_eqI)
  fix n assume x: "x < 256" and "possible_bit TYPE(u32) n"
  then have n: "n < 32" by simp
  have z: "\<not> bit (of_nat x :: u32) i" if "8 \<le> i" for i
  proof -
    have "x < 2 ^ i" using x that power_increasing [of 8 i "2 :: nat"] by simp
    then show ?thesis unfolding bit_of_nat_iff by (simp add: bit_iff_odd)
  qed
  then show "bit (swab32 (of_nat x)) n = bit (push_bit 24 (of_nat x :: u32)) n"
    using n unfolding swab32_bit_cases [OF n] bit_push_bit_iff by auto
qed

interpretation le8: crc_table crc32table_le "le_step ^^ 8"
proof unfold_locales
  show "crc32table_le ! x = (le_step ^^ 8) (of_nat x)" if "x < 256" for x
    using le_table_ok [OF that] by (simp add: le_entry_def)
qed (rule le_steps_xor, rule le_steps_shift)

interpretation be8: crc_table crc32table_be "\<lambda>w. swab32 ((be_step ^^ 8) (swab32 w))"
proof unfold_locales
  show "crc32table_be ! x = swab32 ((be_step ^^ 8) (swab32 (of_nat x)))" if "x < 256" for x
    using be_table_ok [OF that] swab32_byte [OF that] by (simp add: be_entry_def)
  show "swab32 ((be_step ^^ 8) (swab32 w)) = drop_bit 8 w" if "\<And>i. i < 8 \<Longrightarrow> \<not> bit w i" for w
    by (rule be_eight_low [OF that])
qed (simp add: swab32_xor be_steps_xor)

lemma swab32_ucast: "swab32 (ucast (x :: u8)) = push_bit 24 (ucast x)"
proof -
  have "unat x < 256" using unsigned_less [of x] by simp
  moreover have "(of_nat (unat x) :: u32) = ucast x" by (simp add: unsigned_of_nat of_nat_unat)
  ultimately show ?thesis using swab32_byte [of "unat x"] by simp
qed

lemma crc32_le_eq: "crc32_le crc b p = crc32_le_1 crc p"
  by (simp add: crc32_le_def crc32_le_1_def le8.body_eq)

lemma crc32_be_eq: "crc32_be crc b p = crc32_be_1 crc p"
proof -
  have "swab32 (foldl (\<lambda>c x. swab32 ((be_step ^^ 8) (swab32 (c XOR ucast x)))) (swab32 crc) p) =
      foldl (\<lambda>c x. (be_step ^^ 8) (c XOR push_bit 24 (ucast x))) crc p"
    by (induction p arbitrary: crc) (simp_all add: swab32_xor swab32_ucast)
  then show ?thesis by (simp add: crc32_be_def crc32_be_1_def be8.body_eq)
qed

text \<open>A few bits at a time: the table lookups are steps of \<open>k\<close> bits.\<close>

lemma le_lookup:
  assumes "k \<le> 32" shows "drop_bit k c XOR crc32init_le k ! unat (take_bit k c) = (le_step ^^ k) c"
proof -
  have "unat (take_bit k c) < 2 ^ k" by (simp add: unat_take_bit')
  then have "crc32init_le k ! unat (take_bit k c) = (le_step ^^ k) (take_bit k c)"
    using crc32init_le_eq [OF assms] by (simp add: le_entry_def)
  moreover have "(le_step ^^ k) (c AND NOT (mask k)) = drop_bit k (c AND NOT (mask k))"
    by (rule le_steps_shift) (simp add: bit_simps)
  moreover have "drop_bit k (c AND NOT (mask k)) = drop_bit k c"
    by (rule bit_eqI) (auto simp: bit_simps dest: bit_imp_le_length)
  moreover have "c = take_bit k c XOR (c AND NOT (mask k))" by (rule bit_eqI) (auto simp: bit_simps)
  then have "(le_step ^^ k) c = (le_step ^^ k) (take_bit k c) XOR (le_step ^^ k) (c AND NOT (mask k))" by (metis le_steps_xor)
  ultimately show ?thesis by (simp add: xor.commute)
qed

lemma be_lookup:
  assumes "k \<le> 32" shows "push_bit k c XOR crc32init_be k ! unat (drop_bit (32 - k) c) = (be_step ^^ k) c"
proof -
  let ?h = "push_bit (32 - k) (drop_bit (32 - k) c)" and ?l = "take_bit (32 - k) c"
  have "unat (drop_bit (32 - k) c) < 2 ^ k"
  proof -
    have "unat c < 2 ^ k * 2 ^ (32 - k)" using unsigned_less [of c] assms by (simp flip: power_add)
    moreover have "unat (drop_bit (32 - k) c) = unat c div 2 ^ (32 - k)" by (metis drop_bit_eq_div unat_drop_bit_eq)
    ultimately show ?thesis by (simp add: div_less_iff_less_mult)
  qed
  then have "crc32init_be k ! unat (drop_bit (32 - k) c) = (be_step ^^ k) ?h"
    using crc32init_be_eq [OF assms] by (simp add: be_entry_def)
  moreover have "(be_step ^^ k) ?l = push_bit k ?l"
    by (rule be_steps_shift) (use assms in \<open>auto simp: bit_take_bit_iff\<close>)
  moreover have "push_bit k ?l = push_bit k c"
    using assms by (intro bit_eqI) (auto simp: bit_push_bit_iff bit_take_bit_iff)
  moreover have "c = ?h XOR ?l"
    by (rule bit_eqI) (auto simp: bit_xor_iff bit_push_bit_iff bit_drop_bit_eq bit_take_bit_iff)
  then have "(be_step ^^ k) c = (be_step ^^ k) ?h XOR (be_step ^^ k) ?l" by (metis be_steps_xor)
  ultimately show ?thesis by (simp add: xor.commute)
qed

lemma and_take_bit: "c AND 15 = take_bit 4 c" "c AND 3 = take_bit 2 c" for c :: u32
  by (simp_all add: take_bit_eq_mask mask_eq_exp_minus_1)

lemma compiled_tables: "crc32table_le = crc32init_le 8" "crc32table_be = map swab32 (crc32init_be 8)"
proof -
  have "length (crc32init_le 8) = 256" "length (crc32init_be 8) = 256"
    using crc32init_le_eq [of 8 0] crc32init_be_eq [of 8 0] by simp_all
  moreover have "length crc32table_le = 256" "length crc32table_be = 256" by (simp_all add: crc32table_le_def crc32table_be_def)
  ultimately show "crc32table_le = crc32init_le 8" "crc32table_be = map swab32 (crc32init_be 8)"
    using le_table_ok be_table_ok crc32init_le_eq [of 8] crc32init_be_eq [of 8] by (auto intro!: nth_equalityI)
qed

text \<open>
  C26.  All the variants of the CRC agree, for both bit orders: the byte-at-a-time code with its compiled tables, which
  reads aligned words and treats the bytes before and behind them one by one, returns the CRC of
  the bit-at-a-time code, whatever the address of the buffer and its length; so do the
  variants that take two and four bits at a time with generated tables.  The compiled tables are the
  output of the generator.
\<close>

theorem crc32_variants_equal:
  "crc32_le crc b p = crc32_le_1 crc p \<and> crc32_le_4 crc p = crc32_le_1 crc p \<and> crc32_le_2 crc p = crc32_le_1 crc p \<and>
   crc32_be crc b p = crc32_be_1 crc p \<and> crc32_be_4 crc p = crc32_be_1 crc p \<and> crc32_be_2 crc p = crc32_be_1 crc p \<and>
   crc32table_le = crc32init_le 8 \<and> crc32table_be = map swab32 (crc32init_be 8)"
proof -
  have 8: "((f ^^ 4) ^^ 2) = (f ^^ 8)" "((f ^^ 2) ^^ 4) = (f ^^ 8)" for f :: "u32 \<Rightarrow> u32" by (simp_all add: funpow_mult)
  have le: "(\<lambda>c. drop_bit 4 c XOR crc32init_le 4 ! unat (c AND 15)) = le_step ^^ 4"
      "(\<lambda>c. drop_bit 2 c XOR crc32init_le 2 ! unat (c AND 3)) = le_step ^^ 2"
    using le_lookup [of 4] le_lookup [of 2] by (simp_all add: and_take_bit fun_eq_iff)
  have be: "(\<lambda>c. push_bit 4 c XOR crc32init_be 4 ! unat (drop_bit 28 c)) = be_step ^^ 4"
      "(\<lambda>c. push_bit 2 c XOR crc32init_be 2 ! unat (drop_bit 30 c)) = be_step ^^ 2"
    using be_lookup [of 4] be_lookup [of 2] by (simp_all add: fun_eq_iff)
  show ?thesis
    using crc32_le_eq crc32_be_eq compiled_tables
    by (simp add: crc32_le_4_def crc32_le_2_def crc32_be_4_def crc32_be_2_def le be 8 crc32_le_1_def crc32_be_1_def)
qed

subsection \<open>The self-test of the code\<close>

lemma le_word_steps: "crc32_le_1 crc [a, b, c, d] = ((le_step ^^ 8) ^^ 4) (crc XOR le32_word [a, b, c, d])"
proof -
  have "((\<lambda>c. DO_CRC crc32table_le c 0) ^^ 4) w = ((le_step ^^ 8) ^^ 4) w" for w
    by (simp add: le8.do_crc0 eval_nat_numeral)
  then show ?thesis
    using le8.do_word [of crc a b c d] le8.do_crc by (simp add: crc_bytes_def crc32_le_1_def)
qed

lemma le_residue: "crc32_le_1 crc (p @ store_le (crc32_le_1 crc p)) = 0"
proof -
  have s: "le32_word (store_le x) = x" for x
  proof (rule bit_eqI)
    fix n assume "possible_bit TYPE(u32) n"
    then have "n < 32" by simp
    then consider "n < 8" | "8 \<le> n" "n < 16" | "16 \<le> n" "n < 24" | "24 \<le> n" "n < 32" by linarith
    then show "bit (le32_word (store_le x)) n = bit x n"
      by cases (auto simp: le32_word_def store_le_def bit_simps)
  qed
  have "crc32_le_1 x (store_le x) = 0" for x
    using le_word_steps [of x] s [of x] steps_zero(1) by (simp add: store_le_def funpow_mult)
  then show ?thesis by (simp add: crc32_le_1_def)
qed

text \<open>Each line of \<open>bitreverse\<close> exchanges neighbouring groups of \<open>k\<close> bits.\<close>

definition swap_index :: "nat \<Rightarrow> nat \<Rightarrow> nat" where
  "swap_index k n = (if even (n div k) then n + k else n - k)"

lemma swap_groups:
  fixes x :: "'a::len word"
  assumes "\<And>n. n < LENGTH('a) \<Longrightarrow> bit m1 n = even (n div k)" "\<And>n. n < LENGTH('a) \<Longrightarrow> bit m2 n = odd (n div k)" "n < LENGTH('a)"
  shows "bit ((drop_bit k x AND m1) OR (push_bit k x AND m2)) n = bit x (swap_index k n)"
proof -
  have "k \<le> n" if "odd (n div k)" using that by (metis div_less even_zero not_le)
  then show ?thesis
    using assms by (auto simp: bit_or_iff bit_and_iff bit_push_bit_iff bit_drop_bit_eq swap_index_def add.commute)
qed

definition positions :: "nat list" where
  "positions = [0, 1, 2, 3, 4, 5, 6, 7, 8, 9, 10, 11, 12, 13, 14, 15, 16, 17, 18, 19, 20, 21, 22, 23, 24, 25, 26, 27, 28, 29, 30, 31]"

lemma below_32: "\<forall>n \<in> set positions. P n \<Longrightarrow> n < 32 \<Longrightarrow> P n"
proof -
  assume a: "\<forall>n \<in> set positions. P n" "n < 32"
  have "[0..<32] = positions" by (simp add: positions_def upt_rec)
  then have "n \<in> set positions" using a(2) by (metis atLeastLessThan_iff set_upt zero_le)
  then show "P n" using a(1) by blast
qed

lemma reverse_masks:
  "\<forall>n \<in> set positions. bit (0x00ff00ff :: u32) n = even (n div 8) \<and> bit (0xff00ff00 :: u32) n = odd (n div 8)"
  "\<forall>n \<in> set positions. bit (0x0f0f0f0f :: u32) n = even (n div 4) \<and> bit (0xf0f0f0f0 :: u32) n = odd (n div 4)"
  "\<forall>n \<in> set positions. bit (0x33333333 :: u32) n = even (n div 2) \<and> bit (0xcccccccc :: u32) n = odd (n div 2)"
  "\<forall>n \<in> set positions. bit (0x55555555 :: u32) n = even (n div 1) \<and> bit (0xaaaaaaaa :: u32) n = odd (n div 1)"
  by (simp_all add: positions_def)

lemma swap_xor: "swap_index (2 ^ j) n = n XOR 2 ^ j"
  by (simp add: swap_index_def xor_exp_nat)

lemma swap_below: "\<forall>n \<in> set positions. n XOR 31 = 31 - n \<and> n XOR 1 < 32 \<and> n XOR 2 < 32 \<and> n XOR 4 < 32 \<and> n XOR 8 < 32"
  by (simp add: positions_def)

lemma bitreverse_bit:
  assumes "n < 32" shows "bit (bitreverse x) n = bit x (31 - n)"
proof -
  define x1 where "x1 = drop_bit 16 x OR push_bit 16 x"
  define x2 where "x2 = (drop_bit 8 x1 AND 0x00ff00ff) OR (push_bit 8 x1 AND 0xff00ff00)"
  define x3 where "x3 = (drop_bit 4 x2 AND 0x0f0f0f0f) OR (push_bit 4 x2 AND 0xf0f0f0f0)"
  define x4 where "x4 = (drop_bit 2 x3 AND 0x33333333) OR (push_bit 2 x3 AND 0xcccccccc)"
  define x5 where "x5 = (drop_bit 1 x4 AND 0x55555555) OR (push_bit 1 x4 AND 0xaaaaaaaa)"
  have 1: "bit x1 m = bit x (swap_index 16 m)" if "m < 32" for m
  proof -
    have "m < 16 \<longleftrightarrow> even (m div 16)" using that by (cases "m < 16") (auto simp: le_div_geq)
    then show ?thesis
      using that bit_imp_le_length [of x "m + 16"]
      by (auto simp: x1_def swap_index_def bit_or_iff bit_push_bit_iff bit_drop_bit_eq add.commute)
  qed
  have 2: "bit x2 m = bit x1 (swap_index 8 m)" if "m < 32" for m
    unfolding x2_def by (rule swap_groups) (use below_32 [OF reverse_masks(1)] that in auto)
  have 3: "bit x3 m = bit x2 (swap_index 4 m)" if "m < 32" for m
    unfolding x3_def by (rule swap_groups) (use below_32 [OF reverse_masks(2)] that in auto)
  have 4: "bit x4 m = bit x3 (swap_index 2 m)" if "m < 32" for m
    unfolding x4_def by (rule swap_groups) (use below_32 [OF reverse_masks(3)] that in auto)
  have m5: "bit (0x55555555 :: u32) m = even (m div 1)" "bit (0xaaaaaaaa :: u32) m = odd (m div 1)" if "m < LENGTH(32)" for m
    using below_32 [OF reverse_masks(4), of m] that by simp_all
  have 5: "bit x5 m = bit x4 (swap_index 1 m)" if "m < 32" for m
    unfolding x5_def by (rule swap_groups [OF m5]) (use that in simp_all)
  have "bitreverse x = x5" unfolding bitreverse_def x5_def x4_def x3_def x2_def x1_def Let_def by (rule refl)
  moreover have "swap_index 1 m = m XOR 1" "swap_index 2 m = m XOR 2" "swap_index 4 m = m XOR 4" "swap_index 8 m = m XOR 8"
      "swap_index 16 m = m XOR 16" for m
    using swap_xor [of 0 m] swap_xor [of 1 m] swap_xor [of 2 m] swap_xor [of 3 m] swap_xor [of 4 m] by simp_all
  moreover have "m XOR 1 < 32" "m XOR 2 < 32" "m XOR 4 < 32" "m XOR 8 < 32" if "m < 32" for m :: nat
    using below_32 [OF swap_below that] by simp_all
  ultimately have "bit (bitreverse x) n = bit x (((((n XOR 1) XOR 2) XOR 4) XOR 8) XOR 16)" using assms 1 2 3 4 5 by simp
  also have "((((n XOR 1) XOR 2) XOR 4) XOR 8) XOR 16 = n XOR 31" by (simp add: xor.assoc)
  finally show ?thesis using below_32 [OF swap_below assms] by simp
qed

lemma bitreverse_bitreverse: "bitreverse (bitreverse x) = x"
  by (rule bit_eqI) (simp add: bitreverse_bit)

lemma bitreverse_xor: "bitreverse (a XOR b) = bitreverse a XOR bitreverse b"
  by (rule bit_eqI) (simp add: bitreverse_bit bit_xor_iff)

lemma bitreverse_poly: "bitreverse CRCPOLY_BE = CRCPOLY_LE"
  by (simp add: bitreverse_def CRCPOLY_BE_def CRCPOLY_LE_def Let_def)

lemma bitreverse_step: "bitreverse (be_step w) = le_step (bitreverse w)"
proof -
  have "bitreverse (push_bit 1 w) = drop_bit 1 (bitreverse w)"
  proof (rule bit_eqI)
    fix n assume "possible_bit TYPE(u32) n"
    then have n: "n < 32" by simp
    show "bit (bitreverse (push_bit 1 w)) n = bit (drop_bit 1 (bitreverse w)) n"
    proof (cases "n = 31")
      case True
      then show ?thesis using bit_imp_le_length [of "bitreverse w" 32] unfolding bitreverse_bit [OF n] bit_drop_bit_eq bit_push_bit_iff by auto
    next
      case False
      then have "Suc n < 32" using n by simp
      then show ?thesis unfolding bitreverse_bit [OF n] bit_drop_bit_eq bit_push_bit_iff o_apply by (auto simp: bitreverse_bit)
    qed
  qed
  moreover have "bit (bitreverse w) 0 = bit w 31" by (simp add: bitreverse_bit)
  moreover have "bitreverse 0 = 0" by (simp add: bitreverse_def)
  ultimately show ?thesis unfolding be_step_bit le_step_bit bitreverse_xor by (simp add: bitreverse_poly)
qed

lemma bitreverse_steps: "bitreverse ((be_step ^^ n) w) = (le_step ^^ n) (bitreverse w)"
  by (induction n) (simp_all add: bitreverse_step)

lemma byte_masks:
  "\<forall>n \<in> {0, 1, 2, 3, 4, 5, 6, 7}. bit (0x33 :: u8) n = even (n div 2) \<and> bit (0xcc :: u8) n = odd (n div 2) \<and>
     bit (0x55 :: u8) n = even (n div 1) \<and> bit (0xaa :: u8) n = odd (n div 1) \<and> ((n XOR 1) XOR 2) XOR 4 = 7 - n \<and>
     n XOR 1 < 8 \<and> n XOR 2 < 8"
  by simp

lemma below_8: "n < 8 \<Longrightarrow> n \<in> {0, 1, 2, 3, 4, 5, 6, 7 :: nat}"
  by auto

lemma bytereverse_bit:
  assumes "n < 8" shows "bit (bytereverse x) n = bit x (7 - n)"
proof -
  define x1 where "x1 = drop_bit 4 x OR push_bit 4 x"
  define x2 where "x2 = (drop_bit 2 x1 AND 0x33) OR (push_bit 2 x1 AND 0xcc)"
  define x3 where "x3 = (drop_bit 1 x2 AND 0x55) OR (push_bit 1 x2 AND 0xaa)"
  have m: "bit (0x33 :: u8) m = even (m div 2)" "bit (0xcc :: u8) m = odd (m div 2)" "bit (0x55 :: u8) m = even (m div 1)"
      "bit (0xaa :: u8) m = odd (m div 1)" "((m XOR 1) XOR 2) XOR 4 = 7 - m" "m XOR 1 < 8" "m XOR 2 < 8" if "m < 8" for m
    using bspec [OF byte_masks below_8 [OF that]] by auto
  have 1: "bit x1 m = bit x (swap_index 4 m)" if "m < 8" for m
  proof -
    have "m < 4 \<longleftrightarrow> even (m div 4)" using that by (cases "m < 4") (auto simp: le_div_geq)
    then show ?thesis
      using that bit_imp_le_length [of x "m + 4"]
      by (auto simp: x1_def swap_index_def bit_or_iff bit_push_bit_iff bit_drop_bit_eq add.commute)
  qed
  have 2: "bit x2 m = bit x1 (swap_index 2 m)" if "m < 8" for m
    unfolding x2_def by (rule swap_groups) (use m that in auto)
  have m3: "bit (0x55 :: u8) m = even (m div 1)" "bit (0xaa :: u8) m = odd (m div 1)" if "m < LENGTH(8)" for m
    using m(3,4) [of m] that by simp_all
  have 3: "bit x3 m = bit x2 (swap_index 1 m)" if "m < 8" for m
    unfolding x3_def by (rule swap_groups [OF m3]) (use that in simp_all)
  have "bytereverse x = x3" unfolding bytereverse_def x3_def x2_def x1_def Let_def by (rule refl)
  moreover have "swap_index 1 m = m XOR 1" "swap_index 2 m = m XOR 2" "swap_index 4 m = m XOR 4" for m
    using swap_xor [of 0 m] swap_xor [of 1 m] swap_xor [of 2 m] by simp_all
  ultimately have "bit (bytereverse x) n = bit x (((n XOR 1) XOR 2) XOR 4)" using assms 1 2 3 m by simp
  then show ?thesis using m(5) [OF assms] by simp
qed

lemma reverse_byte: "bitreverse (push_bit 24 (ucast x)) = ucast (bytereverse x)"
proof (rule bit_eqI)
  fix n assume "possible_bit TYPE(u32) n"
  then have n: "n < 32" by simp
  show "bit (bitreverse (push_bit 24 (ucast x))) n = bit (ucast (bytereverse x) :: u32) n"
  proof (cases "n < 8")
    case True
    then show ?thesis by (auto simp: bitreverse_bit bytereverse_bit bit_push_bit_iff bit_ucast_iff)
  next
    case False
    then show ?thesis using n bit_imp_le_length [of "bytereverse x" n] by (auto simp: bitreverse_bit bit_push_bit_iff bit_ucast_iff)
  qed
qed

lemma bitreverse_crc: "crc32_le_1 (bitreverse crc) (map bytereverse p) = bitreverse (crc32_be_1 crc p)"
proof -
  have "foldl (\<lambda>c x. (le_step ^^ 8) (c XOR ucast x)) (bitreverse crc) (map bytereverse p) =
      bitreverse (foldl (\<lambda>c x. (be_step ^^ 8) (c XOR push_bit 24 (ucast x))) crc p)"
  proof (induction p arbitrary: crc)
    case (Cons a p)
    have "bitreverse ((be_step ^^ 8) (crc XOR push_bit 24 (ucast a))) = (le_step ^^ 8) (bitreverse crc XOR ucast (bytereverse a))"
      by (simp only: bitreverse_steps bitreverse_xor reverse_byte)
    then show ?case using Cons.IH [of "(be_step ^^ 8) (crc XOR push_bit 24 (ucast a))"] by simp
  qed simp
  then show ?thesis by (simp add: crc32_le_1_def crc32_be_1_def)
qed

lemma reverse_stored: "map bytereverse (store_be x) = store_le (bitreverse x)"
proof -
  have "bytereverse (ucast (drop_bit k x)) = ucast (drop_bit (24 - k) (bitreverse x))" if "k \<le> 24" for k
  proof (rule bit_eqI)
    fix n assume "possible_bit TYPE(u8) n"
    then have "n < 8" by simp
    moreover have "31 - (24 - k + n) = k + (7 - n)" "24 - k + n < 32" using that \<open>n < 8\<close> by auto
    ultimately show "bit (bytereverse (ucast (drop_bit k x))) n = bit (ucast (drop_bit (24 - k) (bitreverse x)) :: u8) n"
      by (auto simp: bytereverse_bit bit_ucast_iff bit_drop_bit_eq bitreverse_bit ac_simps)
  qed
  from this [of 24] this [of 16] this [of 8] this [of 0] show ?thesis by (simp add: store_be_def store_le_def)
qed

lemma be_residue: "crc32_be_1 crc (p @ store_be (crc32_be_1 crc p)) = 0"
proof -
  have "bitreverse (crc32_be_1 crc (p @ store_be (crc32_be_1 crc p))) =
      crc32_le_1 (bitreverse crc) (map bytereverse p @ store_le (crc32_le_1 (bitreverse crc) (map bytereverse p)))"
    by (simp add: bitreverse_crc [symmetric] reverse_stored)
  also have "\<dots> = 0" by (rule le_residue)
  finally have "bitreverse (bitreverse (crc32_be_1 crc (p @ store_be (crc32_be_1 crc p)))) = bitreverse 0" by simp
  then show ?thesis by (simp add: bitreverse_bitreverse) (simp add: bitreverse_def)
qed

lemma le_split: "crc32_le_1 crc (p @ q) = crc32_le_1 (crc32_le_1 crc p) q" "crc32_be_1 crc (p @ q) = crc32_be_1 (crc32_be_1 crc p) q"
  by (simp_all add: crc32_le_1_def crc32_be_1_def)

lemma ucast_xor: "ucast (a XOR b :: u8) = (ucast a XOR ucast b :: u32)"
  by (rule bit_eqI) (simp add: bit_xor_iff bit_ucast_iff)

lemma take_drop_all: "i \<le> n \<Longrightarrow> take i p @ take (n - i) (drop i p) = take n p"
  by (metis le_add_diff_inverse take_add)

lemma be_xor: "length p = length q \<Longrightarrow>
  crc32_be_1 (c XOR d) (map2 (XOR) p q) = crc32_be_1 c p XOR crc32_be_1 d q"
proof (induction p q arbitrary: c d rule: list_induct2)
  case (Cons x p y q)
  have "(be_step ^^ 8) ((c XOR d) XOR push_bit 24 (ucast (x XOR y))) =
      (be_step ^^ 8) (c XOR push_bit 24 (ucast x)) XOR (be_step ^^ 8) (d XOR push_bit 24 (ucast y))"
    by (simp add: ucast_xor be_steps_xor push_bit_xor ac_simps)
  then show ?case using Cons.IH by (simp add: crc32_be_1_def)
qed (simp add: crc32_be_1_def)

text \<open>No check of \<open>test_step\<close> fails on a buffer with room for the CRC.\<close>

lemma test_step_ok:
  assumes "len + 4 \<le> length buf"
  shows "\<exists>buf'. test_step init b buf len = ([], bitreverse (crc32_be_1 init (take len buf)), buf') \<and> length buf' = length buf"
proof -
  define p crc1 where "p = take len buf" and "crc1 = crc32_be_1 init p"
  define buf1 where "buf1 = put_bytes len (store_be crc1) buf"
  define buf2 where "buf2 = put_bytes 0 (map bytereverse (take (len + 4) buf1)) buf1"
  have lp: "length p = len" using assms by (simp add: p_def)
  have b1: "take (len + 4) buf1 = p @ store_be crc1"
    using lp by (simp add: buf1_def put_bytes_def store_be_def p_def [symmetric])
  have l1: "length buf1 = length buf" using assms by (simp add: buf1_def put_bytes_def store_be_def)
  have b2: "take (len + 4) buf2 = map bytereverse p @ store_le (bitreverse crc1)"
  proof -
    have "take (len + 4) buf2 = map bytereverse (take (len + 4) buf1)" using assms l1 by (simp add: buf2_def put_bytes_def)
    then show ?thesis unfolding b1 by (simp add: reverse_stored)
  qed
  have p2: "take len buf2 = map bytereverse p"
    using assms lp b1 by (simp add: buf2_def put_bytes_def take_map)
  have l2: "length buf2 = length buf" using assms l1 by (simp add: buf2_def put_bytes_def)
  have le: "crc32_le_1 (bitreverse init) (map bytereverse p) = bitreverse crc1" by (simp add: crc1_def bitreverse_crc)
  have be0: "crc32_be_1 init (take (len + 4) buf1) = 0" using be_residue [of init p] b1 by (simp add: crc1_def)
  have le0: "crc32_le_1 (bitreverse init) (take (len + 4) buf2) = 0"
    using le_residue [of "bitreverse init" "map bytereverse p"] b2 le by simp
  have "crc32_be_1 (crc32_be_1 init (take i buf1)) (take (len + 4 - i) (drop i buf1)) = 0"
      "crc32_le_1 (crc32_le_1 (bitreverse init) (take i buf2)) (take (len + 4 - i) (drop i buf2)) = 0" if "i < len + 5" for i
    using that be0 le0 take_drop_all [of i "len + 4" buf1] take_drop_all [of i "len + 4" buf2] by (simp_all add: le_split [symmetric])
  then have "test_step init b buf len = ([], bitreverse crc1, buf2)"
    unfolding test_step_def Let_def crc32_le_eq crc32_be_eq p_def [symmetric] crc1_def [symmetric] buf1_def [symmetric]
      buf2_def [symmetric] p2 le be0 le0 bitreverse_bitreverse
    by (simp cong: map_cong)
  then show ?thesis using l2 by (simp add: p_def crc1_def)
qed

lemma main_loop_ok:
  assumes "\<And>i. length (fst (random i)) = i \<and> length (snd (random i)) = i"
    and "length buf1 = N + 4" "length buf2 = N + 4" "length buf3 = N + 4" "\<forall>i \<in> set is. i \<le> N"
  shows "main_loop b1 b2 b3 random is (buf1, buf2, buf3) = []"
  using assms(2-)
proof (induction "is" arbitrary: buf1 buf2 buf3)
  case (Cons i "is")
  define p q where "p = fst (random i)" and "q = snd (random i)"
  have l: "length p = i" "length q = i" using assms(1) by (simp_all add: p_def q_def)
  define c1 where "c1 = put_bytes 0 p buf1"
  define c2 where "c2 = put_bytes 0 q buf2"
  define c3 where "c3 = put_bytes 0 (map2 (XOR) (take i c1) (take i c2)) buf3"
  have t: "take i c1 = p" "take i c2 = q" using l by (simp_all add: c1_def c2_def put_bytes_def)
  then have t3: "take i c3 = map2 (XOR) p q" using l by (simp add: c3_def put_bytes_def)
  have "length c1 = N + 4" "length c2 = N + 4" "length c3 = N + 4"
    using Cons.prems l t by (simp_all add: c1_def c2_def c3_def put_bytes_def)
  moreover from this obtain d1 d2 d3 where
    "test_step 0 b1 c1 i = ([], bitreverse (crc32_be_1 0 p), d1)" "length d1 = N + 4"
    "test_step 0 b2 c2 i = ([], bitreverse (crc32_be_1 0 q), d2)" "length d2 = N + 4"
    "test_step 0 b3 c3 i = ([], bitreverse (crc32_be_1 0 (map2 (XOR) p q)), d3)" "length d3 = N + 4"
    using test_step_ok [of i c1 0 b1] test_step_ok [of i c2 0 b2] test_step_ok [of i c3 0 b3] Cons.prems t t3 by auto
  moreover have "bitreverse (crc32_be_1 0 (map2 (XOR) p q)) = bitreverse (crc32_be_1 0 p) XOR bitreverse (crc32_be_1 0 q)"
    using be_xor [of p q 0 0] l by (simp add: bitreverse_xor)
  ultimately show ?case
    using Cons.IH [of d1 d2 d3] Cons.prems
    by (simp add: p_def [symmetric] q_def [symmetric] c1_def [symmetric] c2_def [symmetric] c3_def [symmetric])
qed simp

text \<open>
  The test program never reports a failure, whatever the random numbers and wherever the buffers
  lie: a message with its CRC appended has CRC 0, also when it is computed in two pieces, for both bit
  orders, the two orders are mirror images of each other, and the CRC of the exclusive or of two messages is the
  exclusive or of their CRCs.
\<close>

theorem crc32_selftest:
  assumes "\<And>i. length (fst (random i)) = i \<and> length (snd (random i)) = i"
    and "length buf1 = 68" "length buf2 = 68" "length buf3 = 68"
  shows "crc_main b1 b2 b3 random (buf1, buf2, buf3) = []"
  unfolding crc_main_def by (rule main_loop_ok [where N = 64]) (use assms in auto)

theorem crc32_selftest_witness:
  "crc_main 1 2 3 (\<lambda>i. (replicate i 0xa5, replicate i 0x5a)) (replicate 68 0, replicate 68 1, replicate 68 2) = []"
  by (rule crc32_selftest) simp_all

end
