(* ===== verification/KString.thy ===== *)
theory KString
  imports KPrelude
begin

text \<open>
  The portable string and memory functions (lib/string.c) on a byte-addressed memory: pointers are
  addresses, NULL is 0, and a store replaces the byte at an address, so overlapping areas behave as
  they do in the code.  A loop that looks for a terminator is a partial function: None is a run
  that never ends.  An \<open>int\<close> character that the code converts to a byte is a byte here; \<open>memscan\<close>
  compares the \<open>int\<close> itself.  \<open>strnicmp\<close>, which needs the character tables of lib/ctype.c, is not
  modelled.
\<close>

type_synonym memory = "nat \<Rightarrow> u8"

subsection \<open>Lengths\<close>

partial_function (option) find_nul :: "memory \<Rightarrow> nat \<Rightarrow> nat option" where
  "find_nul m sc = (if m sc \<noteq> 0 then find_nul m (sc + 1) else Some sc)"

definition strlen :: "memory \<Rightarrow> nat \<Rightarrow> nat option" where
  "strlen m s = map_option (\<lambda>sc. sc - s) (find_nul m s)"

fun strnlen_loop :: "memory \<Rightarrow> nat \<Rightarrow> nat \<Rightarrow> nat" where
  "strnlen_loop m sc 0 = sc"
| "strnlen_loop m sc (Suc count) = (if m sc \<noteq> 0 then strnlen_loop m (sc + 1) count else sc)"

definition strnlen :: "memory \<Rightarrow> nat \<Rightarrow> nat \<Rightarrow> nat" where
  "strnlen m s count = strnlen_loop m s count - s"

subsection \<open>Copying strings\<close>

partial_function (option) copy_str :: "memory \<Rightarrow> nat \<Rightarrow> nat \<Rightarrow> memory option" where
  "copy_str m dest src =
     (let m' = m(dest := m src) in if m' dest \<noteq> 0 then copy_str m' (dest + 1) (src + 1) else Some m')"

definition strcpy :: "memory \<Rightarrow> nat \<Rightarrow> nat \<Rightarrow> (nat \<times> memory) option" where
  "strcpy m dest src = map_option (Pair dest) (copy_str m dest src)"

fun strncpy_loop :: "memory \<Rightarrow> nat \<Rightarrow> nat \<Rightarrow> nat \<Rightarrow> memory" where
  "strncpy_loop m dest src 0 = m"
| "strncpy_loop m dest src (Suc count) =
     (let m' = m(dest := m src) in if m' dest \<noteq> 0 then strncpy_loop m' (dest + 1) (src + 1) count else m')"

definition strncpy :: "memory \<Rightarrow> nat \<Rightarrow> nat \<Rightarrow> nat \<Rightarrow> nat \<times> memory" where
  "strncpy m dest src count = (dest, strncpy_loop m dest src count)"

definition strcat :: "memory \<Rightarrow> nat \<Rightarrow> nat \<Rightarrow> (nat \<times> memory) option" where
  "strcat m dest src =
     (case find_nul m dest of
        None \<Rightarrow> None
      | Some e \<Rightarrow> map_option (Pair dest) (copy_str m e src))"

text \<open>The second loop of \<open>strncat\<close>, entered with a positive count.\<close>

fun strncat_loop :: "memory \<Rightarrow> nat \<Rightarrow> nat \<Rightarrow> nat \<Rightarrow> memory" where
  "strncat_loop m dest src 0 = m"
| "strncat_loop m dest src (Suc count) =
     (let m' = m(dest := m src) in
      if m' dest \<noteq> 0 then
        (if count = 0 then m'(dest + 1 := 0) else strncat_loop m' (dest + 1) (src + 1) count)
      else m')"

definition strncat :: "memory \<Rightarrow> nat \<Rightarrow> nat \<Rightarrow> nat \<Rightarrow> (nat \<times> memory) option" where
  "strncat m dest src count =
     (if count \<noteq> 0 then
        (case find_nul m dest of
           None \<Rightarrow> None
         | Some e \<Rightarrow> Some (dest, strncat_loop m e src count))
      else Some (dest, m))"

subsection \<open>Comparing\<close>

text \<open>\<open>(signed char)(*cs - *ct)\<close>: the difference modulo 256, read as a signed byte.\<close>

definition char_diff :: "u8 \<Rightarrow> u8 \<Rightarrow> int" where
  "char_diff a b = sint (a - b)"

partial_function (option) strcmp :: "memory \<Rightarrow> nat \<Rightarrow> nat \<Rightarrow> int option" where
  "strcmp m cs ct =
     (let res = char_diff (m cs) (m ct) in
      if res \<noteq> 0 \<or> m cs = 0 then Some res else strcmp m (cs + 1) (ct + 1))"

fun strncmp_loop :: "memory \<Rightarrow> nat \<Rightarrow> nat \<Rightarrow> int \<Rightarrow> nat \<Rightarrow> int" where
  "strncmp_loop m cs ct res 0 = res"
| "strncmp_loop m cs ct res (Suc count) =
     (let res' = char_diff (m cs) (m ct) in
      if res' \<noteq> 0 \<or> m cs = 0 then res' else strncmp_loop m (cs + 1) (ct + 1) res' count)"

definition strncmp :: "memory \<Rightarrow> nat \<Rightarrow> nat \<Rightarrow> nat \<Rightarrow> int" where
  "strncmp m cs ct count = strncmp_loop m cs ct 0 count"

fun memcmp :: "memory \<Rightarrow> nat \<Rightarrow> nat \<Rightarrow> nat \<Rightarrow> int" where
  "memcmp m su1 su2 0 = 0"
| "memcmp m su1 su2 (Suc count) =
     (let res = uint (m su1) - uint (m su2) in if res \<noteq> 0 then res else memcmp m (su1 + 1) (su2 + 1) count)"

subsection \<open>Searching\<close>

partial_function (option) strchr :: "memory \<Rightarrow> nat \<Rightarrow> u8 \<Rightarrow> nat option" where
  "strchr m s c = (if m s \<noteq> c then (if m s = 0 then Some NULL else strchr m (s + 1) c) else Some s)"

text \<open>The downward loop of \<open>strrchr\<close> from \<open>s + i\<close>.\<close>

fun strrchr_loop :: "memory \<Rightarrow> nat \<Rightarrow> u8 \<Rightarrow> nat \<Rightarrow> nat" where
  "strrchr_loop m s c 0 = (if m s = c then s else NULL)"
| "strrchr_loop m s c (Suc i) = (if m (s + Suc i) = c then s + Suc i else strrchr_loop m s c i)"

definition strrchr :: "memory \<Rightarrow> nat \<Rightarrow> u8 \<Rightarrow> nat option" where
  "strrchr m s c = map_option (strrchr_loop m s c) (strlen m s)"

text \<open>The inner loops: the position in the set \<open>a\<close> where the byte is found, or its terminator.\<close>

partial_function (option) find_in :: "memory \<Rightarrow> u8 \<Rightarrow> nat \<Rightarrow> nat option" where
  "find_in m c a = (if m a \<noteq> 0 then (if c = m a then Some a else find_in m c (a + 1)) else Some a)"

partial_function (option) strspn_loop :: "memory \<Rightarrow> nat \<Rightarrow> nat \<Rightarrow> nat \<Rightarrow> nat option" where
  "strspn_loop m acc p count =
     (if m p \<noteq> 0 then
        (case find_in m (m p) acc of
           None \<Rightarrow> None
         | Some a \<Rightarrow> if m a = 0 then Some count else strspn_loop m acc (p + 1) (count + 1))
      else Some count)"

definition strspn :: "memory \<Rightarrow> nat \<Rightarrow> nat \<Rightarrow> nat option" where
  "strspn m s acc = strspn_loop m acc s 0"

partial_function (option) strpbrk :: "memory \<Rightarrow> nat \<Rightarrow> nat \<Rightarrow> nat option" where
  "strpbrk m sc1 ct =
     (if m sc1 \<noteq> 0 then
        (case find_in m (m sc1) ct of
           None \<Rightarrow> None
         | Some a \<Rightarrow> if m a \<noteq> 0 then Some sc1 else strpbrk m (sc1 + 1) ct)
      else Some NULL)"

text \<open>\<open>strtok\<close> keeps its position in the static variable \<open>___strtok\<close>.\<close>

definition strtok :: "memory \<Rightarrow> nat \<Rightarrow> nat \<Rightarrow> nat \<Rightarrow> (nat \<times> nat \<times> memory) option" where
  "strtok m static s ct =
     (let sbegin = (if s \<noteq> NULL then s else static) in
      if sbegin = NULL then Some (NULL, static, m)
      else
        (case strspn m sbegin ct of
           None \<Rightarrow> None
         | Some n \<Rightarrow>
             let b = sbegin + n in
             if m b = 0 then Some (NULL, NULL, m)
             else
               (case strpbrk m b ct of
                  None \<Rightarrow> None
                | Some send \<Rightarrow>
                    if send \<noteq> NULL \<and> m send \<noteq> 0 then Some (b, send + 1, m(send := 0)) else Some (b, send, m))))"

definition strsep :: "memory \<Rightarrow> nat \<Rightarrow> nat \<Rightarrow> (nat \<times> nat \<times> memory) option" where
  "strsep m s ct =
     (if s = NULL then Some (NULL, s, m)
      else
        (case strpbrk m s ct of
           None \<Rightarrow> None
         | Some e \<Rightarrow> if e \<noteq> NULL then Some (s, e + 1, m(e := 0)) else Some (s, e, m)))"

subsection \<open>Memory areas\<close>

fun memset_loop :: "memory \<Rightarrow> nat \<Rightarrow> u8 \<Rightarrow> nat \<Rightarrow> memory" where
  "memset_loop m xs c 0 = m"
| "memset_loop m xs c (Suc count) = memset_loop (m(xs := c)) (xs + 1) c count"

definition memset :: "memory \<Rightarrow> nat \<Rightarrow> u8 \<Rightarrow> nat \<Rightarrow> nat \<times> memory" where
  "memset m s c count = (s, memset_loop m s c count)"

fun copy_up :: "memory \<Rightarrow> nat \<Rightarrow> nat \<Rightarrow> nat \<Rightarrow> memory" where
  "copy_up m tmp s 0 = m"
| "copy_up m tmp s (Suc count) = copy_up (m(tmp := m s)) (tmp + 1) (s + 1) count"

fun copy_down :: "memory \<Rightarrow> nat \<Rightarrow> nat \<Rightarrow> nat \<Rightarrow> memory" where
  "copy_down m tmp s 0 = m"
| "copy_down m tmp s (Suc count) = copy_down (m(tmp - 1 := m (s - 1))) (tmp - 1) (s - 1) count"

definition bcopy :: "memory \<Rightarrow> nat \<Rightarrow> nat \<Rightarrow> nat \<Rightarrow> memory" where
  "bcopy m src dest count = copy_up m dest src count"

definition memcpy :: "memory \<Rightarrow> nat \<Rightarrow> nat \<Rightarrow> nat \<Rightarrow> nat \<times> memory" where
  "memcpy m dest src count = (dest, copy_up m dest src count)"

definition memmove :: "memory \<Rightarrow> nat \<Rightarrow> nat \<Rightarrow> nat \<Rightarrow> nat \<times> memory" where
  "memmove m dest src count =
     (dest, if dest \<le> src then copy_up m dest src count
            else copy_down m (dest + count) (src + count) count)"

fun memscan :: "memory \<Rightarrow> nat \<Rightarrow> int \<Rightarrow> nat \<Rightarrow> nat" where
  "memscan m p c 0 = p"
| "memscan m p c (Suc sz) = (if uint (m p) = c then p else memscan m (p + 1) c sz)"

fun memchr :: "memory \<Rightarrow> nat \<Rightarrow> u8 \<Rightarrow> nat \<Rightarrow> nat" where
  "memchr m p c 0 = NULL"
| "memchr m p c (Suc n) = (if c = m p then p else memchr m (p + 1) c n)"

text \<open>The loop of \<open>strstr\<close>, which it enters only with \<open>l2\<close> positive.\<close>

function strstr_loop :: "memory \<Rightarrow> nat \<Rightarrow> nat \<Rightarrow> nat \<Rightarrow> nat \<Rightarrow> nat" where
  "strstr_loop m s1 s2 l1 l2 =
     (if l1 \<ge> l2 \<and> l2 \<noteq> 0 then
        (if memcmp m s1 s2 l2 = 0 then s1 else strstr_loop m (s1 + 1) s2 (l1 - 1) l2)
      else NULL)"
  by pat_completeness auto
termination
  by (relation "measure (\<lambda>(m, s1, s2, l1, l2). l1)") auto

declare strstr_loop.simps [simp del]

definition strstr :: "memory \<Rightarrow> nat \<Rightarrow> nat \<Rightarrow> nat option" where
  "strstr m s1 s2 =
     (case strlen m s2 of
        None \<Rightarrow> None
      | Some l2 \<Rightarrow>
          if l2 = 0 then Some s1
          else map_option (\<lambda>l1. strstr_loop m s1 s2 l1 l2) (strlen m s1))"

subsection \<open>Memory areas\<close>

lemma copy_up_eq:
  "d \<le> s \<or> s + n \<le> d \<Longrightarrow>
   copy_up m d s n a = (if d \<le> a \<and> a < d + n then m (s + (a - d)) else m a)"
proof (induction n arbitrary: m d s)
  case (Suc n)
  have "d + 1 \<le> s + 1 \<or> s + 1 + n \<le> d + 1" using Suc.prems by auto
  then have "copy_up m d s (Suc n) a =
      (if d + 1 \<le> a \<and> a < d + 1 + n then (m(d := m s)) (s + 1 + (a - (d + 1))) else (m(d := m s)) a)"
    unfolding copy_up.simps by (rule Suc.IH)
  moreover have "s + 1 + (a - (d + 1)) = s + (a - d)" "s + (a - d) \<noteq> d" if "d + 1 \<le> a" "a < d + 1 + n"
    using that Suc.prems by auto
  ultimately show ?case by auto
qed auto

lemma copy_down_eq:
  "s < d \<Longrightarrow>
   copy_down m (d + n) (s + n) n a = (if d \<le> a \<and> a < d + n then m (s + (a - d)) else m a)"
proof (induction n arbitrary: m)
  case (Suc n)
  have "copy_down m (d + Suc n) (s + Suc n) (Suc n) a =
      (if d \<le> a \<and> a < d + n then (m(d + n := m (s + n))) (s + (a - d)) else (m(d + n := m (s + n))) a)"
    using Suc.IH [OF Suc.prems, of "m(d + n := m (s + n))"] by (simp only: copy_down.simps add_Suc_right diff_Suc_1)
  moreover have "s + (a - d) \<noteq> d + n" if "d \<le> a" "a < d + n" using that Suc.prems by auto
  ultimately show ?case by auto
qed auto

lemma memset_loop_eq: "memset_loop m s c n a = (if s \<le> a \<and> a < s + n then c else m a)"
  by (induction n arbitrary: m s) auto

definition bytes :: "memory \<Rightarrow> nat \<Rightarrow> nat \<Rightarrow> u8 list" where
  "bytes m p n = map m [p..<p + n]"

lemma bytes_0 [simp]: "bytes m p 0 = []"
  by (simp add: bytes_def)

lemma bytes_Suc [simp]: "bytes m p (Suc n) = m p # bytes m (p + 1) n"
  unfolding bytes_def by (subst upt_conv_Cons) (auto simp del: upt_Suc)

lemma bytes_eq_iff: "bytes m p n = bytes m' q n \<longleftrightarrow> (\<forall>i < n. m (p + i) = m' (q + i))"
  by (simp add: bytes_def list_eq_iff_nth_eq)

lemma memscan_eq: "memscan m p c n = p + length (takeWhile (\<lambda>x. uint x \<noteq> c) (bytes m p n))"
  by (induction n arbitrary: p) auto

lemma memchr_eq:
  "memchr m p c n =
     (if c \<in> set (bytes m p n) then p + length (takeWhile (\<lambda>x. x \<noteq> c) (bytes m p n)) else NULL)"
  by (induction n arbitrary: p) auto

lemma strnlen_loop_eq: "strnlen_loop m p n = p + length (takeWhile (\<lambda>x. x \<noteq> 0) (bytes m p n))"
  by (induction n arbitrary: p) auto

lemma memcmp_zero: "memcmp m p q n = 0 \<longleftrightarrow> (\<forall>i < n. m (p + i) = m (q + i))"
proof (induction n arbitrary: p q)
  case (Suc n)
  have "(\<forall>i < Suc n. m (p + i) = m (q + i)) \<longleftrightarrow> m p = m q \<and> (\<forall>i < n. m (p + 1 + i) = m (q + 1 + i))"
    by (auto simp: less_Suc_eq_0_disj)
  moreover have "uint (m p) - uint (m q) = 0 \<longleftrightarrow> m p = m q" by (simp add: word_uint_eq_iff)
  ultimately show ?case using Suc.IH [of "p + 1" "q + 1"] by (simp only: memcmp.simps Let_def) auto
qed simp

text \<open>
  C27.  The operations on memory areas, for every address and count.  \<open>memmove\<close> copes with
  overlapping areas: the destination holds the bytes the source held before the call and every other
  byte is unchanged; \<open>memcpy\<close> and \<open>bcopy\<close> do the same unless the destination starts inside the
  source.  \<open>memset\<close> fills exactly the area; \<open>memcmp\<close> is 0 exactly for equal areas; \<open>memscan\<close> and
  \<open>memchr\<close> find the first byte equal to \<open>c\<close>, and return the address behind the area and NULL when
  there is none; \<open>strnlen\<close> counts the bytes before the first zero byte of the area.
\<close>

theorem mem_areas_correct:
  "memmove m dest src n =
     (dest, \<lambda>a. if dest \<le> a \<and> a < dest + n then m (src + (a - dest)) else m a) \<and>
   (src < dest \<and> dest < src + n \<or>
     memcpy m dest src n = memmove m dest src n \<and> bcopy m src dest n = snd (memmove m dest src n)) \<and>
   memset m dest c n = (dest, \<lambda>a. if dest \<le> a \<and> a < dest + n then c else m a) \<and>
   (memcmp m dest src n = 0 \<longleftrightarrow> bytes m dest n = bytes m src n) \<and>
   memscan m src v n = src + length (takeWhile (\<lambda>x. uint x \<noteq> v) (bytes m src n)) \<and>
   memchr m src c n = (if c \<in> set (bytes m src n) then src + length (takeWhile (\<lambda>x. x \<noteq> c) (bytes m src n)) else NULL) \<and>
   strnlen m src n = length (takeWhile (\<lambda>x. x \<noteq> 0) (bytes m src n))"
proof -
  have 1: "snd (memmove m dest src n) a = (if dest \<le> a \<and> a < dest + n then m (src + (a - dest)) else m a)" for a
    by (simp add: memmove_def copy_up_eq copy_down_eq)
  have 2: "copy_up m dest src n a = snd (memmove m dest src n) a" if "\<not> (src < dest \<and> dest < src + n)" for a
    unfolding 1 using that by (intro copy_up_eq) auto
  have 3: "src < dest \<and> dest < src + n \<or>
     memcpy m dest src n = memmove m dest src n \<and> bcopy m src dest n = snd (memmove m dest src n)"
    using 2 by (auto simp: memcpy_def bcopy_def prod_eq_iff memmove_def)
  have 4: "memmove m dest src n =
     (dest, \<lambda>a. if dest \<le> a \<and> a < dest + n then m (src + (a - dest)) else m a)"
    using 1 by (simp add: prod_eq_iff fun_eq_iff) (simp add: memmove_def)
  have 5: "memset m dest c n = (dest, \<lambda>a. if dest \<le> a \<and> a < dest + n then c else m a)"
    by (simp add: memset_def memset_loop_eq fun_eq_iff)
  have 6: "memcmp m dest src n = 0 \<longleftrightarrow> bytes m dest n = bytes m src n"
    by (simp add: memcmp_zero bytes_eq_iff)
  have 7: "strnlen m src n = length (takeWhile (\<lambda>x. x \<noteq> 0) (bytes m src n))"
    by (simp add: strnlen_def strnlen_loop_eq)
  show ?thesis using 3 4 5 6 7 memscan_eq memchr_eq by blast
qed

subsection \<open>C strings\<close>

primrec cstr :: "memory \<Rightarrow> nat \<Rightarrow> u8 list \<Rightarrow> bool" where
  "cstr m p [] \<longleftrightarrow> m p = 0"
| "cstr m p (c # s) \<longleftrightarrow> m p = c \<and> c \<noteq> 0 \<and> cstr m (p + 1) s"

lemma cstr_nth: "cstr m p s \<longleftrightarrow> (\<forall>i < length s. m (p + i) = s ! i \<and> s ! i \<noteq> 0) \<and> m (p + length s) = 0"
proof (induction s arbitrary: p)
  case (Cons c s)
  have "(\<forall>i < length (c # s). m (p + i) = (c # s) ! i \<and> (c # s) ! i \<noteq> 0) \<longleftrightarrow>
      m p = c \<and> c \<noteq> 0 \<and> (\<forall>i < length s. m (p + 1 + i) = s ! i \<and> s ! i \<noteq> 0)"
    by (auto simp: nth_Cons less_Suc_eq_0_disj split: nat.splits)
  then show ?case using Cons.IH [of "p + 1"] by auto
qed simp

lemma cstr_unique: "cstr m p s \<Longrightarrow> cstr m p t \<Longrightarrow> s = t"
proof (induction s arbitrary: p t)
  case Nil
  then show ?case by (cases t) simp_all
next
  case (Cons c s)
  then show ?case by (cases t) auto
qed

lemma cstr_cong: "\<forall>a. p \<le> a \<and> a \<le> p + length s \<longrightarrow> m a = m' a \<Longrightarrow> cstr m p s = cstr m' p s"
  by (simp add: cstr_nth)

lemma cstr_suffix: "cstr m p (s @ t) \<Longrightarrow> cstr m (p + length s) t"
proof (induction s arbitrary: p)
  case (Cons c s)
  then show ?case using Cons.IH [of "p + 1"] by simp
qed simp

lemma find_nul_eq: "cstr m p s \<Longrightarrow> find_nul m p = Some (p + length s)"
proof (induction s arbitrary: p)
  case Nil
  then show ?case by (simp add: find_nul.simps)
next
  case (Cons c s)
  then show ?case by (subst find_nul.simps) simp
qed

lemma strlen_eq: "cstr m p s \<Longrightarrow> strlen m p = Some (length s)"
  by (simp add: strlen_def find_nul_eq)

lemma strchr_eq:
  "cstr m p s \<Longrightarrow> strchr m p c =
     Some (if c \<in> set s then p + length (takeWhile (\<lambda>x. x \<noteq> c) s) else if c = 0 then p + length s else NULL)"
proof (induction s arbitrary: p)
  case Nil
  then show ?case by (subst strchr.simps) auto
next
  case (Cons x s)
  then show ?case by (subst strchr.simps) auto
qed

lemma strrchr_loop_eq:
  "(\<exists>j \<le> i. m (s + j) = c \<and> strrchr_loop m s c i = s + j \<and> (\<forall>k. j < k \<and> k \<le> i \<longrightarrow> m (s + k) \<noteq> c)) \<or>
   strrchr_loop m s c i = NULL \<and> (\<forall>k \<le> i. m (s + k) \<noteq> c)"
proof (induction i)
  case (Suc i)
  show ?case
  proof (cases "m (s + Suc i) = c")
    case True
    then show ?thesis by auto
  next
    case False
    then have "strrchr_loop m s c (Suc i) = strrchr_loop m s c i" by simp
    then show ?thesis using Suc False by (metis le_Suc_eq)
  qed
qed auto

definition occurs :: "u8 list \<Rightarrow> u8 list \<Rightarrow> nat \<Rightarrow> bool" where
  "occurs s t i \<longleftrightarrow> i + length t \<le> length s \<and> take (length t) (drop i s) = t"

lemma occurs_Cons: "occurs (c # s) t (Suc i) = occurs s t i"
  by (simp add: occurs_def)

lemma memcmp_occurs:
  assumes "cstr m p s" "cstr m q t" "length t \<le> length s"
  shows "memcmp m p q (length t) = 0 \<longleftrightarrow> occurs s t 0"
proof -
  have "memcmp m p q (length t) = 0 \<longleftrightarrow> (\<forall>i < length t. s ! i = t ! i)"
    using assms by (auto simp: memcmp_zero cstr_nth)
  then show ?thesis using assms(3) by (auto simp: occurs_def list_eq_iff_nth_eq)
qed

lemma strstr_loop_eq:
  assumes "cstr m q t" "t \<noteq> []"
  shows "cstr m p s \<Longrightarrow>
    (\<exists>i. strstr_loop m p q (length s) (length t) = p + i \<and> occurs s t i \<and> (\<forall>j < i. \<not> occurs s t j)) \<or>
    strstr_loop m p q (length s) (length t) = NULL \<and> (\<forall>i. \<not> occurs s t i)"
proof (induction s arbitrary: p)
  case Nil
  then show ?case using assms(2) by (subst strstr_loop.simps) (simp add: occurs_def)
next
  case (Cons c s)
  show ?case
  proof (cases "length t \<le> length (c # s)")
    case False
    then show ?thesis by (subst strstr_loop.simps) (auto simp: occurs_def strstr_loop.simps)
  next
    case True
    show ?thesis
    proof (cases "occurs (c # s) t 0")
      case True': True
      then have "strstr_loop m p q (length (c # s)) (length t) = p"
        using memcmp_occurs [OF Cons.prems assms(1) True] True assms(2) by (subst strstr_loop.simps) simp
      then show ?thesis using True' by (intro disjI1 exI [of _ 0]) simp
    next
      case False
      then have l: "strstr_loop m p q (length (c # s)) (length t) = strstr_loop m (p + 1) q (length s) (length t)"
        using memcmp_occurs [OF Cons.prems assms(1) True] True assms(2) by (subst strstr_loop.simps) simp
      have all: "(\<forall>i. \<not> occurs (c # s) t i) \<longleftrightarrow> (\<forall>i. \<not> occurs s t i)"
        using False by (metis occurs_Cons not0_implies_Suc)
      have least: "occurs (c # s) t (Suc i) \<and> (\<forall>j < Suc i. \<not> occurs (c # s) t j)"
        if "occurs s t i" "\<forall>j < i. \<not> occurs s t j" for i
        using that False by (auto simp: occurs_Cons less_Suc_eq_0_disj)
      have "cstr m (p + 1) s" using Cons.prems by simp
      then show ?thesis using Cons.IH [of "p + 1"] least unfolding l all by (metis add.assoc plus_1_eq_Suc)
    qed
  qed
qed

text \<open>
  Searching in a terminated string: \<open>strlen\<close> returns its length, \<open>strchr\<close> the first place of a
  character (the terminator counts), \<open>strrchr\<close> the last one, and \<open>strstr\<close> the first place where the
  second string occurs; NULL stands for none.  All of them return.
\<close>

theorem str_search_correct:
  assumes "cstr m p s" "cstr m q t"
  shows "strlen m p = Some (length s) \<and>
    strchr m p c = Some (if c \<in> set s then p + length (takeWhile (\<lambda>x. x \<noteq> c) s)
      else if c = 0 then p + length s else NULL) \<and>
    (\<exists>r. strrchr m p c = Some r \<and>
      ((\<exists>j \<le> length s. (s @ [0]) ! j = c \<and> r = p + j \<and> (\<forall>k. j < k \<and> k \<le> length s \<longrightarrow> (s @ [0]) ! k \<noteq> c)) \<or>
       r = NULL \<and> c \<notin> set (s @ [0]))) \<and>
    (\<exists>r. strstr m p q = Some r \<and>
      ((\<exists>i. r = p + i \<and> occurs s t i \<and> (\<forall>j < i. \<not> occurs s t j)) \<or> r = NULL \<and> (\<forall>i. \<not> occurs s t i)))"
proof -
  have b: "m (p + k) = (s @ [0]) ! k" if "k \<le> length s" for k
    using assms(1) that by (auto simp: cstr_nth nth_append le_less)
  have mem: "c \<in> set (s @ [0]) \<longleftrightarrow> (\<exists>k \<le> length s. (s @ [0]) ! k = c)"
    by (metis in_set_conv_nth length_append_singleton less_Suc_eq_le)
  have 3: "\<exists>r. strrchr m p c = Some r \<and>
      ((\<exists>j \<le> length s. (s @ [0]) ! j = c \<and> r = p + j \<and> (\<forall>k. j < k \<and> k \<le> length s \<longrightarrow> (s @ [0]) ! k \<noteq> c)) \<or>
       r = NULL \<and> c \<notin> set (s @ [0]))"
    unfolding mem using strrchr_loop_eq [of "length s" m p c] b by (auto simp: strrchr_def strlen_eq [OF assms(1)])
  have 4: "\<exists>r. strstr m p q = Some r \<and>
      ((\<exists>i. r = p + i \<and> occurs s t i \<and> (\<forall>j < i. \<not> occurs s t j)) \<or> r = NULL \<and> (\<forall>i. \<not> occurs s t i))"
  proof (cases "t = []")
    case True
    then show ?thesis
      using assms by (auto simp: strstr_def strlen_eq [OF assms(2)] occurs_def intro!: disjI1 exI [of _ 0])
  next
    case False
    then show ?thesis
      using strstr_loop_eq [OF assms(2) False assms(1)] by (simp add: strstr_def strlen_eq [OF assms(1)] strlen_eq [OF assms(2)])
  qed
  show ?thesis using strlen_eq [OF assms(1)] strchr_eq [OF assms(1)] 3 4 by blast
qed

subsection \<open>Copying, splitting and comparing\<close>

lemma cstr_store: "x < p \<or> p + length s < x \<Longrightarrow> cstr (m(x := v)) p s = cstr m p s"
  by (rule cstr_cong) auto

lemma copy_str_eq:
  "cstr m src s \<Longrightarrow> dest \<le> src \<or> src + length s < dest \<Longrightarrow>
   copy_str m dest src = Some (copy_up m dest src (length s + 1))"
proof (induction s arbitrary: m dest src)
  case Nil
  then show ?case by (subst copy_str.simps) simp
next
  case (Cons c s)
  have "cstr (m(dest := m src)) (src + 1) s" using Cons.prems by (subst cstr_store) auto
  moreover have "dest + 1 \<le> src + 1 \<or> src + 1 + length s < dest + 1" using Cons.prems(2) by auto
  ultimately have "copy_str (m(dest := m src)) (dest + 1) (src + 1) =
      Some (copy_up (m(dest := m src)) (dest + 1) (src + 1) (length s + 1))"
    by (rule Cons.IH)
  then show ?case using Cons.prems(1) by (subst copy_str.simps) simp
qed

lemma strncpy_loop_eq:
  "cstr m src s \<Longrightarrow> dest \<le> src \<or> src + length s < dest \<Longrightarrow>
   strncpy_loop m dest src n = copy_up m dest src (min n (length s + 1))"
proof (induction s arbitrary: m dest src n)
  case Nil
  then show ?case by (cases n) simp_all
next
  case (Cons c s)
  show ?case
  proof (cases n)
    case (Suc k)
    have "cstr (m(dest := m src)) (src + 1) s" using Cons.prems by (subst cstr_store) auto
    moreover have "dest + 1 \<le> src + 1 \<or> src + 1 + length s < dest + 1" using Cons.prems(2) by auto
    ultimately have "strncpy_loop (m(dest := m src)) (dest + 1) (src + 1) k =
        copy_up (m(dest := m src)) (dest + 1) (src + 1) (min k (length s + 1))"
      by (rule Cons.IH)
    then show ?thesis using Cons.prems(1) Suc by simp
  qed simp
qed

lemma strncat_loop_eq:
  "cstr m src s \<Longrightarrow> dest \<le> src \<or> src + length s < dest \<Longrightarrow> 0 < n \<Longrightarrow>
   strncat_loop m dest src n =
     (if length s < n then copy_up m dest src (length s + 1) else (copy_up m dest src n)(dest + n := 0))"
proof (induction s arbitrary: m dest src n)
  case Nil
  then show ?case by (cases n) simp_all
next
  case (Cons c s)
  then obtain k where k: "n = Suc k" by (cases n) auto
  define m1 where "m1 = m(dest := m src)"
  have 1: "cstr m1 (src + 1) s" using Cons.prems unfolding m1_def by (subst cstr_store) auto
  have 2: "dest + 1 \<le> src + 1 \<or> src + 1 + length s < dest + 1" using Cons.prems(2) by auto
  have c: "m1 dest \<noteq> 0" using Cons.prems(1) by (simp add: m1_def)
  have u: "copy_up m dest src (Suc j) = copy_up m1 (dest + 1) (src + 1) j" for j by (simp add: m1_def)
  have l: "strncat_loop m dest src n = (if k = 0 then m1(dest + 1 := 0) else strncat_loop m1 (dest + 1) (src + 1) k)"
    using c unfolding k strncat_loop.simps m1_def [symmetric] Let_def by simp
  show ?case
  proof (cases "k = 0")
    case True
    then have "strncat_loop m dest src n = m1(dest + 1 := 0)" unfolding l by (rule if_P)
    moreover have "copy_up m dest src n = m1" using u [of 0] True k by (simp only: copy_up.simps)
    moreover have "\<not> length (c # s) < n" "dest + n = dest + 1" using True k by simp_all
    ultimately show ?thesis by presburger
  next
    case False
    then have "strncat_loop m dest src n = (if length s < k then copy_up m1 (dest + 1) (src + 1) (length s + 1)
        else (copy_up m1 (dest + 1) (src + 1) k)(dest + 1 + k := 0))"
      using l Cons.IH [OF 1 2, of k] by simp
    then show ?thesis using u [of k] u [of "length s + 1"] k by simp
  qed
qed

lemma cstr_copied:
  assumes "cstr m src s" "d \<le> src \<or> src + length s < d"
  shows "cstr (copy_up m d src (length s + 1)) d s"
proof -
  have "copy_up m d src (length s + 1) (d + i) = m (src + i)" if "i \<le> length s" for i
    using that assms(2) by (subst copy_up_eq) auto
  then show ?thesis using assms(1) by (simp add: cstr_nth del: copy_up.simps)
qed

lemma cstr_append: "cstr m p (a @ s) \<longleftrightarrow> (\<forall>i < length a. m (p + i) = a ! i \<and> a ! i \<noteq> 0) \<and> cstr m (p + length a) s"
proof (induction a arbitrary: p)
  case (Cons c a)
  have "(\<forall>i < length (c # a). m (p + i) = (c # a) ! i \<and> (c # a) ! i \<noteq> 0) \<longleftrightarrow>
      m p = c \<and> c \<noteq> 0 \<and> (\<forall>i < length a. m (p + 1 + i) = a ! i \<and> a ! i \<noteq> 0)"
    by (auto simp: less_Suc_eq_0_disj)
  then show ?case using Cons.IH [of "p + 1"] by auto
qed simp

definition only_changed :: "memory \<Rightarrow> nat \<Rightarrow> nat \<Rightarrow> memory \<Rightarrow> bool" where
  "only_changed m d n m' \<longleftrightarrow> (\<forall>x. x < d \<or> d + n \<le> x \<longrightarrow> m' x = m x)"

lemma appended:
  assumes "cstr m dest a" "cstr m' (dest + length a) t" "only_changed m (dest + length a) k m'"
  shows "cstr m' dest (a @ t)"
proof -
  have "\<forall>i < length a. m' (dest + i) = a ! i \<and> a ! i \<noteq> 0"
    using assms(1,3) by (simp add: cstr_nth only_changed_def)
  then show ?thesis using assms(2) by (simp add: cstr_append)
qed

text \<open>
  Copying and appending strings that do not overlap: \<open>strcpy\<close> makes the destination the source
  string, \<open>strcat\<close> appends it, \<open>strncat\<close> appends its first \<open>n\<close> characters and always terminates the
  result, \<open>strncpy\<close> copies the string with its terminator or its first \<open>n\<close> bytes and does not pad;
  no byte outside the result changes.
\<close>

theorem str_copy_correct:
  assumes "cstr m src s" "cstr m dest a" "dest + length a + length s < src \<or> src + length s < dest"
  shows "(\<exists>m1. strcpy m dest src = Some (dest, m1) \<and> cstr m1 dest s \<and> only_changed m dest (length s + 1) m1) \<and>
    (\<exists>m2. strcat m dest src = Some (dest, m2) \<and> cstr m2 dest (a @ s) \<and>
       only_changed m (dest + length a) (length s + 1) m2) \<and>
    (\<exists>m3. strncat m dest src n = Some (dest, m3) \<and> cstr m3 dest (a @ take n s) \<and>
       only_changed m (dest + length a) (min n (length s) + 1) m3) \<and>
    (\<exists>m4. strncpy m dest src n = (dest, m4) \<and>
       (\<forall>x. m4 x = (if dest \<le> x \<and> x < dest + min n (length s + 1) then m (src + (x - dest)) else m x)))"
proof -
  let ?e = "dest + length a"
  have d: "dest \<le> src \<or> src + length s < dest" "?e \<le> src \<or> src + length s < ?e" using assms(3) by auto
  have oc: "only_changed m x k (copy_up m x src k)" if "x \<le> src \<or> src + k \<le> x" for x k
    using that by (simp add: only_changed_def copy_up_eq)
  have e: "find_nul m dest = Some ?e" by (rule find_nul_eq [OF assms(2)])
  have 1: "strcpy m dest src = Some (dest, copy_up m dest src (length s + 1))"
    by (simp add: strcpy_def copy_str_eq [OF assms(1) d(1)])
  have 2: "strcat m dest src = Some (dest, copy_up m ?e src (length s + 1))"
    by (simp add: strcat_def e copy_str_eq [OF assms(1) d(2)])
  have o2: "only_changed m ?e (length s + 1) (copy_up m ?e src (length s + 1))" using d by (intro oc) auto
  have 3: "\<exists>m3. strncat m dest src n = Some (dest, m3) \<and> cstr m3 dest (a @ take n s) \<and>
       only_changed m ?e (min n (length s) + 1) m3"
  proof (cases "n = 0 \<or> length s < n")
    case True
    then show ?thesis
      using e strncat_loop_eq [OF assms(1) d(2), of n] o2 appended [OF assms(2) cstr_copied [OF assms(1) d(2)] o2] assms(2)
      by (cases "n = 0") (simp_all add: strncat_def only_changed_def)
  next
    case False
    let ?m = "(copy_up m ?e src n)(?e + n := 0)"
    have "only_changed m ?e n (copy_up m ?e src n)" using d(2) False by (intro oc) auto
    then have o3: "only_changed m ?e (n + 1) ?m" by (simp add: only_changed_def)
    have "cstr ?m ?e (take n s)"
      using assms(1) d(2) False by (auto simp: cstr_nth copy_up_eq)
    from appended [OF assms(2) this o3] show ?thesis
      using False e o3 strncat_loop_eq [OF assms(1) d(2), of n] by (auto simp: strncat_def)
  qed
  have 4: "strncpy m dest src n = (dest, copy_up m dest src (min n (length s + 1)))"
    by (simp add: strncpy_def strncpy_loop_eq [OF assms(1) d(1)])
  have "copy_up m dest src (min n (length s + 1)) x =
      (if dest \<le> x \<and> x < dest + min n (length s + 1) then m (src + (x - dest)) else m x)" for x
    using d(1) by (intro copy_up_eq) auto
  moreover have "only_changed m dest (length s + 1) (copy_up m dest src (length s + 1))" using d by (intro oc) auto
  ultimately show ?thesis
    using 1 2 3 4 o2 cstr_copied [OF assms(1) d(1)] appended [OF assms(2) cstr_copied [OF assms(1) d(2)] o2] by blast
qed

lemma find_in_eq:
  "cstr m a d \<Longrightarrow> \<exists>b. find_in m c a = Some b \<and> (m b = 0 \<longleftrightarrow> c \<notin> set d)"
proof (induction d arbitrary: a)
  case Nil
  then show ?case by (subst find_in.simps) simp
next
  case (Cons x d)
  then show ?case using Cons.IH [of "a + 1"] by (subst find_in.simps) auto
qed

lemma strpbrk_eq:
  assumes "cstr m ct d"
  shows "cstr m p s \<Longrightarrow> strpbrk m p ct =
    Some (if \<exists>c \<in> set s. c \<in> set d then p + length (takeWhile (\<lambda>c. c \<notin> set d) s) else NULL)"
proof (induction s arbitrary: p)
  case Nil
  then show ?case by (subst strpbrk.simps) simp
next
  case (Cons x s)
  obtain b where "find_in m x ct = Some b" "m b = 0 \<longleftrightarrow> x \<notin> set d" using find_in_eq [OF assms] by blast
  then show ?case using Cons.IH [of "p + 1"] Cons.prems by (subst strpbrk.simps) auto
qed

lemma strspn_loop_eq:
  assumes "cstr m acc d"
  shows "cstr m p s \<Longrightarrow> strspn_loop m acc p n = Some (n + length (takeWhile (\<lambda>c. c \<in> set d) s))"
proof (induction s arbitrary: p n)
  case Nil
  then show ?case by (subst strspn_loop.simps) simp
next
  case (Cons x s)
  obtain b where "find_in m x acc = Some b" "m b = 0 \<longleftrightarrow> x \<notin> set d" using find_in_eq [OF assms] by blast
  then show ?case using Cons.IH [of "p + 1" "n + 1"] Cons.prems by (subst strspn_loop.simps) auto
qed

text \<open>Cutting a terminated string at its first delimiter.\<close>

definition cut_at :: "memory \<Rightarrow> nat \<Rightarrow> u8 list \<Rightarrow> u8 list \<Rightarrow> u8 list \<Rightarrow> u8 list \<Rightarrow> memory \<Rightarrow> bool" where
  "cut_at m p s d tok rest m' \<longleftrightarrow>
     (\<exists>x. s = tok @ x # rest \<and> x \<in> set d) \<and> set tok \<inter> set d = {} \<and> m' = m(p + length tok := 0) \<and>
     cstr m' p tok \<and> cstr m' (p + length tok + 1) rest"

lemma cut_at_delimiter:
  assumes "cstr m p s" "\<exists>c \<in> set s. c \<in> set d"
  shows "\<exists>tok rest m'. takeWhile (\<lambda>c. c \<notin> set d) s = tok \<and> m' = m(p + length tok := 0) \<and>
    cut_at m p s d tok rest m' \<and> m (p + length tok) \<noteq> 0"
proof -
  obtain tok where tok: "takeWhile (\<lambda>c. c \<notin> set d) s = tok" by blast
  obtain x rest where s: "s = tok @ x # rest" "x \<in> set d"
    using assms(2) unfolding tok [symmetric]
    by (metis (mono_tags, lifting) takeWhile_dropWhile_id hd_dropWhile dropWhile_eq_Nil_conv list.collapse)
  have c: "cstr m p (tok @ x # rest)" using assms(1) s(1) by simp
  then have c0: "m (p + length tok) \<noteq> 0" "cstr m (p + length tok + 1) rest" by (simp_all add: cstr_append)
  have c1: "cstr (m(p + length tok := 0)) p tok" using c unfolding cstr_append by (simp add: cstr_nth)
  have c2: "cstr (m(p + length tok := 0)) (p + length tok + 1) rest" using c0(2) by (subst cstr_store) auto
  have "set tok \<inter> set d = {}" unfolding tok [symmetric] by (auto dest: set_takeWhileD)
  then have "cut_at m p s d tok rest (m(p + length tok := 0))" unfolding cut_at_def using s c1 c2 by blast
  then show ?thesis using tok c0(1) by blast
qed

text \<open>
  \<open>strsep\<close> splits off a token: in a string with a delimiter, the first one is overwritten, the
  token before it (possibly empty) is returned and the pointer moves behind it, where the rest of the
  string still is; without one, the whole string is the token, the pointer becomes NULL and the
  memory is unchanged.
\<close>

theorem strsep_correct:
  assumes "cstr m p s" "cstr m ct d" "p \<noteq> NULL"
  shows "if \<exists>c \<in> set s. c \<in> set d
    then \<exists>tok rest m'. strsep m p ct = Some (p, p + length tok + 1, m') \<and> cut_at m p s d tok rest m'
    else strsep m p ct = Some (p, NULL, m)"
proof (cases "\<exists>c \<in> set s. c \<in> set d")
  case False
  then show ?thesis using assms(3) by (simp add: strsep_def strpbrk_eq [OF assms(2,1)])
next
  case True
  then obtain tok rest m' where t: "takeWhile (\<lambda>c. c \<notin> set d) s = tok" "m' = m(p + length tok := 0)"
      "cut_at m p s d tok rest m'"
    using cut_at_delimiter [OF assms(1)] by blast
  then have "strsep m p ct = Some (p, p + length tok + 1, m')"
    using True assms(3) by (simp add: strsep_def strpbrk_eq [OF assms(2,1)])
  then show ?thesis using True t(3) by auto
qed

text \<open>
  \<open>strtok\<close> skips the delimiters at its position and returns the token that follows: when nothing
  is left it returns NULL and forgets its position; when a delimiter ends the token it is overwritten
  and the position is behind it, where the rest of the string still is; otherwise the token reaches
  to the end of the string and the position becomes NULL.
\<close>

theorem strtok_correct:
  assumes "cstr m p s" "cstr m ct d" "p \<noteq> NULL" "s0 = p \<or> s0 = NULL \<and> static = p"
    and "lead = takeWhile (\<lambda>c. c \<in> set d) s" "s = lead @ left"
  shows "if left = [] then strtok m static s0 ct = Some (NULL, NULL, m)
    else if \<exists>c \<in> set left. c \<in> set d
    then \<exists>tok rest m'. strtok m static s0 ct = Some (p + length lead, p + length lead + length tok + 1, m') \<and>
      tok \<noteq> [] \<and> cut_at m (p + length lead) left d tok rest m'
    else strtok m static s0 ct = Some (p + length lead, NULL, m)"
proof -
  let ?b = "p + length lead"
  have sb: "(if s0 \<noteq> NULL then s0 else static) = p" using assms(3,4) by auto
  have spn: "strspn m p ct = Some (length lead)"
    by (simp add: strspn_def strspn_loop_eq [OF assms(2,1)] assms(5))
  have c: "cstr m ?b left" using assms(1,6) by (simp add: cstr_append)
  have "left = dropWhile (\<lambda>c. c \<in> set d) s" using assms(5,6) by (metis append_same_eq same_append_eq takeWhile_dropWhile_id)
  then have hd: "hd left \<notin> set d" if "left \<noteq> []" using that by (metis hd_dropWhile)
  have z: "m ?b = 0 \<longleftrightarrow> left = []" using c by (cases left) auto
  have k: "strtok m static s0 ct = (if left = [] then Some (NULL, NULL, m)
      else case strpbrk m ?b ct of None \<Rightarrow> None
        | Some e \<Rightarrow> if e \<noteq> NULL \<and> m e \<noteq> 0 then Some (?b, e + 1, m(e := 0)) else Some (?b, e, m))"
    unfolding strtok_def Let_def sb by (simp only: spn option.case z) (simp add: assms(3))
  show ?thesis
  proof (cases "left = [] \<or> \<not> (\<exists>c \<in> set left. c \<in> set d)")
    case True
    then show ?thesis unfolding k strpbrk_eq [OF assms(2) c] by auto
  next
    case False
    then obtain tok rest m' where t: "takeWhile (\<lambda>c. c \<notin> set d) left = tok" "m' = m(?b + length tok := 0)"
        "cut_at m ?b left d tok rest m'" "m (?b + length tok) \<noteq> 0"
      using cut_at_delimiter [OF c] by blast
    have "strpbrk m ?b ct = Some (?b + length tok)" using False t(1) by (simp add: strpbrk_eq [OF assms(2) c])
    then have "strtok m static s0 ct = Some (?b, ?b + length tok + 1, m')"
      unfolding k using False t(2,4) assms(3) by simp
    moreover have "tok \<noteq> []" using hd False t(1) by (cases left) auto
    ultimately show ?thesis using False t(3) by auto
  qed
qed

lemma char_diff_zero: "char_diff a b = 0 \<longleftrightarrow> a = b"
proof -
  have "sint (a - b) = 0 \<longleftrightarrow> a - b = 0" by (metis signed_0 signed_word_eqI)
  then show ?thesis by (simp add: char_diff_def)
qed

lemma strcmp_eq:
  "cstr m p s \<Longrightarrow> cstr m q t \<Longrightarrow> \<exists>r. strcmp m p q = Some r \<and> (r = 0 \<longleftrightarrow> s = t)"
proof (induction s arbitrary: p q t)
  case Nil
  then show ?case
    by (subst strcmp.simps) (cases t; auto simp: char_diff_zero Let_def)
next
  case (Cons c s)
  show ?case
  proof (cases "\<exists>t'. t = c # t'")
    case True
    then obtain t' where t: "t = c # t'" by blast
    then have "m p = c" "m q = c" "c \<noteq> 0" "cstr m (p + 1) s" "cstr m (q + 1) t'" using Cons.prems by auto
    then show ?thesis using Cons.IH [of "p + 1" "q + 1" t'] t by (subst strcmp.simps) (simp add: char_diff_zero Let_def)
  next
    case False
    then have "m p \<noteq> m q" using Cons.prems by (cases t) auto
    then show ?thesis using False by (subst strcmp.simps) (auto simp: char_diff_zero Let_def)
  qed
qed

definition cmp_mem :: memory where
  "cmp_mem = (\<lambda>_. 0)(1 := 0x80)"

text \<open>
  \<open>strcmp\<close> returns, and returns 0 exactly for equal strings; but it is no order: the difference
  is cut to a signed byte, so that the string of the one byte 0x80 is less than the empty string and
  the empty string is less than it.
\<close>

theorem strcmp_correct:
  assumes "cstr m p s" "cstr m q t"
  shows "(\<exists>r. strcmp m p q = Some r \<and> (r = 0 \<longleftrightarrow> s = t)) \<and>
    cstr cmp_mem 1 [0x80] \<and> cstr cmp_mem 5 [] \<and> strcmp cmp_mem 1 5 = Some (- 128) \<and> strcmp cmp_mem 5 1 = Some (- 128)"
proof (intro conjI)
  show "\<exists>r. strcmp m p q = Some r \<and> (r = 0 \<longleftrightarrow> s = t)" by (rule strcmp_eq [OF assms])
  show "strcmp cmp_mem 1 5 = Some (- 128)" "strcmp cmp_mem 5 1 = Some (- 128)"
    by (subst strcmp.simps, simp add: cmp_mem_def char_diff_def)+
qed (simp_all add: cmp_mem_def)

subsection \<open>The properties at work\<close>

text \<open>The strings \<open>ab\<close> at 10, \<open>b\<close> at 20 and \<open>c,ab\<close> at 30 and the delimiter \<open>,\<close> at 40.\<close>

definition demo_mem :: memory where
  "demo_mem = (\<lambda>_. 0)(10 := 97, 11 := 98, 20 := 98, 30 := 99, 31 := 44, 32 := 97, 33 := 98, 40 := 44)"

lemma demo_strings: "cstr demo_mem 10 [97, 98]" "cstr demo_mem 20 [98]" "cstr demo_mem 30 [99, 44, 97, 98]"
    "cstr demo_mem 40 [44]"
  by (simp_all add: demo_mem_def)

theorem str_search_correct_witness: "strlen demo_mem 10 = Some 2 \<and> strchr demo_mem 10 98 = Some 11"
  using str_search_correct [OF demo_strings(1,2), of 98] by simp

theorem str_copy_correct_witness:
  "\<exists>m2. strcat demo_mem 10 20 = Some (10, m2) \<and> cstr m2 10 [97, 98, 98]"
  using str_copy_correct [OF demo_strings(2,1), of 1] by auto

theorem strsep_correct_witness: "strsep demo_mem 30 40 = Some (30, 32, demo_mem(31 := 0))"
  using strsep_correct [OF demo_strings(3,4)] by (auto simp: Cons_eq_append_conv cut_at_def)

lemma demo_tail: "cstr demo_mem 31 [44, 97, 98]"
  by (simp add: demo_mem_def)

theorem strtok_correct_witness: "strtok demo_mem 31 0 40 = Some (32, 0, demo_mem)"
proof -
  have lead: "[44] = takeWhile (\<lambda>c. c \<in> set [44]) [44, 97, 98 :: u8]" by simp
  have no: "(\<exists>c \<in> set [97, 98 :: u8]. c \<in> set [44]) = False" by simp
  show ?thesis
    using strtok_correct [OF demo_tail demo_strings(4) _ _ lead, of 0 31 "[97, 98]"] unfolding no if_False by simp
qed

theorem strcmp_correct_witness: "\<exists>r. strcmp demo_mem 10 20 = Some r \<and> r \<noteq> 0"
  using strcmp_correct [OF demo_strings(1,2)] by auto

end
