(* ===== verification/BrBase.thy ===== *)
theory BrBase
  imports KPrelude "HOL-Library.Product_Lexorder" "HOL-Library.Monad_Syntax"
begin

text \<open>
  The data of the Ethernet bridge (net/bridge/br_private.h, br_private_timer.h, br_private_stp.h): bridge
  identifiers, timers, ports, forwarding entries and the bridge itself, with the timer functions and
  the comparison of bytes.  A bridge identifier is ordered as \<open>memcmp\<close> compares its eight bytes.

  A port is known by its number, which is unique in a bridge: a pointer to a port is a number, and a
  NULL or dangling pointer is one that no port has; the list of ports is in the order of
  \<open>port_list\<close>.  \<open>tick\<close> says whether the kernel timer that calls \<open>br_tick\<close> is pending.  The bridge record also holds what is global in the kernel: the time (\<open>jiffies\<close>), whether
  memory is available (\<open>mem_ok\<close>), the frames sent so far and the forwarding entries that are allocated.
  HZ is 1000.  C integers of type \<open>int\<close> are integers; sums are reduced to 32 bits (\<open>s32\<close>) where they may overflow.
\<close>

definition HZ :: int where [kdefs]: "HZ = 1000"

definition ELOOP :: int where [kdefs]: "ELOOP = 40"
definition EXFULL :: int where [kdefs]: "EXFULL = 54"
definition EADDRNOTAVAIL :: int where [kdefs]: "EADDRNOTAVAIL = 99"

definition s32 :: "int \<Rightarrow> int" where
  "s32 x = sint (word_of_int x :: u32)"

subsection \<open>Identifiers\<close>

type_synonym mac = "u8 \<times> u8 \<times> u8 \<times> u8 \<times> u8 \<times> u8"

datatype bridge_id = BridgeId (prio: "u8 \<times> u8") (id_addr: mac)

fun mac_bytes :: "mac \<Rightarrow> u8 list" where
  "mac_bytes (a, b, c, d, e, f) = [a, b, c, d, e, f]"

fun id_bytes :: "bridge_id \<Rightarrow> u8 list" where
  "id_bytes (BridgeId (x, y) a) = x # y # mac_bytes a"

text \<open>The difference of the first bytes that differ, as \<open>memcmp\<close> of lib/string.c returns it.\<close>

fun memcmp_bytes :: "u8 list \<Rightarrow> u8 list \<Rightarrow> int" where
  "memcmp_bytes (x # xs) (y # ys) = (if x \<noteq> y then uint x - uint y else memcmp_bytes xs ys)"
| "memcmp_bytes _ _ = 0"

definition memcmp_id :: "bridge_id \<Rightarrow> bridge_id \<Rightarrow> int" where
  "memcmp_id a b = memcmp_bytes (id_bytes a) (id_bytes b)"

definition memcmp_mac :: "mac \<Rightarrow> mac \<Rightarrow> int" where
  "memcmp_mac a b = memcmp_bytes (mac_bytes a) (mac_bytes b)"

instantiation bridge_id :: linorder
begin

definition less_eq_bridge_id :: "bridge_id \<Rightarrow> bridge_id \<Rightarrow> bool" where
  "a \<le> b \<longleftrightarrow> (prio a, id_addr a) \<le> (prio b, id_addr b)"

definition less_bridge_id :: "bridge_id \<Rightarrow> bridge_id \<Rightarrow> bool" where
  "a < b \<longleftrightarrow> (prio a, id_addr a) < (prio b, id_addr b)"

instance
  by standard (auto simp: less_eq_bridge_id_def less_bridge_id_def intro: bridge_id.expand)

end

lemma memcmp_bytes_Cons:
  "memcmp_bytes (x # xs) (y # ys) < 0 \<longleftrightarrow> x < y \<or> x \<le> y \<and> memcmp_bytes xs ys < 0"
  "memcmp_bytes (x # xs) (y # ys) = 0 \<longleftrightarrow> x = y \<and> memcmp_bytes xs ys = 0"
proof -
  have "uint x = uint y \<longleftrightarrow> x = y" by (simp add: word_uint_eq_iff)
  then show "memcmp_bytes (x # xs) (y # ys) < 0 \<longleftrightarrow> x < y \<or> x \<le> y \<and> memcmp_bytes xs ys < 0"
      "memcmp_bytes (x # xs) (y # ys) = 0 \<longleftrightarrow> x = y \<and> memcmp_bytes xs ys = 0"
    by (auto simp: word_less_def word_le_def)
qed

lemma memcmp_mac_less: "memcmp_mac a b < 0 \<longleftrightarrow> a < b" "memcmp_mac a b = 0 \<longleftrightarrow> a = b"
proof -
  obtain a1 a2 a3 a4 a5 a6 where a: "a = (a1, a2, a3, a4, a5, a6)" by (metis prod.exhaust)
  obtain b1 b2 b3 b4 b5 b6 where b: "b = (b1, b2, b3, b4, b5, b6)" by (metis prod.exhaust)
  have e: "memcmp_bytes [] [] < 0 \<longleftrightarrow> False" by simp
  show "memcmp_mac a b < 0 \<longleftrightarrow> a < b"
    unfolding memcmp_mac_def a b mac_bytes.simps less_prod_simp by (simp only: e memcmp_bytes_Cons simp_thms)
  show "memcmp_mac a b = 0 \<longleftrightarrow> a = b"
    unfolding memcmp_mac_def a b mac_bytes.simps prod.inject by (simp add: memcmp_bytes_Cons del: memcmp_bytes.simps(1))
qed

lemma memcmp_id_less: "memcmp_id a b < 0 \<longleftrightarrow> a < b" "memcmp_id a b = 0 \<longleftrightarrow> a = b"
proof -
  obtain x y m where a: "a = BridgeId (x, y) m" by (metis bridge_id.exhaust prod.exhaust)
  obtain u v n where b: "b = BridgeId (u, v) n" by (metis bridge_id.exhaust prod.exhaust)
  note m = memcmp_mac_less [of m n, unfolded memcmp_mac_def]
  show "memcmp_id a b < 0 \<longleftrightarrow> a < b"
    unfolding a b memcmp_id_def id_bytes.simps less_bridge_id_def bridge_id.sel less_prod_simp memcmp_bytes_Cons m
    by (auto simp: less_eq_prod_def)
  show "memcmp_id a b = 0 \<longleftrightarrow> a = b"
    unfolding a b memcmp_id_def id_bytes.simps memcmp_bytes_Cons m by auto
qed

lemma memcmp_id_le: "memcmp_id a b \<le> 0 \<longleftrightarrow> a \<le> b"
  using memcmp_id_less [of a b] by (auto simp: le_less)

subsection \<open>Timers (br_private_timer.h)\<close>

record br_timer =
  running :: bool
  expires :: u32

definition br_timer_clear :: "br_timer \<Rightarrow> br_timer" where
  "br_timer_clear t = t\<lparr>running := False\<rparr>"

definition br_timer_set :: "u32 \<Rightarrow> br_timer \<Rightarrow> br_timer" where
  "br_timer_set x t = t\<lparr>running := True, expires := x\<rparr>"

definition br_timer_get_residue :: "u32 \<Rightarrow> br_timer \<Rightarrow> u32" where
  "br_timer_get_residue now t = (if running t then now - expires t else 0)"

definition time_after_eq :: "u32 \<Rightarrow> u32 \<Rightarrow> bool" where
  "time_after_eq a b \<longleftrightarrow> 0 \<le> sint (a - b)"

definition br_timer_has_expired :: "u32 \<Rightarrow> br_timer \<Rightarrow> u32 \<Rightarrow> bool" where
  "br_timer_has_expired now t period \<longleftrightarrow> running t \<and> time_after_eq now (expires t + period)"

subsection \<open>Ports and bridges\<close>

datatype br_state = Disabled | Listening | Learning | Forwarding | Blocking

text \<open>The fields of a network device that the bridge looks at.\<close>

record net_device =
  dev_name :: string
  dev_addr :: mac
  dev_up :: bool
  dev_loopback :: bool
  dev_ether :: bool
  dev_in_bridge :: bool
  dev_is_bridge :: bool

record net_bridge_port =
  port_no :: nat
  dev :: net_device
  port_id :: u16
  state :: br_state
  path_cost :: int
  p_designated_root :: bridge_id
  designated_cost :: int
  designated_bridge :: bridge_id
  designated_port :: u16
  topology_change_ack :: bool
  config_pending :: bool
  priority :: int
  forward_delay_timer :: br_timer
  hold_timer :: br_timer
  message_age_timer :: br_timer

record fdb_entry =
  use_count :: int
  fdb_addr :: mac
  fdb_dst :: nat
  ageing_timer :: u32
  is_local :: bool
  is_static :: bool

record net_bridge =
  port_list :: "net_bridge_port list"
  br_up :: bool
  br_addr :: mac
  hash :: "nat list list"
  tick :: bool
  designated_root :: bridge_id
  root_path_cost :: int
  root_port :: nat
  max_age :: int
  hello_time :: int
  forward_delay :: int
  bridge_id :: bridge_id
  bridge_max_age :: int
  bridge_hello_time :: int
  bridge_forward_delay :: int
  stp_enabled :: bool
  topology_change :: bool
  topology_change_detected :: bool
  hello_timer :: br_timer
  tcn_timer :: br_timer
  topology_change_timer :: br_timer
  gc_timer :: br_timer
  ageing_time :: int
  gc_interval :: int
  jiffies :: u32
  mem_ok :: bool
  sent :: "(nat \<times> u8 list) list"
  fdb_heap :: "nat \<Rightarrow> fdb_entry option"

definition br_get_port :: "net_bridge \<Rightarrow> nat \<Rightarrow> net_bridge_port option" where
  "br_get_port br no = find (\<lambda>p. port_no p = no) (port_list br)"

text \<open>Assignments to fields of the port with the given number.\<close>

definition upd_port :: "nat \<Rightarrow> (net_bridge_port \<Rightarrow> net_bridge_port) \<Rightarrow> net_bridge \<Rightarrow> net_bridge" where
  "upd_port no f br = br\<lparr>port_list := map (\<lambda>p. if port_no p = no then f p else p) (port_list br)\<rparr>"

text \<open>A loop over ports whose body may fail.\<close>

fun mfold :: "('a \<Rightarrow> 's \<Rightarrow> 's option) \<Rightarrow> 'a list \<Rightarrow> 's \<Rightarrow> 's option" where
  "mfold f [] s = Some s"
| "mfold f (x # xs) s = f x s \<bind> mfold f xs"

definition port_nos :: "net_bridge \<Rightarrow> nat list" where
  "port_nos br = map port_no (port_list br)"

subsection \<open>A new bridge (br_if.c)\<close>

definition off_timer :: br_timer where
  "off_timer = \<lparr>running = False, expires = 0\<rparr>"

definition br_mac_zero :: mac where
  "br_mac_zero = (0, 0, 0, 0, 0, 0)"

text \<open>At the time \<open>now\<close>; the forwarding entries of other bridges do not matter to this one.\<close>

definition new_nb :: "u32 \<Rightarrow> net_bridge" where
  "new_nb now = \<lparr>port_list = [], br_up = False, br_addr = br_mac_zero, hash = replicate 256 [], tick = False,
     designated_root = BridgeId (0x80, 0x00) br_mac_zero, root_path_cost = 0, root_port = 0,
     max_age = 20 * HZ, hello_time = 2 * HZ, forward_delay = 15 * HZ, bridge_id = BridgeId (0x80, 0x00) br_mac_zero,
     bridge_max_age = 20 * HZ, bridge_hello_time = 2 * HZ, bridge_forward_delay = 15 * HZ,
     stp_enabled = False, topology_change = False, topology_change_detected = False,
     hello_timer = off_timer, tcn_timer = off_timer, topology_change_timer = off_timer, gc_timer = off_timer,
     ageing_time = 300 * HZ, gc_interval = 4 * HZ, jiffies = now, mem_ok = True, sent = [], fdb_heap = Map.empty\<rparr>"

end
