(* ===== verification/BrFdb.thy ===== *)
theory BrFdb
  imports BrBase "HOL-Library.Multiset"
begin

text \<open>
  The forwarding database of the bridge (net/bridge/br_fdb.c): a hash table of Ethernet addresses with
  the port behind which each was seen last.  An entry is an allocated object with a reference count; a
  doubly linked hash chain is the list of its entries, head first.  None stands for an access to an
  entry that was freed, so that its absence is a theorem.  The functions run under \<open>hash_lock\<close>.
  \<open>br_fdb_get_entries\<close>, which drops the lock while it copies to user space, is not modelled.
\<close>

subsection \<open>Operations\<close>

definition fdb_timeout :: "net_bridge \<Rightarrow> u32" where
  "fdb_timeout br = (let timeout = jiffies br - word_of_int (ageing_time br) in
     if topology_change br then jiffies br - word_of_int (forward_delay br) else timeout)"

definition has_expired :: "net_bridge \<Rightarrow> fdb_entry \<Rightarrow> bool" where
  "has_expired br f \<longleftrightarrow> \<not> is_static f \<and> time_after_eq (fdb_timeout br) (ageing_timer f)"

fun br_mac_hash :: "mac \<Rightarrow> nat" where
  "br_mac_hash (m0, m1, m2, m3, m4, m5) =
     (let x = ucast m0 :: u32;
          x = push_bit 2 x XOR ucast m1;
          x = push_bit 2 x XOR ucast m2;
          x = push_bit 2 x XOR ucast m3;
          x = push_bit 2 x XOR ucast m4;
          x = push_bit 2 x XOR ucast m5;
          x = x XOR drop_bit 8 x
      in unat (x AND 255))"

definition hash_link :: "nat \<Rightarrow> nat \<Rightarrow> net_bridge \<Rightarrow> net_bridge" where
  "hash_link f h br = br\<lparr>hash := (hash br)[h := f # hash br ! h]\<rparr>"

definition hash_unlink :: "nat \<Rightarrow> net_bridge \<Rightarrow> net_bridge" where
  "hash_unlink f br = br\<lparr>hash := map (remove1 f) (hash br)\<rparr>"

definition br_fdb_put :: "nat \<Rightarrow> net_bridge \<Rightarrow> net_bridge option" where
  "br_fdb_put f br = do {
     e \<leftarrow> fdb_heap br f;
     let c = use_count e - 1;
     Some (br\<lparr>fdb_heap := (fdb_heap br)(f := if c = 0 then None else Some (e\<lparr>use_count := c\<rparr>))\<rparr>) }"

text \<open>The loop over all chains, dropping the entries that satisfy \<open>P\<close>; the next entry is read first.\<close>

definition fdb_sweep_entry :: "(fdb_entry \<Rightarrow> bool) \<Rightarrow> nat \<Rightarrow> net_bridge \<Rightarrow> net_bridge option" where
  "fdb_sweep_entry P f br = do {
     e \<leftarrow> fdb_heap br f;
     if P e then br_fdb_put f (hash_unlink f br) else Some br }"

definition fdb_sweep :: "(fdb_entry \<Rightarrow> bool) \<Rightarrow> net_bridge \<Rightarrow> net_bridge option" where
  "fdb_sweep P br = mfold (\<lambda>i br. mfold (fdb_sweep_entry P) (hash br ! i) br) [0..<256] br"

definition br_fdb_cleanup :: "net_bridge \<Rightarrow> net_bridge option" where
  "br_fdb_cleanup br =
     (let timeout = fdb_timeout br in
      fdb_sweep (\<lambda>f. \<not> is_static f \<and> time_after_eq timeout (ageing_timer f)) br)"

definition br_fdb_delete_by_port :: "nat \<Rightarrow> net_bridge \<Rightarrow> net_bridge option" where
  "br_fdb_delete_by_port p br = fdb_sweep (\<lambda>f. fdb_dst f = p) br"

text \<open>The first entry of a chain with a property.\<close>

fun fdb_find :: "(nat \<Rightarrow> fdb_entry option) \<Rightarrow> (fdb_entry \<Rightarrow> bool) \<Rightarrow> nat list \<Rightarrow> nat option option" where
  "fdb_find h P [] = Some None"
| "fdb_find h P (f # fs) = do { e \<leftarrow> h f; if P e then Some (Some f) else fdb_find h P fs }"

definition br_fdb_changeaddr :: "nat \<Rightarrow> mac \<Rightarrow> net_bridge \<Rightarrow> net_bridge option" where
  "br_fdb_changeaddr p newaddr br = do {
     r \<leftarrow> fdb_find (fdb_heap br) (\<lambda>f. fdb_dst f = p \<and> is_local f) (concat (hash br));
     case r of
       None \<Rightarrow> Some br
     | Some f \<Rightarrow> do {
         e \<leftarrow> fdb_heap br f;
         let br1 = hash_unlink f br;
         let br2 = br1\<lparr>fdb_heap := (fdb_heap br1)(f \<mapsto> e\<lparr>fdb_addr := newaddr\<rparr>)\<rparr>;
         Some (hash_link f (br_mac_hash newaddr) br2) } }"

definition br_fdb_get :: "mac \<Rightarrow> net_bridge \<Rightarrow> (net_bridge \<times> nat option) option" where
  "br_fdb_get addr br = do {
     r \<leftarrow> fdb_find (fdb_heap br) (\<lambda>f. memcmp_mac (fdb_addr f) addr = 0) (hash br ! br_mac_hash addr);
     case r of
       None \<Rightarrow> Some (br, None)
     | Some f \<Rightarrow> do {
         e \<leftarrow> fdb_heap br f;
         if \<not> has_expired br e
         then Some (br\<lparr>fdb_heap := (fdb_heap br)(f \<mapsto> e\<lparr>use_count := use_count e + 1\<rparr>)\<rparr>, Some f)
         else Some (br, None) } }"

definition fdb_possibly_replace :: "u32 \<Rightarrow> nat \<Rightarrow> bool \<Rightarrow> fdb_entry \<Rightarrow> fdb_entry" where
  "fdb_possibly_replace now source loc f =
     (if \<not> is_static f \<or> loc
      then f\<lparr>fdb_dst := source, is_local := loc, is_static := loc, ageing_timer := now\<rparr> else f)"

text \<open>\<open>new\<close> is the address that the allocator returns if there is memory.\<close>

definition br_fdb_insert :: "nat \<Rightarrow> mac \<Rightarrow> bool \<Rightarrow> nat \<Rightarrow> net_bridge \<Rightarrow> net_bridge option" where
  "br_fdb_insert source addr loc new br = do {
     let h = br_mac_hash addr;
     r \<leftarrow> fdb_find (fdb_heap br) (\<lambda>f. memcmp_mac (fdb_addr f) addr = 0) (hash br ! h);
     case r of
       Some f \<Rightarrow> do {
         e \<leftarrow> fdb_heap br f;
         if is_local e then Some br
         else Some (br\<lparr>fdb_heap := (fdb_heap br)(f \<mapsto> fdb_possibly_replace (jiffies br) source loc e)\<rparr>) }
     | None \<Rightarrow>
         if \<not> mem_ok br then Some br
         else Some (hash_link new h (br\<lparr>fdb_heap := (fdb_heap br)(new \<mapsto>
           \<lparr>use_count = 1, fdb_addr = addr, fdb_dst = source, ageing_timer = jiffies br, is_local = loc, is_static = loc\<rparr>)\<rparr>)) }"

subsection \<open>The invariant, and the table as a map\<close>

definition linked :: "net_bridge \<Rightarrow> nat set" where
  "linked br = set (concat (hash br))"

text \<open>
  \<open>refs\<close> counts the references that were handed out by \<open>br_fdb_get\<close> and not given back.
\<close>

definition fdb_ok :: "net_bridge \<Rightarrow> nat multiset \<Rightarrow> bool" where
  "fdb_ok br refs \<longleftrightarrow> length (hash br) = 256 \<and> distinct (concat (hash br)) \<and>
     (\<forall>i < 256. \<forall>f \<in> set (hash br ! i). \<exists>e. fdb_heap br f = Some e \<and> br_mac_hash (fdb_addr e) = i) \<and>
     (\<forall>f e g d. f \<in> linked br \<and> g \<in> linked br \<and> fdb_heap br f = Some e \<and> fdb_heap br g = Some d \<and>
        fdb_addr e = fdb_addr d \<longrightarrow> f = g) \<and>
     (\<forall>f. case fdb_heap br f of
        None \<Rightarrow> f \<notin> linked br \<and> count refs f = 0
      | Some e \<Rightarrow> use_count e = (if f \<in> linked br then 1 else 0) + int (count refs f) \<and> 0 < use_count e \<and>
          is_static e = is_local e)"

text \<open>What the table says about an address: the port, the time stamp and whether it is local.\<close>

definition info :: "fdb_entry \<Rightarrow> nat \<times> u32 \<times> bool" where
  "info e = (fdb_dst e, ageing_timer e, is_local e)"

definition entry_at :: "net_bridge \<Rightarrow> mac \<Rightarrow> nat option" where
  "entry_at br a = find (\<lambda>f. \<exists>e. fdb_heap br f = Some e \<and> fdb_addr e = a) (hash br ! br_mac_hash a)"

definition fdb_map :: "net_bridge \<Rightarrow> mac \<rightharpoonup> nat \<times> u32 \<times> bool" where
  "fdb_map br a = entry_at br a \<bind> fdb_heap br \<bind> Some \<circ> info"

text \<open>The same operations on maps.\<close>

definition stale :: "net_bridge \<Rightarrow> nat \<times> u32 \<times> bool \<Rightarrow> bool" where
  "stale br v \<longleftrightarrow> \<not> snd (snd v) \<and> time_after_eq (fdb_timeout br) (fst (snd v))"

definition spec_insert :: "bool \<Rightarrow> u32 \<Rightarrow> nat \<Rightarrow> mac \<Rightarrow> bool \<Rightarrow> (mac \<rightharpoonup> nat \<times> u32 \<times> bool) \<Rightarrow> mac \<rightharpoonup> nat \<times> u32 \<times> bool" where
  "spec_insert mem now source a loc m =
     (case m a of
        Some (_, _, True) \<Rightarrow> m
      | Some _ \<Rightarrow> m(a \<mapsto> (source, now, loc))
      | None \<Rightarrow> if mem then m(a \<mapsto> (source, now, loc)) else m)"

definition spec_drop :: "(nat \<times> u32 \<times> bool \<Rightarrow> bool) \<Rightarrow> (mac \<rightharpoonup> nat \<times> u32 \<times> bool) \<Rightarrow> mac \<rightharpoonup> nat \<times> u32 \<times> bool" where
  "spec_drop P m a = (case m a of None \<Rightarrow> None | Some v \<Rightarrow> if P v then None else Some v)"

subsection \<open>Chains\<close>

lemma hash_bound: "br_mac_hash a < 256"
proof -
  obtain m0 m1 m2 m3 m4 m5 where a: "a = (m0, m1, m2, m3, m4, m5)" by (metis prod.exhaust)
  have "unat (x AND 255) < 256" for x :: u32
  proof -
    have "x AND 255 = take_bit 8 x" by (simp add: take_bit_eq_mask mask_eq_exp_minus_1)
    then show ?thesis by (simp add: unat_take_bit')
  qed
  then show ?thesis unfolding a br_mac_hash.simps Let_def .
qed

lemma linked_iff: "length (hash br) = 256 \<Longrightarrow> f \<in> linked br \<longleftrightarrow> (\<exists>i < 256. f \<in> set (hash br ! i))"
  unfolding linked_def set_concat by (metis UN_iff in_set_conv_nth)

lemma fdb_okD:
  assumes "fdb_ok br refs"
  shows "length (hash br) = 256" "distinct (concat (hash br))"
    "f \<in> linked br \<Longrightarrow> \<exists>e. fdb_heap br f = Some e"
    "i < 256 \<Longrightarrow> f \<in> set (hash br ! i) \<Longrightarrow> f \<in> linked br"
    "f \<in> linked br \<Longrightarrow> fdb_heap br f = Some e \<Longrightarrow> f \<in> set (hash br ! br_mac_hash (fdb_addr e))"
    "f \<in> linked br \<Longrightarrow> g \<in> linked br \<Longrightarrow> fdb_heap br f = Some e \<Longrightarrow> fdb_heap br g = Some d \<Longrightarrow> fdb_addr e = fdb_addr d \<Longrightarrow> f = g"
    "fdb_heap br f = Some e \<Longrightarrow> use_count e = (if f \<in> linked br then 1 else 0) + int (count refs f)"
    "fdb_heap br f = Some e \<Longrightarrow> 0 < use_count e" "fdb_heap br f = Some e \<Longrightarrow> is_static e = is_local e"
    "fdb_heap br f = None \<Longrightarrow> f \<notin> linked br \<and> count refs f = 0"
proof -
  note d = assms [unfolded fdb_ok_def]
  show l: "length (hash br) = 256" "distinct (concat (hash br))" using d by auto
  show "f \<in> linked br \<Longrightarrow> \<exists>e. fdb_heap br f = Some e" using d linked_iff [OF l(1)] by blast
  show "i < 256 \<Longrightarrow> f \<in> set (hash br ! i) \<Longrightarrow> f \<in> linked br" using linked_iff [OF l(1)] by blast
  show "f \<in> linked br \<Longrightarrow> fdb_heap br f = Some e \<Longrightarrow> f \<in> set (hash br ! br_mac_hash (fdb_addr e))"
    using d linked_iff [OF l(1)] by fastforce
  show "f \<in> linked br \<Longrightarrow> g \<in> linked br \<Longrightarrow> fdb_heap br f = Some e \<Longrightarrow> fdb_heap br g = Some d \<Longrightarrow> fdb_addr e = fdb_addr d \<Longrightarrow> f = g"
    using d by blast
  show "fdb_heap br f = Some e \<Longrightarrow> use_count e = (if f \<in> linked br then 1 else 0) + int (count refs f)"
    "fdb_heap br f = Some e \<Longrightarrow> 0 < use_count e" "fdb_heap br f = Some e \<Longrightarrow> is_static e = is_local e"
    "fdb_heap br f = None \<Longrightarrow> f \<notin> linked br \<and> count refs f = 0"
    using conjunct2 [OF conjunct2 [OF conjunct2 [OF conjunct2 [OF d]]], THEN spec, of f] by (simp_all split: if_splits)
qed

lemma find_ok:
  "(\<And>f. f \<in> set fs \<Longrightarrow> \<exists>e. h f = Some e) \<Longrightarrow> fdb_find h P fs = Some (find (\<lambda>f. \<exists>e. h f = Some e \<and> P e) fs)"
  by (induction fs) fastforce+

text \<open>The entry of an address is the linked one that has it.\<close>

lemma entry_at_iff:
  assumes "fdb_ok br refs"
  shows "entry_at br a = Some f \<longleftrightarrow> f \<in> linked br \<and> (\<exists>e. fdb_heap br f = Some e \<and> fdb_addr e = a)"
proof
  assume "entry_at br a = Some f"
  then show "f \<in> linked br \<and> (\<exists>e. fdb_heap br f = Some e \<and> fdb_addr e = a)"
    using fdb_okD(4) [OF assms hash_bound] unfolding entry_at_def find_Some_iff by (metis nth_mem)
next
  assume f: "f \<in> linked br \<and> (\<exists>e. fdb_heap br f = Some e \<and> fdb_addr e = a)"
  then obtain e where e: "fdb_heap br f = Some e" "fdb_addr e = a" by blast
  then have "f \<in> set (hash br ! br_mac_hash a)" using fdb_okD(5) [OF assms] f by blast
  then obtain g where g: "entry_at br a = Some g"
    using e unfolding entry_at_def by (cases "find (\<lambda>f. \<exists>e. fdb_heap br f = Some e \<and> fdb_addr e = a) (hash br ! br_mac_hash a)")
      (auto simp: find_None_iff)
  then have "g \<in> linked br" "\<exists>d. fdb_heap br g = Some d \<and> fdb_addr d = a"
    using fdb_okD(4) [OF assms hash_bound] unfolding entry_at_def find_Some_iff by (metis nth_mem)+
  then have "f = g" using fdb_okD(6) [OF assms] f e by metis
  then show "entry_at br a = Some f" using g by simp
qed

lemma fdb_map_iff:
  assumes "fdb_ok br refs"
  shows "fdb_map br a = Some v \<longleftrightarrow> (\<exists>f \<in> linked br. \<exists>e. fdb_heap br f = Some e \<and> fdb_addr e = a \<and> info e = v)"
proof -
  have "fdb_map br a = Some v \<longleftrightarrow> (\<exists>f e. entry_at br a = Some f \<and> fdb_heap br f = Some e \<and> info e = v)"
    by (auto simp: fdb_map_def bind_eq_Some_conv)
  then show ?thesis unfolding entry_at_iff [OF assms] by fastforce
qed

lemma lookup_ok:
  assumes "fdb_ok br refs"
  shows "fdb_find (fdb_heap br) (\<lambda>f. memcmp_mac (fdb_addr f) a = 0) (hash br ! br_mac_hash a) = Some (entry_at br a)"
  unfolding memcmp_mac_less entry_at_def
  by (rule find_ok) (use fdb_okD(3,4) [OF assms] hash_bound in blast)

lemma bucket_iff:
  assumes "fdb_ok br refs" "i < 256"
  shows "f \<in> set (hash br ! i) \<longleftrightarrow> f \<in> linked br \<and> (\<exists>e. fdb_heap br f = Some e \<and> br_mac_hash (fdb_addr e) = i)"
proof -
  have "\<exists>e. fdb_heap br f = Some e \<and> br_mac_hash (fdb_addr e) = i" if "f \<in> set (hash br ! i)"
    using assms that unfolding fdb_ok_def by blast
  then show ?thesis using fdb_okD(4,5) [OF assms(1)] assms(2) by blast
qed

text \<open>Two tables with the same linked entries, as far as lookups see them, are the same map.\<close>

lemma fdb_map_cong:
  assumes "fdb_ok br refs" "fdb_ok br' refs'" "linked br' = linked br"
    and "\<And>f e. f \<in> linked br \<Longrightarrow> fdb_heap br f = Some e \<Longrightarrow> \<exists>e'. fdb_heap br' f = Some e' \<and> fdb_addr e' = fdb_addr e \<and> info e' = info e"
  shows "fdb_map br' = fdb_map br"
proof
  fix a
  have "fdb_map br' a = Some v \<longleftrightarrow> fdb_map br a = Some v" for v
    unfolding fdb_map_iff [OF assms(1)] fdb_map_iff [OF assms(2)] assms(3)
    using assms(4) fdb_okD(3) [OF assms(1)] by (metis option.inject)
  then show "fdb_map br' a = fdb_map br a" by (cases "fdb_map br a"; cases "fdb_map br' a") auto
qed

lemma fdb_ok_parts: "hash br' = hash br \<Longrightarrow> fdb_heap br' = fdb_heap br \<Longrightarrow> fdb_ok br' refs = fdb_ok br refs"
  unfolding fdb_ok_def linked_def by (simp only:)

text \<open>Changing an entry and the references to it.\<close>

lemma set_entry_ok:
  assumes ok: "fdb_ok br refs" and f: "fdb_heap br f = Some e" and e': "fdb_addr e' = fdb_addr e" "is_static e' = is_local e'"
    and c: "use_count e' = (if f \<in> linked br then 1 else 0) + int (count refs' f)" "0 < use_count e'"
      "\<And>g. g \<noteq> f \<Longrightarrow> count refs' g = count refs g"
  shows "fdb_ok (br\<lparr>fdb_heap := (fdb_heap br)(f \<mapsto> e')\<rparr>) refs'"
proof -
  let ?b = "br\<lparr>fdb_heap := (fdb_heap br)(f \<mapsto> e')\<rparr>"
  have l: "linked ?b = linked br" by (simp add: linked_def)
  have a: "\<exists>d. fdb_heap br g = Some d \<and> fdb_addr d' = fdb_addr d" if "fdb_heap ?b g = Some d'" for g d'
    using that f e'(1) by (auto split: if_splits)
  show ?thesis
    unfolding fdb_ok_def l
  proof (intro conjI allI impI ballI)
    fix i g assume "i < 256" "g \<in> set (hash ?b ! i)"
    then have "\<exists>d. fdb_heap br g = Some d \<and> br_mac_hash (fdb_addr d) = i" using bucket_iff [OF ok] by simp
    then show "\<exists>d. fdb_heap ?b g = Some d \<and> br_mac_hash (fdb_addr d) = i" using f e'(1) by auto
  next
    fix g d h k
    assume "g \<in> linked br \<and> h \<in> linked br \<and> fdb_heap ?b g = Some d \<and> fdb_heap ?b h = Some k \<and> fdb_addr d = fdb_addr k"
    then show "g = h" using a fdb_okD(6) [OF ok] by metis
  next
    fix g
    show "case fdb_heap ?b g of None \<Rightarrow> g \<notin> linked br \<and> count refs' g = 0
      | Some d \<Rightarrow> use_count d = (if g \<in> linked br then 1 else 0) + int (count refs' g) \<and> 0 < use_count d \<and> is_static d = is_local d"
      using c e'(2) fdb_okD(7-10) [OF ok, of g] by (cases "fdb_heap br g") auto
  qed (use fdb_okD(1,2) [OF ok] in simp_all)
qed

text \<open>Freeing an entry that is neither linked nor referenced any more.\<close>

lemma free_entry_ok:
  assumes ok: "fdb_ok br refs" and f: "f \<notin> linked br" "count refs' f = 0" and c: "\<And>g. g \<noteq> f \<Longrightarrow> count refs' g = count refs g"
  shows "fdb_ok (br\<lparr>fdb_heap := (fdb_heap br)(f := None)\<rparr>) refs'"
proof -
  let ?b = "br\<lparr>fdb_heap := (fdb_heap br)(f := None)\<rparr>"
  have l: "linked ?b = linked br" by (simp add: linked_def)
  show ?thesis
    unfolding fdb_ok_def l
  proof (intro conjI allI impI ballI)
    fix i g assume "i < 256" "g \<in> set (hash ?b ! i)"
    then have "g \<in> linked br \<and> (\<exists>d. fdb_heap br g = Some d \<and> br_mac_hash (fdb_addr d) = i)" using bucket_iff [OF ok] by simp
    then show "\<exists>d. fdb_heap ?b g = Some d \<and> br_mac_hash (fdb_addr d) = i" using f(1) by auto
  next
    fix g d h k
    assume "g \<in> linked br \<and> h \<in> linked br \<and> fdb_heap ?b g = Some d \<and> fdb_heap ?b h = Some k \<and> fdb_addr d = fdb_addr k"
    then show "g = h" using fdb_okD(6) [OF ok] by (auto split: if_splits)
  next
    fix g
    show "case fdb_heap ?b g of None \<Rightarrow> g \<notin> linked br \<and> count refs' g = 0
      | Some d \<Rightarrow> use_count d = (if g \<in> linked br then 1 else 0) + int (count refs' g) \<and> 0 < use_count d \<and> is_static d = is_local d"
      using c f fdb_okD(7-10) [OF ok, of g] by (cases "fdb_heap br g") auto
  qed (use fdb_okD(1,2) [OF ok] in simp_all)
qed

lemma fdb_put_ok:
  assumes ok: "fdb_ok br refs" and f: "f \<in># refs"
  shows "\<exists>br'. br_fdb_put f br = Some br' \<and> fdb_ok br' (refs - {#f#}) \<and> fdb_map br' = fdb_map br \<and>
    br' = br\<lparr>fdb_heap := fdb_heap br'\<rparr>"
proof -
  have c: "count refs f \<noteq> 0" using f by simp
  then have "0 < count refs f" by (rule neq0_conv [THEN iffD1])
  then obtain e where e: "fdb_heap br f = Some e" using fdb_okD(10) [OF ok, of f] by fastforce
  note u = fdb_okD(7,8,9) [OF ok e]
  let ?b = "br\<lparr>fdb_heap := (fdb_heap br)(f := if use_count e - 1 = 0 then None else Some (e\<lparr>use_count := use_count e - 1\<rparr>))\<rparr>"
  have p: "br_fdb_put f br = Some ?b" by (simp add: br_fdb_put_def e Let_def)
  have "fdb_ok ?b (refs - {#f#})"
  proof (cases "use_count e = 1")
    case True
    have "f \<notin> linked br" using True u(1) \<open>0 < count refs f\<close> by (metis add_cancel_left_right less_numeral_extra(3) of_nat_eq_0_iff)
    moreover from this have "count refs f = 1" using True u(1) by simp
    ultimately have "f \<notin> linked br" "count refs f = 1" by simp_all
    then show ?thesis using True free_entry_ok [OF ok, of f "refs - {#f#}"] by simp
  next
    case False
    then show ?thesis
      using set_entry_ok [OF ok e, of "e\<lparr>use_count := use_count e - 1\<rparr>" "refs - {#f#}"] u \<open>0 < count refs f\<close> by auto
  qed
  moreover from this have "fdb_map ?b = fdb_map br"
  proof (rule fdb_map_cong [OF ok])
    fix g d assume "g \<in> linked br" "fdb_heap br g = Some d"
    then show "\<exists>e'. fdb_heap ?b g = Some e' \<and> fdb_addr e' = fdb_addr d \<and> info e' = info d"
      using e u c by (cases "g = f") (auto simp: info_def)
  qed (simp add: linked_def)
  ultimately show ?thesis using p by simp
qed

lemma get_ok:
  assumes ok: "fdb_ok br refs"
  shows "\<exists>br' r. br_fdb_get a br = Some (br', r) \<and> fdb_map br' = fdb_map br \<and> br' = br\<lparr>fdb_heap := fdb_heap br'\<rparr> \<and>
    (case r of
       None \<Rightarrow> br' = br \<and> (\<forall>v. fdb_map br a = Some v \<longrightarrow> stale br v)
     | Some f \<Rightarrow> fdb_ok br' (add_mset f refs) \<and>
         (\<exists>e. fdb_heap br' f = Some e \<and> fdb_map br a = Some (info e) \<and> \<not> stale br (info e)))"
proof (cases "entry_at br a")
  case None
  then have "br_fdb_get a br = Some (br, None)" by (simp add: br_fdb_get_def lookup_ok [OF ok])
  moreover have "fdb_map br a = None" by (simp add: fdb_map_def None)
  ultimately show ?thesis by simp
next
  case (Some f)
  then obtain e where e: "f \<in> linked br" "fdb_heap br f = Some e" "fdb_addr e = a" using entry_at_iff [OF ok] by blast
  note u = fdb_okD(7,8,9) [OF ok e(2)]
  have m: "fdb_map br a = Some (info e)" using fdb_map_iff [OF ok] e by blast
  have x: "has_expired br e = stale br (info e)" by (simp add: has_expired_def stale_def info_def u)
  let ?b = "br\<lparr>fdb_heap := (fdb_heap br)(f \<mapsto> e\<lparr>use_count := use_count e + 1\<rparr>)\<rparr>"
  have g: "br_fdb_get a br = (if has_expired br e then Some (br, None) else Some (?b, Some f))"
    by (simp add: br_fdb_get_def lookup_ok [OF ok] Some e(2))
  have b: "fdb_ok ?b (add_mset f refs)"
    by (rule set_entry_ok [OF ok e(2)]) (use u e(1) in auto)
  have "fdb_map ?b = fdb_map br"
    by (rule fdb_map_cong [OF ok b]) (auto simp: linked_def info_def e(2))
  then show ?thesis using g b m x by (cases "has_expired br e") (auto simp: info_def)
qed

text \<open>Taking an entry out of its chain and dropping the table's reference to it.\<close>

lemma distinct_concat_remove1: "distinct (concat xss) \<Longrightarrow> distinct (concat (map (remove1 f) xss)) \<and> set (concat (map (remove1 f) xss)) = set (concat xss) - {f}"
proof (induction xss)
  case (Cons xs xss)
  then have "set (remove1 f xs) = set xs - {f}" by (simp add: set_remove1_eq)
  then show ?case using Cons by auto
qed simp

lemma drop_ok:
  assumes ok: "fdb_ok br refs" and f: "f \<in> linked br"
  shows "\<exists>br'. br_fdb_put f (hash_unlink f br) = Some br' \<and> fdb_ok br' refs \<and> linked br' = linked br - {f} \<and>
    (\<forall>g. g \<noteq> f \<longrightarrow> fdb_heap br' g = fdb_heap br g) \<and> br' = br\<lparr>hash := hash br', fdb_heap := fdb_heap br'\<rparr>"
proof -
  obtain e where e: "fdb_heap br f = Some e" using fdb_okD(3) [OF ok f] by blast
  note u = fdb_okD(7,8,9) [OF ok e]
  note dist = distinct_concat_remove1 [OF fdb_okD(2) [OF ok], of f]
  let ?h = "(fdb_heap br)(f := if use_count e - 1 = 0 then None else Some (e\<lparr>use_count := use_count e - 1\<rparr>))"
  let ?b = "br\<lparr>hash := map (remove1 f) (hash br), fdb_heap := ?h\<rparr>"
  have p: "br_fdb_put f (hash_unlink f br) = Some ?b" by (simp add: br_fdb_put_def hash_unlink_def e Let_def)
  have l: "linked ?b = linked br - {f}" using dist by (simp add: linked_def)
  have a: "\<exists>d. fdb_heap br g = Some d \<and> fdb_addr d' = fdb_addr d" if "fdb_heap ?b g = Some d'" for g d'
    using that e by (auto split: if_splits)
  have "fdb_ok ?b refs"
    unfolding fdb_ok_def l
  proof (intro conjI allI impI ballI)
    fix i g assume i: "i < 256" "g \<in> set (hash ?b ! i)"
    then have "g \<in> set (remove1 f (hash br ! i))" using fdb_okD(1) [OF ok] by simp
    moreover have "distinct (hash br ! i)" using fdb_okD(1,2) [OF ok] i(1) by (simp add: distinct_concat_iff)
    ultimately have "g \<in> set (hash br ! i)" "g \<noteq> f" by (auto simp: set_remove1_eq)
    then show "\<exists>d. fdb_heap ?b g = Some d \<and> br_mac_hash (fdb_addr d) = i" using bucket_iff [OF ok i(1)] by auto
  next
    fix g d h k
    assume "g \<in> linked br - {f} \<and> h \<in> linked br - {f} \<and> fdb_heap ?b g = Some d \<and> fdb_heap ?b h = Some k \<and> fdb_addr d = fdb_addr k"
    then show "g = h" using a fdb_okD(6) [OF ok] by (metis DiffD1)
  next
    fix g
    show "case fdb_heap ?b g of None \<Rightarrow> g \<notin> linked br - {f} \<and> count refs g = 0
      | Some d \<Rightarrow> use_count d = (if g \<in> linked br - {f} then 1 else 0) + int (count refs g) \<and> 0 < use_count d \<and> is_static d = is_local d"
      using u f fdb_okD(7-10) [OF ok, of g] by (cases "fdb_heap br g") auto
  qed (use fdb_okD(1) [OF ok] dist in simp_all)
  then show ?thesis using p l by simp
qed

lemma sweep_chain:
  assumes "fdb_ok br refs" "distinct fs" "set fs \<subseteq> linked br"
  shows "\<exists>br'. mfold (fdb_sweep_entry P) fs br = Some br' \<and> fdb_ok br' refs \<and>
    linked br' = linked br - {f \<in> set fs. \<exists>e. fdb_heap br f = Some e \<and> P e} \<and>
    (\<forall>g \<in> linked br'. fdb_heap br' g = fdb_heap br g) \<and> br' = br\<lparr>hash := hash br', fdb_heap := fdb_heap br'\<rparr>"
  using assms
proof (induction fs arbitrary: br)
  case (Cons f fs)
  then have "f \<in> linked br" by simp
  from fdb_okD(3) [OF Cons.prems(1) this] obtain e where e: "fdb_heap br f = Some e" by blast
  show ?case
  proof (cases "P e")
    case False
    then have "fdb_sweep_entry P f br = Some br" by (simp add: fdb_sweep_entry_def e)
    then show ?thesis using Cons.IH [OF Cons.prems(1)] Cons.prems(2,3) False e by auto
  next
    case True
    obtain b where b: "br_fdb_put f (hash_unlink f br) = Some b" "fdb_ok b refs" "linked b = linked br - {f}"
        "\<forall>g. g \<noteq> f \<longrightarrow> fdb_heap b g = fdb_heap br g" "b = br\<lparr>hash := hash b, fdb_heap := fdb_heap b\<rparr>"
      using drop_ok [OF Cons.prems(1), of f] Cons.prems(3) by auto
    have "set fs \<subseteq> linked b" using b(3) Cons.prems(2,3) by auto
    then obtain b' where b': "mfold (fdb_sweep_entry P) fs b = Some b'" "fdb_ok b' refs"
        "linked b' = linked b - {f \<in> set fs. \<exists>e. fdb_heap b f = Some e \<and> P e}"
        "\<forall>g \<in> linked b'. fdb_heap b' g = fdb_heap b g" "b' = b\<lparr>hash := hash b', fdb_heap := fdb_heap b'\<rparr>"
      using Cons.IH [OF b(2)] Cons.prems(2) by auto
    have "mfold (fdb_sweep_entry P) (f # fs) br = Some b'" using b(1) b'(1) True e by (simp add: fdb_sweep_entry_def)
    moreover have "{x \<in> set fs. \<exists>e. fdb_heap b x = Some e \<and> P e} = {x \<in> set fs. \<exists>e. fdb_heap br x = Some e \<and> P e}"
      using b(4) Cons.prems(2) by auto
    then have "linked b' = linked br - {x \<in> set (f # fs). \<exists>e. fdb_heap br x = Some e \<and> P e}" using b(3) b'(3) e True by auto
    moreover have "\<forall>g \<in> linked b'. fdb_heap b' g = fdb_heap br g" using b'(3,4) b(3,4) by auto
    moreover have "b' = br\<lparr>hash := hash b', fdb_heap := fdb_heap b'\<rparr>"
      by (subst b'(5), subst b(5)) simp
    ultimately show ?thesis using b'(2) by blast
  qed
qed simp

lemma mfold_append: "mfold f (xs @ ys) s = mfold f xs s \<bind> mfold f ys"
  by (induction xs arbitrary: s) (auto split: bind_splits)

lemma sweep_upto:
  assumes ok: "fdb_ok br refs" and "n \<le> 256"
  shows "\<exists>br'. mfold (\<lambda>i br. mfold (fdb_sweep_entry P) (hash br ! i) br) [0..<n] br = Some br' \<and> fdb_ok br' refs \<and>
    linked br' = linked br - {f. \<exists>e. fdb_heap br f = Some e \<and> br_mac_hash (fdb_addr e) < n \<and> P e} \<and>
    (\<forall>g \<in> linked br'. fdb_heap br' g = fdb_heap br g) \<and> br' = br\<lparr>hash := hash br', fdb_heap := fdb_heap br'\<rparr>"
  using assms(2)
proof (induction n)
  case (Suc n)
  then obtain b where b: "mfold (\<lambda>i br. mfold (fdb_sweep_entry P) (hash br ! i) br) [0..<n] br = Some b" "fdb_ok b refs"
      "linked b = linked br - {f. \<exists>e. fdb_heap br f = Some e \<and> br_mac_hash (fdb_addr e) < n \<and> P e}"
      "\<forall>g \<in> linked b. fdb_heap b g = fdb_heap br g" "b = br\<lparr>hash := hash b, fdb_heap := fdb_heap b\<rparr>"
    by auto
  have n: "n < 256" using Suc.prems by simp
  have "distinct (hash b ! n)" using fdb_okD(1,2) [OF b(2)] n by (simp add: distinct_concat_iff)
  moreover have "set (hash b ! n) \<subseteq> linked b" using fdb_okD(4) [OF b(2) n] by blast
  ultimately obtain b' where b': "mfold (fdb_sweep_entry P) (hash b ! n) b = Some b'" "fdb_ok b' refs"
      "linked b' = linked b - {f \<in> set (hash b ! n). \<exists>e. fdb_heap b f = Some e \<and> P e}"
      "\<forall>g \<in> linked b'. fdb_heap b' g = fdb_heap b g" "b' = b\<lparr>hash := hash b', fdb_heap := fdb_heap b'\<rparr>"
    using sweep_chain [OF b(2)] by blast
  have "linked b' = linked br - {f. \<exists>e. fdb_heap br f = Some e \<and> br_mac_hash (fdb_addr e) < Suc n \<and> P e}"
    unfolding b'(3) bucket_iff [OF b(2) n] using b(3,4) by (auto simp: less_Suc_eq)
  moreover have "\<forall>g \<in> linked b'. fdb_heap b' g = fdb_heap br g" using b'(3,4) b(4) by auto
  moreover have "b' = br\<lparr>hash := hash b', fdb_heap := fdb_heap b'\<rparr>" by (subst b'(5), subst b(5)) simp
  ultimately show ?case using b(1) b'(1,2) by (simp add: mfold_append)
qed (use ok in simp)

lemma sweep_ok:
  assumes ok: "fdb_ok br refs" and P: "\<And>e. is_static e = is_local e \<Longrightarrow> P e = Q (info e)"
  shows "\<exists>br'. fdb_sweep P br = Some br' \<and> fdb_ok br' refs \<and> fdb_map br' = spec_drop Q (fdb_map br) \<and>
    br' = br\<lparr>hash := hash br', fdb_heap := fdb_heap br'\<rparr>"
proof -
  obtain b where b: "fdb_sweep P br = Some b" "fdb_ok b refs"
      "linked b = linked br - {f. \<exists>e. fdb_heap br f = Some e \<and> br_mac_hash (fdb_addr e) < 256 \<and> P e}"
      "\<forall>g \<in> linked b. fdb_heap b g = fdb_heap br g" "b = br\<lparr>hash := hash b, fdb_heap := fdb_heap b\<rparr>"
    using sweep_upto [OF ok order_refl, of P] unfolding fdb_sweep_def by blast
  have l: "f \<in> linked b \<longleftrightarrow> f \<in> linked br \<and> \<not> Q (info e)" if "fdb_heap br f = Some e" for f e
    using b(3) that hash_bound P [OF fdb_okD(9) [OF ok that]] by auto
  have "fdb_map b a = Some v \<longleftrightarrow> spec_drop Q (fdb_map br) a = Some v" for a v
  proof -
    have "fdb_map b a = Some v \<longleftrightarrow> fdb_map br a = Some v \<and> \<not> Q v"
    proof
      assume "fdb_map b a = Some v"
      then obtain f e where f: "f \<in> linked b" "fdb_heap b f = Some e" "fdb_addr e = a" "info e = v"
        using fdb_map_iff [OF b(2)] by blast
      then have "fdb_heap br f = Some e" using b(4) by simp
      then show "fdb_map br a = Some v \<and> \<not> Q v" using l f fdb_map_iff [OF ok] by blast
    next
      assume q: "fdb_map br a = Some v \<and> \<not> Q v"
      then obtain f e where f: "f \<in> linked br" "fdb_heap br f = Some e" "fdb_addr e = a" "info e = v"
        using fdb_map_iff [OF ok] by blast
      then have "f \<in> linked b" using l q by blast
      then show "fdb_map b a = Some v" using f b(4) fdb_map_iff [OF b(2)] by auto
    qed
    then show ?thesis by (auto simp: spec_drop_def split: option.splits)
  qed
  then have "fdb_map b = spec_drop Q (fdb_map br)" by (metis not_Some_eq ext)
  then show ?thesis using b(1,2,5) by blast
qed

lemma concat_link:
  "i < length xss \<Longrightarrow> distinct (concat xss) \<Longrightarrow> f \<notin> set (concat xss) \<Longrightarrow>
    distinct (concat (xss[i := f # xss ! i])) \<and> set (concat (xss[i := f # xss ! i])) = insert f (set (concat xss))"
proof (induction xss arbitrary: i)
  case (Cons xs xss)
  then show ?case by (cases i) fastforce+
qed simp

text \<open>Putting an entry with an address that no linked entry has into its chain.\<close>

lemma link_ok:
  assumes len: "length (hash b) = 256" and dist: "distinct (concat (hash b))" and new: "f \<notin> linked b"
    and chains: "\<And>i g. i < 256 \<Longrightarrow> g \<in> set (hash b ! i) \<Longrightarrow> \<exists>e. fdb_heap b g = Some e \<and> br_mac_hash (fdb_addr e) = i"
    and inj: "\<And>g h d k. g \<in> linked b \<Longrightarrow> h \<in> linked b \<Longrightarrow> fdb_heap b g = Some d \<Longrightarrow> fdb_heap b h = Some k \<Longrightarrow>
       fdb_addr d = fdb_addr k \<Longrightarrow> g = h"
    and f: "fdb_heap b f = Some e" and fresh: "\<And>g d. g \<in> linked b \<Longrightarrow> fdb_heap b g = Some d \<Longrightarrow> fdb_addr d \<noteq> fdb_addr e"
    and counts: "\<And>g. case fdb_heap b g of
        None \<Rightarrow> g \<notin> linked b \<and> count refs g = 0
      | Some d \<Rightarrow> use_count d = (if g \<in> linked b \<or> g = f then 1 else 0) + int (count refs g) \<and> 0 < use_count d \<and> is_static d = is_local d"
  shows "fdb_ok (hash_link f (br_mac_hash (fdb_addr e)) b) refs \<and> linked (hash_link f (br_mac_hash (fdb_addr e)) b) = insert f (linked b)"
proof -
  let ?h = "br_mac_hash (fdb_addr e)"
  let ?b = "hash_link f ?h b"
  have h: "?h < 256" by (rule hash_bound)
  note c = concat_link [of ?h "hash b" f] and fn = new [unfolded linked_def]
  have l: "linked ?b = insert f (linked b)" using c h len dist fn by (simp add: linked_def hash_link_def)
  have hb: "hash ?b ! i = (if i = ?h then f # hash b ! i else hash b ! i)" "fdb_heap ?b = fdb_heap b" if "i < 256" for i
    using that len h by (auto simp: hash_link_def)
  have "fdb_ok ?b refs"
    unfolding fdb_ok_def l
  proof (intro conjI allI impI ballI)
    fix i g assume i: "i < 256" "g \<in> set (hash ?b ! i)"
    then show "\<exists>d. fdb_heap ?b g = Some d \<and> br_mac_hash (fdb_addr d) = i"
      using chains f unfolding hb [OF i(1)] by (auto split: if_splits)
  next
    fix g d k m
    assume "g \<in> insert f (linked b) \<and> k \<in> insert f (linked b) \<and> fdb_heap ?b g = Some d \<and> fdb_heap ?b k = Some m \<and> fdb_addr d = fdb_addr m"
    then show "g = k" using inj fresh f hb(2) [OF h] by (metis insert_iff option.inject)
  next
    fix g
    show "case fdb_heap ?b g of None \<Rightarrow> g \<notin> insert f (linked b) \<and> count refs g = 0
      | Some d \<Rightarrow> use_count d = (if g \<in> insert f (linked b) then 1 else 0) + int (count refs g) \<and> 0 < use_count d \<and> is_static d = is_local d"
      using counts [of g] f hb(2) [OF h] by (cases "fdb_heap b g") auto
  qed (use c h len dist fn in \<open>simp_all add: hash_link_def\<close>)
  then show ?thesis using l by blast
qed

lemma map_upd_iff: "(\<forall>v. m x = Some v \<longleftrightarrow> (m'(a \<mapsto> w)) x = Some v) \<Longrightarrow> m x = (m'(a \<mapsto> w)) x"
  by (cases "m x"; cases "(m'(a \<mapsto> w)) x") auto

lemma insert_ok:
  assumes ok: "fdb_ok br refs" and new: "fdb_heap br new = None"
  shows "\<exists>br'. br_fdb_insert source a loc new br = Some br' \<and> fdb_ok br' refs \<and>
    fdb_map br' = spec_insert (mem_ok br) (jiffies br) source a loc (fdb_map br) \<and> br' = br\<lparr>hash := hash br', fdb_heap := fdb_heap br'\<rparr>"
proof (cases "entry_at br a")
  case (Some f)
  then obtain e where e: "f \<in> linked br" "fdb_heap br f = Some e" "fdb_addr e = a" using entry_at_iff [OF ok] by blast
  note u = fdb_okD(7,8,9) [OF ok e(2)]
  have m: "fdb_map br a = Some (info e)" using fdb_map_iff [OF ok] e by blast
  show ?thesis
  proof (cases "is_local e")
    case True
    then have "br_fdb_insert source a loc new br = Some br" by (simp add: br_fdb_insert_def lookup_ok [OF ok] Some e(2) Let_def)
    then show ?thesis using ok m True by (simp add: spec_insert_def info_def)
  next
    case False
    let ?e = "e\<lparr>fdb_dst := source, is_local := loc, is_static := loc, ageing_timer := jiffies br\<rparr>"
    let ?b = "br\<lparr>fdb_heap := (fdb_heap br)(f \<mapsto> ?e)\<rparr>"
    have b: "br_fdb_insert source a loc new br = Some ?b"
      using False u by (simp add: br_fdb_insert_def lookup_ok [OF ok] Some e(2) Let_def fdb_possibly_replace_def)
    have okb: "fdb_ok ?b refs" by (rule set_entry_ok [OF ok e(2)]) (use u e(1) in auto)
    have "fdb_map ?b x = Some v \<longleftrightarrow> ((fdb_map br)(a \<mapsto> (source, jiffies br, loc))) x = Some v" for x v
    proof -
      have "fdb_map ?b x = Some v \<longleftrightarrow> (\<exists>g \<in> linked br. \<exists>d. ((fdb_heap br)(f \<mapsto> ?e)) g = Some d \<and> fdb_addr d = x \<and> info d = v)"
        unfolding fdb_map_iff [OF okb] by (simp add: linked_def)
      also have "\<dots> \<longleftrightarrow> (if x = a then v = (source, jiffies br, loc) else fdb_map br x = Some v)"
      proof (cases "x = a")
        case True
        have "g = f" if "g \<in> linked br" "((fdb_heap br)(f \<mapsto> ?e)) g = Some d" "fdb_addr d = a" for g d
          using that fdb_okD(6) [OF ok _ e(1) _ e(2)] e(3) by (auto split: if_splits)
        then have "(\<exists>g \<in> linked br. \<exists>d. ((fdb_heap br)(f \<mapsto> ?e)) g = Some d \<and> fdb_addr d = a \<and> info d = v) \<longleftrightarrow>
            (\<exists>d. ((fdb_heap br)(f \<mapsto> ?e)) f = Some d \<and> fdb_addr d = a \<and> info d = v)"
          using e(1) by blast
        also have "\<dots> \<longleftrightarrow> info ?e = v" by (simp add: e(3))
        finally show ?thesis unfolding True by (auto simp: info_def)
      next
        case False
        then have "((fdb_heap br)(f \<mapsto> ?e)) g = Some d \<and> fdb_addr d = x \<longleftrightarrow> fdb_heap br g = Some d \<and> fdb_addr d = x" for g d
          using e by auto
        then show ?thesis unfolding fdb_map_iff [OF ok] conj_assoc [symmetric] using False by simp
      qed
      finally show ?thesis by auto
    qed
    then have "fdb_map ?b = (fdb_map br)(a \<mapsto> (source, jiffies br, loc))" by (intro ext map_upd_iff) blast
    then show ?thesis using b okb m False by (simp add: spec_insert_def info_def)
  qed
next
  case None
  then have m: "fdb_map br a = None" by (simp add: fdb_map_def)
  show ?thesis
  proof (cases "mem_ok br")
    case False
    then have "br_fdb_insert source a loc new br = Some br" by (simp add: br_fdb_insert_def lookup_ok [OF ok] None Let_def)
    then show ?thesis using ok m False by (simp add: spec_insert_def)
  next
    case True
    define e where "e = \<lparr>use_count = 1, fdb_addr = a, fdb_dst = source, ageing_timer = jiffies br, is_local = loc, is_static = loc\<rparr>"
    define b where "b = br\<lparr>fdb_heap := (fdb_heap br)(new \<mapsto> e)\<rparr>"
    let ?b = "hash_link new (br_mac_hash (fdb_addr e)) b"
    have n: "new \<notin> linked br" "count refs new = 0" using fdb_okD(10) [OF ok new] by auto
    have lb: "linked b = linked br" "hash b = hash br" by (simp_all add: b_def linked_def)
    have hp: "fdb_heap b g = fdb_heap br g" if "g \<in> linked br" for g using that n(1) by (auto simp: b_def)
    have no: "fdb_addr d \<noteq> a" if "g \<in> linked br" "fdb_heap br g = Some d" for g d
      using entry_at_iff [OF ok, of a g] None that by auto
    have okb: "fdb_ok ?b refs \<and> linked ?b = insert new (linked b)"
    proof (rule link_ok)
      show "\<exists>e. fdb_heap b g = Some e \<and> br_mac_hash (fdb_addr e) = i" if "i < 256" "g \<in> set (hash b ! i)" for i g
        using that bucket_iff [OF ok that(1), of g] hp lb by auto
      show "g = h" if "g \<in> linked b" "h \<in> linked b" "fdb_heap b g = Some d" "fdb_heap b h = Some k" "fdb_addr d = fdb_addr k" for g h d k
        using that hp fdb_okD(6) [OF ok] unfolding lb by metis
      show "fdb_addr d \<noteq> fdb_addr e" if "g \<in> linked b" "fdb_heap b g = Some d" for g d
        using that hp no unfolding lb by (auto simp: e_def)
      show "case fdb_heap b g of None \<Rightarrow> g \<notin> linked b \<and> count refs g = 0
        | Some d \<Rightarrow> use_count d = (if g \<in> linked b \<or> g = new then 1 else 0) + int (count refs g) \<and> 0 < use_count d \<and> is_static d = is_local d" for g
        using n fdb_okD(7-10) [OF ok, of g] unfolding lb by (cases "fdb_heap br g") (auto simp: b_def e_def)
    qed (use fdb_okD(1,2) [OF ok] lb n in \<open>simp_all add: b_def\<close>)
    have "fdb_map ?b x = Some v \<longleftrightarrow> ((fdb_map br)(a \<mapsto> (source, jiffies br, loc))) x = Some v" for x v
    proof -
      have "fdb_map ?b x = Some v \<longleftrightarrow> (\<exists>g \<in> insert new (linked br). \<exists>d. fdb_heap b g = Some d \<and> fdb_addr d = x \<and> info d = v)"
        using okb fdb_map_iff [of ?b refs] lb(1) by (simp add: hash_link_def)
      also have "\<dots> \<longleftrightarrow> a = x \<and> v = (source, jiffies br, loc) \<or> fdb_map br x = Some v"
        unfolding fdb_map_iff [OF ok] using hp by (auto simp: b_def e_def info_def)
      finally show ?thesis using m by auto
    qed
    then have "fdb_map ?b = (fdb_map br)(a \<mapsto> (source, jiffies br, loc))" by (intro ext map_upd_iff) blast
    moreover have "br_fdb_insert source a loc new br = Some ?b"
      using True by (simp add: br_fdb_insert_def lookup_ok [OF ok] None Let_def b_def e_def)
    moreover have "?b = br\<lparr>hash := hash ?b, fdb_heap := fdb_heap ?b\<rparr>" by (simp add: hash_link_def b_def)
    ultimately show ?thesis using okb m True by (simp add: spec_insert_def)
  qed
qed

lemma changeaddr_ok:
  assumes ok: "fdb_ok br refs" and free: "fdb_map br newaddr = None"
  shows "\<exists>br'. br_fdb_changeaddr p newaddr br = Some br' \<and> fdb_ok br' refs \<and> br' = br\<lparr>hash := hash br', fdb_heap := fdb_heap br'\<rparr> \<and>
    (if \<exists>a t. fdb_map br a = Some (p, t, True)
     then \<exists>a t. fdb_map br a = Some (p, t, True) \<and> fdb_map br' = (fdb_map br)(a := None, newaddr \<mapsto> (p, t, True)) else br' = br)"
proof -
  let ?P = "\<lambda>f. \<exists>e. fdb_heap br f = Some e \<and> fdb_dst e = p \<and> is_local e"
  have fnd: "fdb_find (fdb_heap br) (\<lambda>f. fdb_dst f = p \<and> is_local f) (concat (hash br)) = Some (find ?P (concat (hash br)))"
    by (rule find_ok) (use fdb_okD(3) [OF ok] in \<open>auto simp: linked_def\<close>)
  show ?thesis
  proof (cases "find ?P (concat (hash br))")
    case None
    then have no: "\<not> ?P f" if "f \<in> linked br" for f using that by (auto simp: find_None_iff linked_def)
    have "fdb_map br a \<noteq> Some (p, t, True)" for a t
    proof
      assume "fdb_map br a = Some (p, t, True)"
      then obtain f e where "f \<in> linked br" "fdb_heap br f = Some e" "info e = (p, t, True)" unfolding fdb_map_iff [OF ok] by blast
      then show False using no by (auto simp: info_def)
    qed
    then show ?thesis using ok None by (simp add: br_fdb_changeaddr_def fnd)
  next
    case (Some f)
    then have f: "f \<in> linked br" "?P f" unfolding find_Some_iff linked_def by (metis nth_mem)+
    then obtain e where e: "fdb_heap br f = Some e" "fdb_dst e = p" "is_local e" by blast
    define d where "d = e\<lparr>fdb_addr := newaddr\<rparr>"
    define b where "b = (hash_unlink f br)\<lparr>fdb_heap := (fdb_heap br)(f \<mapsto> d)\<rparr>"
    note dist = distinct_concat_remove1 [OF fdb_okD(2) [OF ok], of f]
    have lb: "linked b = linked br - {f}" "hash b = map (remove1 f) (hash br)"
      using dist by (simp_all add: b_def hash_unlink_def linked_def)
    have hp: "fdb_heap b g = fdb_heap br g" if "g \<noteq> f" for g using that by (simp add: b_def)
    have no: "fdb_addr k \<noteq> newaddr" if "g \<in> linked br" "fdb_heap br g = Some k" for g k
      using free that fdb_map_iff [OF ok] by (metis option.distinct(1))
    let ?b = "hash_link f (br_mac_hash (fdb_addr d)) b"
    have okb: "fdb_ok ?b refs \<and> linked ?b = insert f (linked b)"
    proof (rule link_ok)
      show "\<exists>e. fdb_heap b g = Some e \<and> br_mac_hash (fdb_addr e) = i" if i: "i < 256" "g \<in> set (hash b ! i)" for i g
      proof -
        have "distinct (hash br ! i)" using fdb_okD(1,2) [OF ok] i(1) by (simp add: distinct_concat_iff)
        then have "g \<in> set (hash br ! i)" "g \<noteq> f" using i fdb_okD(1) [OF ok] lb(2) by (auto simp: set_remove1_eq)
        then show ?thesis using bucket_iff [OF ok i(1)] hp by auto
      qed
      show "g = h" if "g \<in> linked b" "h \<in> linked b" "fdb_heap b g = Some u" "fdb_heap b h = Some k" "fdb_addr u = fdb_addr k" for g h u k
        using that hp fdb_okD(6) [OF ok] unfolding lb by (metis DiffD1 DiffD2 singletonI)
      show "fdb_addr k \<noteq> fdb_addr d" if "g \<in> linked b" "fdb_heap b g = Some k" for g k
        using that hp no unfolding lb by (auto simp: d_def)
      show "case fdb_heap b g of None \<Rightarrow> g \<notin> linked b \<and> count refs g = 0
        | Some d \<Rightarrow> use_count d = (if g \<in> linked b \<or> g = f then 1 else 0) + int (count refs g) \<and> 0 < use_count d \<and> is_static d = is_local d" for g
        using f(1) e fdb_okD(7-10) [OF ok, of g] unfolding lb by (cases "fdb_heap br g") (auto simp: b_def d_def)
    qed (use fdb_okD(1) [OF ok] dist lb in \<open>simp_all add: b_def\<close>)
    have old: "fdb_map br (fdb_addr e) = Some (p, ageing_timer e, True)"
      using fdb_map_iff [OF ok] f(1) e by (auto simp: info_def)
    have "fdb_map ?b x = Some v \<longleftrightarrow> ((fdb_map br)(fdb_addr e := None, newaddr \<mapsto> (p, ageing_timer e, True))) x = Some v" for x v
    proof -
      have "fdb_map ?b x = Some v \<longleftrightarrow> (\<exists>g \<in> insert f (linked br - {f}). \<exists>d. fdb_heap b g = Some d \<and> fdb_addr d = x \<and> info d = v)"
        using okb fdb_map_iff [of ?b refs] lb(1) by (simp add: hash_link_def)
      also have "\<dots> \<longleftrightarrow> newaddr = x \<and> v = (p, ageing_timer e, True) \<or> (\<exists>g \<in> linked br - {f}. \<exists>d. fdb_heap br g = Some d \<and> fdb_addr d = x \<and> info d = v)"
        using hp e by (auto simp: b_def d_def info_def)
      also have "(\<exists>g \<in> linked br - {f}. \<exists>d. fdb_heap br g = Some d \<and> fdb_addr d = x \<and> info d = v) \<longleftrightarrow> x \<noteq> fdb_addr e \<and> fdb_map br x = Some v"
        unfolding fdb_map_iff [OF ok] using fdb_okD(6) [OF ok _ f(1) _ e(1)] e(1) by auto
      finally show ?thesis using free by auto
    qed
    then have m: "fdb_map ?b = (fdb_map br)(fdb_addr e := None, newaddr \<mapsto> (p, ageing_timer e, True))" by (intro ext map_upd_iff) blast
    have "br_fdb_changeaddr p newaddr br = Some ?b"
      by (simp add: br_fdb_changeaddr_def fnd Some e(1) b_def d_def Let_def hash_unlink_def)
    moreover have "?b = br\<lparr>hash := hash ?b, fdb_heap := fdb_heap ?b\<rparr>" by (simp add: hash_link_def b_def hash_unlink_def)
    moreover have ex: "\<exists>a t. fdb_map br a = Some (p, t, True)" using old by blast
    ultimately show ?thesis unfolding if_P [OF ex] using okb m old by blast
  qed
qed

subsection \<open>The table over time\<close>

text \<open>
  Any sequence of operations: learning an address, looking one up, giving a reference back, ageing,
  removing a port and changing the address of a local interface, between which the time and everything else about
  the bridge may change.
\<close>

record fdb_sys =
  tab :: net_bridge
  held :: "nat multiset"

definition fdb_start :: "fdb_sys \<Rightarrow> bool" where
  "fdb_start s \<longleftrightarrow> hash (tab s) = replicate 256 [] \<and> fdb_heap (tab s) = Map.empty \<and> held s = {#}"

inductive fdb_step :: "fdb_sys \<Rightarrow> fdb_sys \<Rightarrow> bool" where
  learn: "br_fdb_insert source a loc new (tab s) = Some b \<Longrightarrow> fdb_heap (tab s) new = None \<Longrightarrow> fdb_step s (s\<lparr>tab := b\<rparr>)"
| lookup: "br_fdb_get a (tab s) = Some (b, r) \<Longrightarrow>
    fdb_step s \<lparr>tab = b, held = (case r of None \<Rightarrow> held s | Some f \<Rightarrow> add_mset f (held s))\<rparr>"
| release: "f \<in># held s \<Longrightarrow> br_fdb_put f (tab s) = Some b \<Longrightarrow> fdb_step s \<lparr>tab = b, held = held s - {#f#}\<rparr>"
| age: "br_fdb_cleanup (tab s) = Some b \<Longrightarrow> fdb_step s (s\<lparr>tab := b\<rparr>)"
| port_gone: "br_fdb_delete_by_port p (tab s) = Some b \<Longrightarrow> fdb_step s (s\<lparr>tab := b\<rparr>)"
| rename: "br_fdb_changeaddr p a (tab s) = Some b \<Longrightarrow> fdb_map (tab s) a = None \<Longrightarrow> fdb_step s (s\<lparr>tab := b\<rparr>)"
| other: "hash b = hash (tab s) \<Longrightarrow> fdb_heap b = fdb_heap (tab s) \<Longrightarrow> fdb_step s (s\<lparr>tab := b\<rparr>)"

lemma cleanup_ok:
  assumes "fdb_ok br refs"
  shows "\<exists>br'. br_fdb_cleanup br = Some br' \<and> fdb_ok br' refs \<and> fdb_map br' = spec_drop (stale br) (fdb_map br) \<and>
    br' = br\<lparr>hash := hash br', fdb_heap := fdb_heap br'\<rparr>"
  unfolding br_fdb_cleanup_def Let_def by (rule sweep_ok [OF assms]) (simp add: stale_def info_def)

lemma delete_by_port_ok:
  assumes "fdb_ok br refs"
  shows "\<exists>br'. br_fdb_delete_by_port p br = Some br' \<and> fdb_ok br' refs \<and> fdb_map br' = spec_drop (\<lambda>v. fst v = p) (fdb_map br) \<and>
    br' = br\<lparr>hash := hash br', fdb_heap := fdb_heap br'\<rparr>"
  unfolding br_fdb_delete_by_port_def by (rule sweep_ok [OF assms]) (simp add: info_def)

lemma fdb_step_inv: "fdb_step s t \<Longrightarrow> fdb_ok (tab s) (held s) \<Longrightarrow> fdb_ok (tab t) (held t)"
proof (induction rule: fdb_step.induct)
  case (learn source a loc new s b)
  then show ?case using insert_ok [OF learn.prems learn.hyps(2), of source a loc] by auto
next
  case (lookup a s b r)
  then show ?case using get_ok [OF lookup.prems, of a] by (cases r) auto
next
  case (release f s b)
  then show ?case using fdb_put_ok [OF release.prems release.hyps(1)] by auto
next
  case (age s b)
  then show ?case using cleanup_ok [OF age.prems] by auto
next
  case (port_gone p s b)
  then show ?case using delete_by_port_ok [OF port_gone.prems, of p] by auto
next
  case (rename p a s b)
  then show ?case using changeaddr_ok [OF rename.prems rename.hyps(2), of p] by auto
next
  case (other b s)
  have "fdb_ok b (held s)" using fdb_ok_parts [OF other.hyps] other.prems by blast
  then show ?case by simp
qed

lemma fdb_start_inv: "fdb_start s \<Longrightarrow> fdb_ok (tab s) (held s)"
  by (auto simp: fdb_start_def fdb_ok_def linked_def)

interpretation fdbm: state_machine fdb_start fdb_step "\<lambda>s. fdb_ok (tab s) (held s)"
  by unfold_locales (rule fdb_start_inv, assumption, rule fdb_step_inv)



subsection \<open>The properties at work\<close>

lemma blank_fdb: "fdb_start \<lparr>tab = new_nb 0, held = {#}\<rparr>"
  by (simp add: fdb_start_def new_nb_def)

definition learned_bridge :: net_bridge where
  "learned_bridge = the (br_fdb_insert 2 (0, 1, 2, 3, 4, 5) False 7 (new_nb 0))"

lemma learned: "br_fdb_insert 2 (0, 1, 2, 3, 4, 5) False 7 (new_nb 0) = Some learned_bridge"
    "fdb_map learned_bridge = [(0, 1, 2, 3, 4, 5) \<mapsto> (2, 0, False)]" "fdb_ok learned_bridge {#}"
proof -
  have ok: "fdb_ok (new_nb 0) {#}" using fdb_start_inv [OF blank_fdb] by simp
  have "fdb_map (new_nb 0) = Map.empty" by (rule ext) (simp add: fdb_map_def entry_at_def new_nb_def hash_bound)
  moreover have "fdb_heap (new_nb 0) 7 = None" by (simp add: new_nb_def)
  then obtain b where "br_fdb_insert 2 (0, 1, 2, 3, 4, 5) False 7 (new_nb 0) = Some b" "fdb_ok b {#}"
      "fdb_map b = spec_insert (mem_ok (new_nb 0)) (jiffies (new_nb 0)) 2 (0, 1, 2, 3, 4, 5) False (fdb_map (new_nb 0))"
    using insert_ok [OF ok] by blast
  ultimately show "br_fdb_insert 2 (0, 1, 2, 3, 4, 5) False 7 (new_nb 0) = Some learned_bridge"
    "fdb_map learned_bridge = [(0, 1, 2, 3, 4, 5) \<mapsto> (2, 0, False)]" "fdb_ok learned_bridge {#}"
    by (simp_all add: learned_bridge_def spec_insert_def new_nb_def)
qed

lemma learned_linked: "7 \<in> linked learned_bridge" "fdb_heap learned_bridge 8 = None"
proof -
  have "entry_at (new_nb 0) (0, 1, 2, 3, 4, 5) = None" by (simp add: entry_at_def new_nb_def hash_bound del: br_mac_hash.simps)
  then have l: "learned_bridge = hash_link 7 (br_mac_hash (0, 1, 2, 3, 4, 5)) ((new_nb 0)\<lparr>fdb_heap := [7 \<mapsto>
      \<lparr>use_count = 1, fdb_addr = (0, 1, 2, 3, 4, 5), fdb_dst = 2, ageing_timer = 0, is_local = False, is_static = False\<rparr>]\<rparr>)"
    using lookup_ok [OF fdb_start_inv [OF blank_fdb, unfolded fdb_sys.simps], of "(0, 1, 2, 3, 4, 5)"]
    by (simp add: learned_bridge_def br_fdb_insert_def Let_def new_nb_def del: br_mac_hash.simps)
  show "7 \<in> linked learned_bridge" "fdb_heap learned_bridge 8 = None"
    using hash_bound [of "(0, 1, 2, 3, 4, 5)"]
    by (simp_all add: l hash_link_def linked_def new_nb_def set_update_distinct del: br_mac_hash.simps)
      (metis length_replicate list.set_intros(1) set_update_memI)
qed

lemma learned_run: "fdb_step\<^sup>*\<^sup>* \<lparr>tab = new_nb 0, held = {#}\<rparr> \<lparr>tab = learned_bridge, held = {#}\<rparr>"
  using fdb_step.learn [of 2 "(0, 1, 2, 3, 4, 5)" False 7 "\<lparr>tab = new_nb 0, held = {#}\<rparr>" learned_bridge] learned(1)
  by (auto simp: new_nb_def)



end
