(* ===== verification/BrStp.thy ===== *)
theory BrStp
  imports BrFdb
begin

text \<open>
  The spanning tree protocol of the bridge (net/bridge/br_stp.c, br_stp_if.c, br_stp_timer.c, br_stp_bpdu.c)
  with the adding and removing of ports (br_if.c).  The functions run under the bridge lock and are
  total on the model up to NULL pointers: None is a use of \<open>br_get_port\<close>'s answer where no port has
  the number, or of a freed forwarding entry, so that its absence is a theorem.  A frame that is sent is recorded in
  \<open>sent\<close> with its port; messages to the log are not modelled.
\<close>

subsection \<open>Sending BPDUs (br_stp_bpdu.c)\<close>

record br_config_bpdu =
  bp_topology_change :: bool
  bp_topology_change_ack :: bool
  bp_root :: bridge_id
  bp_root_path_cost :: int
  bp_bridge_id :: bridge_id
  bp_port_id :: u16
  bp_message_age :: int
  bp_max_age :: int
  bp_hello_time :: int
  bp_forward_delay :: int

definition bridge_ula :: mac where
  "bridge_ula = (0x01, 0x80, 0xc2, 0x00, 0x00, 0x00)"

definition BPDU_TYPE_CONFIG :: u8 where "BPDU_TYPE_CONFIG = 0"
definition BPDU_TYPE_TCN :: u8 where "BPDU_TYPE_TCN = 0x80"

text \<open>Division as C has it, for a positive divisor.\<close>

definition tdiv :: "int \<Rightarrow> int \<Rightarrow> int" where
  "tdiv a b = (if a < 0 then - ((- a) div b) else a div b)"

definition JIFFIES_TO_TICKS :: "int \<Rightarrow> int" where
  "JIFFIES_TO_TICKS j = tdiv (s32 (j * 256)) HZ"

definition TICKS_TO_JIFFIES :: "int \<Rightarrow> int" where
  "TICKS_TO_JIFFIES t = t * HZ div 256"

definition br_set_ticks :: "int \<Rightarrow> u8 list" where
  "br_set_ticks jiff = (let ticks = word_of_int (JIFFIES_TO_TICKS jiff) :: u16 in [ucast (drop_bit 8 ticks), ucast ticks])"

definition br_get_ticks :: "u8 \<Rightarrow> u8 \<Rightarrow> int" where
  "br_get_ticks a b = TICKS_TO_JIFFIES (uint a * 256 + uint b)"

definition br_send_bpdu :: "nat \<Rightarrow> u8 list \<Rightarrow> net_bridge \<Rightarrow> net_bridge option" where
  "br_send_bpdu no data br = do {
     p \<leftarrow> br_get_port br no;
     if \<not> stp_enabled br then Some br
     else if \<not> mem_ok br then Some br
     else
       let size = max 60 (length data + 14);
           frame = mac_bytes bridge_ula @ mac_bytes (dev_addr (dev p)) @ [0, of_nat (length data)] @ data @
             replicate (size - length data - 14) 0xa5
       in Some (br\<lparr>sent := sent br @ [(no, frame)]\<rparr>) }"

definition word_bytes_be :: "int \<Rightarrow> u8 list" where
  "word_bytes_be c = (let w = word_of_int c :: u32 in [ucast (drop_bit 24 w), ucast (drop_bit 16 w), ucast (drop_bit 8 w), ucast w])"

definition config_buf :: "br_config_bpdu \<Rightarrow> u8 list" where
  "config_buf b =
     [0x42, 0x42, 0x03, 0, 0, 0, BPDU_TYPE_CONFIG,
      (if bp_topology_change b then 0x01 else 0) OR (if bp_topology_change_ack b then 0x80 else 0)] @
     id_bytes (bp_root b) @ word_bytes_be (bp_root_path_cost b) @ id_bytes (bp_bridge_id b) @
     [ucast (drop_bit 8 (bp_port_id b)), ucast (bp_port_id b)] @
     br_set_ticks (bp_message_age b) @ br_set_ticks (bp_max_age b) @ br_set_ticks (bp_hello_time b) @
     br_set_ticks (bp_forward_delay b)"

definition br_send_config_bpdu :: "nat \<Rightarrow> br_config_bpdu \<Rightarrow> net_bridge \<Rightarrow> net_bridge option" where
  "br_send_config_bpdu no bpdu br = br_send_bpdu no (config_buf bpdu) br"

definition br_send_tcn_bpdu :: "nat \<Rightarrow> net_bridge \<Rightarrow> net_bridge option" where
  "br_send_tcn_bpdu no br = br_send_bpdu no [0x42, 0x42, 0x03, 0, 0, 0, BPDU_TYPE_TCN] br"

subsection \<open>The protocol (br_stp.c)\<close>

definition MESSAGE_AGE_INCR :: int where
  "MESSAGE_AGE_INCR = (if HZ < 256 then 1 else HZ div 256)"

definition br_is_root_bridge :: "net_bridge \<Rightarrow> bool" where
  "br_is_root_bridge br \<longleftrightarrow> memcmp_id (bridge_id br) (designated_root br) = 0"

definition br_is_designated_port :: "net_bridge \<Rightarrow> net_bridge_port \<Rightarrow> bool" where
  "br_is_designated_port br p \<longleftrightarrow> memcmp_id (designated_bridge p) (bridge_id br) = 0 \<and> designated_port p = port_id p"

definition br_should_become_root_port :: "net_bridge \<Rightarrow> net_bridge_port \<Rightarrow> nat \<Rightarrow> bool option" where
  "br_should_become_root_port br p rport =
     (if state p = Disabled \<or> br_is_designated_port br p then Some False
      else if memcmp_id (bridge_id br) (p_designated_root p) \<le> 0 then Some False
      else if rport = 0 then Some True
      else do {
        rp \<leftarrow> br_get_port br rport;
        let t = memcmp_id (p_designated_root p) (p_designated_root rp);
        if t < 0 then Some True
        else if t > 0 then Some False
        else if s32 (designated_cost p + path_cost p) < s32 (designated_cost rp + path_cost rp) then Some True
        else if s32 (designated_cost p + path_cost p) > s32 (designated_cost rp + path_cost rp) then Some False
        else
          let t = memcmp_id (designated_bridge p) (designated_bridge rp) in
          if t < 0 then Some True
          else if t > 0 then Some False
          else if designated_port p < designated_port rp then Some True
          else if designated_port p > designated_port rp then Some False
          else Some (port_id p < port_id rp) })"

fun root_loop :: "net_bridge \<Rightarrow> net_bridge_port list \<Rightarrow> nat \<Rightarrow> nat option" where
  "root_loop br [] rport = Some rport"
| "root_loop br (p # ps) rport = do {
     b \<leftarrow> br_should_become_root_port br p rport;
     root_loop br ps (if b then port_no p else rport) }"

definition br_root_selection :: "net_bridge \<Rightarrow> net_bridge option" where
  "br_root_selection br = do {
     rport \<leftarrow> root_loop br (port_list br) 0;
     let br = br\<lparr>root_port := rport\<rparr>;
     if rport = 0 then Some (br\<lparr>designated_root := bridge_id br, root_path_cost := 0\<rparr>)
     else do {
       p \<leftarrow> br_get_port br rport;
       Some (br\<lparr>designated_root := p_designated_root p, root_path_cost := s32 (designated_cost p + path_cost p)\<rparr>) } }"

definition br_transmit_tcn :: "net_bridge \<Rightarrow> net_bridge option" where
  "br_transmit_tcn br = br_send_tcn_bpdu (root_port br) br"

definition br_topology_change_detection :: "net_bridge \<Rightarrow> net_bridge option" where
  "br_topology_change_detection br = do {
     br \<leftarrow> (if br_is_root_bridge br
        then Some (br\<lparr>topology_change := True, topology_change_timer := br_timer_set (jiffies br) (topology_change_timer br)\<rparr>)
        else if \<not> topology_change_detected br then do {
          br \<leftarrow> br_transmit_tcn br;
          Some (br\<lparr>tcn_timer := br_timer_set (jiffies br) (tcn_timer br)\<rparr>) }
        else Some br);
     Some (br\<lparr>topology_change_detected := True\<rparr>) }"

definition br_become_root_bridge :: "net_bridge \<Rightarrow> net_bridge option" where
  "br_become_root_bridge br = do {
     let br = br\<lparr>max_age := bridge_max_age br, hello_time := bridge_hello_time br, forward_delay := bridge_forward_delay br\<rparr>;
     br \<leftarrow> br_topology_change_detection br;
     Some (br\<lparr>tcn_timer := br_timer_clear (tcn_timer br),
       hello_timer := br_timer_set (jiffies br + word_of_int (hello_time br)) (hello_timer br)\<rparr>) }"

definition br_transmit_config :: "nat \<Rightarrow> net_bridge \<Rightarrow> net_bridge option" where
  "br_transmit_config no br = do {
     p \<leftarrow> br_get_port br no;
     if running (hold_timer p) then Some (upd_port no (\<lambda>p. p\<lparr>config_pending := True\<rparr>) br)
     else do {
       age \<leftarrow> (if br_is_root_bridge br then Some 0
         else do {
           root \<leftarrow> br_get_port br (root_port br);
           Some (sint (br_timer_get_residue (jiffies br) (message_age_timer root) + word_of_int MESSAGE_AGE_INCR)) });
       let bpdu = \<lparr>bp_topology_change = topology_change br, bp_topology_change_ack = topology_change_ack p,
         bp_root = designated_root br, bp_root_path_cost = root_path_cost br, bp_bridge_id = bridge_id br,
         bp_port_id = port_id p, bp_message_age = age, bp_max_age = max_age br, bp_hello_time = hello_time br,
         bp_forward_delay = forward_delay br\<rparr>;
       if age < max_age br then do {
         br \<leftarrow> br_send_config_bpdu no bpdu br;
         Some (upd_port no (\<lambda>p. p\<lparr>topology_change_ack := False, config_pending := False,
           hold_timer := br_timer_set (jiffies br) (hold_timer p)\<rparr>) br) }
       else Some br } }"

definition br_record_config_information :: "nat \<Rightarrow> br_config_bpdu \<Rightarrow> net_bridge \<Rightarrow> net_bridge" where
  "br_record_config_information no bpdu br =
     upd_port no (\<lambda>p. p\<lparr>p_designated_root := bp_root bpdu, designated_cost := bp_root_path_cost bpdu,
       designated_bridge := bp_bridge_id bpdu, designated_port := bp_port_id bpdu,
       message_age_timer := br_timer_set (jiffies br + word_of_int (max_age br - bp_message_age bpdu)) (message_age_timer p)\<rparr>) br"

definition br_record_config_timeout_values :: "br_config_bpdu \<Rightarrow> net_bridge \<Rightarrow> net_bridge" where
  "br_record_config_timeout_values bpdu br = br\<lparr>max_age := bp_max_age bpdu, hello_time := bp_hello_time bpdu,
     forward_delay := bp_forward_delay bpdu, topology_change := bp_topology_change bpdu\<rparr>"

definition br_should_become_designated_port :: "net_bridge \<Rightarrow> net_bridge_port \<Rightarrow> bool" where
  "br_should_become_designated_port br p =
     (if br_is_designated_port br p then True
      else if memcmp_id (p_designated_root p) (designated_root br) \<noteq> 0 then True
      else if root_path_cost br < designated_cost p then True
      else if root_path_cost br > designated_cost p then False
      else
        let t = memcmp_id (bridge_id br) (designated_bridge p) in
        if t < 0 then True
        else if t > 0 then False
        else port_id p < designated_port p)"

definition become_designated :: "net_bridge \<Rightarrow> net_bridge_port \<Rightarrow> net_bridge_port" where
  "become_designated br p = p\<lparr>p_designated_root := designated_root br, designated_cost := root_path_cost br,
     designated_bridge := bridge_id br, designated_port := port_id p\<rparr>"

definition br_become_designated_port :: "nat \<Rightarrow> net_bridge \<Rightarrow> net_bridge" where
  "br_become_designated_port no br = upd_port no (become_designated br) br"

text \<open>The body of the loop looks at nothing but the port and fields of the bridge that it does not change.\<close>

definition br_designated_port_selection :: "net_bridge \<Rightarrow> net_bridge" where
  "br_designated_port_selection br = br\<lparr>port_list := map (\<lambda>p.
     if state p \<noteq> Disabled \<and> br_should_become_designated_port br p then become_designated br p else p) (port_list br)\<rparr>"

definition br_supersedes_port_info :: "net_bridge \<Rightarrow> net_bridge_port \<Rightarrow> br_config_bpdu \<Rightarrow> bool" where
  "br_supersedes_port_info br p bpdu =
     (let t = memcmp_id (bp_root bpdu) (p_designated_root p) in
      if t < 0 then True
      else if t > 0 then False
      else if bp_root_path_cost bpdu < designated_cost p then True
      else if bp_root_path_cost bpdu > designated_cost p then False
      else
        let t = memcmp_id (bp_bridge_id bpdu) (designated_bridge p) in
        if t < 0 then True
        else if t > 0 then False
        else if memcmp_id (bp_bridge_id bpdu) (bridge_id br) \<noteq> 0 then True
        else bp_port_id bpdu \<le> designated_port p)"

definition br_topology_change_acknowledged :: "net_bridge \<Rightarrow> net_bridge" where
  "br_topology_change_acknowledged br = br\<lparr>topology_change_detected := False, tcn_timer := br_timer_clear (tcn_timer br)\<rparr>"

definition br_config_bpdu_generation :: "net_bridge \<Rightarrow> net_bridge option" where
  "br_config_bpdu_generation br = mfold (\<lambda>no br. do {
     p \<leftarrow> br_get_port br no;
     if state p \<noteq> Disabled \<and> br_is_designated_port br p then br_transmit_config no br else Some br }) (port_nos br) br"

definition br_reply :: "nat \<Rightarrow> net_bridge \<Rightarrow> net_bridge option" where
  "br_reply no br = br_transmit_config no br"

definition br_configuration_update :: "net_bridge \<Rightarrow> net_bridge option" where
  "br_configuration_update br = do { br \<leftarrow> br_root_selection br; Some (br_designated_port_selection br) }"

definition br_make_blocking :: "nat \<Rightarrow> net_bridge \<Rightarrow> net_bridge option" where
  "br_make_blocking no br = do {
     p \<leftarrow> br_get_port br no;
     if state p \<noteq> Disabled \<and> state p \<noteq> Blocking then do {
       br \<leftarrow> (if state p = Forwarding \<or> state p = Learning then br_topology_change_detection br else Some br);
       Some (upd_port no (\<lambda>p. p\<lparr>state := Blocking, forward_delay_timer := br_timer_clear (forward_delay_timer p)\<rparr>) br) }
     else Some br }"

definition br_make_forwarding :: "nat \<Rightarrow> net_bridge \<Rightarrow> net_bridge option" where
  "br_make_forwarding no br = do {
     p \<leftarrow> br_get_port br no;
     if state p = Blocking then
       Some (upd_port no (\<lambda>p. p\<lparr>state := (if stp_enabled br then Listening else Learning),
         forward_delay_timer := br_timer_set (jiffies br) (forward_delay_timer p)\<rparr>) br)
     else Some br }"

definition select_port_state :: "nat \<Rightarrow> net_bridge \<Rightarrow> net_bridge option" where
  "select_port_state no br = do {
     p \<leftarrow> br_get_port br no;
     if state p \<noteq> Disabled then
       if port_no p = root_port br then
         br_make_forwarding no (upd_port no (\<lambda>p. p\<lparr>config_pending := False, topology_change_ack := False\<rparr>) br)
       else if br_is_designated_port br p then
         br_make_forwarding no (upd_port no (\<lambda>p. p\<lparr>message_age_timer := br_timer_clear (message_age_timer p)\<rparr>) br)
       else br_make_blocking no (upd_port no (\<lambda>p. p\<lparr>config_pending := False, topology_change_ack := False\<rparr>) br)
     else Some br }"

definition br_port_state_selection :: "net_bridge \<Rightarrow> net_bridge option" where
  "br_port_state_selection br = mfold select_port_state (port_nos br) br"

definition br_topology_change_acknowledge :: "nat \<Rightarrow> net_bridge \<Rightarrow> net_bridge option" where
  "br_topology_change_acknowledge no br = br_transmit_config no (upd_port no (\<lambda>p. p\<lparr>topology_change_ack := True\<rparr>) br)"

text \<open>What follows a change of the configuration in several places.\<close>

definition update_and_select :: "net_bridge \<Rightarrow> net_bridge option" where
  "update_and_select br = br_configuration_update br \<bind> br_port_state_selection"

definition root_if_new :: "bool \<Rightarrow> net_bridge \<Rightarrow> net_bridge option" where
  "root_if_new wasroot br = (if br_is_root_bridge br \<and> \<not> wasroot then br_become_root_bridge br else Some br)"

definition br_received_config_bpdu :: "nat \<Rightarrow> br_config_bpdu \<Rightarrow> net_bridge \<Rightarrow> net_bridge option" where
  "br_received_config_bpdu no bpdu br = do {
     p \<leftarrow> br_get_port br no;
     if state p = Disabled then Some br
     else
       let was_root = br_is_root_bridge br in
       if br_supersedes_port_info br p bpdu then do {
         br \<leftarrow> update_and_select (br_record_config_information no bpdu br);
         br \<leftarrow> (if \<not> br_is_root_bridge br \<and> was_root then do {
             let br = br\<lparr>hello_timer := br_timer_clear (hello_timer br)\<rparr>;
             if topology_change_detected br then do {
               br \<leftarrow> br_transmit_tcn (br\<lparr>topology_change_timer := br_timer_clear (topology_change_timer br)\<rparr>);
               Some (br\<lparr>tcn_timer := br_timer_set (jiffies br) (tcn_timer br)\<rparr>) }
             else Some br }
           else Some br);
         if no = root_port br then do {
           br \<leftarrow> br_config_bpdu_generation (br_record_config_timeout_values bpdu br);
           Some (if bp_topology_change_ack bpdu then br_topology_change_acknowledged br else br) }
         else Some br }
       else if br_is_designated_port br p then br_reply no br
       else Some br }"

definition br_received_tcn_bpdu :: "nat \<Rightarrow> net_bridge \<Rightarrow> net_bridge option" where
  "br_received_tcn_bpdu no br = do {
     p \<leftarrow> br_get_port br no;
     if state p \<noteq> Disabled \<and> br_is_designated_port br p
     then br_topology_change_detection br \<bind> br_topology_change_acknowledge no
     else Some br }"

subsection \<open>Receiving BPDUs (br_stp_bpdu.c)\<close>

text \<open>\<open>parse_config\<close> reads the buffer behind the header; \<open>i\<close> bytes further on an identifier starts.\<close>

definition parse_id :: "u8 list \<Rightarrow> nat \<Rightarrow> bridge_id" where
  "parse_id buf i = BridgeId (buf ! i, buf ! (i + 1))
     (buf ! (i + 2), buf ! (i + 3), buf ! (i + 4), buf ! (i + 5), buf ! (i + 6), buf ! (i + 7))"

definition parse_config :: "u8 list \<Rightarrow> br_config_bpdu" where
  "parse_config buf =
     \<lparr>bp_topology_change = (buf ! 1 AND 0x01 \<noteq> 0), bp_topology_change_ack = (buf ! 1 AND 0x80 \<noteq> 0),
      bp_root = parse_id buf 2,
      bp_root_path_cost = sint (push_bit 24 (ucast (buf ! 10)) OR push_bit 16 (ucast (buf ! 11)) OR
        push_bit 8 (ucast (buf ! 12)) OR ucast (buf ! 13) :: u32),
      bp_bridge_id = parse_id buf 14,
      bp_port_id = push_bit 8 (ucast (buf ! 22)) OR ucast (buf ! 23),
      bp_message_age = br_get_ticks (buf ! 24) (buf ! 25), bp_max_age = br_get_ticks (buf ! 26) (buf ! 27),
      bp_hello_time = br_get_ticks (buf ! 28) (buf ! 29), bp_forward_delay = br_get_ticks (buf ! 30) (buf ! 31)\<rparr>"

definition br_stp_handle_bpdu :: "nat \<Rightarrow> u8 list \<Rightarrow> net_bridge \<Rightarrow> net_bridge option" where
  "br_stp_handle_bpdu no data br =
     (if \<not> stp_enabled br \<or> \<not> 7 \<le> length data \<or> memcmp_bytes (take 6 data) [0x42, 0x42, 0x03, 0, 0, 0] \<noteq> 0 then Some br
      else
        let buf = drop 6 data in
        if buf ! 0 = BPDU_TYPE_CONFIG then
          if \<not> 32 \<le> length buf then Some br else br_received_config_bpdu no (parse_config buf) br
        else if buf ! 0 = BPDU_TYPE_TCN then br_received_tcn_bpdu no br
        else Some br)"

subsection \<open>Timers (br_stp_timer.c)\<close>

definition br_is_designated_for_some_port :: "net_bridge \<Rightarrow> bool" where
  "br_is_designated_for_some_port br \<longleftrightarrow>
     (\<exists>p \<in> set (port_list br). state p \<noteq> Disabled \<and> memcmp_id (designated_bridge p) (bridge_id br) = 0)"

definition br_hello_timer_expired :: "net_bridge \<Rightarrow> net_bridge option" where
  "br_hello_timer_expired br = do {
     br \<leftarrow> br_config_bpdu_generation br;
     Some (br\<lparr>hello_timer := br_timer_set (jiffies br) (hello_timer br)\<rparr>) }"

definition br_message_age_timer_expired :: "nat \<Rightarrow> net_bridge \<Rightarrow> net_bridge option" where
  "br_message_age_timer_expired no br =
     (let was_root = br_is_root_bridge br in
      update_and_select (br_become_designated_port no br) \<bind> root_if_new was_root)"

definition br_forward_delay_timer_expired :: "nat \<Rightarrow> net_bridge \<Rightarrow> net_bridge option" where
  "br_forward_delay_timer_expired no br = do {
     p \<leftarrow> br_get_port br no;
     if state p = Listening then
       Some (upd_port no (\<lambda>p. p\<lparr>state := Learning,
         forward_delay_timer := br_timer_set (jiffies br) (forward_delay_timer p)\<rparr>) br)
     else if state p = Learning then
       let br = upd_port no (\<lambda>p. p\<lparr>state := Forwarding\<rparr>) br in
       if br_is_designated_for_some_port br then br_topology_change_detection br else Some br
     else Some br }"

definition br_tcn_timer_expired :: "net_bridge \<Rightarrow> net_bridge option" where
  "br_tcn_timer_expired br = do {
     br \<leftarrow> br_transmit_tcn br;
     Some (br\<lparr>tcn_timer := br_timer_set (jiffies br) (tcn_timer br)\<rparr>) }"

definition br_topology_change_timer_expired :: "net_bridge \<Rightarrow> net_bridge" where
  "br_topology_change_timer_expired br = br\<lparr>topology_change_detected := False, topology_change := False\<rparr>"

definition br_hold_timer_expired :: "nat \<Rightarrow> net_bridge \<Rightarrow> net_bridge option" where
  "br_hold_timer_expired no br = do {
     p \<leftarrow> br_get_port br no;
     if config_pending p then br_transmit_config no br else Some br }"

definition BR_HOLD_TIME :: int where "BR_HOLD_TIME = 1 * HZ"

definition check_message_age :: "nat \<Rightarrow> net_bridge \<Rightarrow> net_bridge option" where
  "check_message_age no br = do {
     p \<leftarrow> br_get_port br no;
     if br_timer_has_expired (jiffies br) (message_age_timer p) (word_of_int (max_age br))
     then br_message_age_timer_expired no (upd_port no (\<lambda>p. p\<lparr>message_age_timer := br_timer_clear (message_age_timer p)\<rparr>) br)
     else Some br }"

definition check_forward_delay :: "nat \<Rightarrow> net_bridge \<Rightarrow> net_bridge option" where
  "check_forward_delay no br = do {
     p \<leftarrow> br_get_port br no;
     if br_timer_has_expired (jiffies br) (forward_delay_timer p) (word_of_int (forward_delay br))
     then br_forward_delay_timer_expired no (upd_port no (\<lambda>p. p\<lparr>forward_delay_timer := br_timer_clear (forward_delay_timer p)\<rparr>) br)
     else Some br }"

definition check_hold :: "nat \<Rightarrow> net_bridge \<Rightarrow> net_bridge option" where
  "check_hold no br = do {
     p \<leftarrow> br_get_port br no;
     if br_timer_has_expired (jiffies br) (hold_timer p) (word_of_int BR_HOLD_TIME)
     then br_hold_timer_expired no (upd_port no (\<lambda>p. p\<lparr>hold_timer := br_timer_clear (hold_timer p)\<rparr>) br)
     else Some br }"

definition br_check_port_timers :: "nat \<Rightarrow> net_bridge \<Rightarrow> net_bridge option" where
  "br_check_port_timers no br = check_message_age no br \<bind> check_forward_delay no \<bind> check_hold no"

definition check_gc :: "net_bridge \<Rightarrow> net_bridge option" where
  "check_gc br =
     (if br_timer_has_expired (jiffies br) (gc_timer br) (word_of_int (gc_interval br))
      then br_fdb_cleanup (br\<lparr>gc_timer := br_timer_set (jiffies br) (gc_timer br)\<rparr>) else Some br)"

definition check_hello :: "net_bridge \<Rightarrow> net_bridge option" where
  "check_hello br =
     (if br_timer_has_expired (jiffies br) (hello_timer br) (word_of_int (hello_time br))
      then br_hello_timer_expired (br\<lparr>hello_timer := br_timer_clear (hello_timer br)\<rparr>) else Some br)"

definition check_tcn :: "net_bridge \<Rightarrow> net_bridge option" where
  "check_tcn br =
     (if br_timer_has_expired (jiffies br) (tcn_timer br) (word_of_int (bridge_hello_time br))
      then br_tcn_timer_expired (br\<lparr>tcn_timer := br_timer_clear (tcn_timer br)\<rparr>) else Some br)"

definition check_topology_change :: "net_bridge \<Rightarrow> net_bridge" where
  "check_topology_change br =
     (if br_timer_has_expired (jiffies br) (topology_change_timer br) (word_of_int (bridge_forward_delay br + bridge_max_age br))
      then br_topology_change_timer_expired (br\<lparr>topology_change_timer := br_timer_clear (topology_change_timer br)\<rparr>) else br)"

definition br_check_timers :: "net_bridge \<Rightarrow> net_bridge option" where
  "br_check_timers br = do {
     br \<leftarrow> check_gc br;
     br \<leftarrow> check_hello br;
     br \<leftarrow> check_tcn br;
     let br = check_topology_change br;
     mfold (\<lambda>no br. do { p \<leftarrow> br_get_port br no; if state p \<noteq> Disabled then br_check_port_timers no br else Some br })
       (port_nos br) br }"

definition br_tick :: "net_bridge \<Rightarrow> net_bridge option" where
  "br_tick br = do { br \<leftarrow> br_check_timers (br\<lparr>tick := False\<rparr>); Some (br\<lparr>tick := True\<rparr>) }"

subsection \<open>Administration (br_stp_if.c)\<close>

definition br_make_port_id :: "net_bridge_port \<Rightarrow> u16" where
  "br_make_port_id p = push_bit 8 (word_of_int (priority p)) OR of_nat (port_no p)"

definition init_port :: "net_bridge \<Rightarrow> net_bridge_port \<Rightarrow> net_bridge_port" where
  "init_port br p =
     (let p = become_designated br (p\<lparr>port_id := br_make_port_id p\<rparr>)
      in p\<lparr>state := Blocking, topology_change_ack := False, config_pending := False,
           message_age_timer := br_timer_clear (message_age_timer p), forward_delay_timer := br_timer_clear (forward_delay_timer p),
           hold_timer := br_timer_clear (hold_timer p)\<rparr>)"

definition br_init_port :: "nat \<Rightarrow> net_bridge \<Rightarrow> net_bridge" where
  "br_init_port no br = upd_port no (init_port br) br"

definition br_stp_enable_port :: "nat \<Rightarrow> net_bridge \<Rightarrow> net_bridge option" where
  "br_stp_enable_port no br = br_port_state_selection (br_init_port no br)"

definition br_stp_disable_port :: "nat \<Rightarrow> net_bridge \<Rightarrow> net_bridge option" where
  "br_stp_disable_port no br =
     (let wasroot = br_is_root_bridge br;
          br = upd_port no (\<lambda>p. (become_designated br p)\<lparr>state := Disabled, topology_change_ack := False, config_pending := False,
            message_age_timer := br_timer_clear (message_age_timer p), forward_delay_timer := br_timer_clear (forward_delay_timer p),
            hold_timer := br_timer_clear (hold_timer p)\<rparr>) br
      in update_and_select br \<bind> root_if_new wasroot)"

definition br_stp_enable_bridge :: "net_bridge \<Rightarrow> net_bridge option" where
  "br_stp_enable_bridge br = do {
     br \<leftarrow> br_config_bpdu_generation (br\<lparr>tick := True, hello_timer := br_timer_set (jiffies br) (hello_timer br)\<rparr>);
     br \<leftarrow> mfold (\<lambda>no br. do { p \<leftarrow> br_get_port br no; if dev_up (dev p) then br_stp_enable_port no br else Some br }) (port_nos br) br;
     Some (br\<lparr>gc_timer := br_timer_set (jiffies br) (gc_timer br)\<rparr>) }"

definition br_stp_disable_bridge :: "net_bridge \<Rightarrow> net_bridge option" where
  "br_stp_disable_bridge br = do {
     br \<leftarrow> br_fdb_cleanup (br\<lparr>topology_change := False, topology_change_detected := False, hello_timer := br_timer_clear (hello_timer br),
       topology_change_timer := br_timer_clear (topology_change_timer br), tcn_timer := br_timer_clear (tcn_timer br),
       gc_timer := br_timer_clear (gc_timer br)\<rparr>);
     br \<leftarrow> mfold (\<lambda>no br. do { p \<leftarrow> br_get_port br no; if state p \<noteq> Disabled then br_stp_disable_port no br else Some br }) (port_nos br) br;
     Some (br\<lparr>tick := False\<rparr>) }"

definition set_id_addr :: "mac \<Rightarrow> bridge_id \<Rightarrow> bridge_id" where
  "set_id_addr a b = BridgeId (prio b) a"

definition br_stp_change_bridge_id :: "mac \<Rightarrow> net_bridge \<Rightarrow> net_bridge option" where
  "br_stp_change_bridge_id addr br =
     (let wasroot = br_is_root_bridge br;
          oldaddr = id_addr (bridge_id br);
          br = br\<lparr>bridge_id := set_id_addr addr (bridge_id br), br_addr := addr,
            port_list := map (\<lambda>p.
              let p = (if memcmp_mac (id_addr (designated_bridge p)) oldaddr = 0
                       then p\<lparr>designated_bridge := set_id_addr addr (designated_bridge p)\<rparr> else p)
              in if memcmp_mac (id_addr (p_designated_root p)) oldaddr = 0
                 then p\<lparr>p_designated_root := set_id_addr addr (p_designated_root p)\<rparr> else p) (port_list br)\<rparr>
      in update_and_select br \<bind> root_if_new wasroot)"

fun least_addr :: "net_bridge_port list \<Rightarrow> mac option \<Rightarrow> mac option" where
  "least_addr [] a = a"
| "least_addr (p # ps) a = least_addr ps
     (case a of None \<Rightarrow> Some (dev_addr (dev p))
      | Some x \<Rightarrow> if memcmp_mac (dev_addr (dev p)) x < 0 then Some (dev_addr (dev p)) else a)"

definition br_stp_recalculate_bridge_id :: "net_bridge \<Rightarrow> net_bridge option" where
  "br_stp_recalculate_bridge_id br =
     (let addr = (case least_addr (port_list br) None of None \<Rightarrow> br_mac_zero | Some a \<Rightarrow> a) in
      if memcmp_mac (id_addr (bridge_id br)) addr \<noteq> 0 then br_stp_change_bridge_id addr br else Some br)"

definition set_id_prio :: "int \<Rightarrow> bridge_id \<Rightarrow> bridge_id" where
  "set_id_prio newprio b =
     (let w = word_of_int newprio :: u32 in BridgeId (ucast (drop_bit 8 w), ucast w) (id_addr b))"

definition br_stp_set_bridge_priority :: "int \<Rightarrow> net_bridge \<Rightarrow> net_bridge option" where
  "br_stp_set_bridge_priority newprio br =
     (let wasroot = br_is_root_bridge br;
          br = br\<lparr>bridge_id := set_id_prio newprio (bridge_id br),
            port_list := map (\<lambda>p. if state p \<noteq> Disabled \<and> br_is_designated_port br p
              then p\<lparr>designated_bridge := set_id_prio newprio (designated_bridge p)\<rparr> else p) (port_list br)\<rparr>
      in update_and_select br \<bind> root_if_new wasroot)"

definition br_stp_set_port_priority :: "nat \<Rightarrow> int \<Rightarrow> net_bridge \<Rightarrow> net_bridge option" where
  "br_stp_set_port_priority no newprio br = do {
     p0 \<leftarrow> br_get_port br no;
     let new_port_id = br_make_port_id (p0\<lparr>priority := newprio mod 256\<rparr>);
     let br = upd_port no (\<lambda>p. p\<lparr>priority := newprio mod 256, port_id := new_port_id,
       designated_port := (if br_is_designated_port br p then new_port_id else designated_port p)\<rparr>) br;
     p \<leftarrow> br_get_port br no;
     if memcmp_id (bridge_id br) (designated_bridge p) = 0 \<and> port_id p < designated_port p
     then br_port_state_selection (br_become_designated_port no br)
     else Some br }"

definition br_stp_set_path_cost :: "nat \<Rightarrow> int \<Rightarrow> net_bridge \<Rightarrow> net_bridge option" where
  "br_stp_set_path_cost no cost br = update_and_select (upd_port no (\<lambda>p. p\<lparr>path_cost := cost\<rparr>) br)"

subsection \<open>Ports come and go (br_if.c, br_notify.c, br_device.c)\<close>

definition br_initial_port_cost :: "net_device \<Rightarrow> int" where
  "br_initial_port_cost d =
     (if take 3 (dev_name d) = ''lec'' then 7
      else if take 3 (dev_name d) = ''eth'' then 100
      else if take 4 (dev_name d) = ''plip'' then 2500
      else 100)"

definition new_nbp :: "net_device \<Rightarrow> net_bridge \<Rightarrow> (nat \<times> net_bridge) option" where
  "new_nbp d br =
     (if \<not> mem_ok br then None
      else case find (\<lambda>i. br_get_port br i = None) [1..<255] of
        None \<Rightarrow> None
      | Some i \<Rightarrow>
          let p = \<lparr>port_no = i, dev = d, port_id = 0, state = Disabled, path_cost = br_initial_port_cost d,
            p_designated_root = BridgeId (0, 0) br_mac_zero, designated_cost = 0, designated_bridge = BridgeId (0, 0) br_mac_zero,
            designated_port = 0, topology_change_ack = False, config_pending = False, priority = 0x80,
            forward_delay_timer = off_timer, hold_timer = off_timer, message_age_timer = off_timer\<rparr>
          in Some (i, br\<lparr>port_list := (init_port br p)\<lparr>state := Disabled\<rparr> # port_list br\<rparr>))"

definition is_valid_ether_addr :: "mac \<Rightarrow> bool" where
  "is_valid_ether_addr a \<longleftrightarrow> fst a AND 1 = 0 \<and> memcmp_mac a br_mac_zero \<noteq> 0"

text \<open>The result code and the new state; \<open>new\<close> is the address of a new forwarding entry.\<close>

definition br_add_if :: "net_device \<Rightarrow> nat \<Rightarrow> net_bridge \<Rightarrow> (int \<times> net_bridge) option" where
  "br_add_if d new br =
     (if dev_in_bridge d then Some (- EBUSY, br)
      else if dev_loopback d \<or> \<not> dev_ether d then Some (- EINVAL, br)
      else if dev_is_bridge d then Some (- ELOOP, br)
      else if \<not> is_valid_ether_addr (dev_addr d) then Some (- EADDRNOTAVAIL, br)
      else case new_nbp (d\<lparr>dev_in_bridge := True\<rparr>) br of
        None \<Rightarrow> Some (- EXFULL, br)
      | Some (no, br) \<Rightarrow> do {
          br \<leftarrow> br_stp_recalculate_bridge_id br;
          br \<leftarrow> br_fdb_insert no (dev_addr d) True new br;
          br \<leftarrow> (if br_up br \<and> dev_up d then br_stp_enable_port no br else Some br);
          Some (0, br) })"

definition br_del_if' :: "nat option \<Rightarrow> net_bridge \<Rightarrow> (int \<times> net_bridge) option" where
  "br_del_if' pno br = (case pno of
       None \<Rightarrow> Some (- EINVAL, br)
     | Some no \<Rightarrow> do {
         _ \<leftarrow> br_get_port br no;
         br \<leftarrow> br_stp_disable_port no br;
         br \<leftarrow> br_fdb_delete_by_port no (br\<lparr>port_list := filter (\<lambda>p. port_no p \<noteq> no) (port_list br)\<rparr>);
         Some (0, br) })"

definition br_del_if :: "nat option \<Rightarrow> net_bridge \<Rightarrow> (int \<times> net_bridge) option" where
  "br_del_if pno br = do {
     (r, br) \<leftarrow> br_del_if' pno br;
     br \<leftarrow> br_stp_recalculate_bridge_id br;
     Some (r, br) }"

definition br_dev_open :: "net_bridge \<Rightarrow> net_bridge option" where
  "br_dev_open br = br_stp_enable_bridge br"

definition br_dev_stop :: "net_bridge \<Rightarrow> net_bridge option" where
  "br_dev_stop br = br_stp_disable_bridge br"

datatype netdev_event = NETDEV_CHANGEADDR | NETDEV_GOING_DOWN | NETDEV_DOWN | NETDEV_UP | NETDEV_UNREGISTER

definition br_device_event :: "netdev_event \<Rightarrow> nat \<Rightarrow> net_bridge \<Rightarrow> net_bridge option" where
  "br_device_event event no br = (case event of
       NETDEV_CHANGEADDR \<Rightarrow> do {
         p \<leftarrow> br_get_port br no;
         br \<leftarrow> br_fdb_changeaddr no (dev_addr (dev p)) br;
         br_stp_recalculate_bridge_id br }
     | NETDEV_GOING_DOWN \<Rightarrow> Some br
     | NETDEV_DOWN \<Rightarrow> if br_up br then br_stp_disable_port no br else Some br
     | NETDEV_UP \<Rightarrow> if br_up br then br_stp_enable_port no br else Some br
     | NETDEV_UNREGISTER \<Rightarrow> map_option snd (br_del_if (Some no) br))"

subsection \<open>Commands of the administrator (br_ioctl.c)\<close>

text \<open>
  The commands that change a bridge; those that only report something are not modelled.  The device
  that ADD_IF and DEL_IF name by its index is a parameter: None if there is none, for DEL_IF with the port of this bridge that it is, if any.
\<close>

datatype brctl =
    BRCTL_ADD_IF "net_device option" nat
  | BRCTL_DEL_IF "nat option option"
  | BRCTL_SET_BRIDGE_FORWARD_DELAY u32
  | BRCTL_SET_BRIDGE_HELLO_TIME u32
  | BRCTL_SET_BRIDGE_MAX_AGE u32
  | BRCTL_SET_AGEING_TIME u32
  | BRCTL_SET_GC_INTERVAL u32
  | BRCTL_SET_BRIDGE_STP_STATE u32
  | BRCTL_SET_BRIDGE_PRIORITY u32
  | BRCTL_SET_PORT_PRIORITY u32 u32
  | BRCTL_SET_PATH_COST u32 u32

fun br_ioctl_device :: "brctl \<Rightarrow> net_bridge \<Rightarrow> (int \<times> net_bridge) option" where
  "br_ioctl_device (BRCTL_ADD_IF None new) br = Some (- EINVAL, br)"
| "br_ioctl_device (BRCTL_ADD_IF (Some d) new) br = br_add_if d new br"
| "br_ioctl_device (BRCTL_DEL_IF None) br = Some (- EINVAL, br)"
| "br_ioctl_device (BRCTL_DEL_IF (Some pno)) br = br_del_if pno br"
| "br_ioctl_device (BRCTL_SET_BRIDGE_FORWARD_DELAY arg0) br =
     (let br = br\<lparr>bridge_forward_delay := sint arg0\<rparr>
      in Some (0, if br_is_root_bridge br then br\<lparr>forward_delay := sint arg0\<rparr> else br))"
| "br_ioctl_device (BRCTL_SET_BRIDGE_HELLO_TIME arg0) br =
     (let br = br\<lparr>bridge_hello_time := sint arg0\<rparr>
      in Some (0, if br_is_root_bridge br then br\<lparr>hello_time := sint arg0\<rparr> else br))"
| "br_ioctl_device (BRCTL_SET_BRIDGE_MAX_AGE arg0) br =
     (let br = br\<lparr>bridge_max_age := sint arg0\<rparr>
      in Some (0, if br_is_root_bridge br then br\<lparr>max_age := sint arg0\<rparr> else br))"
| "br_ioctl_device (BRCTL_SET_AGEING_TIME arg0) br = Some (0, br\<lparr>ageing_time := sint arg0\<rparr>)"
| "br_ioctl_device (BRCTL_SET_GC_INTERVAL arg0) br = Some (0, br\<lparr>gc_interval := sint arg0\<rparr>)"
| "br_ioctl_device (BRCTL_SET_BRIDGE_STP_STATE arg0) br = Some (0, br\<lparr>stp_enabled := (arg0 \<noteq> 0)\<rparr>)"
| "br_ioctl_device (BRCTL_SET_BRIDGE_PRIORITY arg0) br = do {
     br \<leftarrow> br_stp_set_bridge_priority (sint arg0) br;
     Some (0, br) }"
| "br_ioctl_device (BRCTL_SET_PORT_PRIORITY arg0 arg1) br =
     (case br_get_port br (unat arg0) of
        None \<Rightarrow> Some (- EINVAL, br)
      | Some p \<Rightarrow> do { br \<leftarrow> br_stp_set_port_priority (unat arg0) (sint arg1) br; Some (0, br) })"
| "br_ioctl_device (BRCTL_SET_PATH_COST arg0 arg1) br =
     (case br_get_port br (unat arg0) of
        None \<Rightarrow> Some (- EINVAL, br)
      | Some p \<Rightarrow> do { br \<leftarrow> br_stp_set_path_cost (unat arg0) (sint arg1) br; Some (0, br) })"

subsection \<open>What the protocol decides on\<close>

text \<open>
  \<open>view\<close> is the part of the state that the decisions of the protocol depend on; sending frames, setting
  timers and noting topology changes leave it alone.
\<close>

type_synonym port_view = "nat \<times> br_state \<times> u16 \<times> bridge_id \<times> int \<times> int \<times> bridge_id \<times> u16 \<times> net_device \<times> br_timer"

type_synonym bridge_view = "bridge_id \<times> nat \<times> bridge_id \<times> int \<times> nat list list \<times> (nat \<Rightarrow> fdb_entry option) \<times> bool \<times> u32 \<times> int"

definition pv :: "net_bridge_port \<Rightarrow> port_view" where
  "pv p = (port_no p, state p, port_id p, p_designated_root p, designated_cost p, path_cost p, designated_bridge p, designated_port p,
     dev p, forward_delay_timer p)"

definition bv :: "net_bridge \<Rightarrow> bridge_view" where
  "bv br = (bridge_id br, root_port br, designated_root br, root_path_cost br, hash br, fdb_heap br, stp_enabled br, jiffies br,
     bridge_forward_delay br)"

definition view :: "net_bridge \<Rightarrow> port_view list \<times> bridge_view" where
  "view br = (map pv (port_list br), bv br)"

definition wf_ports :: "net_bridge \<Rightarrow> bool" where
  "wf_ports br \<longleftrightarrow> distinct (port_nos br) \<and> 0 \<notin> set (port_nos br)"

definition root_ok :: "net_bridge \<Rightarrow> bool" where
  "root_ok br \<longleftrightarrow> (bridge_id br = designated_root br \<longleftrightarrow> root_port br = 0) \<and> (root_port br \<noteq> 0 \<longrightarrow> root_port br \<in> set (port_nos br))"

definition may_pass :: "net_bridge \<Rightarrow> net_bridge_port \<Rightarrow> bool" where
  "may_pass br p \<longleftrightarrow> port_no p = root_port br \<or> br_is_designated_port br p"

definition states_ok :: "net_bridge \<Rightarrow> bool" where
  "states_ok br \<longleftrightarrow> (\<forall>p \<in> set (port_list br). state p \<in> {Listening, Learning, Forwarding} \<longrightarrow> may_pass br p)"

definition stp_inv :: "net_bridge \<Rightarrow> bool" where
  "stp_inv br \<longleftrightarrow> wf_ports br \<and> root_ok br \<and> states_ok br \<and> (\<exists>refs. fdb_ok br refs)"

lemma root_bridge_iff: "br_is_root_bridge br \<longleftrightarrow> bridge_id br = designated_root br"
  by (simp add: br_is_root_bridge_def memcmp_id_less)

lemma designated_iff: "br_is_designated_port br p \<longleftrightarrow> designated_bridge p = bridge_id br \<and> designated_port p = port_id p"
  by (simp add: br_is_designated_port_def memcmp_id_less)

lemma get_portD: "br_get_port br no = Some p \<Longrightarrow> p \<in> set (port_list br) \<and> port_no p = no"
  by (auto simp: br_get_port_def find_Some_iff)

lemma get_port_ex: "no \<in> set (port_nos br) \<Longrightarrow> \<exists>p. br_get_port br no = Some p"
  unfolding br_get_port_def port_nos_def by (cases "find (\<lambda>p. port_no p = no) (port_list br)") (auto simp: find_None_iff)

lemma get_port_iff:
  assumes "wf_ports br"
  shows "br_get_port br no = Some p \<longleftrightarrow> p \<in> set (port_list br) \<and> port_no p = no"
proof
  assume p: "p \<in> set (port_list br) \<and> port_no p = no"
  then have "no \<in> set (port_nos br)" by (auto simp: port_nos_def)
  then obtain q where q: "br_get_port br no = Some q" using get_port_ex by blast
  then have "q = p" using p get_portD [OF q] assms by (auto simp: wf_ports_def port_nos_def distinct_map inj_on_def)
  then show "br_get_port br no = Some p" using q by simp
qed (rule get_portD)

lemma view_port_nos: "view br' = view br \<Longrightarrow> port_nos br' = port_nos br"
proof -
  assume "view br' = view br"
  then have "map fst (map pv (port_list br')) = map fst (map pv (port_list br))" unfolding view_def by (metis prod.inject)
  then show ?thesis by (simp add: port_nos_def pv_def comp_def)
qed

lemma view_inv:
  assumes "view br' = view br"
  shows "wf_ports br' = wf_ports br" "root_ok br' = root_ok br" "states_ok br' = states_ok br" "fdb_ok br' refs = fdb_ok br refs"
    "br_is_root_bridge br' = br_is_root_bridge br"
proof -
  have v: "map pv (port_list br') = map pv (port_list br)" "bridge_id br' = bridge_id br" "root_port br' = root_port br"
      "designated_root br' = designated_root br" "hash br' = hash br" "fdb_heap br' = fdb_heap br"
    using assms by (auto simp: view_def bv_def)
  show "wf_ports br' = wf_ports br" "root_ok br' = root_ok br" using view_port_nos [OF assms] v by (simp_all add: wf_ports_def root_ok_def)
  show "fdb_ok br' refs = fdb_ok br refs" using fdb_ok_parts v by blast
  show "br_is_root_bridge br' = br_is_root_bridge br" using v by (simp add: root_bridge_iff)
  define Q :: "port_view \<Rightarrow> bool" where "Q = (\<lambda>(n, s, i, r, c, k, b, d, e, t). s \<in> {Listening, Learning, Forwarding} \<longrightarrow>
    n = root_port br \<or> b = bridge_id br \<and> d = i)"
  have "states_ok x \<longleftrightarrow> (\<forall>y \<in> set (map pv (port_list x)). Q y)" if "bridge_id x = bridge_id br" "root_port x = root_port br" for x
    using that by (auto simp: states_ok_def may_pass_def designated_iff Q_def pv_def)
  from this [OF v(2,3)] this [OF refl refl] show "states_ok br' = states_ok br" unfolding v(1) by blast
qed

lemma view_stp_inv: "view br' = view br \<Longrightarrow> stp_inv br' = stp_inv br"
  unfolding stp_inv_def using view_inv [of br' br] by blast

lemma upd_port_view: "(\<And>p. pv (f p) = pv p) \<Longrightarrow> view (upd_port no f br) = view br"
  by (simp add: view_def bv_def upd_port_def comp_def if_distrib cong: if_cong)

lemma upd_port_nos: "(\<And>p. port_no (f p) = port_no p) \<Longrightarrow> port_nos (upd_port no f br) = port_nos br"
  by (simp add: port_nos_def upd_port_def comp_def if_distrib cong: if_cong)

lemma upd_port_fields [simp]: "forward_delay (upd_port no f br) = forward_delay br" "bridge_forward_delay (upd_port no f br) = bridge_forward_delay br"
    "jiffies (upd_port no f br) = jiffies br" "bridge_id (upd_port no f br) = bridge_id br" "root_port (upd_port no f br) = root_port br"
    "stp_enabled (upd_port no f br) = stp_enabled br" "designated_root (upd_port no f br) = designated_root br"
    "root_path_cost (upd_port no f br) = root_path_cost br" "hash (upd_port no f br) = hash br" "fdb_heap (upd_port no f br) = fdb_heap br"
    "max_age (upd_port no f br) = max_age br" "port_list (upd_port no f br) = map (\<lambda>p. if port_no p = no then f p else p) (port_list br)"
  by (simp_all add: upd_port_def)

text \<open>An operation that returns and keeps the view; it may replace the forward delay by the bridge's own.\<close>

definition quiet :: "net_bridge option \<Rightarrow> net_bridge \<Rightarrow> bool" where
  "quiet r br \<longleftrightarrow> (\<exists>br'. r = Some br' \<and> view br' = view br \<and> forward_delay br' \<in> {forward_delay br, bridge_forward_delay br})"

lemma view_delay: "view br' = view br \<Longrightarrow> bridge_forward_delay br' = bridge_forward_delay br"
  by (simp add: view_def bv_def)

lemma quietI: "view br' = view br \<Longrightarrow> forward_delay br' = forward_delay br \<Longrightarrow> quiet (Some br') br"
  by (simp add: quiet_def)

lemma quiet_bind: "quiet r br \<Longrightarrow> (\<And>b. view b = view br \<Longrightarrow> quiet (f b) b) \<Longrightarrow> quiet (r \<bind> f) br"
proof -
  assume r: "quiet r br" and f: "\<And>b. view b = view br \<Longrightarrow> quiet (f b) b"
  obtain b where b: "r = Some b" "view b = view br" "forward_delay b \<in> {forward_delay br, bridge_forward_delay br}"
    using r by (auto simp: quiet_def)
  obtain c where "f b = Some c" "view c = view b" "forward_delay c \<in> {forward_delay b, bridge_forward_delay b}"
    using f [OF b(2)] unfolding quiet_def by blast
  then show ?thesis using b view_delay [OF b(2)] unfolding quiet_def by auto
qed

lemma quiet_cong:
  assumes "quiet r br" "view br = view br'" "forward_delay br \<in> {forward_delay br', bridge_forward_delay br'}"
  shows "quiet r br'"
  using assms view_delay [OF assms(2)] unfolding quiet_def by auto

lemma quiet_mfold:
  assumes "\<And>x b. x \<in> set xs \<Longrightarrow> view b = view br \<Longrightarrow> quiet (f x b) b"
  shows "quiet (mfold f xs br) br"
proof -
  have "view b = view br \<Longrightarrow> quiet (mfold f xs b) b" for b
    using assms
  proof (induction xs arbitrary: b)
    case Nil
    then show ?case by (simp add: quietI)
  next
    case (Cons x xs)
    show ?case unfolding mfold.simps
    proof (rule quiet_bind)
      show "quiet (f x b) b" using Cons.prems by simp
      fix b' assume "view b' = view b"
      then show "quiet (mfold f xs b') b'" using Cons by simp
    qed
  qed
  then show ?thesis by simp
qed

lemma send_bpdu_quiet: "no \<in> set (port_nos br) \<Longrightarrow> quiet (br_send_bpdu no data br) br"
  using get_port_ex [of no br] by (auto simp: br_send_bpdu_def quiet_def Let_def view_def bv_def)

lemma transmit_tcn_quiet: "root_port br \<in> set (port_nos br) \<Longrightarrow> quiet (br_transmit_tcn br) br"
  by (simp add: br_transmit_tcn_def br_send_tcn_bpdu_def send_bpdu_quiet)

lemma detection_quiet: "root_ok br \<Longrightarrow> quiet (br_topology_change_detection br) br"
proof -
  assume r: "root_ok br"
  have "quiet (if br_is_root_bridge br
        then Some (br\<lparr>topology_change := True, topology_change_timer := br_timer_set (jiffies br) (topology_change_timer br)\<rparr>)
        else if \<not> topology_change_detected br then do {
          br \<leftarrow> br_transmit_tcn br;
          Some (br\<lparr>tcn_timer := br_timer_set (jiffies br) (tcn_timer br)\<rparr>) }
        else Some br) br"
  proof -
    have "quiet (br_transmit_tcn br) br" if "\<not> br_is_root_bridge br"
      by (rule transmit_tcn_quiet) (use r that in \<open>simp add: root_ok_def root_bridge_iff\<close>)
    then show ?thesis by (auto simp: view_def bv_def intro!: quietI quiet_bind)
  qed
  then show ?thesis unfolding br_topology_change_detection_def by (rule quiet_bind) (simp add: quietI view_def bv_def)
qed

lemma become_root_quiet: "root_ok br \<Longrightarrow> quiet (br_become_root_bridge br) br"
proof -
  assume r: "root_ok br"
  let ?b = "br\<lparr>max_age := bridge_max_age br, hello_time := bridge_hello_time br, forward_delay := bridge_forward_delay br\<rparr>"
  have v: "view ?b = view br" by (simp add: view_def bv_def)
  have "quiet (br_topology_change_detection ?b) ?b" using r view_inv(2) [OF v] by (intro detection_quiet) simp
  then have "quiet (br_become_root_bridge br) ?b"
    unfolding br_become_root_bridge_def Let_def by (rule quiet_bind) (simp add: quietI view_def bv_def)
  then show ?thesis using v by (rule quiet_cong) simp
qed

lemma transmit_config_quiet:
  assumes "root_ok br" "no \<in> set (port_nos br)"
  shows "quiet (br_transmit_config no br) br"
proof -
  obtain p where p: "br_get_port br no = Some p" using get_port_ex [OF assms(2)] by blast
  have "\<exists>a. (if br_is_root_bridge br then Some 0
         else do {
           root \<leftarrow> br_get_port br (root_port br);
           Some (sint (br_timer_get_residue (jiffies br) (message_age_timer root) + word_of_int MESSAGE_AGE_INCR)) }) = Some a"
    using get_port_ex [of "root_port br" br] assms(1) by (auto simp: root_ok_def root_bridge_iff)
  then obtain a where a: "(if br_is_root_bridge br then Some 0
         else do {
           root \<leftarrow> br_get_port br (root_port br);
           Some (sint (br_timer_get_residue (jiffies br) (message_age_timer root) + word_of_int MESSAGE_AGE_INCR)) }) = Some a" by blast
  show ?thesis
    unfolding br_transmit_config_def p a bind.bind_lunit Let_def br_send_config_bpdu_def
    by (auto intro!: quietI quiet_bind send_bpdu_quiet upd_port_view assms(2) simp: pv_def)
qed

lemma generation_quiet: "root_ok br \<Longrightarrow> quiet (br_config_bpdu_generation br) br"
  unfolding br_config_bpdu_generation_def
proof (rule quiet_mfold)
  fix no b assume a: "root_ok br" "no \<in> set (port_nos br)" "view b = view br"
  then have b: "root_ok b" "no \<in> set (port_nos b)" using view_inv(2) [OF a(3)] view_port_nos [OF a(3)] by simp_all
  obtain p where "br_get_port b no = Some p" using get_port_ex [OF b(2)] by blast
  then show "quiet (br_get_port b no \<bind> (\<lambda>p. if state p \<noteq> Disabled \<and> br_is_designated_port b p then br_transmit_config no b else Some b)) b"
    using transmit_config_quiet [OF b] by (simp add: quietI)
qed

subsection \<open>Choosing the root port\<close>

text \<open>The priority vector of a port that may lead to the root, and which ports may.\<close>

definition rank :: "net_bridge_port \<Rightarrow> bridge_id \<times> int \<times> bridge_id \<times> u16 \<times> u16" where
  "rank p = (p_designated_root p, s32 (designated_cost p + path_cost p), designated_bridge p, designated_port p, port_id p)"

definition candidate :: "net_bridge \<Rightarrow> net_bridge_port \<Rightarrow> bool" where
  "candidate br p \<longleftrightarrow> state p \<noteq> Disabled \<and> \<not> br_is_designated_port br p \<and> p_designated_root p < bridge_id br"

lemma memcmp_id_greater: "0 < memcmp_id a b \<longleftrightarrow> b < a" for a b :: bridge_id
  using memcmp_id_less [of a b] by (metis less_le not_less_iff_gr_or_eq)

lemma should_become_root:
  assumes "rport = 0 \<or> br_get_port br rport = Some rp"
  shows "br_should_become_root_port br p rport = Some (candidate br p \<and> (rport = 0 \<or> rank p < rank rp))"
proof (cases "candidate br p \<and> rport \<noteq> 0")
  case True
  then have g: "br_get_port br rport = Some rp" and c: "\<not> (state p = Disabled \<or> br_is_designated_port br p)"
      "\<not> memcmp_id (bridge_id br) (p_designated_root p) \<le> 0" "rport \<noteq> 0"
    using assms by (auto simp: candidate_def memcmp_id_le not_le)
  show ?thesis
    unfolding br_should_become_root_port_def if_not_P [OF c(1)] if_not_P [OF c(2)] if_not_P [OF c(3)] g bind.bind_lunit Let_def
      memcmp_id_less memcmp_id_greater rank_def less_prod_simp
    using True by (simp add: le_less) (auto simp: not_less_iff_gr_or_eq)
next
  case False
  then show ?thesis by (auto simp: br_should_become_root_port_def candidate_def memcmp_id_le not_le)
qed

lemma root_loop_ok:
  assumes wf: "wf_ports br" and "set qs \<union> set ps = set (port_list br)"
    and "if rport = 0 then \<forall>q \<in> set qs. \<not> candidate br q
      else \<exists>r \<in> set qs. candidate br r \<and> port_no r = rport \<and> (\<forall>q \<in> set qs. candidate br q \<longrightarrow> rank r \<le> rank q)"
  shows "\<exists>no. root_loop br ps rport = Some no \<and>
    (if no = 0 then \<forall>q \<in> set (port_list br). \<not> candidate br q
     else \<exists>r \<in> set (port_list br). candidate br r \<and> port_no r = no \<and> (\<forall>q \<in> set (port_list br). candidate br q \<longrightarrow> rank r \<le> rank q))"
  using assms(2,3)
proof (induction ps arbitrary: qs rport)
  case Nil
  then show ?case by auto
next
  case (Cons p ps)
  have nz: "port_no q \<noteq> 0" if "q \<in> set (port_list br)" for q using wf that by (auto simp: wf_ports_def port_nos_def)
  show ?case
  proof (cases "rport = 0")
    case True
    have s: "br_should_become_root_port br p rport = Some (candidate br p)" using should_become_root [of rport br _ p] True by simp
    have "\<exists>no. root_loop br ps (if candidate br p then port_no p else rport) = Some no \<and>
      (if no = 0 then \<forall>q \<in> set (port_list br). \<not> candidate br q
       else \<exists>r \<in> set (port_list br). candidate br r \<and> port_no r = no \<and> (\<forall>q \<in> set (port_list br). candidate br q \<longrightarrow> rank r \<le> rank q))"
    proof (rule Cons.IH [of "p # qs"])
      show "set (p # qs) \<union> set ps = set (port_list br)" using Cons.prems(1) by auto
      have "port_no p \<noteq> 0" using nz Cons.prems(1) by auto
      then show "if (if candidate br p then port_no p else rport) = 0 then \<forall>q \<in> set (p # qs). \<not> candidate br q
        else \<exists>r \<in> set (p # qs). candidate br r \<and> port_no r = (if candidate br p then port_no p else rport) \<and>
          (\<forall>q \<in> set (p # qs). candidate br q \<longrightarrow> rank r \<le> rank q)"
        using True Cons.prems(2) by auto
    qed
    then show ?thesis by (simp add: s)
  next
    case False
    then obtain r where r: "r \<in> set qs" "candidate br r" "port_no r = rport" "\<forall>q \<in> set qs. candidate br q \<longrightarrow> rank r \<le> rank q"
      using Cons.prems(2) by auto
    have "br_get_port br rport = Some r" using r(1,3) Cons.prems(1) get_port_iff [OF wf] by blast
    then have s: "br_should_become_root_port br p rport = Some (candidate br p \<and> rank p < rank r)"
      using should_become_root [of rport br r p] False by simp
    let ?b = "candidate br p \<and> rank p < rank r"
    have "\<exists>no. root_loop br ps (if ?b then port_no p else rport) = Some no \<and>
      (if no = 0 then \<forall>q \<in> set (port_list br). \<not> candidate br q
       else \<exists>r \<in> set (port_list br). candidate br r \<and> port_no r = no \<and> (\<forall>q \<in> set (port_list br). candidate br q \<longrightarrow> rank r \<le> rank q))"
    proof (rule Cons.IH [of "p # qs"])
      show "set (p # qs) \<union> set ps = set (port_list br)" using Cons.prems(1) by auto
      have n: "(if ?b then port_no p else rport) \<noteq> 0" using nz Cons.prems(1) False by auto
      have "\<exists>x \<in> set (p # qs). candidate br x \<and> port_no x = (if ?b then port_no p else rport) \<and>
          (\<forall>q \<in> set (p # qs). candidate br q \<longrightarrow> rank x \<le> rank q)"
      proof (cases ?b)
        case True
        then have "\<forall>q \<in> set qs. candidate br q \<longrightarrow> rank p \<le> rank q" using r(4) by (meson less_imp_le order_trans)
        then show ?thesis using True by (intro bexI [of _ p]) auto
      next
        case False
        then show ?thesis using r by (intro bexI [of _ r]) (auto simp: not_less)
      qed
      then show "if (if ?b then port_no p else rport) = 0 then \<forall>q \<in> set (p # qs). \<not> candidate br q
        else \<exists>x \<in> set (p # qs). candidate br x \<and> port_no x = (if ?b then port_no p else rport) \<and>
          (\<forall>q \<in> set (p # qs). candidate br q \<longrightarrow> rank x \<le> rank q)"
        using n by (simp only: if_False)
    qed
    then show ?thesis by (simp add: s)
  qed
qed

text \<open>The bridge is the root, or its root port has the best vector of all ports that may lead to the root.\<close>

definition best_root :: "net_bridge \<Rightarrow> net_bridge \<Rightarrow> bool" where
  "best_root br br' \<longleftrightarrow>
     (if root_port br' = 0
      then (\<forall>q \<in> set (port_list br). \<not> candidate br q) \<and> designated_root br' = bridge_id br \<and> root_path_cost br' = 0
      else \<exists>r \<in> set (port_list br). candidate br r \<and> port_no r = root_port br' \<and>
        (\<forall>q \<in> set (port_list br). candidate br q \<longrightarrow> rank r \<le> rank q) \<and>
        designated_root br' = p_designated_root r \<and> root_path_cost br' = s32 (designated_cost r + path_cost r))"

lemma root_selection_ok:
  assumes wf: "wf_ports br"
  shows "\<exists>br'. br_root_selection br = Some br' \<and> best_root br br' \<and>
    br' = br\<lparr>root_port := root_port br', designated_root := designated_root br', root_path_cost := root_path_cost br'\<rparr>"
proof -
  obtain no where no: "root_loop br (port_list br) 0 = Some no"
      "if no = 0 then \<forall>q \<in> set (port_list br). \<not> candidate br q
       else \<exists>r \<in> set (port_list br). candidate br r \<and> port_no r = no \<and> (\<forall>q \<in> set (port_list br). candidate br q \<longrightarrow> rank r \<le> rank q)"
    using root_loop_ok [OF wf, of "[]" "port_list br" 0] by auto
  show ?thesis
  proof (cases "no = 0")
    case True
    then show ?thesis using no by (simp add: br_root_selection_def best_root_def Let_def)
  next
    case False
    then obtain r where r: "r \<in> set (port_list br)" "candidate br r" "port_no r = no" "\<forall>q \<in> set (port_list br). candidate br q \<longrightarrow> rank r \<le> rank q"
      using no(2) by auto
    have "br_get_port br no = Some r" using r(1,3) get_port_iff [OF wf] by blast
    moreover have "br_get_port (br\<lparr>root_port := no\<rparr>) no = br_get_port br no" by (simp add: br_get_port_def)
    ultimately have "br_root_selection br =
        Some (br\<lparr>root_port := no, designated_root := p_designated_root r, root_path_cost := s32 (designated_cost r + path_cost r)\<rparr>)"
      using no(1) False by (simp add: br_root_selection_def Let_def)
    then show ?thesis using False r by (auto simp: best_root_def)
  qed
qed

lemma best_root_ok: "best_root br br' \<Longrightarrow> wf_ports br \<Longrightarrow> bridge_id br' = bridge_id br \<Longrightarrow> port_nos br' = port_nos br \<Longrightarrow> root_ok br'"
  by (auto simp: best_root_def root_ok_def candidate_def port_nos_def split: if_splits intro: rev_image_eqI)

subsection \<open>Configuration update\<close>

text \<open>The ports after the designated ports are chosen, given the bridge with its root chosen.\<close>

definition redesignate :: "net_bridge \<Rightarrow> net_bridge_port \<Rightarrow> net_bridge_port" where
  "redesignate br p = (if state p \<noteq> Disabled \<and> br_should_become_designated_port br p then become_designated br p else p)"

lemma redesignate_same [simp]: "port_no (redesignate br p) = port_no p" "state (redesignate br p) = state p" "port_id (redesignate br p) = port_id p"
    "path_cost (redesignate br p) = path_cost p" "dev (redesignate br p) = dev p" "forward_delay_timer (redesignate br p) = forward_delay_timer p"
  by (simp_all add: redesignate_def become_designated_def)

lemma configuration_update_ok:
  assumes wf: "wf_ports br"
  shows "\<exists>br'. br_configuration_update br = Some br' \<and> best_root br br' \<and> root_ok br' \<and> wf_ports br' \<and>
    br' = br\<lparr>root_port := root_port br', designated_root := designated_root br', root_path_cost := root_path_cost br',
      port_list := map (redesignate br') (port_list br)\<rparr>"
proof -
  obtain b where b: "br_root_selection br = Some b" "best_root br b"
      "b = br\<lparr>root_port := root_port b, designated_root := designated_root b, root_path_cost := root_path_cost b\<rparr>"
    using root_selection_ok [OF wf] by blast
  let ?b = "br_designated_port_selection b"
  have same: "port_list b = port_list br" "bridge_id b = bridge_id br" by (subst b(3), simp)+
  have e: "?b = b\<lparr>port_list := map (redesignate b) (port_list br)\<rparr>"
    by (simp add: br_designated_port_selection_def redesignate_def same)
  have r: "redesignate ?b = redesignate b"
    by (rule ext) (simp add: e redesignate_def br_should_become_designated_port_def become_designated_def br_is_designated_port_def Let_def)
  have "br_configuration_update br = Some ?b" by (simp add: br_configuration_update_def b(1))
  moreover have "?b = br\<lparr>root_port := root_port ?b, designated_root := designated_root ?b, root_path_cost := root_path_cost ?b,
      port_list := map (redesignate ?b) (port_list br)\<rparr>"
    unfolding r unfolding e by (subst b(3)) simp
  moreover have "best_root br ?b" using b(2) by (simp add: best_root_def e)
  moreover have n: "port_nos ?b = port_nos br" by (simp add: port_nos_def e comp_def)
  moreover have "bridge_id ?b = bridge_id br" using same by (simp add: e)
  ultimately show ?thesis using wf best_root_ok [of br ?b] by (auto simp: wf_ports_def)
qed

subsection \<open>Choosing the states of the ports\<close>

definition new_state :: "net_bridge \<Rightarrow> net_bridge_port \<Rightarrow> br_state" where
  "new_state br p =
     (if state p = Disabled then Disabled
      else if may_pass br p then (if state p = Blocking then if stp_enabled br then Listening else Learning else state p)
      else Blocking)"

text \<open>A port after its state was chosen: its forward delay starts when it leaves the blocking state.\<close>

definition new_port :: "net_bridge \<Rightarrow> net_bridge_port \<Rightarrow> net_bridge_port" where
  "new_port br p = p\<lparr>state := new_state br p, forward_delay_timer :=
     (if state p = Blocking \<and> new_state br p \<noteq> Blocking then br_timer_set (jiffies br) (forward_delay_timer p)
      else if state p \<noteq> Blocking \<and> new_state br p = Blocking then br_timer_clear (forward_delay_timer p)
      else forward_delay_timer p)\<rparr>"

lemma new_port_cong:
  assumes "bv br' = bv br" "pv p' = pv p"
  shows "pv (new_port br' p') = pv (new_port br p)"
proof -
  have "new_state br' p' = new_state br p"
    using assms by (simp add: new_state_def may_pass_def designated_iff pv_def bv_def)
  then show ?thesis using assms by (simp add: new_port_def pv_def bv_def)
qed

lemma upd_port_bv: "bv (upd_port no f br) = bv br"
  by (simp add: bv_def upd_port_def)

text \<open>One step of the loop changes its port as described and no other.\<close>

definition port_changed :: "(net_bridge_port \<Rightarrow> net_bridge_port) \<Rightarrow> nat set \<Rightarrow> net_bridge \<Rightarrow> net_bridge option \<Rightarrow> bool" where
  "port_changed f nos br r \<longleftrightarrow> (\<exists>br'. r = Some br' \<and> bv br' = bv br \<and> forward_delay br' \<in> {forward_delay br, bridge_forward_delay br} \<and>
     map pv (port_list br') = map (\<lambda>p. pv (if port_no p \<in> nos then f p else p)) (port_list br))"

lemma map_pv_iff: "map pv ys = map h xs \<longleftrightarrow> list_all2 (\<lambda>x y. pv y = h x) xs ys"
  by (auto simp: list_all2_conv_all_nth list_eq_iff_nth_eq)

lemma upd_changed:
  assumes "view br' = view br" "forward_delay br' \<in> {forward_delay br, bridge_forward_delay br}"
    and "\<And>p q. p \<in> set (port_list br) \<Longrightarrow> port_no p = no \<Longrightarrow> pv q = pv p \<Longrightarrow> pv (g q) = pv (f p)"
  shows "port_changed f {no} br (Some (upd_port no g br'))"
proof -
  have "list_all2 (\<lambda>p q. p \<in> set (port_list br) \<and> pv q = pv p) (port_list br) (port_list br')"
    using assms(1) map_pv_iff [of "port_list br'" pv "port_list br"] by (auto simp: view_def list_all2_conv_all_nth)
  then have "list_all2 (\<lambda>p q. pv q = pv (if port_no p \<in> {no} then f p else p)) (port_list br) (port_list (upd_port no g br'))"
    unfolding upd_port_fields list.rel_map
  proof (rule list_all2_mono)
    fix p q assume "p \<in> set (port_list br) \<and> pv q = pv p"
    moreover from this have "port_no q = port_no p" by (simp add: pv_def)
    ultimately show "pv (if port_no q = no then g q else q) = pv (if port_no p \<in> {no} then f p else p)" using assms(3) by simp
  qed
  moreover have "bv (upd_port no g br') = bv br" using assms(1) by (simp add: upd_port_bv view_def)
  ultimately show ?thesis using assms(2) by (simp add: port_changed_def map_pv_iff)
qed

lemma bv_inv:
  assumes "bv br' = bv br" "port_nos br' = port_nos br"
  shows "wf_ports br' = wf_ports br" "root_ok br' = root_ok br" "fdb_ok br' refs = fdb_ok br refs" "br_is_root_bridge br' = br_is_root_bridge br"
  using assms fdb_ok_parts [of br' br refs] by (simp_all add: bv_def wf_ports_def root_ok_def root_bridge_iff)

lemma may_pass_cong: "bv br' = bv br \<Longrightarrow> pv p' = pv p \<Longrightarrow> may_pass br' p' = may_pass br p"
  by (simp add: may_pass_def designated_iff bv_def pv_def)

lemma get_upd:
  assumes "br_get_port br no = Some p" "\<And>p. port_no (g p) = port_no p"
  shows "br_get_port (upd_port no g br) no = Some (g p)"
proof -
  have "find (\<lambda>p. port_no p = no) (map (\<lambda>p. if port_no p = no then g p else p) ps) = map_option g (find (\<lambda>p. port_no p = no) ps)" for ps
    using assms(2) by (induction ps) auto
  then show ?thesis using assms(1) by (simp add: br_get_port_def)
qed

lemma view_get:
  assumes "view br' = view br" "br_get_port br no = Some p"
  shows "\<exists>p'. br_get_port br' no = Some p' \<and> pv p' = pv p"
proof -
  have "list_all2 (\<lambda>p q. pv q = pv p) (port_list br) (port_list br')"
    using assms(1) map_pv_iff [of "port_list br'" pv "port_list br"] by (simp add: view_def)
  then have "rel_option (\<lambda>p q. pv q = pv p) (find (\<lambda>p. port_no p = no) (port_list br)) (find (\<lambda>p. port_no p = no) (port_list br'))"
    by (induction rule: list_all2_induct) (auto simp: pv_def)
  then show ?thesis using assms(2) by (auto simp: br_get_port_def option_rel_Some1)
qed

lemma port_changed_same:
  assumes "view br' = view br" "forward_delay br' \<in> {forward_delay br, bridge_forward_delay br}"
    and "\<And>p. p \<in> set (port_list br) \<Longrightarrow> port_no p \<in> nos \<Longrightarrow> pv (f p) = pv p"
  shows "port_changed f nos br (Some br')"
proof -
  have "map pv (port_list br) = map (\<lambda>p. pv (if port_no p \<in> nos then f p else p)) (port_list br)" using assms(3) by auto
  then show ?thesis using assms(1,2) by (simp add: port_changed_def view_def)
qed

text \<open>\<open>br_make_forwarding\<close> and \<open>br_make_blocking\<close> on a bridge with the same view.\<close>

lemma make_forwarding_changed:
  assumes "wf_ports br" "br_get_port br no = Some p" "view b = view br" "forward_delay b = forward_delay br"
    and "state p \<noteq> Disabled" "may_pass br p"
  shows "port_changed (new_port br) {no} br (br_make_forwarding no b)"
proof -
  obtain q where q: "br_get_port b no = Some q" "pv q = pv p" using view_get [OF assms(3,2)] by blast
  have one: "p' = p" if "p' \<in> set (port_list br)" "port_no p' = no" for p'
    using get_port_iff [OF assms(1), of no p'] that assms(2) by simp
  have st: "state q = state p" "stp_enabled b = stp_enabled br" "jiffies b = jiffies br"
    using q(2) assms(3) by (simp_all add: pv_def view_def bv_def)
  show ?thesis
  proof (cases "state p = Blocking")
    case True
    then have n: "new_state br p = (if stp_enabled br then Listening else Learning)" using assms(6) by (simp add: new_state_def)
    let ?g = "\<lambda>p. p\<lparr>state := (if stp_enabled b then Listening else Learning), forward_delay_timer := br_timer_set (jiffies b) (forward_delay_timer p)\<rparr>"
    have "br_make_forwarding no b = Some (upd_port no ?g b)" using True by (simp add: br_make_forwarding_def q(1) st)
    moreover have "port_changed (new_port br) {no} br (Some (upd_port no ?g b))"
    proof (rule upd_changed [OF assms(3)])
      fix p' q' assume "p' \<in> set (port_list br)" "port_no p' = no" "pv q' = pv p'"
      then have "p' = p" "pv q' = pv p" using one by auto
      then show "pv (?g q') = pv (new_port br p')" using True n st by (auto simp: pv_def new_port_def)
    qed (use assms(4) in simp)
    ultimately show ?thesis by simp
  next
    case False
    then have "new_state br p = state p" using assms(5,6) by (simp add: new_state_def)
    then have "pv (new_port br p) = pv p" using False by (simp add: new_port_def pv_def)
    moreover have "br_make_forwarding no b = Some b" using False by (simp add: br_make_forwarding_def q(1) st)
    ultimately show ?thesis using port_changed_same [OF assms(3), of "{no}" "new_port br"] assms(4) one by auto
  qed
qed

lemma make_blocking_changed:
  assumes "wf_ports br" "root_ok br" "br_get_port br no = Some p" "view b = view br" "forward_delay b = forward_delay br"
    and "state p \<noteq> Disabled" "\<not> may_pass br p"
  shows "port_changed (new_port br) {no} br (br_make_blocking no b)"
proof -
  obtain q where q: "br_get_port b no = Some q" "pv q = pv p" using view_get [OF assms(4,3)] by blast
  have one: "p' = p" if "p' \<in> set (port_list br)" "port_no p' = no" for p'
    using get_port_iff [OF assms(1), of no p'] that assms(3) by simp
  have st: "state q = state p" using q(2) by (simp add: pv_def)
  have n: "new_state br p = Blocking" using assms(6,7) by (simp add: new_state_def)
  show ?thesis
  proof (cases "state p = Blocking")
    case True
    then have "pv (new_port br p) = pv p" using n by (simp add: new_port_def pv_def)
    moreover have "br_make_blocking no b = Some b" using True by (simp add: br_make_blocking_def q(1) st)
    ultimately show ?thesis using port_changed_same [OF assms(4), of "{no}" "new_port br"] assms(5) one by auto
  next
    case False
    let ?g = "\<lambda>p. p\<lparr>state := Blocking, forward_delay_timer := br_timer_clear (forward_delay_timer p)\<rparr>"
    have "quiet (if state q = Forwarding \<or> state q = Learning then br_topology_change_detection b else Some b) b"
      using detection_quiet [of b] view_inv(2) [OF assms(4)] assms(2) by (simp add: quietI)
    then obtain c where c: "(if state q = Forwarding \<or> state q = Learning then br_topology_change_detection b else Some b) = Some c"
        "view c = view b" "forward_delay c \<in> {forward_delay b, bridge_forward_delay b}"
      by (auto simp only: quiet_def)
    have "br_make_blocking no b = Some (upd_port no ?g c)"
      unfolding br_make_blocking_def q(1) bind.bind_lunit c(1) using False assms(6) st by simp
    moreover have "port_changed (new_port br) {no} br (Some (upd_port no ?g c))"
    proof (rule upd_changed)
      show "view c = view br" using c(2) assms(4) by simp
      show "forward_delay c \<in> {forward_delay br, bridge_forward_delay br}" using c(3) assms(5) view_delay [OF assms(4)] by simp
      fix p' q' assume "p' \<in> set (port_list br)" "port_no p' = no" "pv q' = pv p'"
      then have "p' = p" "pv q' = pv p" using one by auto
      then show "pv (?g q') = pv (new_port br p')" using False n by (auto simp: pv_def new_port_def)
    qed
    ultimately show ?thesis by simp
  qed
qed

lemma select_changed:
  assumes "wf_ports br" "root_ok br" "no \<in> set (port_nos br)"
  shows "port_changed (new_port br) {no} br (select_port_state no br)"
proof -
  obtain p where p: "br_get_port br no = Some p" using get_port_ex [OF assms(3)] by blast
  have no: "port_no p = no" using get_portD [OF p] by simp
  have v: "view (upd_port no f br) = view br" if "\<And>p. pv (f p) = pv p" for f using upd_port_view [OF that] .
  consider "state p = Disabled" | "state p \<noteq> Disabled" "may_pass br p" | "state p \<noteq> Disabled" "\<not> may_pass br p" by blast
  then show ?thesis
  proof cases
    case 1
    then have "pv (new_port br p) = pv p" by (simp add: new_port_def new_state_def pv_def)
    moreover have "p' = p" if "p' \<in> set (port_list br)" "port_no p' = no" for p'
      using get_port_iff [OF assms(1), of no p'] that p by simp
    moreover have "select_port_state no br = Some br" by (simp add: select_port_state_def p 1)
    ultimately show ?thesis using port_changed_same [of br br "{no}" "new_port br"] by auto
  next
    case 2
    let ?f = "if no = root_port br then (\<lambda>p. p\<lparr>config_pending := False, topology_change_ack := False\<rparr>)
      else (\<lambda>p. p\<lparr>message_age_timer := br_timer_clear (message_age_timer p)\<rparr>)"
    have f: "select_port_state no br = br_make_forwarding no (upd_port no ?f br)"
      unfolding select_port_state_def p bind.bind_lunit using 2 no by (auto simp: may_pass_def)
    show ?thesis unfolding f by (rule make_forwarding_changed [OF assms(1) p v _ 2]) (simp_all add: pv_def)
  next
    case 3
    have f: "select_port_state no br = br_make_blocking no (upd_port no (\<lambda>p. p\<lparr>config_pending := False, topology_change_ack := False\<rparr>) br)"
      unfolding select_port_state_def p bind.bind_lunit using 3 no by (simp add: may_pass_def)
    show ?thesis unfolding f by (rule make_blocking_changed [OF assms(1,2) p v _ 3]) (simp_all add: pv_def)
  qed
qed

lemma new_port_same [simp]: "port_no (new_port br p) = port_no p" "dev (new_port br p) = dev p"
    "designated_bridge (new_port br p) = designated_bridge p" "designated_port (new_port br p) = designated_port p" "port_id (new_port br p) = port_id p"
    "state (new_port br p) = new_state br p"
  by (simp_all add: new_port_def)

lemma port_changed_nos:
  assumes "port_changed f nos br (Some br')" "\<And>p. port_no (f p) = port_no p"
  shows "port_nos br' = port_nos br"
proof -
  have "map fst (map pv (port_list br')) = map fst (map (\<lambda>p. pv (if port_no p \<in> nos then f p else p)) (port_list br))"
    using assms(1) by (simp add: port_changed_def)
  then show ?thesis using assms(2) by (simp add: port_nos_def pv_def comp_def if_distrib cong: if_cong)
qed

lemma select_loop_changed:
  assumes "wf_ports br" "root_ok br" "set nos \<subseteq> set (port_nos br)" "distinct nos"
  shows "port_changed (new_port br) (set nos) br (mfold select_port_state nos br)"
  using assms
proof (induction nos arbitrary: br)
  case Nil
  then show ?case by (auto intro: port_changed_same)
next
  case (Cons no nos)
  obtain b where b: "select_port_state no br = Some b" "port_changed (new_port br) {no} br (Some b)"
    using select_changed [of br no] Cons.prems by (auto simp: port_changed_def)
  have bb: "bv b = bv br" "forward_delay b \<in> {forward_delay br, bridge_forward_delay br}"
      "list_all2 (\<lambda>p q. pv q = pv (if port_no p = no then new_port br p else p)) (port_list br) (port_list b)"
    using b(2) by (auto simp: port_changed_def map_pv_iff)
  have nos: "port_nos b = port_nos br" by (rule port_changed_nos [OF b(2)]) simp
  have "port_changed (new_port b) (set nos) b (mfold select_port_state nos b)"
    using Cons.prems nos bv_inv [OF bb(1) nos] by (intro Cons.IH) auto
  then obtain c where c: "mfold select_port_state nos b = Some c" "bv c = bv b" "forward_delay c \<in> {forward_delay b, bridge_forward_delay b}"
      "list_all2 (\<lambda>p q. pv q = pv (if port_no p \<in> set nos then new_port b p else p)) (port_list b) (port_list c)"
    by (auto simp: port_changed_def map_pv_iff)
  have "list_all2 (\<lambda>p q. pv q = pv (if port_no p \<in> set (no # nos) then new_port br p else p)) (port_list br) (port_list c)"
  proof (rule list_all2_trans [OF _ bb(3) c(4)])
    fix p q r assume q: "pv q = pv (if port_no p = no then new_port br p else p)"
      and r: "pv r = pv (if port_no q \<in> set nos then new_port b q else q)"
    have "port_no q = port_no p" using q by (auto simp: pv_def split: if_splits)
    then show "pv r = pv (if port_no p \<in> set (no # nos) then new_port br p else p)"
      using q r Cons.prems(4) new_port_cong [OF bb(1), of q p] by (auto split: if_splits)
  qed
  moreover have "bridge_forward_delay b = bridge_forward_delay br" using bb(1) by (simp add: bv_def)
  ultimately show ?case using b(1) c bb by (auto simp: port_changed_def map_pv_iff)
qed

text \<open>After the choice exactly the ports that may pass frames have left the blocking state.\<close>

lemma port_state_selection_ok:
  assumes "wf_ports br" "root_ok br"
  shows "\<exists>br'. br_port_state_selection br = Some br' \<and> bv br' = bv br \<and> port_nos br' = port_nos br \<and>
    forward_delay br' \<in> {forward_delay br, bridge_forward_delay br} \<and>
    list_all2 (\<lambda>p q. pv q = pv (new_port br p)) (port_list br) (port_list br')"
proof -
  have ch: "port_changed (new_port br) (set (port_nos br)) br (br_port_state_selection br)"
    unfolding br_port_state_selection_def using assms by (intro select_loop_changed) (auto simp: wf_ports_def)
  then obtain b where b: "br_port_state_selection br = Some b" by (auto simp: port_changed_def)
  have "port_nos b = port_nos br" using ch unfolding b by (rule port_changed_nos) simp
  moreover have "list_all2 (\<lambda>p q. pv q = pv (new_port br p)) (port_list br) (port_list b)"
  proof -
    have "map (\<lambda>p. pv (if port_no p \<in> set (port_nos br) then new_port br p else p)) (port_list br) = map (\<lambda>p. pv (new_port br p)) (port_list br)"
      by (auto simp: port_nos_def)
    then show ?thesis using ch b by (auto simp: port_changed_def map_pv_iff [symmetric])
  qed
  ultimately show ?thesis using ch b by (auto simp: port_changed_def)
qed

end
