(* ===== verification/BrInv.thy ===== *)
theory BrInv
  imports BrStp
begin

text \<open>
  The handlers of the bridge never fail and keep its invariant, whatever happens in whatever order: the operations
  are shown to be \<open>tame\<close> one by one, and the state machine \<open>br_step\<close> puts them together.  \<open>bridge_ok\<close> says
  that port numbers are unique, the root port is a port of the bridge, only the root port and designated ports
  have left the blocking state, the forwarding database is in order and points to ports of the bridge.
\<close>

subsection \<open>Operations keep the invariant\<close>

text \<open>
  How an operation may change a port.  A port starts to forward frames only out of the learning state, when
  its forward delay, one of \<open>D\<close>, has run off; it starts to learn only out of the listening state in the
  same way, unless the protocol is off; a delay that is running was running before or starts now.
\<close>

definition run_off :: "int set \<Rightarrow> u32 \<Rightarrow> net_bridge_port \<Rightarrow> bool" where
  "run_off D now p \<longleftrightarrow> (\<exists>d \<in> D. br_timer_has_expired now (forward_delay_timer p) (word_of_int d))"

definition moved :: "int set \<Rightarrow> u32 \<Rightarrow> bool \<Rightarrow> net_bridge_port \<Rightarrow> net_bridge_port \<Rightarrow> bool" where
  "moved D now stp p q \<longleftrightarrow> port_no q = port_no p \<and>
     (state q = Forwarding \<longrightarrow> state p = Forwarding \<or> state p = Learning \<and> run_off D now p) \<and>
     (state q = Learning \<longrightarrow> state p = Learning \<or> \<not> stp \<or> state p = Listening \<and> run_off D now p) \<and>
     (state q \<in> {Listening, Learning} \<longrightarrow> state q = state p \<and> forward_delay_timer q = forward_delay_timer p \<or>
        running (forward_delay_timer q) \<and> expires (forward_delay_timer q) = now)"

definition follows :: "int set \<Rightarrow> net_bridge \<Rightarrow> net_bridge \<Rightarrow> bool" where
  "follows D br br' \<longleftrightarrow> (\<forall>q \<in> set (port_list br'). \<exists>p \<in> set (port_list br). moved D (jiffies br) (stp_enabled br) p q) \<and>
     jiffies br' = jiffies br \<and> stp_enabled br' = stp_enabled br \<and> bridge_forward_delay br' = bridge_forward_delay br"

text \<open>\<open>D\<close> is empty or holds the delays in use, which are positive and fit in an \<open>int\<close>.\<close>

definition delays_in :: "int set \<Rightarrow> net_bridge \<Rightarrow> bool" where
  "delays_in D br \<longleftrightarrow> (\<forall>d \<in> D. 0 < d \<and> d < 2 ^ 31) \<and> (D = {} \<or> {forward_delay br, bridge_forward_delay br} \<subseteq> D)"

text \<open>The ports that entries of the forwarding database point to.\<close>

definition dsts :: "net_bridge \<Rightarrow> nat set" where
  "dsts br = fst ` ran (fdb_map br)"

lemma dsts_same: "hash b = hash br \<Longrightarrow> fdb_heap b = fdb_heap br \<Longrightarrow> dsts b \<subseteq> dsts br"
  unfolding dsts_def fdb_map_def entry_at_def by simp

lemma view_dsts: "view b = view br \<Longrightarrow> dsts b \<subseteq> dsts br"
  by (rule dsts_same) (simp_all add: view_def bv_def)

text \<open>
  An operation returns, keeps the invariant and the ports, adds no port to the forwarding database, and changes
  ports only as above if the delays are right.
\<close>

definition tame :: "int set \<Rightarrow> net_bridge \<Rightarrow> net_bridge option \<Rightarrow> bool" where
  "tame D br r \<longleftrightarrow> (\<exists>br'. r = Some br' \<and> stp_inv br' \<and> port_nos br' = port_nos br \<and> dsts br' \<subseteq> dsts br \<and> (delays_in D br \<longrightarrow> delays_in D br' \<and> follows D br br'))"

lemma delays_mono: "delays_in D br \<Longrightarrow> forward_delay b \<in> {forward_delay br, bridge_forward_delay br} \<Longrightarrow>
    bridge_forward_delay b = bridge_forward_delay br \<Longrightarrow> delays_in D b"
  by (auto simp: delays_in_def)

text \<open>A delay that starts now has not run off.\<close>

lemma fresh_not_run_off:
  assumes "\<forall>d \<in> D. 0 < d \<and> d < 2 ^ 31" "expires (forward_delay_timer p) = now"
  shows "\<not> run_off D now p"
proof
  assume "run_off D now p"
  then obtain d where d: "0 < d" "d < 2 ^ 31" "time_after_eq now (now + word_of_int d)"
    using assms unfolding run_off_def br_timer_has_expired_def by blast
  have "now - (now + word_of_int d) = (word_of_int (- d) :: u32)" by simp
  then have "0 \<le> sint (word_of_int (- d) :: u32)" using d(3) unfolding time_after_eq_def by metis
  moreover have "sint (word_of_int (- d) :: u32) = - d"
    using d unfolding sint_sbintrunc' by (intro signed_take_bit_int_eq_self) auto
  ultimately show False using d(1) by simp
qed

lemma moved_trans:
  assumes "\<forall>d \<in> D. 0 < d \<and> d < 2 ^ 31" "moved D now stp p q" "moved D now stp q r"
  shows "moved D now stp p r"
proof -
  have e: "run_off D now q \<longleftrightarrow> run_off D now p" if "forward_delay_timer q = forward_delay_timer p" using that by (simp add: run_off_def)
  have f: "\<not> run_off D now q" if "expires (forward_delay_timer q) = now" using fresh_not_run_off [OF assms(1) that] .
  have pq: "state q = state p \<and> forward_delay_timer q = forward_delay_timer p" if "state q \<in> {Listening, Learning}" "run_off D now q"
    using assms(2) f that unfolding moved_def by blast
  have n: "port_no r = port_no p" using assms(2,3) by (simp add: moved_def)
  have F: "state p = Forwarding \<or> state p = Learning \<and> run_off D now p" if "state r = Forwarding"
  proof (cases "state q = Forwarding")
    case True
    then show ?thesis using assms(2) by (simp add: moved_def)
  next
    case False
    then have "state q = Learning" "run_off D now q" using assms(3) that by (simp_all add: moved_def)
    moreover from this have "state q = state p" "forward_delay_timer q = forward_delay_timer p" using pq by blast+
    ultimately show ?thesis using e by simp
  qed
  have L: "state p = Learning \<or> \<not> stp \<or> state p = Listening \<and> run_off D now p" if "state r = Learning"
  proof (cases "state q = Learning \<or> \<not> stp")
    case True
    then show ?thesis using assms(2) unfolding moved_def by blast
  next
    case False
    then have "state q = Listening" "run_off D now q" using assms(3) that by (simp_all add: moved_def)
    moreover from this have "state q = state p" "forward_delay_timer q = forward_delay_timer p" using pq by blast+
    ultimately show ?thesis using e by simp
  qed
  have "state r = state p \<and> forward_delay_timer r = forward_delay_timer p \<or> running (forward_delay_timer r) \<and> expires (forward_delay_timer r) = now"
    if r: "state r \<in> {Listening, Learning}"
  proof (cases "state r = state q \<and> forward_delay_timer r = forward_delay_timer q")
    case True
    then show ?thesis using assms(2) r unfolding moved_def by (metis (no_types))
  next
    case False
    then show ?thesis using assms(3) r unfolding moved_def by blast
  qed
  then show ?thesis using n F L unfolding moved_def by blast
qed

lemma follows_trans: "\<forall>d \<in> D. 0 < d \<and> d < 2 ^ 31 \<Longrightarrow> follows D a b \<Longrightarrow> follows D b c \<Longrightarrow> follows D a c"
proof -
  assume D: "\<forall>d \<in> D. 0 < d \<and> d < 2 ^ 31" and ab: "follows D a b" and bc: "follows D b c"
  let ?m = "moved D (jiffies a) (stp_enabled a)"
  have "\<exists>p \<in> set (port_list a). ?m p r" if r: "r \<in> set (port_list c)" for r
  proof -
    obtain q where q: "q \<in> set (port_list b)" "?m q r" using ab bc r unfolding follows_def by fastforce
    obtain p where p: "p \<in> set (port_list a)" "?m p q" using ab q(1) unfolding follows_def by blast
    have "?m p r" by (rule moved_trans [OF D p(2) q(2)])
    then show ?thesis using p(1) by blast
  qed
  then show ?thesis using ab bc by (simp add: follows_def)
qed

lemma moved_refl: "moved D now stp p p"
  by (simp add: moved_def)

lemma follows_fields: "set (port_list br') \<subseteq> set (port_list br) \<Longrightarrow> jiffies br' = jiffies br \<Longrightarrow> stp_enabled br' = stp_enabled br \<Longrightarrow>
    bridge_forward_delay br' = bridge_forward_delay br \<Longrightarrow> follows D br br'"
  unfolding follows_def using moved_refl by blast

lemma follows_refl: "follows D br br"
  by (rule follows_fields) auto

lemma follows_map:
  assumes "\<And>p. p \<in> set (port_list br) \<Longrightarrow> moved D (jiffies br) (stp_enabled br) p (f p)" "port_list b = map f (port_list br)"
    "jiffies b = jiffies br" "stp_enabled b = stp_enabled br" "bridge_forward_delay b = bridge_forward_delay br"
  shows "follows D br b"
  using assms unfolding follows_def by auto

lemma view_follows: "view br' = view br \<Longrightarrow> follows D br br'"
proof -
  assume v: "view br' = view br"
  have s: "pv ` set (port_list br') = pv ` set (port_list br)" using arg_cong [OF v, of "\<lambda>x. set (fst x)"] by (simp add: view_def)
  have "\<exists>p \<in> set (port_list br). moved D now stp p q" if "q \<in> set (port_list br')" for now stp q
  proof -
    have "pv q \<in> pv ` set (port_list br)" unfolding s [symmetric] using that by (rule imageI)
    then obtain p where p: "p \<in> set (port_list br)" "pv q = pv p" by blast
    then have "moved D now stp p q" by (simp add: moved_def pv_def)
    then show ?thesis using p(1) by blast
  qed
  moreover have "jiffies br' = jiffies br" "stp_enabled br' = stp_enabled br" "bridge_forward_delay br' = bridge_forward_delay br"
    using v by (simp_all add: view_def bv_def)
  ultimately show ?thesis by (simp add: follows_def)
qed

lemma quiet_tame: "quiet r br \<Longrightarrow> stp_inv br \<Longrightarrow> tame D br r"
proof -
  assume "quiet r br" and inv: "stp_inv br"
  then obtain b where b: "r = Some b" "view b = view br" "forward_delay b \<in> {forward_delay br, bridge_forward_delay br}"
    unfolding quiet_def by blast
  show ?thesis unfolding tame_def b(1) using view_stp_inv [OF b(2)] view_follows [OF b(2)] view_port_nos [OF b(2)] view_dsts [OF b(2)] inv
    delays_mono [OF _ b(3) view_delay [OF b(2)]] by simp
qed

lemma follows_delays:
  assumes "follows D br b" "delays_in D br" "forward_delay b \<in> {forward_delay br, bridge_forward_delay br}"
  shows "delays_in D b"
  using delays_mono [OF assms(2,3)] assms(1) by (simp add: follows_def)

lemma tameI: "stp_inv br' \<Longrightarrow> follows D br br' \<Longrightarrow> port_nos br' = port_nos br \<Longrightarrow>
    forward_delay br' \<in> {forward_delay br, bridge_forward_delay br} \<Longrightarrow> dsts br' \<subseteq> dsts br \<Longrightarrow> tame D br (Some br')"
  using follows_delays by (auto simp: tame_def)

lemma delays_pos: "delays_in D br \<Longrightarrow> \<forall>d \<in> D. 0 < d \<and> d < 2 ^ 31"
  by (simp add: delays_in_def)

lemma tame_same: "view br' = view br \<Longrightarrow> stp_inv br \<Longrightarrow> forward_delay br' = forward_delay br \<Longrightarrow> tame D br (Some br')"
  by (rule quiet_tame [OF quietI])

lemma tame_from:
  assumes "tame D b r" "delays_in D br \<Longrightarrow> follows D br b" "port_nos b = port_nos br" "delays_in D br \<Longrightarrow> delays_in D b"
    and "dsts b \<subseteq> dsts br"
  shows "tame D br r"
proof -
  obtain c where c: "r = Some c" "stp_inv c" "port_nos c = port_nos b" "dsts c \<subseteq> dsts b" "delays_in D b \<longrightarrow> delays_in D c \<and> follows D b c"
    using assms(1) unfolding tame_def by blast
  have "delays_in D c \<and> follows D br c" if d: "delays_in D br"
    using c(5) assms(4) [OF d] follows_trans [OF delays_pos [OF d] assms(2) [OF d]] by blast
  then show ?thesis using c assms(3,5) by (auto simp: tame_def)
qed

lemma tame_bind:
  assumes "tame D br r" "\<And>b. stp_inv b \<Longrightarrow> port_nos b = port_nos br \<Longrightarrow> tame D b (f b)"
  shows "tame D br (r \<bind> f)"
proof -
  obtain b where b: "r = Some b" "stp_inv b" "port_nos b = port_nos br" "dsts b \<subseteq> dsts br" "delays_in D br \<longrightarrow> delays_in D b \<and> follows D br b"
    using assms(1) unfolding tame_def by blast
  have "tame D br (f b)" using b by (intro tame_from [OF assms(2)]) auto
  then show ?thesis using b(1) by simp
qed

lemma tame_mfold:
  assumes "\<And>x b. x \<in> set xs \<Longrightarrow> stp_inv b \<Longrightarrow> port_nos b = port_nos br \<Longrightarrow> tame D b (f x b)" "stp_inv br"
  shows "tame D br (mfold f xs br)"
  using assms
proof (induction xs arbitrary: br)
  case Nil
  then show ?case by (simp add: tameI follows_refl)
next
  case (Cons x xs)
  show ?case unfolding mfold.simps
  proof (rule tame_bind)
    show "tame D br (f x br)" using Cons.prems by simp
    fix b assume b: "stp_inv b" "port_nos b = port_nos br"
    then show "tame D b (mfold f xs b)" using Cons.prems(1) by (intro Cons.IH) simp_all
  qed
qed

lemma tame_if: "(P \<Longrightarrow> tame D br a) \<Longrightarrow> (\<not> P \<Longrightarrow> tame D br b) \<Longrightarrow> tame D br (if P then a else b)"
  by simp

lemma stp_invD:
  assumes "stp_inv br"
  shows "wf_ports br" "root_ok br" "states_ok br" "\<exists>refs. fdb_ok br refs"
  using assms by (auto simp: stp_inv_def)

text \<open>Choosing root port, designated ports and states anew establishes the invariant.\<close>

lemma moved_new_port: "pv q = pv (new_port br p) \<Longrightarrow> moved D (jiffies br) (stp_enabled br) p q"
proof -
  assume "pv q = pv (new_port br p)"
  then have q: "port_no q = port_no p" "state q = new_state br p" "forward_delay_timer q = forward_delay_timer (new_port br p)"
    by (simp_all add: pv_def)
  show ?thesis unfolding moved_def q by (simp add: new_state_def new_port_def br_timer_set_def)
qed

lemma state_selection_tame:
  assumes "wf_ports br" "root_ok br" "fdb_ok br refs"
  shows "tame D br (br_port_state_selection br) \<and>
    (\<forall>br'. br_port_state_selection br = Some br' \<longrightarrow> bv br' = bv br \<and>
      (\<forall>q \<in> set (port_list br'). state q = Disabled \<or> (state q \<noteq> Blocking \<longleftrightarrow> may_pass br' q)) \<and>
      (\<forall>q \<in> set (port_list br'). \<exists>p \<in> set (port_list br). port_no q = port_no p \<and> (state q = Disabled \<longleftrightarrow> state p = Disabled)))"
proof -
  obtain b where b: "br_port_state_selection br = Some b" "bv b = bv br" "port_nos b = port_nos br"
      "forward_delay b \<in> {forward_delay br, bridge_forward_delay br}" "list_all2 (\<lambda>p q. pv q = pv (new_port br p)) (port_list br) (port_list b)"
    using port_state_selection_ok [OF assms(1,2)] by blast
  have ex: "\<exists>p \<in> set (port_list br). pv q = pv (new_port br p)" if q: "q \<in> set (port_list b)" for q
  proof -
    obtain i where i: "i < length (port_list b)" "q = port_list b ! i" using q by (auto simp: in_set_conv_nth)
    have "i < length (port_list br)" "pv q = pv (new_port br (port_list br ! i))" using b(5) i by (auto simp: list_all2_conv_all_nth)
    then show ?thesis using nth_mem by blast
  qed
  have mp: "may_pass b q = may_pass br p" "state q = new_state br p" "port_no q = port_no p" if "pv q = pv (new_port br p)" for p q
    using that b(2) by (auto simp: may_pass_def designated_iff bv_def pv_def)
  have st: "state q = Disabled \<or> (state q \<noteq> Blocking \<longleftrightarrow> may_pass b q)" if q: "q \<in> set (port_list b)" for q
  proof -
    obtain p where "pv q = pv (new_port br p)" using ex [OF q] by blast
    then show ?thesis using mp [of q p] by (auto simp: new_state_def split: if_splits)
  qed
  then have "states_ok b" unfolding states_ok_def by (metis br_state.distinct insertE empty_iff)
  moreover have "wf_ports b" "root_ok b" "fdb_ok b refs" using bv_inv [OF b(2,3)] assms by simp_all
  ultimately have inv: "stp_inv b" by (auto simp: stp_inv_def)
  have "jiffies b = jiffies br" "stp_enabled b = stp_enabled br" "bridge_forward_delay b = bridge_forward_delay br" using b(2) by (simp_all add: bv_def)
  moreover have "\<exists>p \<in> set (port_list br). moved D (jiffies br) (stp_enabled br) p q" if q: "q \<in> set (port_list b)" for q
    using ex [OF q] moved_new_port by blast
  ultimately have "follows D br b" by (simp add: follows_def)
  moreover have "dsts b \<subseteq> dsts br" using b(2) by (intro dsts_same) (simp_all add: bv_def)
  ultimately have "tame D br (Some b)" by (rule tameI [OF inv _ b(3,4)])
  moreover have "\<exists>p \<in> set (port_list br). port_no q = port_no p \<and> (state q = Disabled \<longleftrightarrow> state p = Disabled)" if q: "q \<in> set (port_list b)" for q
  proof -
    obtain p where p: "p \<in> set (port_list br)" "pv q = pv (new_port br p)" using ex [OF q] by blast
    then have "state q = Disabled \<longleftrightarrow> state p = Disabled" using mp(2) [of q p] by (auto simp: new_state_def split: if_splits)
    then show ?thesis using p mp(3) by blast
  qed
  ultimately show ?thesis using b(1,2) st by simp
qed

lemma update_and_select_tame:
  assumes "wf_ports br" "fdb_ok br refs"
  shows "tame D br (update_and_select br) \<and>
    (\<forall>br'. update_and_select br = Some br' \<longrightarrow> bridge_id br' = bridge_id br \<and> fdb_heap br' = fdb_heap br \<and> best_root br br' \<and>
      (\<forall>q \<in> set (port_list br'). state q = Disabled \<or> (state q \<noteq> Blocking \<longleftrightarrow> may_pass br' q)) \<and>
      (\<forall>q \<in> set (port_list br'). port_no q = root_port br' \<longrightarrow> state q \<noteq> Disabled))"
proof -
  obtain b where b: "br_configuration_update br = Some b" "best_root br b" "root_ok b" "wf_ports b"
      "b = br\<lparr>root_port := root_port b, designated_root := designated_root b, root_path_cost := root_path_cost b,
        port_list := map (redesignate b) (port_list br)\<rparr>"
    using configuration_update_ok [OF assms(1)] by blast
  have same: "port_list b = map (redesignate b) (port_list br)" "hash b = hash br" "fdb_heap b = fdb_heap br" "forward_delay b = forward_delay br"
      "bridge_id b = bridge_id br" "jiffies b = jiffies br" "bridge_forward_delay b = bridge_forward_delay br" "stp_enabled b = stp_enabled br"
    by (subst b(5), simp)+
  have nos: "port_nos b = port_nos br" by (simp add: port_nos_def same(1) comp_def)
  have "fdb_ok b refs" using fdb_ok_parts [OF same(2,3)] assms(2) by simp
  note sel = state_selection_tame [OF b(4,3) this, of D]
  have "follows D br b" unfolding follows_def same by (auto simp: moved_def)
  then have t: "tame D br (update_and_select br)"
    using tame_from [of D b "br_port_state_selection b" br] sel nos same(4,7) b(1) dsts_same [OF same(2,3)]
    by (simp add: update_and_select_def delays_in_def)
  have rest: "bridge_id c = bridge_id br \<and> fdb_heap c = fdb_heap br \<and> best_root br c \<and> (\<forall>q \<in> set (port_list c). state q = Disabled \<or> (state q \<noteq> Blocking \<longleftrightarrow> may_pass c q)) \<and>
      (\<forall>q \<in> set (port_list c). port_no q = root_port c \<longrightarrow> state q \<noteq> Disabled)" if c: "br_port_state_selection b = Some c" for c
  proof -
    have s: "bv c = bv b" "\<forall>q \<in> set (port_list c). state q = Disabled \<or> (state q \<noteq> Blocking \<longleftrightarrow> may_pass c q)"
        "\<forall>q \<in> set (port_list c). \<exists>p \<in> set (port_list b). port_no q = port_no p \<and> (state q = Disabled \<longleftrightarrow> state p = Disabled)"
      using sel c by auto
    have c2: "bridge_id c = bridge_id br" "root_port c = root_port b" "designated_root c = designated_root b" "root_path_cost c = root_path_cost b"
        "fdb_heap c = fdb_heap br"
      using s(1) same(3,5) by (simp_all add: bv_def)
    have "best_root br c" using b(2) c2 by (simp add: best_root_def)
    moreover have "state q \<noteq> Disabled" if q: "q \<in> set (port_list c)" "port_no q = root_port c" for q
    proof -
      obtain p where p: "p \<in> set (port_list b)" "port_no q = port_no p" "state q = Disabled \<longleftrightarrow> state p = Disabled" using s(3) q(1) by blast
      then obtain p0 where p0: "p0 \<in> set (port_list br)" "p = redesignate b p0" unfolding same(1) by auto
      have n0: "port_no p0 = root_port b" using p(2) p0(2) q(2) c2(2) by simp
      then have "root_port b \<noteq> 0" using p0(1) assms(1) by (auto simp: wf_ports_def port_nos_def)
      then obtain r where r: "r \<in> set (port_list br)" "candidate br r" "port_no r = root_port b" using b(2) unfolding best_root_def by auto
      have "r = p0" using get_port_iff [OF assms(1), of "root_port b"] r n0 p0(1) by (metis option.inject)
      then show ?thesis using r(2) p(3) p0(2) by (simp add: candidate_def)
    qed
    ultimately show ?thesis using c2(1,5) s(2) by blast
  qed
  then show ?thesis using t b(1) by (simp add: update_and_select_def)
qed

text \<open>Ports that keep their state, or stop, change as they may.\<close>

lemma moved_same: "port_no q = port_no p \<Longrightarrow> state q = state p \<Longrightarrow> forward_delay_timer q = forward_delay_timer p \<Longrightarrow> moved D now stp p q"
  by (simp add: moved_def)

lemma moved_idle: "port_no q = port_no p \<Longrightarrow> state q \<in> {Disabled, Blocking} \<Longrightarrow> moved D now stp p q"
  by (auto simp: moved_def)

lemma follows_upd:
  assumes "\<And>p. p \<in> set (port_list br) \<Longrightarrow> port_no p = no \<Longrightarrow> moved D (jiffies br) (stp_enabled br) p (f p)"
  shows "follows D br (upd_port no f br)"
  by (rule follows_map [of _ _ "\<lambda>p. if port_no p = no then f p else p"]) (use assms moved_refl in simp_all)

lemma update_after:
  assumes "stp_inv br" "port_nos b = port_nos br" "hash b = hash br" "fdb_heap b = fdb_heap br" "follows D br b" "forward_delay b = forward_delay br"
  shows "tame D br (update_and_select b)"
proof -
  obtain refs where r: "fdb_ok br refs" using stp_invD(4) [OF assms(1)] by blast
  have "wf_ports b" "fdb_ok b refs"
    using stp_invD(1) [OF assms(1)] r fdb_ok_parts [OF assms(3,4)] assms(2) by (simp_all add: wf_ports_def)
  then have "tame D b (update_and_select b)" using update_and_select_tame by blast
  then show ?thesis by (rule tame_from) (use assms follows_delays dsts_same in auto)
qed

lemma select_after:
  assumes "stp_inv br" "port_nos b = port_nos br" "hash b = hash br" "fdb_heap b = fdb_heap br" "follows D br b" "forward_delay b = forward_delay br"
    and "bridge_id b = bridge_id br" "designated_root b = designated_root br" "root_port b = root_port br"
  shows "tame D br (br_port_state_selection b)"
proof -
  obtain refs where r: "fdb_ok br refs" using stp_invD(4) [OF assms(1)] by blast
  have "wf_ports b" "root_ok b" "fdb_ok b refs"
    using stp_invD(1,2) [OF assms(1)] r fdb_ok_parts [OF assms(3,4)] assms by (simp_all add: wf_ports_def root_ok_def)
  then have "tame D b (br_port_state_selection b)" using state_selection_tame by blast
  then show ?thesis by (rule tame_from) (use assms follows_delays dsts_same in auto)
qed

lemma root_if_new_tame: "stp_inv br \<Longrightarrow> tame D br (root_if_new w br)"
  unfolding root_if_new_def using quiet_tame [OF become_root_quiet] stp_invD(2) tame_same by simp

lemma update_root_tame:
  assumes "stp_inv br" "port_nos b = port_nos br" "hash b = hash br" "fdb_heap b = fdb_heap br" "follows D br b" "forward_delay b = forward_delay br"
  shows "tame D br (update_and_select b \<bind> root_if_new w)"
  by (rule tame_bind [OF update_after [OF assms] root_if_new_tame])

lemma map_root_tame:
  assumes "stp_inv br"
    and "map (\<lambda>p. (port_no p, state p, forward_delay_timer p)) (port_list b) = map (\<lambda>p. (port_no p, state p, forward_delay_timer p)) (port_list br)"
      (is "map ?k _ = _")
    and "hash b = hash br" "fdb_heap b = fdb_heap br" "forward_delay b = forward_delay br" "bridge_forward_delay b = bridge_forward_delay br"
      "jiffies b = jiffies br" "stp_enabled b = stp_enabled br"
  shows "tame D br (update_and_select b \<bind> root_if_new w)"
proof (rule update_root_tame [OF assms(1) _ assms(3,4) _ assms(5)])
  show "port_nos b = port_nos br" using arg_cong [OF assms(2), of "map fst"] by (simp add: port_nos_def comp_def)
  have "\<exists>p \<in> set (port_list br). moved D (jiffies br) (stp_enabled br) p q" if q: "q \<in> set (port_list b)" for q
  proof -
    have "?k q \<in> set (map ?k (port_list br))" unfolding assms(2) [symmetric] using q by auto
    then obtain p where "p \<in> set (port_list br)" "?k q = ?k p" by auto
    then show ?thesis using moved_same [of q p] by blast
  qed
  then show "follows D br b" using assms(6-8) by (simp add: follows_def)
qed

lemma disable_port_tame: "stp_inv br \<Longrightarrow> tame D br (br_stp_disable_port no br)"
  unfolding br_stp_disable_port_def Let_def
  by (rule update_root_tame) (auto simp: become_designated_def intro!: follows_upd moved_idle upd_port_nos)

lemma enable_port_tame: "stp_inv br \<Longrightarrow> tame D br (br_stp_enable_port no br)"
  unfolding br_stp_enable_port_def br_init_port_def
  by (rule select_after) (auto simp: init_port_def become_designated_def Let_def intro!: follows_upd moved_idle upd_port_nos)

lemma message_age_tame: "stp_inv br \<Longrightarrow> tame D br (br_message_age_timer_expired no br)"
  unfolding br_message_age_timer_expired_def Let_def br_become_designated_port_def
  by (rule update_root_tame) (auto simp: become_designated_def intro!: follows_upd moved_same upd_port_nos)

lemma path_cost_tame: "stp_inv br \<Longrightarrow> tame D br (br_stp_set_path_cost no cost br)"
  unfolding br_stp_set_path_cost_def
  by (rule update_after) (auto intro!: follows_upd moved_same upd_port_nos)

lemma change_bridge_id_tame: "stp_inv br \<Longrightarrow> tame D br (br_stp_change_bridge_id addr br)"
  unfolding br_stp_change_bridge_id_def Let_def
  by (rule map_root_tame) simp_all

lemma recalculate_tame: "stp_inv br \<Longrightarrow> tame D br (br_stp_recalculate_bridge_id br)"
  unfolding br_stp_recalculate_bridge_id_def Let_def using change_bridge_id_tame tame_same by simp

lemma bridge_priority_tame: "stp_inv br \<Longrightarrow> tame D br (br_stp_set_bridge_priority newprio br)"
  unfolding br_stp_set_bridge_priority_def Let_def
  by (rule map_root_tame) simp_all

text \<open>Changing one port without touching what it is designated for.\<close>

lemma stp_inv_upd:
  assumes "stp_inv br"
    and "\<And>p. p \<in> set (port_list br) \<Longrightarrow> port_no p = no \<Longrightarrow> port_no (f p) = no \<and>
      (state (f p) \<in> {Listening, Learning, Forwarding} \<longrightarrow> state p \<in> {Listening, Learning, Forwarding} \<and>
        (br_is_designated_port br p \<longrightarrow> br_is_designated_port br (f p)))"
  shows "stp_inv (upd_port no f br)"
proof -
  let ?b = "upd_port no f br"
  have nos: "port_nos ?b = port_nos br" using assms(2) by (auto simp: port_nos_def)
  have "may_pass ?b q" if q: "q \<in> set (port_list ?b)" "state q \<in> {Listening, Learning, Forwarding}" for q
  proof -
    obtain p where p: "p \<in> set (port_list br)" "q = (if port_no p = no then f p else p)" using q(1) by auto
    have "state p \<in> {Listening, Learning, Forwarding}" using assms(2) [OF p(1)] p(2) q(2) by (auto split: if_splits)
    then have "may_pass br p" using stp_invD(3) [OF assms(1)] p(1) unfolding states_ok_def by blast
    then show ?thesis using assms(2) [OF p(1)] p(2) q(2) by (auto simp: may_pass_def designated_iff split: if_splits)
  qed
  then have "states_ok ?b" unfolding states_ok_def by blast
  moreover obtain refs where "fdb_ok br refs" using stp_invD(4) [OF assms(1)] by blast
  then have "fdb_ok ?b refs" using fdb_ok_parts [of ?b br refs] by simp
  ultimately show ?thesis using stp_invD(1,2) [OF assms(1)] nos unfolding stp_inv_def by (auto simp: wf_ports_def root_ok_def)
qed

lemma port_priority_tame:
  assumes "stp_inv br" "no \<in> set (port_nos br)"
  shows "tame D br (br_stp_set_port_priority no newprio br)"
proof -
  obtain p where p: "br_get_port br no = Some p" using get_port_ex [OF assms(2)] by blast
  define n where "n = br_make_port_id (p\<lparr>priority := newprio mod 256\<rparr>)"
  define f where "f = (\<lambda>p. p\<lparr>priority := newprio mod 256, port_id := n, designated_port := (if br_is_designated_port br p then n else designated_port p)\<rparr>)"
  let ?b = "upd_port no f br"
  have f: "port_no (f p) = port_no p" "state (f p) = state p" "forward_delay_timer (f p) = forward_delay_timer p"
      "br_is_designated_port br p \<Longrightarrow> br_is_designated_port br (f p)" for p
    by (simp_all add: f_def designated_iff)
  have b: "stp_inv ?b" by (rule stp_inv_upd [OF assms(1)]) (simp add: f)
  have fol: "follows D br ?b" by (rule follows_upd [OF moved_same]) (simp_all add: f)
  have nos: "port_nos ?b = port_nos br" by (rule upd_port_nos) (simp add: f)
  have t: "tame D ?b (br_port_state_selection (br_become_designated_port no ?b))"
    unfolding br_become_designated_port_def
    by (rule select_after [OF b]) (auto simp: become_designated_def intro!: follows_upd moved_same upd_port_nos)
  have "tame D ?b (if memcmp_id (bridge_id ?b) (designated_bridge (f p)) = 0 \<and> port_id (f p) < designated_port (f p)
      then br_port_state_selection (br_become_designated_port no ?b) else Some ?b)"
    using t tame_same [OF refl b refl] by simp
  moreover have "br_stp_set_port_priority no newprio br = (if memcmp_id (bridge_id ?b) (designated_bridge (f p)) = 0 \<and> port_id (f p) < designated_port (f p)
      then br_port_state_selection (br_become_designated_port no ?b) else Some ?b)"
    unfolding br_stp_set_port_priority_def p bind.bind_lunit Let_def n_def [symmetric] f_def [symmetric] get_upd [OF p f(1)] ..
  ultimately have "tame D ?b (br_stp_set_port_priority no newprio br)" by (simp only:)
  then show ?thesis by (rule tame_from [OF _ fol nos]) (rule follows_delays [OF fol], simp_all add: dsts_same)
qed

text \<open>Frames.\<close>

lemma tame_quiet_bind: "quiet r br \<Longrightarrow> stp_inv br \<Longrightarrow> (\<And>b. stp_inv b \<Longrightarrow> port_nos b = port_nos br \<Longrightarrow> tame D b (f b)) \<Longrightarrow> tame D br (r \<bind> f)"
  by (rule tame_bind [OF quiet_tame])

lemma received_tcn_tame:
  assumes "stp_inv br" "no \<in> set (port_nos br)"
  shows "tame D br (br_received_tcn_bpdu no br)"
proof -
  obtain p where p: "br_get_port br no = Some p" using get_port_ex [OF assms(2)] by blast
  have "tame D br (br_topology_change_detection br \<bind> br_topology_change_acknowledge no)"
  proof (rule tame_quiet_bind [OF detection_quiet assms(1)])
    fix b assume b: "stp_inv b" "port_nos b = port_nos br"
    let ?c = "upd_port no (\<lambda>p. p\<lparr>topology_change_ack := True\<rparr>) b"
    have v: "view ?c = view b" by (rule upd_port_view) (simp add: pv_def)
    have "quiet (br_transmit_config no ?c) ?c"
      using stp_invD(2) [OF b(1)] view_inv(2) [OF v] view_port_nos [OF v] b(2) assms(2) by (intro transmit_config_quiet) simp_all
    then have "quiet (br_transmit_config no ?c) b" by (rule quiet_cong [OF _ v]) simp
    then show "tame D b (br_topology_change_acknowledge no b)" unfolding br_topology_change_acknowledge_def by (rule quiet_tame [OF _ b(1)])
  qed (rule stp_invD(2) [OF assms(1)])
  then show ?thesis using tame_same [OF refl assms(1) refl] by (simp add: br_received_tcn_bpdu_def p)
qed

lemma leave_root_quiet:
  assumes "root_ok br"
  shows "quiet (if \<not> br_is_root_bridge br \<and> was_root then do {
             let br = br\<lparr>hello_timer := br_timer_clear (hello_timer br)\<rparr>;
             if topology_change_detected br then do {
               br \<leftarrow> br_transmit_tcn (br\<lparr>topology_change_timer := br_timer_clear (topology_change_timer br)\<rparr>);
               Some (br\<lparr>tcn_timer := br_timer_set (jiffies br) (tcn_timer br)\<rparr>) }
             else Some br }
           else Some br) br"
proof (cases "\<not> br_is_root_bridge br \<and> was_root")
  case True
  then have r: "root_port br \<in> set (port_nos br)" using assms by (simp add: root_ok_def root_bridge_iff)
  let ?b = "br\<lparr>hello_timer := br_timer_clear (hello_timer br)\<rparr>"
  let ?c = "?b\<lparr>topology_change_timer := br_timer_clear (topology_change_timer br)\<rparr>"
  have v: "view ?b = view br" "view ?c = view br" by (simp_all add: view_def bv_def)
  have "quiet (br_transmit_tcn ?c) ?c" using r by (intro transmit_tcn_quiet) (simp add: port_nos_def)
  then have "quiet (br_transmit_tcn ?c) br" by (rule quiet_cong [OF _ v(2)]) simp
  then have "quiet (br_transmit_tcn ?c \<bind> (\<lambda>br. Some (br\<lparr>tcn_timer := br_timer_set (jiffies br) (tcn_timer br)\<rparr>))) br"
    by (rule quiet_bind) (simp add: quietI view_def bv_def)
  then show ?thesis using True v(1) by (simp add: Let_def quietI)
next
  case False
  show ?thesis unfolding if_not_P [OF False] by (simp add: quietI)
qed

lemma timeout_values_tame:
  assumes "stp_inv br"
  shows "tame {} br (do { b \<leftarrow> br_config_bpdu_generation (br_record_config_timeout_values bpdu br);
    Some (if bp_topology_change_ack bpdu then br_topology_change_acknowledged b else b) })"
proof -
  let ?b = "br_record_config_timeout_values bpdu br"
  have v: "view ?b = view br" by (simp add: view_def bv_def br_record_config_timeout_values_def)
  have "stp_inv ?b" using view_stp_inv [OF v] assms by simp
  then have "tame {} ?b (do { b \<leftarrow> br_config_bpdu_generation ?b;
      Some (if bp_topology_change_ack bpdu then br_topology_change_acknowledged b else b) })"
    by (intro tame_quiet_bind [OF generation_quiet] tame_same stp_invD(2))
      (simp_all add: view_def bv_def br_topology_change_acknowledged_def)
  then show ?thesis by (rule tame_from [OF _ view_follows [OF v] view_port_nos [OF v]]) (simp_all add: delays_in_def dsts_same br_record_config_timeout_values_def)
qed

lemma received_config_tame:
  assumes "stp_inv br" "no \<in> set (port_nos br)"
  shows "tame {} br (br_received_config_bpdu no bpdu br)"
proof -
  obtain p where p: "br_get_port br no = Some p" using get_port_ex [OF assms(2)] by blast
  have "tame {} br (update_and_select (br_record_config_information no bpdu br))"
    unfolding br_record_config_information_def
    by (rule update_after [OF assms(1)]) (auto intro!: follows_upd moved_same upd_port_nos)
  then have "tame {} br (do {
      br \<leftarrow> update_and_select (br_record_config_information no bpdu br);
      br \<leftarrow> (if \<not> br_is_root_bridge br \<and> was_root then do {
             let br = br\<lparr>hello_timer := br_timer_clear (hello_timer br)\<rparr>;
             if topology_change_detected br then do {
               br \<leftarrow> br_transmit_tcn (br\<lparr>topology_change_timer := br_timer_clear (topology_change_timer br)\<rparr>);
               Some (br\<lparr>tcn_timer := br_timer_set (jiffies br) (tcn_timer br)\<rparr>) }
             else Some br }
           else Some br);
      if no = root_port br then do {
        br \<leftarrow> br_config_bpdu_generation (br_record_config_timeout_values bpdu br);
        Some (if bp_topology_change_ack bpdu then br_topology_change_acknowledged br else br) }
      else Some br })" for was_root
  proof (rule tame_bind)
    fix b assume b: "stp_inv b" "port_nos b = port_nos br"
    note q = leave_root_quiet [OF stp_invD(2) [OF b(1)], of was_root]
    show "tame {} b (do {
      br \<leftarrow> (if \<not> br_is_root_bridge b \<and> was_root then do {
             let br = b\<lparr>hello_timer := br_timer_clear (hello_timer b)\<rparr>;
             if topology_change_detected br then do {
               br \<leftarrow> br_transmit_tcn (br\<lparr>topology_change_timer := br_timer_clear (topology_change_timer br)\<rparr>);
               Some (br\<lparr>tcn_timer := br_timer_set (jiffies br) (tcn_timer br)\<rparr>) }
             else Some br }
           else Some b);
      if no = root_port br then do {
        br \<leftarrow> br_config_bpdu_generation (br_record_config_timeout_values bpdu br);
        Some (if bp_topology_change_ack bpdu then br_topology_change_acknowledged br else br) }
      else Some br })"
      by (rule tame_quiet_bind [OF q b(1)]) (use timeout_values_tame tame_same in simp)
  qed
  moreover have "tame {} br (br_reply no br)"
    unfolding br_reply_def by (rule quiet_tame [OF transmit_config_quiet assms(1)]) (use stp_invD(2) assms in blast)+
  ultimately show ?thesis
    unfolding br_received_config_bpdu_def p bind.bind_lunit Let_def using tame_same [OF refl assms(1) refl] by simp
qed

lemma handle_bpdu_tame:
  assumes "stp_inv br" "no \<in> set (port_nos br)"
  shows "tame {} br (br_stp_handle_bpdu no data br)"
  unfolding br_stp_handle_bpdu_def Let_def
  using tame_same [OF refl assms(1) refl] received_config_tame [OF assms] received_tcn_tame [OF assms] by simp

text \<open>Timers.\<close>

lemma clear_tame:
  assumes "stp_inv br" "\<And>p. port_no (f p) = port_no p \<and> state (f p) = state p \<and> port_id (f p) = port_id p \<and>
      designated_bridge (f p) = designated_bridge p \<and> designated_port (f p) = designated_port p"
    "\<And>p. forward_delay_timer (f p) = forward_delay_timer p"
    and "\<And>b. stp_inv b \<Longrightarrow> port_nos b = port_nos br \<Longrightarrow> tame D b (g b)"
  shows "tame D br (g (upd_port no f br))"
proof -
  have i: "stp_inv (upd_port no f br)" by (rule stp_inv_upd [OF assms(1)]) (simp add: assms(2) designated_iff)
  have fol: "follows D br (upd_port no f br)" using assms(2,3) by (intro follows_upd [OF moved_same]) simp_all
  have nos: "port_nos (upd_port no f br) = port_nos br" using assms(2) by (intro upd_port_nos) simp
  show ?thesis by (rule tame_from [OF assms(4) [OF i nos] fol nos]) (rule follows_delays [OF fol], simp_all add: dsts_same)
qed

lemma check_message_age_tame:
  assumes "stp_inv br" "no \<in> set (port_nos br)"
  shows "tame D br (check_message_age no br)"
proof -
  obtain p where p: "br_get_port br no = Some p" using get_port_ex [OF assms(2)] by blast
  have "tame D br (br_message_age_timer_expired no (upd_port no (\<lambda>p. p\<lparr>message_age_timer := br_timer_clear (message_age_timer p)\<rparr>) br))"
    by (rule clear_tame [OF assms(1)]) (simp_all add: message_age_tame)
  then show ?thesis using tame_same [OF refl assms(1) refl] by (simp add: check_message_age_def p)
qed

lemma check_hold_tame:
  assumes "stp_inv br" "no \<in> set (port_nos br)"
  shows "tame D br (check_hold no br)"
proof -
  obtain p where p: "br_get_port br no = Some p" using get_port_ex [OF assms(2)] by blast
  have "tame D b (br_hold_timer_expired no b)" if b: "stp_inv b" "port_nos b = port_nos br" for b
  proof -
    obtain q where "br_get_port b no = Some q" using get_port_ex [of no b] assms(2) b(2) by auto
    then show ?thesis using quiet_tame [OF transmit_config_quiet b(1), of no] stp_invD(2) [OF b(1)] assms(2) b tame_same [OF refl b(1) refl]
      by (simp add: br_hold_timer_expired_def)
  qed
  then have "tame D br (br_hold_timer_expired no (upd_port no (\<lambda>p. p\<lparr>hold_timer := br_timer_clear (hold_timer p)\<rparr>) br))"
    by (intro clear_tame [OF assms(1)]) simp_all
  then show ?thesis using tame_same [OF refl assms(1) refl] by (simp add: check_hold_def p)
qed

lemma delay_upd_tame:
  assumes "stp_inv br" "br_get_port br no = Some p" "D \<noteq> {}"
    and e: "br_timer_has_expired (jiffies br) (forward_delay_timer p) (word_of_int (forward_delay br))"
    and k: "\<And>q. port_no (k q) = port_no q \<and> port_id (k q) = port_id q \<and> designated_bridge (k q) = designated_bridge q \<and> designated_port (k q) = designated_port q"
    and s: "state (k p) = state p \<and> state p \<notin> {Listening, Learning} \<or> state p = Learning \<and> state (k p) = Forwarding \<or>
      state p = Listening \<and> state (k p) = Learning \<and> running (forward_delay_timer (k p)) \<and> expires (forward_delay_timer (k p)) = jiffies br"
  shows "tame D br (Some (upd_port no k br))"
proof -
  have one: "q = p" if "q \<in> set (port_list br)" "port_no q = no" for q
    using get_port_iff [OF stp_invD(1) [OF assms(1)], of no q] assms(2) that by simp
  have inv: "stp_inv (upd_port no k br)"
    by (rule stp_inv_upd [OF assms(1)]) (use k s one in \<open>auto simp: designated_iff\<close>)
  have nos: "port_nos (upd_port no k br) = port_nos br" using k by (intro upd_port_nos) simp
  have "moved D (jiffies br) (stp_enabled br) p (k p)" if "delays_in D br"
  proof -
    have "run_off D (jiffies br) p" using that assms(3) e by (auto simp: delays_in_def run_off_def)
    then show ?thesis using k [of p] s unfolding moved_def by auto
  qed
  then have "follows D br (upd_port no k br)" if "delays_in D br" using that one by (intro follows_upd) blast
  then show ?thesis using inv nos follows_delays [of D br "upd_port no k br"] dsts_same [of "upd_port no k br" br] by (simp add: tame_def)
qed

lemma upd_upd: "(\<And>p. port_no (f p) = port_no p) \<Longrightarrow> upd_port no g (upd_port no f br) = upd_port no (g \<circ> f) br"
  by (simp add: upd_port_def)

lemma check_forward_delay_tame:
  assumes "stp_inv br" "no \<in> set (port_nos br)" "D \<noteq> {}"
  shows "tame D br (check_forward_delay no br)"
proof -
  obtain p where p: "br_get_port br no = Some p" using get_port_ex [OF assms(2)] by blast
  let ?f = "\<lambda>p. p\<lparr>forward_delay_timer := br_timer_clear (forward_delay_timer p)\<rparr>"
  let ?l = "\<lambda>p. p\<lparr>state := Learning, forward_delay_timer := br_timer_set (jiffies br) (forward_delay_timer p)\<rparr>"
  let ?g = "\<lambda>p. p\<lparr>state := Forwarding\<rparr>"
  have gp: "br_get_port (upd_port no ?f br) no = Some (?f p)" by (rule get_upd [OF p]) simp
  have t: "tame D br (br_forward_delay_timer_expired no (upd_port no ?f br))"
    if e: "br_timer_has_expired (jiffies br) (forward_delay_timer p) (word_of_int (forward_delay br))"
  proof -
    consider "state p = Listening" | "state p = Learning" | "state p \<notin> {Listening, Learning}" by blast
    then show ?thesis
    proof cases
      case 1
      have "br_forward_delay_timer_expired no (upd_port no ?f br) = Some (upd_port no (?l \<circ> ?f) br)"
        using 1 by (simp add: br_forward_delay_timer_expired_def gp upd_upd)
      moreover have "tame D br (Some (upd_port no (?l \<circ> ?f) br))"
        using 1 by (intro delay_upd_tame [OF assms(1) p assms(3) e]) (simp_all add: br_timer_set_def)
      ultimately show ?thesis by simp
    next
      case 2
      let ?b = "upd_port no (?g \<circ> ?f) br"
      have "tame D br (Some ?b)" using 2 by (intro delay_upd_tame [OF assms(1) p assms(3) e]) simp_all
      then have "tame D br (Some ?b \<bind> (\<lambda>b. if br_is_designated_for_some_port b then br_topology_change_detection b else Some b))"
        by (rule tame_bind) (use quiet_tame [OF detection_quiet] stp_invD(2) tame_same in simp)
      moreover have "br_forward_delay_timer_expired no (upd_port no ?f br) =
          (if br_is_designated_for_some_port ?b then br_topology_change_detection ?b else Some ?b)"
        using 2 by (simp add: br_forward_delay_timer_expired_def gp upd_upd Let_def)
      ultimately show ?thesis by simp
    next
      case 3
      then have "br_forward_delay_timer_expired no (upd_port no ?f br) = Some (upd_port no ?f br)"
        by (simp add: br_forward_delay_timer_expired_def gp)
      moreover have "tame D br (Some (upd_port no ?f br))"
        using 3 by (intro delay_upd_tame [OF assms(1) p assms(3) e]) simp_all
      ultimately show ?thesis by simp
    qed
  qed
  then show ?thesis using tame_same [OF refl assms(1) refl] by (simp add: check_forward_delay_def p)
qed

text \<open>The forwarding database is swept.\<close>

lemma fdb_inv:
  assumes "stp_inv c" "fdb_ok b refs" "b = c\<lparr>hash := hash b, fdb_heap := fdb_heap b\<rparr>"
  shows "stp_inv b"
proof -
  have "port_list b = port_list c" "bridge_id b = bridge_id c" "designated_root b = designated_root c" "root_port b = root_port c"
    by (subst assms(3), simp)+
  then show ?thesis using assms(1,2) unfolding stp_inv_def
    by (auto simp: wf_ports_def root_ok_def states_ok_def may_pass_def designated_iff port_nos_def)
qed

lemma sweep_tame:
  assumes "stp_inv br" "view c = view br" "forward_delay c = forward_delay br"
    and "\<And>refs. fdb_ok c refs \<Longrightarrow> \<exists>b. r = Some b \<and> fdb_ok b refs \<and> b = c\<lparr>hash := hash b, fdb_heap := fdb_heap b\<rparr> \<and> dsts b \<subseteq> dsts c"
  shows "tame D br r"
proof -
  have c: "stp_inv c" using view_stp_inv [OF assms(2)] assms(1) by simp
  then obtain refs b where b: "r = Some b" "fdb_ok b refs" "b = c\<lparr>hash := hash b, fdb_heap := fdb_heap b\<rparr>" "dsts b \<subseteq> dsts c"
    using stp_invD(4) assms(4) by blast
  have same: "port_list b = port_list c"
      "jiffies b = jiffies c" "stp_enabled b = stp_enabled c" "bridge_forward_delay b = bridge_forward_delay c" "forward_delay b = forward_delay c"
    by (subst b(3), simp)+
  have "tame D c r" unfolding b(1) by (rule tameI [OF fdb_inv [OF c b(2,3)] follows_fields]) (simp_all add: same port_nos_def b(4))
  then show ?thesis
    by (rule tame_from [OF _ view_follows [OF assms(2)] view_port_nos [OF assms(2)]])
      (rule delays_mono, use assms(2,3) view_delay [OF assms(2)] view_dsts [OF assms(2)] in auto)
qed

lemma drop_dsts: "fdb_map b = spec_drop P (fdb_map br) \<Longrightarrow> dsts b \<subseteq> dsts br \<inter> fst ` {v. \<not> P v}"
proof
  fix x assume m: "fdb_map b = spec_drop P (fdb_map br)" and "x \<in> dsts b"
  then obtain a v where v: "fdb_map b a = Some v" "x = fst v" unfolding dsts_def ran_def by blast
  then have "fdb_map br a = Some v" "\<not> P v" unfolding m spec_drop_def by (auto split: option.splits if_splits)
  then show "x \<in> dsts br \<inter> fst ` {v. \<not> P v}" using v(2) unfolding dsts_def ran_def by blast
qed

lemma check_gc_tame: "stp_inv br \<Longrightarrow> tame D br (check_gc br)"
proof -
  assume inv: "stp_inv br"
  let ?c = "br\<lparr>gc_timer := br_timer_set (jiffies br) (gc_timer br)\<rparr>"
  have "tame D br (br_fdb_cleanup ?c)"
  proof (rule sweep_tame [OF inv])
    show "view ?c = view br" "forward_delay ?c = forward_delay br" by (simp_all add: view_def bv_def)
    fix refs assume "fdb_ok ?c refs"
    from cleanup_ok [OF this] drop_dsts
    show "\<exists>b. br_fdb_cleanup ?c = Some b \<and> fdb_ok b refs \<and> b = ?c\<lparr>hash := hash b, fdb_heap := fdb_heap b\<rparr> \<and> dsts b \<subseteq> dsts ?c" by blast
  qed
  then show ?thesis using tame_same [OF refl inv refl] by (simp add: check_gc_def)
qed

lemma check_hello_quiet: "root_ok br \<Longrightarrow> quiet (check_hello br) br"
proof -
  assume r: "root_ok br"
  let ?b = "br\<lparr>hello_timer := br_timer_clear (hello_timer br)\<rparr>"
  have v: "view ?b = view br" by (simp add: view_def bv_def)
  have "quiet (br_hello_timer_expired ?b) ?b"
    unfolding br_hello_timer_expired_def
    by (rule quiet_bind [OF generation_quiet]) (use r view_inv(2) [OF v] in \<open>simp_all add: quietI view_def bv_def\<close>)
  then have "quiet (br_hello_timer_expired ?b) br" by (rule quiet_cong [OF _ v]) simp
  then show ?thesis by (simp add: check_hello_def quietI)
qed

text \<open>Sending configuration messages leaves the retransmission of topology changes alone.\<close>

definition tcn_state :: "net_bridge \<Rightarrow> br_timer \<times> int" where
  "tcn_state br = (tcn_timer br, bridge_hello_time br)"

lemma send_bpdu_tcn: "br_send_bpdu no data br = Some b \<Longrightarrow> tcn_state b = tcn_state br"
  by (auto simp: br_send_bpdu_def tcn_state_def Let_def bind_eq_Some_conv split: if_splits)

lemma transmit_config_tcn: "br_transmit_config no br = Some b \<Longrightarrow> tcn_state b = tcn_state br"
  by (auto simp: br_transmit_config_def br_send_config_bpdu_def Let_def bind_eq_Some_conv tcn_state_def upd_port_def
      dest!: send_bpdu_tcn split: if_splits)

lemma mfold_keeps:
  assumes "\<And>x s t. f x s = Some t \<Longrightarrow> K t = K s"
  shows "mfold f xs s = Some t \<Longrightarrow> K t = K s"
proof (induction xs arbitrary: s)
  case (Cons x xs)
  then obtain u where "f x s = Some u" "mfold f xs u = Some t" by (auto simp: bind_eq_Some_conv)
  then show ?case using Cons.IH assms by fastforce
qed simp

lemma generation_tcn: "br_config_bpdu_generation br = Some b \<Longrightarrow> tcn_state b = tcn_state br"
  unfolding br_config_bpdu_generation_def
  by (erule mfold_keeps [rotated]) (auto simp: bind_eq_Some_conv dest: transmit_config_tcn split: if_splits)

lemma check_hello_tcn: "check_hello br = Some b \<Longrightarrow> tcn_state b = tcn_state br"
  by (auto simp: check_hello_def br_hello_timer_expired_def bind_eq_Some_conv dest!: generation_tcn split: if_splits)
    (auto simp: tcn_state_def)

text \<open>
  The bridge is the root while the retransmission of a topology change notice is due: the notice has no port to go to.
\<close>

definition tcn_hazard :: "net_bridge \<Rightarrow> bool" where
  "tcn_hazard br \<longleftrightarrow> br_is_root_bridge br \<and> br_timer_has_expired (jiffies br) (tcn_timer br) (word_of_int (bridge_hello_time br))"

lemma tcn_hazard_cong:
  assumes "tcn_state b = tcn_state br" "bridge_id b = bridge_id br" "designated_root b = designated_root br" "jiffies b = jiffies br"
  shows "tcn_hazard b = tcn_hazard br"
  using assms by (simp add: tcn_hazard_def tcn_state_def root_bridge_iff)

lemma check_tcn_quiet:
  assumes "root_ok br" "\<not> tcn_hazard br"
  shows "quiet (check_tcn br) br"
proof (cases "br_timer_has_expired (jiffies br) (tcn_timer br) (word_of_int (bridge_hello_time br))")
  case True
  then have r: "root_port br \<in> set (port_nos br)" using assms by (simp add: tcn_hazard_def root_ok_def root_bridge_iff)
  let ?b = "br\<lparr>tcn_timer := br_timer_clear (tcn_timer br)\<rparr>"
  have "quiet (br_tcn_timer_expired ?b) ?b"
    unfolding br_tcn_timer_expired_def
    by (rule quiet_bind [OF transmit_tcn_quiet]) (use r in \<open>simp_all add: quietI view_def bv_def port_nos_def\<close>)
  then have "quiet (br_tcn_timer_expired ?b) br" by (rule quiet_cong) (simp_all add: view_def bv_def)
  then show ?thesis using True by (simp add: check_tcn_def)
next
  case False
  then show ?thesis by (simp add: check_tcn_def quietI)
qed

lemma check_tcn_fails:
  assumes "wf_ports br" "root_ok br" "tcn_hazard br"
  shows "check_tcn br = None"
proof -
  have "root_port br = 0" using assms(2,3) by (simp add: root_ok_def tcn_hazard_def root_bridge_iff)
  moreover have "br_get_port b 0 = None" if n: "port_nos b = port_nos br" for b
  proof (rule ccontr)
    assume "br_get_port b 0 \<noteq> None"
    then have "0 \<in> set (port_nos b)" using get_portD [of b 0] by (force simp: port_nos_def)
    then show False using assms(1) n by (simp add: wf_ports_def)
  qed
  ultimately show ?thesis using assms(3)
    by (simp add: tcn_hazard_def check_tcn_def br_tcn_timer_expired_def br_transmit_tcn_def br_send_tcn_bpdu_def br_send_bpdu_def port_nos_def)
qed

lemma before_tcn:
  assumes "stp_inv br"
  shows "\<exists>b. check_gc br \<bind> check_hello = Some b \<and> stp_inv b \<and> tcn_hazard b = tcn_hazard br \<and> tame D br (Some b) \<and> port_nos b = port_nos br"
proof -
  have t: "tame D br (check_gc br \<bind> check_hello)"
    by (rule tame_bind [OF check_gc_tame [OF assms]]) (use quiet_tame [OF check_hello_quiet] stp_invD(2) in blast)
  then obtain b where b: "check_gc br \<bind> check_hello = Some b" "stp_inv b" "port_nos b = port_nos br" by (auto simp: tame_def)
  then obtain c where c: "check_gc br = Some c" "check_hello c = Some b" by (auto simp: bind_eq_Some_conv)
  obtain refs where refs: "fdb_ok br refs" using stp_invD(4) [OF assms] by blast
  let ?g = "br\<lparr>gc_timer := br_timer_set (jiffies br) (gc_timer br)\<rparr>"
  have "fdb_ok ?g refs" using fdb_ok_parts [of ?g br refs] refs by simp
  then have "c = br \<or> c = ?g\<lparr>hash := hash c, fdb_heap := fdb_heap c\<rparr>"
    using c(1) cleanup_ok [of ?g refs] by (auto simp: check_gc_def split: if_splits)
  then have "tcn_state c = tcn_state br \<and> bridge_id c = bridge_id br \<and> designated_root c = designated_root br \<and> jiffies c = jiffies br"
  proof
    assume e: "c = ?g\<lparr>hash := hash c, fdb_heap := fdb_heap c\<rparr>"
    show ?thesis by (subst (1 2 3 4) e) (simp add: tcn_state_def)
  qed simp
  moreover have "root_ok c"
    using check_gc_tame [OF assms] c(1) stp_invD(2) by (auto simp: tame_def)
  then have "view b = view c" using check_hello_quiet [of c] c(2) by (auto simp: quiet_def)
  ultimately have "tcn_hazard b = tcn_hazard br"
    using check_hello_tcn [OF c(2)] by (intro tcn_hazard_cong) (simp_all add: view_def bv_def)
  then show ?thesis using b t by auto
qed

lemma check_port_timers_tame:
  assumes "stp_inv br" "no \<in> set (port_nos br)" "D \<noteq> {}"
  shows "tame D br (br_check_port_timers no br)"
  unfolding br_check_port_timers_def
  by (intro tame_bind check_message_age_tame check_forward_delay_tame check_hold_tame) (use assms in simp_all)

lemma check_ports_tame:
  assumes "stp_inv br" "D \<noteq> {}"
  shows "tame D br (mfold (\<lambda>no br. do { p \<leftarrow> br_get_port br no; if state p \<noteq> Disabled then br_check_port_timers no br else Some br }) (port_nos br) br)"
proof (rule tame_mfold [OF _ assms(1)])
  fix no b assume b: "no \<in> set (port_nos br)" "stp_inv b" "port_nos b = port_nos br"
  then obtain p where "br_get_port b no = Some p" using get_port_ex [of no b] by auto
  then show "tame D b (br_get_port b no \<bind> (\<lambda>p. if state p \<noteq> Disabled then br_check_port_timers no b else Some b))"
    using check_port_timers_tame [OF b(2) _ assms(2), of no] b tame_same [OF refl b(2) refl] by simp
qed

lemma check_timers_split: "br_check_timers br =
    do { br \<leftarrow> check_gc br \<bind> check_hello \<bind> check_tcn;
      let br = check_topology_change br;
      mfold (\<lambda>no br. do { p \<leftarrow> br_get_port br no; if state p \<noteq> Disabled then br_check_port_timers no br else Some br }) (port_nos br) br }"
  by (simp add: br_check_timers_def)

lemma check_timers_tame:
  assumes "stp_inv br" "\<not> tcn_hazard br" "D \<noteq> {}"
  shows "tame D br (br_check_timers br)"
proof -
  obtain b where b: "check_gc br \<bind> check_hello = Some b" "stp_inv b" "\<not> tcn_hazard b" "tame D br (Some b)"
    using before_tcn [OF assms(1), of D] assms(2) by blast
  have "tame D br (Some b \<bind> (\<lambda>_. check_tcn b))"
    by (rule tame_from [of D b]) (use quiet_tame [OF check_tcn_quiet b(2)] stp_invD(2) [OF b(2)] b(3,4) in \<open>auto simp: tame_def\<close>)
  then have "tame D br (check_gc br \<bind> check_hello \<bind> check_tcn)" by (simp add: b(1))
  then show ?thesis unfolding check_timers_split
  proof (rule tame_bind)
    fix c assume c: "stp_inv c" "port_nos c = port_nos br"
    let ?c = "check_topology_change c"
    have v: "view ?c = view c" "forward_delay ?c = forward_delay c"
      by (simp_all add: check_topology_change_def br_topology_change_timer_expired_def view_def bv_def)
    have i: "stp_inv ?c" using view_stp_inv [OF v(1)] c(1) by simp
    show "tame D c (let br = ?c in mfold (\<lambda>no br. do { p \<leftarrow> br_get_port br no; if state p \<noteq> Disabled then br_check_port_timers no br else Some br })
        (port_nos br) br)"
      unfolding Let_def
      by (rule tame_from [OF check_ports_tame [OF i assms(3)] view_follows [OF v(1)] view_port_nos [OF v(1)]])
        (rule delays_mono, use v view_delay [OF v(1)] view_dsts [OF v(1)] in auto)
  qed
qed

lemma tick_tame:
  assumes "stp_inv br" "\<not> tcn_hazard br" "D \<noteq> {}"
  shows "tame D br (br_tick br)"
proof -
  let ?b = "br\<lparr>tick := False\<rparr>"
  have v: "view ?b = view br" by (simp add: view_def bv_def)
  have i: "stp_inv ?b" using view_stp_inv [OF v] assms(1) by simp
  have "tame D ?b (br_check_timers ?b)"
    using assms(2) by (intro check_timers_tame [OF i _ assms(3)]) (simp add: tcn_hazard_def root_bridge_iff)
  then have "tame D br (br_check_timers ?b)"
    by (rule tame_from [OF _ view_follows [OF v] view_port_nos [OF v]]) (rule delays_mono, simp_all add: dsts_same)
  then show ?thesis unfolding br_tick_def by (rule tame_bind) (auto intro!: tame_same simp: view_def bv_def)
qed

lemma tick_fails:
  assumes "stp_inv br" "tcn_hazard br"
  shows "br_tick br = None"
proof -
  let ?b = "br\<lparr>tick := False\<rparr>"
  have v: "view ?b = view br" by (simp add: view_def bv_def)
  have i: "stp_inv ?b" using view_stp_inv [OF v] assms(1) by simp
  have "tcn_hazard ?b" using assms(2) by (simp add: tcn_hazard_def root_bridge_iff)
  then obtain b where b: "check_gc ?b \<bind> check_hello = Some b" "stp_inv b" "tcn_hazard b" using before_tcn [OF i] by blast
  have "check_tcn b = None" using check_tcn_fails b(3) stp_invD(1,2) [OF b(2)] by blast
  then show ?thesis by (simp add: br_tick_def check_timers_split b(1))
qed

text \<open>Opening and closing the bridge.\<close>

lemma tame_inv: "tame D br r \<Longrightarrow> \<exists>b. r = Some b \<and> stp_inv b \<and> port_nos b = port_nos br \<and> dsts b \<subseteq> dsts br"
  by (auto simp: tame_def)

lemma each_port_tame:
  assumes "stp_inv br" "\<And>no b. stp_inv b \<Longrightarrow> tame D b (f no b)"
  shows "tame D br (mfold (\<lambda>no br. do { p \<leftarrow> br_get_port br no; if P p then f no br else Some br }) (port_nos br) br)"
proof (rule tame_mfold [OF _ assms(1)])
  fix no b assume b: "no \<in> set (port_nos br)" "stp_inv b" "port_nos b = port_nos br"
  then obtain p where "br_get_port b no = Some p" using get_port_ex [of no b] by auto
  then show "tame D b (br_get_port b no \<bind> (\<lambda>p. if P p then f no b else Some b))"
    using assms(2) [OF b(2)] tame_same [OF refl b(2) refl] by simp
qed

lemma enable_bridge_tame:
  assumes "stp_inv br"
  shows "tame D br (br_stp_enable_bridge br)"
proof -
  let ?b = "br\<lparr>tick := True, hello_timer := br_timer_set (jiffies br) (hello_timer br)\<rparr>"
  have v: "view ?b = view br" by (simp add: view_def bv_def)
  have i: "stp_inv ?b" using view_stp_inv [OF v] assms by simp
  have "tame D br (br_config_bpdu_generation ?b)"
    by (rule tame_from [OF quiet_tame [OF generation_quiet i] view_follows [OF v] view_port_nos [OF v]])
      (use stp_invD(2) [OF i] dsts_same [of ?b br] in \<open>auto simp: delays_in_def\<close>)
  then show ?thesis unfolding br_stp_enable_bridge_def
    by (intro tame_bind [of D br] tame_bind [OF each_port_tame] tame_same enable_port_tame) (simp_all add: view_def bv_def)
qed

lemma disable_bridge_tame:
  assumes "stp_inv br"
  shows "tame D br (br_stp_disable_bridge br)"
proof -
  let ?b = "br\<lparr>topology_change := False, topology_change_detected := False, hello_timer := br_timer_clear (hello_timer br),
       topology_change_timer := br_timer_clear (topology_change_timer br), tcn_timer := br_timer_clear (tcn_timer br),
       gc_timer := br_timer_clear (gc_timer br)\<rparr>"
  have "tame D br (br_fdb_cleanup ?b)"
  proof (rule sweep_tame [OF assms])
    show "view ?b = view br" "forward_delay ?b = forward_delay br" by (simp_all add: view_def bv_def)
    fix refs assume "fdb_ok ?b refs"
    from cleanup_ok [OF this] drop_dsts
    show "\<exists>b. br_fdb_cleanup ?b = Some b \<and> fdb_ok b refs \<and> b = ?b\<lparr>hash := hash b, fdb_heap := fdb_heap b\<rparr> \<and> dsts b \<subseteq> dsts ?b" by blast
  qed
  then show ?thesis unfolding br_stp_disable_bridge_def
    by (intro tame_bind [of D br] tame_bind [OF each_port_tame] tame_same disable_port_tame) (simp_all add: view_def bv_def)
qed

text \<open>Removing a port: it is no longer the root port once it is disabled.\<close>

lemma disable_port_root:
  assumes "stp_inv br" "br_stp_disable_port no br = Some b" "no \<noteq> 0"
  shows "root_port b \<noteq> no"
proof -
  define f where "f = (\<lambda>p. (become_designated br p)\<lparr>state := Disabled, topology_change_ack := False, config_pending := False,
            message_age_timer := br_timer_clear (message_age_timer p), forward_delay_timer := br_timer_clear (forward_delay_timer p),
            hold_timer := br_timer_clear (hold_timer p)\<rparr>)"
  let ?x = "upd_port no f br"
  obtain c where c: "update_and_select ?x = Some c" "root_if_new (br_is_root_bridge br) c = Some b"
    using assms(2) by (auto simp: br_stp_disable_port_def Let_def f_def bind_eq_Some_conv)
  have f: "port_no (f p) = port_no p" "state (f p) = Disabled" for p by (simp_all add: f_def become_designated_def)
  obtain refs where "fdb_ok br refs" using stp_invD(4) [OF assms(1)] by blast
  then have r: "fdb_ok ?x refs" using fdb_ok_parts [of ?x br refs] by simp
  have w: "wf_ports ?x" using stp_invD(1) [OF assms(1)] upd_port_nos [of f no br] f by (simp add: wf_ports_def)
  have best: "best_root ?x c" using update_and_select_tame [OF w r] c(1) by blast
  have "root_port c \<noteq> no"
  proof
    assume n: "root_port c = no"
    then obtain q where "q \<in> set (port_list ?x)" "candidate ?x q" "port_no q = no" using best assms(3) unfolding best_root_def by auto
    then show False using f by (auto simp: candidate_def split: if_splits)
  qed
  moreover have "stp_inv c" using update_and_select_tame [OF w r, of "{}"] c(1) by (auto simp: tame_def)
  then have "quiet (root_if_new (br_is_root_bridge br) c) c"
    using become_root_quiet stp_invD(2) by (simp add: root_if_new_def quietI)
  then have "view b = view c" using c(2) by (auto simp: quiet_def)
  ultimately show ?thesis by (simp add: view_def bv_def)
qed

lemma remove_port_inv:
  assumes "stp_inv br" "root_port br \<noteq> no"
  shows "stp_inv (br\<lparr>port_list := filter (\<lambda>p. port_no p \<noteq> no) (port_list br)\<rparr>)"
proof -
  let ?b = "br\<lparr>port_list := filter (\<lambda>p. port_no p \<noteq> no) (port_list br)\<rparr>"
  have n: "port_nos ?b = filter (\<lambda>n. n \<noteq> no) (port_nos br)" by (simp add: port_nos_def filter_map comp_def)
  have "wf_ports ?b" "root_ok ?b" using stp_invD(1,2) [OF assms(1)] assms(2) n by (auto simp: wf_ports_def root_ok_def)
  moreover have "states_ok ?b" using stp_invD(3) [OF assms(1)] by (auto simp: states_ok_def may_pass_def designated_iff)
  moreover obtain refs where "fdb_ok br refs" using stp_invD(4) [OF assms(1)] by blast
  then have "fdb_ok ?b refs" using fdb_ok_parts [of ?b br refs] by simp
  ultimately show ?thesis by (auto simp: stp_inv_def)
qed

lemma del_if_inv:
  assumes "stp_inv br" "\<And>no. pno = Some no \<Longrightarrow> no \<in> set (port_nos br)"
  shows "\<exists>r b. br_del_if pno br = Some (r, b) \<and> stp_inv b \<and> r = (if pno = None then - EINVAL else 0) \<and>
    set (port_nos b) = set (port_nos br) - (case pno of None \<Rightarrow> {} | Some no \<Rightarrow> {no}) \<and>
    dsts b \<subseteq> dsts br - (case pno of None \<Rightarrow> {} | Some no \<Rightarrow> {no})"
proof -
  have rec: "\<exists>c. br_stp_recalculate_bridge_id b = Some c \<and> stp_inv c \<and> port_nos c = port_nos b \<and> dsts c \<subseteq> dsts b" if "stp_inv b" for b
    using tame_inv [OF recalculate_tame [OF that]] .
  show ?thesis
  proof (cases pno)
    case None
    then show ?thesis using rec [OF assms(1)] by (auto simp: br_del_if_def br_del_if'_def)
  next
    case (Some no)
    have no: "no \<in> set (port_nos br)" "no \<noteq> 0"
      using assms(2) [OF Some] stp_invD(1) [OF assms(1)] unfolding wf_ports_def by metis+
    obtain p where p: "br_get_port br no = Some p" using get_port_ex [OF no(1)] by blast
    obtain b where b: "br_stp_disable_port no br = Some b" "stp_inv b" "port_nos b = port_nos br" "dsts b \<subseteq> dsts br"
      using tame_inv [OF disable_port_tame [OF assms(1)]] by blast
    let ?c = "b\<lparr>port_list := filter (\<lambda>p. port_no p \<noteq> no) (port_list b)\<rparr>"
    have c: "stp_inv ?c" using remove_port_inv [OF b(2) disable_port_root [OF assms(1) b(1) no(2)]] .
    obtain refs where refs: "fdb_ok ?c refs" using stp_invD(4) [OF c] by blast
    obtain d where d: "br_fdb_delete_by_port no ?c = Some d" "fdb_ok d refs" "fdb_map d = spec_drop (\<lambda>v. fst v = no) (fdb_map ?c)"
        "d = ?c\<lparr>hash := hash d, fdb_heap := fdb_heap d\<rparr>"
      using delete_by_port_ok [OF refs, of no] by blast
    have "port_list d = port_list ?c" by (subst d(4)) simp
    then have nos: "set (port_nos d) = set (port_nos br) - {no}" unfolding b(3) [symmetric] by (auto simp: port_nos_def)
    have "dsts ?c \<subseteq> dsts b" by (rule dsts_same) simp_all
    then have "dsts d \<subseteq> dsts br - {no}" using drop_dsts [OF d(3)] b(4) by auto
    then show ?thesis using rec [OF fdb_inv [OF c d(2,4)]] nos Some by (auto simp: br_del_if_def br_del_if'_def p b(1) d(1))
  qed
qed

text \<open>Adding a port.\<close>

lemma new_nbp_ok:
  assumes "stp_inv br" "new_nbp d br = Some (no, b)"
  shows "stp_inv b \<and> port_nos b = no # port_nos br \<and> no \<notin> set (port_nos br) \<and> 0 < no \<and> no < 255 \<and> fdb_heap b = fdb_heap br \<and> hash b = hash br"
proof -
  define p where "p i = \<lparr>port_no = i, dev = d, port_id = 0, state = Disabled, path_cost = br_initial_port_cost d,
            p_designated_root = BridgeId (0, 0) br_mac_zero, designated_cost = 0, designated_bridge = BridgeId (0, 0) br_mac_zero,
            designated_port = 0, topology_change_ack = False, config_pending = False, priority = 0x80,
            forward_delay_timer = off_timer, hold_timer = off_timer, message_age_timer = off_timer\<rparr>" for i
  have f: "find (\<lambda>i. br_get_port br i = None) [1..<255] = Some no"
    using assms(2) by (simp add: new_nbp_def Let_def split: if_splits option.splits)
  then have b: "b = br\<lparr>port_list := (init_port br (p no))\<lparr>state := Disabled\<rparr> # port_list br\<rparr>"
    using assms(2) by (simp add: new_nbp_def Let_def p_def split: if_splits)
  from f have no: "br_get_port br no = None" "0 < no" "no < 255" by (auto simp: find_Some_iff simp del: upt_Suc)
  then have n: "no \<notin> set (port_nos br)" using get_port_ex [of no br] by auto
  have nos: "port_nos b = no # port_nos br" by (simp add: b port_nos_def init_port_def become_designated_def p_def Let_def)
  have "wf_ports b" "root_ok b" using stp_invD(1,2) [OF assms(1)] n no(2) nos by (auto simp: wf_ports_def root_ok_def b)
  moreover have "states_ok b" using stp_invD(3) [OF assms(1)] by (auto simp: states_ok_def may_pass_def designated_iff b)
  moreover obtain refs where "fdb_ok br refs" using stp_invD(4) [OF assms(1)] by blast
  then have "fdb_ok b refs" using fdb_ok_parts [of b br refs] by (simp add: b)
  ultimately have "stp_inv b" by (auto simp: stp_inv_def)
  then show ?thesis using nos n no by (simp add: b)
qed

lemma new_nbp_full: "new_nbp d br = None \<longleftrightarrow> \<not> mem_ok br \<or> {1..<255} \<subseteq> set (port_nos br)"
proof -
  have g: "br_get_port br i = None \<longleftrightarrow> i \<notin> set (port_nos br)" for i
    using get_port_ex [of i br] get_portD [of br i] by (cases "br_get_port br i") (auto simp: port_nos_def)
  have "find (\<lambda>i. br_get_port br i = None) [1..<255] = None \<longleftrightarrow> {1..<255} \<subseteq> set (port_nos br)"
    unfolding find_None_iff g by auto
  then show ?thesis by (auto simp: new_nbp_def Let_def split: option.splits)
qed

lemma update_keeps_heap: "stp_inv br \<Longrightarrow> port_nos b = port_nos br \<Longrightarrow> hash b = hash br \<Longrightarrow> fdb_heap b = fdb_heap br \<Longrightarrow>
    update_and_select b \<bind> root_if_new w = Some c \<Longrightarrow> fdb_heap c = fdb_heap br"
proof -
  assume a: "stp_inv br" "port_nos b = port_nos br" "hash b = hash br" "fdb_heap b = fdb_heap br" "update_and_select b \<bind> root_if_new w = Some c"
  obtain x where x: "update_and_select b = Some x" "root_if_new w x = Some c" using a(5) by (auto simp: bind_eq_Some_conv)
  obtain refs where r: "fdb_ok br refs" using stp_invD(4) [OF a(1)] by blast
  have "wf_ports b" "fdb_ok b refs" using stp_invD(1) [OF a(1)] r fdb_ok_parts [OF a(3,4)] a(2) by (simp_all add: wf_ports_def)
  note u = update_and_select_tame [OF this, of "{}"]
  have "stp_inv x" "fdb_heap x = fdb_heap b" using u x(1) by (auto simp: tame_def)
  moreover have "quiet (root_if_new w x) x" using become_root_quiet stp_invD(2) [OF \<open>stp_inv x\<close>] by (simp add: root_if_new_def quietI)
  then have "view c = view x" using x(2) by (auto simp: quiet_def)
  ultimately show "fdb_heap c = fdb_heap br" using a(4) by (simp add: view_def bv_def)
qed

lemma recalculate_heap:
  assumes "stp_inv br" "br_stp_recalculate_bridge_id br = Some c"
  shows "fdb_heap c = fdb_heap br"
proof (cases "br_stp_recalculate_bridge_id br = Some br")
  case False
  then obtain addr where "br_stp_change_bridge_id addr br = Some c" using assms(2) by (auto simp: br_stp_recalculate_bridge_id_def Let_def split: if_splits)
  then show ?thesis unfolding br_stp_change_bridge_id_def Let_def
    by (rule update_keeps_heap [OF assms(1), rotated 3]) (simp_all add: port_nos_def)
qed (use assms(2) in simp)

lemma insert_inv:
  assumes "stp_inv br" "fdb_heap br new = None"
  shows "\<exists>b. br_fdb_insert no a loc new br = Some b \<and> stp_inv b \<and> port_nos b = port_nos br \<and> dsts b \<subseteq> insert no (dsts br)"
proof -
  obtain refs where refs: "fdb_ok br refs" using stp_invD(4) [OF assms(1)] by blast
  obtain b where b: "br_fdb_insert no a loc new br = Some b" "fdb_ok b refs" "b = br\<lparr>hash := hash b, fdb_heap := fdb_heap b\<rparr>"
      "fdb_map b = spec_insert (mem_ok br) (jiffies br) no a loc (fdb_map br)"
    using insert_ok [OF refs assms(2), of no a loc] by blast
  have "dsts b \<subseteq> insert no (dsts br)"
  proof
    fix x assume "x \<in> dsts b"
    then obtain y v where v: "fdb_map b y = Some v" "x = fst v" unfolding dsts_def ran_def by blast
    then have "fdb_map br y = Some v \<or> fst v = no" unfolding b(4) spec_insert_def by (auto split: option.splits prod.splits bool.splits if_splits)
    then show "x \<in> insert no (dsts br)" using v(2) unfolding dsts_def ran_def by blast
  qed
  moreover have "port_nos b = port_nos br" unfolding port_nos_def by (subst b(3)) simp
  ultimately show ?thesis using b(1) fdb_inv [OF assms(1) b(2,3)] by blast
qed

lemma add_if_inv:
  assumes "stp_inv br" "fdb_heap br new = None"
  shows "\<exists>r b. br_add_if d new br = Some (r, b) \<and> stp_inv b \<and>
    (if r = 0 then \<exists>no. port_nos b = no # port_nos br \<and> no \<notin> set (port_nos br) \<and> dsts b \<subseteq> insert no (dsts br) else b = br)"
proof (cases "dev_in_bridge d \<or> dev_loopback d \<or> \<not> dev_ether d \<or> dev_is_bridge d \<or> \<not> is_valid_ether_addr (dev_addr d)")
  case True
  then show ?thesis using assms(1) by (simp add: br_add_if_def kdefs) blast
next
  case False
  show ?thesis
  proof (cases "new_nbp (d\<lparr>dev_in_bridge := True\<rparr>) br")
    case None
    then show ?thesis using False assms(1) by (simp add: br_add_if_def kdefs)
  next
    case (Some nb)
    obtain no b where nb: "nb = (no, b)" by (cases nb)
    note b = new_nbp_ok [OF assms(1) Some [unfolded nb]]
    obtain c where c: "br_stp_recalculate_bridge_id b = Some c" "stp_inv c" "port_nos c = port_nos b" "dsts c \<subseteq> dsts b"
      using tame_inv [OF recalculate_tame] b by blast
    have h: "fdb_heap c new = None" using recalculate_heap [OF _ c(1)] b assms(2) by simp
    obtain e where e: "br_fdb_insert no (dev_addr d) True new c = Some e" "stp_inv e" "port_nos e = port_nos c" "dsts e \<subseteq> insert no (dsts c)"
      using insert_inv [OF c(2) h] by blast
    have "tame {} e (if br_up e \<and> dev_up d then br_stp_enable_port no e else Some e)"
      using enable_port_tame [OF e(2)] tame_same [OF refl e(2) refl] by simp
    then obtain g where g: "(if br_up e \<and> dev_up d then br_stp_enable_port no e else Some e) = Some g" "stp_inv g" "port_nos g = port_nos e" "dsts g \<subseteq> dsts e"
      using tame_inv by blast
    have "br_add_if d new br = Some (0, g)"
      using False Some nb c(1) e(1) g(1) by (simp add: br_add_if_def)
    moreover have "dsts b \<subseteq> dsts br" using b by (intro dsts_same) simp_all
    ultimately show ?thesis using b g e c by auto
  qed
qed

subsection \<open>The bridge over time\<close>

lemma changeaddr_tame:
  assumes "stp_inv br" "fdb_map br a = None"
  shows "tame D br (br_fdb_changeaddr no a br)"
proof (rule sweep_tame [OF assms(1) refl refl])
  fix refs assume "fdb_ok br refs"
  from changeaddr_ok [OF this assms(2), of no]
  obtain b where b: "br_fdb_changeaddr no a br = Some b" "fdb_ok b refs" "b = br\<lparr>hash := hash b, fdb_heap := fdb_heap b\<rparr>"
    "if \<exists>a t. fdb_map br a = Some (no, t, True)
     then \<exists>x t. fdb_map br x = Some (no, t, True) \<and> fdb_map b = (fdb_map br)(x := None, a \<mapsto> (no, t, True)) else b = br" by blast
  have "dsts b \<subseteq> dsts br"
  proof (cases "b = br")
    case False
    then obtain y t where y: "fdb_map br y = Some (no, t, True)" "fdb_map b = (fdb_map br)(y := None, a \<mapsto> (no, t, True))"
      using b(4) by (auto split: if_splits)
    have "ran (fdb_map b) \<subseteq> ran (fdb_map br)"
    proof
      fix v assume "v \<in> ran (fdb_map b)"
      then obtain z where "fdb_map b z = Some v" unfolding ran_def by blast
      then show "v \<in> ran (fdb_map br)" using y(2) ranI [of "fdb_map br" y, OF y(1)] ranI [of "fdb_map br" z v]
        by (metis fun_upd_apply option.inject option.distinct(1))
    qed
    then show ?thesis unfolding dsts_def by (rule image_mono)
  qed simp
  then show "\<exists>b. br_fdb_changeaddr no a br = Some b \<and> fdb_ok b refs \<and> b = br\<lparr>hash := hash b, fdb_heap := fdb_heap b\<rparr> \<and> dsts b \<subseteq> dsts br"
    using b by blast
qed

text \<open>The invariant of the whole bridge: no entry of the forwarding database points to a port that is gone.\<close>

definition bridge_ok :: "net_bridge \<Rightarrow> bool" where
  "bridge_ok br \<longleftrightarrow> stp_inv br \<and> dsts br \<subseteq> set (port_nos br)"

lemma tame_ok: "bridge_ok br \<Longrightarrow> tame D br r \<Longrightarrow> \<exists>b. r = Some b \<and> bridge_ok b"
  using tame_inv [of D br r] by (auto simp: bridge_ok_def)

lemma del_if_ok:
  assumes "bridge_ok br" "\<And>no. pno = Some no \<Longrightarrow> no \<in> set (port_nos br)"
  shows "\<exists>r b. br_del_if pno br = Some (r, b) \<and> bridge_ok b"
proof -
  have "stp_inv br" "dsts br \<subseteq> set (port_nos br)" using assms(1) by (simp_all add: bridge_ok_def)
  then show ?thesis using del_if_inv [of br pno] assms(2) by (fastforce simp: bridge_ok_def)
qed

lemma device_event_ok:
  assumes "bridge_ok br" "br_get_port br no = Some p" "event = NETDEV_CHANGEADDR \<Longrightarrow> fdb_map br (dev_addr (dev p)) = None"
  shows "\<exists>b. br_device_event event no br = Some b \<and> bridge_ok b"
proof (cases event)
  case NETDEV_CHANGEADDR
  have inv: "stp_inv br" using assms(1) by (simp add: bridge_ok_def)
  have "tame {} br (br_fdb_changeaddr no (dev_addr (dev p)) br \<bind> br_stp_recalculate_bridge_id)"
    by (rule tame_bind [OF changeaddr_tame recalculate_tame]) (use inv assms(3) NETDEV_CHANGEADDR in auto)
  then show ?thesis using tame_ok [OF assms(1)] by (simp add: br_device_event_def NETDEV_CHANGEADDR assms(2))
next
  case NETDEV_UNREGISTER
  have "no \<in> set (port_nos br)" using get_portD [OF assms(2)] by (auto simp: port_nos_def)
  then show ?thesis using del_if_ok [OF assms(1), of "Some no"] NETDEV_UNREGISTER by (auto simp: br_device_event_def)
next
  case NETDEV_DOWN
  then show ?thesis using tame_ok [OF assms(1) disable_port_tame, of no] assms(1) by (auto simp: br_device_event_def bridge_ok_def)
next
  case NETDEV_UP
  then show ?thesis using tame_ok [OF assms(1) enable_port_tame, of no] assms(1) by (auto simp: br_device_event_def bridge_ok_def)
qed (use assms(1) in \<open>simp add: br_device_event_def\<close>)

text \<open>What a command may refer to: a free address for a new entry, a port of the bridge.\<close>

fun command_ok :: "net_bridge \<Rightarrow> brctl \<Rightarrow> bool" where
  "command_ok br (BRCTL_ADD_IF d new) \<longleftrightarrow> fdb_heap br new = None"
| "command_ok br (BRCTL_DEL_IF (Some (Some no))) \<longleftrightarrow> no \<in> set (port_nos br)"
| "command_ok br _ \<longleftrightarrow> True"

lemma fields_ok:
  assumes "bridge_ok br" "port_list b = port_list br" "hash b = hash br" "fdb_heap b = fdb_heap br" "bridge_id b = bridge_id br"
    "designated_root b = designated_root br" "root_port b = root_port br"
  shows "bridge_ok b"
proof -
  have e: "port_nos b = port_nos br" "br_is_designated_port b = br_is_designated_port br"
    using assms(2,5) by (simp_all add: port_nos_def br_is_designated_port_def fun_eq_iff)
  have i: "stp_inv br" "dsts br \<subseteq> set (port_nos br)" using assms(1) by (simp_all add: bridge_ok_def)
  obtain refs where "fdb_ok br refs" using stp_invD(4) [OF i(1)] by blast
  then have "fdb_ok b refs" using fdb_ok_parts [OF assms(3,4)] by simp
  moreover have "wf_ports b = wf_ports br" unfolding wf_ports_def e(1) ..
  moreover have "root_ok b = root_ok br" unfolding root_ok_def e(1) assms(5-7) ..
  moreover have "states_ok b = states_ok br" unfolding states_ok_def may_pass_def e(2) assms(2,7) ..
  ultimately have "stp_inv b" using stp_invD(1-3) [OF i(1)] unfolding stp_inv_def by blast
  then show ?thesis using i(2) dsts_same [OF assms(3,4)] unfolding bridge_ok_def e(1) by blast
qed

lemma ioctl_ok:
  assumes "bridge_ok br" "command_ok br cmd"
  shows "\<exists>r b. br_ioctl_device cmd br = Some (r, b) \<and> bridge_ok b"
proof -
  have inv: "stp_inv br" using assms(1) by (simp add: bridge_ok_def)
  show ?thesis
  proof (cases cmd)
    case (BRCTL_ADD_IF d new)
    show ?thesis
    proof (cases d)
      case (Some e)
      obtain r b where b: "br_add_if e new br = Some (r, b)" "stp_inv b"
          "if r = 0 then \<exists>no. port_nos b = no # port_nos br \<and> no \<notin> set (port_nos br) \<and> dsts b \<subseteq> insert no (dsts br) else b = br"
        using add_if_inv [OF inv, of new e] assms(2) BRCTL_ADD_IF by auto
      have "bridge_ok b"
      proof (cases "r = 0")
        case True
        then obtain no where no: "port_nos b = no # port_nos br" "dsts b \<subseteq> insert no (dsts br)" using b(3) by auto
        have "insert no (dsts br) \<subseteq> set (port_nos b)" using assms(1) no(1) by (auto simp: bridge_ok_def)
        then show ?thesis using b(2) no(2) unfolding bridge_ok_def by blast
      qed (use b(3) assms(1) in simp)
      then show ?thesis using b(1) Some BRCTL_ADD_IF by simp
    qed (use BRCTL_ADD_IF assms(1) in simp)
  next
    case (BRCTL_DEL_IF d)
    show ?thesis
    proof (cases d)
      case (Some pno)
      then have "no \<in> set (port_nos br)" if "pno = Some no" for no using that assms(2) BRCTL_DEL_IF by simp
      from del_if_ok [OF assms(1) this, of pno] show ?thesis using Some BRCTL_DEL_IF by auto
    qed (use BRCTL_DEL_IF assms(1) in simp)
  next
    case (BRCTL_SET_BRIDGE_PRIORITY a)
    then show ?thesis using tame_ok [OF assms(1) bridge_priority_tame [OF inv], of "sint a"] by auto
  next
    case (BRCTL_SET_PORT_PRIORITY a0 a1)
    show ?thesis
    proof (cases "br_get_port br (unat a0)")
      case (Some p)
      then have "unat a0 \<in> set (port_nos br)" using get_portD by (force simp: port_nos_def)
      then show ?thesis using tame_ok [OF assms(1) port_priority_tame [OF inv], of "unat a0" "sint a1"] BRCTL_SET_PORT_PRIORITY Some by auto
    qed (use BRCTL_SET_PORT_PRIORITY assms(1) in simp)
  next
    case (BRCTL_SET_PATH_COST a0 a1)
    then show ?thesis using tame_ok [OF assms(1) path_cost_tame [OF inv], of "unat a0" "sint a1"] assms(1) by (auto split: option.split)
  qed (use assms(1) in \<open>auto simp: Let_def intro!: fields_ok [OF assms(1)]\<close>)
qed

text \<open>
  Everything that can happen to a bridge, in any order: time passes and other things change around it, the timer
  goes off, a frame for the protocol arrives with arbitrary contents, addresses are learned, the administrator
  opens, closes and changes the bridge, and a device of the bridge changes.
\<close>

definition br_start :: "net_bridge \<Rightarrow> bool" where
  "br_start br \<longleftrightarrow> br = new_nb (jiffies br)"

inductive br_step :: "net_bridge \<Rightarrow> net_bridge \<Rightarrow> bool" where
  passes: "br_step br (br\<lparr>jiffies := jiffies br + t, mem_ok := m, br_up := u\<rparr>)"
| ticks: "tick br \<Longrightarrow> br_tick br = Some b \<Longrightarrow> br_step br b"
| bpdu: "no \<in> set (port_nos br) \<Longrightarrow> br_stp_handle_bpdu no data br = Some b \<Longrightarrow> br_step br b"
| learns: "no \<in> set (port_nos br) \<Longrightarrow> fdb_heap br new = None \<Longrightarrow> br_fdb_insert no a False new br = Some b \<Longrightarrow> br_step br b"
| opens: "br_dev_open br = Some b \<Longrightarrow> br_step br b"
| stops: "br_dev_stop br = Some b \<Longrightarrow> br_step br b"
| command: "command_ok br cmd \<Longrightarrow> br_ioctl_device cmd br = Some (r, b) \<Longrightarrow> br_step br b"
| device: "no \<in> set (port_nos br) \<Longrightarrow> event = NETDEV_CHANGEADDR \<longrightarrow> fdb_map br (dev_addr d) = None \<Longrightarrow>
    br_device_event event no (upd_port no (\<lambda>p. p\<lparr>dev := d\<rparr>) br) = Some b \<Longrightarrow> br_step br b"

lemma br_start_ok: "br_start br \<Longrightarrow> bridge_ok br"
proof -
  assume "br_start br"
  then obtain t where b: "br = new_nb t" unfolding br_start_def by blast
  have "fdb_ok (tab \<lparr>tab = new_nb t, held = {#}\<rparr>) (held \<lparr>tab = new_nb t, held = {#}\<rparr>)"
    by (rule fdb_start_inv) (simp add: fdb_start_def new_nb_def)
  then have "\<exists>refs. fdb_ok (new_nb t) refs" by auto
  moreover have "fdb_map (new_nb t) a = None" for a by (simp add: fdb_map_def entry_at_def new_nb_def hash_bound)
  then have "dsts (new_nb t) = {}" by (simp add: dsts_def ran_def)
  ultimately show ?thesis unfolding b bridge_ok_def stp_inv_def by (simp add: wf_ports_def root_ok_def states_ok_def port_nos_def new_nb_def)
qed

lemma br_step_ok: "br_step br b \<Longrightarrow> bridge_ok br \<Longrightarrow> bridge_ok b"
proof (induction rule: br_step.induct)
  case (passes br t m u)
  then show ?case by (rule fields_ok) simp_all
next
  case (ticks br b)
  then have inv: "stp_inv br" by (simp add: bridge_ok_def)
  then have "\<not> tcn_hazard br" using tick_fails ticks.hyps by force
  then show ?case using tame_ok [OF ticks.prems tick_tame [OF inv, of "{1}"]] ticks.hyps by simp
next
  case (bpdu no br data b)
  then show ?case using tame_ok [OF bpdu.prems handle_bpdu_tame [of br no data]] by (simp add: bridge_ok_def)
next
  case (learns no br new a b)
  then have i: "stp_inv br" "dsts br \<subseteq> set (port_nos br)" by (simp_all add: bridge_ok_def)
  show ?case using insert_inv [OF i(1) learns.hyps(2), of no a False] i(2) learns.hyps by (auto simp: bridge_ok_def)
next
  case (opens br b)
  then show ?case using tame_ok [OF opens.prems enable_bridge_tame] by (simp add: br_dev_open_def bridge_ok_def)
next
  case (stops br b)
  then show ?case using tame_ok [OF stops.prems disable_bridge_tame] by (simp add: br_dev_stop_def bridge_ok_def)
next
  case (command br cmd r b)
  then show ?case using ioctl_ok [OF command.prems command.hyps(1)] by simp
next
  case (device no br event d b)
  let ?x = "upd_port no (\<lambda>p. p\<lparr>dev := d\<rparr>) br"
  obtain p where p: "br_get_port br no = Some p" using get_port_ex [OF device.hyps(1)] by blast
  have i: "stp_inv br" "dsts br \<subseteq> set (port_nos br)" using device.prems by (simp_all add: bridge_ok_def)
  have "stp_inv ?x" by (rule stp_inv_upd [OF i(1)]) (simp add: designated_iff)
  moreover have "dsts ?x \<subseteq> dsts br" by (rule dsts_same) simp_all
  moreover have "port_nos ?x = port_nos br" by (rule upd_port_nos) simp
  ultimately have x: "bridge_ok ?x" using i(2) by (simp add: bridge_ok_def)
  have g: "br_get_port ?x no = Some (p\<lparr>dev := d\<rparr>)" by (rule get_upd [OF p]) simp
  have "fdb_map ?x = fdb_map br" by (rule ext) (simp add: fdb_map_def entry_at_def)
  then show ?case using device_event_ok [OF x g, of event] device.hyps by auto
qed

interpretation brm: state_machine br_start br_step bridge_ok
  by unfold_locales (rule br_start_ok, assumption, rule br_step_ok)

lemma reached_stp_inv: "br_start s \<Longrightarrow> br_step\<^sup>*\<^sup>* s br \<Longrightarrow> stp_inv br"
  using brm.reached_inv by (simp add: bridge_ok_def)

end
