(* ===== verification/BrProps.thy ===== *)
theory BrProps
  imports BrInv
begin

text \<open>
  What the spanning tree protocol achieves: safety of all handlers, the choice of the root port, the
  forward delay, the spreading of better roots, the encoding of messages and the ageing of information, with a bridge on
  which the properties are evaluated.
\<close>

subsection \<open>Safety and the choice of the tree\<close>

text \<open>
  C20.  A bridge stays well-formed whatever happens: its ports have distinct positive numbers, it has a root port exactly if it is not the
  root and then that is one of its ports; the forwarding database has 256 chains without duplicates, every
  entry is in the chain of its address, is allocated with a positive reference count, and points to a port of the bridge.
\<close>

theorem bridge_well_formed:
  assumes "br_start s" "br_step\<^sup>*\<^sup>* s br"
  shows "distinct (map port_no (port_list br)) \<and> 0 \<notin> port_no ` set (port_list br) \<and>
    (root_port br = 0 \<longleftrightarrow> bridge_id br = designated_root br) \<and> (root_port br \<noteq> 0 \<longrightarrow> br_get_port br (root_port br) \<noteq> None) \<and>
    length (hash br) = 256 \<and> distinct (concat (hash br)) \<and>
    (i < 256 \<and> f \<in> set (hash br ! i) \<longrightarrow>
      (\<exists>e. fdb_heap br f = Some e \<and> br_mac_hash (fdb_addr e) = i \<and> 0 < use_count e \<and> br_get_port br (fdb_dst e) \<noteq> None))"
proof -
  have inv: "stp_inv br" "dsts br \<subseteq> set (port_nos br)" using brm.reached_inv [OF assms] by (simp_all add: bridge_ok_def)
  obtain refs where refs: "fdb_ok br refs" using stp_invD(4) [OF inv(1)] by blast
  have "\<exists>e. fdb_heap br f = Some e \<and> br_mac_hash (fdb_addr e) = i \<and> 0 < use_count e \<and> br_get_port br (fdb_dst e) \<noteq> None"
    if f: "i < 256" "f \<in> set (hash br ! i)"
  proof -
    obtain e where e: "f \<in> linked br" "fdb_heap br f = Some e" "br_mac_hash (fdb_addr e) = i" using bucket_iff [OF refs f(1)] f(2) by blast
    have "fdb_map br (fdb_addr e) = Some (info e)" using fdb_map_iff [OF refs] e by blast
    then have "info e \<in> ran (fdb_map br)" unfolding ran_def by blast
    then have "fdb_dst e \<in> dsts br" unfolding dsts_def by (rule rev_image_eqI) (simp add: info_def)
    then show ?thesis using e fdb_okD(8) [OF refs e(2)] inv(2) get_port_ex by fastforce
  qed
  moreover have "root_port br \<noteq> 0 \<longrightarrow> br_get_port br (root_port br) \<noteq> None"
    using stp_invD(2) [OF inv(1)] get_port_ex by (fastforce simp: root_ok_def)
  ultimately show ?thesis using stp_invD(1,2) [OF inv(1)] fdb_okD(1,2) [OF refs] by (auto simp: wf_ports_def root_ok_def port_nos_def)
qed



text \<open>
  C12.  The root port is the best one: choosing the root port finds the enabled port that leads to a better
  root than the bridge itself with the least root identifier, cost of the path through the port,
  identifier of the next bridge and of its port, and own port, in this order of importance; if no port leads to a better
  root, the bridge is the root.  Afterwards an enabled port is out of the blocking state if and only if it is the root port or a designated port.
\<close>

theorem spanning_tree_chosen:
  assumes "br_start s" "br_step\<^sup>*\<^sup>* s br"
  shows "\<exists>b. br_configuration_update br \<bind> br_port_state_selection = Some b \<and>
    (root_port b = 0 \<longleftrightarrow> (\<forall>q \<in> set (port_list br). state q = Disabled \<or> br_is_designated_port br q \<or> bridge_id br \<le> p_designated_root q)) \<and>
    (root_port b = 0 \<longrightarrow> designated_root b = bridge_id br \<and> root_path_cost b = 0) \<and>
    (root_port b \<noteq> 0 \<longrightarrow> (\<exists>r \<in> set (port_list br). port_no r = root_port b \<and> designated_root b = p_designated_root r \<and>
      root_path_cost b = s32 (designated_cost r + path_cost r) \<and>
      (\<forall>q \<in> set (port_list br). state q \<noteq> Disabled \<and> \<not> br_is_designated_port br q \<and> p_designated_root q < bridge_id br \<longrightarrow>
        (p_designated_root r, s32 (designated_cost r + path_cost r), designated_bridge r, designated_port r, port_id r) \<le>
        (p_designated_root q, s32 (designated_cost q + path_cost q), designated_bridge q, designated_port q, port_id q)))) \<and>
    (\<forall>q \<in> set (port_list b). state q = Disabled \<or> (state q \<noteq> Blocking \<longleftrightarrow> port_no q = root_port b \<or> br_is_designated_port b q)) \<and>
    (\<forall>q \<in> set (port_list b). port_no q = root_port b \<longrightarrow> state q \<noteq> Disabled)"
proof -
  have inv: "stp_inv br" by (rule reached_stp_inv [OF assms])
  obtain refs where r: "fdb_ok br refs" using stp_invD(4) [OF inv] by blast
  note u = update_and_select_tame [OF stp_invD(1) [OF inv] r, of "{}"]
  obtain b where b: "update_and_select br = Some b" using u by (auto simp: tame_def)
  have best: "best_root br b" using u b by blast
  have c: "\<not> candidate br q \<longleftrightarrow> state q = Disabled \<or> br_is_designated_port br q \<or> bridge_id br \<le> p_designated_root q" for q
    by (auto simp: candidate_def)
  have "root_port b = 0 \<longleftrightarrow> (\<forall>q \<in> set (port_list br). \<not> candidate br q)" using best unfolding best_root_def by metis
  moreover have "root_port b = 0 \<longrightarrow> designated_root b = bridge_id br \<and> root_path_cost b = 0" using best by (simp add: best_root_def)
  moreover have "root_port b \<noteq> 0 \<longrightarrow> (\<exists>r \<in> set (port_list br). port_no r = root_port b \<and> designated_root b = p_designated_root r \<and>
      root_path_cost b = s32 (designated_cost r + path_cost r) \<and> (\<forall>q \<in> set (port_list br). candidate br q \<longrightarrow> rank r \<le> rank q))"
    using best unfolding best_root_def by (auto split: if_splits)
  moreover have "\<forall>q \<in> set (port_list b). state q = Disabled \<or> (state q \<noteq> Blocking \<longleftrightarrow> port_no q = root_port b \<or> br_is_designated_port b q)"
      "\<forall>q \<in> set (port_list b). port_no q = root_port b \<longrightarrow> state q \<noteq> Disabled"
    using u b unfolding may_pass_def by blast+
  moreover have "br_configuration_update br \<bind> br_port_state_selection = Some b" using b by (simp add: update_and_select_def)
  ultimately show ?thesis unfolding c unfolding candidate_def rank_def by (intro exI [of _ b] conjI) assumption+
qed

subsection \<open>Better roots are taken over\<close>

lemma received_root:
  assumes "stp_inv br" "br_get_port br no = Some p" "state p \<noteq> Disabled" "br_supersedes_port_info br p bpdu"
    and "br_received_config_bpdu no bpdu br = Some c"
  shows "\<exists>b. update_and_select (br_record_config_information no bpdu br) = Some b \<and> designated_root c = designated_root b \<and> root_port c = root_port b"
proof -
  have "tame {} br (update_and_select (br_record_config_information no bpdu br))"
    unfolding br_record_config_information_def
    by (rule update_after [OF assms(1)]) (auto intro!: follows_upd moved_same upd_port_nos)
  then obtain b where b: "update_and_select (br_record_config_information no bpdu br) = Some b" "stp_inv b" using tame_inv by blast
  let ?q = "if \<not> br_is_root_bridge b \<and> br_is_root_bridge br then do {
             let br = b\<lparr>hello_timer := br_timer_clear (hello_timer b)\<rparr>;
             if topology_change_detected br then do {
               br \<leftarrow> br_transmit_tcn (br\<lparr>topology_change_timer := br_timer_clear (topology_change_timer br)\<rparr>);
               Some (br\<lparr>tcn_timer := br_timer_set (jiffies br) (tcn_timer br)\<rparr>) }
             else Some br }
           else Some b"
  obtain d where d: "?q = Some d" "view d = view b"
    using leave_root_quiet [OF stp_invD(2) [OF b(2)], of "br_is_root_bridge br"] unfolding quiet_def by blast
  have c: "(if no = root_port d then do {
        br \<leftarrow> br_config_bpdu_generation (br_record_config_timeout_values bpdu d);
        Some (if bp_topology_change_ack bpdu then br_topology_change_acknowledged br else br) }
      else Some d) = Some c"
    using assms(3-5) unfolding br_received_config_bpdu_def assms(2) bind.bind_lunit Let_def by (simp add: b(1) d(1) [unfolded Let_def])
  let ?e = "br_record_config_timeout_values bpdu d"
  have ve: "view ?e = view d" by (simp add: view_def bv_def br_record_config_timeout_values_def)
  have "root_ok ?e" using stp_invD(2) [OF b(2)] view_inv(2) [OF ve] view_inv(2) [OF d(2)] by simp
  then obtain g where g: "br_config_bpdu_generation ?e = Some g" "view g = view ?e" using generation_quiet [of ?e] unfolding quiet_def by blast
  have vg: "view (br_topology_change_acknowledged g) = view g" by (simp add: view_def bv_def br_topology_change_acknowledged_def)
  have "view c = view b" using c g ve d(2) vg by (auto split: if_splits)
  then show ?thesis using b(1) by (auto simp: view_def bv_def)
qed

text \<open>
  C35.  Information about a better root spreads: when a bridge receives, on a port that is not disabled, a configuration message
  of another bridge that announces a better root than the port knows and than the bridge itself is, then
  it accepts the announced root or knows an even better one afterwards, and has a root port.
\<close>

theorem better_root_accepted:
  assumes "br_start s" "br_step\<^sup>*\<^sup>* s br" "br_get_port br no = Some p" "state p \<noteq> Disabled" "bp_bridge_id bpdu \<noteq> bridge_id br"
    and "bp_root bpdu < p_designated_root p" "bp_root bpdu < bridge_id br"
  shows "\<exists>b. br_received_config_bpdu no bpdu br = Some b \<and> designated_root b \<le> bp_root bpdu \<and> root_port b \<noteq> 0"
proof -
  have inv: "stp_inv br" by (rule reached_stp_inv [OF assms(1,2)])
  have no: "no \<in> set (port_nos br)" using get_portD [OF assms(3)] by (auto simp: port_nos_def)
  obtain c where c: "br_received_config_bpdu no bpdu br = Some c" using tame_inv [OF received_config_tame [OF inv no]] by blast
  have sup: "br_supersedes_port_info br p bpdu" using assms(6) by (simp add: br_supersedes_port_info_def Let_def memcmp_id_less)
  obtain b where b: "update_and_select (br_record_config_information no bpdu br) = Some b" "designated_root c = designated_root b" "root_port c = root_port b"
    using received_root [OF inv assms(3,4) sup c] by blast
  let ?x = "br_record_config_information no bpdu br"
  define f :: "net_bridge_port \<Rightarrow> net_bridge_port" where "f = (\<lambda>p. p\<lparr>p_designated_root := bp_root bpdu, designated_cost := bp_root_path_cost bpdu,
       designated_bridge := bp_bridge_id bpdu, designated_port := bp_port_id bpdu,
       message_age_timer := br_timer_set (jiffies br + word_of_int (max_age br - bp_message_age bpdu)) (message_age_timer p)\<rparr>)"
  have x: "?x = upd_port no f br" by (simp add: br_record_config_information_def f_def)
  obtain refs where "fdb_ok br refs" using stp_invD(4) [OF inv] by blast
  then have r: "fdb_ok ?x refs" using fdb_ok_parts [of ?x br refs] by (simp add: x)
  have "port_nos ?x = port_nos br" unfolding x by (rule upd_port_nos) (simp add: f_def)
  then have w: "wf_ports ?x" using stp_invD(1) [OF inv] by (simp add: wf_ports_def)
  have best: "best_root ?x b" using update_and_select_tame [OF w r] b(1) by blast
  have fp: "f p \<in> set (port_list ?x)" using get_portD [OF assms(3)] by (auto simp: x)
  have cand: "candidate ?x (f p)" using assms(4,5,7) by (simp add: candidate_def x f_def designated_iff)
  have nz: "root_port b \<noteq> 0" using best fp cand unfolding best_root_def by metis
  then obtain q where q: "designated_root b = p_designated_root q" "rank q \<le> rank (f p)" using best fp cand unfolding best_root_def by auto
  then have "designated_root b \<le> bp_root bpdu" by (auto simp: rank_def f_def less_eq_prod_def)
  then show ?thesis using c b nz by auto
qed

subsection \<open>Messages on the wire\<close>

lemma bytes_u16: "push_bit 8 (ucast (ucast (drop_bit 8 w) :: u8)) OR ucast (ucast w :: u8) = (w :: u16)"
  by (rule bit_word_eqI) (auto simp: bit_simps)

lemma bytes_u32: "push_bit 24 (ucast (ucast (drop_bit 24 w) :: u8)) OR push_bit 16 (ucast (ucast (drop_bit 16 w) :: u8)) OR
    push_bit 8 (ucast (ucast (drop_bit 8 w) :: u8)) OR ucast (ucast w :: u8) = (w :: u32)"
proof (rule bit_word_eqI)
  fix n assume n: "n < LENGTH(32)"
  consider "n < 8" | "8 \<le> n" "n < 16" | "16 \<le> n" "n < 24" | "24 \<le> n" by linarith
  then show "bit (push_bit 24 (ucast (ucast (drop_bit 24 w) :: u8)) OR push_bit 16 (ucast (ucast (drop_bit 16 w) :: u8)) OR
    push_bit 8 (ucast (ucast (drop_bit 8 w) :: u8)) OR ucast (ucast w :: u8) :: u32) n = bit w n"
    using n by cases (auto simp: bit_simps)
qed

lemma bytes_u16_int: "uint (ucast (drop_bit 8 w) :: u8) * 256 + uint (ucast w :: u8) = uint (w :: u16)"
proof -
  have "uint w < 65536" using uint_lt2p [of w] by simp
  then have "uint w div 256 mod 256 = uint w div 256" by (intro mod_pos_pos_trivial) (simp_all add: pos_imp_zdiv_nonneg_iff)
  then have "uint (ucast (drop_bit 8 w) :: u8) = uint w div 256"
    by (simp add: unsigned_ucast_eq drop_bit_eq_div uint_div take_bit_eq_mod unsigned_drop_bit_eq)
  moreover have "uint (ucast w :: u8) = uint w mod 256" by (simp add: unsigned_ucast_eq take_bit_eq_mod)
  ultimately show ?thesis by (simp add: div_mult_mod_eq)
qed

text \<open>A time as it arrives: it loses at most four jiffies.\<close>

definition tick_time :: "int \<Rightarrow> int" where
  "tick_time j = j * 256 div HZ * HZ div 256"

lemma ticks_roundtrip:
  assumes "0 \<le> j" "j < 256000"
  shows "br_set_ticks j = [a, b] \<Longrightarrow> br_get_ticks a b = tick_time j" "j - 4 \<le> tick_time j" "tick_time j \<le> j"
proof -
  have s: "s32 (j * 256) = j * 256" unfolding s32_def sint_sbintrunc' using assms by (intro signed_take_bit_int_eq_self) auto
  then have t: "JIFFIES_TO_TICKS j = j * 256 div 1000" using assms by (simp add: JIFFIES_TO_TICKS_def tdiv_def HZ_def)
  have "0 \<le> j * 256 div 1000" "j * 256 div 1000 < 65536" using assms by auto
  then have u: "uint (word_of_int (j * 256 div 1000) :: u16) = j * 256 div 1000" by (simp add: uint_word_of_int)
  show "br_set_ticks j = [a, b] \<Longrightarrow> br_get_ticks a b = tick_time j"
    using bytes_u16_int [of "word_of_int (j * 256 div 1000)"] u
    by (auto simp: br_set_ticks_def br_get_ticks_def t Let_def TICKS_TO_JIFFIES_def tick_time_def HZ_def)
  define q where "q = j * 256 div 1000"
  have q: "q * 1000 \<le> j * 256" "j * 256 < q * 1000 + 1000"
    using div_mult_mod_eq [of "j * 256" 1000] pos_mod_bound [of 1000 "j * 256"] pos_mod_sign [of 1000 "j * 256"] unfolding q_def by linarith+
  have "q * 1000 div 256 * 256 \<le> q * 1000" "q * 1000 < q * 1000 div 256 * 256 + 256"
    using div_mult_mod_eq [of "q * 1000" 256] pos_mod_bound [of 256 "q * 1000"] pos_mod_sign [of 256 "q * 1000"] by linarith+
  then show "j - 4 \<le> tick_time j" "tick_time j \<le> j" using q unfolding tick_time_def HZ_def q_def [symmetric] by linarith+
qed


text \<open>
  Received information lives too long: information that arrives with the age \<open>a\<close> is dropped after
  twice the maximum age less \<open>a\<close>, not after the maximum age less \<open>a\<close>, because the period is
  counted both when the timer is set and when it is checked.
\<close>

theorem message_age_twice:
  assumes "0 \<le> bp_message_age m" "bp_message_age m \<le> max_age br" "max_age br < 2 ^ 29" "0 \<le> d" "d < 2 ^ 30"
    and "br_get_port br no = Some p"
  shows "\<exists>q. br_get_port (br_record_config_information no m br) no = Some q \<and>
    (br_timer_has_expired (jiffies br + word_of_int d) (message_age_timer q) (word_of_int (max_age br)) \<longleftrightarrow> 2 * max_age br - bp_message_age m \<le> d)"
proof -
  have g: "br_get_port (br_record_config_information no m br) no = Some (p\<lparr>p_designated_root := bp_root m, designated_cost := bp_root_path_cost m,
       designated_bridge := bp_bridge_id m, designated_port := bp_port_id m,
       message_age_timer := br_timer_set (jiffies br + word_of_int (max_age br - bp_message_age m)) (message_age_timer p)\<rparr>)"
    unfolding br_record_config_information_def by (rule get_upd [OF assms(6)]) simp
  let ?e = "d - (2 * max_age br - bp_message_age m)"
  have "jiffies br + word_of_int d - (jiffies br + word_of_int (max_age br - bp_message_age m) + word_of_int (max_age br)) = (word_of_int ?e :: u32)"
    by (simp add: algebra_simps)
  then have "time_after_eq (jiffies br + word_of_int d) (jiffies br + word_of_int (max_age br - bp_message_age m) + word_of_int (max_age br)) \<longleftrightarrow>
      0 \<le> sint (word_of_int ?e :: u32)"
    unfolding time_after_eq_def by (simp only:)
  moreover have "sint (word_of_int ?e :: u32) = ?e" unfolding sint_sbintrunc' using assms(1-5) by (intro signed_take_bit_int_eq_self) auto
  ultimately have "time_after_eq (jiffies br + word_of_int d) (jiffies br + word_of_int (max_age br - bp_message_age m) + word_of_int (max_age br)) \<longleftrightarrow>
      2 * max_age br - bp_message_age m \<le> d" by linarith
  then show ?thesis unfolding g by (simp add: br_timer_has_expired_def br_timer_set_def)
qed

subsection \<open>The properties at work\<close>

lemma step_bpdu: "bridge_ok br \<Longrightarrow> no \<in> set (port_nos br) \<Longrightarrow> br_stp_handle_bpdu no data br = Some (the (br_stp_handle_bpdu no data br))"
  using tame_ok [OF _ handle_bpdu_tame, of br no data] by (auto simp: bridge_ok_def)

lemma step_command: "bridge_ok br \<Longrightarrow> command_ok br cmd \<Longrightarrow>
    br_ioctl_device cmd br = Some (fst (the (br_ioctl_device cmd br)), snd (the (br_ioctl_device cmd br)))"
  using ioctl_ok [of br cmd] by auto

lemma step_open: "bridge_ok br \<Longrightarrow> br_dev_open br = Some (the (br_dev_open br))"
  using tame_ok [OF _ enable_bridge_tame, of br] by (auto simp: br_dev_open_def bridge_ok_def)

lemma step_tick: "bridge_ok br \<Longrightarrow> \<not> tcn_hazard br \<Longrightarrow> br_tick br = Some (the (br_tick br))"
  using tame_ok [OF _ tick_tame, of br "{1}"] by (auto simp: bridge_ok_def)

lemma reach_step: "br_step\<^sup>*\<^sup>* s br \<Longrightarrow> (bridge_ok br \<Longrightarrow> br_step br b) \<Longrightarrow> br_start s \<Longrightarrow> br_step\<^sup>*\<^sup>* s b"
  using brm.reached_inv [of s br] by (meson rtranclp.rtrancl_into_rtrancl)

text \<open>A bridge with two ports and the protocol on.\<close>

definition eth0 :: net_device where
  "eth0 = \<lparr>dev_name = ''eth0'', dev_addr = (0, 1, 2, 3, 4, 5), dev_up = True, dev_loopback = False, dev_ether = True,
     dev_in_bridge = False, dev_is_bridge = False\<rparr>"

definition bridge1 :: net_bridge where
  "bridge1 = snd (the (br_ioctl_device (BRCTL_ADD_IF (Some eth0) 0) (new_nb 0)))"

definition bridge2 :: net_bridge where
  "bridge2 = snd (the (br_ioctl_device (BRCTL_ADD_IF (Some (eth0\<lparr>dev_name := ''eth1'', dev_addr := (0, 1, 2, 3, 4, 6)\<rparr>)) 1) bridge1))"

definition bridge3 :: net_bridge where
  "bridge3 = snd (the (br_ioctl_device (BRCTL_SET_GC_INTERVAL 100000) (snd (the (br_ioctl_device (BRCTL_SET_BRIDGE_STP_STATE 1) bridge2)))))"

definition bridge4 :: net_bridge where
  "bridge4 = the (br_dev_open bridge3)"

lemma new_nb_start: "br_start (new_nb 0)"
  by (simp add: br_start_def new_nb_def)

lemma bridge4_reached: "br_step\<^sup>*\<^sup>* (new_nb 0) bridge4"
proof -
  have "br_step\<^sup>*\<^sup>* (new_nb 0) bridge1" unfolding bridge1_def
    by (rule reach_step [OF rtranclp.rtrancl_refl _ new_nb_start], rule br_step.command [OF _ step_command]) (simp_all add: new_nb_def)
  moreover have "fdb_heap bridge1 1 = None" by code_simp
  ultimately have "br_step\<^sup>*\<^sup>* (new_nb 0) bridge2" unfolding bridge2_def
    by (elim reach_step [OF _ _ new_nb_start]) (rule br_step.command [OF _ step_command], simp_all)
  then have "br_step\<^sup>*\<^sup>* (new_nb 0) (snd (the (br_ioctl_device (BRCTL_SET_BRIDGE_STP_STATE 1) bridge2)))"
    by (elim reach_step [OF _ _ new_nb_start]) (rule br_step.command [OF _ step_command], simp_all)
  then have "br_step\<^sup>*\<^sup>* (new_nb 0) bridge3" unfolding bridge3_def
    by (elim reach_step [OF _ _ new_nb_start]) (rule br_step.command [OF _ step_command], simp_all)
  then show ?thesis unfolding bridge4_def
    by (elim reach_step [OF _ _ new_nb_start]) (rule br_step.opens, rule step_open)
qed

text \<open>It hears of a better root on its port 1, then of a topology change on its port 2.\<close>

definition hello :: "bridge_id \<Rightarrow> bridge_id \<Rightarrow> u16 \<Rightarrow> br_config_bpdu" where
  "hello r i n = \<lparr>bp_topology_change = False, bp_topology_change_ack = False, bp_root = r, bp_root_path_cost = 0, bp_bridge_id = i,
     bp_port_id = n, bp_message_age = 0, bp_max_age = 20000, bp_hello_time = 2000, bp_forward_delay = 15000\<rparr>"

definition other_bridge :: bridge_id where
  "other_bridge = BridgeId (1, 0) (0, 0, 0, 0, 0, 1)"

definition bridge5 :: net_bridge where
  "bridge5 = the (br_stp_handle_bpdu 1 (config_buf (hello other_bridge other_bridge 7)) bridge4)"

definition bridge6 :: net_bridge where
  "bridge6 = the (br_stp_handle_bpdu 2 [0x42, 0x42, 0x03, 0, 0, 0, BPDU_TYPE_TCN] bridge5)"

text \<open>A frame with the bridge's own identifier and port, and a root that is better still.\<close>

definition forged :: "u8 list" where
  "forged = config_buf (hello (BridgeId (0, 0) (0, 0, 0, 0, 0, 1)) (bridge_id bridge6) (port_id (the (br_get_port bridge6 1))))"

definition bridge7 :: net_bridge where
  "bridge7 = the (br_stp_handle_bpdu 1 forged bridge6)"

lemma bridge7_reached: "br_step\<^sup>*\<^sup>* (new_nb 0) bridge5" "br_step\<^sup>*\<^sup>* (new_nb 0) bridge6" "br_step\<^sup>*\<^sup>* (new_nb 0) bridge7"
    "br_stp_handle_bpdu 1 forged bridge6 = Some bridge7"
proof -
  have p: "1 \<in> set (port_nos bridge4)" "2 \<in> set (port_nos bridge5)" "1 \<in> set (port_nos bridge6)" by code_simp+
  show b5: "br_step\<^sup>*\<^sup>* (new_nb 0) bridge5" unfolding bridge5_def
    by (rule reach_step [OF bridge4_reached br_step.bpdu [OF p(1) step_bpdu [OF _ p(1)]] new_nb_start])
  show b6: "br_step\<^sup>*\<^sup>* (new_nb 0) bridge6" unfolding bridge6_def
    by (rule reach_step [OF b5 br_step.bpdu [OF p(2) step_bpdu [OF _ p(2)]] new_nb_start])
  show "br_step\<^sup>*\<^sup>* (new_nb 0) bridge7" unfolding bridge7_def
    by (rule reach_step [OF b6 br_step.bpdu [OF p(3) step_bpdu [OF _ p(3)]] new_nb_start])
  show "br_stp_handle_bpdu 1 forged bridge6 = Some bridge7" unfolding bridge7_def
    by (rule step_bpdu [OF brm.reached_inv [OF new_nb_start b6] p(3)])
qed

text \<open>
  A received frame can crash the kernel: there is a bridge that can be reached from a new one, which has
  reported a topology change and waits for its acknowledgement, and a frame with its own identifier as the
  sender and a better root, such that after receiving the frame the bridge is the root without having stopped to
  retransmit the report; two seconds later the timer dereferences the NULL pointer that stands for its root port.
\<close>

theorem forged_bpdu_crashes:
  "\<exists>br no data b. br_step\<^sup>*\<^sup>* (new_nb 0) br \<and> br_stp_handle_bpdu no data br = Some b \<and>
    br_step\<^sup>*\<^sup>* (new_nb 0) (b\<lparr>jiffies := jiffies b + 2000\<rparr>) \<and>
    tick (b\<lparr>jiffies := jiffies b + 2000\<rparr>) \<and> br_tick (b\<lparr>jiffies := jiffies b + 2000\<rparr>) = None"
proof -
  have "br_step bridge7 (bridge7\<lparr>jiffies := jiffies bridge7 + 2000\<rparr>)"
    using br_step.passes [where br = bridge7 and t = 2000 and m = "mem_ok bridge7" and u = "br_up bridge7"] by simp
  then have r: "br_step\<^sup>*\<^sup>* (new_nb 0) (bridge7\<lparr>jiffies := jiffies bridge7 + 2000\<rparr>)"
    using bridge7_reached(3) by (rule rtranclp.rtrancl_into_rtrancl [rotated])
  have "tick (bridge7\<lparr>jiffies := jiffies bridge7 + 2000\<rparr>)" "br_tick (bridge7\<lparr>jiffies := jiffies bridge7 + 2000\<rparr>) = None" by code_simp+
  then show ?thesis using bridge7_reached(2,4) r by blast
qed

theorem bridge_well_formed_witness: "br_get_port bridge5 (root_port bridge5) \<noteq> None"
proof -
  have "root_port bridge5 \<noteq> 0" by code_simp
  then show ?thesis using bridge_well_formed [OF new_nb_start bridge7_reached(1)] by blast
qed


text \<open>Both ports of the bridge come up: after one forward delay they learn, after two they forward.\<close>

definition bridge8 :: net_bridge where
  "bridge8 = the (br_tick (bridge4\<lparr>jiffies := 15000\<rparr>))"

definition bridge9 :: net_bridge where
  "bridge9 = bridge8\<lparr>jiffies := 30000\<rparr>"

lemma reach_time:
  assumes "br_step\<^sup>*\<^sup>* s br"
  shows "br_step\<^sup>*\<^sup>* s (br\<lparr>jiffies := t\<rparr>)"
proof -
  have "br_step br (br\<lparr>jiffies := t\<rparr>)"
    using br_step.passes [where br = br and t = "t - jiffies br" and m = "mem_ok br" and u = "br_up br"] by simp
  then show ?thesis using assms by (rule rtranclp.rtrancl_into_rtrancl [rotated])
qed

lemma bridge9_reached: "br_step\<^sup>*\<^sup>* (new_nb 0) bridge9"
proof -
  have r: "br_step\<^sup>*\<^sup>* (new_nb 0) (bridge4\<lparr>jiffies := 15000\<rparr>)" by (rule reach_time [OF bridge4_reached])
  have c: "tick (bridge4\<lparr>jiffies := 15000\<rparr>)" "\<not> tcn_hazard (bridge4\<lparr>jiffies := 15000\<rparr>)" by code_simp+
  have "br_step\<^sup>*\<^sup>* (new_nb 0) bridge8" unfolding bridge8_def
    by (rule reach_step [OF r br_step.ticks [OF c(1) step_tick [OF _ c(2)]] new_nb_start])
  then show ?thesis unfolding bridge9_def by (rule reach_time)
qed


theorem spanning_tree_chosen_witness:
  "\<exists>b. br_configuration_update bridge5 \<bind> br_port_state_selection = Some b \<and> root_port b \<noteq> 0"
proof -
  let ?p = "the (br_get_port bridge5 1)"
  have "?p \<in> set (port_list bridge5) \<and> state ?p \<noteq> Disabled \<and> \<not> br_is_designated_port bridge5 ?p \<and> \<not> bridge_id bridge5 \<le> p_designated_root ?p"
    by code_simp
  then show ?thesis using spanning_tree_chosen [OF new_nb_start bridge7_reached(1)] by blast
qed

theorem better_root_accepted_witness:
  "\<exists>b. br_received_config_bpdu 1 (hello other_bridge other_bridge 7) bridge4 = Some b \<and> designated_root b \<le> other_bridge \<and> root_port b \<noteq> 0"
proof -
  let ?p = "the (br_get_port bridge4 1)"
  have "br_get_port bridge4 1 = Some ?p \<and> state ?p \<noteq> Disabled \<and> other_bridge \<noteq> bridge_id bridge4 \<and>
      other_bridge < p_designated_root ?p \<and> other_bridge < bridge_id bridge4"
    by code_simp
  then show ?thesis using better_root_accepted [OF new_nb_start bridge4_reached, of 1 ?p "hello other_bridge other_bridge 7"] by (simp add: hello_def)
qed


theorem message_age_twice_witness:
  "\<exists>q. br_get_port (br_record_config_information 1 (hello other_bridge other_bridge 7) bridge4) 1 = Some q \<and>
    \<not> br_timer_has_expired (jiffies bridge4 + word_of_int 39999) (message_age_timer q) (word_of_int (max_age bridge4))"
proof -
  have "max_age bridge4 = 20000 \<and> br_get_port bridge4 1 = Some (the (br_get_port bridge4 1))" by code_simp
  then show ?thesis
    using message_age_twice [of "hello other_bridge other_bridge 7" bridge4 39999 1 "the (br_get_port bridge4 1)"] by (auto simp: hello_def)
qed

end
