(* ===== verification/BrInput.thy ===== *)
theory BrInput
  imports BrProps
begin

text \<open>
  Frames through the bridge (net/bridge/br_input.c, br_forward.c, br_device.c): what is learned from a received
  frame, where it goes, and what becomes of the frames that the host sends over the bridge.  A frame that a port
  transmits is recorded in \<open>sent\<close>; the frames passed up to the host are returned.  \<open>skb_dev\<close> is the device of the
  frame: the number of the port it arrived on, or None for the bridge's own device.  The list \<open>cl\<close> says which of the coming calls of
  \<open>skb_clone\<close> find memory, all those beyond its length do; \<open>promisc\<close> is the flag \<open>IFF_PROMISC\<close> of the bridge's device;
  \<open>new\<close> is the address of a new forwarding entry.  Netfilter hooks let every frame pass,
  as without \<open>CONFIG_NETFILTER\<close>; the packet counters are not modelled.
\<close>

subsection \<open>Forwarding (br_forward.c)\<close>

record eth_skb =
  skb_dev :: "nat option"
  h_dest :: mac
  h_source :: mac
  skb_data :: "u8 list"

definition next_clone :: "bool list \<Rightarrow> bool \<times> bool list" where
  "next_clone cl = (case cl of [] \<Rightarrow> (True, []) | c # cl \<Rightarrow> (c, cl))"

definition should_deliver :: "net_bridge_port \<Rightarrow> eth_skb \<Rightarrow> bool" where
  "should_deliver p skb \<longleftrightarrow> \<not> (skb_dev skb = Some (port_no p) \<or> state p \<noteq> Forwarding)"

definition frame_bytes :: "eth_skb \<Rightarrow> u8 list" where
  "frame_bytes skb = mac_bytes (h_dest skb) @ mac_bytes (h_source skb) @ skb_data skb"

text \<open>\<open>__br_deliver\<close> and \<open>__br_forward\<close> down to the queue of the device of the port.\<close>

definition br_deliver_to :: "nat \<Rightarrow> eth_skb \<Rightarrow> net_bridge \<Rightarrow> net_bridge" where
  "br_deliver_to no skb br = br\<lparr>sent := sent br @ [(no, frame_bytes skb)]\<rparr>"

definition br_deliver :: "net_bridge_port \<Rightarrow> eth_skb \<Rightarrow> net_bridge \<Rightarrow> net_bridge" where
  "br_deliver to skb br = (if should_deliver to skb then br_deliver_to (port_no to) skb br else br)"

definition br_forward :: "net_bridge_port \<Rightarrow> eth_skb \<Rightarrow> net_bridge \<Rightarrow> net_bridge" where
  "br_forward to skb br = (if should_deliver to skb then br_deliver_to (port_no to) skb br else br)"

text \<open>The loop of \<open>br_flood\<close>: a frame goes to the last port itself and to the others as clones.\<close>

fun flood_loop :: "eth_skb \<Rightarrow> net_bridge_port list \<Rightarrow> nat option \<Rightarrow> bool list \<Rightarrow> net_bridge \<Rightarrow> net_bridge" where
  "flood_loop skb [] prev cl br = (case prev of None \<Rightarrow> br | Some no \<Rightarrow> br_deliver_to no skb br)"
| "flood_loop skb (p # ps) prev cl br =
     (if should_deliver p skb then
        case prev of
          None \<Rightarrow> flood_loop skb ps (Some (port_no p)) cl br
        | Some no \<Rightarrow>
            (case next_clone cl of
               (False, cl) \<Rightarrow> br
             | (True, cl) \<Rightarrow> flood_loop skb ps (Some (port_no p)) cl (br_deliver_to no skb br))
      else flood_loop skb ps prev cl br)"

definition br_flood :: "eth_skb \<Rightarrow> bool \<Rightarrow> bool list \<Rightarrow> net_bridge \<Rightarrow> net_bridge" where
  "br_flood skb clone cl br =
     (if clone then
        case next_clone cl of
          (False, cl) \<Rightarrow> br
        | (True, cl) \<Rightarrow> flood_loop skb (port_list br) None cl br
      else flood_loop skb (port_list br) None cl br)"

definition br_flood_deliver :: "eth_skb \<Rightarrow> bool \<Rightarrow> bool list \<Rightarrow> net_bridge \<Rightarrow> net_bridge" where
  "br_flood_deliver skb clone cl br = br_flood skb clone cl br"

definition br_flood_forward :: "eth_skb \<Rightarrow> bool \<Rightarrow> bool list \<Rightarrow> net_bridge \<Rightarrow> net_bridge" where
  "br_flood_forward skb clone cl br = br_flood skb clone cl br"

subsection \<open>Receiving (br_input.c)\<close>

definition br_pass_frame_up :: "eth_skb \<Rightarrow> eth_skb" where
  "br_pass_frame_up skb = skb\<lparr>skb_dev := None\<rparr>"

definition br_handle_frame_finish :: "bool \<Rightarrow> bool list \<Rightarrow> eth_skb \<Rightarrow> net_bridge \<Rightarrow> (net_bridge \<times> eth_skb list) option" where
  "br_handle_frame_finish promisc cl skb br =
     (let (passedup, cl) = (if promisc then next_clone cl else (False, cl));
          up = (if passedup then [br_pass_frame_up skb] else [])
      in if fst (h_dest skb) AND 1 \<noteq> 0
         then Some (br_flood_forward skb (\<not> passedup) cl br, if \<not> passedup then up @ [br_pass_frame_up skb] else up)
         else do {
           (br, dst) \<leftarrow> br_fdb_get (h_dest skb) br;
           case dst of
             Some f \<Rightarrow> do {
               e \<leftarrow> fdb_heap br f;
               if is_local e then do {
                 br \<leftarrow> br_fdb_put f br;
                 Some (br, if \<not> passedup then up @ [br_pass_frame_up skb] else up) }
               else do {
                 to \<leftarrow> br_get_port br (fdb_dst e);
                 br \<leftarrow> br_fdb_put f (br_forward to skb br);
                 Some (br, up) } }
           | None \<Rightarrow> Some (br_flood_forward skb False cl br, up) })"

text \<open>\<open>memcmp(dest, bridge_ula, 5)\<close> and the test of the last byte: the group addresses of IEEE 802.1D.\<close>

definition special_frame :: "mac \<Rightarrow> bool" where
  "special_frame dest \<longleftrightarrow> memcmp_bytes (take 5 (mac_bytes dest)) (take 5 (mac_bytes bridge_ula)) = 0 \<and> mac_bytes dest ! 5 AND 0xF0 = 0"

definition br_handle_frame :: "bool \<Rightarrow> bool list \<Rightarrow> nat \<Rightarrow> eth_skb \<Rightarrow> net_bridge \<Rightarrow> (net_bridge \<times> eth_skb list) option" where
  "br_handle_frame promisc cl new skb br =
     (case skb_dev skb \<bind> br_get_port br of
        None \<Rightarrow> Some (br, [])
      | Some p \<Rightarrow>
          if \<not> br_up br \<or> state p = Disabled then Some (br, [])
          else if fst (h_source skb) AND 1 \<noteq> 0 then Some (br, [])
          else do {
            br \<leftarrow> (if state p = Learning \<or> state p = Forwarding then br_fdb_insert (port_no p) (h_source skb) False new br else Some br);
            if stp_enabled br \<and> special_frame (h_dest skb) then
              if mac_bytes (h_dest skb) ! 5 = 0 then do {
                br \<leftarrow> br_stp_handle_bpdu (port_no p) (skb_data skb) br;
                Some (br, []) }
              else Some (br, [])
            else if state p = Forwarding then br_handle_frame_finish promisc cl skb br
            else Some (br, []) })"

subsection \<open>Sending (br_device.c)\<close>

definition br_dev_xmit :: "bool list \<Rightarrow> eth_skb \<Rightarrow> net_bridge \<Rightarrow> net_bridge option" where
  "br_dev_xmit cl skb br =
     (let skb = skb\<lparr>skb_dev := None\<rparr> in
      if fst (h_dest skb) AND 1 \<noteq> 0 then Some (br_flood_deliver skb False cl br)
      else do {
        (br, dst) \<leftarrow> br_fdb_get (h_dest skb) br;
        case dst of
          Some f \<Rightarrow> do {
            e \<leftarrow> fdb_heap br f;
            to \<leftarrow> br_get_port br (fdb_dst e);
            br_fdb_put f (br_deliver to skb br) }
        | None \<Rightarrow> Some (br_flood_deliver skb False cl br) })"

subsection \<open>Where frames go\<close>

text \<open>The ports that a frame may leave on.\<close>

definition egress :: "net_bridge \<Rightarrow> nat option \<Rightarrow> nat list" where
  "egress br n = map port_no (filter (\<lambda>p. state p = Forwarding \<and> n \<noteq> Some (port_no p)) (port_list br))"

definition send_all :: "nat list \<Rightarrow> eth_skb \<Rightarrow> net_bridge \<Rightarrow> net_bridge" where
  "send_all ns skb br = br\<lparr>sent := sent br @ map (\<lambda>n. (n, frame_bytes skb)) ns\<rparr>"

lemma should_deliver_iff: "should_deliver p skb \<longleftrightarrow> state p = Forwarding \<and> skb_dev skb \<noteq> Some (port_no p)"
  by (auto simp: should_deliver_def)

lemma send_all_simps [simp]: "send_all [] skb br = br" "send_all ns skb (br_deliver_to n skb br) = send_all (n # ns) skb br"
    "br_deliver_to n skb br = send_all [n] skb br" "send_all ms skb (send_all ns skb br) = send_all (ns @ ms) skb br"
  by (simp_all add: send_all_def br_deliver_to_def)

lemma flood_loop_ok:
  "\<exists>ns zs. (case prev of None \<Rightarrow> [] | Some n \<Rightarrow> [n]) @ map port_no (filter (\<lambda>p. should_deliver p skb) ps) = ns @ zs \<and>
     flood_loop skb ps prev cl br = send_all ns skb br \<and> (False \<notin> set cl \<longrightarrow> zs = [])"
proof (induction ps arbitrary: prev cl br)
  case Nil
  then show ?case by (cases prev) auto
next
  case (Cons p ps)
  show ?case
  proof (cases "should_deliver p skb \<and> prev \<noteq> None")
    case False
    then show ?thesis using Cons.IH [of prev cl br] Cons.IH [of "Some (port_no p)" cl br] by (cases "should_deliver p skb") auto
  next
    case True
    then obtain n where n: "prev = Some n" by blast
    obtain c cl' where c: "next_clone cl = (c, cl')" by fastforce
    show ?thesis
    proof (cases c)
      case False
      then have "False \<in> set cl" using c by (auto simp: next_clone_def split: list.splits)
      then show ?thesis using True n c False by - (rule exI [of _ "[]"], auto)
    next
      case clone: True
      have cl: "False \<notin> set cl'" if "False \<notin> set cl" using c that by (auto simp: next_clone_def split: list.splits)
      obtain ns zs where "port_no p # map port_no (filter (\<lambda>p. should_deliver p skb) ps) = ns @ zs"
          "flood_loop skb ps (Some (port_no p)) cl' (br_deliver_to n skb br) = send_all ns skb (br_deliver_to n skb br)"
          "False \<notin> set cl' \<longrightarrow> zs = []"
        using Cons.IH [of "Some (port_no p)" cl' "br_deliver_to n skb br"] by auto
      then show ?thesis using True n c clone cl by (intro exI [of _ "n # ns"] exI [of _ zs]) auto
    qed
  qed
qed

lemma flood_ok:
  "\<exists>ns zs. egress br (skb_dev skb) = ns @ zs \<and> br_flood skb clone cl br = send_all ns skb br \<and> (False \<notin> set cl \<longrightarrow> zs = [])"
proof -
  have e: "map port_no (filter (\<lambda>p. should_deliver p skb) (port_list br)) = egress br (skb_dev skb)"
    by (simp add: egress_def should_deliver_iff)
  note loop = flood_loop_ok [of None skb "port_list br" _ br, unfolded e option.case append_Nil]
  obtain c cl' where c: "next_clone cl = (c, cl')" by fastforce
  have s: "send_all [] skb br = br" by simp
  show ?thesis
  proof (cases clone)
    case True
    show ?thesis
    proof (cases c)
      case False
      then have "False \<in> set cl" using c by (auto simp: next_clone_def split: list.splits)
      then show ?thesis using \<open>clone\<close> False c by - (rule exI [of _ "[]"], auto simp: br_flood_def)
    next
      case cl: True
      have "False \<notin> set cl'" if "False \<notin> set cl" using c that by (auto simp: next_clone_def split: list.splits)
      then show ?thesis using loop [of cl'] \<open>clone\<close> cl c by (auto simp: br_flood_def)
    qed
  next
    case False
    then show ?thesis using loop [of cl] by (simp add: br_flood_def)
  qed
qed

text \<open>Looking an entry up and giving it back leaves the table as it was.\<close>

lemma get_put:
  assumes "fdb_ok br refs" "br_fdb_get a br = Some (b, Some f)"
  shows "br_fdb_put f (b\<lparr>sent := s\<rparr>) = Some (br\<lparr>sent := s\<rparr>)"
proof -
  obtain e where e: "fdb_heap br f = Some e" "b = br\<lparr>fdb_heap := (fdb_heap br)(f \<mapsto> e\<lparr>use_count := use_count e + 1\<rparr>)\<rparr>"
    using assms(2) by (auto simp: br_fdb_get_def bind_eq_Some_conv split: option.splits if_splits)
  have "use_count e \<noteq> 0" using fdb_okD(8) [OF assms(1) e(1)] by simp
  then show ?thesis using e(1) by (simp add: br_fdb_put_def e(2) Let_def fun_upd_idem)
qed

text \<open>What the table says about a destination, as a lookup sees it.\<close>

definition route :: "net_bridge \<Rightarrow> mac \<Rightarrow> (nat \<times> bool) option" where
  "route br a = (case fdb_map br a of
       None \<Rightarrow> None
     | Some v \<Rightarrow> if stale br v then None else Some (fst v, snd (snd v)))"

lemma get_cases:
  assumes "bridge_ok br"
  obtains "route br a = None" "br_fdb_get a br = Some (br, None)"
  | b f e p where "route br a = Some (fdb_dst e, is_local e)" "br_fdb_get a br = Some (b, Some f)" "fdb_heap b f = Some e"
      "br_get_port b (fdb_dst e) = Some p" "p \<in> set (port_list br)" "port_no p = fdb_dst e"
      "\<And>s. br_fdb_put f (b\<lparr>sent := s\<rparr>) = Some (br\<lparr>sent := s\<rparr>)" "sent b = sent br"
proof -
  have inv: "stp_inv br" "dsts br \<subseteq> set (port_nos br)" using assms by (simp_all add: bridge_ok_def)
  obtain refs where refs: "fdb_ok br refs" using stp_invD(4) [OF inv(1)] by blast
  obtain b r where b: "br_fdb_get a br = Some (b, r)" "b = br\<lparr>fdb_heap := fdb_heap b\<rparr>"
      "case r of None \<Rightarrow> b = br \<and> (\<forall>v. fdb_map br a = Some v \<longrightarrow> stale br v)
       | Some f \<Rightarrow> fdb_ok b (add_mset f refs) \<and> (\<exists>e. fdb_heap b f = Some e \<and> fdb_map br a = Some (info e) \<and> \<not> stale br (info e))"
    using get_ok [OF refs, of a] by blast
  show thesis
  proof (cases r)
    case None
    then have "route br a = None" using b(3) by (simp add: route_def split: option.splits)
    then show ?thesis using that(1) b(1,3) None by simp
  next
    case (Some f)
    then obtain e where e: "fdb_heap b f = Some e" "fdb_map br a = Some (info e)" "\<not> stale br (info e)" using b(3) by auto
    have "fdb_dst e \<in> dsts br" unfolding dsts_def using ranI [of "fdb_map br" a, OF e(2)] by (force simp: info_def)
    then have "fdb_dst e \<in> set (port_nos br)" using inv(2) by blast
    then obtain p where p: "br_get_port br (fdb_dst e) = Some p" using get_port_ex by blast
    have pl: "port_list b = port_list br" "sent b = sent br" by (subst b(2), simp)+
    have "br_get_port b (fdb_dst e) = Some p" using p by (simp add: br_get_port_def pl)
    moreover have "route br a = Some (fdb_dst e, is_local e)" using e(2,3) by (simp add: route_def info_def)
    ultimately show ?thesis using that(2) b(1) e(1) get_portD [OF p] get_put [OF refs b(1) [unfolded Some]] pl(2) Some by blast
  qed
qed

lemma distinct_filter_eq: "distinct xs \<Longrightarrow> [x \<leftarrow> xs. x = a] = (if a \<in> set xs then [a] else [])"
  by (induction xs) auto

lemma egress_distinct: "wf_ports br \<Longrightarrow> distinct (egress br n)"
proof -
  assume "wf_ports br"
  then have "distinct (map port_no (port_list br))" by (simp add: wf_ports_def port_nos_def)
  then show ?thesis unfolding egress_def by (rule distinct_map_filter)
qed

lemma forward_ok:
  assumes "wf_ports br" "p \<in> set (port_list br)"
  shows "br_forward p skb b = send_all (if port_no p \<in> set (egress br (skb_dev skb)) then [port_no p] else []) skb b"
proof -
  have "port_no p \<in> set (egress br (skb_dev skb)) \<longleftrightarrow> should_deliver p skb"
  proof
    assume "port_no p \<in> set (egress br (skb_dev skb))"
    then obtain q where q: "q \<in> set (port_list br)" "port_no q = port_no p" "state q = Forwarding" "skb_dev skb \<noteq> Some (port_no q)"
      by (auto simp: egress_def)
    have "q = p" using assms q(1,2) by (auto simp: wf_ports_def port_nos_def distinct_map inj_on_def)
    then show "should_deliver p skb" using q by (simp add: should_deliver_iff)
  qed (use assms(2) in \<open>auto simp: egress_def should_deliver_iff\<close>)
  then show ?thesis by (simp add: br_forward_def)
qed

definition group_addr :: "mac \<Rightarrow> bool" where
  "group_addr a \<longleftrightarrow> fst a AND 1 \<noteq> 0"

text \<open>The frames that go up: all of them to a listener in promiscuous mode that finds memory, group and local ones to the host.\<close>

definition goes_up :: "bool \<Rightarrow> bool list \<Rightarrow> net_bridge \<Rightarrow> eth_skb \<Rightarrow> bool" where
  "goes_up promisc cl br skb \<longleftrightarrow> group_addr (h_dest skb) \<or> (\<exists>d. route br (h_dest skb) = Some (d, True)) \<or> promisc \<and> fst (next_clone cl)"

lemma finish_ok:
  assumes "bridge_ok br"
  shows "\<exists>outs. br_handle_frame_finish promisc cl skb br =
      Some (send_all outs skb br, if goes_up promisc cl br skb then [br_pass_frame_up skb] else []) \<and>
    distinct outs \<and> set outs \<subseteq> set (egress br (skb_dev skb)) \<and>
    (if group_addr (h_dest skb) \<or> route br (h_dest skb) = None then False \<notin> set cl \<longrightarrow> outs = egress br (skb_dev skb)
     else outs = [d \<leftarrow> egress br (skb_dev skb). route br (h_dest skb) = Some (d, False)])"
proof -
  have wf: "wf_ports br" using assms stp_invD(1) by (simp add: bridge_ok_def)
  let ?E = "egress br (skb_dev skb)"
  have dE: "distinct ?E" by (rule egress_distinct [OF wf])
  have sub: "False \<notin> set (snd (next_clone cl))" if "False \<notin> set cl" using that by (auto simp: next_clone_def split: list.splits)
  define x where "x = (if promisc then next_clone cl else (False, cl))"
  have x: "fst x \<longleftrightarrow> promisc \<and> fst (next_clone cl)" "False \<notin> set cl \<Longrightarrow> False \<notin> set (snd x)" using sub by (auto simp: x_def)
  have fl: "\<exists>ns zs. ?E = ns @ zs \<and> br_flood_forward skb c (snd x) br = send_all ns skb br \<and> (False \<notin> set cl \<longrightarrow> zs = [])" for c
    using flood_ok [of br skb c "snd x"] x(2) by (auto simp: br_flood_forward_def)
  show ?thesis
  proof (cases "group_addr (h_dest skb)")
    case True
    obtain ns zs where n: "?E = ns @ zs" "br_flood_forward skb (\<not> fst x) (snd x) br = send_all ns skb br" "False \<notin> set cl \<longrightarrow> zs = []" using fl by blast
    have "br_handle_frame_finish promisc cl skb br = Some (send_all ns skb br, [br_pass_frame_up skb])"
      using True n(2) unfolding br_handle_frame_finish_def x_def [symmetric] by (simp add: group_addr_def case_prod_beta Let_def)
    then show ?thesis using True n dE by (intro exI [of _ ns]) (auto simp: goes_up_def)
  next
    case False
    from assms show ?thesis
    proof (cases rule: get_cases [where a = "h_dest skb"])
      case 1
      obtain ns zs where n: "?E = ns @ zs" "br_flood_forward skb False (snd x) br = send_all ns skb br" "False \<notin> set cl \<longrightarrow> zs = []" using fl by blast
      have "br_handle_frame_finish promisc cl skb br = Some (send_all ns skb br, if fst x then [br_pass_frame_up skb] else [])"
        using False n(2) 1(2) unfolding br_handle_frame_finish_def x_def [symmetric] by (simp add: group_addr_def case_prod_beta Let_def)
      then show ?thesis using False n dE 1(1) x(1) by (intro exI [of _ ns]) (auto simp: goes_up_def)
    next
      case (2 b f e p)
      show ?thesis
      proof (cases "is_local e")
        case True
        have "b\<lparr>sent := sent br\<rparr> = b" using 2(8) by (metis net_bridge.surjective net_bridge.update_convs(27))
        then have "br_fdb_put f b = Some br" using 2(7) [of "sent br"] by simp
        then have "br_handle_frame_finish promisc cl skb br = Some (br, [br_pass_frame_up skb])"
          using False 2(2,3) True unfolding br_handle_frame_finish_def x_def [symmetric] by (simp add: group_addr_def case_prod_beta Let_def)
        then show ?thesis using False True 2(1) by (intro exI [of _ "[]"]) (auto simp: goes_up_def)
      next
        case remote: False
        let ?o = "if port_no p \<in> set ?E then [port_no p] else []"
        have f: "br_fdb_put f (br_forward p skb b) = Some (send_all ?o skb br)"
          using 2(7) [of "sent b @ map (\<lambda>n. (n, frame_bytes skb)) ?o"] 2(8) by (simp add: forward_ok [OF wf 2(5)] send_all_def)
        have "br_handle_frame_finish promisc cl skb br = Some (send_all ?o skb br, if fst x then [br_pass_frame_up skb] else [])"
          using False 2(2,3,4) remote f unfolding br_handle_frame_finish_def x_def [symmetric] by (simp add: group_addr_def case_prod_beta Let_def)
        moreover have "[d \<leftarrow> ?E. route br (h_dest skb) = Some (d, False)] = ?o"
        proof -
          have "[d \<leftarrow> ?E. route br (h_dest skb) = Some (d, False)] = [d \<leftarrow> ?E. d = port_no p]"
            using 2(1,6) remote by (auto intro!: filter_cong)
          then show ?thesis using dE by (simp add: distinct_filter_eq)
        qed
        ultimately show ?thesis using False 2(1) remote x(1) by (intro exI [of _ ?o]) (auto simp: goes_up_def)
      qed
    qed
  qed
qed

lemma send_all_same [simp]: "fdb_map (send_all ns skb br) = fdb_map br" "port_list (send_all ns skb br) = port_list br"
    "sent (send_all ns skb br) = sent br @ map (\<lambda>n. (n, frame_bytes skb)) ns" "jiffies (send_all ns skb br) = jiffies br"
    "stp_enabled (send_all ns skb br) = stp_enabled br" "br_up (send_all ns skb br) = br_up br" "fdb_heap (send_all ns skb br) = fdb_heap br"
    "mem_ok (send_all ns skb br) = mem_ok br" "ageing_time (send_all ns skb br) = ageing_time br"
    "forward_delay (send_all ns skb br) = forward_delay br" "topology_change (send_all ns skb br) = topology_change br"
  by (simp_all add: send_all_def fdb_map_def entry_at_def fun_eq_iff)

lemma send_all_ok: "bridge_ok br \<Longrightarrow> bridge_ok (send_all ns skb br)"
  by (rule fields_ok) (simp_all add: send_all_def)

text \<open>The address of the sender is learned first.\<close>

lemma learn_ok:
  assumes "bridge_ok br" "fdb_heap br new = None" "no \<in> set (port_nos br)"
  shows "\<exists>b. br_fdb_insert no a False new br = Some b \<and> bridge_ok b \<and> b = br\<lparr>hash := hash b, fdb_heap := fdb_heap b\<rparr> \<and>
    fdb_map b = spec_insert (mem_ok br) (jiffies br) no a False (fdb_map br)"
proof -
  obtain refs where refs: "fdb_ok br refs" using assms(1) stp_invD(4) by (auto simp: bridge_ok_def)
  obtain b where b: "br_fdb_insert no a False new br = Some b" "b = br\<lparr>hash := hash b, fdb_heap := fdb_heap b\<rparr>"
      "fdb_map b = spec_insert (mem_ok br) (jiffies br) no a False (fdb_map br)"
    using insert_ok [OF refs assms(2), of no a False] by blast
  have "bridge_ok b" by (rule br_step_ok [OF br_step.learns [OF assms(3,2) b(1)] assms(1)])
  then show ?thesis using b by blast
qed

lemma handle_frame_ok:
  assumes ok: "bridge_ok br" and new: "fdb_heap br new = None" and p: "br_get_port br no = Some p" "skb_dev skb = Some no" "br_up br"
    "state p = Forwarding" "\<not> group_addr (h_source skb)" "\<not> (stp_enabled br \<and> special_frame (h_dest skb))"
  shows "\<exists>b0 outs. br_fdb_insert no (h_source skb) False new br = Some b0 \<and> b0 = br\<lparr>hash := hash b0, fdb_heap := fdb_heap b0\<rparr> \<and> bridge_ok b0 \<and>
    fdb_map b0 = spec_insert (mem_ok br) (jiffies br) no (h_source skb) False (fdb_map br) \<and>
    br_handle_frame promisc cl new skb br = Some (send_all outs skb b0, if goes_up promisc cl b0 skb then [br_pass_frame_up skb] else []) \<and>
    distinct outs \<and> set outs \<subseteq> set (egress br (Some no)) \<and>
    (if group_addr (h_dest skb) \<or> route b0 (h_dest skb) = None then False \<notin> set cl \<longrightarrow> outs = egress br (Some no)
     else outs = [d \<leftarrow> egress br (Some no). route b0 (h_dest skb) = Some (d, False)])"
proof -
  have no: "port_no p = no" "no \<in> set (port_nos br)" using get_portD [OF p(1)] by (auto simp: port_nos_def)
  obtain b0 where b: "br_fdb_insert no (h_source skb) False new br = Some b0" "bridge_ok b0" "b0 = br\<lparr>hash := hash b0, fdb_heap := fdb_heap b0\<rparr>"
      "fdb_map b0 = spec_insert (mem_ok br) (jiffies br) no (h_source skb) False (fdb_map br)"
    using learn_ok [OF ok new no(2)] by blast
  have same: "port_list b0 = port_list br" "stp_enabled b0 = stp_enabled br" by (subst b(3), simp)+
  have e: "egress b0 n = egress br n" for n by (simp add: egress_def same)
  have h: "br_handle_frame promisc cl new skb br = br_handle_frame_finish promisc cl skb b0"
    using p same b(1) no(1) by (auto simp: br_handle_frame_def group_addr_def)
  show ?thesis using finish_ok [OF b(2), of promisc cl skb] b unfolding h e p(2) by blast
qed

subsection \<open>The properties\<close>


text \<open>
  Nothing passes a port that is not forwarding: a frame that arrives on a port in any other state, or whose source is a group,
  is neither sent on nor passed up, unless it belongs to the protocol; and unless the
  port is learning it changes nothing at all.
\<close>

theorem frame_blocked:
  assumes "br_start s" "br_step\<^sup>*\<^sup>* s br" "fdb_heap br new = None" "br_get_port br no = Some p" "skb_dev skb = Some no"
    "state p \<noteq> Forwarding \<or> group_addr (h_source skb)" "\<not> (stp_enabled br \<and> special_frame (h_dest skb))"
  shows "\<exists>b. br_handle_frame promisc cl new skb br = Some (b, []) \<and> sent b = sent br \<and> port_list b = port_list br \<and>
    (state p \<noteq> Learning \<or> group_addr (h_source skb) \<longrightarrow> b = br)"
proof -
  have ok: "bridge_ok br" by (rule brm.reached_inv [OF assms(1,2)])
  have no: "port_no p = no" "no \<in> set (port_nos br)" using get_portD [OF assms(4)] by (auto simp: port_nos_def)
  obtain b0 where b: "br_fdb_insert no (h_source skb) False new br = Some b0" "b0 = br\<lparr>hash := hash b0, fdb_heap := fdb_heap b0\<rparr>"
    using learn_ok [OF ok assms(3) no(2)] by blast
  have same: "port_list b0 = port_list br" "stp_enabled b0 = stp_enabled br" "sent b0 = sent br" by (subst b(2), simp)+
  show ?thesis
  proof (cases "\<not> br_up br \<or> state p = Disabled \<or> group_addr (h_source skb)")
    case True
    then show ?thesis using assms(4,5) by (auto simp: br_handle_frame_def group_addr_def)
  next
    case False
    then have nf: "state p \<noteq> Forwarding" using assms(6) by blast
    then show ?thesis using False assms(4,5,7) b(1) no(1) same by (cases "state p = Learning") (auto simp: br_handle_frame_def group_addr_def)
  qed
qed

lemma spec_insert_at:
  assumes "mem" "\<And>d t. m a \<noteq> Some (d, t, True)"
  shows "spec_insert mem now n a False m = m(a \<mapsto> (n, now, False))"
  using assms by (auto simp: spec_insert_def split: option.splits prod.splits bool.splits)

lemma spec_insert_other: "x \<noteq> a \<Longrightarrow> spec_insert mem now n a loc m x = m x"
  by (auto simp: spec_insert_def split: option.splits prod.splits bool.splits)

lemma not_stale:
  assumes "jiffies b = now + word_of_int d" "0 \<le> d" "d < (if topology_change b then forward_delay b else ageing_time b)"
    "(if topology_change b then forward_delay b else ageing_time b) < 2 ^ 31"
  shows "\<not> stale b (n, now, loc)"
proof -
  let ?h = "if topology_change b then forward_delay b else ageing_time b"
  have "fdb_timeout b - now = (word_of_int (d - ?h) :: u32)" using assms(1) by (simp add: fdb_timeout_def Let_def)
  moreover have "sint (word_of_int (d - ?h) :: u32) = d - ?h" unfolding sint_sbintrunc' using assms(2-4) by (intro signed_take_bit_int_eq_self) auto
  ultimately have "sint (fdb_timeout b - now) = d - ?h" by (simp only:)
  then have "sint (fdb_timeout b - now) < 0" using assms(3) by linarith
  then show ?thesis by (simp add: stale_def time_after_eq_def)
qed


text \<open>
  The host sends over forwarding ports only: a frame of the host goes to the port behind which its destination was seen, if that is
  forwarding, and to all forwarding ports if it is for a group or the destination is not known, unless memory
  for a copy runs out; the bridge is otherwise unchanged.
\<close>

theorem host_frame_sent:
  assumes "br_start s" "br_step\<^sup>*\<^sup>* s br"
  shows "\<exists>outs. br_dev_xmit cl skb br = Some (br\<lparr>sent := sent br @ map (\<lambda>n. (n, frame_bytes skb)) outs\<rparr>) \<and> distinct outs \<and>
    (\<forall>n \<in> set outs. \<exists>q \<in> set (port_list br). port_no q = n \<and> state q = Forwarding) \<and>
    (if group_addr (h_dest skb) \<or> route br (h_dest skb) = None
     then False \<notin> set cl \<longrightarrow> set outs = {port_no q |q. q \<in> set (port_list br) \<and> state q = Forwarding}
     else \<forall>n \<in> set outs. \<exists>loc. route br (h_dest skb) = Some (n, loc))"
proof -
  have ok: "bridge_ok br" by (rule brm.reached_inv [OF assms])
  have wf: "wf_ports br" using ok stp_invD(1) by (simp add: bridge_ok_def)
  let ?k = "skb\<lparr>skb_dev := None\<rparr>"
  have fb: "frame_bytes ?k = frame_bytes skb" by (simp add: frame_bytes_def)
  have E: "set (egress br None) = {port_no q |q. q \<in> set (port_list br) \<and> state q = Forwarding}" "distinct (egress br None)"
    using egress_distinct [OF wf, of None] by (auto simp: egress_def)
  obtain ns zs where n: "egress br None = ns @ zs" "br_flood_deliver ?k False cl br = send_all ns ?k br" "False \<notin> set cl \<longrightarrow> zs = []"
    using flood_ok [of br ?k False cl] by (auto simp: br_flood_deliver_def)
  have flood: ?thesis if "br_dev_xmit cl skb br = Some (br_flood_deliver ?k False cl br)" "group_addr (h_dest skb) \<or> route br (h_dest skb) = None"
  proof -
    have "\<exists>q \<in> set (port_list br). port_no q = n \<and> state q = Forwarding" if "n \<in> set ns" for n
    proof -
      have "n \<in> {port_no q |q. q \<in> set (port_list br) \<and> state q = Forwarding}" unfolding E(1) [symmetric] n(1) using that by simp
      then show ?thesis by blast
    qed
    then show ?thesis using that E n by (intro exI [of _ ns]) (auto simp: send_all_def fb)
  qed
  show ?thesis
  proof (cases "group_addr (h_dest skb)")
    case True
    then show ?thesis using flood by (simp add: br_dev_xmit_def group_addr_def)
  next
    case False
    from ok show ?thesis
    proof (cases rule: get_cases [where a = "h_dest skb"])
      case 1
      then show ?thesis using flood False by (simp add: br_dev_xmit_def group_addr_def)
    next
      case (2 b f e p)
      let ?o = "if port_no p \<in> set (egress br None) then [port_no p] else []"
      have "br_fdb_put f (br_deliver p ?k b) = Some (send_all ?o ?k br)"
        using 2(7) [of "sent b @ map (\<lambda>n. (n, frame_bytes ?k)) ?o"] 2(8) forward_ok [OF wf 2(5), of ?k b]
        by (simp add: br_deliver_def br_forward_def send_all_def)
      then have "br_dev_xmit cl skb br = Some (send_all ?o ?k br)" using False 2(2,3,4) by (simp add: br_dev_xmit_def group_addr_def)
      then show ?thesis using False 2(1,6) E(1) by (intro exI [of _ ?o]) (auto simp: send_all_def fb)
    qed
  qed
qed

subsection \<open>The properties at work\<close>

text \<open>Both ports forward; a first frame to an unknown address is flooded, the answer is not.\<close>

definition bridge10 :: net_bridge where
  "bridge10 = (the (br_tick bridge9))\<lparr>br_up := True\<rparr>"

definition frame1 :: eth_skb where
  "frame1 = \<lparr>skb_dev = Some 1, h_dest = (2, 0, 0, 0, 0, 2), h_source = (2, 0, 0, 0, 0, 1), skb_data = [8, 0]\<rparr>"

definition frame2 :: eth_skb where
  "frame2 = \<lparr>skb_dev = Some 2, h_dest = (2, 0, 0, 0, 0, 1), h_source = (2, 0, 0, 0, 0, 2), skb_data = [8, 0]\<rparr>"

lemma bridge10_reached: "br_step\<^sup>*\<^sup>* (new_nb 0) bridge10"
proof -
  have c: "tick bridge9" "\<not> tcn_hazard bridge9" by code_simp+
  have "br_step\<^sup>*\<^sup>* (new_nb 0) (the (br_tick bridge9))"
    by (rule reach_step [OF bridge9_reached br_step.ticks [OF c(1) step_tick [OF _ c(2)]] new_nb_start])
  moreover have "br_step b (b\<lparr>br_up := True\<rparr>)" for b
    using br_step.passes [where br = b and t = 0 and m = "mem_ok b" and u = True] by simp
  ultimately show ?thesis unfolding bridge10_def by (rule rtranclp.rtrancl_into_rtrancl)
qed

lemma bridge10_facts:
  "case (br_get_port bridge10 1, br_get_port bridge10 2) of
     (Some p, Some q) \<Rightarrow> state p = Forwarding \<and> state q = Forwarding \<and> fdb_heap bridge10 5 = None \<and> br_up bridge10 \<and> mem_ok bridge10 \<and>
       topology_change bridge10 \<and> forward_delay bridge10 = 15000 | _ \<Rightarrow> False"
  by code_simp

lemma frame_facts: "\<not> group_addr (h_source frame1)" "\<not> group_addr (h_dest frame1)" "\<not> special_frame (h_dest frame1)"
    "\<not> group_addr (h_source frame2)" "\<not> special_frame (h_dest frame2)"
  by code_simp+


theorem frame_blocked_witness:
  "\<exists>b. br_handle_frame False [] 5 frame1 bridge4 = Some (b, []) \<and> sent b = sent bridge4"
proof -
  have "case br_get_port bridge4 1 of None \<Rightarrow> False | Some p \<Rightarrow> state p \<noteq> Forwarding \<and> fdb_heap bridge4 5 = None" by code_simp
  then obtain p where p: "br_get_port bridge4 1 = Some p" "state p \<noteq> Forwarding" "fdb_heap bridge4 5 = None" by (auto split: option.splits)
  have d: "skb_dev frame1 = Some 1" "\<not> (stp_enabled bridge4 \<and> special_frame (h_dest frame1))" using frame_facts by (simp_all add: frame1_def)
  show ?thesis using frame_blocked [OF new_nb_start bridge4_reached p(3,1) d(1) disjI1 [OF p(2)] d(2), of False "[]"] by blast
qed

lemma entry_lookup: "fdb_find (fdb_heap bridge10) (\<lambda>f. memcmp_mac (fdb_addr f) (2, 0, 0, 0, 0, 1) = 0) (hash bridge10 ! br_mac_hash (2, 0, 0, 0, 0, 1)) = Some None"
  by code_simp


theorem host_frame_sent_witness:
  "\<exists>outs. br_dev_xmit [] frame1 bridge10 = Some (bridge10\<lparr>sent := sent bridge10 @ map (\<lambda>n. (n, frame_bytes frame1)) outs\<rparr>)"
  using host_frame_sent [OF new_nb_start bridge10_reached, of "[]" frame1] by blast

end
