(* ===== verification/KTimer.thy ===== *)
theory KTimer
  imports KPrelude "HOL-Library.Monad_Syntax"
begin

text \<open>
  The kernel timers (kernel/timer.c): timers wait in five vectors of lists, the first with a list for each of the next 256
  ticks of the clock, the others with ever coarser ones, whose lists are distributed over the finer
  vectors when their time comes.  A timer is a number; \<open>tvec st n i\<close> is the list \<open>tvecs[n]->vec[i]\<close>, head first, \<open>tindex st n\<close> is
  \<open>tvecs[n]->index\<close>, \<open>texpires\<close> is the field \<open>expires\<close> and \<open>tlinked\<close> says whether the pointer \<open>list.next\<close> of a timer is not NULL.
  \<open>run_list\<close> is the list that \<open>run_timer_list_running\<close> points to, None for NULL.  \<open>fired\<close> records the timers whose functions were
  called, with the value of \<open>timer_jiffies\<close> and of \<open>expires\<close> at that moment.

  What the function of a timer does to timers is a parameter: a sequence of calls of \<open>add_timer\<close>, \<open>mod_timer\<close> and \<open>del_timer\<close> that may depend
  on the state.  The clock does not advance while \<open>run_timer_list\<close> runs.  The functions are atomic under \<open>timerlist_lock\<close> and
  the version for one processor is modelled (no \<open>del_timer_sync\<close>).
\<close>

subsection \<open>The wheel\<close>

record timer_base =
  tvec :: "nat \<Rightarrow> nat \<Rightarrow> nat list"
  tindex :: "nat \<Rightarrow> nat"
  run_list :: "nat list option"
  timer_jiffies :: u32
  texpires :: "nat \<Rightarrow> u32"
  tlinked :: "nat \<Rightarrow> bool"
  fired :: "(nat \<times> u32 \<times> u32) list"

definition TVN_BITS :: nat where [kdefs]: "TVN_BITS = 6"
definition TVR_BITS :: nat where [kdefs]: "TVR_BITS = 8"
definition TVN_MASK :: u32 where [kdefs]: "TVN_MASK = 63"
definition TVR_MASK :: u32 where [kdefs]: "TVR_MASK = 255"

definition init_timervecs :: timer_base where
  "init_timervecs = \<lparr>tvec = (\<lambda>n i. []), tindex = (\<lambda>n. 0), run_list = None, timer_jiffies = 0, texpires = (\<lambda>t. 0),
     tlinked = (\<lambda>t. False), fired = []\<rparr>"

definition timer_slot :: "timer_base \<Rightarrow> u32 \<Rightarrow> nat \<times> nat" where
  "timer_slot st expires =
     (let idx = expires - timer_jiffies st in
      if idx < 256 then (0, unat (expires AND TVR_MASK))
      else if idx < push_bit (TVR_BITS + TVN_BITS) 1 then (1, unat (drop_bit TVR_BITS expires AND TVN_MASK))
      else if idx < push_bit (TVR_BITS + 2 * TVN_BITS) 1 then (2, unat (drop_bit (TVR_BITS + TVN_BITS) expires AND TVN_MASK))
      else if idx < push_bit (TVR_BITS + 3 * TVN_BITS) 1 then (3, unat (drop_bit (TVR_BITS + 2 * TVN_BITS) expires AND TVN_MASK))
      else if sint idx < 0 then (0, tindex st 0)
      else (4, unat (drop_bit (TVR_BITS + 3 * TVN_BITS) expires AND TVN_MASK)))"

text \<open>Timers are appended: \<open>list_add(&timer->list, vec->prev)\<close>.\<close>

definition internal_add_timer :: "nat \<Rightarrow> timer_base \<Rightarrow> timer_base" where
  "internal_add_timer t st =
     (let st = st\<lparr>tlinked := (tlinked st)(t := True)\<rparr> in
      case run_list st of
        Some q \<Rightarrow> st\<lparr>run_list := Some (q @ [t])\<rparr>
      | None \<Rightarrow>
          (case timer_slot st (texpires st t) of
             (n, i) \<Rightarrow> st\<lparr>tvec := (tvec st)(n := (tvec st n)(i := tvec st n i @ [t]))\<rparr>))"

definition add_timer :: "nat \<Rightarrow> timer_base \<Rightarrow> timer_base" where
  "add_timer t st = (if tlinked st t then st else internal_add_timer t st)"

definition list_del_timer :: "nat \<Rightarrow> timer_base \<Rightarrow> timer_base" where
  "list_del_timer t st = st\<lparr>tvec := (\<lambda>n i. remove1 t (tvec st n i)), run_list := map_option (remove1 t) (run_list st)\<rparr>"

definition detach_timer :: "nat \<Rightarrow> timer_base \<Rightarrow> bool \<times> timer_base" where
  "detach_timer t st = (if \<not> tlinked st t then (False, st) else (True, list_del_timer t st))"

definition mod_timer :: "nat \<Rightarrow> u32 \<Rightarrow> timer_base \<Rightarrow> bool \<times> timer_base" where
  "mod_timer t e st =
     (let st = st\<lparr>texpires := (texpires st)(t := e)\<rparr>;
          (ret, st) = detach_timer t st
      in (ret, internal_add_timer t st))"

definition del_timer :: "nat \<Rightarrow> timer_base \<Rightarrow> bool \<times> timer_base" where
  "del_timer t st = (let (ret, st) = detach_timer t st in (ret, st\<lparr>tlinked := (tlinked st)(t := False)\<rparr>))"

text \<open>The loop takes all timers off the list that was there at the start; they go to finer vectors.\<close>

definition cascade_timers :: "nat \<Rightarrow> timer_base \<Rightarrow> timer_base" where
  "cascade_timers n st =
     (let i = tindex st n;
          st = fold (\<lambda>t st. internal_add_timer t (list_del_timer t st)) (tvec st n i) st
      in st\<lparr>tvec := (tvec st)(n := (tvec st n)(i := [])), tindex := (tindex st)(n := (i + 1) mod 64)\<rparr>)"

definition NOOF_TVECS :: nat where [kdefs]: "NOOF_TVECS = 5"

function cascade_loop :: "nat \<Rightarrow> timer_base \<Rightarrow> timer_base" where
  "cascade_loop n st =
     (let st = cascade_timers n st in
      if tindex st n = 1 \<and> n + 1 < NOOF_TVECS then cascade_loop (n + 1) st else st)"
  by pat_completeness auto
termination by (relation "measure (\<lambda>(n, st). NOOF_TVECS - n)") auto

declare cascade_loop.simps [simp del]

text \<open>What a timer function may do.  A caller of \<open>add_timer\<close> sets \<open>expires\<close> before, but not of a timer that is pending.\<close>

datatype timer_op = Add nat u32 | Mod nat u32 | Del nat

fun do_op :: "timer_op \<Rightarrow> timer_base \<Rightarrow> timer_base" where
  "do_op (Add t e) st = (if tlinked st t then add_timer t st else add_timer t (st\<lparr>texpires := (texpires st)(t := e)\<rparr>))"
| "do_op (Mod t e) st = snd (mod_timer t e st)"
| "do_op (Del t) st = snd (del_timer t st)"

text \<open>The code from the label \<open>repeat\<close> on: run the timers of the current list until there are none.\<close>

partial_function (option) run_current :: "(timer_base \<Rightarrow> nat \<Rightarrow> timer_op list) \<Rightarrow> timer_base \<Rightarrow> timer_base option" where
  "run_current fn st =
     (case tvec st 0 (tindex st 0) of
        [] \<Rightarrow> Some st
      | t # _ \<Rightarrow>
          let st = snd (detach_timer t st);
              st = st\<lparr>tlinked := (tlinked st)(t := False), fired := fired st @ [(t, timer_jiffies st, texpires st t)]\<rparr>;
              st = fold do_op (fn st t) st
          in run_current fn st)"

definition run_tick :: "(timer_base \<Rightarrow> nat \<Rightarrow> timer_op list) \<Rightarrow> timer_base \<Rightarrow> timer_base option" where
  "run_tick fn st = do {
     let st = (if tindex st 0 = 0 then cascade_loop 1 st else st);
     st \<leftarrow> run_current fn (st\<lparr>run_list := Some []\<rparr>);
     let queued = (case run_list st of None \<Rightarrow> [] | Some q \<Rightarrow> q);
     let st = st\<lparr>run_list := None, timer_jiffies := timer_jiffies st + 1, tindex := (tindex st)(0 := (tindex st 0 + 1) mod 256)\<rparr>;
     Some (fold internal_add_timer queued st) }"

partial_function (option) run_timer_list :: "(timer_base \<Rightarrow> nat \<Rightarrow> timer_op list) \<Rightarrow> u32 \<Rightarrow> timer_base \<Rightarrow> timer_base option" where
  "run_timer_list fn jiffies st =
     (if 0 \<le> sint (jiffies - timer_jiffies st) then run_tick fn st \<bind> run_timer_list fn jiffies else Some st)"

declare run_timer_list.simps [code] run_current.simps [code]

subsection \<open>Where a timer is put\<close>

text \<open>
  The clock is followed as an integer \<open>T\<close> with \<open>word_of_int T = timer_jiffies\<close>, so that it does not wrap around;
  \<open>due T st t\<close> is the tick on which timer \<open>t\<close> expires: at most \<open>2 ^ 31\<close> away in the past or the future.  A list of vector \<open>n\<close>,
  counted from 0, holds the timers of \<open>gran n\<close> ticks.
\<close>

definition due :: "int \<Rightarrow> timer_base \<Rightarrow> nat \<Rightarrow> int" where
  "due T st t = T + sint (texpires st t - timer_jiffies st)"

definition gran :: "nat \<Rightarrow> int" where
  "gran n = 2 ^ (2 + 6 * n)"

lemma gran_simps [simp]:
  "gran (Suc 0) = 256" "gran 2 = 16384" "gran 3 = 1048576" "gran 4 = 67108864"
  by (simp_all add: gran_def)

lemma gran_Suc: "gran (Suc n) = 64 * gran n"
  by (simp add: gran_def power_add)

lemma gran_pos [simp]: "0 < gran n" "gran n \<noteq> 0"
  by (simp_all add: gran_def)

lemma gran_dvd: "m \<le> n \<Longrightarrow> gran m dvd gran n"
  by (simp add: gran_def le_imp_power_dvd)

lemma gran_ge: "1 \<le> n \<Longrightarrow> 256 dvd gran n"
  using gran_dvd [of 1 n] by simp

lemma sint_uint_cases32:
  fixes w :: u32
  shows "sint w = (if uint w < 2 ^ 31 then uint w else uint w - 2 ^ 32)"
proof -
  have b: "uint w < 2 ^ 32" "0 \<le> uint w" using uint_lt2p [of w] by simp_all
  have "sint w = (uint w + 2 ^ 31) mod 2 ^ 32 - 2 ^ 31"
    by (simp add: sint_uint signed_take_bit_eq_take_bit_shift take_bit_eq_mod add.commute)
  also have "\<dots> = (if uint w < 2 ^ 31 then uint w else uint w - 2 ^ 32)"
  proof (cases "uint w < 2 ^ 31")
    case True
    then have "(uint w + 2 ^ 31) mod 2 ^ 32 = uint w + 2 ^ 31" using b by (intro mod_pos_pos_trivial) auto
    then show ?thesis using True by simp
  next
    case False
    have "(uint w + 2 ^ 31) mod 2 ^ 32 = (uint w - 2 ^ 31 + 2 ^ 32) mod 2 ^ 32" by (simp add: algebra_simps)
    also have "\<dots> = (uint w - 2 ^ 31) mod 2 ^ 32" by (simp only: mod_add_self2)
    also have "\<dots> = uint w - 2 ^ 31" using b False by (intro mod_pos_pos_trivial) auto
    finally show ?thesis using False by simp
  qed
  finally show ?thesis .
qed

lemma slot_bits:
  assumes "k + 6 \<le> 32"
  shows "unat (drop_bit k (word_of_int a :: u32) AND TVN_MASK) = nat (a div 2 ^ k mod 64)"
proof -
  have m: "TVN_MASK = mask 6" by (simp add: TVN_MASK_def mask_eq_exp_minus_1)
  have "uint (drop_bit k (word_of_int a :: u32) AND TVN_MASK) = take_bit 6 (drop_bit k (take_bit 32 a))"
    unfolding m by (simp add: take_bit_eq_mask [symmetric] unsigned_take_bit_eq unsigned_drop_bit_eq uint_word_of_int_eq)
  also have "\<dots> = take_bit 6 (drop_bit k a)"
    using assms by (simp add: drop_bit_take_bit min_absorb1)
  finally show ?thesis by (simp add: unat_eq_nat_uint take_bit_eq_mod drop_bit_eq_div)
qed

lemma slot_bits0: "unat ((word_of_int a :: u32) AND TVR_MASK) = nat (a mod 256)"
proof -
  have m: "TVR_MASK = mask 8" by (simp add: TVR_MASK_def mask_eq_exp_minus_1)
  have "uint ((word_of_int a :: u32) AND TVR_MASK) = take_bit 8 (take_bit 32 a)"
    unfolding m by (simp add: take_bit_eq_mask [symmetric] unsigned_take_bit_eq uint_word_of_int_eq)
  then show ?thesis by (simp add: unat_eq_nat_uint) (simp add: take_bit_eq_mod)
qed

text \<open>The choice of the list, in terms of the distance \<open>s\<close> of the expiry.\<close>

lemma timer_slot_due:
  assumes T: "word_of_int T = timer_jiffies st"
    and s: "s = sint (e - timer_jiffies st)"
  shows "timer_slot st e =
    (if s < 0 then (0, tindex st 0)
     else if s < 256 then (0, nat ((T + s) mod 256))
     else if s < 16384 then (1, nat ((T + s) div gran 1 mod 64))
     else if s < 1048576 then (2, nat ((T + s) div gran 2 mod 64))
     else if s < 67108864 then (3, nat ((T + s) div gran 3 mod 64))
     else (4, nat ((T + s) div gran 4 mod 64)))"
proof -
  let ?i = "e - timer_jiffies st"
  have e: "e = word_of_int (T + s)"
    by (simp add: s T)
  have lt: "?i < word_of_int c \<longleftrightarrow> 0 \<le> s \<and> s < c" if "0 \<le> c" "c \<le> 2 ^ 31" for c
  proof -
    have c: "uint (word_of_int c :: u32) = c" using that by (simp add: uint_word_of_int)
    have "uint ?i < 2 ^ 32" "0 \<le> uint ?i" using uint_lt2p [of ?i] by simp_all
    then show ?thesis using that unfolding word_less_def c s sint_uint_cases32 [of ?i] by auto
  qed
  have l: "?i < 256 \<longleftrightarrow> 0 \<le> s \<and> s < 256" "?i < push_bit 14 1 \<longleftrightarrow> 0 \<le> s \<and> s < 16384"
    "?i < push_bit 20 1 \<longleftrightarrow> 0 \<le> s \<and> s < 1048576" "?i < push_bit 26 1 \<longleftrightarrow> 0 \<le> s \<and> s < 67108864"
    using lt [of 256] lt [of 16384] lt [of 1048576] lt [of 67108864] by simp_all
  have k: "TVR_BITS + TVN_BITS = 14" "TVR_BITS + 2 * TVN_BITS = 20" "TVR_BITS + 3 * TVN_BITS = 26"
    by (simp_all add: TVR_BITS_def TVN_BITS_def)
  have b: "unat (drop_bit TVR_BITS e AND TVN_MASK) = nat ((T + s) div 2 ^ TVR_BITS mod 64)"
    "unat (drop_bit 14 e AND TVN_MASK) = nat ((T + s) div 2 ^ 14 mod 64)"
    "unat (drop_bit 20 e AND TVN_MASK) = nat ((T + s) div 2 ^ 20 mod 64)"
    "unat (drop_bit 26 e AND TVN_MASK) = nat ((T + s) div 2 ^ 26 mod 64)"
    "unat (e AND TVR_MASK) = nat ((T + s) mod 256)"
    unfolding e by (rule slot_bits slot_bits0; simp add: TVR_BITS_def)+
  have "timer_slot st e =
    (if 0 \<le> s \<and> s < 256 then (0, nat ((T + s) mod 256))
     else if 0 \<le> s \<and> s < 16384 then (1, nat ((T + s) div 2 ^ TVR_BITS mod 64))
     else if 0 \<le> s \<and> s < 1048576 then (2, nat ((T + s) div 2 ^ 14 mod 64))
     else if 0 \<le> s \<and> s < 67108864 then (3, nat ((T + s) div 2 ^ 20 mod 64))
     else if s < 0 then (0, tindex st 0)
     else (4, nat ((T + s) div 2 ^ 26 mod 64)))"
    unfolding timer_slot_def Let_def k l s [symmetric] b by (rule refl)
  then show ?thesis by (simp add: gran_def TVR_BITS_def)
qed

subsection \<open>The invariant of the wheel\<close>

text \<open>
  Every timer that is linked has one home: a list of a vector, the queue of \<open>run_timer_list\<close>, or the hands of a function
  that has unlinked it and is about to link it again.
\<close>

datatype home = InVec nat nat | Queued | Moving

definition queue :: "timer_base \<Rightarrow> nat list" where
  "queue st = (case run_list st of None \<Rightarrow> [] | Some q \<Rightarrow> q)"

definition homed :: "(nat \<rightharpoonup> home) \<Rightarrow> timer_base \<Rightarrow> bool" where
  "homed h st \<longleftrightarrow>
     (\<forall>n i. distinct (tvec st n i) \<and> set (tvec st n i) = {t. h t = Some (InVec n i)}) \<and>
     distinct (queue st) \<and> set (queue st) = {t. h t = Some Queued} \<and>
     (\<forall>t. tlinked st t \<longleftrightarrow> h t \<noteq> None)"

text \<open>
  Vector \<open>n > 0\<close> has been distributed up to, and without, the list of the ticks from \<open>C n * gran n\<close> on.  The timers of the first vector that expire
  in the past wait in the current list.
\<close>

definition placed :: "int \<Rightarrow> (nat \<Rightarrow> int) \<Rightarrow> nat \<Rightarrow> nat \<Rightarrow> int \<Rightarrow> bool" where
  "placed T C n i a \<longleftrightarrow> n \<le> 4 \<and>
     (if n = 0 then T \<le> a \<and> a < T + 256 \<and> i = nat (a mod 256) \<or> a < T \<and> i = nat (T mod 256)
      else C n \<le> a div gran n \<and> a div gran n < C n + 64 \<and> i = nat (a div gran n mod 64))"

definition clock_ok :: "int \<Rightarrow> (nat \<Rightarrow> int) \<Rightarrow> timer_base \<Rightarrow> bool" where
  "clock_ok T C st \<longleftrightarrow>
     word_of_int T = timer_jiffies st \<and> tindex st 0 = nat (T mod 256) \<and>
     (\<forall>n\<in>{1..4}. (C n - 1) * gran n \<le> T \<and> T \<le> C n * gran n \<and> tindex st n = nat (C n mod 64))"

definition wheel :: "int \<Rightarrow> (nat \<Rightarrow> int) \<Rightarrow> (nat \<rightharpoonup> home) \<Rightarrow> timer_base \<Rightarrow> bool" where
  "wheel T C h st \<longleftrightarrow> homed h st \<and> clock_ok T C st \<and>
     (\<forall>t n i. h t = Some (InVec n i) \<longrightarrow> placed T C n i (due T st t))"

lemma wheelI:
  "homed h st \<Longrightarrow> clock_ok T C st \<Longrightarrow> (\<And>t n i. h t = Some (InVec n i) \<Longrightarrow> placed T C n i (due T st t)) \<Longrightarrow>
   wheel T C h st"
  by (simp add: wheel_def)

lemma wheelD:
  assumes "wheel T C h st"
  shows "homed h st" "clock_ok T C st" "h t = Some (InVec n i) \<Longrightarrow> placed T C n i (due T st t)"
  using assms by (auto simp: wheel_def)

lemma homedD:
  assumes "homed h st"
  shows "distinct (tvec st n i)" "set (tvec st n i) = {t. h t = Some (InVec n i)}"
    "distinct (queue st)" "set (queue st) = {t. h t = Some Queued}" "tlinked st t \<longleftrightarrow> h t \<noteq> None"
  using assms by (auto simp: homed_def)

lemma int_div_bounds:
  fixes g :: int
  assumes "0 < g"
  shows "c \<le> a div g \<longleftrightarrow> c * g \<le> a" "a div g < c \<longleftrightarrow> a < c * g"
proof -
  have "c * g \<le> a" if "c \<le> a div g"
  proof -
    have "c * g \<le> a div g * g" using that assms by (intro mult_right_mono) auto
    also have "\<dots> \<le> a" using div_mult_mod_eq [of a g] pos_mod_sign [OF assms, of a] by linarith
    finally show ?thesis .
  qed
  moreover have "c \<le> a div g" if "c * g \<le> a"
    using zdiv_mono1 [OF that assms] assms by simp
  ultimately show le: "c \<le> a div g \<longleftrightarrow> c * g \<le> a" by blast
  then show "a div g < c \<longleftrightarrow> a < c * g" by (simp add: not_le [symmetric])
qed

lemma slot_level_placed:
  fixes C g T s :: int
  assumes c: "(C - 1) * g \<le> T" "T \<le> C * g" and g: "0 < g" and s: "g \<le> s" "s < 64 * g"
  shows "C \<le> (T + s) div g \<and> (T + s) div g < C + 64"
proof (intro conjI)
  have "C * g \<le> T + s" using c s by (simp add: algebra_simps)
  moreover have "T + s < (C + 64) * g" using c s by (simp add: algebra_simps)
  ultimately show "C \<le> (T + s) div g" "(T + s) div g < C + 64"
    using g by (simp_all add: int_div_bounds)
qed

text \<open>The list chosen for a timer fits its expiry.\<close>

lemma timer_slot_placed:
  assumes c: "clock_ok T C st" and slot: "timer_slot st (texpires st t) = (n, i)"
  shows "placed T C n i (due T st t)"
proof -
  define s where "s = sint (texpires st t - timer_jiffies st)"
  have due: "due T st t = T + s" by (simp add: due_def s_def)
  have T: "word_of_int T = timer_jiffies st" using c by (simp add: clock_ok_def)
  have s31: "s < 2 ^ 31" using sint_lt [of "texpires st t - timer_jiffies st"] by (simp add: s_def)
  have cl: "(C m - 1) * gran m \<le> T" "T \<le> C m * gran m" if "m \<in> {1..4}" for m
    using c that by (auto simp: clock_ok_def)
  have lvl: "C m \<le> (T + s) div gran m \<and> (T + s) div gran m < C m + 64" if "m \<in> {1..4}" "gran m \<le> s" "s < 64 * gran m" for m
    by (intro slot_level_placed cl that gran_pos)
  note sl = timer_slot_due [OF T s_def, unfolded slot]
  consider "s < 0" | "0 \<le> s" "s < 256" | "256 \<le> s" "s < 16384" | "16384 \<le> s" "s < 1048576"
    | "1048576 \<le> s" "s < 67108864" | "67108864 \<le> s" by linarith
  then show ?thesis
  proof cases
    case 1
    then have "n = 0" "i = nat (T mod 256)" using sl c by (auto simp: clock_ok_def)
    then show ?thesis using 1 by (simp add: placed_def due)
  next
    case 2
    then have "n = 0" "i = nat ((T + s) mod 256)" using sl by auto
    then show ?thesis using 2 by (simp add: placed_def due)
  next
    case 3
    then have "n = 1" "i = nat ((T + s) div gran 1 mod 64)" using sl by auto
    then show ?thesis using 3 lvl [of 1] by (simp add: placed_def due)
  next
    case 4
    then have "n = 2" "i = nat ((T + s) div gran 2 mod 64)" using sl by auto
    then show ?thesis using 4 lvl [of 2] by (simp add: placed_def due)
  next
    case 5
    then have "n = 3" "i = nat ((T + s) div gran 3 mod 64)" using sl by auto
    then show ?thesis using 5 lvl [of 3] by (simp add: placed_def due)
  next
    case 6
    then have "n = 4" "i = nat ((T + s) div gran 4 mod 64)" using sl by auto
    then show ?thesis using 6 s31 lvl [of 4] by (simp add: placed_def due)
  qed
qed

lemma timer_slot_finer:
  assumes "clock_ok T C st" "timer_slot st (texpires st t) = (m, i)" "T \<le> due T st t" "due T st t < T + gran n" "1 \<le> n" "n \<le> 4"
  shows "m < n"
proof -
  define s where "s = sint (texpires st t - timer_jiffies st)"
  have T: "word_of_int T = timer_jiffies st" using assms(1) by (simp add: clock_ok_def)
  have s: "0 \<le> s" "s < gran n" using assms(3,4) by (simp_all add: due_def s_def)
  from assms(5,6) consider "n = 1" | "n = 2" | "n = 3" | "n = 4" by linarith
  then show ?thesis
    using s timer_slot_due [OF T s_def, unfolded assms(2)] by cases (auto split: if_splits)
qed

subsection \<open>The operations keep the invariant\<close>

lemma list_del_fields [simp]:
  "tindex (list_del_timer t st) = tindex st" "timer_jiffies (list_del_timer t st) = timer_jiffies st"
  "texpires (list_del_timer t st) = texpires st" "tlinked (list_del_timer t st) = tlinked st"
  "fired (list_del_timer t st) = fired st" "queue (list_del_timer t st) = remove1 t (queue st)"
  "run_list (list_del_timer t st) = None \<longleftrightarrow> run_list st = None"
  by (auto simp: list_del_timer_def queue_def split: option.split)

lemma internal_add_fields [simp]:
  "tindex (internal_add_timer t st) = tindex st" "timer_jiffies (internal_add_timer t st) = timer_jiffies st"
  "texpires (internal_add_timer t st) = texpires st" "tlinked (internal_add_timer t st) = (tlinked st)(t := True)"
  "fired (internal_add_timer t st) = fired st"
  "run_list (internal_add_timer t st) = None \<longleftrightarrow> run_list st = None"
  by (auto simp: internal_add_timer_def Let_def split: option.split prod.split)

lemma clock_ok_cong:
  "timer_jiffies st' = timer_jiffies st \<Longrightarrow> tindex st' = tindex st \<Longrightarrow> clock_ok T C st' = clock_ok T C st"
  by (simp add: clock_ok_def)

lemma due_cong:
  "timer_jiffies st' = timer_jiffies st \<Longrightarrow> texpires st' t = texpires st t \<Longrightarrow> due T st' t = due T st t"
  by (simp add: due_def)

lemma list_del_wheel:
  assumes w: "wheel T C h st" and t: "h t \<noteq> None"
  shows "wheel T C (h(t := Some Moving)) (list_del_timer t st)"
proof (rule wheelI)
  note hd = homedD [OF wheelD(1) [OF w]]
  have "set (remove1 t (tvec st n i)) = {u. (h(t := Some Moving)) u = Some (InVec n i)}" for n i
    using hd(1,2) [of n i] by auto
  moreover have "set (remove1 t (queue st)) = {u. (h(t := Some Moving)) u = Some Queued}"
    using hd(3,4) by auto
  ultimately show "homed (h(t := Some Moving)) (list_del_timer t st)"
    using hd(1,3,5) t by (simp add: homed_def) (simp add: list_del_timer_def)
  show "clock_ok T C (list_del_timer t st)" using wheelD(2) [OF w] by (simp add: clock_ok_def)
  show "placed T C n i (due T (list_del_timer t st) u)" if "(h(t := Some Moving)) u = Some (InVec n i)" for u n i
    using wheelD(3) [OF w, of u n i] that by (auto simp: due_def split: if_splits)
qed

lemma unlink_wheel:
  assumes w: "wheel T C h st" and t: "h t = None \<or> h t = Some Moving"
  shows "wheel T C (h(t := None)) (st\<lparr>tlinked := (tlinked st)(t := False), fired := f\<rparr>)"
proof (rule wheelI)
  note hd = homedD [OF wheelD(1) [OF w]]
  have q: "queue (st\<lparr>tlinked := (tlinked st)(t := False), fired := f\<rparr>) = queue st" by (simp add: queue_def)
  show "homed (h(t := None)) (st\<lparr>tlinked := (tlinked st)(t := False), fired := f\<rparr>)"
    unfolding homed_def q using hd t by auto
  show "clock_ok T C (st\<lparr>tlinked := (tlinked st)(t := False), fired := f\<rparr>)" using wheelD(2) [OF w] by (simp add: clock_ok_def)
  show "placed T C n i (due T (st\<lparr>tlinked := (tlinked st)(t := False), fired := f\<rparr>) u)"
    if "(h(t := None)) u = Some (InVec n i)" for u n i
    using wheelD(3) [OF w, of u n i] that by (auto simp: due_def split: if_splits)
qed

lemma set_expires_wheel:
  assumes w: "wheel T C h st" and t: "\<And>n i. h t \<noteq> Some (InVec n i)"
  shows "wheel T C h (st\<lparr>texpires := (texpires st)(t := e)\<rparr>)"
proof (rule wheelI)
  note hd = homedD [OF wheelD(1) [OF w]]
  have q: "queue (st\<lparr>texpires := (texpires st)(t := e)\<rparr>) = queue st" by (simp add: queue_def)
  show "homed h (st\<lparr>texpires := (texpires st)(t := e)\<rparr>)" unfolding homed_def q using hd by auto
  show "clock_ok T C (st\<lparr>texpires := (texpires st)(t := e)\<rparr>)" using wheelD(2) [OF w] by (simp add: clock_ok_def)
  show "placed T C n i (due T (st\<lparr>texpires := (texpires st)(t := e)\<rparr>) u)" if "h u = Some (InVec n i)" for u n i
    using wheelD(3) [OF w, of u n i] that t by (auto simp: due_def)
qed

text \<open>A timer that is not in a list is put into the queue, when \<open>run_timer_list\<close> runs, or into the list for its expiry.\<close>

definition new_home :: "timer_base \<Rightarrow> nat \<Rightarrow> home" where
  "new_home st t = (if run_list st = None then (case timer_slot st (texpires st t) of (n, i) \<Rightarrow> InVec n i) else Queued)"

lemma internal_add_wheel:
  assumes w: "wheel T C h st" and t: "h t = None \<or> h t = Some Moving"
  shows "wheel T C (h(t := Some (new_home st t))) (internal_add_timer t st)"
proof (rule wheelI)
  note hd = homedD [OF wheelD(1) [OF w]]
  have fresh: "t \<notin> set (tvec st n i)" "t \<notin> set (queue st)" for n i using hd(2) [of n i] hd(4) t by auto
  have slot: "timer_slot (st\<lparr>tlinked := l\<rparr>) e = timer_slot st e" for l e by (simp add: timer_slot_def Let_def)
  show "homed (h(t := Some (new_home st t))) (internal_add_timer t st)"
  proof (cases "run_list st")
    case None
    obtain n i where s: "timer_slot st (texpires st t) = (n, i)" by fastforce
    show ?thesis
      using hd None fresh t
      by (auto simp: homed_def internal_add_timer_def new_home_def Let_def slot s queue_def fun_eq_iff)
  next
    case (Some q)
    show ?thesis
      using hd Some fresh t by (auto simp: homed_def internal_add_timer_def new_home_def Let_def queue_def)
  qed
  show "clock_ok T C (internal_add_timer t st)" using wheelD(2) [OF w] by (simp add: clock_ok_def)
  show "placed T C n i (due T (internal_add_timer t st) u)" if "(h(t := Some (new_home st t))) u = Some (InVec n i)" for u n i
  proof (cases "u = t")
    case True
    then have "timer_slot st (texpires st t) = (n, i)"
      using that by (simp add: new_home_def split: if_splits prod.splits)
    then show ?thesis using timer_slot_placed [OF wheelD(2) [OF w]] True by (simp add: due_def)
  next
    case False
    then show ?thesis using that wheelD(3) [OF w, of u n i] by (simp add: due_def)
  qed
qed

definition settled :: "(nat \<rightharpoonup> home) \<Rightarrow> bool" where
  "settled h \<longleftrightarrow> (\<forall>t. h t \<noteq> Some Moving)"

primrec op_timer :: "timer_op \<Rightarrow> nat" where
  "op_timer (Add t e) = t"
| "op_timer (Mod t e) = t"
| "op_timer (Del t) = t"

text \<open>
  What an operation on timer \<open>t\<close> does: the other timers keep their places and their expiries, and while \<open>run_timer_list\<close>
  runs nothing is put into a vector.
\<close>

definition others_kept :: "nat set \<Rightarrow> (nat \<rightharpoonup> home) \<Rightarrow> timer_base \<Rightarrow> (nat \<rightharpoonup> home) \<Rightarrow> timer_base \<Rightarrow> bool" where
  "others_kept U h st h' st' \<longleftrightarrow>
     (\<forall>u. u \<notin> U \<longrightarrow> h' u = h u \<and> texpires st' u = texpires st u) \<and>
     (run_list st' = None \<longleftrightarrow> run_list st = None) \<and>
     (run_list st \<noteq> None \<longrightarrow> (\<forall>u n i. h' u = Some (InVec n i) \<longrightarrow> h u = Some (InVec n i))) \<and>
     timer_jiffies st' = timer_jiffies st \<and> tindex st' = tindex st \<and> fired st' = fired st"

lemma add_timer_wheel:
  assumes w: "wheel T C h st" and s: "settled h"
  shows "\<exists>h'. wheel T C h' (do_op (Add t e) st) \<and> settled h' \<and> others_kept {t} h st h' (do_op (Add t e) st)"
proof (cases "tlinked st t")
  case True
  then show ?thesis using w s by (intro exI [of _ h]) (simp add: add_timer_def others_kept_def)
next
  case False
  let ?st = "st\<lparr>texpires := (texpires st)(t := e)\<rparr>"
  have n: "h t = None" using False homedD(5) [OF wheelD(1) [OF w]] by simp
  then have "wheel T C h ?st" by (intro set_expires_wheel [OF w]) simp
  then have "wheel T C (h(t := Some (new_home ?st t))) (do_op (Add t e) st)"
    using internal_add_wheel [of T C h ?st t] n False by (simp add: add_timer_def)
  moreover have "settled (h(t := Some (new_home ?st t)))" using s by (simp add: settled_def new_home_def split: prod.split)
  moreover have "others_kept {t} h st (h(t := Some (new_home ?st t))) (do_op (Add t e) st)"
    using False by (auto simp: others_kept_def add_timer_def new_home_def)
  ultimately show ?thesis by blast
qed

lemma list_del_set_expires: "list_del_timer t (st\<lparr>texpires := x\<rparr>) = (list_del_timer t st)\<lparr>texpires := x\<rparr>"
  by (rule timer_base.equality) (simp_all add: list_del_timer_def)

lemma mod_timer_wheel:
  assumes w: "wheel T C h st" and s: "settled h"
  shows "\<exists>h'. wheel T C h' (do_op (Mod t e) st) \<and> settled h' \<and> others_kept {t} h st h' (do_op (Mod t e) st)"
proof -
  define st1 where "st1 = (if tlinked st t then list_del_timer t st else st)"
  define h1 where "h1 = (if tlinked st t then h(t := Some Moving) else h)"
  let ?st = "st1\<lparr>texpires := (texpires st1)(t := e)\<rparr>"
  have l: "tlinked st t \<longleftrightarrow> h t \<noteq> None" using homedD(5) [OF wheelD(1) [OF w]] .
  have w1: "wheel T C h1 st1" and n: "h1 t = None \<or> h1 t = Some Moving"
    using w list_del_wheel [OF w] l by (auto simp: h1_def st1_def)
  have "wheel T C h1 ?st" by (rule set_expires_wheel [OF w1]) (use n in auto)
  then have "wheel T C (h1(t := Some (new_home ?st t))) (internal_add_timer t ?st)"
    using n by (rule internal_add_wheel)
  moreover have eq: "do_op (Mod t e) st = internal_add_timer t ?st"
    by (simp add: mod_timer_def detach_timer_def st1_def list_del_set_expires)
  moreover have "settled (h1(t := Some (new_home ?st t)))"
    using s by (simp add: settled_def new_home_def h1_def split: prod.split)
  moreover have "others_kept {t} h st (h1(t := Some (new_home ?st t))) (internal_add_timer t ?st)"
    by (auto simp: others_kept_def new_home_def st1_def h1_def split: if_splits)
  ultimately show ?thesis by metis
qed

lemma del_timer_wheel:
  assumes w: "wheel T C h st" and s: "settled h"
  shows "wheel T C (h(t := None)) (do_op (Del t) st)" "settled (h(t := None))"
    "others_kept {t} h st (h(t := None)) (do_op (Del t) st)"
proof -
  define st1 where "st1 = (if tlinked st t then list_del_timer t st else st)"
  define h1 where "h1 = (if tlinked st t then h(t := Some Moving) else h)"
  have l: "tlinked st t \<longleftrightarrow> h t \<noteq> None" using homedD(5) [OF wheelD(1) [OF w]] .
  have w1: "wheel T C h1 st1" and n: "h1 t = None \<or> h1 t = Some Moving"
    using w list_del_wheel [OF w] l by (auto simp: h1_def st1_def)
  have eq: "do_op (Del t) st = st1\<lparr>tlinked := (tlinked st1)(t := False), fired := fired st1\<rparr>"
    by (simp add: del_timer_def detach_timer_def st1_def)
  have h: "h1(t := None) = h(t := None)" by (auto simp: h1_def)
  show "wheel T C (h(t := None)) (do_op (Del t) st)" using unlink_wheel [OF w1 n, of "fired st1"] unfolding eq h .
  show "settled (h(t := None))" using s by (simp add: settled_def)
  show "others_kept {t} h st (h(t := None)) (do_op (Del t) st)"
    unfolding eq by (auto simp: others_kept_def st1_def split: if_splits)
qed

lemma do_op_wheel:
  assumes "wheel T C h st" "settled h"
  obtains h' where "wheel T C h' (do_op p st)" "settled h'" "others_kept {op_timer p} h st h' (do_op p st)"
proof (cases p)
  case (Add t e)
  then show ?thesis using add_timer_wheel [OF assms, of t e] that by auto
next
  case (Mod t e)
  then show ?thesis using mod_timer_wheel [OF assms, of t e] that by auto
next
  case (Del t)
  then show ?thesis using del_timer_wheel [OF assms, of t] that by simp
qed

lemma others_kept_trans:
  "others_kept U h st h1 st1 \<Longrightarrow> others_kept V h1 st1 h2 st2 \<Longrightarrow> others_kept (U \<union> V) h st h2 st2"
  by (auto simp: others_kept_def)

lemma do_ops_wheel:
  assumes "wheel T C h st" "settled h"
  shows "\<exists>h'. wheel T C h' (fold do_op ps st) \<and> settled h' \<and> others_kept (op_timer ` set ps) h st h' (fold do_op ps st)"
  using assms
proof (induction ps arbitrary: h st)
  case Nil
  then show ?case by (intro exI [of _ h]) (simp add: others_kept_def)
next
  case (Cons p ps)
  obtain h1 where h1: "wheel T C h1 (do_op p st)" "settled h1" "others_kept {op_timer p} h st h1 (do_op p st)"
    using do_op_wheel [OF Cons.prems] .
  from Cons.IH [OF h1(1,2)] obtain h2 where "wheel T C h2 (fold do_op ps (do_op p st))" "settled h2"
    "others_kept (op_timer ` set ps) h1 (do_op p st) h2 (fold do_op ps (do_op p st))" by blast
  then show ?case using others_kept_trans [OF h1(3)] by (intro exI [of _ h2]) simp
qed

subsection \<open>Cascading\<close>

lemma mod_window:
  fixes a :: int
  assumes "c \<le> a" "a < c + m" "a mod m = c mod m"
  shows "a = c"
proof -
  have "(a - c) mod m = a - c" using assms by (intro mod_pos_pos_trivial) auto
  moreover have "(a - c) mod m = 0" using assms(3) by (simp add: mod_eq_dvd_iff)
  ultimately show ?thesis by simp
qed

lemma nat_mod_succ:
  fixes c :: int
  assumes "0 < m"
  shows "(nat (c mod m) + 1) mod nat m = nat ((c + 1) mod m)"
proof -
  have "int ((nat (c mod m) + 1) mod nat m) = (c + 1) mod m"
    using assms by (simp add: zmod_int add.commute [of 1] mod_add_left_eq)
  then show ?thesis by linarith
qed

lemma placed_current:
  assumes "placed T C n (nat (C n mod 64)) a" "1 \<le> n" "C n * gran n = T"
  shows "T \<le> a \<and> a < T + gran n"
proof -
  have p: "C n \<le> a div gran n" "a div gran n < C n + 64" "a div gran n mod 64 = C n mod 64"
    using assms(1,2) by (auto simp: placed_def eq_nat_nat_iff)
  have "a div gran n = C n" using p by (rule mod_window)
  then have "C n \<le> a div gran n" "a div gran n < C n + 1" by simp_all
  then show ?thesis using assms(3) by (simp add: int_div_bounds algebra_simps)
qed

definition cascaded :: "(nat \<rightharpoonup> home) \<Rightarrow> timer_base \<Rightarrow> (nat \<rightharpoonup> home) \<Rightarrow> timer_base \<Rightarrow> bool" where
  "cascaded h st h' st' \<longleftrightarrow> dom h' = dom h \<and> settled h' \<and> run_list st' = None \<and>
     texpires st' = texpires st \<and> fired st' = fired st \<and> timer_jiffies st' = timer_jiffies st"

lemma cascade_one:
  assumes w: "wheel T C h st" and r: "run_list st = None" "settled h"
    and n: "1 \<le> n" "n \<le> 4" "C n * gran n = T" and t: "h t = Some (InVec n (nat (C n mod 64)))"
  obtains m i where "m < n" "wheel T C (h(t := Some (InVec m i))) (internal_add_timer t (list_del_timer t st))"
    "cascaded h st (h(t := Some (InVec m i))) (internal_add_timer t (list_del_timer t st))"
proof -
  let ?st = "list_del_timer t st"
  have w1: "wheel T C (h(t := Some Moving)) ?st" using t by (intro list_del_wheel [OF w]) simp
  obtain m i where s: "timer_slot ?st (texpires ?st t) = (m, i)" by fastforce
  have "T \<le> due T st t" "due T st t < T + gran n"
    using placed_current [OF wheelD(3) [OF w t] n(1,3)] by simp_all
  then have "m < n"
    using n(1,2) by (intro timer_slot_finer [OF wheelD(2) [OF w1] s]) (simp_all add: due_def)
  moreover have "new_home ?st t = InVec m i" using r s by (simp add: new_home_def)
  then have "wheel T C (h(t := Some (InVec m i))) (internal_add_timer t ?st)"
    using internal_add_wheel [OF w1, of t] by simp
  moreover have "cascaded h st (h(t := Some (InVec m i))) (internal_add_timer t ?st)"
    using t r by (auto simp: cascaded_def settled_def)
  ultimately show ?thesis by (rule that)
qed

lemma cascaded_trans:
  "cascaded h st h1 st1 \<Longrightarrow> cascaded h1 st1 h2 st2 \<Longrightarrow> cascaded h st h2 st2"
  by (simp add: cascaded_def)

lemma cascade_fold:
  assumes "wheel T C h st" "run_list st = None" "settled h" "1 \<le> n" "n \<le> 4" "C n * gran n = T" "distinct ts"
    and "\<forall>t\<in>set ts. h t = Some (InVec n (nat (C n mod 64)))"
  shows "\<exists>h'. wheel T C h' (fold (\<lambda>t st. internal_add_timer t (list_del_timer t st)) ts st) \<and>
     cascaded h st h' (fold (\<lambda>t st. internal_add_timer t (list_del_timer t st)) ts st) \<and>
     tindex (fold (\<lambda>t st. internal_add_timer t (list_del_timer t st)) ts st) = tindex st \<and>
     (\<forall>t. t \<notin> set ts \<longrightarrow> h' t = h t) \<and> (\<forall>t\<in>set ts. \<exists>m i. m < n \<and> h' t = Some (InVec m i))"
  using assms
proof (induction ts arbitrary: h st)
  case Nil
  then show ?case by (intro exI [of _ h]) (simp add: cascaded_def)
next
  case (Cons t ts)
  obtain m i where m: "m < n" "wheel T C (h(t := Some (InVec m i))) (internal_add_timer t (list_del_timer t st))"
    "cascaded h st (h(t := Some (InVec m i))) (internal_add_timer t (list_del_timer t st))"
    using cascade_one [OF Cons.prems(1-6), of t] Cons.prems(8) by auto
  let ?st = "internal_add_timer t (list_del_timer t st)" and ?h = "h(t := Some (InVec m i))"
  have rs: "run_list ?st = None" "settled ?h" using m(3) by (simp_all add: cascaded_def)
  have ts: "\<forall>u\<in>set ts. ?h u = Some (InVec n (nat (C n mod 64)))" using Cons.prems(7,8) by auto
  have "distinct ts" using Cons.prems(7) by simp
  from Cons.IH [OF m(2) rs Cons.prems(4-6) this ts]
  obtain h' where h': "wheel T C h' (fold (\<lambda>t st. internal_add_timer t (list_del_timer t st)) ts ?st)"
     "cascaded ?h ?st h' (fold (\<lambda>t st. internal_add_timer t (list_del_timer t st)) ts ?st)"
     "tindex (fold (\<lambda>t st. internal_add_timer t (list_del_timer t st)) ts ?st) = tindex ?st"
     "\<forall>u. u \<notin> set ts \<longrightarrow> h' u = ?h u" "\<forall>u\<in>set ts. \<exists>m i. m < n \<and> h' u = Some (InVec m i)"
    by blast
  have "h' t = Some (InVec m i)" using h'(4) Cons.prems(7) by simp
  then show ?case
    using h' m(1) cascaded_trans [OF m(3) h'(2)] by (intro exI [of _ h']) auto
qed

text \<open>One call of \<open>cascade_timers\<close> when the clock has come to the current list of the vector.\<close>

lemma cascade_timers_wheel:
  assumes w: "wheel T C h st" and r: "run_list st = None" "settled h" and n: "1 \<le> n" "n \<le> 4" "C n * gran n = T"
  shows "\<exists>h'. wheel T (C(n := C n + 1)) h' (cascade_timers n st) \<and> cascaded h st h' (cascade_timers n st)"
proof -
  let ?i = "nat (C n mod 64)"
  define st1 where "st1 = fold (\<lambda>t st. internal_add_timer t (list_del_timer t st)) (tvec st n ?i) st"
  have ti: "tindex st n = ?i" using wheelD(2) [OF w] n by (simp add: clock_ok_def)
  note hd = homedD [OF wheelD(1) [OF w]]
  obtain h' where h': "wheel T C h' st1" "cascaded h st h' st1" "tindex st1 = tindex st"
    "\<And>t. t \<notin> set (tvec st n ?i) \<Longrightarrow> h' t = h t" "\<forall>t\<in>set (tvec st n ?i). \<exists>m i. m < n \<and> h' t = Some (InVec m i)"
    using cascade_fold [OF w r n, of "tvec st n ?i"] hd(1,2) [of n ?i] unfolding st1_def by auto
  have none: "h' t \<noteq> Some (InVec n ?i)" for t
    using h'(4) [of t] h'(5) hd(2) [of n ?i] by (cases "t \<in> set (tvec st n ?i)") auto
  have "tvec st1 n ?i = []" using homedD(2) [OF wheelD(1) [OF h'(1)], of n ?i] none by simp
  then have "(tvec st1)(n := (tvec st1 n)(?i := [])) = tvec st1" by (simp add: fun_upd_idem)
  then have eq: "cascade_timers n st = st1\<lparr>tindex := (tindex st1)(n := (?i + 1) mod 64)\<rparr>"
    by (simp add: cascade_timers_def Let_def ti flip: st1_def)
  have "wheel T (C(n := C n + 1)) h' (cascade_timers n st)"
  proof (rule wheelI)
    show "homed h' (cascade_timers n st)"
      using wheelD(1) [OF h'(1)] unfolding eq by (simp add: homed_def queue_def)
    have "(?i + 1) mod 64 = nat ((C n + 1) mod 64)"
      using nat_mod_succ [of 64 "C n"] by simp
    then show "clock_ok T (C(n := C n + 1)) (cascade_timers n st)"
      using wheelD(2) [OF h'(1)] n unfolding eq by (auto simp: clock_ok_def algebra_simps less_imp_le)
    show "placed T (C(n := C n + 1)) m i (due T (cascade_timers n st) t)" if "h' t = Some (InVec m i)" for t m i
    proof -
      have p: "placed T C m i (due T st1 t)" using wheelD(3) [OF h'(1) that] .
      have "i \<noteq> ?i" if "m = n" using \<open>h' t = Some (InVec m i)\<close> none that by auto
      then have "due T st1 t div gran n \<noteq> C n" if "m = n" using p that n by (auto simp: placed_def)
      then show ?thesis using p by (auto simp: eq due_def placed_def)
    qed
  qed
  moreover have "cascaded h st h' (cascade_timers n st)" using h'(2) unfolding eq by (simp add: cascaded_def)
  ultimately show ?thesis by blast
qed

text \<open>
  Before the cascades of tick \<open>T\<close> the vectors are distributed up to \<open>T\<close>, after them the list that \<open>T\<close> belongs to is distributed as well.
\<close>

definition before_tick :: "int \<Rightarrow> (nat \<Rightarrow> int) \<Rightarrow> nat set \<Rightarrow> bool" where
  "before_tick T C N \<longleftrightarrow> (\<forall>m\<in>N. (C m - 1) * gran m < T \<and> T \<le> C m * gran m)"

definition after_tick :: "int \<Rightarrow> (nat \<Rightarrow> int) \<Rightarrow> nat set \<Rightarrow> bool" where
  "after_tick T C N \<longleftrightarrow> (\<forall>m\<in>N. (C m - 1) * gran m \<le> T \<and> T < C m * gran m)"

lemma after_before: "after_tick T C N \<Longrightarrow> before_tick (T + 1) C N"
  by (auto simp: after_tick_def before_tick_def)

lemma before_after:
  assumes "before_tick T C N" "\<not> g dvd T" "\<And>m. m \<in> N \<Longrightarrow> g dvd gran m"
  shows "after_tick T C N"
proof -
  have "T \<noteq> C m * gran m" if "m \<in> N" for m using assms(2) assms(3) [OF that] by auto
  then show ?thesis using assms(1) by (fastforce simp: before_tick_def after_tick_def)
qed

lemma before_tick_dvd:
  assumes "before_tick T C N" "m \<in> N" "gran m dvd T"
  shows "C m * gran m = T"
proof -
  obtain k where k: "T = k * gran m" using assms(3) by (metis dvd_def mult.commute)
  then have "C m - 1 < k" "k \<le> C m" using assms(1,2) by (auto simp: before_tick_def)
  then show ?thesis using k by simp
qed

lemma cascade_loop_wheel:
  assumes "wheel T C h st" "run_list st = None" "settled h" "1 \<le> n" "n \<le> 4" "gran n dvd T"
    "before_tick T C {n..4}" "after_tick T C {1..<n}"
  shows "\<exists>C' h'. wheel T C' h' (cascade_loop n st) \<and> cascaded h st h' (cascade_loop n st) \<and> after_tick T C' {1..4}"
  using assms
proof (induction "5 - n" arbitrary: n C h st rule: less_induct)
  case less
  have c: "C n * gran n = T" using less.prems(5-7) by (intro before_tick_dvd) auto
  obtain h1 where h1: "wheel T (C(n := C n + 1)) h1 (cascade_timers n st)" "cascaded h st h1 (cascade_timers n st)"
    using cascade_timers_wheel [OF less.prems(1-5) c] by blast
  let ?st = "cascade_timers n st" and ?C = "C(n := C n + 1)"
  have r1: "run_list ?st = None" "settled h1" using h1(2) by (simp_all add: cascaded_def)
  have a1: "after_tick T ?C {1..<n + 1}" using less.prems(8) c by (auto simp: after_tick_def algebra_simps)
  have b1: "before_tick T ?C {n + 1..4}" using less.prems(7) by (auto simp: before_tick_def)
  have ti: "tindex ?st n = nat ((C n + 1) mod 64)"
    using wheelD(2) [OF h1(1)] less.prems(4,5) by (simp add: clock_ok_def)
  have mod0: "tindex ?st n = 1 \<longleftrightarrow> gran (n + 1) dvd T"
  proof -
    have "tindex ?st n = 1 \<longleftrightarrow> (C n + 1) mod 64 = 1" unfolding ti by linarith
    also have "\<dots> \<longleftrightarrow> 64 dvd C n" using mod_eq_dvd_iff [of "C n + 1" 64 1] by simp
    also have "\<dots> \<longleftrightarrow> 64 * gran n dvd C n * gran n" by simp
    finally show ?thesis by (simp add: c gran_Suc)
  qed
  show ?case
  proof (cases "tindex ?st n = 1 \<and> n + 1 < NOOF_TVECS")
    case True
    then have "n < 4" by (simp add: NOOF_TVECS_def)
    then have n: "1 \<le> n + 1" "n + 1 \<le> 4" "5 - (n + 1) < 5 - n" by linarith+
    have "gran (n + 1) dvd T" using True mod0 by simp
    from less.hyps [OF n(3) h1(1) r1 n(1,2) this b1 a1] obtain C' h' where
      h': "wheel T C' h' (cascade_loop (n + 1) ?st)" "cascaded h1 ?st h' (cascade_loop (n + 1) ?st)" "after_tick T C' {1..4}"
      by blast
    moreover have "cascade_loop n st = cascade_loop (n + 1) ?st" using True by (subst cascade_loop.simps) (simp add: Let_def)
    ultimately show ?thesis using cascaded_trans [OF h1(2) h'(2)] by (intro exI [of _ C'] exI [of _ h']) simp
  next
    case False
    have eq: "cascade_loop n st = ?st" using False by (subst cascade_loop.simps) (auto simp: Let_def)
    have "after_tick T ?C {n + 1..4}"
    proof (cases "n = 4")
      case False
      with \<open>\<not> (tindex ?st n = 1 \<and> _)\<close> less.prems(5) have "\<not> gran (n + 1) dvd T" unfolding mod0 by (auto simp: NOOF_TVECS_def)
      then show ?thesis using gran_dvd by (intro before_after [OF b1]) auto
    qed (simp add: after_tick_def)
    then have "after_tick T ?C {1..4}" using a1 by (force simp: after_tick_def)
    then show ?thesis using h1 unfolding eq by (intro exI [of _ ?C] exI [of _ h1]) simp
  qed
qed

lemma cascades_wheel:
  assumes w: "wheel T C h st" and r: "run_list st = None" "settled h" and b: "before_tick T C {1..4}"
  defines "st1 \<equiv> (if tindex st 0 = 0 then cascade_loop 1 st else st)"
  obtains C' h' where "wheel T C' h' st1" "cascaded h st h' st1" "after_tick T C' {1..4}"
proof -
  have ti: "tindex st 0 = 0 \<longleftrightarrow> 256 dvd T"
    using wheelD(2) [OF w] pos_mod_sign [of 256 T] by (auto simp: clock_ok_def dvd_eq_mod_eq_0)
  show ?thesis
  proof (cases "tindex st 0 = 0")
    case True
    have "\<exists>C' h'. wheel T C' h' (cascade_loop 1 st) \<and> cascaded h st h' (cascade_loop 1 st) \<and> after_tick T C' {1..4}"
      using True ti b by (intro cascade_loop_wheel [OF w r]) (auto simp: after_tick_def)
    then show ?thesis using that True by (auto simp: st1_def)
  next
    case False
    have "after_tick T C {1..4}" using False ti gran_ge by (intro before_after [OF b, of 256]) auto
    then show ?thesis using that [of C h] w r False by (simp add: st1_def cascaded_def)
  qed
qed

subsection \<open>One tick of the clock\<close>

text \<open>\<open>leaves fn t\<close>: no timer function adds, modifies or deletes timer \<open>t\<close>.\<close>

definition leaves :: "(timer_base \<Rightarrow> nat \<Rightarrow> timer_op list) \<Rightarrow> nat \<Rightarrow> bool" where
  "leaves fn t \<longleftrightarrow> (\<forall>st u. t \<notin> op_timer ` set (fn st u))"

abbreviation calls_of :: "nat \<Rightarrow> (nat \<times> u32 \<times> u32) list \<Rightarrow> (nat \<times> u32 \<times> u32) list" where
  "calls_of t xs \<equiv> filter (\<lambda>x. fst x = t) xs"

definition in_time :: "(nat \<times> u32 \<times> u32) list \<Rightarrow> bool" where
  "in_time xs \<longleftrightarrow> (\<forall>(t, j, e)\<in>set xs. sint (e - j) \<le> 0)"

text \<open>The effect of the calls of a tick: the timers of the current list, and no others, are called.\<close>

definition ran :: "(timer_base \<Rightarrow> nat \<Rightarrow> timer_op list) \<Rightarrow> (nat \<rightharpoonup> home) \<Rightarrow> timer_base \<Rightarrow> (nat \<rightharpoonup> home) \<Rightarrow> timer_base \<Rightarrow> bool" where
  "ran fn h st h' st' \<longleftrightarrow>
     settled h' \<and> run_list st' \<noteq> None \<and> timer_jiffies st' = timer_jiffies st \<and> tindex st' = tindex st \<and>
     (\<forall>u. h' u \<noteq> Some (InVec 0 (tindex st 0))) \<and>
     (\<exists>new. fired st' = fired st @ new \<and> in_time new \<and>
        (\<forall>t. leaves fn t \<longrightarrow> texpires st' t = texpires st t \<and>
           (if h t = Some (InVec 0 (tindex st 0))
            then h' t = None \<and> calls_of t new = [(t, timer_jiffies st, texpires st t)]
            else h' t = h t \<and> calls_of t new = [])))"

lemma current_due:
  assumes w: "wheel T C h st" and t: "h t = Some (InVec 0 (tindex st 0))"
  shows "due T st t \<le> T"
proof -
  have "tindex st 0 = nat (T mod 256)" using wheelD(2) [OF w] by (simp add: clock_ok_def)
  then have "due T st t < T \<or> T \<le> due T st t \<and> due T st t < T + 256 \<and> due T st t mod 256 = T mod 256"
    using wheelD(3) [OF w t] by (auto simp: placed_def eq_nat_nat_iff)
  then show ?thesis using mod_window [of T "due T st t" 256] by auto
qed

text \<open>The call of one timer, with all that its function does.\<close>

definition call_timer :: "(timer_base \<Rightarrow> nat \<Rightarrow> timer_op list) \<Rightarrow> nat \<Rightarrow> timer_base \<Rightarrow> timer_base" where
  "call_timer fn t st =
     (let st = snd (detach_timer t st);
          st = st\<lparr>tlinked := (tlinked st)(t := False), fired := fired st @ [(t, timer_jiffies st, texpires st t)]\<rparr>
      in fold do_op (fn st t) st)"

lemma run_current_simps:
  "run_current fn st =
     (case tvec st 0 (tindex st 0) of [] \<Rightarrow> Some st | t # _ \<Rightarrow> run_current fn (call_timer fn t st))"
  by (subst run_current.simps) (simp add: call_timer_def Let_def split: list.split)

lemma call_timer_wheel:
  assumes w: "wheel T C h st" and s: "settled h" and r: "run_list st \<noteq> None" and t: "h t = Some (InVec 0 (tindex st 0))"
  obtains h' where "wheel T C h' (call_timer fn t st)" "settled h'" "run_list (call_timer fn t st) \<noteq> None"
    "timer_jiffies (call_timer fn t st) = timer_jiffies st" "tindex (call_timer fn t st) = tindex st"
    "fired (call_timer fn t st) = fired st @ [(t, timer_jiffies st, texpires st t)]"
    "\<And>u n i. h' u = Some (InVec n i) \<Longrightarrow> h u = Some (InVec n i) \<and> u \<noteq> t"
    "\<And>u. leaves fn u \<Longrightarrow> h' u = (h(t := None)) u \<and> texpires (call_timer fn t st) u = texpires st u"
proof -
  let ?st = "list_del_timer t st"
  define st1 where "st1 = ?st\<lparr>tlinked := (tlinked ?st)(t := False), fired := fired st @ [(t, timer_jiffies st, texpires st t)]\<rparr>"
  have l: "tlinked st t" using homedD(5) [OF wheelD(1) [OF w], of t] t by simp
  have eq: "call_timer fn t st = fold do_op (fn st1 t) st1"
    using l by (simp add: call_timer_def st1_def detach_timer_def Let_def)
  have w1: "wheel T C (h(t := None)) st1"
    using unlink_wheel [OF list_del_wheel [OF w, of t], of t] t by (simp add: st1_def)
  have s1: "settled (h(t := None))" using s by (simp add: settled_def)
  obtain h' where h': "wheel T C h' (call_timer fn t st)" "settled h'"
      "others_kept (op_timer ` set (fn st1 t)) (h(t := None)) st1 h' (call_timer fn t st)"
    using do_ops_wheel [OF w1 s1] unfolding eq by blast
  note k = h'(3) [unfolded others_kept_def]
  have r1: "run_list st1 \<noteq> None" using r by (simp add: st1_def)
  show ?thesis
  proof (rule that [OF h'(1,2)])
    show "run_list (call_timer fn t st) \<noteq> None" using k r1 by simp
    show "timer_jiffies (call_timer fn t st) = timer_jiffies st" "tindex (call_timer fn t st) = tindex st"
      "fired (call_timer fn t st) = fired st @ [(t, timer_jiffies st, texpires st t)]"
      using k by (simp_all add: st1_def)
    show "h u = Some (InVec n i) \<and> u \<noteq> t" if "h' u = Some (InVec n i)" for u n i
    proof -
      have "(h(t := None)) u = Some (InVec n i)" using k r1 that by blast
      then show ?thesis by (auto split: if_splits)
    qed
    show "h' u = (h(t := None)) u \<and> texpires (call_timer fn t st) u = texpires st u" if "leaves fn u" for u
    proof -
      have "u \<notin> op_timer ` set (fn st1 t)" using that by (simp add: leaves_def)
      then have "h' u = (h(t := None)) u \<and> texpires (call_timer fn t st) u = texpires st1 u" using k by blast
      then show ?thesis by (simp add: st1_def)
    qed
  qed
qed

lemma run_current_ran:
  assumes "wheel T C h st" "settled h" "run_list st \<noteq> None"
  shows "\<exists>st' h'. run_current fn st = Some st' \<and> wheel T C h' st' \<and> ran fn h st h' st'"
  using assms
proof (induction "length (tvec st 0 (tindex st 0))" arbitrary: st h rule: less_induct)
  case less
  let ?l = "tvec st 0 (tindex st 0)"
  note hd = homedD [OF wheelD(1) [OF less.prems(1)]]
  show ?case
  proof (cases ?l)
    case Nil
    then have "run_current fn st = Some st" by (simp add: run_current_simps)
    moreover have "h u \<noteq> Some (InVec 0 (tindex st 0))" for u using hd(2) [of 0 "tindex st 0"] Nil by auto
    ultimately show ?thesis using less.prems by (intro exI [of _ st] exI [of _ h]) (simp add: ran_def in_time_def)
  next
    case (Cons t ts)
    have t: "h t = Some (InVec 0 (tindex st 0))" using hd(2) [of 0 "tindex st 0"] Cons by auto
    let ?st = "call_timer fn t st"
    obtain h1 where h1: "wheel T C h1 ?st" "settled h1" "run_list ?st \<noteq> None" "timer_jiffies ?st = timer_jiffies st"
      "tindex ?st = tindex st" "fired ?st = fired st @ [(t, timer_jiffies st, texpires st t)]"
      "\<And>u n i. h1 u = Some (InVec n i) \<Longrightarrow> h u = Some (InVec n i) \<and> u \<noteq> t"
      "\<And>u. leaves fn u \<Longrightarrow> h1 u = (h(t := None)) u \<and> texpires ?st u = texpires st u"
      using call_timer_wheel [OF less.prems t] by blast
    note hd1 = homedD [OF wheelD(1) [OF h1(1)]]
    have "set (tvec ?st 0 (tindex ?st 0)) \<subseteq> set ts"
    proof
      fix u
      assume "u \<in> set (tvec ?st 0 (tindex ?st 0))"
      then have "h u = Some (InVec 0 (tindex st 0)) \<and> u \<noteq> t" using hd1(2) h1(5) by (intro h1(7)) simp
      then have "u \<in> set ?l" "u \<noteq> t" using hd(2) by simp_all
      then show "u \<in> set ts" using Cons by simp
    qed
    then have "card (set (tvec ?st 0 (tindex ?st 0))) \<le> card (set ts)" by (rule card_mono [OF finite_set])
    then have "length (tvec ?st 0 (tindex ?st 0)) < length ?l"
      using distinct_card [OF hd1(1)] distinct_card [of ts] hd(1) [of 0 "tindex st 0"] Cons
      by (metis distinct.simps(2) length_Cons less_Suc_eq_le)
    from less.hyps [OF this h1(1-3)] obtain st' h' where
      st': "run_current fn ?st = Some st'" "wheel T C h' st'" "ran fn h1 ?st h' st'" by blast
    from st'(3) obtain new where new: "fired st' = fired ?st @ new" "in_time new"
      "\<And>u. leaves fn u \<Longrightarrow> texpires st' u = texpires ?st u \<and>
           (if h1 u = Some (InVec 0 (tindex ?st 0))
            then h' u = None \<and> calls_of u new = [(u, timer_jiffies ?st, texpires ?st u)]
            else h' u = h1 u \<and> calls_of u new = [])"
      unfolding ran_def by blast
    have it: "in_time ((t, timer_jiffies st, texpires st t) # new)"
      using new(2) current_due [OF less.prems(1) t] by (auto simp: in_time_def due_def)
    have q: "texpires st' u = texpires st u \<and>
           (if h u = Some (InVec 0 (tindex st 0))
            then h' u = None \<and> calls_of u ((t, timer_jiffies st, texpires st t) # new) = [(u, timer_jiffies st, texpires st u)]
            else h' u = h u \<and> calls_of u ((t, timer_jiffies st, texpires st t) # new) = [])" if "leaves fn u" for u
      using new(3) [OF that] h1(8) [OF that] t h1(4,5) by (cases "u = t") (auto split: if_splits)
    have f: "fired st' = fired st @ (t, timer_jiffies st, texpires st t) # new" using new(1) h1(6) by simp
    have "ran fn h st h' st'"
      unfolding ran_def
    proof (intro conjI)
      show "\<exists>n. fired st' = fired st @ n \<and> in_time n \<and>
        (\<forall>t. leaves fn t \<longrightarrow> texpires st' t = texpires st t \<and>
           (if h t = Some (InVec 0 (tindex st 0)) then h' t = None \<and> calls_of t n = [(t, timer_jiffies st, texpires st t)]
            else h' t = h t \<and> calls_of t n = []))"
        by (intro exI [of _ "(t, timer_jiffies st, texpires st t) # new"] conjI f it allI impI q)
    qed (use st'(3) h1(4,5) in \<open>simp_all add: ran_def\<close>)
    moreover have "run_current fn st = Some st'" using st'(1) Cons by (simp add: run_current_simps [of fn st])
    ultimately show ?thesis using st'(2) by blast
  qed
qed

lemma due_current:
  assumes w: "wheel T C h st" and a: "after_tick T C {1..4}" and t: "h t = Some (InVec n i)" and d: "due T st t \<le> T"
  shows "n = 0 \<and> i = tindex st 0"
proof -
  have p: "placed T C n i (due T st t)" by (rule wheelD(3) [OF w t])
  have "n = 0"
  proof (rule ccontr)
    assume n: "n \<noteq> 0"
    then have "C n * gran n \<le> due T st t" using p by (simp add: placed_def int_div_bounds)
    moreover have "T < C n * gran n" using a p n by (auto simp: after_tick_def placed_def)
    ultimately show False using d by simp
  qed
  moreover have "tindex st 0 = nat (T mod 256)" using wheelD(2) [OF w] by (simp add: clock_ok_def)
  ultimately show ?thesis using p d by (auto simp: placed_def)
qed

definition advance :: "timer_base \<Rightarrow> timer_base" where
  "advance st = st\<lparr>run_list := None, timer_jiffies := timer_jiffies st + 1, tindex := (tindex st)(0 := (tindex st 0 + 1) mod 256)\<rparr>"

lemma sint_minus_one: "0 < sint x \<Longrightarrow> sint (x - 1) = sint x - 1" for x :: u32
  using sint_uint_cases32 [of x] sint_uint_cases32 [of "x - 1"] uint_lt2p [of x] uint_sub_if' [of x 1]
  by (auto split: if_splits)

lemma due_advance:
  assumes "T < due T st t"
  shows "due (T + 1) (advance st) t = due T st t"
  using assms sint_minus_one [of "texpires st t - timer_jiffies st"] by (simp add: due_def advance_def diff_diff_eq)

lemma advance_wheel:
  assumes w: "wheel T C h st" and a: "after_tick T C {1..4}" and e: "\<And>u. h u \<noteq> Some (InVec 0 (tindex st 0))"
  shows "wheel (T + 1) C (\<lambda>t. if h t = Some Queued then Some Moving else h t) (advance st)"
proof (rule wheelI)
  note hd = homedD [OF wheelD(1) [OF w]]
  have ti: "tindex st 0 = nat (T mod 256)" using wheelD(2) [OF w] by (simp add: clock_ok_def)
  show "homed (\<lambda>t. if h t = Some Queued then Some Moving else h t) (advance st)"
    using hd(1,2,5) by (auto simp: homed_def advance_def queue_def)
  have "(tindex st 0 + 1) mod 256 = nat ((T + 1) mod 256)" unfolding ti using nat_mod_succ [of 256 T] by simp
  then show "clock_ok (T + 1) C (advance st)"
    using wheelD(2) [OF w] a by (fastforce simp: clock_ok_def advance_def after_tick_def)
  show "placed (T + 1) C n i (due (T + 1) (advance st) t)"
    if "(if h t = Some Queued then Some Moving else h t) = Some (InVec n i)" for t n i
  proof -
    have t: "h t = Some (InVec n i)" using that by (auto split: if_splits)
    have "T < due T st t"
      using due_current [OF w a t] e [of t] t by fastforce
    then show ?thesis using wheelD(3) [OF w t] due_advance [of T st t] by (auto simp: placed_def)
  qed
qed

lemma requeue_wheel:
  assumes "wheel T C h st" "run_list st = None" "distinct q" "\<forall>t\<in>set q. h t = Some Moving"
  shows "\<exists>h'. wheel T C h' (fold internal_add_timer q st) \<and> run_list (fold internal_add_timer q st) = None \<and>
     (\<forall>t. t \<notin> set q \<longrightarrow> h' t = h t) \<and> (\<forall>t\<in>set q. \<exists>n i. h' t = Some (InVec n i)) \<and>
     texpires (fold internal_add_timer q st) = texpires st \<and> fired (fold internal_add_timer q st) = fired st \<and>
     timer_jiffies (fold internal_add_timer q st) = timer_jiffies st"
  using assms
proof (induction q arbitrary: h st)
  case Nil
  then show ?case by auto
next
  case (Cons t q)
  let ?h = "h(t := Some (new_home st t))" and ?st = "internal_add_timer t st"
  have w: "wheel T C ?h ?st" using Cons.prems by (intro internal_add_wheel) auto
  have r: "run_list ?st = None" "distinct q" "\<forall>u\<in>set q. ?h u = Some Moving" using Cons.prems by auto
  from Cons.IH [OF w r] obtain h' where h': "wheel T C h' (fold internal_add_timer q ?st)"
     "run_list (fold internal_add_timer q ?st) = None" "\<forall>u. u \<notin> set q \<longrightarrow> h' u = ?h u"
     "\<forall>u\<in>set q. \<exists>n i. h' u = Some (InVec n i)" "texpires (fold internal_add_timer q ?st) = texpires ?st"
     "fired (fold internal_add_timer q ?st) = fired ?st" "timer_jiffies (fold internal_add_timer q ?st) = timer_jiffies ?st"
    by blast
  have "\<exists>n i. h' t = Some (InVec n i)"
    using h'(3) Cons.prems(2,3) by (auto simp: new_home_def split: prod.split)
  then show ?case using h' by (intro exI [of _ h']) simp
qed

text \<open>The state between two calls: nothing is queued or being moved.\<close>

definition timers_ok :: "int \<Rightarrow> timer_base \<Rightarrow> bool" where
  "timers_ok T st \<longleftrightarrow> (\<exists>C h. wheel T C h st \<and> settled h \<and> run_list st = None \<and> before_tick T C {1..4})"

lemma linked_in_vec:
  assumes w: "wheel T C h st" and "settled h" "queue st = []" "h t \<noteq> None"
  obtains n i where "h t = Some (InVec n i)"
proof -
  have "h t \<noteq> Some Queued" using homedD(4) [OF wheelD(1) [OF w]] assms(3) by auto
  then show ?thesis using that assms(2,4) by (cases "h t"; cases "the (h t)") (auto simp: settled_def)
qed

text \<open>
  What a tick does to a timer that the timer functions leave alone: when its time has come it is called, once, and not linked
  any more; otherwise it is not called.
\<close>

definition tick_effect :: "int \<Rightarrow> timer_base \<Rightarrow> timer_base \<Rightarrow> (nat \<times> u32 \<times> u32) list \<Rightarrow> nat \<Rightarrow> bool" where
  "tick_effect T st st' new t \<longleftrightarrow>
     texpires st' t = texpires st t \<and>
     (if tlinked st t \<and> due T st t \<le> T
      then \<not> tlinked st' t \<and> calls_of t new = [(t, timer_jiffies st, texpires st t)]
      else tlinked st' t = tlinked st t \<and> (tlinked st t \<longrightarrow> due (T + 1) st' t = due T st t) \<and> calls_of t new = [])"

lemma run_tick_ok:
  assumes "timers_ok T st"
  obtains st' new where "run_tick fn st = Some st'" "timers_ok (T + 1) st'" "timer_jiffies st' = timer_jiffies st + 1"
    "fired st' = fired st @ new" "in_time new" "\<And>t. leaves fn t \<Longrightarrow> tick_effect T st st' new t"
proof -
  obtain C h where w: "wheel T C h st" "settled h" "run_list st = None" "before_tick T C {1..4}"
    using assms by (auto simp: timers_ok_def)
  define st1 where "st1 = (if tindex st 0 = 0 then cascade_loop 1 st else st)"
  obtain C1 h1 where h1: "wheel T C1 h1 st1" "cascaded h st h1 st1" "after_tick T C1 {1..4}"
    using cascades_wheel [OF w(1,3,2,4)] unfolding st1_def by blast
  note ca = h1(2) [unfolded cascaded_def]
  have q1: "queue st1 = []" using ca by (simp add: queue_def)
  define st2 where "st2 = st1\<lparr>run_list := Some []\<rparr>"
  have q2: "queue st2 = queue st1" unfolding q1 by (simp add: queue_def st2_def)
  have "wheel T C1 h1 st2"
    using h1(1) unfolding wheel_def homed_def clock_ok_def due_def q2 by (simp add: st2_def)
  then obtain st3 h3 where r3: "run_current fn st2 = Some st3" and h3: "wheel T C1 h3 st3" "ran fn h1 st2 h3 st3"
    using run_current_ran [of T C1 h1 st2 fn] ca by (auto simp: st2_def)
  have ran: "settled h3" "timer_jiffies st3 = timer_jiffies st" "tindex st3 = tindex st1"
      "\<And>u. h3 u \<noteq> Some (InVec 0 (tindex st3 0))"
    using h3(2) ca by (simp_all add: ran_def st2_def)
  obtain new where new: "fired st3 = fired st @ new" "in_time new"
      "\<And>t. leaves fn t \<Longrightarrow> texpires st3 t = texpires st t \<and>
           (if h1 t = Some (InVec 0 (tindex st1 0)) then h3 t = None \<and> calls_of t new = [(t, timer_jiffies st, texpires st t)]
            else h3 t = h1 t \<and> calls_of t new = [])"
    using h3(2) ca by (auto simp: ran_def st2_def)
  let ?h = "\<lambda>t. if h3 t = Some Queued then Some Moving else h3 t"
  have w4: "wheel (T + 1) C1 ?h (advance st3)" by (rule advance_wheel [OF h3(1) h1(3) ran(4)])
  note hd3 = homedD [OF wheelD(1) [OF h3(1)]]
  define st' where "st' = fold internal_add_timer (queue st3) (advance st3)"
  have "run_list (advance st3) = None" "distinct (queue st3)" "\<forall>t\<in>set (queue st3). ?h t = Some Moving"
    using hd3 by (simp_all add: advance_def)
  from requeue_wheel [OF w4 this] obtain h' where h': "wheel (T + 1) C1 h' st'" "run_list st' = None"
     "\<forall>t. t \<notin> set (queue st3) \<longrightarrow> h' t = ?h t" "\<forall>t\<in>set (queue st3). \<exists>n i. h' t = Some (InVec n i)"
     "texpires st' = texpires (advance st3)" "fired st' = fired (advance st3)" "timer_jiffies st' = timer_jiffies (advance st3)"
    unfolding st'_def by blast
  have "settled h'"
    unfolding settled_def
  proof
    fix t
    show "h' t \<noteq> Some Moving"
      using h'(3,4) hd3(4) ran(1) by (cases "t \<in> set (queue st3)") (auto simp: settled_def)
  qed
  show ?thesis
  proof (rule that [of st' new])
    show "run_tick fn st = Some st'"
      using r3 by (simp add: run_tick_def Let_def st'_def advance_def queue_def flip: st1_def st2_def)
    show "timers_ok (T + 1) st'"
      using h'(1,2) \<open>settled h'\<close> after_before [OF h1(3)] by (auto simp: timers_ok_def)
    show "timer_jiffies st' = timer_jiffies st + 1" "fired st' = fired st @ new" "in_time new"
      using h'(6,7) ran(2) new(1,2) by (simp_all add: advance_def)
    show "tick_effect T st st' new t" if t: "leaves fn t" for t
    proof -
      note n = new(3) [OF t]
      have l: "tlinked st t \<longleftrightarrow> h1 t \<noteq> None" "tlinked st' t \<longleftrightarrow> h' t \<noteq> None"
        using homedD(5) [OF wheelD(1) [OF w(1)], of t] homedD(5) [OF wheelD(1) [OF h'(1)], of t] ca by auto
      have d1: "due T st1 t = due T st t" using ca by (simp add: due_def)
      have cur: "h1 t = Some (InVec 0 (tindex st1 0)) \<longleftrightarrow> tlinked st t \<and> due T st t \<le> T"
        using current_due [OF h1(1), of t] due_current [OF h1(1,3), of t] linked_in_vec [OF h1(1) _ q1, of t] ca l(1) d1
        by (metis option.distinct(1))
      have nq: "t \<notin> set (queue st3)"
        using n hd3(4) homedD(4) [OF wheelD(1) [OF h1(1)]] q1 by (auto split: if_splits)
      then have h't: "h' t \<noteq> None \<longleftrightarrow> h3 t \<noteq> None" using h'(3) by simp
      show ?thesis
      proof (cases "h1 t = Some (InVec 0 (tindex st1 0))")
        case True
        then show ?thesis using n cur l h't h'(5) by (simp add: tick_effect_def advance_def)
      next
        case False
        have "due (T + 1) st' t = due T st t" if "tlinked st t"
        proof -
          have "T < due T st3 t" using False cur that n ran(2) by (simp add: due_def)
          then show ?thesis using due_advance [of T st3 t] h'(5,7) n ran(2) by (simp add: due_def)
        qed
        then show ?thesis using n False cur l h't h'(5) by (auto simp: tick_effect_def advance_def)
      qed
    qed
  qed
qed

subsection \<open>Running all ticks up to the present\<close>

definition run_effect :: "int \<Rightarrow> int \<Rightarrow> timer_base \<Rightarrow> timer_base \<Rightarrow> (nat \<times> u32 \<times> u32) list \<Rightarrow> nat \<Rightarrow> bool" where
  "run_effect T k st st' new t \<longleftrightarrow>
     texpires st' t = texpires st t \<and>
     (if tlinked st t \<and> 0 \<le> k \<and> due T st t \<le> T + k
      then \<not> tlinked st' t \<and> calls_of t new = [(t, if due T st t < T then timer_jiffies st else texpires st t, texpires st t)]
      else tlinked st' t = tlinked st t \<and> calls_of t new = [])"

lemma sint_zero32: "sint w = 0 \<Longrightarrow> w = 0" for w :: u32
  using sint_uint_cases32 [of w] uint_lt2p [of w] by (simp add: uint_0_iff split: if_splits)

lemma due_now: "due T st t = T \<Longrightarrow> timer_jiffies st = texpires st t"
  using sint_zero32 [of "texpires st t - timer_jiffies st"] by (simp add: due_def)

lemma tick_run_effect:
  assumes tick: "tick_effect T st st1 new1 t" and run: "run_effect (T + 1) (k - 1) st1 st' new2 t" and k: "0 \<le> k"
  shows "run_effect T k st st' (new1 @ new2) t"
proof (cases "tlinked st t \<and> due T st t \<le> T")
  case True
  then have "\<not> tlinked st1 t" "calls_of t new1 = [(t, timer_jiffies st, texpires st t)]" "texpires st1 t = texpires st t"
    using tick by (simp_all add: tick_effect_def)
  moreover from this have "\<not> tlinked st' t" "calls_of t new2 = []" "texpires st' t = texpires st1 t"
    using run by (simp_all add: run_effect_def)
  moreover have "timer_jiffies st = texpires st t" if "\<not> due T st t < T" using True that due_now [of T st t] by simp
  ultimately show ?thesis using True k by (auto simp: run_effect_def)
next
  case False
  then have t: "tlinked st1 t = tlinked st t" "calls_of t new1 = []" "texpires st1 t = texpires st t"
      "tlinked st t \<longrightarrow> due (T + 1) st1 t = due T st t"
    using tick by (auto simp: tick_effect_def)
  show ?thesis
    using False t run k unfolding run_effect_def by (auto split: if_splits)
qed

lemma run_timer_list_ok:
  assumes "timers_ok T st"
  shows "\<exists>st' new. run_timer_list fn j st = Some st' \<and> fired st' = fired st @ new \<and> in_time new \<and>
     (let k = sint (j - timer_jiffies st) in
      timers_ok (if 0 \<le> k then T + k + 1 else T) st' \<and>
      timer_jiffies st' = (if 0 \<le> k then j + 1 else timer_jiffies st) \<and>
      (\<forall>t. leaves fn t \<longrightarrow> run_effect T k st st' new t))"
  using assms
proof (induction "nat (sint (j - timer_jiffies st) + 1)" arbitrary: T st)
  case 0
  then have neg: "sint (j - timer_jiffies st) < 0" by simp
  then have "run_timer_list fn j st = Some st" by (subst run_timer_list.simps) simp
  then show ?case using 0 neg by (intro exI [of _ st] exI [of _ "[]"]) (auto simp: run_effect_def in_time_def)
next
  case (Suc m)
  let ?k = "sint (j - timer_jiffies st)"
  have k: "0 \<le> ?k" using Suc.hyps(2) by linarith
  obtain st1 new1 where tick: "run_tick fn st = Some st1" "timers_ok (T + 1) st1" "timer_jiffies st1 = timer_jiffies st + 1"
    "fired st1 = fired st @ new1" "in_time new1" "\<And>t. leaves fn t \<Longrightarrow> tick_effect T st st1 new1 t"
    using run_tick_ok [OF Suc.prems] by blast
  have k1: "sint (j - timer_jiffies st1) = ?k - 1"
  proof (cases "?k = 0")
    case True
    then have "j = timer_jiffies st" using sint_zero32 [of "j - timer_jiffies st"] by simp
    then show ?thesis unfolding tick(3) by simp
  next
    case False
    then show ?thesis using k sint_minus_one [of "j - timer_jiffies st"] unfolding tick(3) by (simp add: diff_diff_eq)
  qed
  then have "m = nat (sint (j - timer_jiffies st1) + 1)" using Suc.hyps(2) by linarith
  from Suc.hyps(1) [OF this tick(2)] obtain st' new2 where
    run: "run_timer_list fn j st1 = Some st'" "fired st' = fired st1 @ new2" "in_time new2"
      "timers_ok (if 0 \<le> ?k - 1 then T + 1 + (?k - 1) + 1 else T + 1) st'"
      "timer_jiffies st' = (if 0 \<le> ?k - 1 then j + 1 else timer_jiffies st1)"
      "\<forall>t. leaves fn t \<longrightarrow> run_effect (T + 1) (?k - 1) st1 st' new2 t"
    unfolding k1 Let_def by blast
  have "run_timer_list fn j st = Some st'" using tick(1) run(1) k by (subst run_timer_list.simps) simp
  moreover have "timers_ok (T + ?k + 1) st'" using run(4) k by (cases "?k = 0") auto
  moreover have "timer_jiffies st' = j + 1" using run(5) k tick(3) sint_zero32 [of "j - timer_jiffies st"] by (cases "?k = 0") auto
  moreover have "run_effect T ?k st st' (new1 @ new2) t" if "leaves fn t" for t
    using tick_run_effect [OF tick(6) [OF that] run(6) [rule_format, OF that] k] .
  moreover have "in_time (new1 @ new2)" using tick(5) run(3) by (auto simp: in_time_def)
  ultimately show ?case using tick(4) run(2) k by (intro exI [of _ st'] exI [of _ "new1 @ new2"]) simp
qed

subsection \<open>The timers as a state machine\<close>

inductive timer_step :: "timer_base \<Rightarrow> timer_base \<Rightarrow> bool" where
  operation: "timer_step st (do_op p st)"
| timer_bh: "run_timer_list fn jiffies st = Some st' \<Longrightarrow> timer_step st st'"

definition timers_inv :: "timer_base \<Rightarrow> bool" where
  "timers_inv st \<longleftrightarrow> (\<exists>T. timers_ok T st) \<and> in_time (fired st)"

lemma init_timers_ok: "timers_ok 0 init_timervecs"
  unfolding timers_ok_def
proof (intro exI conjI)
  show "wheel 0 (\<lambda>n. 0) Map.empty init_timervecs"
    by (rule wheelI) (simp_all add: homed_def queue_def clock_ok_def init_timervecs_def less_imp_le)
qed (simp_all add: settled_def before_tick_def init_timervecs_def)

lemma op_timers_ok:
  assumes "timers_ok T st"
  shows "timers_ok T (do_op p st)" "fired (do_op p st) = fired st" "timer_jiffies (do_op p st) = timer_jiffies st"
    "u \<noteq> op_timer p \<Longrightarrow> tlinked (do_op p st) u = tlinked st u \<and> texpires (do_op p st) u = texpires st u"
proof -
  obtain C h where w: "wheel T C h st" "settled h" "run_list st = None" "before_tick T C {1..4}"
    using assms by (auto simp: timers_ok_def)
  obtain h' where h': "wheel T C h' (do_op p st)" "settled h'" "others_kept {op_timer p} h st h' (do_op p st)"
    using do_op_wheel [OF w(1,2)] .
  show "timers_ok T (do_op p st)" "fired (do_op p st) = fired st" "timer_jiffies (do_op p st) = timer_jiffies st"
    using h' w(3,4) by (auto simp: timers_ok_def others_kept_def)
  show "tlinked (do_op p st) u = tlinked st u \<and> texpires (do_op p st) u = texpires st u" if "u \<noteq> op_timer p"
    using h'(3) that homedD(5) [OF wheelD(1) [OF w(1)], of u] homedD(5) [OF wheelD(1) [OF h'(1)], of u]
    by (auto simp: others_kept_def)
qed

lemma timer_step_inv: "timer_step st st' \<Longrightarrow> timers_inv st \<Longrightarrow> timers_inv st'"
proof (induction rule: timer_step.induct)
  case (operation st p)
  then show ?case using op_timers_ok by (auto simp: timers_inv_def)
next
  case (timer_bh fn jiffies st st')
  then obtain T where T: "timers_ok T st" by (auto simp: timers_inv_def)
  then show ?case
    using run_timer_list_ok [OF T, of fn jiffies] timer_bh by (auto simp: timers_inv_def in_time_def Let_def)
qed

interpretation tmr: state_machine "\<lambda>st. st = init_timervecs" timer_step timers_inv
proof unfold_locales
  show "timers_inv s" if "s = init_timervecs" for s
    using that init_timers_ok by (auto simp: timers_inv_def in_time_def init_timervecs_def)
qed (rule timer_step_inv)

lemma reached_ok:
  assumes "timer_step\<^sup>*\<^sup>* init_timervecs st"
  obtains T where "timers_ok T st"
  using tmr.reached_inv [OF refl assms] by (auto simp: timers_inv_def)

subsection \<open>Properties\<close>

text \<open>
  C7. Timers are called on time.  In every state that the timer operations and runs of the timer list can reach,
  \<open>run_timer_list\<close> called with the clock at \<open>j\<close> comes back, and a timer that the timer functions leave alone is called exactly once if it is
  pending and its expiry is not after \<open>j\<close>, in the tick of its expiry (or in the first tick that is run when it expired before), and is
  then not pending; otherwise it is not called and stays what it was.  This is so across all cascades between the five
  vectors and across the wrap-around of the clock.
\<close>

theorem timer_called_on_time:
  assumes "timer_step\<^sup>*\<^sup>* init_timervecs st" and "leaves fn t"
  shows "\<exists>st' new. run_timer_list fn j st = Some st' \<and> fired st' = fired st @ new \<and> texpires st' t = texpires st t \<and>
    (let e = texpires st t; now = timer_jiffies st in
     if tlinked st t \<and> 0 \<le> sint (j - now) \<and> sint (e - now) \<le> sint (j - now)
     then \<not> tlinked st' t \<and> calls_of t new = [(t, if sint (e - now) < 0 then now else e, e)]
     else tlinked st' t = tlinked st t \<and> calls_of t new = [])"
proof -
  obtain T where T: "timers_ok T st" using reached_ok [OF assms(1)] .
  obtain st' new where r: "run_timer_list fn j st = Some st'" "fired st' = fired st @ new"
    "run_effect T (sint (j - timer_jiffies st)) st st' new t"
    using run_timer_list_ok [OF T, of fn j] assms(2) unfolding Let_def by blast
  then show ?thesis
    by (intro exI [of _ st'] exI [of _ new]) (simp add: run_effect_def due_def Let_def)
qed

definition timer_example :: timer_base where
  "timer_example = do_op (Mod 2 1000) (do_op (Add 1 3) init_timervecs)"

lemma timer_example_reached: "timer_step\<^sup>*\<^sup>* init_timervecs timer_example"
proof -
  have "timer_step\<^sup>*\<^sup>* init_timervecs (do_op (Add 1 3) init_timervecs)" by (rule r_into_rtranclp, rule operation)
  then show ?thesis unfolding timer_example_def by (rule rtranclp.rtrancl_into_rtrancl) (rule operation)
qed

lemma timer_example_fields [simp]:
  "tlinked timer_example (Suc 0)" "texpires timer_example (Suc 0) = 3" "timer_jiffies timer_example = 0" "fired timer_example = []"
  by code_simp+

theorem timer_called_on_time_witness:
  "timer_step\<^sup>*\<^sup>* init_timervecs timer_example \<and> leaves (\<lambda>st t. if t = 2 then [Mod 2 0] else []) 1 \<and>
   (\<exists>st' new. run_timer_list (\<lambda>st t. if t = 2 then [Mod 2 0] else []) 5 timer_example = Some st' \<and>
      fired st' = fired timer_example @ new \<and> \<not> tlinked st' 1 \<and> calls_of 1 new = [(1, 3, 3)])"
proof -
  have l: "leaves (\<lambda>st t. if t = 2 then [Mod 2 0] else []) 1" by (auto simp: leaves_def)
  show ?thesis
    using timer_called_on_time [OF timer_example_reached l, of 5] timer_example_reached l by (auto simp: Let_def)
qed



text \<open>The abstract timers: a map from the pending timers, found in the lists, to their expiries.\<close>

definition stored :: "timer_base \<Rightarrow> nat list" where
  "stored st = concat (map (\<lambda>(n, i). tvec st n i) (List.product [0..<NOOF_TVECS] [0..<256]))"

definition pending :: "timer_base \<Rightarrow> (nat \<rightharpoonup> u32)" where
  "pending st = (\<lambda>t. if t \<in> set (stored st) then Some (texpires st t) else None)"

lemma placed_bounds: "placed T C n i a \<Longrightarrow> n < NOOF_TVECS \<and> i < 256"
proof -
  have "nat (x mod 64) < 256" "nat (x mod 256) < 256" for x :: int
    using pos_mod_bound [of 64 x] pos_mod_bound [of 256 x] pos_mod_sign [of 64 x] by linarith+
  then show "placed T C n i a \<Longrightarrow> ?thesis" by (auto simp: placed_def NOOF_TVECS_def split: if_splits)
qed

lemma distinct_concat_map:
  assumes "distinct xs" "\<And>x. distinct (f x)" "\<And>x y z. z \<in> set (f x) \<Longrightarrow> z \<in> set (f y) \<Longrightarrow> x = y"
  shows "distinct (concat (map f xs))"
  using assms(1) by (induction xs) (use assms(2,3) in auto)

lemma stored_ok:
  assumes "timers_ok T st"
  shows "distinct (stored st)" "t \<in> set (stored st) \<longleftrightarrow> tlinked st t"
proof -
  obtain C h where w: "wheel T C h st" "settled h" "run_list st = None" using assms by (auto simp: timers_ok_def)
  note hd = homedD [OF wheelD(1) [OF w(1)]]
  show "distinct (stored st)"
    unfolding stored_def by (rule distinct_concat_map) (use hd(1,2) in \<open>auto simp: distinct_product\<close>)
  have q: "queue st = []" using w(3) by (simp add: queue_def)
  show "t \<in> set (stored st) \<longleftrightarrow> tlinked st t"
  proof
    show "tlinked st t" if "t \<in> set (stored st)" using that hd(2,5) by (auto simp: stored_def)
    show "t \<in> set (stored st)" if l: "tlinked st t"
    proof -
      have "h t \<noteq> None" using l hd(5) by simp
      then obtain n i where t: "h t = Some (InVec n i)" using linked_in_vec [OF w(1,2) q] by blast
      then have "n < NOOF_TVECS" "i < 256" "t \<in> set (tvec st n i)"
        using placed_bounds wheelD(3) [OF w(1) t] hd(2) by blast+
      then show ?thesis by (simp add: stored_def) (meson atLeastLessThan_iff le0)
    qed
  qed
qed

lemma pending_ok: "timers_ok T st \<Longrightarrow> pending st = (\<lambda>t. if tlinked st t then Some (texpires st t) else None)"
  by (auto simp: pending_def stored_ok)

lemma op_linked:
  "tlinked (do_op (Add t e) st) t" "tlinked (do_op (Mod t e) st) t" "\<not> tlinked (do_op (Del t) st) t"
  "texpires (do_op (Add t e) st) t = (if tlinked st t then texpires st t else e)" "texpires (do_op (Mod t e) st) t = e"
  by (simp_all add: add_timer_def mod_timer_def del_timer_def detach_timer_def Let_def)

lemma op_result: "fst (mod_timer t e st) = tlinked st t" "fst (del_timer t st) = tlinked st t"
  by (simp_all add: mod_timer_def del_timer_def detach_timer_def Let_def)

lemma pending_op:
  assumes "timers_ok T st" "\<And>u. u = op_timer p \<Longrightarrow> (if tlinked (do_op p st) u then Some (texpires (do_op p st) u) else None) = v"
  shows "pending (do_op p st) = (pending st)(op_timer p := v)"
proof
  fix u
  show "pending (do_op p st) u = ((pending st)(op_timer p := v)) u"
    using assms(2) [of u] op_timers_ok(4) [OF assms(1), of u p]
    by (simp add: pending_ok [OF assms(1)] pending_ok [OF op_timers_ok(1) [OF assms(1)]])
qed

text \<open>
  C24. The wheel implements a map from timers to expiries: in every reachable state each pending timer stands in exactly
  one list of the five vectors, once; \<open>add_timer\<close> enters a timer unless it is there, \<open>mod_timer\<close> enters or replaces it, \<open>del_timer\<close> removes it, the latter two
  report whether the timer was there, and a run with the clock at \<open>j\<close> and functions that leave timers alone removes exactly the entries that are due.
\<close>

theorem timer_wheel_refines_map:
  assumes "timer_step\<^sup>*\<^sup>* init_timervecs st"
  shows "distinct (stored st) \<and>
    pending (do_op (Add t e) st) = (if t \<in> dom (pending st) then pending st else (pending st)(t \<mapsto> e)) \<and>
    fst (mod_timer t e st) = (t \<in> dom (pending st)) \<and> pending (snd (mod_timer t e st)) = (pending st)(t \<mapsto> e) \<and>
    fst (del_timer t st) = (t \<in> dom (pending st)) \<and> pending (snd (del_timer t st)) = (pending st)(t := None) \<and>
    (0 \<le> sint (j - timer_jiffies st) \<longrightarrow> (\<exists>st'. run_timer_list (\<lambda>st t. []) j st = Some st' \<and>
       pending st' = pending st |` {t. \<forall>e. pending st t = Some e \<longrightarrow> sint (j - timer_jiffies st) < sint (e - timer_jiffies st)}))"
proof (intro conjI impI)
  obtain T where T: "timers_ok T st" using reached_ok [OF assms] .
  have d: "u \<in> dom (pending st) \<longleftrightarrow> tlinked st u" for u by (simp add: pending_ok [OF T] domIff)
  show "distinct (stored st)" by (rule stored_ok(1) [OF T])
  show "pending (do_op (Add t e) st) = (if t \<in> dom (pending st) then pending st else (pending st)(t \<mapsto> e))"
  proof (cases "tlinked st t")
    case True
    then show ?thesis by (simp only: d) (simp add: add_timer_def)
  next
    case False
    then show ?thesis using pending_op [OF T, of "Add t e" "Some e"] by (simp only: d) (simp add: op_linked del: do_op.simps)
  qed
  show "fst (mod_timer t e st) = (t \<in> dom (pending st))" "fst (del_timer t st) = (t \<in> dom (pending st))"
    by (simp_all only: d op_result)
  show "pending (snd (mod_timer t e st)) = (pending st)(t \<mapsto> e)"
    using pending_op [OF T, of "Mod t e" "Some e"] op_linked(2,5) [of t e st] by simp
  show "pending (snd (del_timer t st)) = (pending st)(t := None)"
    using pending_op [OF T, of "Del t" None] op_linked(3) [of t st] by simp
  assume j: "0 \<le> sint (j - timer_jiffies st)"
  obtain st' new T' where r: "run_timer_list (\<lambda>st t. []) j st = Some st'" "timers_ok T' st'"
    "\<forall>t. run_effect T (sint (j - timer_jiffies st)) st st' new t"
    using run_timer_list_ok [OF T, of "\<lambda>st t. []" j] by (auto simp: Let_def leaves_def)
  have "pending st' = pending st |` {t. \<forall>e. pending st t = Some e \<longrightarrow> sint (j - timer_jiffies st) < sint (e - timer_jiffies st)}"
  proof
    fix u
    show "pending st' u = (pending st |` {t. \<forall>e. pending st t = Some e \<longrightarrow> sint (j - timer_jiffies st) < sint (e - timer_jiffies st)}) u"
      using r(3) [rule_format, of u] j
      by (cases "tlinked st u \<and> sint (texpires st u - timer_jiffies st) \<le> sint (j - timer_jiffies st)") (auto simp: pending_ok [OF T] pending_ok [OF r(2)] run_effect_def due_def restrict_map_def)
  qed
  then show "\<exists>st'. run_timer_list (\<lambda>st t. []) j st = Some st' \<and>
       pending st' = pending st |` {t. \<forall>e. pending st t = Some e \<longrightarrow> sint (j - timer_jiffies st) < sint (e - timer_jiffies st)}"
    using r(1) by blast
qed

theorem timer_wheel_refines_map_witness:
  "timer_step\<^sup>*\<^sup>* init_timervecs timer_example \<and> 0 \<le> sint (5 - timer_jiffies timer_example) \<and> distinct (stored timer_example) \<and>
   (\<exists>st'. run_timer_list (\<lambda>st t. []) 5 timer_example = Some st' \<and>
      pending st' = pending timer_example |` {t. \<forall>e. pending timer_example t = Some e \<longrightarrow> 5 < sint e})"
  using timer_wheel_refines_map [OF timer_example_reached, of 1 3 5] timer_example_reached by simp

text \<open>
  The comment "Timers are FIFO!" of \<open>internal_add_timer\<close> holds within a list only: of two timers with the same expiry the one added last is called
  first when the first waited in the second vector until the tick in question.
\<close>

lemma timers_not_fifo:
  "(let fn = (\<lambda>st t. []); st1 = do_op (Add 1 256) init_timervecs in
    case run_timer_list fn 0 st1 of None \<Rightarrow> None | Some st2 \<Rightarrow>
     map_option fired (run_timer_list fn 256 (do_op (Add 2 256) st2))) = Some [(2, 256, 256), (1, 256, 256)]"
  by code_simp

end
