(* ===== verification/FLock.thy ===== *)
theory FLock
  imports KPrelude "HOL-Library.Monad_Syntax"
begin

text \<open>
  POSIX record locks (fs/locks.c).  A \<open>struct file_lock\<close> lives in the store \<open>fls\<close> at its address.  The locks of an inode form the list \<open>i_flock\<close> (linked
  by \<open>fl_next\<close> in the code); a lock has a list \<open>fl_block\<close> of the locks that wait for it, of which \<open>fl_next\<close> is the lock they wait for, and all waiting locks
  form \<open>blocked_list\<close>.  A pointer to a pointer \<open>before\<close> into the list of an inode is the number of the locks before it.  Offsets
  are integers, and sums and differences of them wrap around like \<open>loff_t\<close>.  \<open>woken_locks\<close> records the locks whose waiting tasks were
  woken, \<open>panicked\<close> whether a lock in use was freed (\<open>panic\<close>).

  The functions are atomic under the big kernel lock, up to the point where a task goes to sleep.  The field \<open>fl_next\<close> is kept for waiting
  locks only, and wait queues are not modelled: a task that runs is on none.  File systems with locking functions of their own, callbacks
  for lockd (\<open>fl_notify\<close>, \<open>fl_insert\<close>, \<open>fl_remove\<close>) and signals to lease holders (\<open>fl_fasync\<close>) are left out.
\<close>

subsection \<open>Locks and lists\<close>

record file_lock =
  fl_owner :: nat
  fl_pid :: nat
  fl_file :: nat
  fl_flags :: u8
  fl_type :: nat
  fl_start :: int
  fl_end :: int
  fl_block :: "addr list"
  fl_next :: addr

record lock_state =
  fls :: "addr \<Rightarrow> file_lock"
  i_flock :: "nat \<Rightarrow> addr list"
  file_lock_list :: "addr list"
  blocked_list :: "addr list"
  woken_locks :: "addr list"
  panicked :: bool

definition F_RDLCK :: nat where [kdefs]: "F_RDLCK = 0"
definition F_WRLCK :: nat where [kdefs]: "F_WRLCK = 1"
definition F_UNLCK :: nat where [kdefs]: "F_UNLCK = 2"
definition FL_POSIX :: u8 where [kdefs]: "FL_POSIX = 1"
definition EOVERFLOW :: int where [kdefs]: "EOVERFLOW = 75"
definition EBADF :: int where [kdefs]: "EBADF = 9"
definition ERESTARTSYS :: int where [kdefs]: "ERESTARTSYS = 512"

definition OFFSET_MAX :: int where [kdefs]: "OFFSET_MAX = 2 ^ 63 - 1"
definition OFFT_OFFSET_MAX :: int where [kdefs]: "OFFT_OFFSET_MAX = 2 ^ 31 - 1"

text \<open>The arithmetic of \<open>loff_t\<close> and, for the old interface, of \<open>off_t\<close>.\<close>

definition loff64 :: "int \<Rightarrow> int" where "loff64 x = signed_take_bit 63 x"
definition off32 :: "int \<Rightarrow> int" where "off32 x = signed_take_bit 31 x"

abbreviation upd_fl :: "addr \<Rightarrow> (file_lock \<Rightarrow> file_lock) \<Rightarrow> lock_state \<Rightarrow> lock_state" where
  "upd_fl a f st \<equiv> st\<lparr>fls := (fls st)(a := f (fls st a))\<rparr>"

definition is_posix :: "file_lock \<Rightarrow> bool" where
  "is_posix f \<longleftrightarrow> fl_flags f AND FL_POSIX \<noteq> 0"

definition locks_free_lock :: "addr \<Rightarrow> lock_state \<Rightarrow> lock_state" where
  "locks_free_lock fl st =
     st\<lparr>panicked := (panicked st \<or> fl_block (fls st fl) \<noteq> [] \<or> fl \<in> set (blocked_list st) \<or> fl \<in> set (file_lock_list st))\<rparr>"

definition locks_copy_lock :: "addr \<Rightarrow> addr \<Rightarrow> lock_state \<Rightarrow> lock_state" where
  "locks_copy_lock new fl st =
     upd_fl new (\<lambda>n. n\<lparr>fl_owner := fl_owner (fls st fl), fl_pid := fl_pid (fls st fl), fl_file := fl_file (fls st fl),
       fl_flags := fl_flags (fls st fl), fl_type := fl_type (fls st fl), fl_start := fl_start (fls st fl), fl_end := fl_end (fls st fl)\<rparr>) st"

definition locks_overlap :: "file_lock \<Rightarrow> file_lock \<Rightarrow> bool" where
  "locks_overlap fl1 fl2 \<longleftrightarrow> fl_start fl2 \<le> fl_end fl1 \<and> fl_start fl1 \<le> fl_end fl2"

definition locks_same_owner :: "file_lock \<Rightarrow> file_lock \<Rightarrow> bool" where
  "locks_same_owner fl1 fl2 \<longleftrightarrow> fl_owner fl1 = fl_owner fl2 \<and> fl_pid fl1 = fl_pid fl2"

definition locks_delete_block :: "addr \<Rightarrow> lock_state \<Rightarrow> lock_state" where
  "locks_delete_block waiter st =
     (let st = st\<lparr>fls := (\<lambda>a. (fls st a)\<lparr>fl_block := remove1 waiter (fl_block (fls st a))\<rparr>),
                  blocked_list := remove1 waiter (blocked_list st)\<rparr>
      in upd_fl waiter (\<lambda>f. f\<lparr>fl_next := NULL\<rparr>) st)"

definition locks_insert_block :: "addr \<Rightarrow> addr \<Rightarrow> lock_state \<Rightarrow> lock_state" where
  "locks_insert_block blocker waiter st =
     (let st = (if waiter \<in> set (blocked_list st) then locks_delete_block waiter st else st);
          st = upd_fl blocker (\<lambda>f. f\<lparr>fl_block := fl_block f @ [waiter]\<rparr>) st;
          st = upd_fl waiter (\<lambda>f. f\<lparr>fl_next := blocker\<rparr>) st
      in st\<lparr>blocked_list := waiter # blocked_list st\<rparr>)"

text \<open>\<open>locks_wake_up_blocks(blocker, 0)\<close>: every waiter is taken off the list and its task woken.\<close>

definition locks_wake_up_blocks :: "addr \<Rightarrow> lock_state \<Rightarrow> lock_state" where
  "locks_wake_up_blocks blocker st =
     fold (\<lambda>waiter st. (locks_delete_block waiter st)\<lparr>woken_locks := woken_locks st @ [waiter]\<rparr>) (fl_block (fls st blocker)) st"

definition locks_insert_lock :: "nat \<Rightarrow> nat \<Rightarrow> addr \<Rightarrow> lock_state \<Rightarrow> lock_state" where
  "locks_insert_lock inode pos fl st =
     st\<lparr>file_lock_list := fl # file_lock_list st,
        i_flock := (i_flock st)(inode := take pos (i_flock st inode) @ fl # drop pos (i_flock st inode))\<rparr>"

definition unhash_lock :: "nat \<Rightarrow> nat \<Rightarrow> lock_state \<Rightarrow> lock_state" where
  "unhash_lock inode pos st =
     st\<lparr>i_flock := (i_flock st)(inode := take pos (i_flock st inode) @ drop (pos + 1) (i_flock st inode)),
        file_lock_list := remove1 (i_flock st inode ! pos) (file_lock_list st)\<rparr>"

definition delete_lock :: "addr \<Rightarrow> lock_state \<Rightarrow> lock_state" where
  "delete_lock fl st = locks_free_lock fl (locks_wake_up_blocks fl st)"

definition locks_delete_lock :: "nat \<Rightarrow> nat \<Rightarrow> lock_state \<Rightarrow> lock_state" where
  "locks_delete_lock inode pos st = delete_lock (i_flock st inode ! pos) (unhash_lock inode pos st)"

subsection \<open>Conflicts and deadlocks\<close>

definition locks_conflict :: "file_lock \<Rightarrow> file_lock \<Rightarrow> bool" where
  "locks_conflict caller_fl sys_fl =
     (if fl_type caller_fl = F_RDLCK then fl_type sys_fl = F_WRLCK
      else if fl_type caller_fl = F_WRLCK then True else False)"

definition posix_locks_conflict :: "file_lock \<Rightarrow> file_lock \<Rightarrow> bool" where
  "posix_locks_conflict caller_fl sys_fl =
     (if \<not> is_posix sys_fl \<or> locks_same_owner caller_fl sys_fl then False
      else if \<not> locks_overlap caller_fl sys_fl then False else locks_conflict caller_fl sys_fl)"

definition posix_test_lock :: "nat \<Rightarrow> file_lock \<Rightarrow> lock_state \<Rightarrow> addr option" where
  "posix_test_lock inode fl st = find (\<lambda>cfl. is_posix (fls st cfl) \<and> posix_locks_conflict (fls st cfl) fl) (i_flock st inode)"

text \<open>The code from the label \<open>next_task\<close> on.  None: it does not end.\<close>

partial_function (option) deadlock_from :: "lock_state \<Rightarrow> nat \<times> nat \<Rightarrow> nat \<times> nat \<Rightarrow> bool option" where
  "deadlock_from st caller blocked =
     (if caller = blocked then Some True
      else case find (\<lambda>a. fl_owner (fls st a) = fst blocked \<and> fl_pid (fls st a) = snd blocked) (blocked_list st) of
        None \<Rightarrow> Some False
      | Some a \<Rightarrow> let fl = fls st (fl_next (fls st a)) in deadlock_from st caller (fl_owner fl, fl_pid fl))"

declare deadlock_from.simps [code]

definition posix_locks_deadlock :: "lock_state \<Rightarrow> file_lock \<Rightarrow> file_lock \<Rightarrow> bool option" where
  "posix_locks_deadlock st caller_fl block_fl = deadlock_from st (fl_owner caller_fl, fl_pid caller_fl) (fl_owner block_fl, fl_pid block_fl)"

subsection \<open>Applying a lock\<close>

text \<open>The common end of the two branches where the new lock and an old one of the same type become one.\<close>

definition merge_lock :: "addr \<Rightarrow> addr \<Rightarrow> lock_state \<Rightarrow> lock_state" where
  "merge_lock fl caller st =
     (let st = (if fl_start (fls st caller) < fl_start (fls st fl)
                then upd_fl fl (\<lambda>f. f\<lparr>fl_start := fl_start (fls st caller)\<rparr>) st
                else upd_fl caller (\<lambda>f. f\<lparr>fl_start := fl_start (fls st fl)\<rparr>) st)
      in if fl_end (fls st fl) < fl_end (fls st caller)
         then upd_fl fl (\<lambda>f. f\<lparr>fl_end := fl_end (fls st caller)\<rparr>) st
         else upd_fl caller (\<lambda>f. f\<lparr>fl_end := fl_end (fls st fl)\<rparr>) st)"

definition replace_lock :: "addr \<Rightarrow> addr \<Rightarrow> lock_state \<Rightarrow> lock_state" where
  "replace_lock fl caller st =
     (let st = locks_wake_up_blocks fl st; c = fls st caller
      in upd_fl fl (\<lambda>f. f\<lparr>fl_start := fl_start c, fl_end := fl_end c, fl_type := fl_type c\<rparr>) st)"

text \<open>The variables of the loop over the locks of the owner.\<close>

record lock_scan =
  before_pos :: nat
  caller :: addr
  added :: bool
  left :: addr
  right :: addr

lemma fls_i_flock [simp]:
  "i_flock (locks_delete_block w st) = i_flock st" "i_flock (locks_wake_up_blocks b st) = i_flock st"
proof -
  show d: "i_flock (locks_delete_block w st) = i_flock st" for w st by (simp add: locks_delete_block_def Let_def)
  have "i_flock (fold (\<lambda>w st. (locks_delete_block w st)\<lparr>woken_locks := woken_locks st @ [w]\<rparr>) ws st) = i_flock st" for ws
    by (induction ws arbitrary: st) (simp_all add: d)
  then show "i_flock (locks_wake_up_blocks b st) = i_flock st" by (simp add: locks_wake_up_blocks_def)
qed

lemma delete_lock_list [simp]:
  "i_flock (locks_delete_lock inode k st) = (i_flock st)(inode := take k (i_flock st inode) @ drop (k + 1) (i_flock st inode))"
  by (simp add: locks_delete_lock_def delete_lock_def unhash_lock_def locks_free_lock_def)

lemma merge_lock_list [simp]: "i_flock (merge_lock fl c st) = i_flock st"
  by (simp add: merge_lock_def Let_def)

lemma replace_lock_list [simp]: "i_flock (replace_lock fl c st) = i_flock st"
  by (simp add: replace_lock_def Let_def)

function posix_scan :: "nat \<Rightarrow> lock_scan \<Rightarrow> lock_state \<Rightarrow> lock_scan \<times> lock_state" where
  "posix_scan inode v st =
     (if length (i_flock st inode) \<le> before_pos v then (v, st)
      else
        let k = before_pos v; fl = i_flock st inode ! k; f = fls st fl; c = fls st (caller v) in
        if \<not> locks_same_owner c f then (v, st)
        else if fl_type c = fl_type f then
          (if fl_end f < loff64 (fl_start c - 1) then posix_scan inode (v\<lparr>before_pos := k + 1\<rparr>) st
           else if loff64 (fl_end c + 1) < fl_start f then (v, st)
           else if added v then posix_scan inode v (locks_delete_lock inode k (merge_lock fl (caller v) st))
           else posix_scan inode (v\<lparr>before_pos := k + 1, caller := fl, added := True\<rparr>) (merge_lock fl (caller v) st))
        else
          (if fl_end f < fl_start c then posix_scan inode (v\<lparr>before_pos := k + 1\<rparr>) st
           else if fl_end c < fl_start f then (v, st)
           else
             (let v = (if fl_type c = F_UNLCK then v\<lparr>added := True\<rparr> else v);
                  v = (if fl_start f < fl_start c then v\<lparr>left := fl\<rparr> else v)
              in if fl_end c < fl_end f then (v\<lparr>right := fl\<rparr>, st)
                 else if fl_start c \<le> fl_start f then
                   (if added v then posix_scan inode v (locks_delete_lock inode k st)
                    else posix_scan inode (v\<lparr>before_pos := k + 1, caller := fl, added := True\<rparr>) (replace_lock fl (caller v) st))
                 else posix_scan inode (v\<lparr>before_pos := k + 1\<rparr>) st)))"
  by pat_completeness auto
termination
  by (relation "measure (\<lambda>(inode, v, st). length (i_flock st inode) - before_pos v)") (auto simp: Let_def split: if_splits)

declare posix_scan.simps [simp del]

text \<open>What follows the loop.  The result says which of the two new structures were not used.\<close>

definition posix_finish :: "nat \<Rightarrow> addr \<Rightarrow> addr \<Rightarrow> lock_scan \<Rightarrow> lock_state \<Rightarrow> addr list \<times> lock_state" where
  "posix_finish inode new_fl new_fl2 v st =
     (if \<not> added v \<and> fl_type (fls st (caller v)) = F_UNLCK then ([new_fl, new_fl2], st)
      else
        let (unused, st) =
              (if \<not> added v then ([], locks_insert_lock inode (before_pos v) new_fl (locks_copy_lock new_fl (caller v) st))
               else ([new_fl], st));
            (unused, lft, st) =
              (if right v \<noteq> NULL then
                 let (unused, lft, st) =
                       (if left v = right v
                        then (unused, new_fl2, locks_insert_lock inode (before_pos v) new_fl2 (locks_copy_lock new_fl2 (right v) st))
                        else (unused @ [new_fl2], left v, st));
                     st = upd_fl (right v) (\<lambda>f. f\<lparr>fl_start := loff64 (fl_end (fls st (caller v)) + 1)\<rparr>) st
                 in (unused, lft, locks_wake_up_blocks (right v) st)
               else (unused @ [new_fl2], left v, st));
            st = (if lft \<noteq> NULL
                  then locks_wake_up_blocks lft (upd_fl lft (\<lambda>f. f\<lparr>fl_end := loff64 (fl_start (fls st (caller v)) - 1)\<rparr>) st)
                  else st)
        in (unused, st))"

text \<open>The part of \<open>posix_lock_file\<close> that cannot fail.\<close>

definition posix_apply :: "nat \<Rightarrow> addr \<Rightarrow> addr \<Rightarrow> addr \<Rightarrow> lock_state \<Rightarrow> lock_state" where
  "posix_apply inode c new_fl new_fl2 st =
     (let k = length (takeWhile (\<lambda>fl. \<not> is_posix (fls st fl) \<or> \<not> locks_same_owner (fls st c) (fls st fl)) (i_flock st inode));
          (v, st) = posix_scan inode \<lparr>before_pos = k, caller = c, added = False, left = NULL, right = NULL\<rparr> st;
          (unused, st) = posix_finish inode new_fl new_fl2 v st
      in fold locks_free_lock unused st)"

text \<open>
  \<open>posix_lock_file\<close> up to its end or to the point where the task goes to sleep; \<open>posix_lock_woken\<close> continues a task that slept, with a signal pending or
  not.  The arguments \<open>new_fl\<close> and \<open>new_fl2\<close> are the results of \<open>locks_alloc_lock\<close>, NULL when there is no memory.  None: the search
  for deadlocks does not end.
\<close>

datatype lock_result = Returned int lock_state | Sleeping lock_state

definition posix_lock_attempt :: "nat \<Rightarrow> addr \<Rightarrow> bool \<Rightarrow> addr \<Rightarrow> addr \<Rightarrow> lock_state \<Rightarrow> lock_result option" where
  "posix_lock_attempt inode c wait new_fl new_fl2 st =
     (case (if fl_type (fls st c) \<noteq> F_UNLCK
            then find (\<lambda>fl. is_posix (fls st fl) \<and> posix_locks_conflict (fls st c) (fls st fl)) (i_flock st inode) else None) of
        None \<Rightarrow> Some (Returned 0 (posix_apply inode c new_fl new_fl2 st))
      | Some fl \<Rightarrow>
          if \<not> wait then Some (Returned (- EAGAIN) (fold locks_free_lock [new_fl, new_fl2] st))
          else do {
            d \<leftarrow> posix_locks_deadlock st (fls st c) (fls st fl);
            if d then Some (Returned (- EDEADLK) (fold locks_free_lock [new_fl, new_fl2] st))
            else Some (Sleeping (locks_insert_block fl c st)) })"

definition posix_lock_file :: "nat \<Rightarrow> addr \<Rightarrow> bool \<Rightarrow> addr \<Rightarrow> addr \<Rightarrow> lock_state \<Rightarrow> lock_result option" where
  "posix_lock_file inode c wait new_fl new_fl2 st =
     (if new_fl = NULL \<or> new_fl2 = NULL
      then Some (Returned (- ENOLCK) (fold locks_free_lock (filter (\<lambda>a. a \<noteq> NULL) [new_fl, new_fl2]) st))
      else posix_lock_attempt inode c wait new_fl new_fl2 st)"

definition posix_lock_woken :: "nat \<Rightarrow> addr \<Rightarrow> bool \<Rightarrow> addr \<Rightarrow> addr \<Rightarrow> lock_state \<Rightarrow> lock_result option" where
  "posix_lock_woken inode c signal new_fl new_fl2 st =
     (let st = locks_delete_block c st in
      if signal then Some (Returned (- ERESTARTSYS) (fold locks_free_lock [new_fl, new_fl2] st))
      else posix_lock_attempt inode c True new_fl new_fl2 st)"

text \<open>When a file is closed the locks of the process on it go, one after the other.\<close>

definition locks_remove_posix_pos :: "nat \<Rightarrow> nat \<Rightarrow> lock_state \<Rightarrow> nat option" where
  "locks_remove_posix_pos inode owner st =
     (let L = i_flock st inode; k = length (takeWhile (\<lambda>fl. \<not> (is_posix (fls st fl) \<and> fl_owner (fls st fl) = owner)) L)
      in if k < length L then Some k else None)"

lemma takeWhile_delete: "k = length (takeWhile P L) \<Longrightarrow> k < length L \<Longrightarrow> length (take k L @ drop (k + 1) L) < length L"
  by simp

function locks_remove_posix :: "nat \<Rightarrow> nat \<Rightarrow> lock_state \<Rightarrow> lock_state" where
  "locks_remove_posix inode owner st =
     (case locks_remove_posix_pos inode owner st of
        None \<Rightarrow> st
      | Some k \<Rightarrow> locks_remove_posix inode owner (locks_delete_lock inode k st))"
  by pat_completeness auto
termination
  by (relation "measure (\<lambda>(inode, owner, st). length (i_flock st inode))")
    (auto simp: locks_remove_posix_pos_def Let_def split: if_splits)

declare locks_remove_posix.simps [simp del]

subsection \<open>Requests of user programs\<close>

record flock_request =
  l_type :: int
  l_whence :: int
  l_start :: int
  l_len :: int

text \<open>The fields of a lock that a request determines, or an error.  The offsets of the old interface are 32 bits wide.\<close>

definition assign_type :: "int \<Rightarrow> int + nat" where
  "assign_type type = (if type = int F_RDLCK \<or> type = int F_WRLCK \<or> type = int F_UNLCK then Inr (nat type) else Inl (- EINVAL))"

definition seek_start :: "(int \<Rightarrow> int) \<Rightarrow> int \<Rightarrow> int \<Rightarrow> int \<Rightarrow> int option" where
  "seek_start wrap whence f_pos i_size =
     (if whence = 0 then Some 0 else if whence = 1 then Some (wrap f_pos) else if whence = 2 then Some (wrap i_size) else None)"

definition flock_to_posix_lock :: "int \<Rightarrow> int \<Rightarrow> flock_request \<Rightarrow> int + int \<times> int \<times> nat" where
  "flock_to_posix_lock f_pos i_size l =
     (case seek_start off32 (l_whence l) f_pos i_size of
        None \<Rightarrow> Inl (- EINVAL)
      | Some start \<Rightarrow>
          let start = off32 (start + l_start l);
              (start, end') = (if l_len l < 0 then (off32 (start + l_len l), off32 (start - 1))
                               else (start, off32 (off32 (start + l_len l) - 1)))
          in if start < 0 then Inl (- EINVAL)
             else if 0 < l_len l \<and> end' < 0 then Inl (- EOVERFLOW)
             else case assign_type (l_type l) of
               Inl e \<Rightarrow> Inl e
             | Inr t \<Rightarrow> Inr (start, if l_len l = 0 then OFFSET_MAX else end', t))"

definition flock64_to_posix_lock :: "int \<Rightarrow> int \<Rightarrow> flock_request \<Rightarrow> int + int \<times> int \<times> nat" where
  "flock64_to_posix_lock f_pos i_size l =
     (case seek_start loff64 (l_whence l) f_pos i_size of
        None \<Rightarrow> Inl (- EINVAL)
      | Some start \<Rightarrow>
          let start = loff64 (start + l_start l); end' = loff64 (loff64 (start + l_len l) - 1)
          in if start < 0 \<or> l_len l < 0 then Inl (- EINVAL)
             else if 0 < l_len l \<and> end' < 0 then Inl (- EOVERFLOW)
             else case assign_type (l_type l) of
               Inl e \<Rightarrow> Inl e
             | Inr t \<Rightarrow> Inr (start, if l_len l = 0 then OFFSET_MAX else end', t))"

text \<open>The structure of a request: the fields that the conversion functions set (\<open>fl_file\<close> plays no part in what follows).\<close>

definition request_lock :: "nat \<times> nat \<Rightarrow> int \<times> int \<times> nat \<Rightarrow> file_lock \<Rightarrow> file_lock" where
  "request_lock p = (\<lambda>(s, e, t) f.
     f\<lparr>fl_owner := fst p, fl_pid := snd p, fl_flags := FL_POSIX, fl_type := t, fl_start := s, fl_end := e\<rparr>)"

definition set_request :: "addr \<Rightarrow> nat \<times> nat \<Rightarrow> int \<times> int \<times> nat \<Rightarrow> lock_state \<Rightarrow> lock_state" where
  "set_request c p r st = upd_fl c (request_lock p r) st"

text \<open>
  F_GETLK: an error, or the first lock that conflicts, in the terms of the user, with the process that holds it.  \<open>blank\<close> is the
  uninitialised structure on the stack.
\<close>

definition fcntl_getlk64 :: "nat \<Rightarrow> nat \<times> nat \<Rightarrow> int \<Rightarrow> int \<Rightarrow> file_lock \<Rightarrow> flock_request \<Rightarrow> lock_state \<Rightarrow> int + flock_request \<times> nat option" where
  "fcntl_getlk64 inode p f_pos i_size blank l st =
     (if l_type l \<noteq> int F_RDLCK \<and> l_type l \<noteq> int F_WRLCK then Inl (- EINVAL)
      else case flock64_to_posix_lock f_pos i_size l of
        Inl e \<Rightarrow> Inl e
      | Inr r \<Rightarrow>
          (case posix_test_lock inode (request_lock p r blank) st of
             None \<Rightarrow> Inr (l\<lparr>l_type := int F_UNLCK\<rparr>, None)
           | Some a \<Rightarrow>
               let fl = fls st a
               in Inr (\<lparr>l_type = int (fl_type fl), l_whence = 0, l_start = fl_start fl,
                        l_len = (if fl_end fl = OFFSET_MAX then 0 else loff64 (loff64 (fl_end fl - fl_start fl) + 1))\<rparr>, Some (fl_pid fl))))"

definition fcntl_getlk :: "nat \<Rightarrow> nat \<times> nat \<Rightarrow> int \<Rightarrow> int \<Rightarrow> file_lock \<Rightarrow> flock_request \<Rightarrow> lock_state \<Rightarrow> int + flock_request \<times> nat option" where
  "fcntl_getlk inode p f_pos i_size blank l st =
     (if l_type l \<noteq> int F_RDLCK \<and> l_type l \<noteq> int F_WRLCK then Inl (- EINVAL)
      else case flock_to_posix_lock f_pos i_size l of
        Inl e \<Rightarrow> Inl e
      | Inr r \<Rightarrow>
          (case posix_test_lock inode (request_lock p r blank) st of
             None \<Rightarrow> Inr (l\<lparr>l_type := int F_UNLCK\<rparr>, None)
           | Some a \<Rightarrow>
               let fl = fls st a
               in if OFFT_OFFSET_MAX < fl_start fl then Inl (- EOVERFLOW)
                  else if fl_end fl \<noteq> OFFSET_MAX \<and> OFFT_OFFSET_MAX < fl_end fl then Inl (- EOVERFLOW)
                  else Inr (\<lparr>l_type = int (fl_type fl), l_whence = 0, l_start = off32 (fl_start fl),
                        l_len = (if fl_end fl = OFFSET_MAX then 0 else off32 (loff64 (loff64 (fl_end fl - fl_start fl) + 1)))\<rparr>, Some (fl_pid fl))))"

text \<open>
  F_SETLK and F_SETLKW with the structure \<open>c\<close>, NULL when there is no memory, for a file opened with the modes \<open>fmode\<close> (read, write), up to the label
  \<open>out\<close>, where \<open>c\<close> is freed, or to the point where the task sleeps.  \<open>mandatory\<close>: the file has mandatory locks and is mapped.  The file is not closed
  by another thread in the meantime.
\<close>

definition setlk_mode :: "bool \<times> bool \<Rightarrow> int \<Rightarrow> int" where
  "setlk_mode fmode type =
     (if type = int F_RDLCK then if fst fmode then 0 else - EBADF
      else if type = int F_WRLCK then if snd fmode then 0 else - EBADF
      else if type = int F_UNLCK then 0 else - EINVAL)"

definition fcntl_setlk_with :: "(flock_request \<Rightarrow> int + int \<times> int \<times> nat) \<Rightarrow> bool \<Rightarrow> bool \<times> bool \<Rightarrow> nat \<Rightarrow> addr \<Rightarrow> nat \<times> nat \<Rightarrow>
    flock_request \<Rightarrow> bool \<Rightarrow> addr \<Rightarrow> addr \<Rightarrow> lock_state \<Rightarrow> lock_result option" where
  "fcntl_setlk_with convert mandatory fmode inode c p l wait new_fl new_fl2 st =
     (if c = NULL then Some (Returned (- ENOLCK) st)
      else if mandatory then Some (Returned (- EAGAIN) st)
      else case convert l of
        Inl e \<Rightarrow> Some (Returned e st)
      | Inr r \<Rightarrow>
          if setlk_mode fmode (l_type l) \<noteq> 0 then Some (Returned (setlk_mode fmode (l_type l)) st)
          else posix_lock_file inode c wait new_fl new_fl2 (set_request c p r st))"

definition fcntl_setlk :: "int \<Rightarrow> int \<Rightarrow> bool \<Rightarrow> bool \<times> bool \<Rightarrow> nat \<Rightarrow> addr \<Rightarrow> nat \<times> nat \<Rightarrow> flock_request \<Rightarrow> bool \<Rightarrow> addr \<Rightarrow> addr \<Rightarrow> lock_state \<Rightarrow> lock_result option" where
  "fcntl_setlk f_pos i_size = fcntl_setlk_with (flock_to_posix_lock f_pos i_size)"

definition fcntl_setlk64 :: "int \<Rightarrow> int \<Rightarrow> bool \<Rightarrow> bool \<times> bool \<Rightarrow> nat \<Rightarrow> addr \<Rightarrow> nat \<times> nat \<Rightarrow> flock_request \<Rightarrow> bool \<Rightarrow> addr \<Rightarrow> addr \<Rightarrow> lock_state \<Rightarrow> lock_result option" where
  "fcntl_setlk64 f_pos i_size = fcntl_setlk_with (flock64_to_posix_lock f_pos i_size)"

subsection \<open>The specification: what a process holds at each byte\<close>

text \<open>The locks of a process on a file, as ranges with types.\<close>

type_synonym range = "int \<times> int \<times> nat"

definition locked_at :: "range list \<Rightarrow> int \<Rightarrow> nat option" where
  "locked_at xs x = map_option (snd \<circ> snd) (find (\<lambda>(a, b, u). a \<le> x \<and> x \<le> b) xs)"

definition range_ok :: "range \<Rightarrow> bool" where
  "range_ok = (\<lambda>(a, b, u). 0 \<le> a \<and> a \<le> b \<and> b \<le> OFFSET_MAX \<and> (u = F_RDLCK \<or> u = F_WRLCK))"

definition request_ok :: "range \<Rightarrow> bool" where
  "request_ok = (\<lambda>(a, b, u). 0 \<le> a \<and> a \<le> b \<and> b \<le> OFFSET_MAX \<and> (u = F_RDLCK \<or> u = F_WRLCK \<or> u = F_UNLCK))"

definition apart :: "range \<Rightarrow> range \<Rightarrow> bool" where
  "apart = (\<lambda>(a, b, u) (a', b', u'). b < a' \<and> (u = u' \<longrightarrow> b + 1 < a'))"

text \<open>Sorted, disjoint, and merged where possible.\<close>

definition ranges_ok :: "range list \<Rightarrow> bool" where
  "ranges_ok xs \<longleftrightarrow> (\<forall>x\<in>set xs. range_ok x) \<and> sorted_wrt apart xs"

definition emit :: "range \<Rightarrow> range list" where
  "emit = (\<lambda>(s, e, t). if t = F_UNLCK then [] else [(s, e, t)])"

text \<open>The reference algorithm: insert a range into a sorted list, cutting and merging.\<close>

fun put_range :: "range list \<Rightarrow> range \<Rightarrow> range list" where
  "put_range [] c = emit c"
| "put_range ((a, b, u) # xs) (s, e, t) =
     (if u = t then
        if b < s - 1 then (a, b, u) # put_range xs (s, e, t)
        else if e + 1 < a then emit (s, e, t) @ (a, b, u) # xs
        else put_range xs (min s a, max e b, t)
      else
        if b < s then (a, b, u) # put_range xs (s, e, t)
        else if e < a then emit (s, e, t) @ (a, b, u) # xs
        else (if a < s then [(a, s - 1, u)] else []) @
          (if e < b then emit (s, e, t) @ (e + 1, b, u) # xs else put_range xs (s, e, t)))"

lemma locked_at_simps [simp]:
  "locked_at [] x = None"
  "locked_at ((a, b, u) # xs) x = (if a \<le> x \<and> x \<le> b then Some u else locked_at xs x)"
  by (simp_all add: locked_at_def)

lemma locked_at_append: "locked_at (xs @ ys) x = (case locked_at xs x of None \<Rightarrow> locked_at ys x | Some u \<Rightarrow> Some u)"
  by (induction xs) auto

lemma locked_at_emit: "locked_at (emit (s, e, t)) x = (if s \<le> x \<and> x \<le> e \<and> t \<noteq> F_UNLCK then Some t else None)"
  by (simp add: emit_def)

lemma locked_at_None: "(\<And>a b u. (a, b, u) \<in> set xs \<Longrightarrow> x < a) \<Longrightarrow> locked_at xs x = None"
  by (induction xs) fastforce+

lemma ranges_ok_Cons: "ranges_ok (x # xs) \<longleftrightarrow> range_ok x \<and> (\<forall>y\<in>set xs. apart x y) \<and> ranges_ok xs"
  by (auto simp: ranges_ok_def)

lemma put_range_elem:
  assumes "(a', b', u') \<in> set (put_range xs (s, e, t))"
  shows "u' = t \<and> s \<le> a' \<or> (\<exists>a b. (a, b, u') \<in> set xs \<and> a \<le> a')"
  using assms
proof (induction xs arbitrary: s e)
  case Nil
  then show ?case by (auto simp: emit_def split: if_splits)
next
  case (Cons x xs)
  obtain a b u where x: "x = (a, b, u)" by (cases x)
  have em: "u' = t \<and> s \<le> a'" if "(a', b', u') \<in> set (emit (s, e, t))" using that by (auto simp: emit_def split: if_splits)
  have ih: "u' = t \<and> s \<le> a' \<or> (\<exists>a b. (a, b, u') \<in> set (x # xs) \<and> a \<le> a')"
    if "(a', b', u') \<in> set (put_range xs (s, e, t))" using Cons.IH [OF that] by auto
  show ?case
  proof (cases "u = t \<and> \<not> b < s - 1 \<and> \<not> e + 1 < a")
    case True
    then have "(a', b', u') \<in> set (put_range xs (min s a, max e b, t))" using Cons.prems x by simp
    from Cons.IH [OF this] show ?thesis using True x by (auto simp: min_le_iff_disj)
  next
    case False
    then have "(a', b', u') \<in> set (put_range xs (s, e, t)) \<or> (a', b', u') \<in> set (emit (s, e, t)) \<or>
        (a', b', u') \<in> set xs \<or> u' = u \<and> a \<le> a'"
      using Cons.prems x by (simp split: if_splits) auto
    then show ?thesis using em ih x by auto
  qed
qed

lemma put_range_ok:
  assumes "ranges_ok xs" "request_ok (s, e, t)"
  shows "ranges_ok (put_range xs (s, e, t))"
  using assms
proof (induction xs arbitrary: s e)
  case Nil
  then show ?case by (auto simp: emit_def ranges_ok_def range_ok_def request_ok_def)
next
  case (Cons x xs)
  obtain a b u where x: "x = (a, b, u)" by (cases x)
  have ok: "range_ok (a, b, u)" "\<And>a' b' u'. (a', b', u') \<in> set xs \<Longrightarrow> b < a' \<and> (u = u' \<longrightarrow> b + 1 < a')" "ranges_ok xs"
    using Cons.prems(1) unfolding x ranges_ok_Cons by (auto simp: apart_def)
  have ih: "ranges_ok (put_range xs (s, e, t))" by (rule Cons.IH [OF ok(3) Cons.prems(2)])
  have m: "ranges_ok (put_range xs (min s a, max e b, t))"
    using Cons.prems(2) ok by (intro Cons.IH) (auto simp: request_ok_def range_ok_def)
  have ap: "apart (a, b', u) y" if y: "y \<in> set (put_range xs (s, e, t))" and b': "b' < s" "u = t \<Longrightarrow> b' < s - 1" "b' \<le> b" for y b'
  proof -
    obtain a1 b1 u1 where y1: "y = (a1, b1, u1)" by (cases y)
    from put_range_elem [OF y [unfolded y1]] show ?thesis
    proof
      assume "u1 = t \<and> s \<le> a1"
      then show ?thesis using b' unfolding y1 by (auto simp: apart_def)
    next
      assume "\<exists>a2 b2. (a2, b2, u1) \<in> set xs \<and> a2 \<le> a1"
      then show ?thesis using ok(2) b'(3) unfolding y1 by (fastforce simp: apart_def)
    qed
  qed
  have new: "ranges_ok (emit (s, e, t) @ (a', b, u) # xs)" if "e < a'" "u = t \<Longrightarrow> e + 1 < a'" "a' \<le> b" for a'
  proof -
    have t: "ranges_ok ((a', b, u) # xs)"
      using ok Cons.prems(2) that by (auto simp: ranges_ok_Cons range_ok_def request_ok_def apart_def)
    have "apart (s, e, t) y" if "y \<in> set xs" for y
    proof -
      obtain a1 b1 u1 where y1: "y = (a1, b1, u1)" by (cases y)
      then show ?thesis using ok(2) [of a1 b1 u1] that \<open>e < a'\<close> \<open>a' \<le> b\<close> by (simp add: apart_def)
    qed
    then show ?thesis
      using t Cons.prems(2) that by (auto simp: emit_def ranges_ok_Cons range_ok_def request_ok_def apart_def)
  qed
  show ?case
  proof (cases "u = t")
    case True
    then show ?thesis using ih m ok(1) ap [of _ b] new [of a] unfolding x
      by (auto simp: ranges_ok_Cons range_ok_def)
  next
    case False
    have l: "ranges_ok ((a, s - 1, u) # put_range xs (s, e, t))" if "a < s" "s \<le> b"
      using ih ok(1) ap [of _ "s - 1"] that False by (auto simp: ranges_ok_Cons range_ok_def)
    have r: "ranges_ok ((a, s - 1, u) # emit (s, e, t) @ (e + 1, b, u) # xs)" if "a < s" "e < b"
    proof -
      have "apart (a, s - 1, u) y" if "y \<in> set xs" for y
      proof -
        obtain a1 b1 u1 where y1: "y = (a1, b1, u1)" by (cases y)
        then show ?thesis using ok(2) [of a1 b1 u1] that \<open>e < b\<close> Cons.prems(2) by (auto simp: apart_def request_ok_def)
      qed
      then show ?thesis
        using new [of "e + 1"] ok(1) that Cons.prems(2) False
        by (auto simp: ranges_ok_Cons range_ok_def request_ok_def emit_def) (auto simp: apart_def)
    qed
    show ?thesis using ih ok(1) ap [of _ b] new [of a] new [of "e + 1"] l r False Cons.prems(2) unfolding x
      by (auto simp: ranges_ok_Cons range_ok_def request_ok_def)
  qed
qed

lemma put_range_locked:
  assumes "ranges_ok xs" "request_ok (s, e, t)"
  shows "locked_at (put_range xs (s, e, t)) x =
    (if s \<le> x \<and> x \<le> e then if t = F_UNLCK then None else Some t else locked_at xs x)"
  using assms
proof (induction xs arbitrary: s e)
  case Nil
  then show ?case by (auto simp: locked_at_emit)
next
  case (Cons y xs)
  obtain a b u where y: "y = (a, b, u)" by (cases y)
  have ok: "range_ok (a, b, u)" "\<And>a' b' u'. (a', b', u') \<in> set xs \<Longrightarrow> b < a'" "ranges_ok xs"
    using Cons.prems(1) unfolding y ranges_ok_Cons by (auto simp: apart_def)
  have se: "s \<le> e" and ab: "a \<le> b" "u \<noteq> F_UNLCK" using Cons.prems(2) ok(1) by (auto simp: request_ok_def range_ok_def kdefs)
  have after: "locked_at xs x = None" if "x \<le> b" using that ok(2) by (intro locked_at_None) fastforce
  note ih = Cons.IH [OF ok(3) Cons.prems(2)]
  have m: "locked_at (put_range xs (min s a, max e b, t)) x =
     (if min s a \<le> x \<and> x \<le> max e b then if t = F_UNLCK then None else Some t else locked_at xs x)"
    using Cons.prems(2) ok by (intro Cons.IH) (auto simp: request_ok_def range_ok_def)
  show ?case
  proof (cases "u = t")
    case True
    then show ?thesis using ih m after ab se unfolding y by (auto simp: locked_at_append locked_at_emit)
  next
    case False
    then show ?thesis using ih after ab se unfolding y by (auto simp: locked_at_append locked_at_emit)
  qed
qed

subsection \<open>What the operations change\<close>

text \<open>The part of a lock that decides what it locks: all but the lists of waiters.\<close>

definition owner_of :: "file_lock \<Rightarrow> nat \<times> nat \<times> u8" where
  "owner_of f = (fl_owner f, fl_pid f, fl_flags f)"

definition range_of :: "file_lock \<Rightarrow> range" where
  "range_of f = (fl_start f, fl_end f, fl_type f)"

definition lock_view :: "lock_state \<Rightarrow> addr \<Rightarrow> (nat \<times> nat \<times> u8) \<times> range" where
  "lock_view st a = (owner_of (fls st a), range_of (fls st a))"

lemma view_fields:
  "lock_view st a = ((ow, p, g), s, e, t) \<longleftrightarrow> fl_owner (fls st a) = ow \<and> fl_pid (fls st a) = p \<and> fl_flags (fls st a) = g \<and>
     fl_start (fls st a) = s \<and> fl_end (fls st a) = e \<and> fl_type (fls st a) = t"
  by (auto simp: lock_view_def owner_of_def range_of_def)

lemma view_eq_fields:
  assumes "lock_view st a = lock_view st' b"
  shows "fl_owner (fls st a) = fl_owner (fls st' b)" "fl_pid (fls st a) = fl_pid (fls st' b)" "fl_flags (fls st a) = fl_flags (fls st' b)"
    "fl_start (fls st a) = fl_start (fls st' b)" "fl_end (fls st a) = fl_end (fls st' b)" "fl_type (fls st a) = fl_type (fls st' b)"
  using assms by (auto simp: lock_view_def owner_of_def range_of_def)

lemma delete_block_view [simp]: "lock_view (locks_delete_block w st) a = lock_view st a"
  by (simp add: locks_delete_block_def Let_def lock_view_def owner_of_def range_of_def)

lemma insert_block_view [simp]: "lock_view (locks_insert_block b w st) a = lock_view st a"
proof -
  define st1 where "st1 = (if w \<in> set (blocked_list st) then locks_delete_block w st else st)"
  have "lock_view (locks_insert_block b w st) a = lock_view st1 a"
    by (simp add: locks_insert_block_def Let_def lock_view_def owner_of_def range_of_def flip: st1_def)
  also have "\<dots> = lock_view st a" by (simp add: st1_def)
  finally show ?thesis .
qed

lemma wake_up_view [simp]: "lock_view (locks_wake_up_blocks b st) a = lock_view st a"
proof -
  have w: "lock_view (st\<lparr>woken_locks := l\<rparr>) a = lock_view st a" for st l by (simp add: lock_view_def)
  have "lock_view (fold (\<lambda>w st. (locks_delete_block w st)\<lparr>woken_locks := woken_locks st @ [w]\<rparr>) ws st) a = lock_view st a" for ws
    by (induction ws arbitrary: st) (simp_all add: w)
  then show ?thesis by (simp add: locks_wake_up_blocks_def)
qed

lemmas wake_up_fields [simp] = view_eq_fields [OF wake_up_view]

lemma delete_lock_view [simp]: "lock_view (locks_delete_lock inode k st) a = lock_view st a"
proof -
  have "lock_view (locks_free_lock fl st) a = lock_view st a" "lock_view (unhash_lock inode k st) a = lock_view st a" for fl st
    by (simp_all add: lock_view_def locks_free_lock_def unhash_lock_def)
  then show ?thesis by (simp add: locks_delete_lock_def delete_lock_def)
qed

lemma insert_lock_simps [simp]:
  "fls (locks_insert_lock inode k fl st) = fls st"
  "i_flock (locks_insert_lock inode k fl st) = (i_flock st)(inode := take k (i_flock st inode) @ fl # drop k (i_flock st inode))"
  by (simp_all add: locks_insert_lock_def)

lemma copy_lock_view: "lock_view (locks_copy_lock n fl st) a = (if a = n then lock_view st fl else lock_view st a)"
  by (simp add: locks_copy_lock_def lock_view_def owner_of_def range_of_def)

lemma copy_lock_list [simp]: "i_flock (locks_copy_lock n fl st) = i_flock st"
  by (simp add: locks_copy_lock_def)

lemma set_start_view: "lock_view (upd_fl b (\<lambda>f. f\<lparr>fl_start := x\<rparr>) st) a =
    (if a = b then (fst (lock_view st a), x, snd (snd (lock_view st a))) else lock_view st a)"
  by (simp add: lock_view_def owner_of_def range_of_def)

lemma set_end_view: "lock_view (upd_fl b (\<lambda>f. f\<lparr>fl_end := x\<rparr>) st) a =
    (if a = b then (fst (lock_view st a), fst (snd (lock_view st a)), x, snd (snd (snd (lock_view st a)))) else lock_view st a)"
  by (simp add: lock_view_def owner_of_def range_of_def)

lemma merge_lock_view:
  assumes "lock_view st fl = (k, a, b, u)" "lock_view st c = (k', s, e, t)" "fl \<noteq> c"
  shows "lock_view (merge_lock fl c st) x =
    (if x = fl then (k, min s a, max e b, u) else if x = c then (k', min s a, max e b, t) else lock_view st x)"
  using assms by (auto simp: merge_lock_def Let_def lock_view_def owner_of_def range_of_def)

lemma replace_lock_view:
  assumes "lock_view st fl = (k, a, b, u)" "lock_view st c = (k', s, e, t)"
  shows "lock_view (replace_lock fl c st) x = (if x = fl then (k, s, e, t) else lock_view st x)"
proof -
  have v: "lock_view (locks_wake_up_blocks fl st) y = lock_view st y" for y by simp
  show ?thesis using assms v [of x] v [of c] v [of fl] by (auto simp: replace_lock_def Let_def lock_view_def owner_of_def range_of_def)
qed

lemma s64_id: "- (2 ^ 63) \<le> x \<Longrightarrow> x < 2 ^ 63 \<Longrightarrow> loff64 x = x"
  by (simp add: loff64_def signed_take_bit_int_eq_self)

end
