(* ===== verification/FLockScan.thy ===== *)
theory FLockScan
  imports FLock
begin

text \<open>
  The loop of \<open>posix_lock_file\<close> over the locks of a process, and what follows it, against the reference algorithm \<open>put_range\<close>.
\<close>

subsection \<open>The loop absorbs what the new lock covers\<close>

abbreviation ranges :: "lock_state \<Rightarrow> addr list \<Rightarrow> range list" where
  "ranges st X \<equiv> map (\<lambda>a. snd (lock_view st a)) X"

definition same_key :: "nat \<times> nat \<times> u8 \<Rightarrow> nat \<times> nat \<times> u8 \<Rightarrow> bool" where
  "same_key k k' \<longleftrightarrow> fst k = fst k' \<and> fst (snd k) = fst (snd k')"

lemma same_key_refl [simp]: "same_key k k"
  by (simp add: same_key_def)

lemma same_owner_view: "locks_same_owner (fls st x) (fls st' y) \<longleftrightarrow> same_key (fst (lock_view st x)) (fst (lock_view st' y))"
  by (simp add: locks_same_owner_def same_key_def lock_view_def owner_of_def)

text \<open>The locks behind those of the owner.\<close>

definition other_next :: "lock_state \<Rightarrow> nat \<times> nat \<times> u8 \<Rightarrow> addr list \<Rightarrow> bool" where
  "other_next st k P \<longleftrightarrow> P = [] \<or> \<not> same_key k (fst (lock_view st (hd P)))"

lemma posix_scan_stop:
  assumes "i_flock st inode = A @ P" "before_pos v = length A" "lock_view st (caller v) = (k, r)" "other_next st k P"
  shows "posix_scan inode v st = (v, st)"
proof (cases P)
  case Nil
  then show ?thesis using assms by (subst posix_scan.simps) simp
next
  case (Cons p P')
  then show ?thesis using assms by (subst posix_scan.simps) (simp add: Let_def same_owner_view other_next_def)
qed

lemma posix_scan_step:
  assumes "i_flock st inode = A @ x # R" "before_pos v = length A" "lock_view st x = (k, a, b, u)" "lock_view st (caller v) = (k, s, e, t)"
  shows "posix_scan inode v st =
     (if t = u then
        (if b < loff64 (s - 1) then posix_scan inode (v\<lparr>before_pos := length A + 1\<rparr>) st
         else if loff64 (e + 1) < a then (v, st)
         else if added v then posix_scan inode v (locks_delete_lock inode (length A) (merge_lock x (caller v) st))
         else posix_scan inode (v\<lparr>before_pos := length A + 1, caller := x, added := True\<rparr>) (merge_lock x (caller v) st))
      else
        (if b < s then posix_scan inode (v\<lparr>before_pos := length A + 1\<rparr>) st
         else if e < a then (v, st)
         else
           (let v = (if t = F_UNLCK then v\<lparr>added := True\<rparr> else v);
                v = (if a < s then v\<lparr>left := x\<rparr> else v)
            in if e < b then (v\<lparr>right := x\<rparr>, st)
               else if s \<le> a then
                 (if added v then posix_scan inode v (locks_delete_lock inode (length A) st)
                  else posix_scan inode (v\<lparr>before_pos := length A + 1, caller := x, added := True\<rparr>) (replace_lock x (caller v) st))
               else posix_scan inode (v\<lparr>before_pos := length A + 1\<rparr>) st)))"
proof -
  have f: "fl_start (fls st x) = a" "fl_end (fls st x) = b" "fl_type (fls st x) = u"
      "fl_start (fls st (caller v)) = s" "fl_end (fls st (caller v)) = e" "fl_type (fls st (caller v)) = t"
    using assms(3,4) by (auto simp: lock_view_def range_of_def)
  have so: "locks_same_owner (fls st (caller v)) (fls st x)" using assms(3,4) by (simp add: same_owner_view)
  show ?thesis
    unfolding posix_scan.simps [of inode v st] using assms(1,2) so
    by (simp only: nth_append_length f Let_def if_True if_False length_append length_Cons not_True_eq_False) simp
qed

fun absorb :: "range list \<Rightarrow> range \<Rightarrow> range \<times> range list \<times> bool" where
  "absorb [] c = (c, [], False)"
| "absorb ((a, b, u) # xs) (s, e, t) =
     (if u = t then if e + 1 < a then ((s, e, t), (a, b, u) # xs, False) else absorb xs (min s a, max e b, t)
      else if e < a then ((s, e, t), (a, b, u) # xs, False)
      else if e < b then ((s, e, t), (a, b, u) # xs, True) else absorb xs (s, e, t))"

definition no_wrap :: "range list \<Rightarrow> range \<Rightarrow> bool" where
  "no_wrap xs = (\<lambda>(s, e, t). e < OFFSET_MAX \<or> (\<forall>(a, b, u)\<in>set xs. u = t \<longrightarrow> b < s - 1))"

text \<open>The ranges that remain behind the new lock, the first of them cut if need be.\<close>

definition cut_head :: "bool \<Rightarrow> int \<Rightarrow> range list \<Rightarrow> range list" where
  "cut_head r e ys = (if r then (case ys of [] \<Rightarrow> [] | (a, b, u) # zs \<Rightarrow> (e + 1, b, u) # zs) else ys)"

lemma put_absorb:
  assumes "ranges_ok xs" "\<forall>y\<in>set xs. s \<le> fst y" "absorb xs (s, e, t) = ((s', e', t'), ys, r)"
  shows "put_range xs (s, e, t) = emit (s', e', t') @ cut_head r e' ys \<and> s' = s \<and> t' = t"
  using assms
proof (induction xs arbitrary: e)
  case Nil
  then show ?case by (simp add: cut_head_def)
next
  case (Cons x xs)
  obtain a b u where x: "x = (a, b, u)" by (cases x)
  have ok: "s \<le> a" "a \<le> b" "ranges_ok xs" "\<forall>y\<in>set xs. s \<le> fst y"
    using Cons.prems(1,2) unfolding x ranges_ok_Cons by (auto simp: range_ok_def)
  then have m: "min s a = s" "\<not> b < s - 1" "\<not> b < s" "\<not> a < s" by auto
  show ?case
    using Cons.prems(3) Cons.IH [OF ok(3,4)] m unfolding x
    by (auto simp: cut_head_def split: if_splits)
qed

lemma absorb_result:
  assumes "absorb xs (s, e, t) = ((s', e', t'), ys, r)"
  shows "e \<le> e' \<and> (r \<longrightarrow> (\<exists>a b u zs. ys = (a, b, u) # zs \<and> a \<le> e' \<and> e' < b))"
  using assms
proof (induction xs arbitrary: s e)
  case (Cons x xs)
  obtain a b u where x: "x = (a, b, u)" by (cases x)
  consider "absorb (x # xs) (s, e, t) = absorb xs (min s a, max e b, t)" | "absorb (x # xs) (s, e, t) = absorb xs (s, e, t)"
    | "absorb (x # xs) (s, e, t) = ((s, e, t), x # xs, False)"
    | "absorb (x # xs) (s, e, t) = ((s, e, t), x # xs, True)" "a \<le> e" "e < b"
    unfolding x by (cases "u = t"; cases "e + 1 < a"; cases "e < a"; cases "e < b") auto
  then show ?case
  proof cases
    case 1
    then show ?thesis using Cons.IH [of "min s a" "max e b"] Cons.prems by auto
  next
    case 2
    then show ?thesis using Cons.IH [of s e] Cons.prems by simp
  qed (use Cons.prems x in auto)
qed simp

lemma no_wrap_tail:
  assumes "no_wrap ((a, b, u) # xs) (s, e, t)"
  shows "no_wrap xs (s, e, t)"
  using assms by (auto simp: no_wrap_def)

lemma no_wrap_merge:
  assumes "no_wrap ((a, b, t) # xs) (s, e, t)" "ranges_ok ((a, b, t) # xs)" "s - 1 \<le> b" "s' \<le> s"
  shows "no_wrap xs (s', max e b, t) \<and> e < OFFSET_MAX"
proof -
  have e: "e < OFFSET_MAX" using assms(1,3) by (auto simp: no_wrap_def)
  moreover have "xs = []" if "b = OFFSET_MAX"
  proof (rule ccontr)
    assume "xs \<noteq> []"
    then obtain a1 b1 u1 where "(a1, b1, u1) \<in> set xs" by (cases xs) auto
    then have "b < a1" "a1 \<le> b1" "b1 \<le> OFFSET_MAX"
      using assms(2) unfolding ranges_ok_def by (auto simp: apart_def range_ok_def)
    then show False using that by simp
  qed
  moreover have "b \<le> OFFSET_MAX" using assms(2) by (simp add: ranges_ok_Cons range_ok_def)
  ultimately show ?thesis by (cases "b = OFFSET_MAX") (auto simp: no_wrap_def)
qed

lemma scan_absorb:
  assumes "i_flock st inode = A @ X @ P" "before_pos v = length A" "added v" "right v = NULL"
    and "lock_view st (caller v) = (k, s, e, t)" "caller v \<notin> set (X @ P)" "distinct (X @ P)" "\<forall>x\<in>set X. fst (lock_view st x) = k" "other_next st k P"
    and "ranges_ok (ranges st X)" "\<forall>y\<in>set (ranges st X). s \<le> fst y"
    and "no_wrap (ranges st X) (s, e, t)" "0 \<le> s" "s \<le> e" "e \<le> OFFSET_MAX" "NULL \<notin> set X"
    and "absorb (ranges st X) (s, e, t) = (c', ys, r)"
  shows "\<exists>D Y st' rt. posix_scan inode v st = (v\<lparr>right := rt\<rparr>, st') \<and> X = D @ Y \<and>
     i_flock st' = (i_flock st)(inode := A @ Y @ P) \<and> lock_view st' (caller v) = (k, c') \<and>
     (\<forall>a. a \<notin> set D \<union> {caller v} \<longrightarrow> lock_view st' a = lock_view st a) \<and> ranges st Y = ys \<and>
     (if r then Y \<noteq> [] \<and> rt = hd Y else rt = NULL)"
  using assms
proof (induction X arbitrary: st s e)
  case Nil
  have "posix_scan inode v st = (v, st)" using Nil.prems by (intro posix_scan_stop) auto
  moreover have "v\<lparr>right := NULL\<rparr> = v" using Nil.prems(4) by (cases v) simp
  ultimately show ?case using Nil.prems by (intro exI [of _ "[]"] exI [of _ st] exI [of _ NULL]) auto
next
  case (Cons x X)
  obtain a b u where x: "lock_view st x = (k, a, b, u)" using Cons.prems(8) by (cases "lock_view st x") auto
  have ok: "s \<le> a" "a \<le> b" "b \<le> OFFSET_MAX" "0 \<le> a" "u \<noteq> F_UNLCK" using Cons.prems(10,11) x by (auto simp: ranges_ok_Cons range_ok_def kdefs)
  have xc: "x \<noteq> caller v" using Cons.prems(6) by auto
  have s1: "loff64 (s - 1) = s - 1" using Cons.prems(13-15) by (intro s64_id) (simp_all add: OFFSET_MAX_def)
  have id: "v\<lparr>right := NULL\<rparr> = v" using Cons.prems(4) by (cases v) simp
  have tl: "ranges_ok (ranges st X)" "\<forall>y\<in>set (ranges st X). s \<le> fst y"
    using Cons.prems(10,11) by (simp_all add: ranges_ok_Cons)
  have stop: ?case if "posix_scan inode v st = (v\<lparr>right := rt\<rparr>, st)" "c' = (s, e, t)" "ys = ranges st (x # X)"
      "rt = (if r then x else NULL)" for rt
    using that Cons.prems(1,5) by (intro exI [of _ "[]"] exI [of _ "x # X"] exI [of _ st] exI [of _ rt]) auto
  note step = posix_scan_step [OF Cons.prems(1) [simplified] Cons.prems(2) x Cons.prems(5)]
  show ?case
  proof (cases "t = u")
    case True
    have e1: "e < OFFSET_MAX" "no_wrap (ranges st X) (min s a, max e b, t)"
      using no_wrap_merge [of a b t "ranges st X" s e "min s a"] Cons.prems(10,12) x True ok by auto
    have s2: "loff64 (e + 1) = e + 1" using e1 Cons.prems(13,14) by (intro s64_id) (simp_all add: OFFSET_MAX_def)
    show ?thesis
    proof (cases "e + 1 < a")
      case True
      then show ?thesis using \<open>t = u\<close> step ok s1 s2 Cons.prems(17) x id by (intro stop [of NULL]) auto
    next
      case False
      define st1 where "st1 = locks_delete_lock inode (length A) (merge_lock x (caller v) st)"
      have v1: "lock_view st1 y = (if y = x then (k, min s a, max e b, u) else if y = caller v then (k, min s a, max e b, t) else lock_view st y)" for y
        unfolding st1_def using merge_lock_view [OF x Cons.prems(5) xc] by simp
      have m1: "ranges st1 X = ranges st X" using Cons.prems(6,7) by (auto simp: v1)
      have "\<exists>D Y st' rt. posix_scan inode v st1 = (v\<lparr>right := rt\<rparr>, st') \<and> X = D @ Y \<and>
         i_flock st' = (i_flock st1)(inode := A @ Y @ P) \<and> lock_view st' (caller v) = (k, c') \<and>
         (\<forall>a. a \<notin> set D \<union> {caller v} \<longrightarrow> lock_view st' a = lock_view st1 a) \<and> ranges st1 Y = ys \<and>
         (if r then Y \<noteq> [] \<and> rt = hd Y else rt = NULL)"
      proof (rule Cons.IH)
        show "i_flock st1 inode = A @ X @ P" using Cons.prems(1) by (simp add: st1_def)
        show "lock_view st1 (caller v) = (k, min s a, max e b, t)" using xc by (simp add: v1)
        show "\<forall>y\<in>set X. fst (lock_view st1 y) = k" using Cons.prems(8) by (auto simp: v1)
        show "other_next st1 k P" using Cons.prems(6,7,9) by (cases P) (auto simp: other_next_def v1)
        show "ranges_ok (ranges st1 X)" unfolding m1 by (rule tl(1))
        show "\<forall>y\<in>set (ranges st1 X). min s a \<le> fst y" unfolding m1 using tl(2) by auto
        show "no_wrap (ranges st1 X) (min s a, max e b, t)" unfolding m1 by (rule e1(2))
        show "absorb (ranges st1 X) (min s a, max e b, t) = (c', ys, r)"
          unfolding m1 using Cons.prems(17) x \<open>t = u\<close> False by simp
      qed (use Cons.prems ok in auto)
      moreover have "posix_scan inode v st = posix_scan inode v st1"
        using step \<open>t = u\<close> False ok s1 s2 Cons.prems(3) by (simp add: st1_def)
      moreover have "(i_flock st1)(inode := A @ Y @ P) = (i_flock st)(inode := A @ Y @ P)" for Y by (simp add: st1_def)
      ultimately obtain D Y st' rt where r: "posix_scan inode v st = (v\<lparr>right := rt\<rparr>, st')" "X = D @ Y"
         "i_flock st' = (i_flock st)(inode := A @ Y @ P)" "lock_view st' (caller v) = (k, c')"
         "\<forall>a. a \<notin> set D \<union> {caller v} \<longrightarrow> lock_view st' a = lock_view st1 a" "ranges st1 Y = ys"
         "if r then Y \<noteq> [] \<and> rt = hd Y else rt = NULL" by metis
      moreover have "ranges st Y = ys" using r(2,6) Cons.prems(6,7) by (auto simp: v1)
      ultimately show ?thesis
        by (intro exI [of _ "x # D"] exI [of _ Y] exI [of _ st'] exI [of _ rt]) (auto simp: v1)
    qed
  next
    case False
    consider "e < a" | "a \<le> e" "e < b" | "a \<le> e" "b \<le> e" by linarith
    then show ?thesis
    proof cases
      case 1
      then show ?thesis using False step ok Cons.prems(17) x id by (intro stop [of NULL]) auto
    next
      case 2
      have "v\<lparr>added := True\<rparr> = v" using Cons.prems(3) by (cases v) simp
      then show ?thesis using 2 False step ok Cons.prems(17) x by (intro stop [of x]) (auto simp: Let_def)
    next
      case 3
      define st1 where "st1 = locks_delete_lock inode (length A) st"
      have v1: "lock_view st1 y = lock_view st y" for y by (simp add: st1_def)
      have m1: "ranges st1 X = ranges st X" by (simp add: v1)
      have "\<exists>D Y st' rt. posix_scan inode v st1 = (v\<lparr>right := rt\<rparr>, st') \<and> X = D @ Y \<and>
         i_flock st' = (i_flock st1)(inode := A @ Y @ P) \<and> lock_view st' (caller v) = (k, c') \<and>
         (\<forall>a. a \<notin> set D \<union> {caller v} \<longrightarrow> lock_view st' a = lock_view st1 a) \<and> ranges st1 Y = ys \<and>
         (if r then Y \<noteq> [] \<and> rt = hd Y else rt = NULL)"
      proof (rule Cons.IH)
        show "i_flock st1 inode = A @ X @ P" using Cons.prems(1) by (simp add: st1_def)
        show "lock_view st1 (caller v) = (k, s, e, t)" using Cons.prems(5) by (simp add: v1)
        show "other_next st1 k P" using Cons.prems(9) by (simp add: other_next_def v1)
        show "no_wrap (ranges st1 X) (s, e, t)" unfolding m1 using no_wrap_tail Cons.prems(12) x by simp
        show "absorb (ranges st1 X) (s, e, t) = (c', ys, r)"
          unfolding m1 using Cons.prems(17) x False 3 by simp
      qed (use Cons.prems tl in \<open>auto simp: m1 v1\<close>)
      moreover have va: "v\<lparr>added := True\<rparr> = v" using Cons.prems(3) by (cases v) simp
      have "posix_scan inode v st = posix_scan inode v st1"
        unfolding step using False 3 ok Cons.prems(3) by (simp add: st1_def Let_def va)
      moreover have "(i_flock st1)(inode := A @ Y @ P) = (i_flock st)(inode := A @ Y @ P)" for Y by (simp add: st1_def)
      ultimately obtain D Y st' rt where r: "posix_scan inode v st = (v\<lparr>right := rt\<rparr>, st')" "X = D @ Y"
         "i_flock st' = (i_flock st)(inode := A @ Y @ P)" "lock_view st' (caller v) = (k, c')"
         "\<forall>a. a \<notin> set D \<union> {caller v} \<longrightarrow> lock_view st' a = lock_view st a" "ranges st Y = ys"
         "if r then Y \<noteq> [] \<and> rt = hd Y else rt = NULL" unfolding v1 by metis
      then show ?thesis
        by (intro exI [of _ "x # D"] exI [of _ Y] exI [of _ st'] exI [of _ rt]) auto
    qed
  qed
qed

subsection \<open>What follows the loop\<close>

definition set_start :: "int \<Rightarrow> (nat \<times> nat \<times> u8) \<times> range \<Rightarrow> (nat \<times> nat \<times> u8) \<times> range" where
  "set_start x = (\<lambda>(k, a, b, u). (k, x, b, u))"

definition set_end :: "int \<Rightarrow> (nat \<times> nat \<times> u8) \<times> range \<Rightarrow> (nat \<times> nat \<times> u8) \<times> range" where
  "set_end x = (\<lambda>(k, a, b, u). (k, a, x, u))"

lemma set_simps [simp]: "set_start x (k, a, b, u) = (k, x, b, u)" "set_end x (k, a, b, u) = (k, a, x, u)"
  by (simp_all add: set_start_def set_end_def)

lemma finish_none:
  assumes "lock_view st (caller v) = (k, s, e, F_UNLCK)" "\<not> added v"
  shows "posix_finish inode n1 n2 v st = ([n1, n2], st)"
  using assms by (simp add: posix_finish_def lock_view_def range_of_def)

lemma finish_effect:
  assumes c: "lock_view st (caller v) = (k, s, e, t)" and a: "added v \<or> t \<noteq> F_UNLCK"
    and d: "caller v \<noteq> right v" "caller v \<noteq> left v" "caller v \<notin> {n1, n2}" "right v \<notin> {n1, n2}" "left v \<notin> {n1, n2}" "n1 \<noteq> n2" "n2 \<noteq> NULL"
    and p: "before_pos v \<le> length (i_flock st inode)"
  shows "i_flock (snd (posix_finish inode n1 n2 v st)) = (i_flock st)(inode := take (before_pos v) (i_flock st inode) @
       (if right v \<noteq> NULL \<and> left v = right v then [n2] else []) @ (if added v then [] else [n1]) @ drop (before_pos v) (i_flock st inode))"
    and "lock_view (snd (posix_finish inode n1 n2 v st)) x =
       (if right v \<noteq> NULL \<and> x = right v then set_start (loff64 (e + 1)) (lock_view st x)
        else if right v \<noteq> NULL \<and> left v = right v \<and> x = n2 then set_end (loff64 (s - 1)) (lock_view st (right v))
        else if left v \<noteq> NULL \<and> x = left v then set_end (loff64 (s - 1)) (lock_view st x)
        else if \<not> added v \<and> x = n1 then (k, s, e, t) else lock_view st x)"
    and "fst (posix_finish inode n1 n2 v st) =
       (if added v then [n1] else []) @ (if right v \<noteq> NULL \<and> left v = right v then [] else [n2])"
proof -
  define st1 where "st1 = (if added v then st else locks_insert_lock inode (before_pos v) n1 (locks_copy_lock n1 (caller v) st))"
  define st2 where "st2 = (if right v \<noteq> NULL \<and> left v = right v
     then locks_insert_lock inode (before_pos v) n2 (locks_copy_lock n2 (right v) st1) else st1)"
  define lft where "lft = (if right v \<noteq> NULL \<and> left v = right v then n2 else left v)"
  define st3 where "st3 = (if right v \<noteq> NULL
     then locks_wake_up_blocks (right v) (upd_fl (right v) (\<lambda>f. f\<lparr>fl_start := loff64 (fl_end (fls st2 (caller v)) + 1)\<rparr>) st2) else st2)"
  define st4 where "st4 = (if lft \<noteq> NULL
     then locks_wake_up_blocks lft (upd_fl lft (\<lambda>f. f\<lparr>fl_end := loff64 (fl_start (fls st3 (caller v)) - 1)\<rparr>) st3) else st3)"
  have t: "\<not> (\<not> added v \<and> fl_type (fls st (caller v)) = F_UNLCK)" using c a by (auto simp: lock_view_def range_of_def)
  have eq: "posix_finish inode n1 n2 v st =
      ((if added v then [n1] else []) @ (if right v \<noteq> NULL \<and> left v = right v then [] else [n2]), st4)"
    using t unfolding posix_finish_def st4_def st3_def st2_def st1_def lft_def Let_def
    by (cases "added v"; cases "right v = NULL"; cases "left v = right v") (simp_all add: Let_def)
  have i1: "lock_view (locks_insert_lock inode p n st) y = lock_view st y" for p n st y by (simp add: lock_view_def)
  have v1: "lock_view st1 y = (if \<not> added v \<and> y = n1 then (k, s, e, t) else lock_view st y)" for y
    by (simp add: st1_def i1 copy_lock_view c)
  have v2: "lock_view st2 y = (if right v \<noteq> NULL \<and> left v = right v \<and> y = n2 then lock_view st (right v) else lock_view st1 y)" for y
    using d by (auto simp: st2_def i1 copy_lock_view v1)
  have c2: "lock_view st2 (caller v) = (k, s, e, t)" using c d by (simp add: v2 v1)
  then have "fl_end (fls st2 (caller v)) = e" by (simp add: lock_view_def range_of_def)
  then have v3: "lock_view st3 y = (if right v \<noteq> NULL \<and> y = right v then set_start (loff64 (e + 1)) (lock_view st2 y) else lock_view st2 y)" for y
    by (auto simp: st3_def set_start_view set_start_def split: prod.split)
  have "lock_view st3 (caller v) = (k, s, e, t)" using c2 d by (simp add: v3)
  then have "fl_start (fls st3 (caller v)) = s" by (simp add: lock_view_def range_of_def)
  then have v4: "lock_view st4 y = (if lft \<noteq> NULL \<and> y = lft then set_end (loff64 (s - 1)) (lock_view st3 y) else lock_view st3 y)" for y
    by (auto simp: st4_def set_end_view set_end_def split: prod.split)
  show "fst (posix_finish inode n1 n2 v st) =
       (if added v then [n1] else []) @ (if right v \<noteq> NULL \<and> left v = right v then [] else [n2])"
    by (simp add: eq)
  have "i_flock st4 = i_flock st2" by (simp add: st4_def st3_def)
  then show "i_flock (snd (posix_finish inode n1 n2 v st)) = (i_flock st)(inode := take (before_pos v) (i_flock st inode) @
       (if right v \<noteq> NULL \<and> left v = right v then [n2] else []) @ (if added v then [] else [n1]) @ drop (before_pos v) (i_flock st inode))"
    unfolding eq using p by (auto simp: st2_def st1_def)
  show "lock_view (snd (posix_finish inode n1 n2 v st)) x =
       (if right v \<noteq> NULL \<and> x = right v then set_start (loff64 (e + 1)) (lock_view st x)
        else if right v \<noteq> NULL \<and> left v = right v \<and> x = n2 then set_end (loff64 (s - 1)) (lock_view st (right v))
        else if left v \<noteq> NULL \<and> x = left v then set_end (loff64 (s - 1)) (lock_view st x)
        else if \<not> added v \<and> x = n1 then (k, s, e, t) else lock_view st x)"
  proof -
    consider (R) "right v \<noteq> NULL" "x = right v" | (N) "right v \<noteq> NULL" "left v = right v" "x = n2"
      | (L) "left v \<noteq> NULL" "x = left v" "\<not> (right v \<noteq> NULL \<and> x = right v)"
      | (O) "\<not> (right v \<noteq> NULL \<and> x = right v)" "\<not> (right v \<noteq> NULL \<and> left v = right v \<and> x = n2)" "\<not> (left v \<noteq> NULL \<and> x = left v)"
      by blast
    then show ?thesis
    proof cases
      case R
      have "lft \<noteq> x" using d R unfolding lft_def by (cases "left v = right v") simp_all
      then show ?thesis using R d unfolding eq snd_conv v4 v3 v2 v1 by simp
    next
      case N
      then have "lft = n2" by (simp add: lft_def)
      then show ?thesis using N d unfolding eq snd_conv v4 v3 v2 v1 by simp
    next
      case L
      then have "lft = left v" by (auto simp: lft_def)
      then show ?thesis using L(1,2) d unfolding eq snd_conv v4 v3 v2 v1 if_not_P [OF L(3)] by auto
    next
      case O
      then have l: "\<not> (lft \<noteq> NULL \<and> x = lft)" by (auto simp: lft_def)
      show ?thesis unfolding eq snd_conv v4 v3 v2 v1 if_not_P [OF l] if_not_P [OF O(1)] if_not_P [OF O(2)] if_not_P [OF O(3)] ..
    qed
  qed
qed

lemma fst_set [simp]: "fst (set_start x w) = fst w" "fst (set_end x w) = fst w"
  by (simp_all add: set_start_def set_end_def split: prod.split)

definition finish_scan :: "nat \<Rightarrow> addr \<Rightarrow> addr \<Rightarrow> lock_scan \<Rightarrow> lock_state \<Rightarrow> addr list \<times> lock_state" where
  "finish_scan inode n1 n2 v st = (case posix_scan inode v st of (v', st') \<Rightarrow> posix_finish inode n1 n2 v' st')"

text \<open>The rest of a run in which the new lock has found its place.\<close>

lemma finish_added:
  assumes L: "i_flock st inode = A @ X @ P" "before_pos v = length A" "added v" "right v = NULL"
    and c: "lock_view st (caller v) = (k, s, e, t)" "caller v \<notin> set (X @ P)" "distinct (X @ P)" "\<forall>x\<in>set X. fst (lock_view st x) = k" "other_next st k P"
    and ok: "ranges_ok (ranges st X)" "\<forall>y\<in>set (ranges st X). s \<le> fst y"
    and req: "no_wrap (ranges st X) (s, e, t)" "0 \<le> s" "s \<le> e" "e \<le> OFFSET_MAX" "NULL \<notin> set X" "caller v \<noteq> NULL"
    and n: "{n1, n2} \<inter> set X = {}" "caller v \<notin> {n1, n2}" "n1 \<noteq> n2" "n2 \<noteq> NULL" "n1 \<noteq> NULL"
    and l: "left v \<notin> set X \<union> {caller v, n1, n2}"
  shows "\<exists>un st' Y e'. finish_scan inode n1 n2 v st = (un, st') \<and> set Y \<subseteq> set X \<and> distinct Y \<and>
    i_flock st' = (i_flock st)(inode := A @ Y @ P) \<and> (\<forall>y\<in>set Y. fst (lock_view st' y) = k) \<and>
    put_range (ranges st X) (s, e, t) = emit (s, e', t) @ ranges st' Y \<and> lock_view st' (caller v) = (k, s, e', t) \<and>
    (\<forall>a. a \<notin> set X \<union> {caller v} \<longrightarrow> lock_view st' a = (if left v \<noteq> NULL \<and> a = left v then set_end (s - 1) (lock_view st a) else lock_view st a))"
proof -
  obtain s' e' t' ys r where ab: "absorb (ranges st X) (s, e, t) = ((s', e', t'), ys, r)" by (metis prod.exhaust)
  have put: "put_range (ranges st X) (s, e, t) = emit (s', e', t') @ cut_head r e' ys" and st: "s' = s" "t' = t"
    using put_absorb [OF ok ab] by auto
  obtain D Y st1 rt where sc: "posix_scan inode v st = (v\<lparr>right := rt\<rparr>, st1)" "X = D @ Y"
     "i_flock st1 = (i_flock st)(inode := A @ Y @ P)" "lock_view st1 (caller v) = (k, s, e', t)"
     "\<And>a. a \<notin> set D \<union> {caller v} \<Longrightarrow> lock_view st1 a = lock_view st a" "ranges st Y = ys" "if r then Y \<noteq> [] \<and> rt = hd Y else rt = NULL"
    using scan_absorb [OF L c ok req(1-5) ab] unfolding st by blast
  let ?v = "v\<lparr>right := rt\<rparr>"
  have rt: "rt = NULL \<or> rt \<in> set Y" using sc(7) by (auto split: if_splits)
  have yx: "set Y \<subseteq> set X" "distinct Y" using sc(2) c(3) by auto
  have vY: "lock_view st1 y = lock_view st y" if "y \<in> set Y" for y using that sc(2) c(2,3) by (intro sc(5)) auto
  have neq: "caller v \<noteq> rt" "left v \<noteq> rt \<or> rt = NULL" "rt \<notin> {n1, n2}" using rt yx c(2) req(6) n l by auto
  have fin: "i_flock (snd (posix_finish inode n1 n2 ?v st1)) = (i_flock st1)(inode := A @ Y @ P)"
    "lock_view (snd (posix_finish inode n1 n2 ?v st1)) x =
       (if rt \<noteq> NULL \<and> x = rt then set_start (loff64 (e' + 1)) (lock_view st1 x)
        else if left v \<noteq> NULL \<and> x = left v then set_end (loff64 (s - 1)) (lock_view st1 x) else lock_view st1 x)" for x
    using finish_effect [of st1 ?v k s e' t n1 n2 inode] sc(3,4) L(2,3) neq n l by auto
  define st2 where "st2 = snd (posix_finish inode n1 n2 ?v st1)"
  have s1: "loff64 (s - 1) = s - 1" using req(2-4) by (intro s64_id) (simp_all add: OFFSET_MAX_def)
  have v2: "lock_view st2 y = (if rt \<noteq> NULL \<and> y = rt then set_start (loff64 (e' + 1)) (lock_view st y) else lock_view st y)" if "y \<in> set Y" for y
    using that fin(2) [of y] vY [OF that] l yx unfolding st2_def by auto
  have "ranges st2 Y = cut_head r e' ys"
  proof (cases r)
    case True
    then obtain Y' where Y': "Y = rt # Y'" using sc(7) by (cases Y) auto
    then obtain a b u where vr: "lock_view st rt = (k, a, b, u)" using c(4) yx by (cases "lock_view st rt") auto
    have "rt \<in> set X" using Y' yx by simp
    then have r0: "rt \<noteq> NULL" using req(5) by metis
    have "(a, b, u) \<in> set (ranges st X)" using vr Y' yx by force
    then have b: "b \<le> OFFSET_MAX" using ok(1) by (auto simp: ranges_ok_def range_ok_def)
    have "e' < b" "0 \<le> e'" using absorb_result [OF ab] True vr Y' sc(6) req(2,3) by auto
    then have "loff64 (e' + 1) = e' + 1" using b by (intro s64_id) (simp_all add: OFFSET_MAX_def)
    moreover have "rt \<notin> set Y'" using yx(2) Y' by simp
    then have "lock_view st2 y = lock_view st y" if "y \<in> set Y'" for y using v2 [of y] Y' that by auto
    ultimately show ?thesis
      using v2 [of rt] r0 vr sc(6) True unfolding Y' by (auto simp: cut_head_def)
  next
    case False
    then have "lock_view st2 y = lock_view st y" if "y \<in> set Y" for y using v2 [OF that] sc(7) by simp
    then show ?thesis using False by (auto simp: cut_head_def simp flip: sc(6))
  qed
  then have "put_range (ranges st X) (s, e, t) = emit (s, e', t) @ ranges st2 Y" using put st by simp
  moreover have "fst (lock_view st2 y) = k" if "y \<in> set Y" for y
    using v2 [OF that] c(4) yx(1) that by auto
  moreover have "lock_view st2 (caller v) = (k, s, e', t)" using fin(2) [of "caller v"] sc(4) neq l by (auto simp: st2_def)
  moreover have "lock_view st2 a = (if left v \<noteq> NULL \<and> a = left v then set_end (s - 1) (lock_view st a) else lock_view st a)"
    if "a \<notin> set X \<union> {caller v}" for a
    using fin(2) [of a] sc(5) [of a] that sc(2) rt yx by (auto simp: st2_def s1)
  moreover have "finish_scan inode n1 n2 v st = (fst (posix_finish inode n1 n2 ?v st1), st2)"
    by (simp add: finish_scan_def sc(1) st2_def)
  moreover have "i_flock st2 = (i_flock st)(inode := A @ Y @ P)" using fin(1) sc(3) by (simp add: st2_def)
  ultimately show ?thesis using yx by blast
qed

text \<open>The whole run, from any position before which nothing has to be changed but the end of the lock \<open>left\<close>.\<close>

definition put_result :: "nat \<Rightarrow> lock_scan \<Rightarrow> addr list \<Rightarrow> addr list \<Rightarrow> addr list \<Rightarrow> addr set \<Rightarrow> nat \<times> nat \<times> u8 \<Rightarrow> range \<Rightarrow>
    lock_state \<Rightarrow> lock_state \<Rightarrow> bool" where
  "put_result inode v A X P N k c st st' \<longleftrightarrow>
     (\<exists>Y. i_flock st' = (i_flock st)(inode := A @ Y @ P) \<and> set Y \<subseteq> set X \<union> N \<and> distinct Y \<and>
        (\<forall>y\<in>set Y. fst (lock_view st' y) = k) \<and> ranges st' Y = put_range (ranges st X) c \<and>
        (\<forall>a. a \<notin> set X \<union> {caller v} \<union> N \<longrightarrow>
           lock_view st' a = (if left v \<noteq> NULL \<and> a = left v then set_end (fst c - 1) (lock_view st a) else lock_view st a)))"

lemma put_resultI:
  assumes "i_flock st' = (i_flock st)(inode := A @ Y @ P)" "set Y \<subseteq> set X \<union> N" "distinct Y" "\<And>y. y \<in> set Y \<Longrightarrow> fst (lock_view st' y) = k"
    "ranges st' Y = put_range (ranges st X) c"
    "\<And>a. a \<notin> set X \<union> {caller v} \<union> N \<Longrightarrow> lock_view st' a = (if left v \<noteq> NULL \<and> a = left v then set_end (fst c - 1) (lock_view st a) else lock_view st a)"
  shows "put_result inode v A X P N k c st st'"
  unfolding put_result_def using assms by blast

lemma put_result_skip:
  assumes "put_result inode v' (A @ [x]) X P N k (s, e, t) st st'" "caller v' = caller v"
    and "x \<notin> set X \<union> N" "fst (lock_view st x) = k"
    and l: "left v' = left v \<and> left v \<noteq> x \<and> put_range (ranges st (x # X)) (s, e, t) = snd (lock_view st x) # put_range (ranges st X) (s, e, t) \<or>
      left v' = x \<and> x \<noteq> NULL \<and> left v = NULL \<and>
      put_range (ranges st (x # X)) (s, e, t) = snd (set_end (s - 1) (lock_view st x)) # put_range (ranges st X) (s, e, t)"
    and "x \<noteq> caller v"
  shows "put_result inode v A (x # X) P N k (s, e, t) st st'"
proof -
  obtain Y where Y: "i_flock st' = (i_flock st)(inode := (A @ [x]) @ Y @ P)" "set Y \<subseteq> set X \<union> N" "distinct Y"
     "\<And>y. y \<in> set Y \<Longrightarrow> fst (lock_view st' y) = k" "ranges st' Y = put_range (ranges st X) (s, e, t)"
     "\<And>a. a \<notin> set X \<union> {caller v} \<union> N \<Longrightarrow> lock_view st' a = (if left v' \<noteq> NULL \<and> a = left v' then set_end (s - 1) (lock_view st a) else lock_view st a)"
    using assms(1,2) unfolding put_result_def by auto
  have vx: "lock_view st' x = (if left v' = x \<and> x \<noteq> NULL then set_end (s - 1) (lock_view st x) else lock_view st x)"
    using Y(6) [of x] assms(3,6) by auto
  show ?thesis
  proof (rule put_resultI)
    show "i_flock st' = (i_flock st)(inode := A @ (x # Y) @ P)" using Y(1) by simp
    show "set (x # Y) \<subseteq> set (x # X) \<union> N" "distinct (x # Y)" using Y(2,3) assms(3) by auto
    show "fst (lock_view st' y) = k" if "y \<in> set (x # Y)" for y
      using that Y(4) vx assms(4) by (auto simp: set_end_def split: prod.splits if_splits)
    show "ranges st' (x # Y) = put_range (ranges st (x # X)) (s, e, t)" using Y(5) l vx by auto
    show "lock_view st' a = (if left v \<noteq> NULL \<and> a = left v then set_end (fst (s, e, t) - 1) (lock_view st a) else lock_view st a)"
      if "a \<notin> set (x # X) \<union> {caller v} \<union> N" for a
      using Y(6) [of a] that l by auto
  qed
qed

lemma put_result_added:
  assumes sc: "finish_scan inode n1 n2 v st = finish_scan inode n1 n2 v1 st1"
    and add: "\<exists>un st' Y e'. finish_scan inode n1 n2 v1 st1 = (un, st') \<and> set Y \<subseteq> set X \<and> distinct Y \<and>
      i_flock st' = (i_flock st1)(inode := A1 @ Y @ P) \<and> (\<forall>y\<in>set Y. fst (lock_view st' y) = k) \<and>
      put_range (ranges st1 X) (s1, e1, t) = emit (s1, e', t) @ ranges st' Y \<and> lock_view st' (caller v1) = (k, s1, e', t) \<and>
      (\<forall>a. a \<notin> set X \<union> {caller v1} \<longrightarrow> lock_view st' a = (if left v1 \<noteq> NULL \<and> a = left v1 then set_end (s1 - 1) (lock_view st1 a) else lock_view st1 a))"
    and x: "caller v1 = x" "A1 = A @ [x]" "left v1 = left v" "t \<noteq> F_UNLCK" "x \<notin> set X" "left v \<noteq> x" "left v \<noteq> NULL \<Longrightarrow> s1 = s"
    and i: "\<And>Z. (i_flock st1)(inode := Z) = (i_flock st)(inode := Z)" and r: "ranges st1 X = ranges st X"
    and fr: "\<And>a. a \<notin> set (x # X) \<union> {caller v} \<union> {n1, n2} \<Longrightarrow> lock_view st1 a = lock_view st a"
    and p: "put_range (ranges st (x # X)) (s, e, t) = put_range (ranges st X) (s1, e1, t)"
  shows "put_result inode v A (x # X) P {n1, n2} k (s, e, t) st (snd (finish_scan inode n1 n2 v st))"
proof -
  obtain un st' Y e' where f: "finish_scan inode n1 n2 v st = (un, st')" "set Y \<subseteq> set X" "distinct Y"
      "i_flock st' = (i_flock st1)(inode := A1 @ Y @ P)" "\<forall>y\<in>set Y. fst (lock_view st' y) = k"
      "put_range (ranges st1 X) (s1, e1, t) = emit (s1, e', t) @ ranges st' Y" "lock_view st' x = (k, s1, e', t)"
      "\<forall>a. a \<notin> set X \<union> {x} \<longrightarrow> lock_view st' a = (if left v \<noteq> NULL \<and> a = left v then set_end (s1 - 1) (lock_view st1 a) else lock_view st1 a)"
    using add unfolding sc x(1,3) by blast
  show ?thesis
    unfolding f(1) snd_conv
  proof (rule put_resultI)
    show "i_flock st' = (i_flock st)(inode := A @ (x # Y) @ P)" using f(4) i x(2) by simp
    show "set (x # Y) \<subseteq> set (x # X) \<union> {n1, n2}" "distinct (x # Y)" using f(2,3) x(5) by auto
    show "fst (lock_view st' y) = k" if "y \<in> set (x # Y)" for y using that f(5,7) by auto
    show "ranges st' (x # Y) = put_range (ranges st (x # X)) (s, e, t)" using f(6,7) p r x(4) by (simp add: emit_def)
    show "lock_view st' a = (if left v \<noteq> NULL \<and> a = left v then set_end (fst (s, e, t) - 1) (lock_view st a) else lock_view st a)"
      if "a \<notin> set (x # X) \<union> {caller v} \<union> {n1, n2}" for a
      using f(8) [rule_format, of a] fr [OF that] that x(7) by auto
  qed
qed

lemma put_result_unlocked:
  assumes add: "\<exists>un st' Y e'. finish_scan inode n1 n2 v st = (un, st') \<and> set Y \<subseteq> set X \<and> distinct Y \<and>
      i_flock st' = (i_flock st)(inode := A @ Y @ P) \<and> (\<forall>y\<in>set Y. fst (lock_view st' y) = k) \<and>
      put_range (ranges st X) (s, e, t) = emit (s, e', t) @ ranges st' Y \<and> lock_view st' (caller v) = (k, s, e', t) \<and>
      (\<forall>a. a \<notin> set X \<union> {caller v} \<longrightarrow> lock_view st' a = (if left v \<noteq> NULL \<and> a = left v then set_end (s - 1) (lock_view st a) else lock_view st a))"
    and "t = F_UNLCK"
  shows "put_result inode v A X P {n1, n2} k (s, e, t) st (snd (finish_scan inode n1 n2 v st))"
proof -
  obtain un st' Y e' where f: "finish_scan inode n1 n2 v st = (un, st')" "set Y \<subseteq> set X" "distinct Y"
      "i_flock st' = (i_flock st)(inode := A @ Y @ P)" "\<forall>y\<in>set Y. fst (lock_view st' y) = k"
      "put_range (ranges st X) (s, e, t) = emit (s, e', t) @ ranges st' Y"
      "\<forall>a. a \<notin> set X \<union> {caller v} \<longrightarrow> lock_view st' a = (if left v \<noteq> NULL \<and> a = left v then set_end (s - 1) (lock_view st a) else lock_view st a)"
    using add by blast
  then show ?thesis
    using assms(2) by (intro put_resultI [of _ _ _ _ Y]) (auto simp: emit_def)
qed

lemma put_result_dropped:
  assumes "put_result inode v1 A X P N k c st1 st'" "caller v1 = caller v" "left v1 = left v"
    and "\<And>Z. (i_flock st1)(inode := Z) = (i_flock st)(inode := Z)" "\<And>y. lock_view st1 y = lock_view st y"
    and "put_range (ranges st (x # X)) c = put_range (ranges st X) c"
  shows "put_result inode v A (x # X) P N k c st st'"
  using assms(1) unfolding put_result_def assms(2-5) assms(6) by fastforce

text \<open>The new lock stands before the remaining ones, of which the first may have to be cut and may have to be split.\<close>

lemma put_result_insert:
  assumes sc: "posix_scan inode v st = (v', st)" "caller v' = caller v" "before_pos v' = length A" "left v' = (if sp then x else left v)"
      "right v' = (if r then x else NULL)"
    and c: "lock_view st (caller v) = (k, s, e, t)" and a: "added v' = (t = F_UNLCK)"
    and L: "i_flock st inode = A @ (x # X) @ P" "x \<notin> set X" "distinct (A @ x # X)" "x \<noteq> NULL" "\<forall>y\<in>set (x # X). fst (lock_view st y) = k"
    and d: "caller v \<notin> set (A @ x # X)" "caller v \<noteq> NULL" "caller v \<notin> {n1, n2}" "{n1, n2} \<inter> set (A @ x # X) = {}" "n1 \<noteq> n2" "n2 \<noteq> NULL" "n1 \<noteq> NULL"
    and l: "left v = NULL \<or> left v \<in> set A"
    and sp: "sp \<Longrightarrow> r" and e1: "r \<Longrightarrow> loff64 (e + 1) = e + 1" "loff64 (s - 1) = s - 1" and lv: "sp \<Longrightarrow> left v = NULL"
    and p: "put_range (ranges st (x # X)) (s, e, t) = (if sp then [snd (set_end (s - 1) (lock_view st x))] else []) @ emit (s, e, t) @
       snd (if r then set_start (e + 1) (lock_view st x) else lock_view st x) # ranges st X"
  shows "put_result inode v A (x # X) P {n1, n2} k (s, e, t) st (snd (finish_scan inode n1 n2 v st))"
proof -
  define st' where "st' = snd (posix_finish inode n1 n2 v' st)"
  have neq: "caller v' \<noteq> right v'" "caller v' \<noteq> left v'" "right v' \<notin> {n1, n2}" "left v' \<notin> {n1, n2}"
    using sc d l by auto
  have xA: "x \<notin> set A" "left v \<notin> set (x # X) \<or> left v = NULL" using L(3) l by auto
  have spl: "right v' \<noteq> NULL \<and> left v' = right v' \<longleftrightarrow> sp" using sc(4,5) sp L(4) xA lv by (auto split: if_splits)
  have rgt: "right v' \<noteq> NULL \<and> y = right v' \<longleftrightarrow> r \<and> y = x" for y using sc(5) L(4) by auto
  have c': "lock_view st (caller v') = (k, s, e, t)" and a': "added v' \<or> t \<noteq> F_UNLCK" and p': "before_pos v' \<le> length (i_flock st inode)"
      "caller v' \<notin> {n1, n2}"
    using sc(2,3) c a L(1) d(3) by auto
  note f = finish_effect [OF c' a' neq(1,2) p'(2) neq(3,4) d(5,6) p'(1)]
  have fin: "i_flock st' = (i_flock st)(inode := A @ (if sp then [n2] else []) @ (if t = F_UNLCK then [] else [n1]) @ (x # X) @ P)"
    using f(1) unfolding st'_def spl a sc(3) L(1) by (cases "t = F_UNLCK") simp_all
  have vw: "lock_view st' y = (if r \<and> y = x then set_start (e + 1) (lock_view st y)
        else if sp \<and> y = n2 then set_end (s - 1) (lock_view st x)
        else if left v' \<noteq> NULL \<and> y = left v' then set_end (s - 1) (lock_view st y)
        else if t \<noteq> F_UNLCK \<and> y = n1 then (k, s, e, t) else lock_view st y)" for y
  proof -
    have s2: "(right v' \<noteq> NULL \<and> left v' = right v' \<and> y = n2) \<longleftrightarrow> sp \<and> y = n2" using spl by blast
    have "sp \<and> y = n2 \<Longrightarrow> lock_view st (right v') = lock_view st x" using sp sc(5) by simp
    moreover have "r \<and> y = x \<Longrightarrow> loff64 (e + 1) = e + 1" using e1(1) by blast
    ultimately show ?thesis unfolding st'_def f(2) rgt s2 e1(2) a by (simp cong: if_cong)
  qed
  have lx: "left v' = NULL \<or> left v' \<notin> set X \<union> {n1, n2}" using sc(4) xA L(2) neq(4) by auto
  let ?Y = "(if sp then [n2] else []) @ (if t = F_UNLCK then [] else [n1]) @ x # X"
  have nX: "n1 \<notin> set (x # X)" "n2 \<notin> set (x # X)" using d(4) by auto
  have rX: "lock_view st' y = lock_view st y" if "y \<in> set X" for y
    using that vw [of y] L(2) lx nX by auto
  have n1: "lock_view st' n1 = (k, s, e, t)" if "t \<noteq> F_UNLCK" using vw [of n1] that nX lx d(5) by auto
  have n2: "lock_view st' n2 = set_end (s - 1) (lock_view st x)" if sp using vw [of n2] that nX by auto
  have x: "lock_view st' x = (if r then set_start (e + 1) (lock_view st x) else lock_view st x)"
    using vw [of x] sp nX sc(4) xA by auto
  show ?thesis
    unfolding finish_scan_def sc(1) prod.case st'_def [symmetric]
  proof (rule put_resultI)
    show "i_flock st' = (i_flock st)(inode := A @ ?Y @ P)" using fin by simp
    show "set ?Y \<subseteq> set (x # X) \<union> {n1, n2}" "distinct ?Y" using d(5) L(3) nX by auto
    show "fst (lock_view st' y) = k" if "y \<in> set ?Y" for y
      using that rX n1 n2 x L(5) by (auto split: if_splits)
    show "ranges st' ?Y = put_range (ranges st (x # X)) (s, e, t)"
      unfolding p using rX n1 n2 x by (cases "t = F_UNLCK") (simp_all add: emit_def)
    show "lock_view st' a = (if left v \<noteq> NULL \<and> a = left v then set_end (fst (s, e, t) - 1) (lock_view st a) else lock_view st a)"
      if "a \<notin> set (x # X) \<union> {caller v} \<union> {n1, n2}" for a
      using vw [of a] that sc(4) lv by (auto split: if_splits)
  qed
qed

lemma put_result_kept:
  assumes "posix_scan inode v st = (v, st)" "\<not> added v" "lock_view st (caller v) = (k, s, e, F_UNLCK)" "i_flock st inode = A @ X @ P" "distinct X"
    "\<forall>y\<in>set X. fst (lock_view st y) = k" "put_range (ranges st X) (s, e, F_UNLCK) = ranges st X" "left v = NULL"
  shows "put_result inode v A X P {n1, n2} k (s, e, F_UNLCK) st (snd (finish_scan inode n1 n2 v st))"
  unfolding finish_scan_def assms(1) prod.case finish_none [OF assms(3,2)] snd_conv
  by (rule put_resultI [of _ _ _ _ X]) (use assms(4-8) in auto)

lemma put_result_end:
  assumes sc: "posix_scan inode v st = (v, st)" "\<not> added v" "right v = NULL" "before_pos v = length A" "i_flock st inode = A @ P"
    and c: "lock_view st (caller v) = (k, s, e, t)" "t \<noteq> F_UNLCK" "caller v \<notin> set A" "caller v \<noteq> NULL" "caller v \<notin> {n1, n2}"
    and d: "{n1, n2} \<inter> set A = {}" "n1 \<noteq> n2" "n2 \<noteq> NULL" "n1 \<noteq> NULL" and l: "left v = NULL \<or> left v \<in> set A" and s: "loff64 (s - 1) = s - 1"
  shows "put_result inode v A [] P {n1, n2} k (s, e, t) st (snd (finish_scan inode n1 n2 v st))"
proof -
  have neq: "caller v \<noteq> right v" "caller v \<noteq> left v" "right v \<notin> {n1, n2}" "left v \<notin> {n1, n2}" using sc(3) c d l by auto
  have p: "before_pos v \<le> length (i_flock st inode)" using sc(4,5) by simp
  note f = finish_effect [OF c(1) _ neq(1,2) c(5) neq(3,4) d(2,3) p]
  have n1: "n1 \<noteq> left v" using neq(4) by simp
  show ?thesis
    unfolding finish_scan_def sc(1) prod.case
  proof (rule put_resultI [of _ _ _ _ "[n1]"])
    show "i_flock (snd (posix_finish inode n1 n2 v st)) = (i_flock st)(inode := A @ [n1] @ P)"
      using f(1) c(2) sc(2-5) by simp
    show "fst (lock_view (snd (posix_finish inode n1 n2 v st)) y) = k" if "y \<in> set [n1]" for y
      using f(2) [of y] c(2) sc(2,3) n1 that by simp
    show "ranges (snd (posix_finish inode n1 n2 v st)) [n1] = put_range (ranges st []) (s, e, t)"
      using f(2) [of n1] c(2) sc(2,3) n1 by (simp add: emit_def)
    show "lock_view (snd (posix_finish inode n1 n2 v st)) a =
        (if left v \<noteq> NULL \<and> a = left v then set_end (fst (s, e, t) - 1) (lock_view st a) else lock_view st a)"
      if "a \<notin> set [] \<union> {caller v} \<union> {n1, n2}" for a
      using f(2) [of a] c(2) sc(2,3) that s by auto
  qed auto
qed

lemma scan_put:
  assumes "i_flock st inode = A @ X @ P" "before_pos v = length A" "\<not> added v" "right v = NULL"
    and "lock_view st (caller v) = (k, s, e, t)" "caller v \<notin> set (A @ X @ P)" "caller v \<noteq> NULL" "distinct (A @ X @ P)" "NULL \<notin> set (A @ X @ P)"
    and "\<forall>x\<in>set X. fst (lock_view st x) = k" "other_next st k P"
    and "ranges_ok (ranges st X)" "request_ok (s, e, t)" "no_wrap (ranges st X) (s, e, t)"
    and "{n1, n2} \<inter> set (A @ X @ P) = {}" "n1 \<noteq> n2" "n1 \<noteq> NULL" "n2 \<noteq> NULL" "caller v \<notin> {n1, n2}"
    and "left v = NULL \<or> left v \<in> set A \<and> t \<noteq> F_UNLCK \<and> (\<forall>y\<in>set (ranges st X). s \<le> fst y)"
  shows "put_result inode v A X P {n1, n2} k (s, e, t) st (snd (finish_scan inode n1 n2 v st))"
  using assms
proof (induction X arbitrary: A v)
  case Nil
  have s1: "loff64 (s - 1) = s - 1" using Nil.prems(13) by (intro s64_id) (auto simp: request_ok_def OFFSET_MAX_def)
  have sc: "posix_scan inode v st = (v, st)" using Nil.prems by (intro posix_scan_stop [of _ _ A P]) auto
  show ?case
  proof (cases "t = F_UNLCK")
    case True
    then show ?thesis using Nil.prems sc unfolding True by (intro put_result_kept) (auto simp: emit_def)
  next
    case False
    then show ?thesis using Nil.prems sc s1 by (intro put_result_end) auto
  qed
next
  case (Cons x X)
  obtain a b u where x: "lock_view st x = (k, a, b, u)" using Cons.prems(10) by (cases "lock_view st x") auto
  have ok: "a \<le> b" "b \<le> OFFSET_MAX" "0 \<le> a" "u \<noteq> F_UNLCK" using Cons.prems(12) x by (auto simp: ranges_ok_Cons range_ok_def kdefs)
  have req: "0 \<le> s" "s \<le> e" "e \<le> OFFSET_MAX" using Cons.prems(13) by (auto simp: request_ok_def)
  have tl: "ranges_ok (ranges st X)" "no_wrap (ranges st X) (s, e, t)"
    using Cons.prems(12) no_wrap_tail [of a b u "ranges st X" s e t] Cons.prems(14) x by (simp_all add: ranges_ok_Cons)
  have s1: "loff64 (s - 1) = s - 1" using req by (intro s64_id) (simp_all add: OFFSET_MAX_def)
  have after: "b < fst y" if "y \<in> set (ranges st X)" for y
  proof -
    have "apart (a, b, u) y" using Cons.prems(12) x that by (auto simp: ranges_ok_Cons)
    then show ?thesis by (cases y) (simp add: apart_def)
  qed
  have xl: "x \<noteq> NULL" "x \<noteq> caller v" "x \<notin> set X" "x \<notin> set A" "left v \<noteq> x" using Cons.prems(6,8,9,20) by auto
  note step = posix_scan_step [OF Cons.prems(1) [simplified] Cons.prems(2) x Cons.prems(5)]
  have skip: ?case if v': "finish_scan inode n1 n2 v st = finish_scan inode n1 n2 v' st" "v' = v\<lparr>before_pos := length A + 1, left := l\<rparr>"
      and lf: "l = left v \<and> put_range (ranges st (x # X)) (s, e, t) = (a, b, u) # put_range (ranges st X) (s, e, t) \<or>
        l = x \<and> left v = NULL \<and> s \<le> b \<and> t \<noteq> F_UNLCK \<and> put_range (ranges st (x # X)) (s, e, t) = (a, s - 1, u) # put_range (ranges st X) (s, e, t)"
    for v' l
  proof -
    have "put_result inode v' (A @ [x]) X P {n1, n2} k (s, e, t) st (snd (finish_scan inode n1 n2 v' st))"
    proof (rule Cons.IH)
      show "left v' = NULL \<or> left v' \<in> set (A @ [x]) \<and> t \<noteq> F_UNLCK \<and> (\<forall>y\<in>set (ranges st X). s \<le> fst y)"
      proof -
        have "\<forall>y\<in>set (ranges st X). s \<le> fst y" if "s \<le> b"
        proof
          fix y
          assume "y \<in> set (ranges st X)"
          from after [OF this] show "s \<le> fst y" using that by simp
        qed
        moreover have "\<forall>y\<in>set (ranges st X). s \<le> fst y" if "left v \<noteq> NULL" using Cons.prems(20) that by simp
        ultimately show ?thesis using lf Cons.prems(20) v'(2) by (cases "left v = NULL") auto
      qed
    qed (use Cons.prems tl v' in auto)
    then show ?thesis
      unfolding v'(1)
    proof (rule put_result_skip)
      have f: "snd (lock_view st x) = (a, b, u)" "snd (set_end (s - 1) (lock_view st x)) = (a, s - 1, u)" "left v' = l" by (simp_all add: x v'(2))
      show "left v' = left v \<and> left v \<noteq> x \<and> put_range (ranges st (x # X)) (s, e, t) = snd (lock_view st x) # put_range (ranges st X) (s, e, t) \<or>
        left v' = x \<and> x \<noteq> NULL \<and> left v = NULL \<and>
        put_range (ranges st (x # X)) (s, e, t) = snd (set_end (s - 1) (lock_view st x)) # put_range (ranges st X) (s, e, t)"
        unfolding f using lf xl by blast
      show "x \<notin> set X \<union> {n1, n2}" using xl Cons.prems(15) by simp
    qed (use v'(2) x xl in simp_all)
  qed
  have ins: ?case
    if "posix_scan inode v st = (v', st)" "v' = v\<lparr>added := (t = F_UNLCK), left := (if sp then x else left v), right := (if r then x else NULL)\<rparr>"
      and "sp \<Longrightarrow> r" "r \<Longrightarrow> e < b" "sp \<Longrightarrow> left v = NULL"
      and "put_range (ranges st (x # X)) (s, e, t) = (if sp then [(a, s - 1, u)] else []) @ emit (s, e, t) @ (if r then e + 1 else a, b, u) # ranges st X"
    for v' sp r
  proof (rule put_result_insert [of inode v st v' A sp x r])
    show "r \<Longrightarrow> loff64 (e + 1) = e + 1" using that(4) ok req by (intro s64_id) (simp_all add: OFFSET_MAX_def)
    have f: "snd (lock_view st x) = (a, b, u)" "snd (set_end (s - 1) (lock_view st x)) = (a, s - 1, u)"
      "snd (if r then set_start (e + 1) (lock_view st x) else lock_view st x) = (if r then e + 1 else a, b, u)" by (simp_all add: x)
    show "put_range (ranges st (x # X)) (s, e, t) = (if sp then [snd (set_end (s - 1) (lock_view st x))] else []) @ emit (s, e, t) @
       snd (if r then set_start (e + 1) (lock_view st x) else lock_view st x) # ranges st X" unfolding f by (rule that(6))
    show "left v = NULL \<or> left v \<in> set A" using Cons.prems(20) by blast
    show "distinct (A @ x # X)" using Cons.prems(8) by auto
  qed (use that(1-5) xl s1 Cons.prems(1-10,15-19) in simp_all)
  have nX: "{n1, n2} \<inter> set X = {}" "x \<notin> {n1, n2}" "caller v \<notin> set (X @ P)" "distinct (X @ P)" "NULL \<notin> set X" "x \<notin> set (X @ P)"
      "\<forall>y\<in>set X. fst (lock_view st y) = k"
    using Cons.prems(6,8,9,10,15) by auto
  have lX: "left v \<notin> set X \<union> {x, n1, n2}" "left v \<notin> set X \<union> {caller v, n1, n2}"
    using Cons.prems(6,7,8,9,15,17,18,20) xl(1,5) by auto
  have taken: ?case
    if v1: "v1 = v\<lparr>before_pos := length A + 1, caller := x, added := True\<rparr>" and f: "finish_scan inode n1 n2 v st = finish_scan inode n1 n2 v1 st1"
      and st1: "i_flock st1 = i_flock st" "lock_view st1 x = (k, s1, e1, t)" "\<And>y. y \<noteq> x \<Longrightarrow> y \<noteq> caller v \<Longrightarrow> lock_view st1 y = lock_view st y"
      and t: "t \<noteq> F_UNLCK" "s1 \<le> b" "left v \<noteq> NULL \<Longrightarrow> s1 = s" "no_wrap (ranges st X) (s1, e1, t)" "0 \<le> s1" "s1 \<le> e1" "e1 \<le> OFFSET_MAX"
      and p: "put_range (ranges st (x # X)) (s, e, t) = put_range (ranges st X) (s1, e1, t)"
    for v1 st1 s1 e1
  proof (rule put_result_added [OF f _ _ _ _ t(1) _ _ t(3) _ _ _ p])
    have vX: "lock_view st1 y = lock_view st y" if "y \<in> set (X @ P)" for y using that nX(3,6) by (intro st1(3)) auto
    show r: "ranges st1 X = ranges st X" using vX by simp
    show "\<exists>un st' Y e'. finish_scan inode n1 n2 v1 st1 = (un, st') \<and> set Y \<subseteq> set X \<and> distinct Y \<and>
      i_flock st' = (i_flock st1)(inode := (A @ [x]) @ Y @ P) \<and> (\<forall>y\<in>set Y. fst (lock_view st' y) = k) \<and>
      put_range (ranges st1 X) (s1, e1, t) = emit (s1, e', t) @ ranges st' Y \<and> lock_view st' (caller v1) = (k, s1, e', t) \<and>
      (\<forall>a. a \<notin> set X \<union> {caller v1} \<longrightarrow> lock_view st' a = (if left v1 \<noteq> NULL \<and> a = left v1 then set_end (s1 - 1) (lock_view st1 a) else lock_view st1 a))"
    proof (rule finish_added)
      show "lock_view st1 (caller v1) = (k, s1, e1, t)" using v1 st1(2) by simp
      show "\<forall>y\<in>set (ranges st1 X). s1 \<le> fst y" unfolding r
      proof
        fix y
        assume "y \<in> set (ranges st X)"
        from after [OF this] show "s1 \<le> fst y" using t(2) by simp
      qed
      show "other_next st1 k P" using Cons.prems(11) vX [of "hd P"] by (cases P) (auto simp: other_next_def)
      show "\<forall>y\<in>set X. fst (lock_view st1 y) = k" using nX(7) vX by simp
      show "ranges_ok (ranges st1 X)" "no_wrap (ranges st1 X) (s1, e1, t)" unfolding r by (rule tl(1), rule t(4))
    qed (use v1 st1(1) nX lX(1) xl Cons.prems(1,2,4,16-18) t in \<open>simp_all\<close>)
  qed (use v1 st1 xl in auto)
  show ?case
  proof (cases "t = u")
    case True
    show ?thesis
    proof (cases "b < s - 1")
      case True
      have "v\<lparr>before_pos := length A + 1, left := left v\<rparr> = v\<lparr>before_pos := length A + 1\<rparr>" by (cases v) simp
      then show ?thesis using True \<open>t = u\<close> step s1 x by (intro skip [of _ "left v"]) (auto simp: finish_scan_def)
    next
      case False
      have e1: "e < OFFSET_MAX" "no_wrap (ranges st X) (min s a, max e b, t)"
        using no_wrap_merge [of a b t "ranges st X" s e "min s a"] Cons.prems(12,14) x \<open>t = u\<close> False by auto
      have s2: "loff64 (e + 1) = e + 1" using e1 req by (intro s64_id) (simp_all add: OFFSET_MAX_def)
      show ?thesis
      proof (cases "e + 1 < a")
        case True
        have "v\<lparr>added := False, left := left v, right := NULL\<rparr> = v" using Cons.prems(3,4) by (cases v) simp
        then show ?thesis
          using True False \<open>t = u\<close> step s1 s2 x ok by (intro ins [of _ False False]) auto
      next
        case over: False
        define st1 where "st1 = merge_lock x (caller v) st"
        have v1: "lock_view st1 y = (if y = x then (k, min s a, max e b, u) else if y = caller v then (k, min s a, max e b, t) else lock_view st y)" for y
          unfolding st1_def by (rule merge_lock_view [OF x Cons.prems(5) xl(2)])
        show ?thesis
        proof (rule taken [of _ st1 "min s a" "max e b"])
          show "finish_scan inode n1 n2 v st = finish_scan inode n1 n2 (v\<lparr>before_pos := length A + 1, caller := x, added := True\<rparr>) st1"
            using step over False \<open>t = u\<close> s1 s2 Cons.prems(3) by (simp add: finish_scan_def st1_def)
          show "put_range (ranges st (x # X)) (s, e, t) = put_range (ranges st X) (min s a, max e b, t)"
            using over False \<open>t = u\<close> x by simp
        qed (use v1 \<open>t = u\<close> e1 req ok Cons.prems(20) x xl in \<open>auto simp: st1_def min_def\<close>)
      qed
    qed
  next
    case False
    have unlocked: "put_result inode v1 A1 X P {n1, n2} k (s, e, t) st1 (snd (finish_scan inode n1 n2 v1 st1))"
      if "t = F_UNLCK" "s \<le> b" "caller v1 = caller v" "added v1" "right v1 = NULL" "before_pos v1 = length A1" "left v1 = NULL \<or> left v1 = x"
        "i_flock st1 inode = A1 @ X @ P" and st1: "\<And>y. lock_view st1 y = lock_view st y" for v1 A1 st1
    proof (rule put_result_unlocked [OF finish_added \<open>t = F_UNLCK\<close>])
      show "\<forall>y\<in>set (ranges st1 X). s \<le> fst y" unfolding st1
      proof
        fix y
        assume "y \<in> set (ranges st X)"
        from after [OF this] show "s \<le> fst y" using \<open>s \<le> b\<close> by simp
      qed
      show "left v1 \<notin> set X \<union> {caller v1, n1, n2}"
        using that(3,7) nX(2,5) xl(2,3) Cons.prems(7,17,18) by auto
      show "other_next st1 k P" using Cons.prems(11) by (simp add: other_next_def st1)
    qed (use that nX tl req Cons.prems(5,7,16-19) in \<open>simp_all add: st1\<close>)
    consider (before) "b < s" | (behind) "s \<le> b" "e < a" | (cut) "s \<le> b" "a \<le> e" "e < b" | (inside) "a \<le> e" "b \<le> e" "s \<le> a"
      | (leftpart) "s \<le> b" "b \<le> e" "a < s" using ok req by linarith
    then show ?thesis
    proof cases
      case before
      have "v\<lparr>before_pos := length A + 1, left := left v\<rparr> = v\<lparr>before_pos := length A + 1\<rparr>" by (cases v) simp
      then show ?thesis using before False step x by (intro skip [of _ "left v"]) (auto simp: finish_scan_def)
    next
      case behind
      have st: "posix_scan inode v st = (v, st)" using behind False step by simp
      have put: "put_range (ranges st (x # X)) (s, e, t) = emit (s, e, t) @ ranges st (x # X)" using behind False x by simp
      show ?thesis
      proof (cases "t = F_UNLCK")
        case True
        then show ?thesis
          using put_result_kept [OF st Cons.prems(3) Cons.prems(5) [unfolded True] Cons.prems(1)] Cons.prems(8,10,20) put
          by (simp add: emit_def del: put_range.simps)
      next
        case nu: False
        have "v\<lparr>added := False, left := left v, right := NULL\<rparr> = v" using Cons.prems(3,4) by (cases v) simp
        then show ?thesis using st put nu x by (intro ins [of _ False False]) (auto simp del: put_range.simps)
      qed
    next
      case cut
      have l: "left v = NULL" if "a < s" using Cons.prems(20) x that by auto
      show ?thesis
      proof (rule ins [where sp = "a < s" and r = True])
        show "posix_scan inode v st = (v\<lparr>added := (t = F_UNLCK), left := (if a < s then x else left v), right := (if True then x else NULL)\<rparr>, st)"
          using step cut False Cons.prems(3) by (cases v) (auto simp: Let_def)
      qed (use cut False x l in auto)
    next
      case inside
      show ?thesis
      proof (cases "t = F_UNLCK")
        case True
        define st1 where "st1 = locks_delete_lock inode (length A) st"
        have "finish_scan inode n1 n2 v st = finish_scan inode n1 n2 (v\<lparr>added := True\<rparr>) st1"
          using step inside False True ok(1) by (simp add: finish_scan_def st1_def Let_def)
        moreover have "left v = NULL" using Cons.prems(20) True by simp
        then have "put_result inode (v\<lparr>added := True\<rparr>) A X P {n1, n2} k (s, e, t) st1 (snd (finish_scan inode n1 n2 (v\<lparr>added := True\<rparr>) st1))"
          using True inside ok Cons.prems(1,2,4) by (intro unlocked) (simp_all add: st1_def)
        moreover have "put_range (ranges st (x # X)) (s, e, t) = put_range (ranges st X) (s, e, t)" using inside False x ok by simp
        ultimately show ?thesis
          by (intro put_result_dropped [of inode "v\<lparr>added := True\<rparr>" A X P _ k _ st1]) (simp_all add: st1_def del: put_range.simps)
      next
        case nu: False
        define st1 where "st1 = replace_lock x (caller v) st"
        have v1: "lock_view st1 y = (if y = x then (k, s, e, t) else lock_view st y)" for y
          unfolding st1_def by (rule replace_lock_view [OF x Cons.prems(5)])
        show ?thesis
        proof (rule taken [of _ st1 s e])
          show "finish_scan inode n1 n2 v st = finish_scan inode n1 n2 (v\<lparr>before_pos := length A + 1, caller := x, added := True\<rparr>) st1"
            using step inside False nu Cons.prems(3) ok(1) by (simp add: finish_scan_def st1_def Let_def)
          show "put_range (ranges st (x # X)) (s, e, t) = put_range (ranges st X) (s, e, t)" using inside False x ok by simp
        qed (use v1 nu inside req ok tl(2) in \<open>auto simp: st1_def\<close>)
      qed
    next
      case leftpart
      have l: "left v = NULL" using Cons.prems(20) x leftpart(3) by auto
      have put: "put_range (ranges st (x # X)) (s, e, t) = (a, s - 1, u) # put_range (ranges st X) (s, e, t)"
        using leftpart False x ok req by simp
      show ?thesis
      proof (cases "t = F_UNLCK")
        case nu: False
        have vv: "v\<lparr>left := x, before_pos := n\<rparr> = v\<lparr>before_pos := n, left := x\<rparr>" for n by (cases v) simp
        have "posix_scan inode v st = posix_scan inode (v\<lparr>before_pos := length A + 1, left := x\<rparr>) st"
          using step leftpart False nu ok req by (simp add: Let_def vv)
        then show ?thesis using l put nu leftpart by (intro skip [of _ x]) (simp_all add: finish_scan_def del: put_range.simps)
      next
        case True
        let ?v = "v\<lparr>added := True, left := x, before_pos := length A + 1\<rparr>"
        have "finish_scan inode n1 n2 v st = finish_scan inode n1 n2 ?v st"
          using step leftpart False True ok req by (simp add: finish_scan_def Let_def)
        moreover have "put_result inode ?v (A @ [x]) X P {n1, n2} k (s, e, t) st (snd (finish_scan inode n1 n2 ?v st))"
          using True leftpart Cons.prems(1,4) by (intro unlocked) simp_all
        ultimately show ?thesis
          using l xl x nX(2) put
          by (intro put_result_skip [of inode ?v A x X]) (simp_all del: put_range.simps)
      qed
    qed
  qed
qed


end
