(* ===== verification/FLockWait.thy ===== *)
theory FLockWait
  imports FLockScan
begin

text \<open>
  The lists of locks and waiting requests under \<open>posix_lock_file\<close> and \<open>locks_remove_posix\<close>: what each process holds at each byte, that a lock that is freed or
  shrinks leaves no one behind who waits for it in vain, and the search for deadlocks.
\<close>

subsection \<open>The locks of each process\<close>

abbreviation process :: "nat \<Rightarrow> nat \<Rightarrow> nat \<times> nat \<times> u8" where
  "process owner pid \<equiv> (owner, pid, FL_POSIX)"

text \<open>The record locks of a process on a file, and what it holds at a byte.\<close>

definition locks_of :: "lock_state \<Rightarrow> nat \<Rightarrow> nat \<times> nat \<Rightarrow> addr list" where
  "locks_of st inode p = filter (\<lambda>a. is_posix (fls st a) \<and> (fl_owner (fls st a), fl_pid (fls st a)) = p) (i_flock st inode)"

definition held_at :: "lock_state \<Rightarrow> nat \<Rightarrow> nat \<times> nat \<Rightarrow> int \<Rightarrow> nat option" where
  "held_at st inode p x = locked_at (map (\<lambda>a. range_of (fls st a)) (locks_of st inode p)) x"

text \<open>They stand together, sorted, disjoint, and merged where possible.\<close>

definition process_ok :: "lock_state \<Rightarrow> nat \<Rightarrow> nat \<times> nat \<Rightarrow> bool" where
  "process_ok st inode p \<longleftrightarrow>
     (\<exists>A P. i_flock st inode = A @ locks_of st inode p @ P \<and> (locks_of st inode p = [] \<longrightarrow> P = [])) \<and>
     ranges_ok (ranges st (locks_of st inode p))"

definition inode_ok :: "lock_state \<Rightarrow> nat \<Rightarrow> bool" where
  "inode_ok st inode \<longleftrightarrow> distinct (i_flock st inode) \<and> NULL \<notin> set (i_flock st inode) \<and>
     (\<forall>a\<in>set (i_flock st inode). is_posix (fls st a) \<longrightarrow> fl_flags (fls st a) = FL_POSIX) \<and>
     sorted_wrt (\<lambda>a b. is_posix (fls st a) \<longrightarrow> is_posix (fls st b)) (i_flock st inode) \<and> (\<forall>p. process_ok st inode p)"

lemma is_posix_view: "is_posix (fls st a) \<longleftrightarrow> snd (snd (fst (lock_view st a))) AND FL_POSIX \<noteq> 0"
  by (simp add: is_posix_def lock_view_def owner_of_def)

lemma range_view: "range_of (fls st a) = snd (lock_view st a)"
  by (simp add: lock_view_def)

lemma owner_view: "(fl_owner (fls st a), fl_pid (fls st a)) = (fst (fst (lock_view st a)), fst (snd (fst (lock_view st a))))"
  by (simp add: lock_view_def owner_of_def)

lemma held_ranges: "held_at st inode p x = locked_at (ranges st (locks_of st inode p)) x"
  by (simp add: held_at_def range_view)

lemma locks_of_mem: "a \<in> set (locks_of st inode p) \<longleftrightarrow>
    a \<in> set (i_flock st inode) \<and> is_posix (fls st a) \<and> (fl_owner (fls st a), fl_pid (fls st a)) = p"
  by (auto simp: locks_of_def)

lemma locks_of_cong:
  assumes "i_flock st' inode = i_flock st inode" "\<And>a. a \<in> set (i_flock st inode) \<Longrightarrow> lock_view st' a = lock_view st a"
  shows "locks_of st' inode p = locks_of st inode p"
  unfolding locks_of_def assms(1) by (rule filter_cong [OF refl]) (simp add: is_posix_view owner_view assms(2))

lemma inode_ok_cong:
  assumes "inode_ok st inode" and i: "i_flock st' inode = i_flock st inode" and v: "\<And>a. a \<in> set (i_flock st inode) \<Longrightarrow> lock_view st' a = lock_view st a"
  shows "inode_ok st' inode"
proof -
  have l: "locks_of st' inode p = locks_of st inode p" for p by (rule locks_of_cong [OF i v])
  have r: "ranges st' (locks_of st inode p) = ranges st (locks_of st inode p)" for p
    using v by (auto simp: locks_of_mem)
  have p: "process_ok st' inode p" for p using assms(1) unfolding inode_ok_def process_ok_def l r i by blast
  have f: "fl_flags (fls st' a) = fl_flags (fls st a)" if "a \<in> set (i_flock st inode)" for a
    using v [OF that] by (simp add: lock_view_def owner_of_def)
  have s: "sorted_wrt (\<lambda>a b. is_posix (fls st' a) \<longrightarrow> is_posix (fls st' b)) (i_flock st inode)"
  proof (rule sorted_wrt_mono_rel)
    show "sorted_wrt (\<lambda>a b. is_posix (fls st a) \<longrightarrow> is_posix (fls st b)) (i_flock st inode)"
      using assms(1) by (simp add: inode_ok_def)
  qed (simp add: is_posix_def f)
  have "is_posix (fls st' a) \<longrightarrow> fl_flags (fls st' a) = FL_POSIX" if "a \<in> set (i_flock st inode)" for a
    using assms(1) that by (simp add: inode_ok_def is_posix_def f)
  then show ?thesis using assms(1) p s unfolding inode_ok_def i by blast
qed

text \<open>Exchanging the block of one process leaves the blocks of the others together.\<close>

lemma block_exchange:
  assumes L: "A @ X @ P = A' @ X' @ P'" and X: "\<And>x. x \<in> set X \<Longrightarrow> \<not> Q x" "X = [] \<Longrightarrow> P = []" and X': "\<And>x. x \<in> set X' \<Longrightarrow> Q x" "X' \<noteq> []"
    and Y: "\<And>y. y \<in> set Y \<Longrightarrow> \<not> Q y"
  shows "\<exists>B R. A @ Y @ P = B @ X' @ R"
proof -
  consider us where "A = A' @ us" "us @ X @ P = X' @ P'" | us where "A @ us = A'" "X @ P = us @ X' @ P'"
    using L unfolding append_eq_append_conv2 [of A "X @ P"] by blast
  then show ?thesis
  proof cases
    case 1
    consider ws where "us = X' @ ws" | ws where "us @ ws = X'" "X @ P = ws @ P'"
      using 1(2) unfolding append_eq_append_conv2 [of us "X @ P"] by blast
    then show ?thesis
    proof cases
      case (1 ws)
      then show ?thesis using \<open>A = A' @ us\<close> by (intro exI [of _ A'] exI [of _ "ws @ Y @ P"]) simp
    next
      case (2 ws)
      have "ws = []"
      proof (cases X)
        case Nil
        then show ?thesis using 2(2) X(2) by simp
      next
        case (Cons x xs)
        then show ?thesis using 2 X(1) [of x] X'(1) [of x] by (cases ws) auto
      qed
      then show ?thesis using 2 \<open>A = A' @ us\<close> by (intro exI [of _ A'] exI [of _ "Y @ P"]) simp
    qed
  next
    case (2 us)
    consider ws where "us = X @ ws" "P = ws @ X' @ P'" | ws where "us @ ws = X" "ws @ P = X' @ P'"
      using 2(2) unfolding append_eq_append_conv2 [of X P] by metis
    then show ?thesis
    proof cases
      case (1 ws)
      then show ?thesis by (intro exI [of _ "A @ Y @ ws"] exI [of _ P']) simp
    next
      case (2 ws)
      obtain x' where x': "x' = hd X'" "x' \<in> set X'" using X'(2) by simp
      have "ws = []" using 2 X(1) [of x'] X'(1) [of x'] x' by (cases ws; cases X') auto
      then show ?thesis using 2 by (intro exI [of _ "A @ Y"] exI [of _ P']) simp
    qed
  qed
qed

subsection \<open>Applying a lock\<close>

text \<open>What a call of \<open>posix_lock_file\<close> can rely on: its structures are not linked anywhere.\<close>

definition request_at :: "lock_state \<Rightarrow> nat \<Rightarrow> nat \<times> nat \<Rightarrow> range \<Rightarrow> addr \<Rightarrow> addr \<Rightarrow> addr \<Rightarrow> bool" where
  "request_at st inode p r c n1 n2 \<longleftrightarrow>
     lock_view st c = (process (fst p) (snd p), r) \<and> request_ok r \<and> no_wrap (ranges st (locks_of st inode p)) r \<and>
     distinct [NULL, c, n1, n2] \<and> {c, n1, n2} \<inter> set (i_flock st inode) = {}"

lemma free_locks_simps [simp]:
  "fls (fold locks_free_lock as st) = fls st" "i_flock (fold locks_free_lock as st) = i_flock st"
  by (induction as arbitrary: st) (simp_all add: locks_free_lock_def)

lemma view_fls: "fls st' = fls st \<Longrightarrow> lock_view st' = lock_view st"
  by (simp add: lock_view_def fun_eq_iff)

lemma inode_ok_process: "inode_ok st inode \<Longrightarrow> process_ok st inode p"
  unfolding inode_ok_def by blast

lemma process_split:
  assumes ok: "inode_ok st inode" and p: "fst (lock_view st c) = process (fst p) (snd p)"
  obtains A P where "i_flock st inode = A @ locks_of st inode p @ P" "locks_of st inode p = [] \<longrightarrow> P = []"
    "length (takeWhile (\<lambda>fl. \<not> is_posix (fls st fl) \<or> \<not> locks_same_owner (fls st c) (fls st fl)) (i_flock st inode)) = length A"
    "other_next st (process (fst p) (snd p)) P" "\<And>a. a \<in> set (A @ P) \<Longrightarrow> a \<notin> set (locks_of st inode p)"
proof -
  let ?Q = "\<lambda>a. is_posix (fls st a) \<and> (fl_owner (fls st a), fl_pid (fls st a)) = p" and ?X = "locks_of st inode p"
  obtain A P where L: "i_flock st inode = A @ ?X @ P" "?X = [] \<longrightarrow> P = []"
    using inode_ok_process [OF ok, of p] unfolding process_ok_def by blast
  have X: "\<forall>x\<in>set ?X. ?Q x" by (simp add: locks_of_def)
  have "distinct (A @ ?X @ P)" using ok unfolding inode_ok_def L(1) [symmetric] by blast
  then have d: "a \<notin> set ?X" if "a \<in> set (A @ P)" for a using that by auto
  have nQ: "\<not> ?Q a" if a: "a \<in> set (A @ P)" for a
  proof -
    have "a \<in> set (i_flock st inode)" unfolding L(1) using a by auto
    then show ?thesis using d [OF a] unfolding locks_of_mem by blast
  qed
  have same: "locks_same_owner (fls st c) (fls st a) \<longleftrightarrow> (fl_owner (fls st a), fl_pid (fls st a)) = p" for a
    using p by (cases p) (auto simp: locks_same_owner_def lock_view_def owner_of_def)
  have tw: "takeWhile (\<lambda>fl. \<not> is_posix (fls st fl) \<or> \<not> locks_same_owner (fls st c) (fls st fl)) (i_flock st inode) = A"
  proof -
    have A: "\<forall>a\<in>set A. \<not> is_posix (fls st a) \<or> \<not> locks_same_owner (fls st c) (fls st a)" using nQ by (auto simp: same)
    show ?thesis
    proof (cases ?X)
      case Nil
      then show ?thesis using L A by (simp add: takeWhile_eq_all_conv)
    next
      case (Cons x xs)
      then have "?Q x" using X by simp
      then show ?thesis using L(1) A Cons by (auto simp: takeWhile_append same)
    qed
  qed
  have "other_next st (process (fst p) (snd p)) P"
  proof (cases P)
    case Nil
    then show ?thesis by (simp add: other_next_def)
  next
    case (Cons q P')
    then obtain x where x: "x \<in> set ?X" using L(2) by (cases ?X) auto
    have "sorted_wrt (\<lambda>a b. is_posix (fls st a) \<longrightarrow> is_posix (fls st b)) (A @ ?X @ P)"
      using ok unfolding inode_ok_def L(1) [symmetric] by blast
    then have "\<forall>a\<in>set ?X. \<forall>b\<in>set P. is_posix (fls st a) \<longrightarrow> is_posix (fls st b)" unfolding sorted_wrt_append by blast
    moreover have "q \<in> set P" using Cons by simp
    ultimately have "is_posix (fls st q)" using x X by blast
    then have "(fl_owner (fls st q), fl_pid (fls st q)) \<noteq> p" using nQ [of q] Cons by simp
    then show ?thesis using Cons by (cases p) (auto simp: other_next_def same_key_def lock_view_def owner_of_def)
  qed
  then show ?thesis using that [OF L] tw d by simp
qed

lemma posix_apply_effect:
  assumes ok: "inode_ok st inode" and r: "request_at st inode p r c n1 n2"
  defines "st' \<equiv> posix_apply inode c n1 n2 st"
  obtains A Y P where "i_flock st inode = A @ locks_of st inode p @ P" "i_flock st' = (i_flock st)(inode := A @ Y @ P)"
    "locks_of st inode p = [] \<longrightarrow> P = []" "\<And>a. a \<in> set (A @ P) \<Longrightarrow> a \<notin> set (locks_of st inode p)"
    "set Y \<subseteq> set (locks_of st inode p) \<union> {n1, n2}" "distinct Y" "\<And>y. y \<in> set Y \<Longrightarrow> fst (lock_view st' y) = process (fst p) (snd p)"
    "ranges st' Y = put_range (ranges st (locks_of st inode p)) r"
    "\<And>a. a \<notin> set (locks_of st inode p) \<union> {c, n1, n2} \<Longrightarrow> lock_view st' a = lock_view st a"
proof -
  let ?X = "locks_of st inode p" and ?k = "process (fst p) (snd p)"
  obtain s e t where rr: "r = (s, e, t)" by (cases r)
  have r': "lock_view st c = (?k, s, e, t)" "request_ok (s, e, t)" "no_wrap (ranges st ?X) (s, e, t)"
      "NULL \<notin> {c, n1, n2}" "c \<notin> {n1, n2}" "n1 \<noteq> n2" "{c, n1, n2} \<inter> set (i_flock st inode) = {}"
    using r by (auto simp: request_at_def rr)
  obtain A P where L: "i_flock st inode = A @ ?X @ P" "?X = [] \<longrightarrow> P = []"
    "length (takeWhile (\<lambda>fl. \<not> is_posix (fls st fl) \<or> \<not> locks_same_owner (fls st c) (fls st fl)) (i_flock st inode)) = length A"
    "other_next st ?k P" "\<And>a. a \<in> set (A @ P) \<Longrightarrow> a \<notin> set ?X"
    using process_split [OF ok, of c p] r'(1) by auto
  define v where "v = \<lparr>before_pos = length A, caller = c, added = False, left = NULL, right = NULL\<rparr>"
  define st1 where "st1 = snd (finish_scan inode n1 n2 v st)"
  have key: "\<forall>x\<in>set ?X. fst (lock_view st x) = ?k"
  proof
    fix x
    assume "x \<in> set ?X"
    then have "fl_flags (fls st x) = FL_POSIX" "(fl_owner (fls st x), fl_pid (fls st x)) = p"
      using ok unfolding locks_of_mem inode_ok_def by blast+
    then show "fst (lock_view st x) = ?k" by (auto simp: lock_view_def owner_of_def)
  qed
  have "put_result inode v A ?X P {n1, n2} ?k (s, e, t) st st1"
    unfolding st1_def
  proof (rule scan_put)
    show "i_flock st inode = A @ ?X @ P" by (rule L(1))
    show "distinct (A @ ?X @ P)" "NULL \<notin> set (A @ ?X @ P)" using ok unfolding L(1) [symmetric] inode_ok_def by blast+
    show "caller v \<notin> set (A @ ?X @ P)" "{n1, n2} \<inter> set (A @ ?X @ P) = {}" using r'(7) unfolding L(1) [symmetric] by (auto simp: v_def)
    show "ranges_ok (ranges st ?X)" using inode_ok_process [OF ok, of p] by (simp add: process_ok_def)
  qed (use r' L key in \<open>simp_all add: v_def\<close>)
  then obtain Y where Y: "i_flock st1 = (i_flock st)(inode := A @ Y @ P)" "set Y \<subseteq> set ?X \<union> {n1, n2}" "distinct Y"
     "\<forall>y\<in>set Y. fst (lock_view st1 y) = ?k" "ranges st1 Y = put_range (ranges st ?X) (s, e, t)"
     "\<forall>a. a \<notin> set ?X \<union> {c} \<union> {n1, n2} \<longrightarrow> lock_view st1 a = lock_view st a"
    unfolding put_result_def by (auto simp: v_def)
  obtain un where st': "st' = fold locks_free_lock un st1"
    unfolding st'_def posix_apply_def Let_def L(3) st1_def finish_scan_def v_def by (simp add: split_beta)
  have vw: "lock_view st' = lock_view st1" by (rule view_fls) (simp add: st')
  show ?thesis
    by (rule that [OF L(1) _ L(2) L(5) Y(2,3)]) (use Y rr in \<open>auto simp: vw\<close>, simp add: st')
qed

lemma process_okI:
  assumes "\<exists>A P. i_flock st inode = A @ locks_of st inode p @ P" "ranges_ok (ranges st (locks_of st inode p))"
  shows "process_ok st inode p"
proof -
  obtain A P where "i_flock st inode = A @ locks_of st inode p @ P" using assms(1) by blast
  then show ?thesis
    unfolding process_ok_def using assms(2)
    by (cases "locks_of st inode p = []") (metis append_Nil2 self_append_conv2, blast)
qed

lemma posix_apply_ok:
  assumes ok: "inode_ok st inode" and r: "request_at st inode p r c n1 n2"
  defines "st' \<equiv> posix_apply inode c n1 n2 st"
  shows "inode_ok st' inode" "ranges st' (locks_of st' inode p) = put_range (ranges st (locks_of st inode p)) r"
    "q \<noteq> p \<Longrightarrow> locks_of st' inode q = locks_of st inode q" "q \<noteq> p \<Longrightarrow> ranges st' (locks_of st inode q) = ranges st (locks_of st inode q)"
    "i \<noteq> inode \<Longrightarrow> i_flock st' i = i_flock st i" "a \<notin> set (i_flock st inode) \<union> {c, n1, n2} \<Longrightarrow> lock_view st' a = lock_view st a"
    "set (i_flock st' inode) \<subseteq> set (i_flock st inode) \<union> {n1, n2}"
proof -
  let ?X = "locks_of st inode p" and ?k = "process (fst p) (snd p)"
  obtain A P Y where f: "i_flock st inode = A @ ?X @ P" "i_flock st' = (i_flock st)(inode := A @ Y @ P)"
    "?X = [] \<longrightarrow> P = []" "\<And>a. a \<in> set (A @ P) \<Longrightarrow> a \<notin> set ?X" "set Y \<subseteq> set ?X \<union> {n1, n2}" "distinct Y"
    "\<And>y. y \<in> set Y \<Longrightarrow> fst (lock_view st' y) = ?k" "ranges st' Y = put_range (ranges st ?X) r"
    "\<And>a. a \<notin> set ?X \<union> {c, n1, n2} \<Longrightarrow> lock_view st' a = lock_view st a"
    by (rule posix_apply_effect [OF ok r, folded st'_def]) (rule that)
  have fresh: "{c, n1, n2} \<inter> set (i_flock st inode) = {}" "n1 \<noteq> NULL" "n2 \<noteq> NULL" using r by (auto simp: request_at_def)
  have L: "distinct (A @ ?X @ P)" "NULL \<notin> set (A @ ?X @ P)"
      "\<forall>a\<in>set (A @ ?X @ P). is_posix (fls st a) \<longrightarrow> fl_flags (fls st a) = FL_POSIX"
      "sorted_wrt (\<lambda>a b. is_posix (fls st a) \<longrightarrow> is_posix (fls st b)) (A @ ?X @ P)"
    using ok unfolding inode_ok_def f(1) [symmetric] by blast+
  have vAP: "lock_view st' a = lock_view st a" if "a \<in> set (A @ P)" for a
  proof -
    have "a \<in> set (i_flock st inode)" unfolding f(1) using that by auto
    then have "a \<notin> {c, n1, n2}" using fresh(1) by blast
    then show ?thesis using f(4) [OF that] by (intro f(9)) blast
  qed
  let ?Q = "\<lambda>st q a. is_posix (fls st a) \<and> (fl_owner (fls st a), fl_pid (fls st a)) = q"
  have QY: "?Q st' p y" "fl_flags (fls st' y) = FL_POSIX" if "y \<in> set Y" for y
    using f(7) [OF that] by (auto simp: is_posix_def lock_view_def owner_of_def FL_POSIX_def)
  have QAP: "?Q st' q a = ?Q st q a" "is_posix (fls st' a) = is_posix (fls st a)" "fl_flags (fls st' a) = fl_flags (fls st a)"
    if "a \<in> set (A @ P)" for q a
    using vAP [OF that] by (auto simp: is_posix_def lock_view_def owner_of_def)
  have QX: "?Q st p a" if "a \<in> set ?X" for a using that by (simp add: locks_of_def)
  have nAP: "\<not> ?Q st p a" if a: "a \<in> set (A @ P)" for a
  proof -
    have "a \<in> set (i_flock st inode)" unfolding f(1) using a by auto
    then show ?thesis using f(4) [OF a] unfolding locks_of_mem by blast
  qed
  have i': "i_flock st' inode = A @ Y @ P" using f(2) by simp
  have lp: "locks_of st' inode p = Y"
  proof -
    have "filter (?Q st' p) A = []" "filter (?Q st' p) P = []" using QAP(1) nAP by (auto simp: filter_empty_conv)
    moreover have "filter (?Q st' p) Y = Y" using QY(1) by (simp add: filter_id_conv)
    ultimately show ?thesis unfolding locks_of_def i' by simp
  qed
  have lq: "locks_of st' inode q = locks_of st inode q" if "q \<noteq> p" for q
  proof -
    have "filter (?Q st' q) A = filter (?Q st q) A" "filter (?Q st' q) P = filter (?Q st q) P"
      using QAP(1) [of _ q] by (auto intro: filter_cong)
    moreover have "filter (?Q st' q) Y = []" "filter (?Q st q) ?X = []" using QY(1) QX that by (auto simp: filter_empty_conv)
    moreover have "locks_of st inode q = filter (?Q st q) (A @ ?X @ P)" unfolding f(1) [symmetric] by (simp add: locks_of_def)
    ultimately show ?thesis unfolding locks_of_def [of st' inode q] i' by simp
  qed
  have rq: "ranges st' (locks_of st inode q) = ranges st (locks_of st inode q)" if "q \<noteq> p" for q
  proof (rule map_cong [OF refl])
    fix a
    assume "a \<in> set (locks_of st inode q)"
    then have "?Q st q a" "a \<in> set (A @ ?X @ P)" unfolding locks_of_mem f(1) by blast+
    then have "a \<in> set (A @ P)" using QX [of a] that by auto
    then show "snd (lock_view st' a) = snd (lock_view st a)" using vAP by simp
  qed
  show "ranges st' (locks_of st' inode p) = put_range (ranges st ?X) r" unfolding lp by (rule f(8))
  show "q \<noteq> p \<Longrightarrow> locks_of st' inode q = locks_of st inode q" by (rule lq)
  show "q \<noteq> p \<Longrightarrow> ranges st' (locks_of st inode q) = ranges st (locks_of st inode q)" by (rule rq)
  show "i \<noteq> inode \<Longrightarrow> i_flock st' i = i_flock st i" using f(2) by simp
  show "a \<notin> set (i_flock st inode) \<union> {c, n1, n2} \<Longrightarrow> lock_view st' a = lock_view st a"
    by (rule f(9)) (auto simp: locks_of_def)
  show "set (i_flock st' inode) \<subseteq> set (i_flock st inode) \<union> {n1, n2}" unfolding i' f(1) using f(5) by auto
  have ro: "ranges_ok (ranges st (locks_of st inode q))" for q using inode_ok_process [OF ok, of q] by (simp add: process_ok_def)
  have pr: "process_ok st' inode q" for q
  proof (cases "q = p")
    case True
    have "ranges_ok (put_range (ranges st ?X) r)" using put_range_ok [OF ro [of p]] r by (cases r) (simp add: request_at_def)
    then show ?thesis unfolding True using i' f(8) by (intro process_okI) (auto simp: lp)
  next
    case False
    have "\<exists>B R. A @ Y @ P = B @ locks_of st inode q @ R"
    proof (cases "locks_of st inode q = []")
      case True
      then show ?thesis by (intro exI [of _ "A @ Y @ P"] exI [of _ "[]"]) simp
    next
      case ne: False
      obtain A' P' where "i_flock st inode = A' @ locks_of st inode q @ P'"
        using inode_ok_process [OF ok, of q] unfolding process_ok_def by blast
      then have "A @ ?X @ P = A' @ locks_of st inode q @ P'" unfolding f(1) .
      then show ?thesis
      proof (rule block_exchange [where Q = "\<lambda>a. a \<in> set (locks_of st inode q)"])
        show "a \<notin> set (locks_of st inode q)" if "a \<in> set ?X" for a
          using QX [OF that] False by (auto simp: locks_of_mem)
        show "a \<notin> set (locks_of st inode q)" if "a \<in> set Y" for a
          using f(5) that fresh(1) QX [of a] False by (auto simp: locks_of_mem)
      qed (use f(3) ne in auto)
    qed
    then show ?thesis using ro [of q] by (intro process_okI) (simp_all add: i' lq [OF False] rq [OF False])
  qed
  have Yn: "n1 \<notin> set (A @ ?X @ P)" "n2 \<notin> set (A @ ?X @ P)" using fresh(1) unfolding f(1) by auto
  have "distinct (A @ Y @ P)" "NULL \<notin> set (A @ Y @ P)"
  proof -
    have "set Y \<inter> set (A @ P) = {}" using f(4,5) Yn by auto
    then show "distinct (A @ Y @ P)" using L(1) f(6) by auto
    show "NULL \<notin> set (A @ Y @ P)" using L(2) f(5) fresh(2,3) by auto
  qed
  moreover have "\<forall>a\<in>set (A @ Y @ P). is_posix (fls st' a) \<longrightarrow> fl_flags (fls st' a) = FL_POSIX"
    using L(3) QY(2) QAP(2,3) by auto
  moreover have "sorted_wrt (\<lambda>a b. is_posix (fls st' a) \<longrightarrow> is_posix (fls st' b)) (A @ Y @ P)"
  proof -
    have s: "sorted_wrt (\<lambda>a b. is_posix (fls st a) \<longrightarrow> is_posix (fls st b)) (A @ P)"
      using L(4) unfolding sorted_wrt_append set_append by blast
    have "sorted_wrt (\<lambda>a b. is_posix (fls st' a) \<longrightarrow> is_posix (fls st' b)) (A @ P)"
      by (rule sorted_wrt_mono_rel [OF _ s]) (simp only: QAP(2))
    moreover have "is_posix (fls st' b)" if b: "b \<in> set P" for b
    proof -
      obtain x where x: "x \<in> set ?X" using f(3) b by (cases ?X) auto
      then have "is_posix (fls st b)" using L(4) QX [OF x] b unfolding sorted_wrt_append by blast
      then show ?thesis using QAP(2) [of b] b by simp
    qed
    moreover have "sorted_wrt (\<lambda>a b. is_posix (fls st' a) \<longrightarrow> is_posix (fls st' b)) Y"
      by (rule sorted_wrt_mono_rel [of Y "\<lambda>a b. True"]) (use QY(1) in blast, simp add: sorted_wrt_iff_nth_less)
    ultimately show ?thesis using QY(1) unfolding sorted_wrt_append set_append by blast
  qed
  ultimately show "inode_ok st' inode" unfolding inode_ok_def i' using pr by blast
qed

text \<open>The specification of a request that meets no conflict: it changes what its process holds in its range, and nothing else.\<close>

lemma posix_apply_held:
  assumes ok: "inode_ok st inode" and r: "request_at st inode p (s, e, t) c n1 n2"
  shows "held_at (posix_apply inode c n1 n2 st) inode q x =
    (if q = p \<and> s \<le> x \<and> x \<le> e then if t = F_UNLCK then None else Some t else held_at st inode q x)"
proof -
  have "ranges_ok (ranges st (locks_of st inode p))" "request_ok (s, e, t)"
    using inode_ok_process [OF ok, of p] r by (auto simp: process_ok_def request_at_def)
  then have "held_at (posix_apply inode c n1 n2 st) inode p x =
      (if s \<le> x \<and> x \<le> e then if t = F_UNLCK then None else Some t else held_at st inode p x)"
    unfolding held_ranges posix_apply_ok(2) [OF ok r] by (rule put_range_locked)
  moreover have "held_at (posix_apply inode c n1 n2 st) inode q x = held_at st inode q x" if "q \<noteq> p"
    unfolding held_ranges posix_apply_ok(3,4) [OF ok r that] ..
  ultimately show ?thesis by (cases "q = p") simp_all
qed

subsection \<open>Waiting locks\<close>

text \<open>
  The locks on the lists of the inodes are those on the global list, each on one of them.  \<open>waiting_except B st\<close>: who waits, waits for a lock on a list that it
  conflicts with, apart from those who wait for a lock in \<open>B\<close>.
\<close>

definition links_ok :: "lock_state \<Rightarrow> bool" where
  "links_ok st \<longleftrightarrow> distinct (file_lock_list st) \<and> (\<forall>a. a \<in> set (file_lock_list st) \<longleftrightarrow> (\<exists>i. a \<in> set (i_flock st i))) \<and>
     (\<forall>i. distinct (i_flock st i)) \<and> (\<forall>i j. i \<noteq> j \<longrightarrow> set (i_flock st i) \<inter> set (i_flock st j) = {})"

definition blocks_ok :: "lock_state \<Rightarrow> bool" where
  "blocks_ok st \<longleftrightarrow> distinct (blocked_list st) \<and>
     (\<forall>a. distinct (fl_block (fls st a)) \<and> set (fl_block (fls st a)) = {w. w \<in> set (blocked_list st) \<and> fl_next (fls st w) = a}) \<and>
     (\<forall>w\<in>set (blocked_list st). w \<notin> set (file_lock_list st))"

definition waiting_except :: "addr set \<Rightarrow> lock_state \<Rightarrow> bool" where
  "waiting_except B st \<longleftrightarrow> links_ok st \<and> blocks_ok st \<and> \<not> panicked st \<and>
     (\<forall>w\<in>set (blocked_list st). fl_next (fls st w) \<in> B \<or>
        fl_next (fls st w) \<in> set (file_lock_list st) \<and> posix_locks_conflict (fls st w) (fls st (fl_next (fls st w))))"

abbreviation waiting_ok :: "lock_state \<Rightarrow> bool" where
  "waiting_ok \<equiv> waiting_except {}"

text \<open>What an operation does to those who wait: some are woken, the others wait for the same lock as before.\<close>

definition fewer_wait :: "lock_state \<Rightarrow> lock_state \<Rightarrow> bool" where
  "fewer_wait st st' \<longleftrightarrow> set (blocked_list st') \<subseteq> set (blocked_list st) \<and>
     (\<forall>w\<in>set (blocked_list st'). fl_next (fls st' w) = fl_next (fls st w))"

lemma fewer_wait_refl [simp]: "fewer_wait st st"
  by (simp add: fewer_wait_def)

lemma fewer_wait_trans: "fewer_wait st st1 \<Longrightarrow> fewer_wait st1 st2 \<Longrightarrow> fewer_wait st st2"
  by (auto simp: fewer_wait_def)

lemma conflict_view:
  "lock_view st' w = lock_view st w \<Longrightarrow> lock_view st' b = lock_view st b \<Longrightarrow> posix_locks_conflict (fls st' w) (fls st' b) = posix_locks_conflict (fls st w) (fls st b)"
  by (simp add: posix_locks_conflict_def is_posix_def locks_same_owner_def locks_overlap_def locks_conflict_def lock_view_def owner_of_def range_of_def)

lemma delete_block_fields:
  "fl_block (fls (locks_delete_block w st) a) = remove1 w (fl_block (fls st a))"
  "fl_next (fls (locks_delete_block w st) a) = (if a = w then NULL else fl_next (fls st a))"
  "blocked_list (locks_delete_block w st) = remove1 w (blocked_list st)"
  "file_lock_list (locks_delete_block w st) = file_lock_list st" "panicked (locks_delete_block w st) = panicked st"
  by (simp_all add: locks_delete_block_def Let_def)

lemma delete_block_waiting:
  assumes w: "waiting_except B st" and a: "fls st' = fls (locks_delete_block x st)" "blocked_list st' = blocked_list (locks_delete_block x st)"
    "file_lock_list st' = file_lock_list st" "i_flock st' = i_flock st" "panicked st' = panicked st"
  shows "waiting_except B st'" "fewer_wait st st'" "x \<notin> set (blocked_list st')"
    "w \<in> set (blocked_list st') \<longleftrightarrow> w \<in> set (blocked_list st) \<and> w \<noteq> x" "fl_block (fls st' b) = remove1 x (fl_block (fls st b))"
proof -
  have d: "distinct (blocked_list st)" "\<And>a. distinct (fl_block (fls st a))"
      "\<And>a. set (fl_block (fls st a)) = {w. w \<in> set (blocked_list st) \<and> fl_next (fls st w) = a}"
      "\<And>w. w \<in> set (blocked_list st) \<Longrightarrow> w \<notin> set (file_lock_list st)"
    using w by (auto simp: waiting_except_def blocks_ok_def)
  have bl: "set (blocked_list st') = set (blocked_list st) - {x}" using d(1) by (simp add: a(2) delete_block_fields)
  show "x \<notin> set (blocked_list st')" "w \<in> set (blocked_list st') \<longleftrightarrow> w \<in> set (blocked_list st) \<and> w \<noteq> x" by (auto simp: bl)
  show fb: "fl_block (fls st' b) = remove1 x (fl_block (fls st b))" for b by (simp add: a(1) delete_block_fields)
  have nx: "fl_next (fls st' w) = fl_next (fls st w)" if "w \<in> set (blocked_list st')" for w
    using that by (auto simp: bl a(1) delete_block_fields)
  show "fewer_wait st st'" using nx by (auto simp: fewer_wait_def bl)
  have "lock_view st' = lock_view st" by (rule ext) (simp add: view_fls [OF a(1)])
  then have v: "lock_view st' y = lock_view st y" for y by simp
  have "set (fl_block (fls st' b)) = {w. w \<in> set (blocked_list st') \<and> fl_next (fls st' w) = b}" for b
    using d(2,3) [of b] nx by (auto simp: fb bl)
  moreover have "distinct (fl_block (fls st' b))" for b using d(2) by (simp add: fb)
  moreover have "distinct (blocked_list st')" using d(1) by (simp add: a(2) delete_block_fields)
  ultimately have "blocks_ok st'" using d(4) by (auto simp: blocks_ok_def a(3) bl)
  moreover have "links_ok st'" using w by (simp add: waiting_except_def links_ok_def a)
  moreover have "fl_next (fls st' w) \<in> B \<or> fl_next (fls st' w) \<in> set (file_lock_list st') \<and>
      posix_locks_conflict (fls st' w) (fls st' (fl_next (fls st' w)))" if "w \<in> set (blocked_list st')" for w
    using w that unfolding nx [OF that] conflict_view [OF v v] by (auto simp: waiting_except_def a(3) bl)
  ultimately show "waiting_except B st'" using w by (auto simp: waiting_except_def a(5))
qed

lemma wake_up_waiting:
  assumes w: "waiting_except (insert b B) st"
  shows "waiting_except B (locks_wake_up_blocks b st)" "fewer_wait st (locks_wake_up_blocks b st)"
    "fl_block (fls (locks_wake_up_blocks b st) b) = []"
    "file_lock_list (locks_wake_up_blocks b st) = file_lock_list st"
proof -
  define wk where "wk = fold (\<lambda>waiter st. (locks_delete_block waiter st)\<lparr>woken_locks := woken_locks st @ [waiter]\<rparr>)"
  have F: "waiting_except (insert b B) (wk ws st) \<and> fewer_wait st (wk ws st) \<and> set (blocked_list (wk ws st)) = set (blocked_list st) - set ws \<and>
      file_lock_list (wk ws st) = file_lock_list st"
    if "waiting_except (insert b B) st" for ws st
    using that
  proof (induction ws arbitrary: st)
    case Nil
    then show ?case by (simp add: wk_def)
  next
    case (Cons x ws)
    define st1 where "st1 = (locks_delete_block x st)\<lparr>woken_locks := woken_locks st @ [x]\<rparr>"
    have s1: "fls st1 = fls (locks_delete_block x st)" "blocked_list st1 = blocked_list (locks_delete_block x st)"
        "file_lock_list st1 = file_lock_list st" "i_flock st1 = i_flock st" "panicked st1 = panicked st"
      by (simp_all add: st1_def delete_block_fields)
    note d = delete_block_waiting [OF Cons.prems s1]
    have "wk (x # ws) st = wk ws st1" by (simp add: wk_def st1_def)
    moreover have "set (blocked_list st1) = set (blocked_list st) - {x}" using d(4) by auto
    ultimately show ?case using Cons.IH [OF d(1)] fewer_wait_trans [OF d(2)] s1(3) by auto
  qed
  let ?st = "locks_wake_up_blocks b st"
  have eq: "?st = wk (fl_block (fls st b)) st" by (simp add: locks_wake_up_blocks_def wk_def)
  have r: "waiting_except (insert b B) ?st" "fewer_wait st ?st" "set (blocked_list ?st) = set (blocked_list st) - set (fl_block (fls st b))"
    using F [OF w] unfolding eq by blast+
  show "fewer_wait st ?st" "file_lock_list ?st = file_lock_list st" using F [OF w] unfolding eq by blast+
  have fb: "set (fl_block (fls st b)) = {w. w \<in> set (blocked_list st) \<and> fl_next (fls st w) = b}" using w by (simp add: waiting_except_def blocks_ok_def)
  have none: "fl_next (fls ?st x) \<noteq> b" if "x \<in> set (blocked_list ?st)" for x
    using r(2,3) that fb by (auto simp: fewer_wait_def)
  have fb': "set (fl_block (fls ?st b)) = {w. w \<in> set (blocked_list ?st) \<and> fl_next (fls ?st w) = b}"
    using r(1) by (simp add: waiting_except_def blocks_ok_def)
  have "set (fl_block (fls ?st b)) = {}"
  proof (rule equals0I)
    fix x
    assume "x \<in> set (fl_block (fls ?st b))"
    then have "x \<in> set (blocked_list ?st)" "fl_next (fls ?st x) = b" unfolding fb' by simp_all
    then show False using none [of x] by simp
  qed
  then show "fl_block (fls ?st b) = []" by simp
  show "waiting_except B ?st" using r(1) none by (auto simp: waiting_except_def)
qed

lemma upd_waiting:
  assumes w: "waiting_except B st"
    and f: "\<And>x. fl_block (fls st' x) = fl_block (fls st x)" "\<And>x. fl_next (fls st' x) = fl_next (fls st x)"
    and l: "blocked_list st' = blocked_list st" "file_lock_list st' = file_lock_list st" "i_flock st' = i_flock st" "panicked st' = panicked st"
    and v: "\<And>x. x \<notin> S \<Longrightarrow> lock_view st' x = lock_view st x" "S \<inter> set (blocked_list st) = {}" "B \<subseteq> B'"
    and k: "\<And>x b. x \<in> set (blocked_list st) \<Longrightarrow> b \<in> S \<Longrightarrow> b = fl_next (fls st x) \<Longrightarrow> b \<in> set (file_lock_list st) \<Longrightarrow>
       posix_locks_conflict (fls st x) (fls st b) \<Longrightarrow> b \<in> B' \<or> posix_locks_conflict (fls st' x) (fls st' b)"
  shows "waiting_except B' st'" "fewer_wait st st'"
proof -
  have "links_ok st'" "blocks_ok st'" using w by (auto simp: waiting_except_def links_ok_def blocks_ok_def f l)
  moreover have "fl_next (fls st' x) \<in> B' \<or> fl_next (fls st' x) \<in> set (file_lock_list st') \<and>
      posix_locks_conflict (fls st' x) (fls st' (fl_next (fls st' x)))" if x: "x \<in> set (blocked_list st')" for x
  proof (cases "fl_next (fls st x) \<in> B")
    case True
    then show ?thesis using v(3) by (auto simp: f)
  next
    case False
    let ?b = "fl_next (fls st x)"
    have b: "?b \<in> set (file_lock_list st)" "posix_locks_conflict (fls st x) (fls st ?b)" using w x False by (auto simp: waiting_except_def l)
    have "lock_view st' x = lock_view st x" using v(1,2) x l(1) by auto
    then have "posix_locks_conflict (fls st' x) (fls st' ?b)" if "?b \<notin> S" using conflict_view [of st' x st ?b] v(1) [OF that] b(2) by simp
    then show ?thesis using k [OF _ _ refl b] x b(1) unfolding f(2) l(1,2) by blast
  qed
  ultimately show "waiting_except B' st'" using w by (auto simp: waiting_except_def l)
  show "fewer_wait st st'" by (simp add: fewer_wait_def l f)
qed

lemma on_list_not_waiting: "waiting_except B st \<Longrightarrow> a \<in> set (file_lock_list st) \<Longrightarrow> a \<notin> set (blocked_list st)"
  by (auto simp: waiting_except_def blocks_ok_def)

lemma in_inode_on_list: "waiting_except B st \<Longrightarrow> a \<in> set (i_flock st i) \<Longrightarrow> a \<in> set (file_lock_list st)"
  by (auto simp: waiting_except_def links_ok_def)

lemma conflict_grow:
  assumes "posix_locks_conflict w b" "owner_of b' = owner_of b" "fl_type b' = fl_type b" "fl_start b' \<le> fl_start b" "fl_end b \<le> fl_end b'"
  shows "posix_locks_conflict w b'"
  using assms by (auto simp: posix_locks_conflict_def is_posix_def locks_same_owner_def locks_overlap_def locks_conflict_def owner_of_def split: if_splits)

lemma conflict_caller: "lock_view st' w = lock_view st w \<Longrightarrow> posix_locks_conflict (fls st' w) b = posix_locks_conflict (fls st w) b"
  by (simp add: posix_locks_conflict_def locks_same_owner_def locks_overlap_def locks_conflict_def lock_view_def owner_of_def range_of_def)

lemma merge_waiting:
  assumes w: "waiting_ok st" and s: "fl \<notin> set (blocked_list st)" "c \<notin> set (blocked_list st)" and t: "fl_type (fls st fl) = fl_type (fls st c)"
  shows "waiting_ok (merge_lock fl c st)" "fewer_wait st (merge_lock fl c st)"
proof -
  define st' where "st' = merge_lock fl c st"
  have f: "fl_block (fls st' x) = fl_block (fls st x)" "fl_next (fls st' x) = fl_next (fls st x)" for x
    by (simp_all add: st'_def merge_lock_def Let_def)
  have l: "blocked_list st' = blocked_list st" "file_lock_list st' = file_lock_list st" "i_flock st' = i_flock st" "panicked st' = panicked st"
    by (simp_all add: st'_def merge_lock_def Let_def)
  have o: "lock_view st' x = lock_view st x" if "x \<notin> {fl, c}" for x
    using that by (simp add: st'_def merge_lock_def Let_def lock_view_def)
  have g: "owner_of (fls st' x) = owner_of (fls st x) \<and> fl_type (fls st' x) = fl_type (fls st x) \<and>
      fl_start (fls st' x) \<le> fl_start (fls st x) \<and> fl_end (fls st x) \<le> fl_end (fls st' x)" for x
    by (auto simp: st'_def merge_lock_def Let_def owner_of_def)
  have k: "posix_locks_conflict (fls st' x) (fls st' b)" if "posix_locks_conflict (fls st x) (fls st b)" "x \<in> set (blocked_list st)" for x b
  proof -
    have "lock_view st' x = lock_view st x" using o [of x] s that(2) by blast
    then have "posix_locks_conflict (fls st' x) (fls st b)" by (rule conflict_caller [THEN iffD2, OF _ that(1)])
    then show ?thesis by (rule conflict_grow) (use g in auto)
  qed
  show "waiting_ok (merge_lock fl c st)" "fewer_wait st (merge_lock fl c st)"
    unfolding st'_def [symmetric]
  proof -
    have d: "{fl, c} \<inter> set (blocked_list st) = {}" using s by simp
    note u = upd_waiting [OF w f l o d subset_refl]
    show "waiting_ok st'" by (rule u(1)) (assumption, rule disjI2, rule k)
    show "fewer_wait st st'" by (rule u(2)) (assumption, rule disjI2, rule k)
  qed
qed

lemma delete_waiting:
  assumes w: "waiting_ok st" and k: "k < length (i_flock st inode)"
  shows "waiting_ok (locks_delete_lock inode k st)" "fewer_wait st (locks_delete_lock inode k st)"
    "set (file_lock_list (locks_delete_lock inode k st)) \<subseteq> set (file_lock_list st)"
proof -
  let ?L = "i_flock st inode"
  define fl where "fl = ?L ! k"
  define st1 where "st1 = unhash_lock inode k st"
  have lk: "links_ok st" using w by (simp add: waiting_except_def)
  have fl: "fl \<in> set ?L" using k by (simp add: fl_def)
  have L: "?L = take k ?L @ fl # drop (k + 1) ?L" using k by (simp add: fl_def id_take_nth_drop)
  have s: "set (take k ?L @ drop (k + 1) ?L) = set ?L - {fl}" "distinct (take k ?L @ drop (k + 1) ?L)"
  proof -
    have "distinct (take k ?L @ fl # drop (k + 1) ?L)" using lk unfolding L [symmetric] by (simp add: links_ok_def)
    moreover have "set ?L = set (take k ?L @ fl # drop (k + 1) ?L)" using L by simp
    ultimately show "set (take k ?L @ drop (k + 1) ?L) = set ?L - {fl}" "distinct (take k ?L @ drop (k + 1) ?L)" by auto
  qed
  have i1: "i_flock st1 = (i_flock st)(inode := take k ?L @ drop (k + 1) ?L)" "fls st1 = fls st" "blocked_list st1 = blocked_list st"
      "file_lock_list st1 = remove1 fl (file_lock_list st)" "panicked st1 = panicked st"
    by (simp_all add: st1_def unhash_lock_def fl_def)
  have fs: "set (file_lock_list st1) = set (file_lock_list st) - {fl}" using lk by (simp add: i1 links_ok_def)
  have "links_ok st1"
    unfolding links_ok_def
  proof (intro conjI allI impI)
    show "distinct (file_lock_list st1)" using lk by (simp add: i1 links_ok_def)
    show "distinct (i_flock st1 i)" for i using lk s(2) by (simp add: i1(1) links_ok_def)
    have other: "fl \<notin> set (i_flock st i)" if "i \<noteq> inode" for i using lk fl that unfolding links_ok_def by blast
    have si: "set (i_flock st1 i) = set (i_flock st i) - {fl}" for i
      using s(1) other [of i] by (cases "i = inode") (auto simp: i1(1))
    then show "a \<in> set (file_lock_list st1) \<longleftrightarrow> (\<exists>i. a \<in> set (i_flock st1 i))" for a
      using lk by (auto simp: fs links_ok_def)
    show "set (i_flock st1 i) \<inter> set (i_flock st1 j) = {}" if "i \<noteq> j" for i j
      using lk that unfolding si links_ok_def by blast
  qed
  moreover have "blocks_ok st1" using w by (auto simp: waiting_except_def blocks_ok_def i1(2,3) fs)
  ultimately have w1: "waiting_except (insert fl {}) st1" using w by (auto simp: waiting_except_def i1(2,3,5) fs)
  note u = wake_up_waiting [OF w1]
  have nb: "fl \<notin> set (blocked_list (locks_wake_up_blocks fl st1))"
    using on_list_not_waiting [OF w in_inode_on_list [OF w fl]] u(2) by (auto simp: fewer_wait_def i1(3))
  have nf: "fl \<notin> set (file_lock_list (locks_wake_up_blocks fl st1))" using u(4) fs by simp
  have eq: "locks_delete_lock inode k st = locks_free_lock fl (locks_wake_up_blocks fl st1)"
    by (simp add: locks_delete_lock_def delete_lock_def fl_def st1_def)
  have same: "locks_free_lock fl (locks_wake_up_blocks fl st1) = locks_wake_up_blocks fl st1"
    using u(3) nb nf by (simp add: locks_free_lock_def)
  show "waiting_ok (locks_delete_lock inode k st)" unfolding eq same by (rule u(1))
  show "fewer_wait st (locks_delete_lock inode k st)" unfolding eq same using u(2) by (simp add: fewer_wait_def i1(2,3))
  show "set (file_lock_list (locks_delete_lock inode k st)) \<subseteq> set (file_lock_list st)" unfolding eq same u(4) fs by blast
qed

text \<open>Changing a lock that nobody who waits for it has to be taken into account for, because they are woken.\<close>

lemma set_and_wake_waiting:
  assumes w: "waiting_ok st" and a: "a \<notin> set (blocked_list st)"
    and f: "\<And>f. fl_block (g f) = fl_block f" "\<And>f. fl_next (g f) = fl_next f"
  defines "st' \<equiv> locks_wake_up_blocks a (upd_fl a g st)"
  shows "waiting_ok st'" "fewer_wait st st'" "file_lock_list st' = file_lock_list st"
proof -
  let ?st = "upd_fl a g st"
  have "waiting_except {a} ?st \<and> fewer_wait st ?st"
  proof
    have v: "lock_view ?st x = lock_view st x" if "x \<notin> {a}" for x using that by (simp add: lock_view_def)
    have d: "{a} \<inter> set (blocked_list st) = {}" "{} \<subseteq> {a}" using a by simp_all
    note u = upd_waiting [OF w, of ?st "{a}" "{a}"]
    show "waiting_except {a} ?st" by (rule u(1)) (use f v d in auto)
    show "fewer_wait st ?st" by (simp add: fewer_wait_def f)
  qed
  then have x: "waiting_except (insert a {}) ?st" "fewer_wait st ?st" by simp_all
  note u = wake_up_waiting [OF x(1)]
  show "waiting_ok st'" "file_lock_list st' = file_lock_list st" using u(1,4) by (simp_all add: st'_def)
  show "fewer_wait st st'" unfolding st'_def by (rule fewer_wait_trans [OF x(2) u(2)])
qed

lemma waiting_mono: "waiting_except B st \<Longrightarrow> B \<subseteq> B' \<Longrightarrow> waiting_except B' st"
  by (auto simp: waiting_except_def)

lemma replace_waiting:
  assumes w: "waiting_ok st" and a: "fl \<in> set (file_lock_list st)"
  shows "waiting_ok (replace_lock fl c st)" "fewer_wait st (replace_lock fl c st)" "file_lock_list (replace_lock fl c st) = file_lock_list st"
proof -
  define st1 where "st1 = locks_wake_up_blocks fl st"
  have "waiting_except (insert fl {}) st" using waiting_mono [OF w] by blast
  note u = wake_up_waiting [OF this, folded st1_def]
  define g :: "file_lock \<Rightarrow> file_lock" where "g = (\<lambda>f. f\<lparr>fl_start := fl_start (fls st1 c), fl_end := fl_end (fls st1 c), fl_type := fl_type (fls st1 c)\<rparr>)"
  have eq: "replace_lock fl c st = upd_fl fl g st1" by (simp add: replace_lock_def st1_def g_def Let_def)
  have fl: "fl \<notin> set (blocked_list st1)" using on_list_not_waiting [OF u(1)] a u(4) by simp
  have none: "fl_next (fls st1 x) \<noteq> fl" if "x \<in> set (blocked_list st1)" for x
  proof -
    have "set (fl_block (fls st1 fl)) = {w. w \<in> set (blocked_list st1) \<and> fl_next (fls st1 w) = fl}"
      using u(1) by (simp add: waiting_except_def blocks_ok_def)
    then show ?thesis using u(3) that by auto
  qed
  have v: "lock_view (upd_fl fl g st1) x = lock_view st1 x" if "x \<notin> {fl}" for x using that by (simp add: lock_view_def)
  have "waiting_ok (upd_fl fl g st1)"
    by (rule upd_waiting(1) [OF u(1), of _ "{fl}"]) (use v fl none in \<open>auto simp: g_def\<close>)
  moreover have "fewer_wait st1 (upd_fl fl g st1)" by (simp add: fewer_wait_def g_def)
  ultimately show "waiting_ok (replace_lock fl c st)" "fewer_wait st (replace_lock fl c st)" "file_lock_list (replace_lock fl c st) = file_lock_list st"
    using fewer_wait_trans [OF u(2)] u(4) unfolding eq by simp_all
qed

text \<open>The loop is made of few kinds of steps.\<close>

definition scan_step :: "nat \<Rightarrow> lock_scan \<Rightarrow> lock_state \<Rightarrow> lock_scan \<Rightarrow> lock_state \<Rightarrow> bool" where
  "scan_step inode v st v1 st1 \<longleftrightarrow>
     (let k = before_pos v; fl = i_flock st inode ! k in
      k < length (i_flock st inode) \<and> length (i_flock st1 inode) - before_pos v1 < length (i_flock st inode) - k \<and>
      caller v1 \<in> {caller v, fl} \<and> left v1 \<in> {left v, fl} \<and> right v1 = right v \<and>
      (st1 = st \<or> st1 = locks_delete_lock inode k st \<or> st1 = replace_lock fl (caller v) st \<or>
       fl_type (fls st (caller v)) = fl_type (fls st fl) \<and>
         (st1 = merge_lock fl (caller v) st \<or> st1 = locks_delete_lock inode k (merge_lock fl (caller v) st))))"

lemma posix_scan_cases:
  assumes "posix_scan inode v st = (v', st')"
  obtains (stop) "st' = st" "caller v' = caller v" "v' = v \<or> before_pos v < length (i_flock st inode) \<and>
      left v' \<in> {left v, i_flock st inode ! before_pos v} \<and> right v' \<in> {right v, i_flock st inode ! before_pos v}"
    | (step) v1 st1 where "scan_step inode v st v1 st1" "posix_scan inode v1 st1 = (v', st')"
proof -
  let ?k = "before_pos v" and ?L = "i_flock st inode"
  let ?fl = "?L ! ?k"
  show thesis
  proof (cases "?k < length ?L \<and> locks_same_owner (fls st (caller v)) (fls st ?fl)")
    case False
    then have "posix_scan inode v st = (v, st)" by (subst posix_scan.simps) (auto simp: Let_def)
    then show ?thesis using assms stop by simp
  next
    case True
    define c where "c = fls st (caller v)"
    define f where "f = fls st ?fl"
    have k: "\<not> length ?L \<le> ?k" "locks_same_owner c f" "?k < length ?L" using True by (simp_all add: c_def f_def)
    note sc = posix_scan.simps [of inode v st, folded c_def f_def, unfolded Let_def, folded c_def f_def, simplified k(1,2) if_False not_True_eq_False]
    have dk: "length (i_flock (locks_delete_lock inode ?k st1) inode) - ?k < length ?L - ?k" if "i_flock st1 = i_flock st" for st1
      using k(3) that by auto
    have k1: "length ?L - (?k + 1) < length ?L - ?k" using k(3) by linarith
    show ?thesis
    proof (cases "fl_type c = fl_type f")
      case same: True
      consider "fl_end f < loff64 (fl_start c - 1)" | "\<not> fl_end f < loff64 (fl_start c - 1)" "loff64 (fl_end c + 1) < fl_start f"
        | "\<not> fl_end f < loff64 (fl_start c - 1)" "\<not> loff64 (fl_end c + 1) < fl_start f" by blast
      then show ?thesis
      proof cases
        case 1
        then show ?thesis using sc same assms k1 k(3) by (intro step [of "v\<lparr>before_pos := ?k + 1\<rparr>" st]) (simp_all add: scan_step_def)
      next
        case 2
        then show ?thesis using sc same assms stop by simp
      next
        case 3
        show ?thesis
        proof (cases "added v")
          case True
          then show ?thesis using sc same 3 assms dk [of "merge_lock ?fl (caller v) st"] k(3) unfolding c_def f_def
            by (intro step [of v "locks_delete_lock inode ?k (merge_lock ?fl (caller v) st)"]) (simp_all add: scan_step_def)
        next
          case False
          then show ?thesis using sc same 3 assms k1 k(3) unfolding c_def f_def
            by (intro step [of "v\<lparr>before_pos := ?k + 1, caller := ?fl, added := True\<rparr>" "merge_lock ?fl (caller v) st"]) (simp_all add: scan_step_def)
        qed
      qed
    next
      case diff: False
      consider "fl_end f < fl_start c" | "\<not> fl_end f < fl_start c" "fl_end c < fl_start f"
        | "\<not> fl_end f < fl_start c" "\<not> fl_end c < fl_start f" by blast
      then show ?thesis
      proof cases
        case 1
        then show ?thesis using sc diff assms k1 k(3) by (intro step [of "v\<lparr>before_pos := ?k + 1\<rparr>" st]) (simp_all add: scan_step_def)
      next
        case 2
        then show ?thesis using sc diff assms stop by simp
      next
        case 3
        define v1 where "v1 = (if fl_type c = F_UNLCK then v\<lparr>added := True\<rparr> else v)"
        define v2 where "v2 = (if fl_start f < fl_start c then v1\<lparr>left := ?fl\<rparr> else v1)"
        have v2: "before_pos v2 = ?k" "caller v2 = caller v" "left v2 \<in> {left v, ?fl}" "right v2 = right v" by (simp_all add: v2_def v1_def)
        note s2 = sc [folded v1_def, folded v2_def, simplified diff 3 if_False]
        show ?thesis
        proof (cases "fl_end c < fl_end f")
          case True
          then show ?thesis using s2 assms k(3) v2 by (intro stop) auto
        next
          case nr: False
          show ?thesis
          proof (cases "fl_start c \<le> fl_start f")
            case True
            show ?thesis
            proof (cases "added v2")
              case a: True
              then show ?thesis using s2 nr True assms dk [of st] k(3) v2
                by (intro step [of v2 "locks_delete_lock inode ?k st"]) (simp_all add: scan_step_def)
            next
              case a: False
              then show ?thesis using s2 nr True assms k1 k(3) v2
                by (intro step [of "v2\<lparr>before_pos := ?k + 1, caller := ?fl, added := True\<rparr>" "replace_lock ?fl (caller v) st"]) (simp_all add: scan_step_def)
            qed
          next
            case False
            then show ?thesis using s2 nr assms k1 k(3) v2
              by (intro step [of "v2\<lparr>before_pos := ?k + 1\<rparr>" st]) (simp_all add: scan_step_def)
          qed
        qed
      qed
    qed
  qed
qed

definition scan_stop :: "nat \<Rightarrow> lock_scan \<Rightarrow> lock_state \<Rightarrow> lock_scan \<Rightarrow> bool" where
  "scan_stop inode v st v' \<longleftrightarrow> caller v' = caller v \<and> (v' = v \<or> before_pos v < length (i_flock st inode) \<and>
      left v' \<in> {left v, i_flock st inode ! before_pos v} \<and> right v' \<in> {right v, i_flock st inode ! before_pos v})"

text \<open>What every step keeps holds in the end.\<close>

lemma posix_scan_keeps:
  assumes "posix_scan inode v st = (v', st')" "I v st" and step: "\<And>v st v1 st1. I v st \<Longrightarrow> scan_step inode v st v1 st1 \<Longrightarrow> I v1 st1"
  obtains v0 where "I v0 st'" "scan_stop inode v0 st' v'"
proof -
  have "\<exists>v0. I v0 st' \<and> scan_stop inode v0 st' v'"
    using assms(1,2)
  proof (induction "length (i_flock st inode) - before_pos v" arbitrary: v st rule: less_induct)
    case less
    from less.prems(1) show ?case
    proof (cases rule: posix_scan_cases)
      case stop
      then show ?thesis using less.prems(2) by (intro exI [of _ v]) (auto simp: scan_stop_def)
    next
      case (step v1 st1)
      have "length (i_flock st1 inode) - before_pos v1 < length (i_flock st inode) - before_pos v"
        using step(1) by (simp add: scan_step_def Let_def)
      from less.hyps [OF this step(2) assms(3) [OF less.prems(2) step(1)]] show ?thesis .
    qed
  qed
  then show thesis using that by blast
qed

definition free_of_waiters :: "lock_scan \<Rightarrow> lock_state \<Rightarrow> bool" where
  "free_of_waiters v st \<longleftrightarrow> caller v \<notin> set (blocked_list st) \<and> left v \<notin> set (blocked_list st) \<and> right v \<notin> set (blocked_list st)"

lemma scan_step_waiting:
  assumes w: "waiting_ok st" and f: "free_of_waiters v st" and s: "scan_step inode v st v1 st1"
  shows "waiting_ok st1" "free_of_waiters v1 st1" "fewer_wait st st1" "set (file_lock_list st1) \<subseteq> set (file_lock_list st)"
proof -
  let ?k = "before_pos v"
  let ?fl = "i_flock st inode ! ?k"
  have k: "?k < length (i_flock st inode)" and c: "caller v1 \<in> {caller v, ?fl}" "left v1 \<in> {left v, ?fl}" "right v1 = right v"
    using s by (simp_all add: scan_step_def Let_def)
  have fl: "?fl \<in> set (file_lock_list st)" by (rule in_inode_on_list [OF w nth_mem [OF k]])
  have nfl: "?fl \<notin> set (blocked_list st)" by (rule on_list_not_waiting [OF w fl])
  have nc: "caller v \<notin> set (blocked_list st)" using f by (simp add: free_of_waiters_def)
  consider "st1 = st" | "st1 = locks_delete_lock inode ?k st" | "st1 = replace_lock ?fl (caller v) st"
    | "fl_type (fls st ?fl) = fl_type (fls st (caller v))" "st1 = merge_lock ?fl (caller v) st"
    | "fl_type (fls st ?fl) = fl_type (fls st (caller v))" "st1 = locks_delete_lock inode ?k (merge_lock ?fl (caller v) st)"
    using s unfolding scan_step_def Let_def by auto
  then have r: "waiting_ok st1 \<and> fewer_wait st st1 \<and> set (file_lock_list st1) \<subseteq> set (file_lock_list st)"
  proof cases
    case 1
    then show ?thesis using w by simp
  next
    case 2
    then show ?thesis using delete_waiting [OF w k] by simp
  next
    case 3
    then show ?thesis using replace_waiting [OF w fl] by simp
  next
    case 4
    then show ?thesis using merge_waiting [OF w nfl nc 4(1)] by (simp add: merge_lock_def Let_def)
  next
    case 5
    note m = merge_waiting [OF w nfl nc 5(1)]
    have "?k < length (i_flock (merge_lock ?fl (caller v) st) inode)" using k by simp
    note d = delete_waiting [OF m(1) this]
    have "file_lock_list (merge_lock ?fl (caller v) st) = file_lock_list st" by (simp add: merge_lock_def Let_def)
    then show ?thesis unfolding 5(2) using d fewer_wait_trans [OF m(2) d(2)] by simp
  qed
  then show "waiting_ok st1" "fewer_wait st st1" "set (file_lock_list st1) \<subseteq> set (file_lock_list st)" by blast+
  show "free_of_waiters v1 st1" using f c nfl r unfolding free_of_waiters_def fewer_wait_def by auto
qed

lemma scan_waiting:
  assumes w: "waiting_ok st" and f: "free_of_waiters v st" and s: "posix_scan inode v st = (v', st')"
  shows "waiting_ok st'" "fewer_wait st st'" "set (file_lock_list st') \<subseteq> set (file_lock_list st)" "free_of_waiters v' st'"
proof -
  define I where "I = (\<lambda>v st1. waiting_ok st1 \<and> free_of_waiters v st1 \<and> fewer_wait st st1 \<and> set (file_lock_list st1) \<subseteq> set (file_lock_list st))"
  have "I v1 st1" if "I v0 st0" "scan_step inode v0 st0 v1 st1" for v0 st0 v1 st1
    using that scan_step_waiting [OF _ _ that(2)] fewer_wait_trans [of st st0 st1] unfolding I_def by auto
  moreover have "I v st" using w f by (simp add: I_def)
  ultimately obtain v0 where v0: "I v0 st'" "scan_stop inode v0 st' v'" using posix_scan_keeps [OF s, of I] by blast
  show "waiting_ok st'" "fewer_wait st st'" "set (file_lock_list st') \<subseteq> set (file_lock_list st)" using v0(1) by (simp_all add: I_def)
  have "i_flock st' inode ! before_pos v0 \<notin> set (blocked_list st')" if "before_pos v0 < length (i_flock st' inode)"
    by (rule on_list_not_waiting [OF \<open>waiting_ok st'\<close> in_inode_on_list [OF \<open>waiting_ok st'\<close> nth_mem [OF that]]])
  then show "free_of_waiters v' st'" using v0 unfolding I_def scan_stop_def free_of_waiters_def by auto
qed

lemma insert_waiting:
  fixes inode p :: nat and a :: addr
  assumes w: "waiting_ok st" and n: "n \<notin> set (file_lock_list st)" "n \<notin> set (blocked_list st)"
  defines "st' \<equiv> locks_insert_lock inode p n (locks_copy_lock n a st)"
  shows "waiting_ok st'" "fewer_wait st st'" "set (file_lock_list st') = insert n (set (file_lock_list st))" "blocked_list st' = blocked_list st"
proof -
  let ?st = "locks_copy_lock n a st"
  have "waiting_ok ?st"
  proof (rule upd_waiting(1) [OF w, of _ "{n}"])
    show "lock_view ?st x = lock_view st x" if "x \<notin> {n}" for x using that by (simp add: copy_lock_view)
  qed (use n in \<open>auto simp: locks_copy_lock_def\<close>)
  have fs: "file_lock_list st' = n # file_lock_list st" "blocked_list st' = blocked_list st" "fls st' = fls ?st" "panicked st' = panicked ?st"
    by (simp_all add: st'_def locks_insert_lock_def locks_copy_lock_def)
  then show "set (file_lock_list st') = insert n (set (file_lock_list st))" "blocked_list st' = blocked_list st" by simp_all
  show "fewer_wait st st'" by (simp add: fewer_wait_def fs locks_copy_lock_def)
  have lk: "links_ok st" using w by (simp add: waiting_except_def)
  have nl: "n \<notin> set (i_flock st i)" for i using lk n(1) by (auto simp: links_ok_def)
  have i': "i_flock st' = (i_flock st)(inode := take p (i_flock st inode) @ n # drop p (i_flock st inode))" by (simp add: st'_def)
  have tp: "set (take p L) \<union> set (drop p L) = set L" "distinct L \<Longrightarrow> set (take p L) \<inter> set (drop p L) = {}" for L :: "addr list"
    by (metis append_take_drop_id set_append, simp add: set_take_disj_set_drop_if_distinct)
  have si: "set (i_flock st' i) = set (i_flock st i) \<union> (if i = inode then {n} else {})" for i using tp(1) by (auto simp: i')
  have "links_ok st'"
    unfolding links_ok_def
  proof (intro conjI allI impI)
    show "distinct (file_lock_list st')" using lk n(1) by (simp add: fs links_ok_def)
    show "a \<in> set (file_lock_list st') \<longleftrightarrow> (\<exists>i. a \<in> set (i_flock st' i))" for a
      unfolding si fs using lk by (auto simp: links_ok_def)
    have "distinct (take p (i_flock st inode) @ n # drop p (i_flock st inode))"
      using lk nl [of inode] tp [of "i_flock st inode"] by (auto simp: links_ok_def)
    then show "distinct (i_flock st' i)" for i using lk by (simp add: i' links_ok_def)
    show "set (i_flock st' i) \<inter> set (i_flock st' j) = {}" if "i \<noteq> j" for i j
      using lk nl that unfolding si links_ok_def by auto
  qed
  moreover have "blocks_ok st'" using \<open>waiting_ok ?st\<close> n(2) by (auto simp: waiting_except_def blocks_ok_def fs locks_copy_lock_def)
  ultimately show "waiting_ok st'"
    using \<open>waiting_ok ?st\<close> by (auto simp: waiting_except_def fs locks_copy_lock_def)
qed

lemma free_waiting:
  assumes w: "waiting_ok st" and n: "n \<notin> set (file_lock_list st)" "n \<notin> set (blocked_list st)"
  shows "locks_free_lock n st = st"
proof -
  have "set (fl_block (fls st n)) = {w. w \<in> set (blocked_list st) \<and> fl_next (fls st w) = n}" using w by (simp add: waiting_except_def blocks_ok_def)
  moreover have "fl_next (fls st x) \<noteq> n" if "x \<in> set (blocked_list st)" for x using w n(1) that by (auto simp: waiting_except_def)
  ultimately have "set (fl_block (fls st n)) = {}" by auto
  then show ?thesis using w n by (simp add: locks_free_lock_def)
qed

lemma finish_waiting:
  assumes w: "waiting_ok st" and f: "free_of_waiters v st" and n: "{n1, n2} \<inter> set (file_lock_list st) = {}" "{n1, n2} \<inter> set (blocked_list st) = {}" "n1 \<noteq> n2"
    and r: "posix_finish inode n1 n2 v st = (un, st')"
  shows "waiting_ok st'" "fewer_wait st st'" "set (file_lock_list st') \<subseteq> set (file_lock_list st) \<union> ({n1, n2} - set un)" "set un \<subseteq> {n1, n2}"
proof -
  define st1 where "st1 = (if added v then st else locks_insert_lock inode (before_pos v) n1 (locks_copy_lock n1 (caller v) st))"
  define sp where "sp \<longleftrightarrow> right v \<noteq> NULL \<and> left v = right v"
  define st2 where "st2 = (if sp then locks_insert_lock inode (before_pos v) n2 (locks_copy_lock n2 (right v) st1) else st1)"
  define lft where "lft = (if sp then n2 else left v)"
  define st3 where "st3 = (if right v \<noteq> NULL
     then locks_wake_up_blocks (right v) (upd_fl (right v) (\<lambda>f. f\<lparr>fl_start := loff64 (fl_end (fls st2 (caller v)) + 1)\<rparr>) st2) else st2)"
  define st4 where "st4 = (if lft \<noteq> NULL
     then locks_wake_up_blocks lft (upd_fl lft (\<lambda>f. f\<lparr>fl_end := loff64 (fl_start (fls st3 (caller v)) - 1)\<rparr>) st3) else st3)"
  have eq: "posix_finish inode n1 n2 v st = (if \<not> added v \<and> fl_type (fls st (caller v)) = F_UNLCK then ([n1, n2], st)
      else ((if added v then [n1] else []) @ (if sp then [] else [n2]), st4))"
    unfolding posix_finish_def st4_def st3_def st2_def st1_def lft_def sp_def Let_def
    by (cases "added v"; cases "right v = NULL"; cases "left v = right v") (simp_all add: Let_def)
  have i1: "waiting_ok st1 \<and> fewer_wait st st1 \<and> blocked_list st1 = blocked_list st \<and>
      set (file_lock_list st1) = set (file_lock_list st) \<union> (if added v then {} else {n1})"
    using w insert_waiting [OF w, of n1 inode "before_pos v" "caller v"] n by (simp add: st1_def)
  have i2: "waiting_ok st2 \<and> fewer_wait st st2 \<and> blocked_list st2 = blocked_list st \<and>
      set (file_lock_list st2) = set (file_lock_list st) \<union> (if added v then {} else {n1}) \<union> (if sp then {n2} else {})"
    using i1 insert_waiting [of st1 n2 inode "before_pos v" "right v"] n fewer_wait_trans [of st st1]
    by (auto simp: st2_def)
  have i3: "waiting_ok st3 \<and> fewer_wait st st3 \<and> file_lock_list st3 = file_lock_list st2"
  proof (cases "right v = NULL")
    case True
    then show ?thesis using i2 by (simp add: st3_def)
  next
    case False
    have r0: "right v \<notin> set (blocked_list st2)" using i2 f by (simp add: free_of_waiters_def)
    have w2: "waiting_ok st2" using i2 by blast
    note s = set_and_wake_waiting [OF w2 r0, of "\<lambda>f. f\<lparr>fl_start := loff64 (fl_end (fls st2 (caller v)) + 1)\<rparr>"]
    show ?thesis using s fewer_wait_trans [of st st2 st3] i2 False by (simp add: st3_def)
  qed
  have i4: "waiting_ok st4 \<and> fewer_wait st st4 \<and> file_lock_list st4 = file_lock_list st2"
  proof (cases "lft = NULL")
    case True
    then show ?thesis using i3 by (simp add: st4_def)
  next
    case False
    have "lft \<notin> set (blocked_list st)" using f n(2) by (simp add: lft_def free_of_waiters_def)
    then have r0: "lft \<notin> set (blocked_list st3)" using i3 by (auto simp: fewer_wait_def)
    have w3: "waiting_ok st3" using i3 by blast
    note s = set_and_wake_waiting [OF w3 r0, of "\<lambda>f. f\<lparr>fl_end := loff64 (fl_start (fls st3 (caller v)) - 1)\<rparr>"]
    show ?thesis using s fewer_wait_trans [of st st3 st4] i3 False by (simp add: st4_def)
  qed
  show "waiting_ok st'" "fewer_wait st st'" using r i4 w unfolding eq by (auto split: if_splits)
  show "set un \<subseteq> {n1, n2}" using r unfolding eq by (auto split: if_splits)
  show "set (file_lock_list st') \<subseteq> set (file_lock_list st) \<union> ({n1, n2} - set un)"
  proof (cases "\<not> added v \<and> fl_type (fls st (caller v)) = F_UNLCK")
    case True
    then show ?thesis using r unfolding eq by auto
  next
    case False
    then have "st' = st4" "un = (if added v then [n1] else []) @ (if sp then [] else [n2])" using r unfolding eq by auto
    then show ?thesis using i4 i2 n(3) by auto
  qed
qed

lemma free_all_waiting:
  "waiting_ok st \<Longrightarrow> set un \<inter> set (file_lock_list st) = {} \<Longrightarrow> set un \<inter> set (blocked_list st) = {} \<Longrightarrow> fold locks_free_lock un st = st"
  by (induction un) (simp_all add: free_waiting)

lemma apply_waiting:
  assumes w: "waiting_ok st" and c: "c \<notin> set (blocked_list st)" "NULL \<notin> set (blocked_list st)"
    and n: "{n1, n2} \<inter> set (file_lock_list st) = {}" "{n1, n2} \<inter> set (blocked_list st) = {}" "n1 \<noteq> n2"
  shows "waiting_ok (posix_apply inode c n1 n2 st)" "fewer_wait st (posix_apply inode c n1 n2 st)"
    "set (file_lock_list (posix_apply inode c n1 n2 st)) \<subseteq> set (file_lock_list st) \<union> {n1, n2}"
proof -
  define v where "v = \<lparr>before_pos = length (takeWhile (\<lambda>fl. \<not> is_posix (fls st fl) \<or> \<not> locks_same_owner (fls st c) (fls st fl)) (i_flock st inode)),
     caller = c, added = False, left = NULL, right = NULL\<rparr>"
  obtain v' st1 where s: "posix_scan inode v st = (v', st1)" by fastforce
  obtain un st2 where f: "posix_finish inode n1 n2 v' st1 = (un, st2)" by fastforce
  have eq: "posix_apply inode c n1 n2 st = fold locks_free_lock un st2"
    unfolding posix_apply_def Let_def v_def [symmetric] s prod.case f ..
  have "free_of_waiters v st" using c by (simp add: free_of_waiters_def v_def)
  note sw = scan_waiting [OF w this s]
  have n1: "{n1, n2} \<inter> set (file_lock_list st1) = {}" "{n1, n2} \<inter> set (blocked_list st1) = {}" using n sw(2,3) by (auto simp: fewer_wait_def)
  note fw = finish_waiting [OF sw(1,4) n1 n(3) f]
  have "set un \<inter> set (file_lock_list st2) = {}" "set un \<inter> set (blocked_list st2) = {}"
    using fw(2-4) n1 by (auto simp: fewer_wait_def)
  then have same: "fold locks_free_lock un st2 = st2" by (rule free_all_waiting [OF fw(1)])
  show "waiting_ok (posix_apply inode c n1 n2 st)" "fewer_wait st (posix_apply inode c n1 n2 st)"
    "set (file_lock_list (posix_apply inode c n1 n2 st)) \<subseteq> set (file_lock_list st) \<union> {n1, n2}"
    unfolding eq same using fw(1,3) sw(3) fewer_wait_trans [OF sw(2) fw(2)] by auto
qed

lemma apply_owner:
  assumes ok: "inode_ok st inode" and r: "request_at st inode p r c n1 n2"
    and a: "a \<in> set (i_flock st inode)" "a \<in> set (i_flock (posix_apply inode c n1 n2 st) inode)"
  shows "fst (lock_view (posix_apply inode c n1 n2 st) a) = fst (lock_view st a)"
proof -
  define st' where "st' = posix_apply inode c n1 n2 st"
  obtain A P Y where f: "i_flock st inode = A @ locks_of st inode p @ P" "i_flock st' = (i_flock st)(inode := A @ Y @ P)"
    "locks_of st inode p = [] \<longrightarrow> P = []" "\<And>a. a \<in> set (A @ P) \<Longrightarrow> a \<notin> set (locks_of st inode p)"
    "set Y \<subseteq> set (locks_of st inode p) \<union> {n1, n2}" "distinct Y" "\<And>y. y \<in> set Y \<Longrightarrow> fst (lock_view st' y) = process (fst p) (snd p)"
    "ranges st' Y = put_range (ranges st (locks_of st inode p)) r"
    "\<And>a. a \<notin> set (locks_of st inode p) \<union> {c, n1, n2} \<Longrightarrow> lock_view st' a = lock_view st a"
    by (rule posix_apply_effect [OF ok r, folded st'_def]) (rule that)
  have nc: "a \<notin> {c, n1, n2}" using r a(1) by (auto simp: request_at_def)
  show ?thesis
  proof (cases "a \<in> set (locks_of st inode p)")
    case True
    have "a \<in> set (A @ Y @ P)" using a(2) f(2) by (simp add: st'_def)
    then have "a \<in> set Y" using f(4) [of a] True by auto
    moreover have "fst (lock_view st a) = process (fst p) (snd p)"
      using True ok a(1) unfolding locks_of_mem inode_ok_def by (auto simp: lock_view_def owner_of_def)
    ultimately show ?thesis using f(7) by (simp add: st'_def)
  next
    case False
    then show ?thesis using f(9) [of a] nc by (simp add: st'_def)
  qed
qed

subsection \<open>Removing the locks of a process\<close>

lemma remove_first:
  fixes Q :: "'a \<Rightarrow> bool"
  assumes "k = length (takeWhile (\<lambda>x. \<not> Q x) L)" "k < length L"
  shows "filter (\<lambda>x. \<not> Q x) (take k L @ drop (k + 1) L) = filter (\<lambda>x. \<not> Q x) L"
proof -
  have "Q (L ! k)" using assms nth_length_takeWhile [of "\<lambda>x. \<not> Q x" L] by simp
  moreover have "L = take k L @ L ! k # drop (k + 1) L" using assms(2) by (simp add: id_take_nth_drop)
  ultimately show ?thesis by (metis (no_types, lifting) filter.simps(2) filter_append)
qed

lemma remove_posix_effect:
  defines "keep \<equiv> \<lambda>st owner a. \<not> (is_posix (fls st a) \<and> fl_owner (fls st a) = owner)"
  shows "i_flock (locks_remove_posix inode owner st) = (i_flock st)(inode := filter (keep st owner) (i_flock st inode))"
    "lock_view (locks_remove_posix inode owner st) a = lock_view st a"
    "waiting_ok st \<Longrightarrow> waiting_ok (locks_remove_posix inode owner st) \<and> fewer_wait st (locks_remove_posix inode owner st) \<and>
       set (file_lock_list (locks_remove_posix inode owner st)) \<subseteq> set (file_lock_list st)"
proof (induction inode owner st arbitrary: a rule: locks_remove_posix.induct)
  case (1 inode owner st)
  let ?L = "i_flock st inode" and ?Q = "\<lambda>a. is_posix (fls st a) \<and> fl_owner (fls st a) = owner"
  have keep: "keep st' owner = keep st owner" if "\<And>x. lock_view st' x = lock_view st x" for st'
    using that unfolding keep_def fun_eq_iff by (auto simp: is_posix_view lock_view_def owner_of_def)
  {
    case 1
    show ?case
    proof (cases "locks_remove_posix_pos inode owner st")
      case None
      then have "length ?L \<le> length (takeWhile (\<lambda>a. \<not> ?Q a) ?L)" by (simp add: locks_remove_posix_pos_def Let_def split: if_splits)
      then have "takeWhile (\<lambda>a. \<not> ?Q a) ?L = ?L" by (metis takeWhile_eq_take take_all)
      then have "filter (keep st owner) ?L = ?L" unfolding keep_def by (metis filter_True takeWhile_eq_all_conv)
      then show ?thesis using None by (subst locks_remove_posix.simps) simp
    next
      case (Some k)
      then have k: "k = length (takeWhile (\<lambda>a. \<not> ?Q a) ?L)" "k < length ?L"
        by (auto simp: locks_remove_posix_pos_def Let_def split: if_splits)
      have "filter (keep st owner) (take k ?L @ drop (k + 1) ?L) = filter (keep st owner) ?L"
        unfolding keep_def by (rule remove_first [OF k])
      moreover have "locks_remove_posix inode owner st = locks_remove_posix inode owner (locks_delete_lock inode k st)"
        using Some by (subst locks_remove_posix.simps) simp
      ultimately show ?thesis using "1.IH"(1) [OF Some] keep [of "locks_delete_lock inode k st"] by (simp add: fun_eq_iff)
    qed
  next
    case 2
    show ?case
    proof (cases "locks_remove_posix_pos inode owner st")
      case None
      then show ?thesis by (subst locks_remove_posix.simps) simp
    next
      case (Some k)
      then show ?thesis using "1.IH"(2) [OF Some] by (subst locks_remove_posix.simps) simp
    qed
  next
    case 3
    show ?case
    proof (cases "locks_remove_posix_pos inode owner st")
      case None
      then show ?thesis using 3 by (subst (1 2 3) locks_remove_posix.simps) simp
    next
      case (Some k)
      then have k: "k < length ?L" by (auto simp: locks_remove_posix_pos_def Let_def split: if_splits)
      note d = delete_waiting [OF 3 k]
      show ?thesis using "1.IH"(3) [OF Some d(1)] d fewer_wait_trans [OF d(2)] Some
        by (subst (1 2 3) locks_remove_posix.simps) auto
    qed
  }
qed

lemma remove_posix_ok:
  fixes owner :: nat
  assumes ok: "inode_ok st inode"
  defines "st' \<equiv> locks_remove_posix inode owner st"
  shows "inode_ok st' inode" "locks_of st' inode p = (if fst p = owner then [] else locks_of st inode p)"
    "i \<noteq> inode \<Longrightarrow> i_flock st' i = i_flock st i" "set (i_flock st' inode) \<subseteq> set (i_flock st inode)" "lock_view st' a = lock_view st a"
proof -
  let ?keep = "\<lambda>a. \<not> (is_posix (fls st a) \<and> fl_owner (fls st a) = owner)" and ?L = "i_flock st inode"
  have i: "i_flock st' = (i_flock st)(inode := filter ?keep ?L)" and v: "\<And>a. lock_view st' a = lock_view st a"
    unfolding st'_def by (rule remove_posix_effect)+
  show "lock_view st' a = lock_view st a" by (rule v)
  show "i \<noteq> inode \<Longrightarrow> i_flock st' i = i_flock st i" "set (i_flock st' inode) \<subseteq> set ?L" using i by auto
  have f: "is_posix (fls st' a) = is_posix (fls st a)" "fl_owner (fls st' a) = fl_owner (fls st a)" "fl_pid (fls st' a) = fl_pid (fls st a)"
      "fl_flags (fls st' a) = fl_flags (fls st a)" for a
    using v [of a] by (auto simp: is_posix_def lock_view_def owner_of_def)
  show lo: "locks_of st' inode p = (if fst p = owner then [] else locks_of st inode p)" for p
    unfolding locks_of_def i fun_upd_same filter_filter f
    by (cases p) (auto simp: filter_empty_conv intro: filter_cong)
  have i': "i_flock st' inode = filter ?keep ?L" using i by simp
  have "process_ok st' inode p" for p
  proof (cases "fst p = owner")
    case True
    then show ?thesis using lo [of p] by (intro process_okI) (auto simp: ranges_ok_def)
  next
    case False
    obtain A P where L: "?L = A @ locks_of st inode p @ P" and r: "ranges_ok (ranges st (locks_of st inode p))"
      using inode_ok_process [OF ok, of p] unfolding process_ok_def by blast
    have "filter ?keep (locks_of st inode p) = locks_of st inode p" using False by (auto simp: filter_id_conv locks_of_mem)
    then have "filter ?keep (A @ locks_of st inode p @ P) = filter ?keep A @ locks_of st inode p @ filter ?keep P" by simp
    then have "i_flock st' inode = filter ?keep A @ locks_of st' inode p @ filter ?keep P"
      using lo [of p] False unfolding i' L [symmetric] by simp
    then show ?thesis using r lo [of p] False v by (intro process_okI) auto
  qed
  moreover have "sorted_wrt (\<lambda>a b. is_posix (fls st' a) \<longrightarrow> is_posix (fls st' b)) (filter ?keep ?L)"
    unfolding f by (rule sorted_wrt_filter) (use ok in \<open>unfold inode_ok_def, blast\<close>)
  moreover have "distinct (filter ?keep ?L)" "NULL \<notin> set (filter ?keep ?L)"
      "\<forall>a\<in>set (filter ?keep ?L). is_posix (fls st a) \<longrightarrow> fl_flags (fls st a) = FL_POSIX"
    using ok unfolding inode_ok_def by auto
  ultimately show "inode_ok st' inode" unfolding inode_ok_def i' f by blast
qed

subsection \<open>The search for deadlocks\<close>

text \<open>A process that waits for a lock of another one.\<close>

definition process_of :: "lock_state \<Rightarrow> addr \<Rightarrow> nat \<times> nat" where
  "process_of st a = (fl_owner (fls st a), fl_pid (fls st a))"

definition waits_for :: "lock_state \<Rightarrow> ((nat \<times> nat) \<times> (nat \<times> nat)) set" where
  "waits_for st = (\<lambda>w. (process_of st w, process_of st (fl_next (fls st w)))) ` set (blocked_list st)"

definition waits_once :: "lock_state \<Rightarrow> bool" where
  "waits_once st \<longleftrightarrow> distinct (map (process_of st) (blocked_list st))"

lemma deadlock_from_step:
  "deadlock_from st me p =
     (if me = p then Some True
      else case find (\<lambda>a. process_of st a = p) (blocked_list st) of
        None \<Rightarrow> Some False
      | Some a \<Rightarrow> deadlock_from st me (process_of st (fl_next (fls st a))))"
  by (subst deadlock_from.simps) (auto simp: process_of_def Let_def prod_eq_iff split: option.split)

text \<open>Without a cycle the search ends; it finds the caller only where a chain of waiting processes leads, and, when every process waits
  once, always there.\<close>

lemma deadlock_search:
  assumes ac: "acyclic (waits_for st)"
  shows "\<exists>d. deadlock_from st c p = Some d \<and> (d \<longrightarrow> (p, c) \<in> (waits_for st)\<^sup>*) \<and> (waits_once st \<longrightarrow> (p, c) \<in> (waits_for st)\<^sup>* \<longrightarrow> d)"
proof -
  have "finite (waits_for st)" by (simp add: waits_for_def)
  then have "wf ((waits_for st)\<inverse>)" using ac by (rule finite_acyclic_wf_converse)
  then show ?thesis
  proof (induction p rule: wf_induct_rule)
    case (less p)
    show ?case
    proof (cases "c = p")
      case True
      then show ?thesis by (subst deadlock_from_step) auto
    next
      case ne: False
      show ?thesis
      proof (cases "find (\<lambda>a. process_of st a = p) (blocked_list st)")
        case None
        then have "(p, q) \<notin> waits_for st" for q by (auto simp: waits_for_def find_None_iff)
        then have "(p, c) \<notin> (waits_for st)\<^sup>*" using ne by (metis converse_rtranclE)
        then show ?thesis using ne None by (subst deadlock_from_step) auto
      next
        case (Some a)
        then have a: "a \<in> set (blocked_list st)" "process_of st a = p" by (auto simp: find_Some_iff)
        let ?q = "process_of st (fl_next (fls st a))"
        have e: "(p, ?q) \<in> waits_for st" using a by (auto simp: waits_for_def)
        have only: "q = ?q" if "waits_once st" "(p, q) \<in> waits_for st" for q
          using that a by (auto simp: waits_for_def waits_once_def distinct_map inj_on_def)
        obtain d where d: "deadlock_from st c ?q = Some d" "d \<longrightarrow> (?q, c) \<in> (waits_for st)\<^sup>*"
            "waits_once st \<longrightarrow> (?q, c) \<in> (waits_for st)\<^sup>* \<longrightarrow> d"
          using less [of ?q] e by auto
        have "deadlock_from st c p = Some d" using ne Some d(1) by (subst deadlock_from_step) simp
        moreover have "d \<longrightarrow> (p, c) \<in> (waits_for st)\<^sup>*" using d(2) e by (meson converse_rtrancl_into_rtrancl)
        moreover have "waits_once st \<longrightarrow> (p, c) \<in> (waits_for st)\<^sup>* \<longrightarrow> d"
          using d(3) only ne by (metis converse_rtranclE)
        ultimately show ?thesis by blast
      qed
    qed
  qed
qed


end
