(* ===== verification/FLockSys.thy ===== *)
theory FLockSys
  imports FLockWait
begin

text \<open>
  Tasks that lock and unlock ranges of files, sleep, are woken or interrupted, and close files, in any order: the step relation \<open>lock_step\<close>, its
  invariant \<open>lock_inv\<close>, and the proof that every step keeps it.
\<close>

subsection \<open>Tasks and locks\<close>

text \<open>The locks, and the requests that sleep: the file and the two structures allocated for each.\<close>

record lock_sys =
  lk :: lock_state
  pend :: "addr \<rightharpoonup> nat \<times> addr \<times> addr"

text \<open>The end of a call: it sleeps, or the structure of the request is freed.\<close>

definition complete :: "addr \<Rightarrow> nat \<times> addr \<times> addr \<Rightarrow> lock_sys \<Rightarrow> lock_result \<Rightarrow> lock_sys" where
  "complete c x s res =
     (case res of Returned e st \<Rightarrow> s\<lparr>lk := locks_free_lock c st, pend := (pend s)(c := None)\<rparr>
      | Sleeping st \<Rightarrow> s\<lparr>lk := st, pend := (pend s)(c \<mapsto> x)\<rparr>)"

definition cells :: "addr \<Rightarrow> nat \<times> addr \<times> addr \<Rightarrow> addr set" where
  "cells c = (\<lambda>(i, n1, n2). {c, n1, n2})"

definition used_cells :: "lock_sys \<Rightarrow> addr set" where
  "used_cells s = set (file_lock_list (lk s)) \<union> set (blocked_list (lk s)) \<union> {a. \<exists>c x. pend s c = Some x \<and> a \<in> cells c x}"

text \<open>
  The steps: a task calls \<open>posix_lock_file\<close> with fresh structures, where an allocation may fail; a task that sleeps goes on, with a signal or not; a task
  closes a file.  Of the threads of a process only one sleeps at a time.  A call does not reach the last byte of a file where the process has a
  lock of the same type (\<open>no_wrap\<close>).
\<close>

inductive lock_step :: "lock_sys \<Rightarrow> lock_sys \<Rightarrow> bool" where
  request: "\<lbrakk>distinct (c # filter (\<lambda>a. a \<noteq> NULL) [n1, n2]); c \<noteq> NULL; {c, n1, n2} \<inter> used_cells s \<subseteq> {NULL};
     request_ok r; no_wrap (ranges (lk s) (locks_of (lk s) inode p)) r;
     wait \<Longrightarrow> \<forall>c\<in>dom (pend s). process_of (lk s) c \<noteq> p;
     posix_lock_file inode c wait n1 n2 (set_request c p r (lk s)) = Some res\<rbrakk>
     \<Longrightarrow> lock_step s (complete c (inode, n1, n2) s res)"
| go_on: "\<lbrakk>pend s c = Some (inode, n1, n2); 
     \<not> signal \<Longrightarrow> no_wrap (ranges (lk s) (locks_of (lk s) inode (process_of (lk s) c))) (range_of (fls (lk s) c));
     posix_lock_woken inode c signal n1 n2 (lk s) = Some res\<rbrakk>
     \<Longrightarrow> lock_step s (complete c (inode, n1, n2) s res)"
| close: "lock_step s (s\<lparr>lk := locks_remove_posix inode owner (lk s)\<rparr>)"

definition lock_start :: "lock_sys \<Rightarrow> bool" where
  "lock_start s \<longleftrightarrow> (\<forall>i. i_flock (lk s) i = []) \<and> file_lock_list (lk s) = [] \<and> blocked_list (lk s) = [] \<and> \<not> panicked (lk s) \<and>
     (\<forall>a. fl_block (fls (lk s) a) = []) \<and> pend s = Map.empty"

text \<open>A process that may write excludes all others.\<close>

definition exclusive :: "lock_state \<Rightarrow> bool" where
  "exclusive st \<longleftrightarrow> (\<forall>i p q x. p \<noteq> q \<longrightarrow> held_at st i p x = Some F_WRLCK \<longrightarrow> held_at st i q x = None)"

definition locks_ok :: "lock_state \<Rightarrow> bool" where
  "locks_ok st \<longleftrightarrow> waiting_ok st \<and> NULL \<notin> set (blocked_list st) \<and> (\<forall>i. inode_ok st i) \<and> exclusive st \<and> acyclic (waits_for st)"

definition request_pending :: "lock_state \<Rightarrow> addr \<Rightarrow> nat \<times> addr \<times> addr \<Rightarrow> bool" where
  "request_pending st c = (\<lambda>(i, n1, n2). distinct [NULL, c, n1, n2] \<and> {c, n1, n2} \<inter> set (file_lock_list st) = {} \<and>
     {n1, n2} \<inter> set (blocked_list st) = {} \<and> fl_flags (fls st c) = FL_POSIX \<and> request_ok (range_of (fls st c)) \<and>
     (c \<in> set (blocked_list st) \<longrightarrow> fl_next (fls st c) \<in> set (i_flock st i)))"

definition cells_apart :: "(addr \<rightharpoonup> nat \<times> addr \<times> addr) \<Rightarrow> bool" where
  "cells_apart P \<longleftrightarrow> (\<forall>c x c' x'. P c = Some x \<longrightarrow> P c' = Some x' \<longrightarrow> c \<noteq> c' \<longrightarrow> cells c x \<inter> cells c' x' = {})"

definition requests_ok :: "lock_sys \<Rightarrow> bool" where
  "requests_ok s \<longleftrightarrow> set (blocked_list (lk s)) \<subseteq> dom (pend s) \<and> inj_on (process_of (lk s)) (dom (pend s)) \<and>
     (\<forall>c x. pend s c = Some x \<longrightarrow> request_pending (lk s) c x) \<and> cells_apart (pend s)"

definition lock_inv :: "lock_sys \<Rightarrow> bool" where
  "lock_inv s \<longleftrightarrow> locks_ok (lk s) \<and> requests_ok s"

lemma locked_at_Some: "locked_at xs x = Some u \<Longrightarrow> \<exists>a b. (a, b, u) \<in> set xs \<and> a \<le> x \<and> x \<le> b"
proof (induction xs)
  case (Cons y xs)
  then show ?case by (cases y) (fastforce split: if_splits)
qed simp

lemma process_of_view: "process_of st a = (fst (fst (lock_view st a)), fst (snd (fst (lock_view st a))))"
  by (simp add: process_of_def lock_view_def owner_of_def)

text \<open>Changes to locks that are on no list of a file change no one's locks.\<close>

lemma held_cong:
  assumes "i_flock st' i = i_flock st i" "\<And>a. a \<in> set (i_flock st i) \<Longrightarrow> lock_view st' a = lock_view st a"
  shows "held_at st' i p x = held_at st i p x"
proof -
  have "map (\<lambda>a. range_of (fls st' a)) (locks_of st i p) = map (\<lambda>a. range_of (fls st a)) (locks_of st i p)"
    using assms(2) by (auto simp: locks_of_mem range_view)
  moreover have "locks_of st' i p = locks_of st i p" using assms by (rule locks_of_cong)
  ultimately show ?thesis unfolding held_at_def by (simp only:)
qed

lemma no_conflict_held:
  assumes c: "lock_view st c = (process (fst p) (snd p), s, e, t)" and x: "s \<le> x" "x \<le> e" and q: "q \<noteq> p" "held_at st i q x = Some u"
    and f: "find (\<lambda>fl. is_posix (fls st fl) \<and> posix_locks_conflict (fls st c) (fls st fl)) (i_flock st i) = None"
  shows "t \<noteq> F_WRLCK" "t = F_RDLCK \<longrightarrow> u \<noteq> F_WRLCK"
proof -
  obtain a b where "(a, b, u) \<in> set (ranges st (locks_of st i q))" "a \<le> x" "x \<le> b" using q(2) locked_at_Some unfolding held_ranges by blast
  then obtain fl where fl: "fl \<in> set (locks_of st i q)" "fl_start (fls st fl) \<le> x" "x \<le> fl_end (fls st fl)" "fl_type (fls st fl) = u"
    by (auto simp: lock_view_def range_of_def)
  then have "\<not> posix_locks_conflict (fls st c) (fls st fl)" using f by (auto simp: find_None_iff locks_of_mem)
  moreover have "\<not> locks_same_owner (fls st c) (fls st fl)" "is_posix (fls st fl)"
    using fl(1) q(1) c by (cases p; cases q; auto simp: locks_of_mem locks_same_owner_def view_fields)+
  moreover have "locks_overlap (fls st c) (fls st fl)" using fl c x by (simp add: locks_overlap_def view_fields)
  ultimately have "\<not> locks_conflict (fls st c) (fls st fl)" by (simp add: posix_locks_conflict_def)
  then show "t \<noteq> F_WRLCK" "t = F_RDLCK \<longrightarrow> u \<noteq> F_WRLCK" using c fl(4) by (auto simp: locks_conflict_def view_fields kdefs split: if_splits)
qed
subsection \<open>Steps keep the locks in order\<close>

lemma locks_okD:
  assumes "locks_ok st"
  shows "waiting_ok st" "NULL \<notin> set (blocked_list st)" "inode_ok st i" "exclusive st" "acyclic (waits_for st)"
  using assms unfolding locks_ok_def by blast+

lemma waits_for_shrink:
  assumes "fewer_wait st st'" "\<And>w. w \<in> set (blocked_list st') \<Longrightarrow> process_of st' w = process_of st w"
    and "\<And>w. w \<in> set (blocked_list st') \<Longrightarrow> process_of st' (fl_next (fls st' w)) = process_of st (fl_next (fls st' w))"
  shows "waits_for st' \<subseteq> waits_for st"
  using assms unfolding waits_for_def fewer_wait_def by auto

text \<open>A change that is not visible in the locks of files.\<close>

lemma locks_ok_same:
  assumes ok: "locks_ok st" and w: "waiting_ok st'" "fewer_wait st st'"
    and i: "i_flock st' = i_flock st" and v: "\<And>a. a \<in> set (file_lock_list st) \<union> set (blocked_list st) \<Longrightarrow> lock_view st' a = lock_view st a"
  shows "locks_ok st'"
proof -
  have v': "lock_view st' a = lock_view st a" if "a \<in> set (i_flock st i)" for a i using v in_inode_on_list [OF locks_okD(1) [OF ok] that] by blast
  have "inode_ok st' j" for j by (rule inode_ok_cong [OF locks_okD(3) [OF ok]]) (simp_all add: i v')
  moreover have "exclusive st'"
  proof -
    have h: "held_at st' j p x = held_at st j p x" for j p x by (rule held_cong) (simp_all add: i v')
    show ?thesis using locks_okD(4) [OF ok] unfolding exclusive_def h .
  qed
  moreover have "waits_for st' \<subseteq> waits_for st"
  proof (rule waits_for_shrink [OF w(2)])
    fix w
    assume "w \<in> set (blocked_list st')"
    then have "w \<in> set (blocked_list st)" "fl_next (fls st' w) \<in> set (file_lock_list st)"
      using w locks_okD(1) [OF ok] by (auto simp: fewer_wait_def waiting_except_def)
    then show "process_of st' w = process_of st w" "process_of st' (fl_next (fls st' w)) = process_of st (fl_next (fls st' w))"
      unfolding process_of_view by (auto simp: v)
  qed
  then have "acyclic (waits_for st')" using locks_okD(5) [OF ok] acyclic_subset by blast
  ultimately show ?thesis using w ok unfolding locks_ok_def fewer_wait_def by blast
qed

lemma apply_exclusive:
  assumes ok: "inode_ok st inode" and x: "exclusive st" and r: "request_at st inode p (s, e, t) c n1 n2"
    and f: "t = F_UNLCK \<or> find (\<lambda>fl. is_posix (fls st fl) \<and> posix_locks_conflict (fls st c) (fls st fl)) (i_flock st inode) = None"
    and v: "\<And>i a. i \<noteq> inode \<Longrightarrow> a \<in> set (i_flock st i) \<Longrightarrow> lock_view (posix_apply inode c n1 n2 st) a = lock_view st a"
  shows "exclusive (posix_apply inode c n1 n2 st)"
  unfolding exclusive_def
proof (intro allI impI)
  fix i q q' y
  define st' where "st' = posix_apply inode c n1 n2 st"
  assume q: "q \<noteq> q'" "held_at (posix_apply inode c n1 n2 st) i q y = Some F_WRLCK"
  note h = posix_apply_held [OF ok r, folded st'_def]
  have c: "lock_view st c = (process (fst p) (snd p), s, e, t)" and t: "t \<in> {F_RDLCK, F_WRLCK, F_UNLCK}"
    using r by (auto simp: request_at_def request_ok_def)
  have x': "held_at st inode q y = Some F_WRLCK \<Longrightarrow> held_at st inode q' y = None" using x q(1) unfolding exclusive_def by blast
  show "held_at (posix_apply inode c n1 n2 st) i q' y = None"
  proof (cases "i = inode")
    case False
    have "held_at st' i q y = held_at st i q y" for q
      by (rule held_cong) (use v [OF False] posix_apply_ok(5) [OF ok r False] in \<open>auto simp: st'_def\<close>)
    then show ?thesis using q x unfolding exclusive_def st'_def by metis
  next
    case i: True
    consider "\<not> (s \<le> y \<and> y \<le> e)" | "s \<le> y" "y \<le> e" "q = p" | "s \<le> y" "y \<le> e" "q' = p" | "q \<noteq> p" "q' \<noteq> p" by blast
    then show ?thesis
    proof cases
      case 2
      then have "t = F_WRLCK" using q(2) h [of q y] i by (auto simp: st'_def split: if_splits)
      then have f': "find (\<lambda>fl. is_posix (fls st fl) \<and> posix_locks_conflict (fls st c) (fls st fl)) (i_flock st inode) = None"
        using f by (simp add: kdefs)
      have "held_at st inode q' y = None"
      proof (rule ccontr)
        assume "held_at st inode q' y \<noteq> None"
        then obtain u where u: "held_at st inode q' y = Some u" by blast
        show False using no_conflict_held(1) [OF c 2(1,2) _ u f'] q(1) 2(3) \<open>t = F_WRLCK\<close> by blast
      qed
      then show ?thesis using h [of q' y] 2 q(1) i by (simp add: st'_def)
    next
      case 3
      then have "held_at st inode q y = Some F_WRLCK" using q h [of q y] i by (simp add: st'_def)
      then have "t = F_UNLCK" using f no_conflict_held [OF c 3(1,2), of q inode F_WRLCK] q(1) 3 t by auto
      then show ?thesis using h [of q' y] 3 i by (simp add: st'_def)
    qed (use q x' h [of q y] h [of q' y] i in \<open>auto simp: st'_def\<close>)
  qed
qed

lemma apply_locks_ok:
  assumes ok: "locks_ok st" and r: "request_at st inode p (s, e, t) c n1 n2"
    and n: "{c, n1, n2} \<inter> set (file_lock_list st) = {}" "{c, n1, n2} \<inter> set (blocked_list st) = {}"
    and f: "t = F_UNLCK \<or> find (\<lambda>fl. is_posix (fls st fl) \<and> posix_locks_conflict (fls st c) (fls st fl)) (i_flock st inode) = None"
  shows "locks_ok (posix_apply inode c n1 n2 st)"
proof -
  define st' where "st' = posix_apply inode c n1 n2 st"
  note k = locks_okD [OF ok]
  note a = posix_apply_ok [OF k(3) r, folded st'_def]
  have ne: "n1 \<noteq> n2" using r by (simp add: request_at_def)
  have w: "waiting_ok st'" "fewer_wait st st'" "set (file_lock_list st') \<subseteq> set (file_lock_list st) \<union> {n1, n2}"
    unfolding st'_def by (rule apply_waiting [OF k(1) _ k(2) _ _ ne]; use n in blast)+
  have v: "lock_view st' b = lock_view st b" if "b \<in> set (i_flock st i)" "i \<noteq> inode" for b i
  proof (rule a(6))
    have "b \<notin> set (i_flock st inode)" using that k(1) unfolding waiting_except_def links_ok_def by blast
    then show "b \<notin> set (i_flock st inode) \<union> {c, n1, n2}" using n(1) in_inode_on_list [OF k(1) that(1)] by blast
  qed
  have "inode_ok st' i" for i
  proof (cases "i = inode")
    case False
    show ?thesis by (rule inode_ok_cong [OF k(3)]) (use a(5) [OF False] v [OF _ False] in auto)
  qed (simp add: a(1))
  moreover have "exclusive st'" unfolding st'_def by (rule apply_exclusive [OF k(3,4) r f]) (rule v [unfolded st'_def])
  moreover have "waits_for st' \<subseteq> waits_for st"
  proof (rule waits_for_shrink [OF w(2)])
    fix x
    assume x: "x \<in> set (blocked_list st')"
    then have o: "x \<in> set (blocked_list st)" "fl_next (fls st' x) = fl_next (fls st x)" using w(2) by (auto simp: fewer_wait_def)
    have "x \<notin> set (i_flock st inode) \<union> {c, n1, n2}" using o(1) n(2) in_inode_on_list [OF k(1)] on_list_not_waiting [OF k(1)] by blast
    then show "process_of st' x = process_of st x" using a(6) by (simp add: process_of_view)
    let ?b = "fl_next (fls st' x)"
    have "?b \<in> set (file_lock_list st')" using w(1) x by (auto simp: waiting_except_def)
    then obtain j where j: "?b \<in> set (i_flock st' j)" using w(1) by (auto simp: waiting_except_def links_ok_def)
    have b: "?b \<in> set (file_lock_list st)" using k(1) o by (auto simp: waiting_except_def)
    show "process_of st' ?b = process_of st ?b"
    proof (cases "j = inode")
      case True
      then have "?b \<in> set (i_flock st inode)" using j a(7) b n(1) by auto
      then have "fst (lock_view st' ?b) = fst (lock_view st ?b)" using apply_owner [OF k(3) r, folded st'_def] j True by blast
      then show ?thesis by (simp add: process_of_view)
    next
      case False
      then show ?thesis using v [of ?b j] j a(5) by (simp add: process_of_view)
    qed
  qed
  then have "acyclic (waits_for st')" using k(5) acyclic_subset by blast
  moreover have "NULL \<notin> set (blocked_list st')" using k(2) w(2) by (auto simp: fewer_wait_def)
  ultimately show ?thesis using w(1) unfolding locks_ok_def st'_def by blast
qed
lemma insert_block_fields:
  assumes "c \<notin> set (blocked_list st)"
  shows "fl_block (fls (locks_insert_block b c st) a) = (if a = b then fl_block (fls st a) @ [c] else fl_block (fls st a))"
    "fl_next (fls (locks_insert_block b c st) a) = (if a = c then b else fl_next (fls st a))"
    "blocked_list (locks_insert_block b c st) = c # blocked_list st" "i_flock (locks_insert_block b c st) = i_flock st"
    "file_lock_list (locks_insert_block b c st) = file_lock_list st" "panicked (locks_insert_block b c st) = panicked st"
  using assms by (simp_all add: locks_insert_block_def Let_def)

lemma sleep_waits_for:
  assumes "c \<notin> set (blocked_list st)"
  shows "waits_for (locks_insert_block b c st) = insert (process_of st c, process_of st b) (waits_for st)"
proof -
  have p: "process_of (locks_insert_block b c st) a = process_of st a" for a by (simp add: process_of_view)
  have "(\<lambda>w. (process_of st w, process_of st (if w = c then b else fl_next (fls st w)))) ` set (blocked_list st) = waits_for st"
    unfolding waits_for_def using assms by (intro image_cong) auto
  then show ?thesis unfolding waits_for_def [of "locks_insert_block b c st"] p insert_block_fields [OF assms] by simp
qed

lemma sleep_locks_ok:
  assumes ok: "locks_ok st" and c: "c \<notin> set (blocked_list st)" "c \<notin> set (file_lock_list st)" "c \<noteq> NULL"
    and b: "b \<in> set (i_flock st inode)" "posix_locks_conflict (fls st c) (fls st b)" "(process_of st b, process_of st c) \<notin> (waits_for st)\<^sup>*"
  shows "locks_ok (locks_insert_block b c st)"
proof -
  define st' where "st' = locks_insert_block b c st"
  note k = locks_okD [OF ok]
  note f = insert_block_fields [OF c(1), of b, folded st'_def]
  have v: "lock_view st' a = lock_view st a" for a by (simp add: st'_def)
  have l: "links_ok st'" "\<not> panicked st'" using k(1) by (simp_all add: waiting_except_def links_ok_def f)
  have bl: "distinct (blocked_list st)" "\<And>a. distinct (fl_block (fls st a))"
      "\<And>a. set (fl_block (fls st a)) = {w. w \<in> set (blocked_list st) \<and> fl_next (fls st w) = a}"
    using k(1) by (auto simp: waiting_except_def blocks_ok_def)
  have "distinct (fl_block (fls st' a)) \<and> set (fl_block (fls st' a)) = {w. w \<in> set (blocked_list st') \<and> fl_next (fls st' w) = a}" for a
  proof -
    have "c \<notin> set (fl_block (fls st a))" using bl(3) c(1) by auto
    then show ?thesis using bl(2,3) [of a] c(1) unfolding f by auto
  qed
  then have "blocks_ok st'"
    using k(1) c bl(1) unfolding blocks_ok_def waiting_except_def f(3,5) by auto
  moreover have "fl_next (fls st' w) \<in> set (file_lock_list st') \<and> posix_locks_conflict (fls st' w) (fls st' (fl_next (fls st' w)))"
    if w: "w \<in> set (blocked_list st')" for w
  proof (cases "w = c")
    case True
    have "posix_locks_conflict (fls st' c) (fls st' b)" using b(2) conflict_view [OF v v] by blast
    then show ?thesis using b(1) in_inode_on_list [OF k(1)] True by (simp add: f)
  next
    case False
    then have "fl_next (fls st w) \<in> set (file_lock_list st)" "posix_locks_conflict (fls st w) (fls st (fl_next (fls st w)))"
      using k(1) w f(3) by (auto simp: waiting_except_def)
    then show ?thesis using False conflict_view [OF v v] by (simp add: f)
  qed
  ultimately have "waiting_ok st'" using l by (simp add: waiting_except_def)
  moreover have "inode_ok st' i" for i by (rule inode_ok_cong [OF k(3)]) (simp_all add: f v)
  moreover have "exclusive st'"
  proof -
    have h: "held_at st' j p x = held_at st j p x" for j p x by (rule held_cong) (simp_all add: f v)
    show ?thesis using k(4) unfolding exclusive_def h .
  qed
  moreover have "acyclic (waits_for st')" unfolding st'_def sleep_waits_for [OF c(1)] acyclic_insert using b(3) k(5) by blast
  moreover have "NULL \<notin> set (blocked_list st')" using k(2) c(3) by (simp add: f)
  ultimately show ?thesis unfolding locks_ok_def st'_def by blast
qed

lemma remove_locks_ok:
  assumes ok: "locks_ok st"
  shows "locks_ok (locks_remove_posix inode owner st)"
proof -
  define st' where "st' = locks_remove_posix inode owner st"
  note k = locks_okD [OF ok]
  note m = remove_posix_ok [OF k(3), where inode = inode and owner = owner, folded st'_def]
  have w: "waiting_ok st'" "fewer_wait st st'" unfolding st'_def using remove_posix_effect(3) [OF k(1)] by blast+
  have "inode_ok st' i" for i
  proof (cases "i = inode")
    case False
    show ?thesis by (rule inode_ok_cong [OF k(3)]) (simp_all add: m(3) [OF False] m(5))
  qed (simp add: m(1))
  moreover have "exclusive st'"
    unfolding exclusive_def
  proof (intro allI impI)
    fix i p q x
    assume a: "p \<noteq> q" "held_at st' i p x = Some F_WRLCK"
    have h: "held_at st' i q x = (if i = inode \<and> fst q = owner then None else held_at st i q x)" for q
    proof (cases "i = inode")
      case False
      then show ?thesis using held_cong [of st' i st q x] m(3) [OF False] m(5) by auto
    next
      case True
      then show ?thesis using m(2) [of q] m(5) by (simp add: held_ranges)
    qed
    have "held_at st i p x = Some F_WRLCK \<Longrightarrow> held_at st i q x = None" using a(1) k(4) unfolding exclusive_def by blast
    then show "held_at st' i q x = None" using a(2) h [of p] h [of q] by (auto split: if_splits)
  qed
  moreover have "waits_for st' \<subseteq> waits_for st" by (rule waits_for_shrink [OF w(2)]) (simp_all add: process_of_view m(5))
  then have "acyclic (waits_for st')" using k(5) acyclic_subset by blast
  moreover have "NULL \<notin> set (blocked_list st')" using k(2) w(2) by (auto simp: fewer_wait_def)
  ultimately show ?thesis using w(1) unfolding locks_ok_def st'_def by blast
qed

text \<open>The three outcomes of a call.\<close>

lemma attempt_cases:
  assumes ok: "locks_ok st" and c: "c \<notin> set (blocked_list st)" "c \<notin> set (file_lock_list st)"
    and n: "{n1, n2} \<inter> set (file_lock_list st) = {}" "{n1, n2} \<inter> set (blocked_list st) = {}"
    and w: "wait \<longrightarrow> waits_once st"
  obtains e where "posix_lock_attempt inode c wait n1 n2 st = Some (Returned e st)" "e \<noteq> 0" "fl_type (fls st c) \<noteq> F_UNLCK"
  | "posix_lock_attempt inode c wait n1 n2 st = Some (Returned 0 (posix_apply inode c n1 n2 st))"
    "fl_type (fls st c) = F_UNLCK \<or> find (\<lambda>fl. is_posix (fls st fl) \<and> posix_locks_conflict (fls st c) (fls st fl)) (i_flock st inode) = None"
  | b where "posix_lock_attempt inode c wait n1 n2 st = Some (Sleeping (locks_insert_block b c st))" "wait"
    "b \<in> set (i_flock st inode)" "posix_locks_conflict (fls st c) (fls st b)" "(process_of st b, process_of st c) \<notin> (waits_for st)\<^sup>*"
proof (cases "if fl_type (fls st c) \<noteq> F_UNLCK
    then find (\<lambda>fl. is_posix (fls st fl) \<and> posix_locks_conflict (fls st c) (fls st fl)) (i_flock st inode) else None")
  case None
  then show ?thesis by (intro that(2)) (auto simp: posix_lock_attempt_def split: if_splits)
next
  case (Some b)
  have free: "fold locks_free_lock [n1, n2] st = st"
    using free_all_waiting [OF locks_okD(1) [OF ok], of "[n1, n2]"] n by auto
  have b: "b \<in> set (i_flock st inode)" "posix_locks_conflict (fls st c) (fls st b)" and u: "fl_type (fls st c) \<noteq> F_UNLCK"
    using Some by (auto simp: find_Some_iff split: if_splits)
  show ?thesis
  proof (cases wait)
    case False
    then show ?thesis using Some free u by (intro that(1) [of "- EAGAIN"]) (simp_all add: posix_lock_attempt_def kdefs)
  next
    case True
    obtain d where d: "deadlock_from st (process_of st c) (process_of st b) = Some d"
        "(process_of st b, process_of st c) \<in> (waits_for st)\<^sup>* \<longrightarrow> d"
      using deadlock_search [OF locks_okD(5) [OF ok], of "process_of st c" "process_of st b"] w True by auto
    then have "posix_locks_deadlock st (fls st c) (fls st b) = Some d" by (simp add: posix_locks_deadlock_def process_of_def)
    then show ?thesis using Some free u True d(2) b
      by (cases d; intro that(1) [of "- EDEADLK"] that(3) [of b]) (simp_all add: posix_lock_attempt_def kdefs)
  qed
qed
subsection \<open>The requests that sleep\<close>

lemma lock_invD:
  assumes "lock_inv s"
  shows "locks_ok (lk s)" "requests_ok s" "waiting_ok (lk s)"
  using assms locks_okD by (auto simp: lock_inv_def)

lemma pending_waits_once:
  assumes "lock_inv s"
  shows "waits_once (lk s)"
proof -
  have "distinct (blocked_list (lk s))" using lock_invD(3) [OF assms] by (simp add: waiting_except_def blocks_ok_def)
  moreover have "inj_on (process_of (lk s)) (set (blocked_list (lk s)))"
    using lock_invD(2) [OF assms] unfolding requests_ok_def by (meson inj_on_subset)
  ultimately show ?thesis by (simp add: waits_once_def distinct_map)
qed

lemma pending_okI:
  assumes "lk s = st" "pend s = P" "set (blocked_list st) \<subseteq> dom P" "inj_on (process_of st) (dom P)"
    "\<And>c x. P c = Some x \<Longrightarrow> request_pending st c x" "cells_apart P"
  shows "requests_ok s"
  using assms by (simp add: requests_ok_def)

lemma pending_change:
  assumes p: "requests_ok s" and w: "waiting_ok (lk s)" "waiting_ok st'" "fewer_wait (lk s) st'"
    and N: "\<And>c i n1 n2. pend s c = Some (i, n1, n2) \<Longrightarrow> N \<inter> {c, n1, n2} = {}" "N \<inter> set (file_lock_list (lk s)) = {}"
    and l: "set (file_lock_list st') \<subseteq> set (file_lock_list (lk s)) \<union> N" "\<And>i. set (i_flock st' i) \<subseteq> set (i_flock (lk s) i) \<union> N"
    and v: "\<And>c. c \<in> dom (pend s) \<Longrightarrow> lock_view st' c = lock_view (lk s) c"
  shows "requests_ok (s\<lparr>lk := st'\<rparr>)"
proof -
  have o: "process_of st' c = process_of (lk s) c" if "c \<in> dom (pend s)" for c using v [OF that] by (simp add: process_of_view)
  have "request_pending st' c x" if x: "pend s c = Some x" for c x
  proof -
    obtain i n1 n2 where xx: "x = (i, n1, n2)" by (cases x)
    have r: "request_pending (lk s) c (i, n1, n2)" using p x xx unfolding requests_ok_def by blast
    have "fl_flags (fls st' c) = fl_flags (fls (lk s) c)" "range_of (fls st' c) = range_of (fls (lk s) c)"
      using v [of c] x by (auto simp: lock_view_def owner_of_def)
    moreover have "fl_next (fls st' c) \<in> set (i_flock st' i)" if c: "c \<in> set (blocked_list st')"
    proof -
      let ?b = "fl_next (fls st' c)"
      have b: "?b \<in> set (i_flock (lk s) i)" using r c w(3) by (auto simp: request_pending_def fewer_wait_def)
      have "?b \<in> set (file_lock_list st')" using w(2) c by (auto simp: waiting_except_def)
      then obtain j where j: "?b \<in> set (i_flock st' j)" using w(2) by (auto simp: waiting_except_def links_ok_def)
      have "?b \<in> set (i_flock (lk s) j)" using j l(2) [of j] N(2) b in_inode_on_list [OF w(1)] by blast
      then have "i = j" using b w(1) unfolding waiting_except_def links_ok_def by blast
      then show ?thesis using j by simp
    qed
    ultimately show ?thesis
      using r w(3) l(1) N(1) [of c i n1 n2] x unfolding xx request_pending_def fewer_wait_def prod.case by auto
  qed
  moreover have "inj_on (process_of st') (dom (pend s))" using p o unfolding requests_ok_def by (metis inj_on_cong)
  moreover have "set (blocked_list st') \<subseteq> dom (pend s)" using p w(3) unfolding requests_ok_def fewer_wait_def by blast
  moreover have "cells_apart (pend s)" using p unfolding requests_ok_def by blast
  ultimately show ?thesis by (intro pending_okI) simp_all
qed

lemma pending_drop:
  assumes p: "requests_ok s" and c: "c \<notin> set (blocked_list (lk s))"
  shows "requests_ok (s\<lparr>pend := (pend s)(c := None)\<rparr>)"
proof (rule pending_okI)
  show "set (blocked_list (lk s)) \<subseteq> dom ((pend s)(c := None))" using p c unfolding requests_ok_def by auto
  show "inj_on (process_of (lk s)) (dom ((pend s)(c := None)))" using p unfolding requests_ok_def by (auto intro: inj_on_subset)
  show "request_pending (lk s) c' x" if "((pend s)(c := None)) c' = Some x" for c' x
    using p that unfolding requests_ok_def fun_upd_apply by (metis option.distinct(1))
  show "cells_apart ((pend s)(c := None))" using p unfolding requests_ok_def cells_apart_def fun_upd_apply by (metis option.distinct(1))
qed simp_all

lemma in_use_pend: "pend s c = Some (i, n1, n2) \<Longrightarrow> {c, n1, n2} \<subseteq> used_cells s"
  unfolding used_cells_def cells_def by force

lemma pending_sleep:
  assumes p: "requests_ok s" and c: "distinct [NULL, c, n1, n2]" "{c, n1, n2} \<inter> used_cells s = {}"
    and f: "fl_flags (fls (lk s) c) = FL_POSIX" "request_ok (range_of (fls (lk s) c))" "b \<in> set (i_flock (lk s) i)"
    and o: "\<forall>c'\<in>dom (pend s). process_of (lk s) c' \<noteq> process_of (lk s) c"
  shows "requests_ok (s\<lparr>lk := locks_insert_block b c (lk s), pend := (pend s)(c \<mapsto> (i, n1, n2))\<rparr>)"
proof -
  define st' where "st' = locks_insert_block b c (lk s)"
  have cb: "c \<notin> set (blocked_list (lk s))" using c(2) by (auto simp: used_cells_def)
  note g = insert_block_fields [OF cb, of b, folded st'_def]
  have v: "fl_flags (fls st' a) = fl_flags (fls (lk s) a)" "range_of (fls st' a) = range_of (fls (lk s) a)" for a
    using insert_block_view [of b c "lk s" a] by (auto simp: lock_view_def owner_of_def st'_def)
  have "process_of st' = process_of (lk s)" by (simp add: fun_eq_iff process_of_view st'_def)
  then have "inj_on (process_of st') (insert c (dom (pend s)))" using p o unfolding requests_ok_def by (auto simp: inj_on_def)
  moreover have new: "request_pending st' c (i, n1, n2)"
    using c f by (auto simp: request_pending_def g v used_cells_def)
  moreover have "request_pending st' c' x" if x: "pend s c' = Some x" for c' x
  proof -
    obtain j m1 m2 where xx: "x = (j, m1, m2)" by (cases x)
    have "request_pending (lk s) c' x" using p x unfolding requests_ok_def by blast
    moreover have "{c', m1, m2} \<subseteq> used_cells s" using in_use_pend x xx by blast
    ultimately show ?thesis using c(2) unfolding xx by (auto simp: request_pending_def g v)
  qed
  moreover have "cells c (i, n1, n2) \<inter> cells c' x = {}" if "pend s c' = Some x" for c' x
    using c(2) that unfolding used_cells_def cells_def by blast
  then have "cells_apart ((pend s)(c \<mapsto> (i, n1, n2)))"
    using p unfolding requests_ok_def cells_apart_def fun_upd_apply by (metis inf_commute option.inject)
  moreover have "set (blocked_list st') \<subseteq> insert c (dom (pend s))" using p unfolding requests_ok_def g by auto
  ultimately show ?thesis by (intro pending_okI [of _ st' "(pend s)(c \<mapsto> (i, n1, n2))"]) (auto simp: st'_def split: if_splits)
qed
lemma in_useD:
  assumes "A \<inter> used_cells s = {}"
  shows "A \<inter> set (file_lock_list (lk s)) = {}" "A \<inter> set (blocked_list (lk s)) = {}" "A \<inter> dom (pend s) = {}"
    "pend s c = Some (i, n1, n2) \<Longrightarrow> A \<inter> {c, n1, n2} = {}"
  using assms in_use_pend [of s] unfolding used_cells_def by fastforce+

text \<open>One run of the code of \<open>posix_lock_file\<close> under the kernel lock.\<close>

lemma attempt_inv:
  assumes inv: "lock_inv s" and c: "distinct [NULL, c, n1, n2]" "{c, n1, n2} \<inter> used_cells s = {}"
    and v: "lock_view (lk s) c = (process (fst p) (snd p), r)" "request_ok r" "no_wrap (ranges (lk s) (locks_of (lk s) inode p)) r"
    and w: "wait \<Longrightarrow> \<forall>c\<in>dom (pend s). process_of (lk s) c \<noteq> p"
  shows "\<exists>res. posix_lock_attempt inode c wait n1 n2 (lk s) = Some res \<and> lock_inv (complete c (inode, n1, n2) s res)"
proof -
  note k = lock_invD [OF inv] and u = in_useD [OF c(2)]
  have pc: "(pend s)(c := None) = pend s" using u(3) by (auto simp: fun_upd_idem)
  have pr: "process_of (lk s) c = p" using v(1) by (simp add: process_of_view)
  have rq: "request_at (lk s) inode p r c n1 n2"
    using v c(1) u(1) in_inode_on_list [OF k(3)] unfolding request_at_def by blast
  have ret: "lock_inv (complete c (inode, n1, n2) s (Returned e st'))"
    if "locks_ok st'" "requests_ok (s\<lparr>lk := st'\<rparr>)" "c \<notin> set (file_lock_list st')" "c \<notin> set (blocked_list st')" for e st'
    using that free_waiting [OF locks_okD(1) [OF that(1)]] pc by (simp add: complete_def lock_inv_def)
  have cn: "c \<notin> set (blocked_list (lk s))" "c \<notin> set (file_lock_list (lk s))"
      "{n1, n2} \<inter> set (file_lock_list (lk s)) = {}" "{n1, n2} \<inter> set (blocked_list (lk s)) = {}" using u by auto
  show ?thesis
  proof (cases rule: attempt_cases [OF k(1) cn, of wait inode, case_names once err ok sleep])
    case once
    then show ?case using pending_waits_once [OF inv] by simp
  next
    case (err e)
    have "lock_inv (complete c (inode, n1, n2) s (Returned e (lk s)))" by (rule ret) (use k cn in auto)
    then show ?thesis using err by blast
  next
    case ok
    define st' where "st' = posix_apply inode c n1 n2 (lk s)"
    obtain a b t where r: "r = (a, b, t)" by (cases r)
    have t: "fl_type (fls (lk s) c) = t" using v(1) r by (simp add: lock_view_def range_of_def)
    have l: "locks_ok st'" unfolding st'_def
      by (rule apply_locks_ok [OF k(1) rq [unfolded r] u(1,2)]) (use ok(2) in \<open>simp add: t\<close>)
    note a = posix_apply_ok [OF locks_okD(3) [OF k(1)] rq, folded st'_def]
    have wt: "fewer_wait (lk s) st'" "set (file_lock_list st') \<subseteq> set (file_lock_list (lk s)) \<union> {n1, n2}" unfolding st'_def
      by (rule apply_waiting [OF k(3) cn(1) locks_okD(2) [OF k(1)] cn(3,4)]; use c(1) in simp)+
    have "requests_ok (s\<lparr>lk := st'\<rparr>)"
    proof (rule pending_change [OF k(2,3) locks_okD(1) [OF l] wt(1) _ cn(3) wt(2)])
      show "{n1, n2} \<inter> {c', m1, m2} = {}" if "pend s c' = Some (i, m1, m2)" for c' i m1 m2 using u(4) [OF that] by blast
      show "set (i_flock st' i) \<subseteq> set (i_flock (lk s) i) \<union> {n1, n2}" for i using a(5,7) by (cases "i = inode") auto
      fix c'
      assume c': "c' \<in> dom (pend s)"
      then have "c' \<notin> set (file_lock_list (lk s))" using k(2) unfolding requests_ok_def request_pending_def by fastforce
      then show "lock_view st' c' = lock_view (lk s) c'" using a(6) u(3) c' in_inode_on_list [OF k(3)] by blast
    qed
    then have "lock_inv (complete c (inode, n1, n2) s (Returned 0 st'))"
      by (rule ret [OF l]) (use wt cn c(1) in \<open>auto simp: fewer_wait_def\<close>)
    then show ?thesis using ok(1) unfolding st'_def by blast
  next
    case (sleep b)
    have "locks_ok (locks_insert_block b c (lk s))" by (rule sleep_locks_ok [OF k(1) cn(1,2) _ sleep(3,4,5)]) (use c(1) in simp)
    moreover have "requests_ok (s\<lparr>lk := locks_insert_block b c (lk s), pend := (pend s)(c \<mapsto> (inode, n1, n2))\<rparr>)"
      by (rule pending_sleep [OF k(2) c _ _ sleep(3)]) (use v w sleep(2) pr in \<open>auto simp: lock_view_def owner_of_def\<close>)
    ultimately have "lock_inv (complete c (inode, n1, n2) s (Sleeping (locks_insert_block b c (lk s))))"
      by (simp add: complete_def lock_inv_def)
    then show ?thesis using sleep(1) by blast
  qed
qed
lemma set_request_fields [simp]:
  "i_flock (set_request c p r st) = i_flock st" "file_lock_list (set_request c p r st) = file_lock_list st"
  "blocked_list (set_request c p r st) = blocked_list st" "panicked (set_request c p r st) = panicked st"
  "fl_block (fls (set_request c p r st) a) = fl_block (fls st a)" "fl_next (fls (set_request c p r st) a) = fl_next (fls st a)"
  by (cases r; simp add: set_request_def request_lock_def)+

lemma set_request_view: "lock_view (set_request c p r st) a = (if a = c then (process (fst p) (snd p), r) else lock_view st a)"
  by (cases r) (simp add: set_request_def request_lock_def lock_view_def owner_of_def range_of_def)

lemma set_request_inv:
  assumes inv: "lock_inv s" and c: "c \<notin> used_cells s"
  shows "lock_inv (s\<lparr>lk := set_request c p r (lk s)\<rparr>)"
proof -
  define st' where "st' = set_request c p r (lk s)"
  note k = lock_invD [OF inv]
  have c': "c \<notin> set (file_lock_list (lk s))" "c \<notin> set (blocked_list (lk s))" "c \<notin> dom (pend s)"
    using in_useD [of "{c}" s] c by auto
  have w: "waiting_ok st'" "fewer_wait (lk s) st'"
    by (rule upd_waiting [OF k(3), where S = "{c}"]; use c' in \<open>simp add: st'_def set_request_view\<close>)+
  have "locks_ok st'" by (rule locks_ok_same [OF k(1) w]) (use c' in \<open>auto simp: st'_def set_request_view\<close>)
  moreover have "requests_ok (s\<lparr>lk := st'\<rparr>)"
    by (rule pending_change [OF k(2,3) w, of "{}"]) (use c' in \<open>auto simp: st'_def set_request_view\<close>)
  ultimately show ?thesis by (simp add: lock_inv_def st'_def)
qed

lemma complete_lk: "complete c x (s\<lparr>lk := st\<rparr>) res = complete c x s res"
  by (cases res) (simp_all add: complete_def)

lemma request_inv:
  assumes inv: "lock_inv s" and d: "distinct (c # filter (\<lambda>a. a \<noteq> NULL) [n1, n2])" "c \<noteq> NULL" "{c, n1, n2} \<inter> used_cells s \<subseteq> {NULL}"
    and r: "request_ok r" "no_wrap (ranges (lk s) (locks_of (lk s) inode p)) r"
    and w: "wait \<Longrightarrow> \<forall>c\<in>dom (pend s). process_of (lk s) c \<noteq> p"
  shows "\<exists>res. posix_lock_file inode c wait n1 n2 (set_request c p r (lk s)) = Some res \<and> lock_inv (complete c (inode, n1, n2) s res)"
proof -
  define st' where "st' = set_request c p r (lk s)"
  define s' where "s' = s\<lparr>lk := st'\<rparr>"
  have c: "c \<notin> used_cells s" using d by auto
  have inv': "lock_inv s'" unfolding s'_def st'_def by (rule set_request_inv [OF inv c])
  have u: "used_cells s' = used_cells s" by (simp add: used_cells_def s'_def st'_def)
  have lk': "lk s' = st'" "pend s' = pend s" by (simp_all add: s'_def)
  show ?thesis
  proof (cases "n1 = NULL \<or> n2 = NULL")
    case True
    let ?un = "filter (\<lambda>a. a \<noteq> NULL) [n1, n2]"
    have w': "waiting_ok st'" using lock_invD(3) [OF inv'] lk' by simp
    have n: "a \<notin> set (file_lock_list st') \<and> a \<notin> set (blocked_list st')" if "a \<in> {c, n1, n2}" "a \<noteq> NULL" for a
      using that d(3) unfolding used_cells_def st'_def by auto
    have "fold locks_free_lock ?un st' = st'" by (rule free_all_waiting [OF w']) (use n in auto)
    then have f: "posix_lock_file inode c wait n1 n2 st' = Some (Returned (- ENOLCK) st')" using True by (simp add: posix_lock_file_def)
    have "c \<notin> dom (pend s)" using in_useD(3) [of "{c}" s] c by simp
    then have "(pend s)(c := None) = pend s" by (auto simp: fun_upd_idem)
    then have "complete c (inode, n1, n2) s (Returned (- ENOLCK) st') = s'"
      using n [of c] d(2) free_waiting [OF w', of c] by (simp add: complete_def s'_def)
    then show ?thesis using f inv' unfolding st'_def by auto
  next
    case False
    have v: "locks_of st' inode p = locks_of (lk s) inode p" "ranges st' (locks_of (lk s) inode p) = ranges (lk s) (locks_of (lk s) inode p)"
    proof -
      have e: "lock_view st' a = lock_view (lk s) a" if "a \<in> set (i_flock (lk s) inode)" for a
        using that c in_inode_on_list [OF lock_invD(3) [OF inv] that] by (auto simp: st'_def set_request_view used_cells_def)
      then show "ranges st' (locks_of (lk s) inode p) = ranges (lk s) (locks_of (lk s) inode p)" by (simp add: locks_of_mem)
      show "locks_of st' inode p = locks_of (lk s) inode p" by (rule locks_of_cong) (simp_all add: st'_def e [unfolded st'_def])
    qed
    have "\<exists>res. posix_lock_attempt inode c wait n1 n2 (lk s') = Some res \<and> lock_inv (complete c (inode, n1, n2) s' res)"
    proof (rule attempt_inv [OF inv'])
      show "distinct [NULL, c, n1, n2]" "{c, n1, n2} \<inter> used_cells s' = {}" using d False unfolding u by auto
      show "lock_view (lk s') c = (process (fst p) (snd p), r)" by (simp add: lk' st'_def set_request_view)
      show "no_wrap (ranges (lk s') (locks_of (lk s') inode p)) r" using r(2) unfolding lk' v .
      show "\<forall>c\<in>dom (pend s'). process_of (lk s') c \<noteq> p" if "wait"
        using w [OF that] in_useD(3) [of "{c}" s] c by (auto simp: lk' st'_def process_of_view set_request_view)
    qed (rule r(1))
    then show ?thesis using False by (simp add: posix_lock_file_def lk' complete_lk s'_def st'_def)
  qed
qed

lemma woken_inv:
  assumes inv: "lock_inv s" and c: "pend s c = Some (inode, n1, n2)"
    and r: "\<not> signal \<Longrightarrow> no_wrap (ranges (lk s) (locks_of (lk s) inode (process_of (lk s) c))) (range_of (fls (lk s) c))"
  shows "\<exists>res. posix_lock_woken inode c signal n1 n2 (lk s) = Some res \<and> lock_inv (complete c (inode, n1, n2) s res)"
proof -
  define st' where "st' = locks_delete_block c (lk s)"
  define s1 where "s1 = s\<lparr>lk := st'\<rparr>"
  define s' where "s' = s1\<lparr>pend := (pend s)(c := None)\<rparr>"
  note k = lock_invD [OF inv]
  have w: "waiting_ok st'" "fewer_wait (lk s) st'" "c \<notin> set (blocked_list st')"
    unfolding st'_def by (rule delete_block_waiting [OF k(3)]; simp add: delete_block_fields)+
  have vw: "lock_view st' a = lock_view (lk s) a" for a by (simp add: st'_def)
  have fl: "i_flock st' = i_flock (lk s)" "file_lock_list st' = file_lock_list (lk s)" by (simp_all add: st'_def delete_block_fields)
  have l: "locks_ok st'" by (rule locks_ok_same [OF k(1) w(1,2)]) (simp_all add: fl vw)
  have "requests_ok s1" unfolding s1_def by (rule pending_change [OF k(2,3) w(1,2), of "{}"]) (simp_all add: fl vw)
  then have "requests_ok s'" unfolding s'_def using pending_drop [of s1 c] w(3) by (simp add: s1_def)
  then have inv': "lock_inv s'" using l by (simp add: lock_inv_def s'_def s1_def)
  have lk': "lk s' = st'" "pend s' = (pend s)(c := None)" by (simp_all add: s'_def s1_def)
  have cp: "complete c x s' res = complete c x s res" for x res by (cases res) (simp_all add: complete_def s'_def s1_def)
  have rp: "request_pending (lk s) c (inode, n1, n2)" using k(2) c unfolding requests_ok_def by blast
  have d: "distinct [NULL, c, n1, n2]" using rp by (simp add: request_pending_def)
  have b: "set (blocked_list st') \<subseteq> set (blocked_list (lk s))" using w(2) by (simp add: fewer_wait_def)
  have ap: "{c, n1, n2} \<inter> cells c' x = {}" if "pend s c' = Some x" "c' \<noteq> c" for c' x
    using k(2) c that unfolding requests_ok_def cells_apart_def by (metis (no_types, lifting) cells_def case_prod_conv)
  have n: "{c, n1, n2} \<inter> set (file_lock_list st') = {}" "{c, n1, n2} \<inter> set (blocked_list st') = {}"
    using rp w(3) b by (auto simp: request_pending_def fl)
  have u: "{c, n1, n2} \<inter> used_cells s' = {}"
  proof -
    have "{c, n1, n2} \<inter> {a. \<exists>c' x. pend s' c' = Some x \<and> a \<in> cells c' x} = {}" using ap unfolding lk' by (auto split: if_splits)
    then show ?thesis using n unfolding used_cells_def lk' by blast
  qed
  show ?thesis
  proof (cases signal)
    case True
    have f: "fold locks_free_lock [n1, n2] st' = st'" by (rule free_all_waiting [OF w(1)]) (use n in auto)
    have "complete c (inode, n1, n2) s' (Returned (- ERESTARTSYS) st') = s'"
      using free_waiting [OF w(1), of c] n w(3) by (simp add: complete_def s'_def s1_def)
    then show ?thesis using True f inv' cp by (auto simp: posix_lock_woken_def Let_def st'_def)
  next
    case False
    have ne: "\<forall>c'\<in>dom (pend s'). process_of (lk s') c' \<noteq> process_of (lk s) c"
      using k(2) c unfolding requests_ok_def lk' by (auto simp: inj_on_def process_of_view vw dest: domI)
    have v: "lock_view (lk s') c = (process (fst (process_of (lk s) c)) (snd (process_of (lk s) c)), range_of (fls (lk s) c))"
      unfolding lk' vw using rp by (simp add: lock_view_def owner_of_def process_of_def request_pending_def)
    have lo: "locks_of st' inode p = locks_of (lk s) inode p" for p by (rule locks_of_cong) (simp_all add: fl vw)
    have "\<exists>res. posix_lock_attempt inode c True n1 n2 (lk s') = Some res \<and> lock_inv (complete c (inode, n1, n2) s' res)"
      by (rule attempt_inv [OF inv' d u v]) (use r [OF False] rp ne in \<open>auto simp: request_pending_def lk' vw lo\<close>)
    then show ?thesis using False by (simp add: posix_lock_woken_def Let_def lk' cp st'_def)
  qed
qed

lemma close_inv:
  assumes inv: "lock_inv s"
  shows "lock_inv (s\<lparr>lk := locks_remove_posix inode owner (lk s)\<rparr>)"
proof -
  define st' where "st' = locks_remove_posix inode owner (lk s)"
  note k = lock_invD [OF inv]
  note m = remove_posix_ok [OF locks_okD(3) [OF k(1)], where inode = inode and owner = owner, folded st'_def]
  have l: "locks_ok st'" unfolding st'_def by (rule remove_locks_ok [OF k(1)])
  have w: "fewer_wait (lk s) st'" "set (file_lock_list st') \<subseteq> set (file_lock_list (lk s))"
    unfolding st'_def using remove_posix_effect(3) [OF k(3)] by blast+
  have "set (i_flock st' i) \<subseteq> set (i_flock (lk s) i)" for i using m(3,4) by (cases "i = inode") auto
  then have "requests_ok (s\<lparr>lk := st'\<rparr>)"
    by (intro pending_change [OF k(2,3) locks_okD(1) [OF l] w(1), of "{}"]) (use w(2) in \<open>simp_all add: m(5)\<close>)
  then show ?thesis using l by (simp add: lock_inv_def st'_def)
qed

interpretation lkm: state_machine lock_start lock_step lock_inv
proof
  fix s s'
  show "lock_inv s" if "lock_start s"
  proof -
    have l: "locks_of (lk s) i p = []" for i p using that by (simp add: lock_start_def locks_of_def)
    have "waiting_ok (lk s)" using that by (simp add: lock_start_def waiting_except_def links_ok_def blocks_ok_def)
    moreover have "inode_ok (lk s) i" for i using that l unfolding inode_ok_def process_ok_def by (simp add: lock_start_def ranges_ok_def)
    moreover have "exclusive (lk s)" by (simp add: exclusive_def held_at_def l)
    moreover have "waits_for (lk s) = {}" using that by (simp add: waits_for_def lock_start_def)
    moreover have "requests_ok s" using that by (simp add: requests_ok_def lock_start_def cells_apart_def)
    ultimately show ?thesis using that by (simp add: lock_inv_def locks_ok_def lock_start_def wf_acyclic)
  qed
  assume inv: "lock_inv s"
  show "lock_inv s'" if "lock_step s s'"
    using that
  proof cases
    case (request c n1 n2 r inode p wait res)
    obtain res' where "posix_lock_file inode c wait n1 n2 (set_request c p r (lk s)) = Some res'"
        "lock_inv (complete c (inode, n1, n2) s res')"
      using request_inv [OF inv request(2-7)] by blast
    then show ?thesis using request(1,8) by simp
  next
    case (go_on c inode n1 n2 signal res)
    obtain res' where "posix_lock_woken inode c signal n1 n2 (lk s) = Some res'" "lock_inv (complete c (inode, n1, n2) s res')"
      using woken_inv [OF inv go_on(2,3)] by blast
    then show ?thesis using go_on(1,4) by simp
  next
    case (close inode owner)
    then show ?thesis using close_inv [OF inv] by simp
  qed
qed

end
