(* ===== verification/FLockProps.thy ===== *)
theory FLockProps
  imports FLockSys
begin

text \<open>
  What the record locks promise: the table of what each process holds at each byte, and that \<open>posix_lock_file\<close> and F_GETLK implement it; exclusion,
  the absence of deadlocks, and the search for deadlocks; and the requests with which the code goes wrong.
\<close>

subsection \<open>The specification\<close>

text \<open>What the processes hold at the bytes of the files; when a request conflicts with it, and what a request that succeeds makes of it.\<close>

type_synonym lock_table = "nat \<Rightarrow> nat \<times> nat \<Rightarrow> int \<Rightarrow> nat option"

definition table_conflict :: "lock_table \<Rightarrow> nat \<Rightarrow> nat \<times> nat \<Rightarrow> range \<Rightarrow> bool" where
  "table_conflict h inode p = (\<lambda>(a, b, t). t \<noteq> F_UNLCK \<and>
     (\<exists>q x u. q \<noteq> p \<and> a \<le> x \<and> x \<le> b \<and> h inode q x = Some u \<and> (t = F_WRLCK \<or> u = F_WRLCK)))"

definition table_lock :: "lock_table \<Rightarrow> nat \<Rightarrow> nat \<times> nat \<Rightarrow> range \<Rightarrow> lock_table" where
  "table_lock h inode p = (\<lambda>(a, b, t) i q x.
     if i = inode \<and> q = p \<and> a \<le> x \<and> x \<le> b then if t = F_UNLCK then None else Some t else h i q x)"

text \<open>A call with structures that are not in use, of which only one at a time sleeps for each process.\<close>

definition call_ok :: "lock_sys \<Rightarrow> nat \<Rightarrow> addr \<Rightarrow> nat \<times> nat \<Rightarrow> range \<Rightarrow> bool \<Rightarrow> addr \<Rightarrow> addr \<Rightarrow> bool" where
  "call_ok s inode c p r wait n1 n2 \<longleftrightarrow> distinct [NULL, c, n1, n2] \<and> {c, n1, n2} \<inter> used_cells s = {} \<and>
     request_ok r \<and> no_wrap (ranges (lk s) (locks_of (lk s) inode p)) r \<and> (wait \<longrightarrow> (\<forall>c\<in>dom (pend s). process_of (lk s) c \<noteq> p))"

lemma locked_at_mem:
  assumes "ranges_ok xs" "(a, b, u) \<in> set xs" "a \<le> x" "x \<le> b"
  shows "locked_at xs x = Some u"
  using assms
proof (induction xs)
  case (Cons y xs)
  obtain a' b' u' where y: "y = (a', b', u')" by (cases y)
  have "b' < a" if "(a, b, u) \<in> set xs" using Cons.prems(1) that by (auto simp: y ranges_ok_Cons apart_def)
  then show ?case using Cons by (auto simp: y ranges_ok_Cons)
qed simp

lemma conflict_table:
  assumes ok: "inode_ok st inode" and c: "lock_view st c = (process (fst p) (snd p), r)" "request_ok r"
  shows "table_conflict (held_at st) inode p r \<longleftrightarrow>
    fl_type (fls st c) \<noteq> F_UNLCK \<and> find (\<lambda>fl. is_posix (fls st fl) \<and> posix_locks_conflict (fls st c) (fls st fl)) (i_flock st inode) \<noteq> None"
    (is "_ \<longleftrightarrow> _ \<and> ?f \<noteq> None")
proof -
  obtain a b t where r: "r = (a, b, t)" by (cases r)
  note c' = c(1) [unfolded r]
  have t: "fl_type (fls st c) = t" "fl_start (fls st c) = a" "fl_end (fls st c) = b" and tt: "t \<in> {F_RDLCK, F_WRLCK, F_UNLCK}" "a \<le> b"
    using c unfolding r by (auto simp: view_fields request_ok_def)
  show ?thesis
  proof
    assume l: "table_conflict (held_at st) inode p r"
    then obtain q x u where q: "t \<noteq> F_UNLCK" "q \<noteq> p" "a \<le> x" "x \<le> b" "held_at st inode q x = Some u" "t = F_WRLCK \<or> u = F_WRLCK"
      by (auto simp: table_conflict_def r)
    have "?f \<noteq> None"
    proof
      assume f: "?f = None"
      show False using no_conflict_held [OF c' q(3,4,2,5) f] q(1,6) tt(1) by auto
    qed
    then show "fl_type (fls st c) \<noteq> F_UNLCK \<and> ?f \<noteq> None" using q(1) t by simp
  next
    assume k: "fl_type (fls st c) \<noteq> F_UNLCK \<and> ?f \<noteq> None"
    then obtain b' where b: "b' \<in> set (i_flock st inode)" "is_posix (fls st b')" "posix_locks_conflict (fls st c) (fls st b')"
      by (auto simp: find_None_iff)
    let ?q = "process_of st b'" and ?u = "fl_type (fls st b')" and ?x = "max a (fl_start (fls st b'))"
    have m: "b' \<in> set (locks_of st inode ?q)" using b by (simp add: locks_of_mem process_of_def)
    have q: "?q \<noteq> p" "locks_overlap (fls st c) (fls st b')" "locks_conflict (fls st c) (fls st b')"
      using b(3) c' by (cases p; auto simp: posix_locks_conflict_def locks_same_owner_def process_of_def view_fields split: if_splits)+
    have ro: "ranges_ok (ranges st (locks_of st inode ?q))" using inode_ok_process [OF ok] by (simp add: process_ok_def)
    have mr: "(fl_start (fls st b'), fl_end (fls st b'), ?u) \<in> set (ranges st (locks_of st inode ?q))"
      using m by (force simp: lock_view_def range_of_def)
    have "range_ok (fl_start (fls st b'), fl_end (fls st b'), ?u)" using ro mr unfolding ranges_ok_def by blast
    then have x: "a \<le> ?x" "?x \<le> b" "fl_start (fls st b') \<le> ?x" "?x \<le> fl_end (fls st b')"
      using q(2) tt(2) by (auto simp: locks_overlap_def t range_ok_def)
    have "held_at st inode ?q ?x = Some ?u" unfolding held_ranges by (rule locked_at_mem [OF ro mr x(3,4)])
    moreover have "t = F_WRLCK \<or> ?u = F_WRLCK" using q(3) t by (auto simp: locks_conflict_def split: if_splits)
    moreover have "t \<noteq> F_UNLCK" using k t by simp
    ultimately show "table_conflict (held_at st) inode p r" using q(1) x(1,2) unfolding table_conflict_def r prod.case by blast
  qed
qed

lemma set_request_held:
  assumes "waiting_ok st" "c \<notin> set (file_lock_list st)"
  shows "held_at (set_request c p r st) = held_at st"
proof (intro ext)
  fix i q x
  show "held_at (set_request c p r st) i q x = held_at st i q x"
    by (rule held_cong) (use assms in_inode_on_list [OF assms(1)] in \<open>auto simp: set_request_view\<close>)
qed

lemma apply_table:
  assumes ok: "locks_ok st" and r: "request_at st inode p r c n1 n2" and n: "{c, n1, n2} \<inter> set (file_lock_list st) = {}"
  shows "held_at (posix_apply inode c n1 n2 st) = table_lock (held_at st) inode p r"
proof (intro ext)
  fix i q x
  obtain a b t where rr: "r = (a, b, t)" by (cases r)
  note k = locks_okD [OF ok]
  show "held_at (posix_apply inode c n1 n2 st) i q x = table_lock (held_at st) inode p r i q x"
  proof (cases "i = inode")
    case True
    then show ?thesis unfolding True posix_apply_held [OF k(3) r [unfolded rr]] by (simp add: table_lock_def rr)
  next
    case False
    have "held_at (posix_apply inode c n1 n2 st) i q x = held_at st i q x"
    proof (rule held_cong)
      show "i_flock (posix_apply inode c n1 n2 st) i = i_flock st i" by (rule posix_apply_ok(5) [OF k(3) r False])
      fix y
      assume y: "y \<in> set (i_flock st i)"
      have "y \<notin> set (i_flock st inode)" using y False k(1) unfolding waiting_except_def links_ok_def by blast
      then show "lock_view (posix_apply inode c n1 n2 st) y = lock_view st y"
        using n in_inode_on_list [OF k(1) y] by (intro posix_apply_ok(6) [OF k(3) r]) blast
    qed
    then show ?thesis using False by (simp add: table_lock_def rr)
  qed
qed
lemma call_outcome:
  assumes inv: "lock_inv s" and k: "call_ok s inode c p r wait n1 n2"
  defines "st \<equiv> set_request c p r (lk s)"
  shows "\<not> table_conflict (held_at (lk s)) inode p r \<Longrightarrow>
      \<exists>st'. posix_lock_file inode c wait n1 n2 st = Some (Returned 0 st') \<and> held_at st' = table_lock (held_at (lk s)) inode p r"
    and "table_conflict (held_at (lk s)) inode p r \<Longrightarrow> \<not> wait \<Longrightarrow> posix_lock_file inode c wait n1 n2 st = Some (Returned (- EAGAIN) st)"
    and "table_conflict (held_at (lk s)) inode p r \<Longrightarrow> wait \<Longrightarrow>
      \<exists>b\<in>set (i_flock st inode). posix_locks_conflict (fls st c) (fls st b) \<and> posix_lock_file inode c wait n1 n2 st =
        Some (if (process_of st b, p) \<in> (waits_for st)\<^sup>* then Returned (- EDEADLK) st else Sleeping (locks_insert_block b c st))"
    and "held_at st = held_at (lk s)"
proof -
  have d: "distinct [NULL, c, n1, n2]" "{c, n1, n2} \<inter> used_cells s = {}" "request_ok r"
      "no_wrap (ranges (lk s) (locks_of (lk s) inode p)) r"
    using k by (simp_all add: call_ok_def)
  note u = in_useD [OF d(2)] and v = lock_invD [OF inv]
  define s' where "s' = s\<lparr>lk := st\<rparr>"
  have inv': "lock_inv s'" unfolding s'_def st_def by (rule set_request_inv [OF inv]) (use d(2) in blast)
  have ok: "locks_ok st" "waits_once st" using lock_invD(1) [OF inv'] pending_waits_once [OF inv'] by (simp_all add: s'_def)
  show h: "held_at st = held_at (lk s)" unfolding st_def by (rule set_request_held [OF v(3)]) (use u in blast)
  have c: "lock_view st c = (process (fst p) (snd p), r)" by (simp add: st_def set_request_view)
  note t = conflict_table [OF locks_okD(3) [OF ok(1)] c d(3), where inode = inode, unfolded h]
  have f: "posix_lock_file inode c wait n1 n2 st = posix_lock_attempt inode c wait n1 n2 st" using d(1) by (simp add: posix_lock_file_def)
  have n: "c \<notin> set (blocked_list st)" "c \<notin> set (file_lock_list st)" "{n1, n2} \<inter> set (file_lock_list st) = {}" "{n1, n2} \<inter> set (blocked_list st) = {}"
    using u by (auto simp: st_def)
  have free: "fold locks_free_lock [n1, n2] st = st" using free_all_waiting [OF locks_okD(1) [OF ok(1)], of "[n1, n2]"] n by auto
  have lo: "ranges st (locks_of st inode p) = ranges (lk s) (locks_of (lk s) inode p)"
  proof -
    have e: "lock_view st a = lock_view (lk s) a" if "a \<in> set (i_flock (lk s) inode)" for a
      using u(1) in_inode_on_list [OF v(3) that] by (auto simp: st_def set_request_view)
    moreover have "locks_of st inode p = locks_of (lk s) inode p" by (rule locks_of_cong) (simp_all add: st_def e [unfolded st_def])
    ultimately show ?thesis by (simp add: locks_of_mem)
  qed
  have rq: "request_at st inode p r c n1 n2"
    unfolding request_at_def lo using c d n in_inode_on_list [OF locks_okD(1) [OF ok(1)]] by auto
  show "\<exists>st'. posix_lock_file inode c wait n1 n2 st = Some (Returned 0 st') \<and> held_at st' = table_lock (held_at (lk s)) inode p r"
    if "\<not> table_conflict (held_at (lk s)) inode p r"
  proof -
    have "posix_lock_attempt inode c wait n1 n2 st = Some (Returned 0 (posix_apply inode c n1 n2 st))"
      using that t by (auto simp: posix_lock_attempt_def)
    moreover have "held_at (posix_apply inode c n1 n2 st) = table_lock (held_at (lk s)) inode p r"
      using apply_table [OF ok(1) rq] n unfolding h by auto
    ultimately show ?thesis by (simp add: f)
  qed
  show "posix_lock_file inode c wait n1 n2 st = Some (Returned (- EAGAIN) st)" if "table_conflict (held_at (lk s)) inode p r" "\<not> wait"
    using that t free unfolding f posix_lock_attempt_def by auto
  show "\<exists>b\<in>set (i_flock st inode). posix_locks_conflict (fls st c) (fls st b) \<and> posix_lock_file inode c wait n1 n2 st =
        Some (if (process_of st b, p) \<in> (waits_for st)\<^sup>* then Returned (- EDEADLK) st else Sleeping (locks_insert_block b c st))"
    if a: "table_conflict (held_at (lk s)) inode p r" "wait"
  proof -
    obtain b where b: "fl_type (fls st c) \<noteq> F_UNLCK"
        "find (\<lambda>fl. is_posix (fls st fl) \<and> posix_locks_conflict (fls st c) (fls st fl)) (i_flock st inode) = Some b" using a(1) t by auto
    then have b': "b \<in> set (i_flock st inode)" "posix_locks_conflict (fls st c) (fls st b)" by (auto simp: find_Some_iff)
    have "process_of st c = p" using c by (simp add: process_of_view)
    then have "posix_locks_deadlock st (fls st c) (fls st b) = Some ((process_of st b, p) \<in> (waits_for st)\<^sup>*)"
      using deadlock_search [OF locks_okD(5) [OF ok(1)], of p "process_of st b"] ok(2)
      by (auto simp: posix_locks_deadlock_def process_of_def)
    then have "posix_lock_file inode c wait n1 n2 st =
        Some (if (process_of st b, p) \<in> (waits_for st)\<^sup>* then Returned (- EDEADLK) st else Sleeping (locks_insert_block b c st))"
      using b a(2) free unfolding f posix_lock_attempt_def by simp
    then show ?thesis using b' by blast
  qed
qed

lemma wait_chain_ends:
  assumes ac: "acyclic (waits_for st)" and w: "w \<in> set (blocked_list st)"
  shows "\<exists>q. (process_of st w, q) \<in> (waits_for st)\<^sup>+ \<and> (\<forall>w'\<in>set (blocked_list st). process_of st w' \<noteq> q)"
proof -
  have "finite (waits_for st)" by (simp add: waits_for_def)
  then have "wf ((waits_for st)\<inverse>)" using ac by (rule finite_acyclic_wf_converse)
  then have "\<forall>w\<in>set (blocked_list st). process_of st w = p \<longrightarrow>
      (\<exists>q. (p, q) \<in> (waits_for st)\<^sup>+ \<and> (\<forall>w'\<in>set (blocked_list st). process_of st w' \<noteq> q))" for p
  proof (induction p rule: wf_induct_rule)
    case (less p)
    show ?case
    proof (intro ballI impI)
      fix w
      assume w: "w \<in> set (blocked_list st)" "process_of st w = p"
      let ?n = "process_of st (fl_next (fls st w))"
      have e: "(p, ?n) \<in> waits_for st" using w by (auto simp: waits_for_def)
      show "\<exists>q. (p, q) \<in> (waits_for st)\<^sup>+ \<and> (\<forall>w'\<in>set (blocked_list st). process_of st w' \<noteq> q)"
      proof (cases "\<forall>w'\<in>set (blocked_list st). process_of st w' \<noteq> ?n")
        case False
        then obtain q where "(?n, q) \<in> (waits_for st)\<^sup>+" "\<forall>w'\<in>set (blocked_list st). process_of st w' \<noteq> q"
          using less [of ?n] e by blast
        then show ?thesis using e by (meson trancl_into_trancl2)
      qed (use e in blast)
    qed
  qed
  then show ?thesis using w by blast
qed
subsection \<open>Requests of user programs\<close>

lemma s64_wrap:
  assumes "2 ^ 63 \<le> x" "x < 2 ^ 64 + 2 ^ 63"
  shows "loff64 x = x - 2 ^ 64"
proof -
  have "loff64 x = loff64 (x - 2 ^ 64)" unfolding loff64_def signed_take_bit_eq_iff_take_bit_eq take_bit_eq_mod by (simp add: mod_diff_left_eq [symmetric])
  then show ?thesis using assms s64_id [of "x - 2 ^ 64"] by simp
qed

text \<open>The conversion of a request with 64-bit offsets refuses it, or yields exactly the range of bytes that was meant, without wrap-around.\<close>

lemma flock64_range:
  assumes "0 \<le> f_pos" "f_pos < 2 ^ 63" "0 \<le> i_size" "i_size < 2 ^ 63"
    "- (2 ^ 63) \<le> l_start l" "l_start l < 2 ^ 63" "l_len l < 2 ^ 63" "flock64_to_posix_lock f_pos i_size l = Inr r"
  shows "\<exists>base. (l_whence l, base) \<in> {(0, 0), (1, f_pos), (2, i_size)} \<and> 0 \<le> l_len l \<and>
    r = (base + l_start l, if l_len l = 0 then OFFSET_MAX else base + l_start l + l_len l - 1, nat (l_type l)) \<and> request_ok r"
proof -
  obtain base where b: "seek_start loff64 (l_whence l) f_pos i_size = Some base" using assms(8) by (auto simp: flock64_to_posix_lock_def split: option.splits)
  then have w: "(l_whence l, base) \<in> {(0, 0), (1, f_pos), (2, i_size)}" using assms(1-4) by (auto simp: seek_start_def s64_id split: if_splits)
  then have base: "0 \<le> base" "base < 2 ^ 63" using assms(1-4) by auto
  define start where "start = loff64 (base + l_start l)"
  have r: "0 \<le> start" "0 \<le> l_len l" "\<not> (0 < l_len l \<and> loff64 (loff64 (start + l_len l) - 1) < 0)" "l_type l \<in> {0, 1, 2}"
      "r = (start, if l_len l = 0 then OFFSET_MAX else loff64 (loff64 (start + l_len l) - 1), nat (l_type l))"
    using assms(8) b by (auto simp: flock64_to_posix_lock_def Let_def assign_type_def kdefs start_def split: if_splits)
  have start: "start = base + l_start l"
  proof (rule ccontr)
    assume "start \<noteq> base + l_start l"
    then have "2 ^ 63 \<le> base + l_start l" using base assms(5,6) s64_id [of "base + l_start l"] by (fastforce simp: start_def)
    then have "start = base + l_start l - 2 ^ 64" unfolding start_def using base assms(6) by (intro s64_wrap) auto
    then show False using r(1) base assms(6) by simp
  qed
  have s: "start < 2 ^ 63" unfolding start_def loff64_def by (rule signed_take_bit_int_less_exp)
  have end': "loff64 (loff64 (start + l_len l) - 1) = start + l_len l - 1" "start + l_len l - 1 < 2 ^ 63" if "0 < l_len l"
  proof -
    consider "start + l_len l < 2 ^ 63" | "start + l_len l = 2 ^ 63" | "2 ^ 63 < start + l_len l" by linarith
    then have "loff64 (loff64 (start + l_len l) - 1) = start + l_len l - 1 \<and> start + l_len l - 1 < 2 ^ 63"
    proof cases
      case 1
      then show ?thesis using r(1,2) that by (simp add: s64_id)
    next
      case 2
      then show ?thesis by (simp add: loff64_def)
    next
      case 3
      then have e: "loff64 (start + l_len l) = start + l_len l - 2 ^ 64" using s assms(7) by (intro s64_wrap) auto
      then have "loff64 (loff64 (start + l_len l) - 1) = start + l_len l - 2 ^ 64 - 1" using 3 s assms(7) by (simp add: s64_id)
      then show ?thesis using r(3) that s assms(7) by simp
    qed
    then show "loff64 (loff64 (start + l_len l) - 1) = start + l_len l - 1" "start + l_len l - 1 < 2 ^ 63" by auto
  qed
  have rr: "r = (base + l_start l, if l_len l = 0 then OFFSET_MAX else base + l_start l + l_len l - 1, nat (l_type l))"
    using r(2,5) end'(1) start by auto
  moreover have "request_ok r"
    using r(1,2,4) end'(2) s start unfolding rr by (auto simp: request_ok_def kdefs)
  ultimately show ?thesis using w r(2) by blast
qed

lemma conflict_sym:
  assumes "is_posix f" "is_posix g" "fl_type f \<in> {F_RDLCK, F_WRLCK}" "fl_type g \<in> {F_RDLCK, F_WRLCK}"
  shows "posix_locks_conflict f g = posix_locks_conflict g f"
  using assms by (auto simp: posix_locks_conflict_def locks_same_owner_def locks_overlap_def locks_conflict_def kdefs)

lemma flock64_type: "flock64_to_posix_lock f_pos i_size l = Inr (s, e, t) \<Longrightarrow> t = nat (l_type l)"
  by (auto simp: flock64_to_posix_lock_def assign_type_def Let_def split: option.splits if_splits)

lemma flock64_of_range:
  assumes "range_ok (s, e, t)"
  shows "flock64_to_posix_lock f_pos i_size
    \<lparr>l_type = int t, l_whence = 0, l_start = s, l_len = (if e = OFFSET_MAX then 0 else loff64 (loff64 (e - s) + 1))\<rparr> = Inr (s, e, t)"
proof -
  have b: "0 \<le> s" "s \<le> e" "e < 2 ^ 63" "t = F_RDLCK \<or> t = F_WRLCK" using assms by (auto simp: range_ok_def kdefs)
  then show ?thesis
    by (auto simp: flock64_to_posix_lock_def seek_start_def assign_type_def s64_id kdefs)
qed

lemma test_lock_table:
  assumes inv: "lock_inv s" and r: "request_ok r" "snd (snd r) \<noteq> F_UNLCK"
  shows "posix_test_lock inode (request_lock p r f) (lk s) = None \<longleftrightarrow> \<not> table_conflict (held_at (lk s)) inode p r"
proof -
  let ?st = "lk s" and ?fl = "request_lock p r f"
  note k = locks_okD [OF lock_invD(1) [OF inv]]
  obtain c where c: "c \<notin> set (file_lock_list ?st)" using ex_new_if_finite [OF infinite_UNIV_nat finite_set] by blast
  define st' where "st' = set_request c p r ?st"
  have v: "lock_view st' a = lock_view ?st a" if "a \<in> set (i_flock ?st i)" for a i
    using c in_inode_on_list [OF k(1) that] by (auto simp: st'_def set_request_view)
  have ok: "inode_ok st' inode" by (rule inode_ok_cong [OF k(3)]) (simp_all add: st'_def v [unfolded st'_def])
  have vc: "lock_view st' c = (process (fst p) (snd p), r)" by (simp add: st'_def set_request_view)
  have h: "held_at st' = held_at ?st" unfolding st'_def by (rule set_request_held [OF k(1) c])
  have t: "fl_type (fls st' c) \<noteq> F_UNLCK" using vc r(2) by (cases r) (simp add: view_fields)
  have same: "is_posix (fls st' a) \<and> posix_locks_conflict (fls st' c) (fls st' a) \<longleftrightarrow>
      is_posix (fls ?st a) \<and> posix_locks_conflict (fls ?st a) ?fl" if a: "a \<in> set (i_flock ?st inode)" for a
  proof -
    have e: "fls st' a = fls ?st a" using c in_inode_on_list [OF k(1) a] by (auto simp: st'_def set_request_def)
    have "posix_locks_conflict (fls st' c) g = posix_locks_conflict ?fl g" for g
      by (cases r) (simp add: st'_def set_request_def request_lock_def posix_locks_conflict_def locks_same_owner_def locks_overlap_def locks_conflict_def)
    moreover have "posix_locks_conflict ?fl (fls ?st a) = posix_locks_conflict (fls ?st a) ?fl" if p: "is_posix (fls ?st a)"
    proof (rule conflict_sym [OF _ p])
      have "range_ok (range_of (fls ?st a))"
        using inode_ok_process [OF k(3), of inode "process_of ?st a"] a p unfolding process_ok_def ranges_ok_def
        by (auto simp: locks_of_mem process_of_def range_view)
      then show "fl_type (fls ?st a) \<in> {F_RDLCK, F_WRLCK}" by (auto simp: range_ok_def range_of_def)
      show "is_posix ?fl" "fl_type ?fl \<in> {F_RDLCK, F_WRLCK}"
        using r by (cases r; auto simp: request_lock_def is_posix_def request_ok_def kdefs)+
    qed
    ultimately show ?thesis unfolding e by blast
  qed
  have f: "find Q (i_flock ?st inode) = None \<longleftrightarrow> (\<forall>a\<in>set (i_flock ?st inode). \<not> Q a)" for Q by (auto simp: find_None_iff)
  have "i_flock st' = i_flock ?st" by (simp add: st'_def)
  then show ?thesis using conflict_table [OF ok vc r(1)] t same unfolding h posix_test_lock_def by (auto simp: f)
qed

subsection \<open>An example\<close>

text \<open>Process 7 locks the bytes 0 to 9 of file 5 for writing; then process 8 wants to read the bytes 5 to 20 and sleeps.\<close>

definition demo0 :: lock_sys where
  "demo0 = \<lparr>lk = \<lparr>fls = (\<lambda>a. \<lparr>fl_owner = 0, fl_pid = 0, fl_file = 0, fl_flags = 0, fl_type = 0, fl_start = 0, fl_end = 0, fl_block = [], fl_next = NULL\<rparr>),
      i_flock = (\<lambda>i. []), file_lock_list = [], blocked_list = [], woken_locks = [], panicked = False\<rparr>, pend = Map.empty\<rparr>"

definition lock_call :: "nat \<Rightarrow> addr \<Rightarrow> nat \<times> nat \<Rightarrow> range \<Rightarrow> bool \<Rightarrow> lock_sys \<Rightarrow> lock_sys" where
  "lock_call inode c p r wait s =
     complete c (inode, c + 1, c + 2) s (the (posix_lock_file inode c wait (c + 1) (c + 2) (set_request c p r (lk s))))"

definition demo1 :: lock_sys where
  "demo1 = lock_call 5 11 (7, 70) (0, 9, F_WRLCK) True demo0"

definition demo2 :: lock_sys where
  "demo2 = lock_call 5 14 (8, 80) (5, 20, F_RDLCK) True demo1"

lemma demo_call:
  assumes "call_ok s inode c p r wait (c + 1) (c + 2)" "\<not> Option.is_none (posix_lock_file inode c wait (c + 1) (c + 2) (set_request c p r (lk s)))"
  shows "lock_step s (lock_call inode c p r wait s)"
  unfolding lock_call_def using assms
  by (intro lock_step.request) (auto simp: call_ok_def Option.is_none_def)

lemma demo1_lists: "file_lock_list (lk demo1) = [12]" "blocked_list (lk demo1) = []" "i_flock (lk demo1) 5 = [12]"
  by code_simp+

lemma demo2_lists: "file_lock_list (lk demo2) = [12]" "blocked_list (lk demo2) = [14]" "process_of (lk demo2) 14 = (8, 80)"
  by code_simp+

lemma demo1_pend: "pend demo1 = Map.empty"
proof -
  have "case posix_lock_file 5 11 True 12 13 (set_request 11 (7, 70) (0, 9, F_WRLCK) (lk demo0)) of Some (Returned e st) \<Rightarrow> e = 0 | _ \<Rightarrow> False" by code_simp
  then show ?thesis by (auto simp: demo1_def lock_call_def complete_def demo0_def split: option.splits lock_result.splits)
qed

lemma demo2_pend: "pend demo2 = [14 \<mapsto> (5, 15, 16)]"
proof -
  have "case posix_lock_file 5 14 True 15 16 (set_request 14 (8, 80) (5, 20, F_RDLCK) (lk demo1)) of Some (Sleeping st) \<Rightarrow> True | _ \<Rightarrow> False" by code_simp
  then show ?thesis using demo1_pend by (auto simp: demo2_def lock_call_def complete_def split: option.splits lock_result.splits)
qed

lemma demo0_use: "used_cells demo0 = {}"
  by (simp add: used_cells_def demo0_def)

lemma demo1_use: "used_cells demo1 = {12}"
  by (simp add: used_cells_def demo1_lists demo1_pend)

lemma demo0_start: "lock_start demo0"
  by (simp add: lock_start_def demo0_def)

lemma demo0_call: "call_ok demo0 5 11 (7, 70) (0, 9, F_WRLCK) True 12 13"
proof -
  have "no_wrap (ranges (lk demo0) (locks_of (lk demo0) 5 (7, 70))) (0, 9, F_WRLCK)" by code_simp
  then show ?thesis by (simp add: call_ok_def demo0_use request_ok_def kdefs) (simp add: demo0_def)
qed

lemma demo1_call: "call_ok demo1 5 14 (8, 80) (5, 20, F_RDLCK) wait 15 16"
proof -
  have "no_wrap (ranges (lk demo1) (locks_of (lk demo1) 5 (8, 80))) (5, 20, F_RDLCK)" by code_simp
  then show ?thesis by (simp add: call_ok_def demo1_use demo1_pend request_ok_def kdefs)
qed

lemma demo1_reached: "lock_step\<^sup>*\<^sup>* demo0 demo1"
proof -
  have "\<not> Option.is_none (posix_lock_file 5 11 True (11 + 1) (11 + 2) (set_request 11 (7, 70) (0, 9, F_WRLCK) (lk demo0)))" by code_simp
  then have "lock_step demo0 demo1" unfolding demo1_def by (rule demo_call [rotated]) (use demo0_call in simp)
  then show ?thesis by blast
qed

lemma demo2_reached: "lock_step\<^sup>*\<^sup>* demo0 demo2"
proof -
  have "\<not> Option.is_none (posix_lock_file 5 14 True (14 + 1) (14 + 2) (set_request 14 (8, 80) (5, 20, F_RDLCK) (lk demo1)))" by code_simp
  then have "lock_step demo1 demo2" unfolding demo2_def by (rule demo_call [rotated]) (use demo1_call in simp)
  then show ?thesis using demo1_reached by (meson rtranclp.rtrancl_into_rtrancl)
qed
subsection \<open>Properties\<close>








text \<open>
  C38.  F_GETLK with 64-bit offsets tells the truth: in every state that can arise it reports no lock exactly if the request conflicts with nothing that
  another process holds, and otherwise a lock of another process on the file that conflicts with it, described so that the conversion of
  the description yields the range and the type of that lock again.
\<close>

theorem fcntl_getlk64_spec:
  assumes "lock_start s0" "lock_step\<^sup>*\<^sup>* s0 s" "fcntl_getlk64 inode p f_pos i_size blank l (lk s) = Inr (l', owner)"
    and b: "0 \<le> f_pos" "f_pos < 2 ^ 63" "0 \<le> i_size" "i_size < 2 ^ 63" "- (2 ^ 63) \<le> l_start l" "l_start l < 2 ^ 63" "l_len l < 2 ^ 63"
  shows "\<exists>r. flock64_to_posix_lock f_pos i_size l = Inr r \<and>
    (if table_conflict (held_at (lk s)) inode p r
     then \<exists>a\<in>set (i_flock (lk s) inode). process_of (lk s) a \<noteq> p \<and> posix_locks_conflict (fls (lk s) a) (request_lock p r blank) \<and>
       owner = Some (fl_pid (fls (lk s) a)) \<and> flock64_to_posix_lock f_pos i_size l' = Inr (range_of (fls (lk s) a))
     else owner = None \<and> l' = l\<lparr>l_type := int F_UNLCK\<rparr>)"
proof -
  let ?st = "lk s"
  note inv = lkm.reached_inv [OF assms(1,2)]
  note k = locks_okD [OF lock_invD(1) [OF inv]]
  obtain r where r: "flock64_to_posix_lock f_pos i_size l = Inr r" "l_type l = int F_RDLCK \<or> l_type l = int F_WRLCK"
    using assms(3) by (auto simp: fcntl_getlk64_def split: if_splits sum.splits)
  have "request_ok r" "snd (snd r) \<noteq> F_UNLCK"
    using flock64_range [OF b r(1)] flock64_type r by (cases r; auto simp: kdefs)+
  note t = test_lock_table [OF inv this, where inode = inode and p = p and f = blank]
  show ?thesis
  proof (cases "posix_test_lock inode (request_lock p r blank) ?st")
    case None
    then show ?thesis using assms(3) r t by (auto simp: fcntl_getlk64_def split: if_splits)
  next
    case (Some a)
    then have a: "a \<in> set (i_flock ?st inode)" "is_posix (fls ?st a)" "posix_locks_conflict (fls ?st a) (request_lock p r blank)"
      by (auto simp: posix_test_lock_def find_Some_iff)
    have "process_of ?st a \<noteq> p"
      using a(3) by (cases r) (auto simp: posix_locks_conflict_def locks_same_owner_def process_of_def request_lock_def split: if_splits)
    moreover have "range_ok (range_of (fls ?st a))"
      using inode_ok_process [OF k(3), of inode "process_of ?st a"] a unfolding process_ok_def ranges_ok_def
      by (auto simp: locks_of_mem process_of_def range_view)
    then have "range_ok (fl_start (fls ?st a), fl_end (fls ?st a), fl_type (fls ?st a))" by (simp add: range_of_def)
    note rng = flock64_of_range [OF this, of f_pos i_size]
    have "owner = Some (fl_pid (fls ?st a))" and l': "l' = \<lparr>l_type = int (fl_type (fls ?st a)), l_whence = 0, l_start = fl_start (fls ?st a),
        l_len = (if fl_end (fls ?st a) = OFFSET_MAX then 0 else loff64 (loff64 (fl_end (fls ?st a) - fl_start (fls ?st a)) + 1))\<rparr>"
      using assms(3) r Some by (auto simp: fcntl_getlk64_def Let_def)
    moreover have "flock64_to_posix_lock f_pos i_size l' = Inr (range_of (fls ?st a))" using rng unfolding l' range_of_def .
    ultimately show ?thesis using r(1) t a Some by auto
  qed
qed

theorem fcntl_getlk64_spec_witness:
  "flock64_to_posix_lock 0 100 \<lparr>l_type = 1, l_whence = 0, l_start = 0, l_len = 10\<rparr> = Inr (0, 9, F_WRLCK) \<and>
   fcntl_getlk64 5 (8, 80) 0 100 (fls (lk demo1) 99) \<lparr>l_type = 0, l_whence = 0, l_start = 5, l_len = 16\<rparr> (lk demo1) =
     Inr (\<lparr>l_type = 1, l_whence = 0, l_start = 0, l_len = 10\<rparr>, Some 70) \<and>
   table_conflict (held_at (lk demo1)) 5 (8, 80) (5, 20, F_RDLCK)"
proof -
  have e: "fcntl_getlk64 5 (8, 80) 0 100 (fls (lk demo1) 99) \<lparr>l_type = 0, l_whence = 0, l_start = 5, l_len = 16\<rparr> (lk demo1) =
     Inr (\<lparr>l_type = 1, l_whence = 0, l_start = 0, l_len = 10\<rparr>, Some 70)"
    and f: "flock64_to_posix_lock 0 100 \<lparr>l_type = 0, l_whence = 0, l_start = 5, l_len = 16\<rparr> = Inr (5, 20, F_RDLCK)"
    and g: "flock64_to_posix_lock 0 100 \<lparr>l_type = 1, l_whence = 0, l_start = 0, l_len = 10\<rparr> = Inr (0, 9, F_WRLCK)"
    by code_simp+
  then show ?thesis
    using fcntl_getlk64_spec [OF demo0_start demo1_reached e] by (auto split: if_splits)
qed

subsection \<open>Where the code goes wrong\<close>

text \<open>
  The old interface lets a request through whose end wraps around: the byte -5, counted from the start of the file, and the \<open>2\<^sup>31\<close> bytes before it
  become a range that begins after its end.
\<close>

theorem flock_to_posix_lock_wraps:
  "flock_to_posix_lock 0 0 \<lparr>l_type = 1, l_whence = 0, l_start = - 5, l_len = - (2 ^ 31)\<rparr> = Inr (2147483643, - 6, F_WRLCK)"
  by code_simp

text \<open>The old interface reports the lock of the bytes 0 to \<open>2\<^sup>31 - 1\<close> with a negative length, although it checks that the lock can be represented.\<close>

theorem fcntl_getlk_negative:
  "fcntl_getlk 5 (8, 80) 0 100 (fls (lk demo0) 99) \<lparr>l_type = 0, l_whence = 0, l_start = 0, l_len = 1\<rparr>
     (lk (lock_call 5 11 (7, 70) (0, 2 ^ 31 - 1, F_WRLCK) True demo0)) =
     Inr (\<lparr>l_type = 1, l_whence = 0, l_start = 0, l_len = - (2 ^ 31)\<rparr>, Some 70)"
  by code_simp

text \<open>
  A lock of the last byte: when a process locks a whole file twice and then unlocks the bytes 0 to 10, it still holds them, because the
  second request is not merged with the first (\<open>caller->fl_end + 1\<close> overflows) and the list holds two locks for the same bytes.
\<close>

theorem last_byte_lock_remains:
  defines "whole \<equiv> (0, OFFSET_MAX, F_WRLCK)"
  shows "held_at (lk (lock_call 5 17 (7, 70) (0, 10, F_UNLCK) True (lock_call 5 14 (7, 70) whole True (lock_call 5 11 (7, 70) whole True demo0)))) 5 (7, 70) 3
     = Some F_WRLCK"
  unfolding whole_def by code_simp

text \<open>
  Two sleeping threads of a process: 20 waits for 30 and, in another thread, for 40; 30 then waits for 20, which the search does not see because it
  follows only the last request of 20; when that is interrupted by a signal, 20 and 30 wait for each other, and a search that comes to
  them, on behalf of any other process, does not end.
\<close>

definition demo_threads :: lock_sys where
  "demo_threads =
     (let s = lock_call 5 11 (20, 20) (0, 0, F_WRLCK) True demo0;
          s = lock_call 6 21 (30, 30) (0, 0, F_WRLCK) True s;
          s = lock_call 7 31 (40, 40) (0, 0, F_WRLCK) True s;
          s = lock_call 6 41 (20, 20) (0, 0, F_WRLCK) True s;
          s = lock_call 7 51 (20, 20) (0, 0, F_WRLCK) True s;
          s = lock_call 5 61 (30, 30) (0, 0, F_WRLCK) True s
      in complete 51 (7, 52, 53) s (the (posix_lock_woken 7 51 True 52 53 (lk s))))"

lemma deadlock_from_cycle:
  assumes "find (\<lambda>a. process_of st a = p) (blocked_list st) = Some a" "process_of st (fl_next (fls st a)) = q" "p \<noteq> me"
    and "find (\<lambda>a. process_of st a = q) (blocked_list st) = Some b" "process_of st (fl_next (fls st b)) = p" "q \<noteq> me"
  shows "deadlock_from st me p = None"
proof (rule ccontr)
  have f: "find (\<lambda>a. fl_owner (fls st a) = fst r \<and> fl_pid (fls st a) = snd r) (blocked_list st) = find (\<lambda>a. process_of st a = r) (blocked_list st)" for r
    by (simp add: process_of_def prod_eq_iff)
  have "\<not> (st' = st \<and> c = me \<and> x \<in> {p, q})" if "deadlock_from st' c x = Some d" for st' c x d
  proof (rule deadlock_from.raw_induct [OF _ that], rule notI)
    fix g st' c x d
    assume ih: "\<And>st' c x d. g st' c x = Some d \<Longrightarrow> \<not> (st' = st \<and> c = me \<and> x \<in> {p, q})"
      and b: "(if c = x then Some True
        else case find (\<lambda>a. fl_owner (fls st' a) = fst x \<and> fl_pid (fls st' a) = snd x) (blocked_list st') of None \<Rightarrow> Some False
          | Some a \<Rightarrow> let fl = fls st' (fl_next (fls st' a)) in g st' c (fl_owner fl, fl_pid fl)) = Some d"
      and e: "st' = st \<and> c = me \<and> x \<in> {p, q}"
    have "g st me q = Some d \<or> g st me p = Some d" using b e assms f [of p] f [of q] by (auto simp: process_of_def Let_def)
    then show False using ih by blast
  qed
  moreover assume "deadlock_from st me p \<noteq> None"
  ultimately show False by blast
qed

theorem deadlock_search_hangs:
  "\<forall>caller_fl. (fl_owner caller_fl, fl_pid caller_fl) \<notin> {(20, 20), (30, 30)} \<longrightarrow>
     posix_locks_deadlock (lk demo_threads) caller_fl (fls (lk demo_threads) 12) = None"
proof (intro allI impI)
  let ?st = "lk demo_threads"
  have c: "find (\<lambda>a. process_of ?st a = (20, 20)) (blocked_list ?st) = Some 41" "process_of ?st (fl_next (fls ?st 41)) = (30, 30)"
      "find (\<lambda>a. process_of ?st a = (30, 30)) (blocked_list ?st) = Some 61" "process_of ?st (fl_next (fls ?st 61)) = (20, 20)"
      "process_of ?st 12 = (20, 20)"
    by code_simp+
  show "posix_locks_deadlock ?st caller_fl (fls ?st 12) = None" if "(fl_owner caller_fl, fl_pid caller_fl) \<notin> {(20, 20), (30, 30)}" for caller_fl
    using deadlock_from_cycle [OF c(1,2) _ c(3,4), of "(fl_owner caller_fl, fl_pid caller_fl)"] that c(5)
    by (simp add: posix_locks_deadlock_def process_of_def)
qed

end
