(* ===== verification/Spec2Isabelle.thy ===== *)
theory Spec2Isabelle
  imports Resource SocketFilter Rwsem Sem Bootmem Buddy MdDigest Sha Cipher Crc32 KString BrFdb BrProps BrInput KTimer FLockProps
begin

text \<open>
  A verification library for the Linux 2.4.37 kernel of this repository (linux-2.4.37/): the parts
  of the core kernel whose data structures and algorithms can be modelled as they are written, on
  the i386 configuration of the repository (32-bit words, little-endian, one byte per \<open>char\<close>).

  \<^bold>\<open>The parts and how they interact.\<close>  At boot a bitmap allocator hands out pages (mm/bootmem.c); when
  the zones exist it gives its free pages to the buddy allocator (mm/page_alloc.c), which serves every
  later request for pages.  Drivers claim I/O ports and memory ranges in one tree (kernel/resource.c).
  Tasks synchronise through read/write semaphores inside the kernel (lib/rwsem-spinlock.c) and through
  System V semaphore sets across processes (ipc/sem.c); both put tasks on wait queues and wake them.  Processes lock
  ranges of files against each other, wait for ranges and are kept from waiting in a circle (fs/locks.c).  A socket may carry a
  packet filter, a program that is checked once and then run on every packet (net/core/filter.c).  The
  Ethernet bridge (net/bridge/) joins network devices: a spanning tree protocol decides which of its ports forward frames, a
  forwarding database remembers behind which port an address was seen, and the handler of frames consults both.  Whatever has to happen later
  is put off by kernel timers, which the clock interrupt runs (kernel/timer.c).  The
  crypto API drives message digests and ciphers through an interface of function pointers (crypto/).  The string functions,
  the CRC and the byte order macros are the library below all of this (lib/, include/linux/byteorder/).

  \<^bold>\<open>Which theory models what.\<close>

  \<^item> \<open>KPrelude\<close>: widths, error codes, lists threaded through an object store, masks and rounding, and
    the locale \<open>state_machine\<close> (a start predicate, a step relation and an invariant that every step keeps).
  \<^item> \<open>Resource\<close>: kernel/resource.c.  The store \<open>rheap\<close> maps addresses to \<open>struct resource\<close>;
    \<open>request_resource\<close>, \<open>release_resource\<close>, \<open>check_resource\<close>, \<open>find_resource\<close>, \<open>allocate_resource\<close>, \<open>request_region\<close> and
    \<open>release_region\<close> are the functions of those names.  Shown: a request is granted exactly when its
    range is inside the parent and free, the children stay sorted, disjoint and inside, a release
    removes one node and nothing else, nested regions keep the whole tree well-formed, allocated slots
    are aligned and free; and that a hole before the first child can be overlooked by one unit.
  \<^item> \<open>SocketFilter\<close>: net/core/filter.c and \<open>skb_copy_bits\<close> of net/core/skbuff.c.  Shown: every program that
    the checker accepts ends, and reads neither outside the program, nor the scratch memory, nor the packet when the
    packet has room behind its tail; a program that reads beyond a packet without; attaching accounts its memory exactly.
  \<^item> \<open>Rwsem\<close>: lib/rwsem-spinlock.c as a state machine of requests.  Shown by rule induction over
    reachable states: mutual exclusion, no lost wakeup, and that every waiter is served after finitely many releases.
  \<^item> \<open>Sem\<close>: ipc/sem.c, one set: operations, undo, control, exit.  Shown: a sequence of operations
    is all or nothing, values stay in range, \<open>update_queue\<close> loses no wakeup under a condition on the queue; and
    runs of the code that violate the condition, exceed the range at exit or wrap an undo value.
  \<^item> \<open>Bootmem\<close>: mm/bootmem.c.  Shown: allocations are aligned and never overlap, failures are real, the scan returns for
    aligned nodes and loops forever for some others, reserving and freeing touch exactly the right pages.
  \<^item> \<open>Buddy\<close>: one zone of mm/page_alloc.c: set-up, \<open>__free_pages_ok\<close> with its local and deferred lists, \<open>expand\<close>,
    \<open>rmqueue\<close>, \<open>__free_pages\<close>.  Shown: in every reachable state owned blocks are disjoint from each other
    and from the free pages, the free count is exact, no \<open>BUG()\<close>, bitmap overrun or list corruption occurs, an allocation fails only if no
    aligned range is free, freeing undoes allocating, and the hand-over at boot frees exactly the given pages.
  \<^item> \<open>Digest\<close>, \<open>MdDigest\<close>, \<open>Sha\<close>: the contract of a digest context and crypto/md4.c, md5.c, sha1.c, sha256.c.
    Shown: any way of cutting a message into updates gives the reference digest of the whole message.
  \<^item> \<open>Cipher\<close>: crypto/tea.c, crypto/arc4.c and the ECB and CBC modes of crypto/cipher.c.  Shown: decryption inverts
    encryption for the blocks, for CBC in place and between buffers, and for the ARC4 stream; lengths are checked.
  \<^item> \<open>Crc32\<close>: lib/crc32.c, lib/gen_crc32table.c and the generated tcc/crc32table.h.  Shown: all variants
    compute the same function, the compiled tables are what the generator computes, and the test program never fails.
  \<^item> \<open>KString\<close>: lib/string.c on a byte-addressed memory with overlapping areas.
  \<^item> \<open>BrBase\<close>: the structures of the bridge (net/bridge/br_private.h) and its timers; identifiers are ordered
    as \<open>memcmp\<close> compares them (an instance of \<open>linorder\<close>).
  \<^item> \<open>BrFdb\<close>: br_fdb.c.  Shown: the hash table with its reference counts never touches a freed entry and leaks none, and
    implements a map from addresses to ports.
  \<^item> \<open>BrStp\<close>: br_stp.c, br_stp_bpdu.c, br_stp_timer.c, br_stp_if.c and what changes a bridge in br_if.c, br_device.c, br_notify.c
    and br_ioctl.c.  Shown here: how the root port is chosen and which ports leave the blocking state.
  \<^item> \<open>BrInv\<close>: every handler returns and keeps the invariant \<open>bridge_ok\<close>; the state machine \<open>br_step\<close> of everything that can happen
    to a bridge.  \<open>BrProps\<close>: the protocol is safe whatever frames arrive, with one exception that is characterised exactly and shown
    to be reachable; the root port is the best one; ports forward only after the forward delay; better roots are accepted; messages
    survive the wire; and that received information lives twice as long as it should.
  \<^item> \<open>BrInput\<close>: br_input.c, br_forward.c and the transmission of br_device.c, on top of the three above.  Shown: a frame goes out on exactly the
    right forwarding ports, none passes a blocked port, and learned addresses direct later frames.
  \<^item> \<open>KTimer\<close>: the timer wheel of kernel/timer.c, with arbitrary timer functions.  Shown: a pending timer is called exactly once and in the
    tick of its expiry, across cascades and the wrap-around of the clock, the wheel implements a map from timers to expiries, and running it ends;
    and that timers with one expiry are not called in the order they were added.
  \<^item> \<open>FLock\<close>, \<open>FLockScan\<close>, \<open>FLockWait\<close>, \<open>FLockSys\<close>, \<open>FLockProps\<close>: POSIX record locks of fs/locks.c.  The first holds the definitions and a
    reference algorithm on lists of ranges, the second proves the loop of \<open>posix_lock_file\<close> against it, the third follows the lists of locks and
    waiting requests through each operation, the fourth is the state machine of tasks that lock, sleep, wake and close.  Shown: locking
    changes exactly the bytes of a request and what it returns is decided by a table of locks per byte, a byte locked for writing has one
    holder, no request sleeps without a conflicting lock or in a circle, the search for deadlocks ends and is exact when one
    thread of a process waits at a time, F_GETLK describes locks faithfully; and that locks of the last byte of a file are not merged,
    that the search hangs when two threads of a process wait, and that the 32-bit interface wraps around.

  \<^bold>\<open>Interfaces.\<close>  Contracts between components are locales, each interpreted on the model:
  \<open>state_machine\<close> on the semaphores, the two page allocators, the forwarding database, the whole bridge, the timers and the record locks (\<open>rwm\<close>, \<open>semm\<close>, \<open>bsm\<close>, \<open>btm\<close>, \<open>fdbm\<close>, \<open>brm\<close>, \<open>tmr\<close>, \<open>lkm\<close>); \<open>page_sink\<close> and its extension
  \<open>page_allocator\<close> on the buddy allocator (\<open>bootsink\<close>, \<open>zal\<close>), the former being all that the boot allocator relies on; \<open>incremental_hash\<close>
  on the four digests; \<open>block_cipher\<close> on the three block ciphers, whence CBC; \<open>crc_table\<close> on the two tables, whence the
  byte-at-a-time CRC.

  \<^bold>\<open>Conventions.\<close>  Integers whose overflow matters are words; the others are natural numbers or integers with the bound stated
  in their theory.  Objects that C reaches through pointers live in explicit stores.  A loop that may run forever is a partial function
  whose value None means that it does not return, and returning is then a theorem; no fuel is used
  anywhere.  In \<open>Buddy\<close> None is a \<open>BUG()\<close> or an access outside an object, in \<open>SocketFilter\<close> such an access is
  the result \<open>Wild\<close>; in the theories of the bridge None is the use of a NULL or dangling pointer.  Functions that run under a lock are atomic steps.  Bounds that theorems assume: fewer than 2^29 bytes per
  call of a SHA update (the theorem \<open>sha_count_truncated\<close> shows that the bound is needed), zones of fewer
  than 2^32 pages, addresses and sizes of the boot allocator whose sums stay below 2^32, delays of the bridge that are positive
  and below 2^31 jiffies, of which there are 1000 per second (include/asm-i386/param.h);
  record locks that reach the last possible byte only where the process has no lock of the same type at or behind their start.

  \<^bold>\<open>Not modelled.\<close>  Hardware and processor state (arch/, drivers/, interrupts, page tables), code whose behaviour is
  that of many interacting subsystems (the scheduler, the page cache, file systems, the protocol stacks),
  the choice between zones and page reclaim, \<open>/proc\<close> output, module registration, and the scatterlist walk of the crypto API.  Of
  the bridge: the reports to user space, the creation of whole bridges, netfilter hooks and packet counters.  Of file locks: \<open>flock\<close>,
  leases, mandatory locks and locks of remote file systems.
  What such code answers to the modelled code is an argument of the model (permission checks, allocation
  failures, user copies, time).
\<close>

section \<open>From the boot allocator to the page allocator\<close>

text \<open>
  \<open>free_all_bootmem_core\<close> with the allocator that it fills: every page it gives up, those of its map
  (which starts at page \<open>map_page\<close> of the node) last, goes through \<open>__free_page\<close> of the zone.  The node is one zone here.
\<close>

definition free_all_bootmem_node :: "bootmem_data \<Rightarrow> nat \<Rightarrow> mm_state \<Rightarrow> (nat \<times> mm_state) option" where
  "free_all_bootmem_node bdata map_page st =
     (let (total, freed) = free_all_bootmem_core bdata;
          mappages = total - length freed
      in map_option (Pair total) (give_pages boot_free_page (freed @ [map_page ..< map_page + mappages]) st))"

definition map_pages_of :: "bootmem_data \<Rightarrow> nat \<Rightarrow> nat set" where
  "map_pages_of bdata map_page =
     {map_page ..< map_page + (fst (free_all_bootmem_core bdata) - length (snd (free_all_bootmem_core bdata)))}"



end
